(* ===== verification/Prelude.thy ===== *)
theory Prelude
  imports Main "HOL-Library.Word" "HOL-Library.Monad_Syntax" "HOL-Library.Sublist"
begin

text \<open>
  Shared vocabulary of the development: the C integer types as words, the ASCII codes the sources
  write as character constants, memory as byte lists with checked reads, the string functions of
  the C library that the sources call (\<open>memchr\<close>, \<open>memrchr\<close>, \<open>strchr\<close>, \<open>strncmp\<close>), and the
  generic lemmas and interfaces (locales) the component theories share.
\<close>

unbundle bit_operations_syntax

section \<open>Machine types\<close>

type_synonym byte = "8 word"
type_synonym u16 = "16 word"
type_synonym u32 = "32 word"
type_synonym u64 = "64 word"

text \<open>A buffer is the list of its bytes; a pointer into it is an offset.\<close>

type_synonym mem = "byte list"

section \<open>Character constants\<close>

abbreviation NUL :: byte where "NUL \<equiv> 0"
abbreviation BEL :: byte where "BEL \<equiv> 7"
abbreviation BS :: byte where "BS \<equiv> 8"
abbreviation TAB :: byte where "TAB \<equiv> 9"
abbreviation LF :: byte where "LF \<equiv> 10"
abbreviation VT :: byte where "VT \<equiv> 11"
abbreviation FF :: byte where "FF \<equiv> 12"
abbreviation CR :: byte where "CR \<equiv> 13"
abbreviation ESC :: byte where "ESC \<equiv> 27"
abbreviation SPACE :: byte where "SPACE \<equiv> 32"
abbreviation DQUOTE :: byte where "DQUOTE \<equiv> 34"
abbreviation HASH :: byte where "HASH \<equiv> 35"
abbreviation PERCENT :: byte where "PERCENT \<equiv> 37"
abbreviation AMP :: byte where "AMP \<equiv> 38"
abbreviation APOS :: byte where "APOS \<equiv> 39"
abbreviation STAR :: byte where "STAR \<equiv> 42"
abbreviation PLUS :: byte where "PLUS \<equiv> 43"
abbreviation MINUS :: byte where "MINUS \<equiv> 45"
abbreviation DOT :: byte where "DOT \<equiv> 46"
abbreviation SLASH :: byte where "SLASH \<equiv> 47"
abbreviation DIGIT0 :: byte where "DIGIT0 \<equiv> 48"
abbreviation COLON :: byte where "COLON \<equiv> 58"
abbreviation SEMI :: byte where "SEMI \<equiv> 59"
abbreviation LESS :: byte where "LESS \<equiv> 60"
abbreviation EQUALS :: byte where "EQUALS \<equiv> 61"
abbreviation GREATER :: byte where "GREATER \<equiv> 62"
abbreviation QUERY :: byte where "QUERY \<equiv> 63"
abbreviation AT :: byte where "AT \<equiv> 64"
abbreviation LBRACK :: byte where "LBRACK \<equiv> 91"
abbreviation BSLASH :: byte where "BSLASH \<equiv> 92"
abbreviation RBRACK :: byte where "RBRACK \<equiv> 93"
abbreviation CARET :: byte where "CARET \<equiv> 94"
abbreviation UNDERBAR :: byte where "UNDERBAR \<equiv> 95"
abbreviation BAR :: byte where "BAR \<equiv> 124"

text \<open>The bytes of a C string literal, without its terminator.\<close>

definition bytes :: "string \<Rightarrow> byte list" where
  "bytes s = map of_char s"

lemma bytes_simps [simp]:
  "bytes [] = []" "bytes (c # s) = of_char c # bytes s"
  by (simp_all add: bytes_def)

lemma length_bytes [simp]: "length (bytes s) = length s"
  by (simp add: bytes_def)

section \<open>Quantifying over the 256 bytes\<close>

lemma unat_byte_less: "unat (c :: byte) < 256"
proof -
  have "unat c < 2 ^ LENGTH(8)" by (rule unsigned_less)
  then show ?thesis by simp
qed

text \<open>All bytes in order, built from nibbles so that walking the list stays cheap.\<close>

definition nibbles :: "byte list" where
  "nibbles = [0, 1, 2, 3, 4, 5, 6, 7, 8, 9, 10, 11, 12, 13, 14, 15]"

definition all_bytes :: "byte list" where
  "all_bytes = concat (map (\<lambda>h. map (\<lambda>l. 16 * h + l) nibbles) nibbles)"

lemma all_bytes_upt: "all_bytes = map word_of_nat [0..<256]"
  by code_simp

lemma length_all_bytes [simp]: "length all_bytes = 256"
  by (simp add: all_bytes_upt)

lemma all_bytes_nth: "n < 256 \<Longrightarrow> all_bytes ! n = word_of_nat n"
  by (simp add: all_bytes_upt)

lemma all_bytes_unat: "all_bytes ! unat (c :: byte) = c"
  by (simp add: all_bytes_nth unat_byte_less)

lemma all_byte: "(\<forall>c :: byte. P c) \<longleftrightarrow> list_all P all_bytes"
proof
  assume "list_all P all_bytes"
  then have "P (all_bytes ! unat c)" for c :: byte
    using unat_byte_less [of c] by (simp add: list_all_length)
  then show "\<forall>c. P c" by (simp add: all_bytes_unat)
qed (simp add: list_all_iff)

lemma all_byteI: "list_all P all_bytes \<Longrightarrow> P c"
  using all_byte [of P] by blast

lemma distinct_all_bytes: "distinct all_bytes"
proof -
  have "inj_on (word_of_nat :: nat \<Rightarrow> byte) {0..<256}"
    by (rule inj_on_inverseI [where g = unat]) (simp add: unat_of_nat)
  then show ?thesis by (simp add: all_bytes_upt distinct_map)
qed

text \<open>
  The sources classify characters by 256-entry tables. A fact about every entry is checked once
  per entry, walking the table and its indices together.
\<close>

locale byte_table =
  fixes tab :: "'a list"
  assumes len256: "length tab = 256"
begin

lemma lookup_allI:
  assumes "list_all (\<lambda>(i, v). P i v) (zip all_bytes tab)"
  shows "P c (tab ! unat c)"
proof -
  have "unat c < length (zip all_bytes tab)"
    using unat_byte_less [of c] by (simp add: len256)
  with assms have "(\<lambda>(i, v). P i v) (zip all_bytes tab ! unat c)"
    by (simp add: list_all_length)
  then show ?thesis
    using unat_byte_less [of c] by (simp add: len256 all_bytes_unat)
qed

lemma lookup_mem: "tab ! unat (c :: byte) \<in> set tab"
  using unat_byte_less [of c] by (simp add: len256)

end

section \<open>Lists\<close>

text \<open>Induction in steps of three, for coders that work on groups.\<close>

lemma list_induct_triple [case_names Nil One Two Three]:
  assumes "P []" "\<And>a. P [a]" "\<And>a b. P [a, b]" "\<And>a b c xs. P xs \<Longrightarrow> P (a # b # c # xs)"
  shows "P xs"
  using assms by induction_schema (pat_completeness, lexicographic_order)

lemma find_append: "find P (xs @ ys) = (case find P xs of None \<Rightarrow> find P ys | Some x \<Rightarrow> Some x)"
  by (induction xs) auto

section \<open>Checked reads\<close>

text \<open>
  Reading outside a buffer is undefined in C: the model answers \<open>None\<close>. A negative offset is
  outside as well, so the offset is an \<open>int\<close> where the source looks behind a pointer.
\<close>

definition rd :: "mem \<Rightarrow> nat \<Rightarrow> byte option" where
  "rd m i = (if i < length m then Some (m ! i) else None)"

definition rdi :: "mem \<Rightarrow> int \<Rightarrow> byte option" where
  "rdi m i = (if 0 \<le> i then rd m (nat i) else None)"

lemma rd_append1 [simp]: "i < length xs \<Longrightarrow> rd (xs @ ys) i = Some (xs ! i)"
  by (simp add: rd_def nth_append)

lemma rd_append2 [simp]: "length xs \<le> i \<Longrightarrow> rd (xs @ ys) i = rd ys (i - length xs)"
  by (auto simp: rd_def nth_append)

lemma rd_Cons_0 [simp]: "rd (x # xs) 0 = Some x"
  by (simp add: rd_def)

lemma rd_Cons_Suc [simp]: "rd (x # xs) (Suc i) = rd xs i"
  by (simp add: rd_def)

lemma rd_Cons_numeral [simp]: "rd (x # xs) (numeral k) = rd xs (pred_numeral k)" "rd (x # xs) 1 = rd xs 0"
  by (simp_all add: numeral_eq_Suc)

lemma rd_Nil [simp]: "rd [] i = None"
  by (simp add: rd_def)

lemma rd_Some_iff: "rd m i = Some c \<longleftrightarrow> i < length m \<and> m ! i = c"
  by (auto simp: rd_def)

lemma rd_None_iff: "rd m i = None \<longleftrightarrow> length m \<le> i"
  by (auto simp: rd_def)

lemma rd_drop: "rd (drop k m) i = rd m (k + i)"
  by (auto simp: rd_def)

section \<open>The C library on byte lists\<close>

text \<open>
  \<open>memchr (s, c, n)\<close> and \<open>memrchr (s, c, n)\<close> answer the offset of the first and of the last \<open>c\<close>
  among the bytes given, \<open>None\<close> for the null pointer.
\<close>

fun memchr :: "byte list \<Rightarrow> byte \<Rightarrow> nat option" where
  "memchr [] c = None"
| "memchr (x # xs) c = (if x = c then Some 0 else map_option Suc (memchr xs c))"

fun memrchr :: "byte list \<Rightarrow> byte \<Rightarrow> nat option" where
  "memrchr [] c = None"
| "memrchr (x # xs) c =
     (case memrchr xs c of
        Some i \<Rightarrow> Some (Suc i)
      | None \<Rightarrow> if x = c then Some 0 else None)"

text \<open>
  \<open>strchr (s, c)\<close> as a truth value, for the contents \<open>s\<close> of a C string: the search includes the
  terminator, so it finds \<open>NUL\<close> in every string.
\<close>

definition strchr :: "byte list \<Rightarrow> byte \<Rightarrow> bool" where
  "strchr s c \<longleftrightarrow> c = NUL \<or> c \<in> set s"

text \<open>
  \<open>strncmp (a, b, n) == 0\<close>: the comparison reads both operands byte by byte, and stops at the
  first difference, at a common terminator, or after \<open>n\<close> bytes.
\<close>

fun strneq :: "byte list \<Rightarrow> byte list \<Rightarrow> nat \<Rightarrow> bool option" where
  "strneq a b 0 = Some True"
| "strneq (x # a) (y # b) (Suc n) =
     (if x \<noteq> y then Some False else if x = NUL then Some True else strneq a b n)"
| "strneq a b (Suc n) = None"

lemma strneq_numeral:
  "strneq (x # a) (y # b) (numeral k) =
     (if x \<noteq> y then Some False else if x = NUL then Some True else strneq a b (pred_numeral k))"
  "strneq (x # a) (y # b) 1 = Some (x = y)"
  by (simp_all add: numeral_eq_Suc One_nat_def)

lemma memchr_None: "memchr xs c = None \<longleftrightarrow> c \<notin> set xs"
  by (induction xs) auto

lemma memchr_Some:
  "memchr xs c = Some i \<longleftrightarrow> i < length xs \<and> xs ! i = c \<and> c \<notin> set (take i xs)"
proof (induction xs arbitrary: i)
  case (Cons x xs)
  show ?case by (cases i) (auto simp: Cons.IH)
qed simp

lemma memchr_append:
  "memchr (xs @ ys) c =
     (case memchr xs c of Some i \<Rightarrow> Some i | None \<Rightarrow> map_option ((+) (length xs)) (memchr ys c))"
proof (induction xs)
  case Nil
  show ?case by (cases "memchr ys c") auto
next
  case (Cons x xs)
  then show ?case by (cases "memchr ys c") (auto split: option.splits)
qed

lemma memrchr_None: "memrchr xs c = None \<longleftrightarrow> c \<notin> set xs"
  by (induction xs) (auto split: option.splits)

lemma memrchr_Some:
  "memrchr xs c = Some i \<longleftrightarrow> i < length xs \<and> xs ! i = c \<and> c \<notin> set (drop (Suc i) xs)"
proof (induction xs arbitrary: i)
  case (Cons x xs)
  show ?case
  proof (cases i)
    case 0
    then show ?thesis using memrchr_None [of xs c] by (cases "memrchr xs c") auto
  next
    case (Suc j)
    then show ?thesis
      using Cons.IH [of j] memrchr_None [of xs c] by (cases "memrchr xs c") auto
  qed
qed simp

lemma strneq_prefix:
  "length b = n \<Longrightarrow> NUL \<notin> set b \<Longrightarrow> n \<le> length a \<Longrightarrow> strneq a b n = Some (prefix b a)"
proof (induction a b n rule: strneq.induct)
  case (2 x a y b n)
  then show ?case by auto
qed auto

section \<open>Words\<close>

lemma odd_mult_inj:
  fixes a x y :: "'a :: len word"
  assumes "odd a" and "a * x = a * y"
  shows "x = y"
proof -
  let ?n = "LENGTH('a)"
  have "uint a * uint x mod 2 ^ ?n = uint a * uint y mod 2 ^ ?n"
    using assms(2) by (metis uint_word_ariths(3))
  then have "2 ^ ?n dvd uint a * uint x - uint a * uint y"
    by (simp add: mod_eq_dvd_iff)
  then have d: "2 ^ ?n dvd uint a * (uint x - uint y)"
    by (simp add: algebra_simps)
  have "odd (uint a)"
    using assms(1) by transfer (simp add: even_take_bit_eq)
  then have "coprime (2 ^ ?n) (uint a)"
    by (simp add: coprime_commute)
  with d have "2 ^ ?n dvd uint x - uint y"
    by (simp add: coprime_dvd_mult_right_iff)
  then have "uint x mod 2 ^ ?n = uint y mod 2 ^ ?n"
    by (simp only: mod_eq_dvd_iff)
  then show ?thesis
    by (simp add: word_uint_eq_iff)
qed

lemma mult_odd_injR: "odd a \<Longrightarrow> x * a = y * a \<Longrightarrow> x = (y :: 'a :: len word)"
  by (rule odd_mult_inj [of a]) (simp_all add: mult.commute)

lemma and_0x0F: "x AND 0x0F = take_bit 4 (x :: 'a :: len word)"
proof -
  have "(0x0F :: 'a word) = mask 4" by (simp add: mask_eq_exp_minus_1)
  then show ?thesis by (simp add: take_bit_eq_mask)
qed

lemma bits_join: "push_bit k (drop_bit k m) OR take_bit k m = (m :: 'a :: len word)"
  by (rule bit_word_eqI) (auto simp: bit_simps)

lemma nibble_step:
  "push_bit 4 (drop_bit (s + 4) n) OR (drop_bit s n AND 0x0F) = drop_bit s (n :: 'a :: len word)"
  using bits_join [of 4 "drop_bit s n"] by (simp add: and_0x0F add.commute)

lemma xor_inj: "(a :: 'a :: len word) XOR x = a XOR y \<Longrightarrow> x = y"
  by (metis xor.left_commute xor_self_eq xor.right_neutral)

section \<open>Coders\<close>

text \<open>
  Interface of an encoder and its decoder: the decoder answers \<open>None\<close> where the C code reads
  outside its input, and gives back every source of the domain. What a client needs follows:
  the encoding can be undone, so it is injective there, and the decoder never faults on it.
\<close>

locale codec =
  fixes enc :: "'a \<Rightarrow> 'b" and dec :: "'b \<Rightarrow> 'a option" and ok :: "'a \<Rightarrow> bool"
  assumes dec_enc: "ok x \<Longrightarrow> dec (enc x) = Some x"
begin

lemma enc_inj_on: "inj_on enc {x. ok x}"
  by (rule inj_onI) (metis dec_enc mem_Collect_eq option.inject)

lemma enc_eq_iff: "ok x \<Longrightarrow> ok y \<Longrightarrow> enc x = enc y \<longleftrightarrow> x = y"
  by (metis dec_enc option.inject)

lemma dec_no_fault: "ok x \<Longrightarrow> dec (enc x) \<noteq> None"
  by (simp add: dec_enc)

end

end
