(* ===== verification/Ctype.thy ===== *)
theory Ctype
  imports Prelude
begin

text \<open>
  Character classification and conversion (\<open>src/ulib/base/utility.c\<close>, the tables \<open>u__ct_tab\<close>,
  \<open>u__ct_tol\<close> and \<open>u__ct_tou\<close>, and the inline functions of \<open>include/ulib/base/utility.h\<close> that
  read them), the digit tables of \<open>base.c\<close>, and the hexadecimal and octal conversions. Each
  predicate is characterised by the set of bytes it accepts, checked over the whole table; these
  characterisations (collection \<open>char_class\<close>) are what the component theories use.
\<close>

named_theorems char_class

section \<open>The tables\<close>

abbreviation ct_S :: u16 where "ct_S \<equiv> 0x0001"
abbreviation ct_M :: u16 where "ct_M \<equiv> 0x0002"
abbreviation ct_N :: u16 where "ct_N \<equiv> 0x0004"
abbreviation ct_O :: u16 where "ct_O \<equiv> 0x0008"
abbreviation ct_B :: u16 where "ct_B \<equiv> 0x0010"
abbreviation ct_R :: u16 where "ct_R \<equiv> 0x0020"
abbreviation ct_W :: u16 where "ct_W \<equiv> 0x0040"
abbreviation ct_C :: u16 where "ct_C \<equiv> 0x0080"
abbreviation ct_D :: u16 where "ct_D \<equiv> 0x0100"
abbreviation ct_L :: u16 where "ct_L \<equiv> 0x0200"
abbreviation ct_I :: u16 where "ct_I \<equiv> 0x0400"
abbreviation ct_U :: u16 where "ct_U \<equiv> 0x0800"
abbreviation ct_F :: u16 where "ct_F \<equiv> 0x1000"
abbreviation ct_T :: u16 where "ct_T \<equiv> 0x2000"
abbreviation ct_X :: u16 where "ct_X \<equiv> 0x4000"
abbreviation ct_CW :: u16 where "ct_CW \<equiv> ct_C OR ct_W"
abbreviation ct_CT :: u16 where "ct_CT \<equiv> ct_C OR ct_T"
abbreviation ct_CF :: u16 where "ct_CF \<equiv> ct_C OR ct_F"
abbreviation ct_DT :: u16 where "ct_DT \<equiv> ct_D OR ct_T"
abbreviation ct_UT :: u16 where "ct_UT \<equiv> ct_U OR ct_T"
abbreviation ct_LU :: u16 where "ct_LU \<equiv> ct_L OR ct_U"
abbreviation ct_LX :: u16 where "ct_LX \<equiv> ct_L OR ct_X"
abbreviation ct_LT :: u16 where "ct_LT \<equiv> ct_L OR ct_T"
abbreviation ct_UX :: u16 where "ct_UX \<equiv> ct_U OR ct_X"
abbreviation ct_WB :: u16 where "ct_WB \<equiv> ct_W OR ct_B"
abbreviation ct_WF :: u16 where "ct_WF \<equiv> ct_W OR ct_F"
abbreviation ct_IF :: u16 where "ct_IF \<equiv> ct_I OR ct_F"
abbreviation ct_IT :: u16 where "ct_IT \<equiv> ct_I OR ct_T"
abbreviation ct_ITO :: u16 where "ct_ITO \<equiv> ct_I OR ct_T OR ct_O"
abbreviation ct_ITN :: u16 where "ct_ITN \<equiv> ct_I OR ct_T OR ct_N"
abbreviation ct_ITM :: u16 where "ct_ITM \<equiv> ct_I OR ct_T OR ct_M"
abbreviation ct_LXT :: u16 where "ct_LXT \<equiv> ct_L OR ct_X OR ct_T"
abbreviation ct_UXT :: u16 where "ct_UXT \<equiv> ct_U OR ct_X OR ct_T"
abbreviation ct_WBT :: u16 where "ct_WBT \<equiv> ct_W OR ct_B OR ct_T"
abbreviation ct_CWT :: u16 where "ct_CWT \<equiv> ct_C OR ct_W OR ct_T"
abbreviation ct_CWB :: u16 where "ct_CWB \<equiv> ct_C OR ct_W OR ct_B"
abbreviation ct_CWF :: u16 where "ct_CWF \<equiv> ct_C OR ct_W OR ct_F"
abbreviation ct_CWR :: u16 where "ct_CWR \<equiv> ct_C OR ct_W OR ct_R"
abbreviation ct_CWBT :: u16 where "ct_CWBT \<equiv> ct_C OR ct_W OR ct_B OR ct_T"
abbreviation ct_CWRT :: u16 where "ct_CWRT \<equiv> ct_C OR ct_W OR ct_R OR ct_T"
abbreviation ct_SWBT :: u16 where "ct_SWBT \<equiv> ct_S OR ct_W OR ct_B OR ct_T"

definition u__ct_tab :: "u16 list" where
  "u__ct_tab = [
    ct_CF, ct_CF, ct_CF, ct_CF, ct_CF, ct_CF, ct_CF, ct_CT, ct_CT, ct_CWBT, ct_CWRT, ct_CWF, ct_CWT, ct_CWRT, ct_CF, ct_CF,
    ct_CF, ct_CF, ct_CF, ct_CF, ct_CF, ct_CF, ct_CF, ct_CF, ct_CF, ct_CF, ct_CF, ct_CT, ct_CF, ct_CF, ct_CF, ct_CF,
    ct_SWBT, ct_IT, ct_IT, ct_IT, ct_IT, ct_IT, ct_IT, ct_IT, ct_IT, ct_IT, ct_IT, ct_IT, ct_IT, ct_ITO, ct_ITN, ct_IT,
    ct_DT, ct_DT, ct_DT, ct_DT, ct_DT, ct_DT, ct_DT, ct_DT, ct_DT, ct_DT, ct_IT, ct_IT, ct_IT, ct_IT, ct_IT, ct_IT,
    ct_IT, ct_UXT, ct_UXT, ct_UXT, ct_UXT, ct_UXT, ct_UXT, ct_UT, ct_UT, ct_UT, ct_UT, ct_UT, ct_UT, ct_UT, ct_UT, ct_UT,
    ct_UT, ct_UT, ct_UT, ct_UT, ct_UT, ct_UT, ct_UT, ct_UT, ct_UT, ct_UT, ct_UT, ct_IT, ct_IT, ct_IT, ct_IT, ct_ITM,
    ct_IT, ct_LXT, ct_LXT, ct_LXT, ct_LXT, ct_LXT, ct_LXT, ct_LT, ct_LT, ct_LT, ct_LT, ct_LT, ct_LT, ct_LT, ct_LT, ct_LT,
    ct_LT, ct_LT, ct_LT, ct_LT, ct_LT, ct_LT, ct_LT, ct_LT, ct_LT, ct_LT, ct_LT, ct_IT, ct_IT, ct_IT, ct_IT, ct_CF,
    ct_CF, ct_CF, ct_CF, ct_CF, ct_CF, ct_CF, ct_CF, ct_CF, ct_CF, ct_CF, ct_CF, ct_CF, ct_CF, ct_CF, ct_CF, ct_CF,
    ct_CF, ct_CF, ct_CF, ct_CF, ct_CF, ct_CF, ct_CF, ct_CF, ct_CF, ct_CF, ct_CF, ct_CF, ct_CF, ct_CF, ct_CF, ct_CF,
    ct_WF, ct_IF, ct_IF, ct_IF, ct_IF, ct_IF, ct_IF, ct_IF, ct_IF, ct_IF, ct_IF, ct_IF, ct_IF, ct_IF, ct_IF, ct_IF,
    ct_IF, ct_IF, ct_IF, ct_IF, ct_IF, ct_IF, ct_IF, ct_IF, ct_IF, ct_IF, ct_IF, ct_IF, ct_IF, ct_IF, ct_IF, ct_IF,
    ct_F, ct_F, ct_F, ct_F, ct_F, ct_F, ct_F, ct_F, ct_F, ct_F, ct_F, ct_F, ct_F, ct_F, ct_F, ct_F,
    ct_F, ct_F, ct_F, ct_F, ct_F, ct_F, ct_F, ct_IF, ct_F, ct_F, ct_F, ct_F, ct_F, ct_F, ct_F, ct_F,
    ct_F, ct_F, ct_F, ct_F, ct_F, ct_F, ct_F, ct_F, ct_F, ct_F, ct_F, ct_F, ct_F, ct_F, ct_F, ct_F,
    ct_F, ct_F, ct_F, ct_F, ct_F, ct_F, ct_F, ct_IF, ct_F, ct_F, ct_F, ct_F, ct_F, ct_F, ct_F, ct_F]"

definition u__ct_tol :: "byte list" where
  "u__ct_tol = [
    0, 1, 2, 3, 4, 5, 6, 7, 8, 9, 10, 11, 12, 13, 14, 15,
    16, 17, 18, 19, 20, 21, 22, 23, 24, 25, 26, 27, 28, 29, 30, 31,
    32, 33, 34, 35, 36, 37, 38, 39, 40, 41, 42, 43, 44, 45, 46, 47,
    48, 49, 50, 51, 52, 53, 54, 55, 56, 57, 58, 59, 60, 61, 62, 63,
    64, 97, 98, 99, 100, 101, 102, 103, 104, 105, 106, 107, 108, 109, 110, 111,
    112, 113, 114, 115, 116, 117, 118, 119, 120, 121, 122, 91, 92, 93, 94, 95,
    96, 97, 98, 99, 100, 101, 102, 103, 104, 105, 106, 107, 108, 109, 110, 111,
    112, 113, 114, 115, 116, 117, 118, 119, 120, 121, 122, 123, 124, 125, 126, 127,
    128, 129, 130, 131, 132, 133, 134, 135, 136, 137, 138, 139, 140, 141, 142, 143,
    144, 145, 146, 147, 148, 149, 150, 151, 152, 153, 154, 155, 156, 157, 158, 159,
    160, 161, 162, 163, 164, 165, 166, 167, 168, 169, 170, 171, 172, 173, 174, 175,
    176, 177, 178, 179, 180, 181, 182, 183, 184, 185, 186, 187, 188, 189, 190, 191,
    224, 225, 226, 227, 228, 229, 230, 231, 232, 233, 234, 235, 236, 237, 238, 239,
    240, 241, 242, 243, 244, 245, 246, 215, 248, 249, 250, 251, 252, 253, 254, 223,
    224, 225, 226, 227, 228, 229, 230, 231, 232, 233, 234, 235, 236, 237, 238, 239,
    240, 241, 242, 243, 244, 245, 246, 247, 248, 249, 250, 251, 252, 253, 254, 255]"

definition u__ct_tou :: "byte list" where
  "u__ct_tou = [
    0, 1, 2, 3, 4, 5, 6, 7, 8, 9, 10, 11, 12, 13, 14, 15,
    16, 17, 18, 19, 20, 21, 22, 23, 24, 25, 26, 27, 28, 29, 30, 31,
    32, 33, 34, 35, 36, 37, 38, 39, 40, 41, 42, 43, 44, 45, 46, 47,
    48, 49, 50, 51, 52, 53, 54, 55, 56, 57, 58, 59, 60, 61, 62, 63,
    64, 65, 66, 67, 68, 69, 70, 71, 72, 73, 74, 75, 76, 77, 78, 79,
    80, 81, 82, 83, 84, 85, 86, 87, 88, 89, 90, 91, 92, 93, 94, 95,
    96, 65, 66, 67, 68, 69, 70, 71, 72, 73, 74, 75, 76, 77, 78, 79,
    80, 81, 82, 83, 84, 85, 86, 87, 88, 89, 90, 123, 124, 125, 126, 127,
    128, 129, 130, 131, 132, 133, 134, 135, 136, 137, 138, 139, 140, 141, 142, 143,
    144, 145, 146, 147, 148, 149, 150, 151, 152, 153, 154, 155, 156, 157, 158, 159,
    160, 161, 162, 163, 164, 165, 166, 167, 168, 169, 170, 171, 172, 173, 174, 175,
    176, 177, 178, 179, 180, 181, 182, 183, 184, 185, 186, 187, 188, 189, 190, 191,
    192, 193, 194, 195, 196, 197, 198, 199, 200, 201, 202, 203, 204, 205, 206, 207,
    208, 209, 210, 211, 212, 213, 214, 215, 216, 217, 218, 219, 220, 221, 222, 223,
    192, 193, 194, 195, 196, 197, 198, 199, 200, 201, 202, 203, 204, 205, 206, 207,
    208, 209, 210, 211, 212, 213, 214, 247, 216, 217, 218, 219, 220, 221, 222, 255]"

definition u_alphabet :: "byte list" where
  "u_alphabet = bytes ''ABCDEFGHIJKLMNOPQRSTUVWXYZabcdefghijklmnopqrstuvwxyz0123456789+/''"

definition u_hex_upper :: "byte list" where
  "u_hex_upper = bytes ''0123456789ABCDEF''"

definition u_hex_lower :: "byte list" where
  "u_hex_lower = bytes ''0123456789abcdef''"

section \<open>The inline functions\<close>

definition u_cttab :: "byte \<Rightarrow> u16" where
  "u_cttab c = u__ct_tab ! unat c"

definition u__tolower :: "byte \<Rightarrow> byte" where
  "u__tolower c = u__ct_tol ! unat c"

definition u__toupper :: "byte \<Rightarrow> byte" where
  "u__toupper c = u__ct_tou ! unat c"

definition u__isblank :: "byte \<Rightarrow> bool" where
  "u__isblank c \<longleftrightarrow> u_cttab c AND 0x0010 \<noteq> 0"

definition u__islterm :: "byte \<Rightarrow> bool" where
  "u__islterm c \<longleftrightarrow> u_cttab c AND 0x0020 \<noteq> 0"

definition u__isspace :: "byte \<Rightarrow> bool" where
  "u__isspace c \<longleftrightarrow> u_cttab c AND 0x0040 \<noteq> 0"

definition u__iscntrl :: "byte \<Rightarrow> bool" where
  "u__iscntrl c \<longleftrightarrow> u_cttab c AND 0x0080 \<noteq> 0"

definition u__isdigit :: "byte \<Rightarrow> bool" where
  "u__isdigit c \<longleftrightarrow> u_cttab c AND 0x0100 \<noteq> 0"

definition u__islower :: "byte \<Rightarrow> bool" where
  "u__islower c \<longleftrightarrow> u_cttab c AND 0x0200 \<noteq> 0"

definition u__ispunct :: "byte \<Rightarrow> bool" where
  "u__ispunct c \<longleftrightarrow> u_cttab c AND 0x0400 \<noteq> 0"

definition u__isupper :: "byte \<Rightarrow> bool" where
  "u__isupper c \<longleftrightarrow> u_cttab c AND 0x0800 \<noteq> 0"

definition u__istext :: "byte \<Rightarrow> bool" where
  "u__istext c \<longleftrightarrow> u_cttab c AND 0x1000 = 0"

definition u__isxdigit :: "byte \<Rightarrow> bool" where
  "u__isxdigit c \<longleftrightarrow> u_cttab c AND 0x4100 \<noteq> 0"

definition u__isalpha :: "byte \<Rightarrow> bool" where
  "u__isalpha c \<longleftrightarrow> u_cttab c AND 0x0A00 \<noteq> 0"

definition u__isalnum :: "byte \<Rightarrow> bool" where
  "u__isalnum c \<longleftrightarrow> u_cttab c AND 0x0B00 \<noteq> 0"

definition u__isgraph :: "byte \<Rightarrow> bool" where
  "u__isgraph c \<longleftrightarrow> u_cttab c AND 0x0F00 \<noteq> 0"

definition u__isprint :: "byte \<Rightarrow> bool" where
  "u__isprint c \<longleftrightarrow> u_cttab c AND 0x0F01 \<noteq> 0"

definition u__isname :: "byte \<Rightarrow> bool" where
  "u__isname c \<longleftrightarrow> u_cttab c AND 0x0B02 \<noteq> 0"

definition u__ishname :: "byte \<Rightarrow> bool" where
  "u__ishname c \<longleftrightarrow> u_cttab c AND 0x0B0E \<noteq> 0"

definition u__isoctal :: "byte \<Rightarrow> bool" where
  "u__isoctal c \<longleftrightarrow> 48 \<le> c \<and> c \<le> 55"

definition u__isbase64 :: "byte \<Rightarrow> bool" where
  "u__isbase64 c \<longleftrightarrow> u__isalnum c \<or> c = PLUS \<or> c = SLASH \<or> c = EQUALS"

text \<open>The subtraction is done in \<open>int\<close> and converted to \<open>unsigned\<close>, so it wraps at 32 bits.\<close>

definition u__hexc2int :: "byte \<Rightarrow> u32" where
  "u__hexc2int c = (if u__isdigit c then ucast c - 48 else ucast (u__toupper c) - 65 + 10)"

definition u__octc2int :: "byte \<Rightarrow> u32" where
  "u__octc2int c = (ucast c - 48) AND 7"

text \<open>\<open>u_int2hex (p, n)\<close> writes eight digits at \<open>p\<close>: the model answers them.\<close>

definition u_int2hex :: "u32 \<Rightarrow> byte list" where
  "u_int2hex n = map (\<lambda>s. u_hex_upper ! unat (drop_bit s n AND 0x0F)) [28, 24, 20, 16, 12, 8, 4, 0]"

text \<open>\<open>u_hex2int (p, len)\<close> reads the \<open>len\<close> bytes at \<open>p\<close>.\<close>

definition u_hex2int :: "byte list \<Rightarrow> u32" where
  "u_hex2int p = foldl (\<lambda>n c. push_bit 4 n OR u__hexc2int c) 0 p"

section \<open>What the tables say\<close>

interpretation ct_tab: byte_table u__ct_tab
  by unfold_locales code_simp

interpretation ct_tol: byte_table u__ct_tol
  by unfold_locales code_simp

interpretation ct_tou: byte_table u__ct_tou
  by unfold_locales code_simp

lemma u__isdigit_iff [char_class, code]: "u__isdigit c \<longleftrightarrow> 48 \<le> c \<and> c \<le> 57"
  unfolding u__isdigit_def u_cttab_def by (rule ct_tab.lookup_allI) code_simp

lemma u__isupper_iff [char_class, code]: "u__isupper c \<longleftrightarrow> 65 \<le> c \<and> c \<le> 90"
  unfolding u__isupper_def u_cttab_def by (rule ct_tab.lookup_allI) code_simp

lemma u__islower_iff [char_class, code]: "u__islower c \<longleftrightarrow> 97 \<le> c \<and> c \<le> 122"
  unfolding u__islower_def u_cttab_def by (rule ct_tab.lookup_allI) code_simp

lemma u__isalpha_iff [char_class, code]:
  "u__isalpha c \<longleftrightarrow> 65 \<le> c \<and> c \<le> 90 \<or> 97 \<le> c \<and> c \<le> 122"
  unfolding u__isalpha_def u_cttab_def by (rule ct_tab.lookup_allI) code_simp

lemma u__isalnum_iff [char_class, code]:
  "u__isalnum c \<longleftrightarrow> 48 \<le> c \<and> c \<le> 57 \<or> 65 \<le> c \<and> c \<le> 90 \<or> 97 \<le> c \<and> c \<le> 122"
  unfolding u__isalnum_def u_cttab_def by (rule ct_tab.lookup_allI) code_simp

lemma u__isxdigit_iff [char_class, code]:
  "u__isxdigit c \<longleftrightarrow> 48 \<le> c \<and> c \<le> 57 \<or> 65 \<le> c \<and> c \<le> 70 \<or> 97 \<le> c \<and> c \<le> 102"
  unfolding u__isxdigit_def u_cttab_def by (rule ct_tab.lookup_allI) code_simp

lemma u__isspace_iff [char_class, code]: "u__isspace c \<longleftrightarrow> 9 \<le> c \<and> c \<le> 13 \<or> c = 32 \<or> c = 160"
  unfolding u__isspace_def u_cttab_def by (rule ct_tab.lookup_allI) code_simp

lemma u__isblank_iff [char_class, code]: "u__isblank c \<longleftrightarrow> c = TAB \<or> c = SPACE"
  unfolding u__isblank_def u_cttab_def by (rule ct_tab.lookup_allI) code_simp

lemma u__islterm_iff [char_class, code]: "u__islterm c \<longleftrightarrow> c = LF \<or> c = CR"
  unfolding u__islterm_def u_cttab_def by (rule ct_tab.lookup_allI) code_simp

lemma u__istext_iff [char_class, code]:
  "u__istext c \<longleftrightarrow> 7 \<le> c \<and> c \<le> 13 \<and> c \<noteq> 11 \<or> c = 27 \<or> 32 \<le> c \<and> c \<le> 126"
  unfolding u__istext_def u_cttab_def by (rule ct_tab.lookup_allI) code_simp

lemma u__isprint_iff [char_class, code]: "u__isprint c \<longleftrightarrow> 32 \<le> c \<and> c \<le> 126 \<or>
    161 \<le> c \<and> c \<le> 191 \<or> c = 215 \<or> c = 247"
  unfolding u__isprint_def u_cttab_def by (rule ct_tab.lookup_allI) code_simp

lemma u__isname_iff [char_class, code]: "u__isname c \<longleftrightarrow> u__isalnum c \<or> c = UNDERBAR"
  unfolding u__isname_def u__isalnum_iff u_cttab_def by (rule ct_tab.lookup_allI) code_simp

lemma u__ishname_iff [char_class, code]:
  "u__ishname c \<longleftrightarrow> u__isalnum c \<or> c = UNDERBAR \<or> c = DOT \<or> c = MINUS"
  unfolding u__ishname_def u__isalnum_iff u_cttab_def by (rule ct_tab.lookup_allI) code_simp

lemma u__tolower_eq [code]:
  "u__tolower c = (if 65 \<le> c \<and> c \<le> 90 \<or> 192 \<le> c \<and> c \<le> 222 \<and> c \<noteq> 215 then c + 32 else c)"
  unfolding u__tolower_def by (rule ct_tol.lookup_allI) code_simp

lemma u__toupper_eq [code]:
  "u__toupper c = (if 97 \<le> c \<and> c \<le> 122 \<or> 224 \<le> c \<and> c \<le> 254 \<and> c \<noteq> 247 then c - 32 else c)"
  unfolding u__toupper_def by (rule ct_tou.lookup_allI) code_simp

lemma u__tolower_toupper: "u__tolower (u__toupper c) = u__tolower c"
  by (rule all_byteI) code_simp

lemma u__tolower_idem: "u__tolower (u__tolower c) = u__tolower c"
  by (rule all_byteI) code_simp

lemma u__toupper_tolower: "u__toupper (u__tolower c) = u__toupper c"
  by (rule all_byteI) code_simp

lemma u__tolower_not_upper: "\<not> u__isupper (u__tolower c)"
  by (rule all_byteI) code_simp

section \<open>Digits\<close>

lemma length_digit_tables [simp]:
  "length u_hex_upper = 16" "length u_hex_lower = 16" "length u_alphabet = 64"
  by (simp_all add: u_hex_upper_def u_hex_lower_def u_alphabet_def)

lemma hexc2int_upper: "n < 16 \<Longrightarrow> u__hexc2int (u_hex_upper ! n) = word_of_nat n"
proof -
  have "\<forall>n \<in> set [0..<16]. u__hexc2int (u_hex_upper ! n) = word_of_nat n"
    by code_simp
  then show "n < 16 \<Longrightarrow> ?thesis" by simp
qed

lemma hexc2int_lower: "n < 16 \<Longrightarrow> u__hexc2int (u_hex_lower ! n) = word_of_nat n"
proof -
  have "\<forall>n \<in> set [0..<16]. u__hexc2int (u_hex_lower ! n) = word_of_nat n"
    by code_simp
  then show "n < 16 \<Longrightarrow> ?thesis" by simp
qed

lemma isxdigit_upper: "n < 16 \<Longrightarrow> u__isxdigit (u_hex_upper ! n)"
proof -
  have "\<forall>n \<in> set [0..<16]. u__isxdigit (u_hex_upper ! n)"
    by code_simp
  then show "n < 16 \<Longrightarrow> ?thesis" by simp
qed

lemma nibble_bound: "unat (x AND 0x0F :: u32) < 16"
proof -
  have "x AND 0x0F \<le> (15 :: u32)" by (rule word_and_le1)
  then show ?thesis by (simp add: word_le_nat_alt)
qed

lemma byte_nibble_bound: "unat (x AND 0x0F :: byte) < 16"
proof -
  have "x AND 0x0F \<le> (15 :: byte)" by (rule word_and_le1)
  then show ?thesis by (simp add: word_le_nat_alt)
qed

lemma hexc2int_nibble: "u__hexc2int (u_hex_upper ! unat (x AND 0x0F :: u32)) = x AND 0x0F"
  by (simp add: hexc2int_upper nibble_bound)

text \<open>
  A byte written as two digits and read back, for either table: what every hexadecimal coder of
  the library relies on.
\<close>

definition hex2 :: "byte list \<Rightarrow> byte \<Rightarrow> byte list" where
  "hex2 tab c = [tab ! unat (drop_bit 4 c AND 0x0F), tab ! unat (c AND 0x0F)]"

definition unhex2 :: "byte \<Rightarrow> byte \<Rightarrow> byte" where
  "unhex2 h l = ucast (push_bit 4 (u__hexc2int h) OR u__hexc2int l)"

lemma nibble_join:
  "(ucast (push_bit 4 (word_of_nat (unat (drop_bit 4 c AND 0x0F :: byte)) :: u32) OR
     word_of_nat (unat (c AND 0x0F :: byte))) :: byte) = c"
proof -
  have "(ucast (push_bit 4 (ucast (drop_bit 4 c AND 0x0F :: byte) :: u32) OR
      ucast (c AND 0x0F :: byte)) :: byte) = c"
    by (rule bit_word_eqI) (auto simp: and_0x0F bit_simps)
  then show ?thesis by simp
qed

lemma unhex2_lower:
  "unhex2 (u_hex_lower ! unat (drop_bit 4 c AND 0x0F)) (u_hex_lower ! unat (c AND 0x0F)) = c"
  unfolding unhex2_def hexc2int_lower [OF byte_nibble_bound] by (rule nibble_join)

lemma unhex2_upper:
  "unhex2 (u_hex_upper ! unat (drop_bit 4 c AND 0x0F)) (u_hex_upper ! unat (c AND 0x0F)) = c"
  unfolding unhex2_def hexc2int_upper [OF byte_nibble_bound] by (rule nibble_join)

lemma isxdigit_hex2_upper [simp]:
  "u__isxdigit (u_hex_upper ! unat (drop_bit 4 (c :: byte) AND 0x0F))"
  "u__isxdigit (u_hex_upper ! unat ((c :: byte) AND 0x0F))"
  by (simp_all add: isxdigit_upper byte_nibble_bound)

lemma top_nibble: "drop_bit 28 (n :: u32) AND 0x0F = drop_bit 28 n"
  by (simp add: and_0x0F) (rule bit_word_eqI, auto simp: bit_simps dest: bit_imp_le_length)

section \<open>Properties\<close>

text \<open>
  The hexadecimal conversions of \<open>utility.h\<close> are inverse: reading the eight digits that
  \<open>u_int2hex\<close> writes for a 32-bit value with \<open>u_hex2int\<close> gives the value back.
\<close>

theorem u_hex2int_int2hex: "u_hex2int (u_int2hex n) = n"
proof -
  have "u_hex2int (u_int2hex n) =
      foldl (\<lambda>r s. push_bit 4 r OR (drop_bit s n AND 0x0F)) 0 [28, 24, 20, 16, 12, 8, 4, 0]"
    by (simp add: u_hex2int_def u_int2hex_def hexc2int_nibble)
  also have "\<dots> = n"
    using nibble_step [of 0 n] nibble_step [of 4 n] nibble_step [of 8 n] nibble_step [of 12 n]
      nibble_step [of 16 n] nibble_step [of 20 n] nibble_step [of 24 n] top_nibble [of n]
    by simp
  finally show ?thesis .
qed

text \<open>
  The two case tables agree with each other on all 256 bytes: converting to lower case after
  upper case (or after lower case) is converting to lower case, and symmetrically; no result of
  \<open>u__tolower\<close> is classified as an upper-case letter by \<open>u__ct_tab\<close>.
\<close>

theorem case_tables_consistent:
  "u__tolower (u__toupper c) = u__tolower c \<and> u__tolower (u__tolower c) = u__tolower c \<and>
   u__toupper (u__tolower c) = u__toupper c \<and> \<not> u__isupper (u__tolower c)"
  by (simp add: u__tolower_toupper u__tolower_idem u__toupper_tolower u__tolower_not_upper)

end
