(* ===== verification/Hash.thy ===== *)
theory Hash
  imports Ctype
begin

text \<open>
  The hash functions of \<open>src/ulib/base/hash.c\<close>: the one-to-one mixing function \<open>u_random\<close> and its
  64-bit variant, the DJB hash \<open>u_cdb_hash\<close> of the constant databases, and the MurmurHash3
  \<open>u_hash\<close> of the hash tables. \<open>union uuintchar\<close> overlays a 32-bit value with its four bytes,
  least significant first (the little-endian hosts the library is built for). The global seed
  \<open>u_seed_hash\<close>, which a program may change, is a parameter.
\<close>

section \<open>Definitions\<close>

definition uint_of_chars :: "byte \<Rightarrow> byte \<Rightarrow> byte \<Rightarrow> byte \<Rightarrow> u32" where
  "uint_of_chars d0 d1 d2 d3 =
     ucast d0 OR push_bit 8 (ucast d1) OR push_bit 16 (ucast d2) OR push_bit 24 (ucast d3)"

definition char_of_uint :: "u32 \<Rightarrow> nat \<Rightarrow> byte" where
  "char_of_uint a k = ucast (drop_bit (8 * k) a)"

definition rseq :: "byte list" where
  "rseq = [
    79, 181, 35, 147, 68, 177, 63, 134, 103, 0, 34, 88, 69, 221, 231, 13,
    91, 49, 220, 90, 58, 112, 72, 145, 7, 4, 93, 176, 129, 192, 5, 132,
    86, 142, 21, 148, 37, 139, 39, 169, 143, 224, 251, 64, 223, 1, 9, 152,
    51, 66, 98, 155, 180, 109, 149, 135, 229, 137, 215, 42, 62, 115, 246, 242,
    118, 160, 94, 249, 123, 144, 122, 213, 252, 171, 60, 167, 253, 198, 77, 2,
    154, 174, 168, 52, 27, 92, 226, 233, 205, 10, 208, 247, 209, 113, 211, 106,
    163, 116, 65, 196, 73, 201, 23, 15, 31, 140, 189, 53, 207, 83, 87, 202,
    101, 173, 28, 46, 6, 255, 237, 47, 227, 36, 218, 70, 114, 22, 100, 96,
    182, 117, 43, 228, 210, 19, 191, 108, 128, 89, 97, 153, 212, 203, 99, 236,
    238, 141, 3, 95, 29, 232, 8, 75, 57, 25, 159, 24, 131, 162, 67, 119,
    74, 30, 138, 214, 240, 12, 187, 127, 133, 18, 81, 222, 188, 239, 82, 199,
    186, 166, 197, 230, 126, 161, 200, 40, 59, 165, 136, 234, 250, 44, 170, 157,
    190, 150, 105, 84, 55, 204, 56, 244, 219, 151, 178, 195, 194, 110, 184, 14,
    48, 146, 235, 216, 120, 175, 254, 50, 102, 107, 41, 130, 54, 26, 248, 225,
    111, 124, 33, 193, 76, 121, 125, 158, 185, 245, 16, 206, 71, 45, 20, 179,
    32, 38, 241, 80, 85, 243, 11, 217, 61, 17, 78, 172, 156, 183, 104, 164,
    79, 181, 35]"

text \<open>One iteration of the loop of \<open>u_random\<close>; sums are stored into an \<open>unsigned char\<close>.\<close>

definition u_random_step :: "u32 \<Rightarrow> u32" where
  "u_random_step a =
     (let c0 = unat (char_of_uint a 0); c1 = unat (char_of_uint a 1);
          c2 = unat (char_of_uint a 2); c3 = unat (char_of_uint a 3);
          d3 = rseq ! c0 + rseq ! (c1 + 1) + rseq ! (c2 + 2) + rseq ! (c3 + 3);
          d2 = rseq ! c1 + rseq ! (c2 + 1) + rseq ! (c3 + 2);
          d1 = rseq ! c2 + rseq ! (c3 + 1);
          d0 = rseq ! c3
      in uint_of_chars d0 d1 d2 d3)"

definition u_random :: "u32 \<Rightarrow> u32" where
  "u_random a = u_random_step (u_random_step (u_random_step (u_random_step a)))"

definition u_random64 :: "u64 \<Rightarrow> u32" where
  "u_random64 ptr =
     (let a = ucast (drop_bit 32 (ptr AND 0xffffffff00000000)); b = ucast (ptr AND 0x00000000ffffffff)
      in u_random a + u_random b)"

fun u_cdb_hash_loop :: "bool \<Rightarrow> u32 \<Rightarrow> byte list \<Rightarrow> u32" where
  "u_cdb_hash_loop ignore_case h [] = h"
| "u_cdb_hash_loop ignore_case h (c # t) =
     u_cdb_hash_loop ignore_case
       ((push_bit 5 h + h) XOR ucast (if ignore_case then u__tolower c else c)) t"

definition u_cdb_hash :: "byte list \<Rightarrow> bool \<Rightarrow> u32" where
  "u_cdb_hash t ignore_case = u_cdb_hash_loop ignore_case 5381 t"

definition rotl32 :: "u32 \<Rightarrow> nat \<Rightarrow> u32" where
  "rotl32 x r = push_bit r x OR drop_bit (32 - r) x"

definition u_seed_hash :: u32 where
  "u_seed_hash = 0xc86b14f7"

abbreviation hash_c1 :: u32 where "hash_c1 \<equiv> 0xcc9e2d51"
abbreviation hash_c2 :: u32 where "hash_c2 \<equiv> 0x1b873593"

definition hash_block :: "u32 \<Rightarrow> u32 \<Rightarrow> u32" where
  "hash_block h1 k1 =
     rotl32 (h1 XOR (rotl32 (k1 * hash_c1) 15 * hash_c2)) 13 * 5 + 0xe6546b64"

fun hash_body :: "bool \<Rightarrow> u32 \<Rightarrow> byte list \<Rightarrow> u32 \<times> byte list" where
  "hash_body ignore_case h1 (d0 # d1 # d2 # d3 # bp) =
     hash_body ignore_case
       (hash_block h1
          (if ignore_case
           then uint_of_chars (u__tolower d0) (u__tolower d1) (u__tolower d2) (u__tolower d3)
           else uint_of_chars d0 d1 d2 d3)) bp"
| "hash_body ignore_case h1 tail = (h1, tail)"

text \<open>The fall-through \<open>switch (len & 3)\<close> over the tail.\<close>

fun hash_tail :: "u32 \<Rightarrow> byte list \<Rightarrow> u32" where
  "hash_tail h1 [] = h1"
| "hash_tail h1 tail =
     (let k1 = 0;
          k1 = (if length tail = 3 then k1 XOR push_bit 16 (ucast (tail ! 2)) else k1);
          k1 = (if length tail = 3 \<or> length tail = 2 then k1 XOR push_bit 8 (ucast (tail ! 1)) else k1);
          k1 = k1 XOR ucast (tail ! 0)
      in h1 XOR (rotl32 (k1 * hash_c1) 15 * hash_c2))"

definition hash_final :: "u32 \<Rightarrow> u32" where
  "hash_final h1 =
     (let h1 = h1 XOR drop_bit 16 h1;
          h1 = h1 * 0x85ebca6b;
          h1 = h1 XOR drop_bit 13 h1;
          h1 = h1 * 0xc2b2ae35
      in h1 XOR drop_bit 16 h1)"

definition u_hash :: "u32 \<Rightarrow> byte list \<Rightarrow> bool \<Rightarrow> u32" where
  "u_hash seed bp ignore_case =
     (case hash_body ignore_case seed bp of
        (h1, tail) \<Rightarrow> hash_final (hash_tail h1 tail XOR word_of_nat (length bp)))"

section \<open>The mixing function is one-to-one\<close>

lemma char_of_uint_of_chars [simp]:
  "char_of_uint (uint_of_chars d0 d1 d2 d3) 0 = d0"
  "char_of_uint (uint_of_chars d0 d1 d2 d3) (Suc 0) = d1"
  "char_of_uint (uint_of_chars d0 d1 d2 d3) 2 = d2"
  "char_of_uint (uint_of_chars d0 d1 d2 d3) 3 = d3"
  by (rule bit_word_eqI, auto simp: char_of_uint_def uint_of_chars_def bit_simps
      dest: bit_imp_le_length)+

lemma uint_of_chars_inject:
  "uint_of_chars a b c d = uint_of_chars a' b' c' d' \<longleftrightarrow> a = a' \<and> b = b' \<and> c = c' \<and> d = d'"
  by (metis char_of_uint_of_chars)

lemma char_of_uint_ext:
  assumes "char_of_uint a 0 = char_of_uint b 0" "char_of_uint a 1 = char_of_uint b 1"
    "char_of_uint a 2 = char_of_uint b 2" "char_of_uint a 3 = char_of_uint b 3"
  shows "a = b"
proof (rule bit_word_eqI)
  fix n
  assume n: "n < LENGTH(32)"
  have "bit (char_of_uint a (n div 8)) (n mod 8) = bit (char_of_uint b (n div 8)) (n mod 8)"
  proof -
    have "n div 8 \<in> {0, 1, 2, 3}" using n by auto
    then show ?thesis using assms by auto
  qed
  then show "bit a n = bit b n"
    by (simp add: char_of_uint_def bit_simps)
qed

text \<open>Where each byte stands in the sequence: every byte occurs among its first 256 entries.\<close>

definition rseq_index :: "nat list" where
  "rseq_index = [
    9, 45, 79, 146, 25, 30, 116, 24, 150, 46, 89, 246, 165, 15, 207, 103,
    234, 249, 169, 133, 238, 34, 125, 102, 155, 153, 221, 84, 114, 148, 161, 104,
    240, 226, 10, 2, 121, 36, 241, 38, 183, 218, 59, 130, 189, 237, 115, 119,
    208, 17, 215, 48, 83, 107, 220, 196, 198, 152, 20, 184, 74, 248, 60, 6,
    43, 98, 49, 158, 4, 12, 123, 236, 22, 100, 160, 151, 228, 78, 250, 0,
    243, 170, 174, 109, 195, 244, 32, 110, 11, 137, 19, 16, 85, 26, 66, 147,
    127, 138, 50, 142, 126, 112, 216, 8, 254, 194, 95, 217, 135, 53, 205, 224,
    21, 93, 124, 61, 97, 129, 64, 159, 212, 229, 70, 68, 225, 230, 180, 167,
    136, 28, 219, 156, 31, 168, 7, 55, 186, 57, 162, 37, 105, 145, 33, 40,
    69, 23, 209, 3, 35, 54, 193, 201, 47, 139, 80, 51, 252, 191, 231, 154,
    65, 181, 157, 96, 255, 185, 177, 75, 82, 39, 190, 73, 251, 113, 81, 213,
    27, 5, 202, 239, 52, 1, 128, 253, 206, 232, 176, 166, 172, 106, 192, 134,
    29, 227, 204, 203, 99, 178, 77, 175, 182, 101, 111, 141, 197, 88, 235, 108,
    90, 92, 132, 94, 140, 71, 163, 58, 211, 247, 122, 200, 18, 13, 171, 44,
    41, 223, 86, 120, 131, 56, 179, 14, 149, 87, 187, 210, 143, 118, 144, 173,
    164, 242, 63, 245, 199, 233, 62, 91, 222, 67, 188, 42, 72, 76, 214, 117]"

lemma rseq_index_inverse: "map ((!) rseq) rseq_index = all_bytes"
  by code_simp

lemma rseq_index_bound: "list_all (\<lambda>i. i < 256) rseq_index"
  by (simp add: rseq_index_def)

lemma length_rseq: "length rseq = 259"
  by (simp add: rseq_def)

lemma rseq_distinct: "distinct (take 256 rseq)"
proof -
  have "set all_bytes \<subseteq> set (take 256 rseq)"
  proof -
    have "set all_bytes = (!) rseq ` set rseq_index"
      by (metis rseq_index_inverse set_map)
    also have "\<dots> \<subseteq> set (take 256 rseq)"
    proof
      fix x
      assume "x \<in> (!) rseq ` set rseq_index"
      then obtain i where i: "i < 256" "x = rseq ! i"
        using rseq_index_bound by (auto simp: list_all_iff)
      then have "x = take 256 rseq ! i" "i < length (take 256 rseq)"
        by (simp_all add: length_rseq)
      then show "x \<in> set (take 256 rseq)"
        using nth_mem by blast
    qed
    finally show ?thesis .
  qed
  then have "256 \<le> card (set (take 256 rseq))"
    using distinct_card [OF distinct_all_bytes] card_mono [of "set (take 256 rseq)" "set all_bytes"]
    by simp
  then show ?thesis
    using card_length [of "take 256 rseq"] by (simp add: card_distinct length_rseq)
qed

lemma rseq_inj:
  fixes c d :: byte
  assumes "rseq ! unat c = rseq ! unat d"
  shows "c = d"
proof -
  have "length (take 256 rseq) = 256"
    by (simp add: length_rseq)
  then have "unat c = unat d"
    using assms unat_byte_less [of c] unat_byte_less [of d]
      nth_eq_iff_index_eq [OF rseq_distinct, of "unat c" "unat d"] by simp
  then show ?thesis by (rule word_unat_eq_iff [THEN iffD2])
qed

lemma u_random_step_inj: "inj u_random_step"
proof (rule injI)
  fix a b
  assume "u_random_step a = u_random_step b"
  note eq = this [unfolded u_random_step_def Let_def uint_of_chars_inject]
  have c3: "char_of_uint a 3 = char_of_uint b 3"
    using eq by (blast intro: rseq_inj)
  then have c2: "char_of_uint a 2 = char_of_uint b 2"
    using eq by (auto intro: rseq_inj)
  then have c1: "char_of_uint a 1 = char_of_uint b 1"
    using eq c3 by (auto intro: rseq_inj)
  then have c0: "char_of_uint a 0 = char_of_uint b 0"
    using eq c3 c2 by (auto intro: rseq_inj)
  show "a = b"
    by (rule char_of_uint_ext [OF c0 c1 c2 c3])
qed

section \<open>MurmurHash3: every step is a bijection\<close>

lemma rotl32_inj:
  assumes "r \<le> 32"
  shows "inj (\<lambda>x. rotl32 x r)"
proof (rule inj_on_inverseI)
  fix x :: u32
  show "drop_bit r (rotl32 x r) OR push_bit (32 - r) (rotl32 x r) = x"
  proof (rule bit_word_eqI)
    fix n
    assume "n < LENGTH(32)"
    then show "bit (drop_bit r (rotl32 x r) OR push_bit (32 - r) (rotl32 x r)) n = bit x n"
      using assms
      by (cases "r + n < 32") (auto simp: rotl32_def bit_simps dest: bit_imp_le_length)
  qed
qed

lemma xorshift16_inj: "inj (\<lambda>h :: u32. h XOR drop_bit 16 h)"
proof (rule inj_on_inverseI)
  fix h :: u32
  show "(h XOR drop_bit 16 h) XOR drop_bit 16 (h XOR drop_bit 16 h) = h"
    by (rule bit_word_eqI) (auto simp: bit_simps dest: bit_imp_le_length)
qed

lemma xorshift13_inj: "inj (\<lambda>h :: u32. h XOR drop_bit 13 h)"
proof (rule inj_on_inverseI)
  fix h :: u32
  let ?y = "h XOR drop_bit 13 h"
  show "?y XOR drop_bit 13 ?y XOR drop_bit 26 ?y = h"
    by (rule bit_word_eqI) (auto simp: bit_simps dest: bit_imp_le_length)
qed

lemma hash_final_inj:
  assumes "hash_final x = hash_final y"
  shows "x = y"
proof -
  note eq = assms [unfolded hash_final_def Let_def]
  note eq1 = mult_odd_injR [OF _ injD [OF xorshift16_inj eq]]
  note eq2 = mult_odd_injR [OF _ injD [OF xorshift13_inj eq1]]
  show ?thesis
    by (rule injD [OF xorshift16_inj eq2]) simp_all
qed

lemma hash_block_inj:
  assumes "hash_block h x = hash_block h y"
  shows "x = y"
proof -
  have "rotl32 (h XOR rotl32 (x * hash_c1) 15 * hash_c2) 13 * 5 =
      rotl32 (h XOR rotl32 (y * hash_c1) 15 * hash_c2) 13 * 5"
    using assms by (simp add: hash_block_def)
  note eq1 = xor_inj [OF injD [OF rotl32_inj mult_odd_injR [OF _ this]]]
  note eq2 = injD [OF rotl32_inj mult_odd_injR [OF _ eq1]]
  show ?thesis
    by (rule mult_odd_injR [OF _ eq2]) simp_all
qed

section \<open>Ignoring case\<close>

text \<open>
  Contract of a hash with an \<open>ignore_case\<close> flag, on the keys of \<open>ok\<close>: ignoring case is hashing the
  key in lower case. Then keys that are equal up to case share their hash value, which is what a
  table with case-insensitive keys needs.
\<close>

locale ci_hash =
  fixes hash :: "byte list \<Rightarrow> bool \<Rightarrow> u32" and ok :: "byte list \<Rightarrow> bool"
  assumes hash_fold: "ok bs \<Longrightarrow> hash bs True = hash (map u__tolower bs) False"
    and ok_length: "length bs = length cs \<Longrightarrow> ok bs = ok cs"
begin

lemma hash_eq_ignoring_case:
  assumes "ok bs" and "map u__tolower bs = map u__tolower cs"
  shows "hash bs True = hash cs True"
proof -
  have "length bs = length cs"
    using assms(2) map_eq_imp_length_eq by blast
  with assms show ?thesis
    by (simp add: hash_fold ok_length [of bs cs])
qed

lemma hash_toupper: "ok bs \<Longrightarrow> hash (map u__toupper bs) True = hash bs True"
  using ok_length [of "map u__toupper bs" bs]
  by (simp add: hash_fold u__tolower_toupper comp_def)

end

lemma u_cdb_hash_loop_fold:
  "u_cdb_hash_loop True h t = u_cdb_hash_loop False h (map u__tolower t)"
  by (induction t arbitrary: h) simp_all

lemma hash_body_fold:
  "length bp mod 4 = 0 \<Longrightarrow>
   hash_body True h bp = hash_body False h (map u__tolower bp)"
proof (induction "True" h bp rule: hash_body.induct)
  case (1 h1 d0 d1 d2 d3 bp)
  have "length bp mod 4 = 0"
    using "1.prems" by simp
  with "1.hyps" show ?case by simp
qed simp_all

interpretation cdb_ci: ci_hash u_cdb_hash "\<lambda>_. True"
  by unfold_locales (simp_all add: u_cdb_hash_def u_cdb_hash_loop_fold)

interpretation murmur_ci: ci_hash "u_hash seed" "\<lambda>bs. length bs mod 4 = 0" for seed
proof unfold_locales
  fix bs :: "byte list"
  assume "length bs mod 4 = 0"
  from hash_body_fold [OF this, of seed] show "u_hash seed bs True = u_hash seed (map u__tolower bs) False"
    by (simp add: u_hash_def)
qed simp

section \<open>Properties\<close>

text \<open>
  \<open>u_random\<close> is one-to-one, as its comment promises: two different 32-bit inputs always have
  different results.
\<close>

theorem u_random_one_to_one: "inj u_random"
proof (rule injI)
  fix x y
  assume "u_random x = u_random y"
  then show "x = y"
    by (simp add: u_random_def inj_eq [OF u_random_step_inj])
qed

text \<open>
  MurmurHash3 never collides on two keys of four bytes, whatever the seed: every step of the
  body and of the finalization is a bijection of the 32-bit words.
\<close>

theorem u_hash_four_bytes_inj:
  "u_hash seed [a, b, c, d] False = u_hash seed [a', b', c', d'] False \<longleftrightarrow>
   [a, b, c, d] = [a', b', c', d']"
proof
  assume "u_hash seed [a, b, c, d] False = u_hash seed [a', b', c', d'] False"
  then have "hash_block seed (uint_of_chars a b c d) XOR 4 = hash_block seed (uint_of_chars a' b' c' d') XOR 4"
    by (auto simp: u_hash_def dest: hash_final_inj)
  then have "hash_block seed (uint_of_chars a b c d) = hash_block seed (uint_of_chars a' b' c' d')"
    by (metis xor_inj xor.commute)
  then show "[a, b, c, d] = [a', b', c', d']"
    by (auto dest!: hash_block_inj simp: uint_of_chars_inject)
qed simp

text \<open>
  With \<open>ignore_case\<close>, \<open>u_cdb_hash\<close> gives keys that differ in case only the same hash value.
\<close>

theorem u_cdb_hash_ignore_case:
  "map u__tolower s = map u__tolower t \<Longrightarrow> u_cdb_hash s True = u_cdb_hash t True"
  by (rule cdb_ci.hash_eq_ignoring_case) simp_all

theorem u_cdb_hash_ignore_case_witness:
  "map u__tolower (bytes ''Key'') = map u__tolower (bytes ''kEY'') \<and>
   u_cdb_hash (bytes ''Key'') True = u_cdb_hash (bytes ''kEY'') True"
proof -
  have h: "map u__tolower (bytes ''Key'') = map u__tolower (bytes ''kEY'')"
    by code_simp
  with u_cdb_hash_ignore_case [OF h] show ?thesis by blast
qed

text \<open>
  With \<open>ignore_case\<close>, \<open>u_hash\<close> gives keys that differ in case only the same hash value when
  their length is a multiple of four, for every seed.
\<close>

theorem u_hash_ignore_case:
  "length s mod 4 = 0 \<Longrightarrow> map u__tolower s = map u__tolower t \<Longrightarrow> u_hash seed s True = u_hash seed t True"
  by (rule murmur_ci.hash_eq_ignoring_case)

theorem u_hash_ignore_case_witness:
  "length (bytes ''Host'') mod 4 = 0 \<and> map u__tolower (bytes ''Host'') = map u__tolower (bytes ''hOST'') \<and>
   u_hash u_seed_hash (bytes ''Host'') True = u_hash u_seed_hash (bytes ''hOST'') True"
proof -
  have n: "length (bytes ''Host'') mod 4 = 0" by simp
  have h: "map u__tolower (bytes ''Host'') = map u__tolower (bytes ''hOST'')" by code_simp
  from u_hash_ignore_case [OF n h] n h show ?thesis by blast
qed

text \<open>
  For other lengths it does not: the bytes after the last whole block are hashed as they are,
  so the keys \<open>id\<close> and \<open>ID\<close> have different hash values although \<open>ignore_case\<close> is set.
\<close>

theorem u_hash_tail_keeps_case:
  "map u__tolower (bytes ''id'') = map u__tolower (bytes ''ID'') \<and>
   u_hash u_seed_hash (bytes ''id'') True \<noteq> u_hash u_seed_hash (bytes ''ID'') True"
  by code_simp

end
