(* ===== verification/Hexdump.thy ===== *)
theory Hexdump
  imports Ctype
begin

text \<open>
  The hexadecimal coder, \<open>src/ulib/base/coder/chexdump.c\<close>. The encoder answers the bytes it writes
  before the terminator; the decoder takes the memory at \<open>input\<close> and the number of characters to
  decode, and answers \<open>None\<close> when it reads outside that memory, which happens at the end of an
  input of odd length.
\<close>

fun u_hexdump_encode :: "byte list \<Rightarrow> byte list" where
  "u_hexdump_encode [] = []"
| "u_hexdump_encode (ch # input) =
     u_hex_lower ! unat (drop_bit 4 ch AND 0x0F) # u_hex_lower ! unat (ch AND 0x0F) #
     u_hexdump_encode input"

text \<open>
  The loop, with the memory from \<open>input + i\<close> and the distance \<open>len - i\<close>: it reads two characters
  whenever at least one is left.
\<close>

fun u_hexdump_decode_loop :: "mem \<Rightarrow> nat \<Rightarrow> byte list option" where
  "u_hexdump_decode_loop m 0 = Some []"
| "u_hexdump_decode_loop (h # l # m) (Suc n) =
     map_option ((#) (ucast (push_bit 4 (u__hexc2int h) OR u__hexc2int l)))
       (u_hexdump_decode_loop m (n - 1))"
| "u_hexdump_decode_loop m (Suc n) = None"

text \<open>The loop compares a signed index with \<open>(int32_t) len\<close>.\<close>

definition u_hexdump_decode :: "mem \<Rightarrow> u32 \<Rightarrow> byte list option" where
  "u_hexdump_decode input len = u_hexdump_decode_loop input (nat (sint len))"

section \<open>Round trip\<close>

lemma length_hexdump_encode [simp]: "length (u_hexdump_encode bs) = 2 * length bs"
  by (induction bs) simp_all

lemma hexdump_decode_loop_encode:
  "u_hexdump_decode_loop (u_hexdump_encode bs @ m) (2 * length bs) = Some bs"
proof (induction bs)
  case (Cons b bs)
  then show ?case
    using unhex2_lower [of b] by (simp add: unhex2_def)
qed simp

lemma sint_word_of_nat: "n < 2 ^ 31 \<Longrightarrow> sint (word_of_nat n :: u32) = int n"
  by (simp add: signed_of_nat signed_take_bit_int_eq_self)

interpretation hexdump: codec u_hexdump_encode
  "\<lambda>m. u_hexdump_decode m (word_of_nat (length m))" "\<lambda>bs. 2 * length bs < 2 ^ 31"
proof unfold_locales
  fix bs :: "byte list"
  assume "2 * length bs < 2 ^ 31"
  then show "u_hexdump_decode (u_hexdump_encode bs) (word_of_nat (length (u_hexdump_encode bs))) = Some bs"
    using hexdump_decode_loop_encode [of bs "[]"]
    by (simp add: u_hexdump_decode_def sint_word_of_nat del: of_nat_mult)
qed

lemma hexdump_decode_loop_odd:
  "odd n \<Longrightarrow> n = length m \<Longrightarrow> u_hexdump_decode_loop m n = None"
  by (induction m n rule: u_hexdump_decode_loop.induct) auto

text \<open>
  Decoding what \<open>u_hexdump_encode\<close> wrote gives the input back, for every byte sequence whose
  encoding has fewer than \<open>2 ^ 31\<close> characters (the decoder's index is a signed 32-bit integer).
\<close>

theorem hexdump_roundtrip:
  assumes "2 * length bs < 2 ^ 31"
  shows "u_hexdump_decode (u_hexdump_encode bs) (word_of_nat (length (u_hexdump_encode bs))) = Some bs"
  using hexdump.dec_enc [OF assms] .

theorem hexdump_roundtrip_witness:
  "2 * length [0x1f, 0xa0 :: byte] < 2 ^ 31 \<and>
   u_hexdump_decode (u_hexdump_encode [0x1f, 0xa0]) (word_of_nat (length (u_hexdump_encode [0x1f, 0xa0]))) =
     Some [0x1f, 0xa0]"
proof -
  have h: "2 * length [0x1f, 0xa0 :: byte] < 2 ^ 31" by simp
  from hexdump_roundtrip [OF h] h show ?thesis by blast
qed

end
