(* ===== verification/Base64.thy ===== *)
theory Base64
  imports Ctype
begin

text \<open>
  The base64 coder, \<open>src/ulib/base/coder/cbase64.c\<close>. The globals \<open>u_base64_max_columns\<close> and
  \<open>u_line_terminator_len\<close> are parameters; the counter \<open>u_base64_errors\<close> is part of the decoder's
  result. The decoder indexes its tables with a \<open>char\<close> converted to \<open>int\<close>: on the hosts where
  \<open>char\<close> is signed a byte above 127 is a negative index, outside the table, and the model answers
  \<open>None\<close>.
\<close>

section \<open>Definitions\<close>

definition member :: "byte list" where
  "member = [
    1, 0, 0, 0, 0, 0, 0, 0, 0, 0, 0, 0, 0, 0, 0, 0,
    0, 0, 0, 0, 0, 0, 0, 0, 0, 0, 0, 0, 0, 0, 0, 0,
    0, 0, 0, 0, 0, 0, 0, 0, 0, 0, 0, 1, 0, 0, 0, 1,
    1, 1, 1, 1, 1, 1, 1, 1, 1, 1, 0, 0, 0, 0, 0, 0,
    0, 1, 1, 1, 1, 1, 1, 1, 1, 1, 1, 1, 1, 1, 1, 1,
    1, 1, 1, 1, 1, 1, 1, 1, 1, 1, 1, 0, 0, 0, 0, 0,
    0, 1, 1, 1, 1, 1, 1, 1, 1, 1, 1, 1, 1, 1, 1, 1,
    1, 1, 1, 1, 1, 1, 1, 1, 1, 1, 1, 0, 0, 0, 0, 0,
    0, 0, 0, 0, 0, 0, 0, 0, 0, 0, 0, 0, 0, 0, 0, 0,
    0, 0, 0, 0, 0, 0, 0, 0, 0, 0, 0, 0, 0, 0, 0, 0,
    0, 0, 0, 0, 0, 0, 0, 0, 0, 0, 0, 0, 0, 0, 0, 0,
    0, 0, 0, 0, 0, 0, 0, 0, 0, 0, 0, 0, 0, 0, 0, 0,
    0, 0, 0, 0, 0, 0, 0, 0, 0, 0, 0, 0, 0, 0, 0, 0,
    0, 0, 0, 0, 0, 0, 0, 0, 0, 0, 0, 0, 0, 0, 0, 0,
    0, 0, 0, 0, 0, 0, 0, 0, 0, 0, 0, 0, 0, 0, 0, 0,
    0, 0, 0, 0, 0, 0, 0, 0, 0, 0, 0, 0, 0, 0, 0, 0]"

definition decoder :: "byte list" where
  "decoder = [
    64, 0, 0, 0, 0, 0, 0, 0, 0, 0, 0, 0, 0, 0, 0, 0,
    0, 0, 0, 0, 0, 0, 0, 0, 0, 0, 0, 0, 0, 0, 0, 0,
    0, 0, 0, 0, 0, 0, 0, 0, 0, 0, 0, 62, 0, 0, 0, 63,
    52, 53, 54, 55, 56, 57, 58, 59, 60, 61, 0, 0, 0, 0, 0, 0,
    0, 0, 1, 2, 3, 4, 5, 6, 7, 8, 9, 10, 11, 12, 13, 14,
    15, 16, 17, 18, 19, 20, 21, 22, 23, 24, 25, 0, 0, 0, 0, 0,
    0, 26, 27, 28, 29, 30, 31, 32, 33, 34, 35, 36, 37, 38, 39, 40,
    41, 42, 43, 44, 45, 46, 47, 48, 49, 50, 51, 0, 0, 0, 0, 0,
    0, 0, 0, 0, 0, 0, 0, 0, 0, 0, 0, 0, 0, 0, 0, 0,
    0, 0, 0, 0, 0, 0, 0, 0, 0, 0, 0, 0, 0, 0, 0, 0,
    0, 0, 0, 0, 0, 0, 0, 0, 0, 0, 0, 0, 0, 0, 0, 0,
    0, 0, 0, 0, 0, 0, 0, 0, 0, 0, 0, 0, 0, 0, 0, 0,
    0, 0, 0, 0, 0, 0, 0, 0, 0, 0, 0, 0, 0, 0, 0, 0,
    0, 0, 0, 0, 0, 0, 0, 0, 0, 0, 0, 0, 0, 0, 0, 0,
    0, 0, 0, 0, 0, 0, 0, 0, 0, 0, 0, 0, 0, 0, 0, 0,
    0, 0, 0, 0, 0, 0, 0, 0, 0, 0, 0, 0, 0, 0, 0, 0]"

abbreviation PAD :: byte where "PAD \<equiv> EQUALS"

definition at_char :: "byte list \<Rightarrow> byte \<Rightarrow> byte option" where
  "at_char tab c = (if sint c < 0 then None else Some (tab ! nat (sint c)))"

record b64_enc =
  columns :: bool
  cols :: u32
  char_count :: nat
  bits :: u32

definition b64_enc_init :: b64_enc where
  "b64_enc_init = \<lparr>columns = False, cols = 0, char_count = 0, bits = 0\<rparr>"

definition b64_eol :: "u32 \<Rightarrow> byte list" where
  "b64_eol terminator_len = (if terminator_len = 2 then [CR] else []) @ [LF]"

definition b64_quad :: "u32 \<Rightarrow> byte list" where
  "b64_quad v =
     [u_alphabet ! unat (drop_bit 18 v), u_alphabet ! unat (drop_bit 12 v AND 0x3f),
      u_alphabet ! unat (drop_bit 6 v AND 0x3f), u_alphabet ! unat (v AND 0x3f)]"

definition b64_enc_step :: "u32 \<Rightarrow> u32 \<Rightarrow> b64_enc \<Rightarrow> byte \<Rightarrow> byte list \<times> b64_enc" where
  "b64_enc_step max_columns terminator_len st c =
     (let v = bits st + ucast c; n = char_count st + 1
      in if n = 3 then
           (if max_columns \<noteq> 0 then
              (if cols st + 4 = max_columns
               then (b64_quad v @ b64_eol terminator_len, \<lparr>columns = True, cols = 0, char_count = 0, bits = 0\<rparr>)
               else (b64_quad v, st\<lparr>cols := cols st + 4, char_count := 0, bits := 0\<rparr>))
            else (b64_quad v, st\<lparr>char_count := 0, bits := 0\<rparr>))
         else ([], st\<lparr>char_count := n, bits := push_bit 8 v\<rparr>))"

fun b64_enc_loop :: "u32 \<Rightarrow> u32 \<Rightarrow> b64_enc \<Rightarrow> byte list \<Rightarrow> byte list \<times> b64_enc" where
  "b64_enc_loop max_columns terminator_len st [] = ([], st)"
| "b64_enc_loop max_columns terminator_len st (c # input) =
     (case b64_enc_step max_columns terminator_len st c of (r, st') \<Rightarrow>
        (case b64_enc_loop max_columns terminator_len st' input of (rs, st'') \<Rightarrow> (r @ rs, st'')))"

definition b64_enc_finish :: "u32 \<Rightarrow> b64_enc \<Rightarrow> byte list" where
  "b64_enc_finish terminator_len st =
     (if char_count st \<noteq> 0 then
        (let v = push_bit (16 - 8 * char_count st) (bits st)
         in [u_alphabet ! unat (drop_bit 18 v), u_alphabet ! unat (drop_bit 12 v AND 0x3f)] @
            (if char_count st = 1 then [PAD, PAD] else [u_alphabet ! unat (drop_bit 6 v AND 0x3f), PAD]))
      else []) @
     (if columns st \<and> 0 < sint (cols st) then b64_eol terminator_len else [])"

definition u_base64_encode :: "u32 \<Rightarrow> u32 \<Rightarrow> byte list \<Rightarrow> byte list" where
  "u_base64_encode max_columns terminator_len input =
     (case b64_enc_loop max_columns terminator_len b64_enc_init input of
        (r, st) \<Rightarrow> r @ b64_enc_finish terminator_len st)"

text \<open>The first loop of the decoder: the length of the prefix it will read.\<close>

fun b64_dec_scan :: "byte list \<Rightarrow> nat option" where
  "b64_dec_scan [] = Some 0"
| "b64_dec_scan (c # input) =
     (if c = NUL then Some 0
      else do {
        m \<leftarrow> at_char member c;
        if m = 1 \<or> c = PAD \<or> u__isspace c then map_option Suc (b64_dec_scan input) else Some 0
      })"

record b64_dec =
  out :: "byte list"
  dcount :: nat
  dbits :: u32
  at_pad :: bool

definition b64_dec_init :: b64_dec where
  "b64_dec_init = \<lparr>out = [], dcount = 0, dbits = 0, at_pad = False\<rparr>"

fun b64_dec_loop :: "b64_dec \<Rightarrow> byte list \<Rightarrow> b64_dec option" where
  "b64_dec_loop st [] = Some st"
| "b64_dec_loop st (c # input) =
     (if c = PAD then Some (st\<lparr>at_pad := True\<rparr>)
      else do {
        m \<leftarrow> at_char member c;
        if m = 0 then b64_dec_loop st input
        else do {
          d \<leftarrow> at_char decoder c;
          let v = dbits st + ucast d;
          if dcount st + 1 = 4
          then b64_dec_loop (st\<lparr>out := out st @ [ucast (drop_bit 16 v), ucast (drop_bit 8 v AND 0xff),
                                                ucast (v AND 0xff)], dcount := 0, dbits := 0\<rparr>) input
          else b64_dec_loop (st\<lparr>dcount := dcount st + 1, dbits := push_bit 6 v\<rparr>) input
        }
      })"

definition b64_dec_finish :: "b64_dec \<Rightarrow> byte list \<times> int" where
  "b64_dec_finish st =
     (if \<not> at_pad st then (out st, if dcount st \<noteq> 0 then 1 else 0)
      else if dcount st = 1 then (out st, 1)
      else if dcount st = 2 then (out st @ [ucast (drop_bit 10 (dbits st))], 0)
      else if dcount st = 3 then
        (out st @ [ucast (drop_bit 16 (dbits st)), ucast (drop_bit 8 (dbits st) AND 0xff)], 0)
      else (out st, 0))"

text \<open>The result and the number of errors.\<close>

definition u_base64_decode :: "byte list \<Rightarrow> (byte list \<times> int) option" where
  "u_base64_decode input = do {
     input_len \<leftarrow> b64_dec_scan input;
     st \<leftarrow> b64_dec_loop b64_dec_init (take input_len input);
     Some (b64_dec_finish st)
   }"

section \<open>The alphabet and the tables\<close>

lemma alphabet_facts:
  "list_all (\<lambda>n. let c = u_alphabet ! n in
     at_char member c = Some 1 \<and> at_char decoder c = Some (word_of_nat n) \<and> c \<noteq> PAD \<and> c \<noteq> NUL) [0..<64]"
  by code_simp

lemma alphabet_nth:
  assumes "n < 64"
  shows "at_char member (u_alphabet ! n) = Some 1"
    "at_char decoder (u_alphabet ! n) = Some (word_of_nat n)"
    "u_alphabet ! n \<noteq> PAD" "u_alphabet ! n \<noteq> NUL"
  using alphabet_facts assms by (auto simp: list_all_iff Let_def)

lemma eol_facts [simp]:
  "at_char member CR = Some 0" "at_char member LF = Some 0" "at_char member PAD = Some 0"
  by code_simp+

section \<open>Groups of three bytes and of four characters\<close>

abbreviation b64_val :: "byte \<Rightarrow> byte \<Rightarrow> byte \<Rightarrow> u32" where
  "b64_val a b c \<equiv> push_bit 8 (push_bit 8 (ucast a) + ucast b) + ucast c"

lemma and_0x3f: "x AND 0x3f = take_bit 6 (x :: u32)"
proof -
  have "(0x3f :: u32) = mask 6" by (simp add: mask_eq_exp_minus_1)
  then show ?thesis by (simp add: take_bit_eq_mask)
qed

lemma sextet_step:
  "push_bit 6 (drop_bit (s + 6) v) + (drop_bit s v AND 0x3f) = drop_bit s (v :: u32)"
  using bits_ident [of 6 "drop_bit s v"] by (simp add: and_0x3f add.commute)

lemma push8_add: "push_bit 8 x + ucast (c :: byte) = push_bit 8 x OR (ucast c :: u32)"
  by (rule disjunctive_add) (auto simp: bit_simps dest: bit_imp_le_length)

lemma b64_val_bytes:
  "(ucast (drop_bit 16 (b64_val a b c)) :: byte) = a"
  "(ucast (drop_bit 8 (b64_val a b c) AND 0xff) :: byte) = b"
  "(ucast (b64_val a b c AND 0xff) :: byte) = c"
proof -
  have ff: "(0xff :: u32) = mask 8" by (simp add: mask_eq_exp_minus_1)
  show "(ucast (drop_bit 16 (b64_val a b c)) :: byte) = a"
    "(ucast (drop_bit 8 (b64_val a b c) AND 0xff) :: byte) = b"
    "(ucast (b64_val a b c AND 0xff) :: byte) = c"
    unfolding push8_add ff
    by (rule bit_word_eqI, auto simp: bit_simps dest: bit_imp_le_length)+
qed

lemma word_less_mask: "take_bit n x = x \<Longrightarrow> n < 32 \<Longrightarrow> unat (x :: u32) < 2 ^ n"
  by (metis take_bit_nat_less_exp unsigned_take_bit_eq)

lemma sextet_bound: "unat (x AND 0x3f :: u32) < 64"
  using word_less_mask [of 6 "x AND 0x3f"] by (simp add: and_0x3f)

lemma top_sextet_bound: "unat (drop_bit 18 (b64_val a b c)) < 64"
proof -
  have "take_bit 6 (drop_bit 18 (b64_val a b c)) = drop_bit 18 (b64_val a b c)"
    unfolding push8_add by (rule bit_word_eqI) (auto simp: bit_simps dest: bit_imp_le_length)
  then show ?thesis using word_less_mask [of 6] by fastforce
qed

lemma ucast_sextet: "unat x < 64 \<Longrightarrow> (ucast (ucast x :: byte) :: u32) = x"
  by (simp add: word_unat_eq_iff unsigned_ucast_eq unsigned_take_bit_eq take_bit_nat_eq_self)

lemma dec_loop_sextet:
  assumes "n < 64"
  shows "b64_dec_loop st (u_alphabet ! n # input) =
    (let v = dbits st + ucast (word_of_nat n :: byte)
     in if dcount st + 1 = 4
        then b64_dec_loop (st\<lparr>out := out st @ [ucast (drop_bit 16 v), ucast (drop_bit 8 v AND 0xff),
                                              ucast (v AND 0xff)], dcount := 0, dbits := 0\<rparr>) input
        else b64_dec_loop (st\<lparr>dcount := dcount st + 1, dbits := push_bit 6 v\<rparr>) input)"
  using alphabet_nth [OF assms] by (simp add: Let_def)

lemma quad_value:
  "push_bit 6 (push_bit 6 (push_bit 6 (drop_bit 18 v) + (drop_bit 12 v AND 0x3f)) + (drop_bit 6 v AND 0x3f)) +
     (v AND 0x3f) = (v :: u32)"
  using sextet_step [of 0 v] sextet_step [of 6 v] sextet_step [of 12 v] by simp

lemma dec_loop_quad:
  assumes "dcount st = 0" "dbits st = 0"
  shows "b64_dec_loop st (b64_quad (b64_val a b c) @ input) =
    b64_dec_loop (st\<lparr>out := out st @ [a, b, c]\<rparr>) input"
  using assms quad_value [of "b64_val a b c"] b64_val_bytes [of a b c]
  by (cases st) (simp add: b64_quad_def dec_loop_sextet top_sextet_bound sextet_bound ucast_sextet
      Let_def del: b64_dec_loop.simps)

lemma dec_loop_eol [simp]: "b64_dec_loop st (b64_eol t @ input) = b64_dec_loop st input"
  by (simp add: b64_eol_def)

lemma dec_loop_eol_Nil [simp]: "b64_dec_loop st (b64_eol t) = Some st"
  using dec_loop_eol [of st t "[]"] by simp

section \<open>The encoder in steps of three\<close>

definition b64_aligned :: "b64_enc \<Rightarrow> bool" where
  "b64_aligned st \<longleftrightarrow> char_count st = 0 \<and> bits st = 0"

lemma enc_loop_three:
  assumes "b64_aligned st"
  obtains eol st' where "b64_aligned st'" "eol = [] \<or> eol = b64_eol t"
    "b64_enc_loop mc t st (a # b # c # xs) =
       (case b64_enc_loop mc t st' xs of (r, st'') \<Rightarrow> (b64_quad (b64_val a b c) @ eol @ r, st''))"
proof (cases "mc \<noteq> 0 \<and> cols st + 4 = mc")
  case True
  show ?thesis
    by (rule that [of "\<lparr>columns = True, cols = 0, char_count = 0, bits = 0\<rparr>" "b64_eol t"])
      (use True assms in \<open>simp_all add: b64_aligned_def b64_enc_step_def Let_def split: prod.splits\<close>)
next
  case False
  show ?thesis
    by (rule that [of "st\<lparr>cols := if mc \<noteq> 0 then cols st + 4 else cols st\<rparr>" "[]"])
      (use False assms in \<open>cases st; auto simp: b64_aligned_def b64_enc_step_def Let_def split: prod.splits\<close>)+
qed

lemma one_byte:
  fixes a :: byte
  defines "v \<equiv> push_bit 8 (push_bit 8 (ucast a)) :: u32"
  shows "unat (drop_bit 18 v) < 64" "(ucast (drop_bit 10 (push_bit 6 (drop_bit 12 v))) :: byte) = a"
proof -
  show "unat (drop_bit 18 v) < 64"
    using top_sextet_bound [of a 0 0] by (simp add: v_def)
  show "(ucast (drop_bit 10 (push_bit 6 (drop_bit 12 v))) :: byte) = a"
    unfolding v_def by (rule bit_word_eqI) (auto simp: bit_simps dest: bit_imp_le_length)
qed

lemma two_bytes:
  fixes a b :: byte
  defines "v \<equiv> push_bit 8 (push_bit 8 (ucast a) + ucast b) :: u32"
  shows "unat (drop_bit 18 v) < 64" "push_bit 6 (drop_bit 6 v) = v"
    "(ucast (drop_bit 16 v) :: byte) = a" "(ucast (drop_bit 8 v AND 0xff) :: byte) = b"
proof -
  show "unat (drop_bit 18 v) < 64" "(ucast (drop_bit 16 v) :: byte) = a"
    "(ucast (drop_bit 8 v AND 0xff) :: byte) = b"
    using top_sextet_bound [of a b 0] b64_val_bytes [of a b 0] by (simp_all add: v_def)
  show "push_bit 6 (drop_bit 6 v) = v"
    unfolding v_def by (rule bit_word_eqI) (auto simp: bit_simps)
qed

lemma dec_loop_pad [simp]: "b64_dec_loop st (PAD # input) = Some (st\<lparr>at_pad := True\<rparr>)"
  by simp

lemma dec_enc_finish_one:
  assumes "b64_aligned st" "dcount d = 0" "dbits d = 0"
  shows "\<exists>d'. (case b64_enc_loop mc t st [a] of (r, st') \<Rightarrow> b64_dec_loop d (r @ b64_enc_finish t st')) = Some d' \<and>
    b64_dec_finish d' = (out d @ [a], 0)"
proof -
  let ?v = "push_bit 8 (push_bit 8 (ucast a)) :: u32"
  have "push_bit 6 (drop_bit 18 ?v) + (drop_bit 12 ?v AND 0x3f) = drop_bit 12 ?v"
    using sextet_step [of 12 ?v] by simp
  then show ?thesis
    using assms one_byte [of a]
    by (simp add: b64_aligned_def b64_enc_step_def b64_enc_finish_def b64_dec_finish_def Let_def
        dec_loop_sextet sextet_bound ucast_sextet del: b64_dec_loop.simps(2))
qed

lemma dec_enc_finish_two:
  assumes "b64_aligned st" "dcount d = 0" "dbits d = 0"
  shows "\<exists>d'. (case b64_enc_loop mc t st [a, b] of (r, st') \<Rightarrow> b64_dec_loop d (r @ b64_enc_finish t st')) = Some d' \<and>
    b64_dec_finish d' = (out d @ [a, b], 0)"
proof -
  let ?v = "push_bit 8 (push_bit 8 (ucast a) + ucast b) :: u32"
  have "push_bit 6 (push_bit 6 (drop_bit 18 ?v) + (drop_bit 12 ?v AND 0x3f)) + (drop_bit 6 ?v AND 0x3f) = drop_bit 6 ?v"
    using sextet_step [of 12 ?v] sextet_step [of 6 ?v] by simp
  then show ?thesis
    using assms two_bytes [of a b]
    by (simp add: b64_aligned_def b64_enc_step_def b64_enc_finish_def b64_dec_finish_def Let_def
        dec_loop_sextet sextet_bound ucast_sextet del: b64_dec_loop.simps(2))
qed

lemma dec_loop_enc:
  assumes "b64_aligned st" "dcount d = 0" "dbits d = 0" "\<not> at_pad d"
  shows "\<exists>d'. (case b64_enc_loop mc t st xs of (r, st') \<Rightarrow> b64_dec_loop d (r @ b64_enc_finish t st')) = Some d' \<and>
    b64_dec_finish d' = (out d @ xs, 0)"
  using assms
proof (induction xs arbitrary: st d rule: list_induct_triple)
  case Nil
  then show ?case
    by (auto simp: b64_aligned_def b64_enc_finish_def b64_dec_finish_def)
next
  case (One a)
  then show ?case by (intro dec_enc_finish_one)
next
  case (Two a b)
  then show ?case by (intro dec_enc_finish_two)
next
  case (Three a b c xs)
  obtain eol st' where st': "b64_aligned st'" "eol = [] \<or> eol = b64_eol t"
    and eq: "b64_enc_loop mc t st (a # b # c # xs) =
       (case b64_enc_loop mc t st' xs of (r, st'') \<Rightarrow> (b64_quad (b64_val a b c) @ eol @ r, st''))"
    using enc_loop_three [OF Three.prems(1)] by blast
  let ?d = "d\<lparr>out := out d @ [a, b, c]\<rparr>"
  obtain r st'' where r: "b64_enc_loop mc t st' xs = (r, st'')" by fastforce
  have "b64_dec_loop d (b64_quad (b64_val a b c) @ eol @ z) = b64_dec_loop ?d z" for z
    using Three.prems st'(2) by (auto simp: dec_loop_quad simp del: b64_dec_loop.simps)
  then show ?case
    unfolding eq
    using Three.IH [OF st'(1), of ?d] Three.prems by (simp add: r del: b64_dec_loop.simps)
qed

section \<open>The scan accepts what the encoder writes\<close>

definition b64_char :: "byte \<Rightarrow> bool" where
  "b64_char c \<longleftrightarrow> c \<noteq> NUL \<and> (\<exists>m. at_char member c = Some m \<and> (m = 1 \<or> c = PAD \<or> u__isspace c))"

lemma dec_scan_all: "list_all b64_char cs \<Longrightarrow> b64_dec_scan cs = Some (length cs)"
  by (induction cs) (auto simp: b64_char_def)

lemma b64_char_alphabet: "n < 64 \<Longrightarrow> b64_char (u_alphabet ! n)"
  using alphabet_nth [of n] by (simp add: b64_char_def)

lemma b64_char_simps [simp]: "b64_char PAD" "b64_char CR" "b64_char LF"
  by (simp_all add: b64_char_def char_class)

lemma enc_loop_chars:
  assumes "b64_aligned st"
  shows "case b64_enc_loop mc t st xs of (r, st') \<Rightarrow> list_all b64_char (r @ b64_enc_finish t st')"
  using assms
proof (induction xs arbitrary: st rule: list_induct_triple)
  case Nil
  then show ?case
    by (simp add: b64_aligned_def b64_enc_finish_def b64_eol_def)
next
  case (One a)
  then show ?case
    using one_byte(1) [of a]
    by (simp add: b64_aligned_def b64_enc_step_def b64_enc_finish_def b64_eol_def Let_def
        b64_char_alphabet sextet_bound)
next
  case (Two a b)
  then show ?case
    using two_bytes(1) [of a b]
    by (simp add: b64_aligned_def b64_enc_step_def b64_enc_finish_def b64_eol_def Let_def
        b64_char_alphabet sextet_bound)
next
  case (Three a b c xs)
  obtain eol st' where st': "b64_aligned st'" "eol = [] \<or> eol = b64_eol t"
    and eq: "b64_enc_loop mc t st (a # b # c # xs) =
       (case b64_enc_loop mc t st' xs of (r, st'') \<Rightarrow> (b64_quad (b64_val a b c) @ eol @ r, st''))"
    using enc_loop_three [OF Three.prems(1)] by blast
  have "list_all b64_char (b64_quad (b64_val a b c))"
    by (simp add: b64_quad_def b64_char_alphabet top_sextet_bound sextet_bound)
  moreover have "list_all b64_char eol"
    using st'(2) by (auto simp: b64_eol_def)
  ultimately show ?case
    unfolding eq using Three.IH [OF st'(1)] by (auto split: prod.splits)
qed

lemma b64_init_aligned [simp]: "b64_aligned b64_enc_init"
  by (simp add: b64_aligned_def b64_enc_init_def)

lemma base64_dec_enc:
  "u_base64_decode (u_base64_encode mc t bs) = Some (bs, 0)"
proof -
  obtain r st where r: "b64_enc_loop mc t b64_enc_init bs = (r, st)" by fastforce
  have "b64_dec_scan (r @ b64_enc_finish t st) = Some (length (r @ b64_enc_finish t st))"
    using enc_loop_chars [OF b64_init_aligned, where mc = mc and t = t and xs = bs] r
    by (intro dec_scan_all) (auto split: prod.splits)
  moreover obtain d' where "b64_dec_loop b64_dec_init (r @ b64_enc_finish t st) = Some d'"
    "b64_dec_finish d' = (bs, 0)"
    using dec_loop_enc [OF b64_init_aligned, where d = b64_dec_init and mc = mc and t = t and xs = bs] r
    by (auto simp: b64_dec_init_def)
  ultimately show ?thesis
    by (simp add: u_base64_encode_def u_base64_decode_def r)
qed

interpretation base64: codec "u_base64_encode mc t"
  "\<lambda>s. case u_base64_decode s of Some (bs, n) \<Rightarrow> if n = 0 then Some bs else None | None \<Rightarrow> None" "\<lambda>_. True"
  for mc t
  by unfold_locales (simp add: base64_dec_enc)

section \<open>Length\<close>

lemma enc_length:
  assumes "b64_aligned st" "\<not> columns st"
  shows "case b64_enc_loop 0 t st xs of (r, st') \<Rightarrow> length (r @ b64_enc_finish t st') = 4 * ((length xs + 2) div 3)"
  using assms
proof (induction xs arbitrary: st rule: list_induct_triple)
  case (Three a b c xs)
  have "b64_enc_loop 0 t st (a # b # c # xs) =
     (case b64_enc_loop 0 t st xs of (r, st'') \<Rightarrow> (b64_quad (b64_val a b c) @ r, st''))"
    using Three.prems by (cases st) (auto simp: b64_aligned_def b64_enc_step_def Let_def split: prod.splits)
  then show ?case
    using Three.IH [OF Three.prems] div_add1_eq [of "length xs + 2" 3 3]
    by (auto simp: b64_quad_def simp del: b64_enc_loop.simps split: prod.splits)
qed (auto simp: b64_aligned_def b64_enc_step_def b64_enc_finish_def Let_def)

section \<open>Properties\<close>

text \<open>
  C17: decoding an encoding gives the input back with no error counted, for every input, every
  column width (0: no line breaks) and either line terminator.
\<close>

theorem base64_roundtrip: "u_base64_decode (u_base64_encode mc t bs) = Some (bs, 0)"
  by (rule base64_dec_enc)

text \<open>
  Without line breaks the encoding of \<open>n\<close> bytes has exactly \<open>4 * ceiling (n / 3)\<close> characters.
\<close>

theorem base64_length: "length (u_base64_encode 0 t bs) = 4 * ((length bs + 2) div 3)"
  using enc_length [of b64_enc_init t bs]
  by (auto simp: u_base64_encode_def b64_enc_init_def b64_aligned_def split: prod.splits)

end
