(* ===== verification/Url.thy ===== *)
theory Url
  imports Ctype
begin

text \<open>
  The URL coder, \<open>src/ulib/base/coder/curl_coder.c\<close>, with the table \<open>u_uri_encoded_char\<close> and the
  global mask \<open>u_uri_encoded_char_mask\<close> of \<open>utility.c\<close> (a parameter: a program may change it).
  The decoder looks past a percent sign, so it takes the memory at \<open>input\<close> besides the length.
\<close>

section \<open>Definitions\<close>

abbreviation U_URI_PCT_ENCODED :: u32 where "U_URI_PCT_ENCODED \<equiv> 1"
abbreviation U_URI_GEN_DELIMS :: u32 where "U_URI_GEN_DELIMS \<equiv> 2"
abbreviation U_URI_SUB_DELIMS :: u32 where "U_URI_SUB_DELIMS \<equiv> 4"

definition u_uri_encoded_char_mask :: u32 where
  "u_uri_encoded_char_mask = U_URI_PCT_ENCODED OR U_URI_GEN_DELIMS OR U_URI_SUB_DELIMS"

definition u_uri_encoded_char :: "u32 list" where
  "u_uri_encoded_char = [
    1, 1, 1, 1, 1, 1, 1, 1, 1, 1, 1, 1, 1, 1, 1, 1,
    1, 1, 1, 1, 1, 1, 1, 1, 1, 1, 1, 1, 1, 1, 1, 1,
    1, 4, 1, 2, 4, 1, 4, 4, 4, 4, 4, 4, 4, 0, 0, 2,
    0, 0, 0, 0, 0, 0, 0, 0, 0, 0, 2, 4, 1, 4, 1, 2,
    2, 0, 0, 0, 0, 0, 0, 0, 0, 0, 0, 0, 0, 0, 0, 0,
    0, 0, 0, 0, 0, 0, 0, 0, 0, 0, 0, 2, 1, 2, 1, 0,
    1, 0, 0, 0, 0, 0, 0, 0, 0, 0, 0, 0, 0, 0, 0, 0,
    0, 0, 0, 0, 0, 0, 0, 0, 0, 0, 0, 1, 1, 1, 0, 1,
    1, 1, 1, 1, 1, 1, 1, 1, 1, 1, 1, 1, 1, 1, 1, 1,
    1, 1, 1, 1, 1, 1, 1, 1, 1, 1, 1, 1, 1, 1, 1, 1,
    1, 1, 1, 1, 1, 1, 1, 1, 1, 1, 1, 1, 1, 1, 1, 1,
    1, 1, 1, 1, 1, 1, 1, 1, 1, 1, 1, 1, 1, 1, 1, 1,
    1, 1, 1, 1, 1, 1, 1, 1, 1, 1, 1, 1, 1, 1, 1, 1,
    1, 1, 1, 1, 1, 1, 1, 1, 1, 1, 1, 1, 1, 1, 1, 1,
    1, 1, 1, 1, 1, 1, 1, 1, 1, 1, 1, 1, 1, 1, 1, 1,
    1, 1, 1, 1, 1, 1, 1, 1, 1, 1, 1, 1, 1, 1, 1, 1]"

text \<open>\<open>extra_enc_chars\<close> is a C string or the null pointer (\<open>None\<close>).\<close>

definition url_must_encode :: "u32 \<Rightarrow> byte list option \<Rightarrow> byte \<Rightarrow> bool" where
  "url_must_encode msk extra_enc_chars ch \<longleftrightarrow>
     u_uri_encoded_char ! unat ch AND msk \<noteq> 0 \<or>
     (case extra_enc_chars of None \<Rightarrow> False | Some s \<Rightarrow> strchr s ch)"

fun u_url_encode :: "u32 \<Rightarrow> byte list option \<Rightarrow> byte list \<Rightarrow> byte list" where
  "u_url_encode msk extra [] = []"
| "u_url_encode msk extra (ch # input) =
     (if ch = SPACE then [PLUS]
      else if url_must_encode msk extra ch
      then [PERCENT, u_hex_upper ! unat (drop_bit 4 ch AND 0x0F), u_hex_upper ! unat (ch mod 16)]
      else [ch]) @ u_url_encode msk extra input"

text \<open>Comparing the memory with a literal, byte by byte, up to the first difference.\<close>

fun looking_at :: "mem \<Rightarrow> byte list \<Rightarrow> bool option" where
  "looking_at m [] = Some True"
| "looking_at [] (p # ps) = None"
| "looking_at (c # m) (p # ps) = (if c = p then looking_at m ps else Some False)"

text \<open>
  The loop, with the memory from \<open>input + i\<close> and the distance \<open>len - i\<close>.
\<close>

fun u_url_decode_loop :: "bool \<Rightarrow> mem \<Rightarrow> nat \<Rightarrow> byte list option" where
  "u_url_decode_loop no_line_break m 0 = Some []"
| "u_url_decode_loop no_line_break [] (Suc n) = None"
| "u_url_decode_loop no_line_break (ch # m) (Suc n) =
     (if ch = PLUS then map_option ((#) SPACE) (u_url_decode_loop no_line_break m n)
      else if ch = PERCENT then do {
        lb \<leftarrow> (if no_line_break then looking_at m (bytes ''0D%0A'') else Some False);
        if lb then u_url_decode_loop no_line_break (drop 5 m) (n - 5)
        else do {
          h0 \<leftarrow> rd m 0;
          if h0 \<noteq> NUL then do {
            h1 \<leftarrow> rd m 1;
            if h1 \<noteq> NUL
            then map_option ((#) (ucast (u_hex2int [h0, h1])))
                   (u_url_decode_loop no_line_break (drop 2 m) (n - 2))
            else map_option ((#) (ucast (u_hex2int [h0, NUL])))
                   (u_url_decode_loop no_line_break (drop 1 m) (n - 1))
          }
          else map_option ((#) (ucast (u_hex2int [NUL, NUL]))) (u_url_decode_loop no_line_break m n)
        }
      }
      else map_option ((#) ch) (u_url_decode_loop no_line_break m n))"

definition u_url_decode :: "mem \<Rightarrow> nat \<Rightarrow> bool \<Rightarrow> byte list option" where
  "u_url_decode input len no_line_break = u_url_decode_loop no_line_break input len"

section \<open>Encoded characters\<close>

interpretation uri_tab: byte_table u_uri_encoded_char
  by unfold_locales code_simp

lemma uri_plain_char:
  "u_uri_encoded_char ! unat c AND u_uri_encoded_char_mask = 0 \<longleftrightarrow>
   u__isalnum c \<or> c = MINUS \<or> c = DOT \<or> c = UNDERBAR \<or> c = 126"
  unfolding u__isalnum_iff by (rule uri_tab.lookup_allI) code_simp

lemma uri_entries:
  "u_uri_encoded_char ! 37 = 1" "u_uri_encoded_char ! 43 = 4"
  by code_simp+

lemma mod_16: "(c :: byte) mod 16 = c AND 0x0F"
  by (rule all_byteI) code_simp

lemma hex_upper_nonzero: "n < 16 \<Longrightarrow> u_hex_upper ! n \<noteq> NUL"
  using isxdigit_upper [of n] by (auto simp: char_class)

lemma hex2int_pair:
  "(ucast (u_hex2int [u_hex_upper ! unat (drop_bit 4 c AND 0x0F), u_hex_upper ! unat (c AND 0x0F)]) :: byte) = c"
  using unhex2_upper [of c] by (simp add: u_hex2int_def unhex2_def)

text \<open>The mask must cover the two characters the encoding gives a meaning.\<close>

definition url_mask_ok :: "u32 \<Rightarrow> bool" where
  "url_mask_ok msk \<longleftrightarrow> msk AND U_URI_PCT_ENCODED \<noteq> 0 \<and> msk AND U_URI_SUB_DELIMS \<noteq> 0"

lemma must_encode_special:
  "url_mask_ok msk \<Longrightarrow> url_must_encode msk extra PERCENT"
  "url_mask_ok msk \<Longrightarrow> url_must_encode msk extra PLUS"
  by (simp_all add: url_mask_ok_def url_must_encode_def uri_entries and.commute)

lemma length_url_encode_le: "length bs \<le> length (u_url_encode msk extra bs)"
  by (induction bs) auto

section \<open>Round trips\<close>

lemma url_decode_loop_encode:
  assumes "url_mask_ok msk"
  shows "u_url_decode_loop False (u_url_encode msk extra bs @ m) (length (u_url_encode msk extra bs)) = Some bs"
proof (induction bs)
  case (Cons c bs)
  show ?case
  proof (cases "c \<noteq> SPACE \<and> url_must_encode msk extra c")
    case True
    then show ?thesis
      using Cons.IH hex2int_pair [of c]
      by (simp add: mod_16 hex_upper_nonzero byte_nibble_bound)
  next
    case False
    show ?thesis
    proof (cases "c = SPACE")
      case space: False
      with False have "\<not> url_must_encode msk extra c" by simp
      moreover from this have "c \<noteq> PERCENT" "c \<noteq> PLUS"
        using must_encode_special [OF assms] by metis+
      ultimately show ?thesis using Cons.IH space by simp
    qed (use Cons.IH in simp)
  qed
qed simp

interpretation url: codec "u_url_encode msk extra"
  "\<lambda>s. u_url_decode s (length s) False" "\<lambda>_. url_mask_ok msk"
  for msk extra
  using url_decode_loop_encode [where m = "[]"] by unfold_locales (simp add: u_url_decode_def)

text \<open>
  With \<open>no_line_break\<close> the decoder drops the pairs \<open>CR LF\<close>. It compares the five bytes after a
  percent sign, so the source has to end with a terminator, as the C strings it is called on do.
\<close>

fun remove_crlf :: "byte list \<Rightarrow> byte list" where
  "remove_crlf (a # b # bs) =
     (if a = CR \<and> b = LF then remove_crlf bs else a # remove_crlf (b # bs))"
| "remove_crlf bs = bs"

lemma pct_0A: "u_hex_upper ! unat (drop_bit 4 c AND 0x0F) = 48 \<and> u_hex_upper ! unat (c AND 0x0F) = 65 \<longleftrightarrow> c = LF"
  by (rule all_byteI) code_simp

lemma pct_0D: "u_hex_upper ! unat (drop_bit 4 c AND 0x0F) = 48 \<and> u_hex_upper ! unat (c AND 0x0F) = 68 \<longleftrightarrow> c = CR"
  by (rule all_byteI) code_simp

lemma must_encode_line_break:
  "url_mask_ok msk \<Longrightarrow> url_must_encode msk extra CR"
  "url_mask_ok msk \<Longrightarrow> url_must_encode msk extra LF"
proof -
  have "u_uri_encoded_char ! 13 = 1" "u_uri_encoded_char ! 10 = 1" by code_simp+
  then show "url_mask_ok msk \<Longrightarrow> url_must_encode msk extra CR"
    "url_mask_ok msk \<Longrightarrow> url_must_encode msk extra LF"
    by (simp_all add: url_mask_ok_def url_must_encode_def and.commute)
qed

lemma looking_at_LF:
  assumes "url_mask_ok msk"
  shows "looking_at (u_url_encode msk extra bs @ NUL # m) [PERCENT, 48, 65] = Some (bs \<noteq> [] \<and> hd bs = LF)"
proof (cases bs)
  case (Cons c cs)
  show ?thesis
  proof (cases "url_must_encode msk extra c")
    case True
    then show ?thesis
      using pct_0A [of c] Cons by (auto simp: mod_16)
  next
    case False
    then have "c \<noteq> PERCENT" "c \<noteq> LF"
      using must_encode_special(1) [OF assms] must_encode_line_break(2) [OF assms] by metis+
    with False show ?thesis using Cons by simp
  qed
qed simp

lemma looking_at_CRLF:
  assumes "url_mask_ok msk" "c \<noteq> SPACE" "url_must_encode msk extra c"
  shows "looking_at (u_hex_upper ! unat (drop_bit 4 c AND 0x0F) # u_hex_upper ! unat (c AND 0x0F) #
           u_url_encode msk extra bs @ NUL # m) (bytes ''0D%0A'') =
         Some (c = CR \<and> bs \<noteq> [] \<and> hd bs = LF)"
  using looking_at_LF [OF assms(1), of extra bs m] pct_0D [of c] by (auto simp: of_char_def)

lemma crlf_head: "\<not> (c = CR \<and> bs \<noteq> [] \<and> hd bs = LF) \<Longrightarrow> remove_crlf (c # bs) = c # remove_crlf bs"
  by (cases bs) auto

lemma hex_CR_LF [simp]:
  "u_hex_upper ! 0 = 48" "u_hex_upper ! 13 = 68" "u_hex_upper ! 10 = 65"
  by code_simp+

lemma url_decode_CRLF:
  assumes "url_mask_ok msk"
  shows "u_url_decode_loop True (u_url_encode msk extra (CR # LF # bs) @ m)
           (length (u_url_encode msk extra (CR # LF # bs))) =
         u_url_decode_loop True (u_url_encode msk extra bs @ m) (length (u_url_encode msk extra bs))"
  using must_encode_line_break [OF assms] by (simp add: of_char_def)

lemma url_decode_other:
  assumes "url_mask_ok msk" and "\<not> (c = CR \<and> bs \<noteq> [] \<and> hd bs = LF)"
  shows "u_url_decode_loop True (u_url_encode msk extra (c # bs) @ NUL # m)
           (length (u_url_encode msk extra (c # bs))) =
         map_option ((#) c) (u_url_decode_loop True (u_url_encode msk extra bs @ NUL # m)
           (length (u_url_encode msk extra bs)))"
proof (cases "c \<noteq> SPACE \<and> url_must_encode msk extra c")
  case True
  then show ?thesis
    using looking_at_CRLF [OF assms(1), of c extra bs m] assms(2) hex2int_pair [of c]
    by (simp add: mod_16 hex_upper_nonzero byte_nibble_bound del: bytes_simps)
next
  case False
  show ?thesis
  proof (cases "c = SPACE")
    case space: False
    with False have "\<not> url_must_encode msk extra c" by simp
    moreover from this have "c \<noteq> PERCENT" "c \<noteq> PLUS"
      using must_encode_special [OF assms(1)] by metis+
    ultimately show ?thesis using space by simp
  qed simp
qed

lemma url_decode_no_line_break:
  assumes "url_mask_ok msk"
  shows "u_url_decode_loop True (u_url_encode msk extra bs @ NUL # m) (length (u_url_encode msk extra bs)) =
         Some (remove_crlf bs)"
proof (induction bs rule: length_induct)
  case (1 bs)
  show ?case
  proof (cases bs)
    case (Cons c cs)
    show ?thesis
    proof (cases "c = CR \<and> cs \<noteq> [] \<and> hd cs = LF")
      case True
      then obtain ds where "bs = CR # LF # ds" using Cons by (cases cs) auto
      then show ?thesis using url_decode_CRLF [OF assms] 1 by (simp del: u_url_encode.simps(2))
    next
      case False
      then show ?thesis
        using url_decode_other [OF assms False] crlf_head [OF False] 1 Cons by (simp del: u_url_encode.simps(2))
    qed
  qed simp
qed

section \<open>Properties\<close>

definition url_safe :: "byte \<Rightarrow> bool" where
  "url_safe c \<longleftrightarrow> u__isalnum c \<or> c \<in> {MINUS, DOT, UNDERBAR, 126, PLUS, PERCENT}"

lemma xdigit_alnum: "u__isxdigit c \<longrightarrow> u__isalnum c"
  by (rule all_byteI) code_simp

lemma url_safe_hex: "n < 16 \<Longrightarrow> url_safe (u_hex_upper ! n)"
  using isxdigit_upper [of n] xdigit_alnum [of "u_hex_upper ! n"] by (simp add: url_safe_def)

lemma url_encode_safe: "list_all url_safe (u_url_encode u_uri_encoded_char_mask extra bs)"
proof (induction bs)
  case (Cons c bs)
  have "url_safe c" if "\<not> url_must_encode u_uri_encoded_char_mask extra c"
    using that uri_plain_char [of c] by (auto simp: url_must_encode_def url_safe_def)
  moreover have "url_safe PERCENT" "url_safe PLUS" by (simp_all add: url_safe_def)
  ultimately show ?case
    using Cons.IH by (auto simp: mod_16 url_safe_hex byte_nibble_bound)
qed simp



text \<open>
  With \<open>no_line_break\<close> the decoder gives back the input without its \<open>CR LF\<close> pairs, and it
  stays inside the encoding and its terminator.
\<close>

theorem url_decode_removes_line_breaks:
  assumes "url_mask_ok msk"
  shows "u_url_decode (u_url_encode msk extra bs @ [NUL]) (length (u_url_encode msk extra bs)) True =
         Some (remove_crlf bs)"
  using url_decode_no_line_break [OF assms] by (simp add: u_url_decode_def)

theorem url_decode_removes_line_breaks_witness:
  "url_mask_ok u_uri_encoded_char_mask \<and>
   u_url_decode (u_url_encode u_uri_encoded_char_mask None [65, CR, LF, 66] @ [NUL])
     (length (u_url_encode u_uri_encoded_char_mask None [65, CR, LF, 66])) True = Some [65, 66]"
proof -
  have h: "url_mask_ok u_uri_encoded_char_mask" by code_simp
  from url_decode_removes_line_breaks [OF h, where extra = None and bs = "[65, CR, LF, 66]"] h
  show ?thesis by simp
qed

text \<open>
  Under the default mask every character of an encoding is alphanumeric or one of the
  unreserved marks, the plus sign and the percent sign, for every input.
\<close>

theorem url_encode_output_safe: "list_all url_safe (u_url_encode u_uri_encoded_char_mask extra bs)"
  by (rule url_encode_safe)

end
