(* ===== verification/Xml.thy ===== *)
theory Xml
  imports Ctype
begin

text \<open>
  The XML coder, \<open>src/ulib/base/coder/cxml_coder.c\<close>. Both directions look past the character they
  work on (\<open>*input\<close>, \<open>U_STRNEQ\<close>, the copy up to a semicolon, \<open>strtol\<close>), so they take the memory
  at \<open>input\<close> besides the length and answer \<open>None\<close> when they read outside it. \<open>strtol\<close> with base 0
  is modelled as the C library defines it.
\<close>

section \<open>Definitions\<close>

definition u_set_quot :: "byte list" where "u_set_quot = bytes ''&quot;''"
definition u_set_amp :: "byte list" where "u_set_amp = bytes ''&amp;''"
definition u_set_apos :: "byte list" where "u_set_apos = bytes ''&apos;''"
definition u_set_lt :: "byte list" where "u_set_lt = bytes ''&lt;''"
definition u_set_gt :: "byte list" where "u_set_gt = bytes ''&gt;''"

text \<open>A chain of \<open>U_STRNEQ\<close> tests joined by \<open>||\<close>.\<close>

fun any_strneq :: "mem \<Rightarrow> byte list list \<Rightarrow> bool option" where
  "any_strneq m [] = Some False"
| "any_strneq m (l # ls) = do {
     b \<leftarrow> strneq m l (length l);
     if b then Some True else any_strneq m ls
   }"

definition xml_entities :: "byte list list" where
  "xml_entities = [bytes ''quot;'', bytes ''amp;'', bytes ''lt;'', bytes ''gt;'', bytes ''apos;'']"

definition xml_already_encoded :: "mem \<Rightarrow> bool option" where
  "xml_already_encoded m = do {
     h \<leftarrow> rd m 0;
     if h = HASH then Some True
     else any_strneq m xml_entities
   }"

text \<open>
  The loop, with the memory from \<open>input\<close> and the distance \<open>end - input\<close> (0 once \<open>input\<close> is past
  \<open>end\<close>). The inner loop copies up to a semicolon and leaves \<open>input\<close> on it.
\<close>

fun u_xml_encode_loop :: "mem \<Rightarrow> nat \<Rightarrow> byte list option" where
  "u_xml_encode_loop m 0 = Some []"
| "u_xml_encode_loop [] (Suc n) = None"
| "u_xml_encode_loop (ch # m) (Suc n) =
     (if u__isalnum ch \<or> \<not> strchr [DQUOTE, AMP, APOS, LESS, GREATER] ch
      then map_option ((#) ch) (u_xml_encode_loop m n)
      else if ch = AMP then do {
        e \<leftarrow> xml_already_encoded m;
        if e then do {
          k \<leftarrow> memchr m SEMI;
          map_option (\<lambda>r. AMP # take k m @ r) (u_xml_encode_loop (drop k m) (n - k))
        }
        else map_option ((@) u_set_amp) (u_xml_encode_loop m n)
      }
      else if ch = DQUOTE then map_option ((@) u_set_quot) (u_xml_encode_loop m n)
      else if ch = APOS then map_option ((@) u_set_apos) (u_xml_encode_loop m n)
      else if ch = LESS then map_option ((@) u_set_lt) (u_xml_encode_loop m n)
      else if ch = GREATER then map_option ((@) u_set_gt) (u_xml_encode_loop m n)
      else map_option ((#) ch) (u_xml_encode_loop m n))"

definition u_xml_encode :: "mem \<Rightarrow> nat \<Rightarrow> byte list option" where
  "u_xml_encode input len = u_xml_encode_loop input len"

subsection \<open>The C library's \<open>strtol (s, &e, 0)\<close>\<close>

definition c_isspace :: "byte \<Rightarrow> bool" where
  "c_isspace c \<longleftrightarrow> c = SPACE \<or> TAB \<le> c \<and> c \<le> CR"

fun skip_spaces :: "mem \<Rightarrow> nat option" where
  "skip_spaces [] = None"
| "skip_spaces (c # m) = (if c_isspace c then map_option Suc (skip_spaces m) else Some 0)"

definition digit_value :: "byte \<Rightarrow> int option" where
  "digit_value c =
     (if 48 \<le> c \<and> c \<le> 57 then Some (uint c - 48)
      else if 97 \<le> c \<and> c \<le> 102 then Some (uint c - 87)
      else if 65 \<le> c \<and> c \<le> 70 then Some (uint c - 55)
      else None)"

text \<open>The value of the digits at \<open>m\<close> and their number.\<close>

fun read_digits :: "int \<Rightarrow> mem \<Rightarrow> int \<Rightarrow> (int \<times> nat) option" where
  "read_digits base [] acc = None"
| "read_digits base (c # m) acc =
     (case digit_value c of
        Some d \<Rightarrow> if d < base then map_option (apsnd Suc) (read_digits base m (base * acc + d)) else Some (acc, 0)
      | None \<Rightarrow> Some (acc, 0))"

definition long_clamp :: "int \<Rightarrow> int" where
  "long_clamp v = max (- (2 ^ 63)) (min (2 ^ 63 - 1) v)"

text \<open>The prefix of the number: its base and the characters of a \<open>0x\<close>, which count only before a digit.\<close>

definition number_base :: "mem \<Rightarrow> (int \<times> nat) option" where
  "number_base m = do {
     c0 \<leftarrow> rd m 0;
     if c0 \<noteq> DIGIT0 then Some (10, 0)
     else do {
       c1 \<leftarrow> rd m 1;
       if c1 = 120 \<or> c1 = 88 then do {
         c2 \<leftarrow> rd m 2;
         Some (if digit_value c2 \<noteq> None then (16, 2) else (8, 0))
       }
       else Some (8, 0)
     }
   }"

definition strtol0 :: "mem \<Rightarrow> (int \<times> nat) option" where
  "strtol0 m = do {
     s \<leftarrow> skip_spaces m;
     c \<leftarrow> rd m s;
     let g = (if c = MINUS \<or> c = PLUS then 1 else 0);
     (base, p) \<leftarrow> number_base (drop (s + g) m);
     (v, k) \<leftarrow> read_digits base (drop (s + g + p) m) 0;
     Some (if k = 0 then (0, 0) else (long_clamp (if c = MINUS then - v else v), s + g + p + k))
   }"

fun u_xml_decode_loop :: "mem \<Rightarrow> nat \<Rightarrow> byte list option" where
  "u_xml_decode_loop m 0 = Some []"
| "u_xml_decode_loop [] (Suc n) = None"
| "u_xml_decode_loop (ch # m) (Suc n) =
     (if ch \<noteq> AMP then map_option ((#) ch) (u_xml_decode_loop m n)
      else do {
        amp \<leftarrow> strneq m (bytes ''amp;'') 4;
        if amp then map_option ((#) AMP) (u_xml_decode_loop (drop 4 m) (n - 4)) else do {
        lt \<leftarrow> strneq m (bytes ''lt;'') 3;
        if lt then map_option ((#) LESS) (u_xml_decode_loop (drop 3 m) (n - 3)) else do {
        gt \<leftarrow> strneq m (bytes ''gt;'') 3;
        if gt then map_option ((#) GREATER) (u_xml_decode_loop (drop 3 m) (n - 3)) else do {
        quot \<leftarrow> strneq m (bytes ''quot;'') 5;
        if quot then map_option ((#) DQUOTE) (u_xml_decode_loop (drop 5 m) (n - 5)) else do {
        apos \<leftarrow> strneq m (bytes ''apos;'') 5;
        if apos then map_option ((#) APOS) (u_xml_decode_loop (drop 5 m) (n - 5)) else do {
        h \<leftarrow> rd m 0;
        if h = HASH then do {
          (v, k) \<leftarrow> strtol0 (drop 1 m);
          map_option ((#) (word_of_int v)) (u_xml_decode_loop (drop (k + 2) m) (n - (k + 2)))
        }
        else map_option ((#) ch) (u_xml_decode_loop m n)
      }}}}}})"

definition u_xml_decode :: "mem \<Rightarrow> nat \<Rightarrow> byte list option" where
  "u_xml_decode input len = u_xml_decode_loop input len"

section \<open>Entities\<close>

lemmas entity_defs = u_set_quot_def u_set_amp_def u_set_apos_def u_set_lt_def u_set_gt_def

lemma strneq_True: "strneq a b n = Some True \<Longrightarrow> length b = n \<Longrightarrow> NUL \<notin> set b \<Longrightarrow> prefix b a"
proof (induction a b n rule: strneq.induct)
  case (2 x a y b n)
  then show ?case by (auto split: if_splits)
qed auto

lemma any_strneq_True:
  "any_strneq m ls = Some True \<Longrightarrow> list_all (\<lambda>l. NUL \<notin> set l) ls \<Longrightarrow> \<exists>l \<in> set ls. prefix l m"
  by (induction ls) (auto simp: strneq_True bind_eq_Some_conv split: if_splits)

lemma already_encoded_cases:
  assumes "xml_already_encoded m = Some True"
  obtains r where "m = HASH # r" | r where "m = bytes ''quot;'' @ r" | r where "m = bytes ''amp;'' @ r"
    | r where "m = bytes ''lt;'' @ r" | r where "m = bytes ''gt;'' @ r" | r where "m = bytes ''apos;'' @ r"
proof -
  have "(\<exists>r. m = HASH # r) \<or> any_strneq m xml_entities = Some True"
    using assms by (cases m) (auto simp: xml_already_encoded_def split: if_splits)
  moreover have "list_all (\<lambda>l. NUL \<notin> set l) xml_entities" by code_simp
  ultimately have "(\<exists>r. m = HASH # r) \<or> (\<exists>l \<in> set xml_entities. \<exists>r. m = l @ r)"
    using any_strneq_True [of m xml_entities] unfolding prefix_def by blast
  then show ?thesis
    using that unfolding xml_entities_def by auto
qed

lemma already_encoded_copy:
  assumes "xml_already_encoded m = Some True" "memchr m SEMI = Some k"
  shows "xml_already_encoded (take k m @ SEMI # z) = Some True"
  using assms(1)
proof (cases rule: already_encoded_cases)
  case (1 r)
  then show ?thesis using assms(2) by (auto simp: xml_already_encoded_def)
qed (use assms(2) in \<open>auto simp: xml_already_encoded_def xml_entities_def of_char_def\<close>)

section \<open>The encoder is idempotent\<close>

lemma xml_encode_special:
  "u_xml_encode_loop (u_set_quot @ m) (length u_set_quot + n) = map_option ((@) u_set_quot) (u_xml_encode_loop m n)"
  "u_xml_encode_loop (u_set_amp @ m) (length u_set_amp + n) = map_option ((@) u_set_amp) (u_xml_encode_loop m n)"
  "u_xml_encode_loop (u_set_apos @ m) (length u_set_apos + n) = map_option ((@) u_set_apos) (u_xml_encode_loop m n)"
  "u_xml_encode_loop (u_set_lt @ m) (length u_set_lt + n) = map_option ((@) u_set_lt) (u_xml_encode_loop m n)"
  "u_xml_encode_loop (u_set_gt @ m) (length u_set_gt + n) = map_option ((@) u_set_gt) (u_xml_encode_loop m n)"
  by (cases "u_xml_encode_loop m n";
      simp add: entity_defs xml_already_encoded_def xml_entities_def of_char_def char_class strchr_def)+

lemma memchr_NUL: "memchr (cs @ [NUL]) SEMI = Some k \<Longrightarrow> memchr cs SEMI = Some k"
  by (auto simp: memchr_append split: option.splits)

lemma encode_copied:
  assumes "xml_already_encoded m = Some True" "memchr m SEMI = Some k"
    and "u_xml_encode_loop (x @ [NUL]) (length x) = Some x"
  shows "u_xml_encode_loop (AMP # take k m @ SEMI # x @ [NUL]) (Suc (k + Suc (length x))) =
         Some (AMP # take k m @ SEMI # x)"
proof -
  have k: "k < length m" "memchr (take k m @ SEMI # x @ [NUL]) SEMI = Some k"
    using assms(2) by (auto simp: memchr_Some nth_append)
  have "u_xml_encode_loop (SEMI # x @ [NUL]) (Suc (length x)) = Some (SEMI # x)"
    using assms(3) by (simp add: char_class strchr_def)
  then show ?thesis
    using already_encoded_copy [OF assms(1, 2), of "x @ [NUL]"] k
    by (simp add: char_class strchr_def del: u_xml_encode_loop.simps(3))
      (simp add: char_class strchr_def)
qed

lemma xml_encode_idem:
  "u_xml_encode_loop (bs @ [NUL]) (length bs) = Some e \<Longrightarrow>
   u_xml_encode_loop (e @ [NUL]) (length e) = Some e"
proof (induction bs arbitrary: e rule: length_induct)
  case (1 bs)
  show ?case
  proof (cases bs)
    case (Cons ch cs)
    have IH: "u_xml_encode_loop (ds @ [NUL]) (length ds) = Some x \<Longrightarrow> u_xml_encode_loop (x @ [NUL]) (length x) = Some x"
      if "length ds \<le> length cs" for ds x
      using 1(1) that Cons by (simp add: less_Suc_eq_le)
    show ?thesis
    proof (cases "ch = AMP \<and> xml_already_encoded (cs @ [NUL]) = Some True")
      case True
      with 1(2) Cons obtain k r where k: "memchr (cs @ [NUL]) SEMI = Some k"
        and r: "u_xml_encode_loop (drop k (cs @ [NUL])) (length cs - k) = Some r"
        and e: "e = AMP # take k (cs @ [NUL]) @ r"
        by (auto simp: strchr_def char_class bind_eq_Some_conv)
      have kc: "k < length cs" "cs ! k = SEMI"
        using memchr_NUL [OF k] by (auto simp: memchr_Some)
      then have "drop k (cs @ [NUL]) = SEMI # drop (Suc k) cs @ [NUL]"
        by (simp add: Cons_nth_drop_Suc [symmetric])
      with r kc obtain r' where r': "r = SEMI # r'"
        "u_xml_encode_loop (drop (Suc k) cs @ [NUL]) (length cs - Suc k) = Some r'"
        by (auto simp: strchr_def char_class Suc_diff_Suc [symmetric] simp del: diff_Suc_Suc)
      with IH [of "drop (Suc k) cs" r'] have "u_xml_encode_loop (r' @ [NUL]) (length r') = Some r'" by simp
      then show ?thesis
        using encode_copied [OF _ k, of r'] True e r'(1) kc by (simp del: u_xml_encode_loop.simps)
    next
      case False
      with 1(2) Cons obtain x where "u_xml_encode_loop (cs @ [NUL]) (length cs) = Some x"
        and e: "e = ch # x \<and> (u__isalnum ch \<or> \<not> strchr [DQUOTE, AMP, APOS, LESS, GREATER] ch \<or> ch = NUL)
           \<or> e \<in> {u_set_quot @ x, u_set_amp @ x, u_set_apos @ x, u_set_lt @ x, u_set_gt @ x}"
        by (auto simp: bind_eq_Some_conv strchr_def split: if_splits)
      with IH [of cs x] have x: "u_xml_encode_loop (x @ [NUL]) (length x) = Some x" by simp
      from e show ?thesis
        using x xml_encode_special [of "x @ [NUL]" "length x"] by (auto simp: char_class strchr_def)
    qed
  qed (use 1(2) in simp)
qed

section \<open>Round trip\<close>

text \<open>An input no ampersand of which looks like the start of an entity.\<close>

fun xml_fresh :: "byte list \<Rightarrow> bool" where
  "xml_fresh [] \<longleftrightarrow> True"
| "xml_fresh (c # cs) \<longleftrightarrow> (c = AMP \<longrightarrow> xml_already_encoded (cs @ [NUL]) = Some False) \<and> xml_fresh cs"

lemma xml_decode_special:
  "u_xml_decode_loop (u_set_quot @ m) (length u_set_quot + n) = map_option ((#) DQUOTE) (u_xml_decode_loop m n)"
  "u_xml_decode_loop (u_set_amp @ m) (length u_set_amp + n) = map_option ((#) AMP) (u_xml_decode_loop m n)"
  "u_xml_decode_loop (u_set_apos @ m) (length u_set_apos + n) = map_option ((#) APOS) (u_xml_decode_loop m n)"
  "u_xml_decode_loop (u_set_lt @ m) (length u_set_lt + n) = map_option ((#) LESS) (u_xml_decode_loop m n)"
  "u_xml_decode_loop (u_set_gt @ m) (length u_set_gt + n) = map_option ((#) GREATER) (u_xml_decode_loop m n)"
  by (simp_all add: entity_defs of_char_def strneq_numeral u_xml_decode_loop.simps(3) [of AMP] del: u_xml_decode_loop.simps)

definition xml_enc1 :: "byte \<Rightarrow> byte list" where
  "xml_enc1 c =
     (if c = AMP then u_set_amp else if c = DQUOTE then u_set_quot else if c = APOS then u_set_apos
      else if c = LESS then u_set_lt else if c = GREATER then u_set_gt else [c])"

text \<open>On a fresh input the encoder works character by character.\<close>

lemma xml_encode_fresh:
  "xml_fresh bs \<Longrightarrow> u_xml_encode (bs @ [NUL]) (length bs) = Some (concat (map xml_enc1 bs))"
  unfolding u_xml_encode_def
proof (induction bs)
  case (Cons c bs)
  then show ?case
    by (auto simp: xml_enc1_def char_class strchr_def)
qed simp

lemma xml_decode_enc1:
  "u_xml_decode_loop (xml_enc1 c @ m) (length (xml_enc1 c) + n) = map_option ((#) c) (u_xml_decode_loop m n)"
  using xml_decode_special [of m n] by (auto simp: xml_enc1_def)

lemma xml_decode_encoded:
  "u_xml_decode (concat (map xml_enc1 bs) @ m) (length (concat (map xml_enc1 bs))) = Some bs"
  unfolding u_xml_decode_def
  by (induction bs) (simp_all add: xml_decode_enc1 del: length_concat)

interpretation xml: codec "\<lambda>bs. u_xml_encode (bs @ [NUL]) (length bs)"
  "\<lambda>e. Option.bind e (\<lambda>s. u_xml_decode (s @ [NUL]) (length s))" xml_fresh
  by unfold_locales (simp add: xml_encode_fresh xml_decode_encoded del: length_concat)

definition xml_markup :: "byte \<Rightarrow> bool" where
  "xml_markup c \<longleftrightarrow> c \<in> {DQUOTE, APOS, LESS, GREATER}"

lemma enc1_no_markup: "list_all (\<lambda>c. \<not> xml_markup c) (xml_enc1 c)"
  by (simp add: xml_enc1_def entity_defs xml_markup_def of_char_def)

section \<open>Properties\<close>

text \<open>
  C34: decoding an encoding gives the input back when no ampersand of the input already starts an
  entity (those are left as they are, on purpose).
\<close>

theorem xml_roundtrip:
  assumes "xml_fresh bs"
  shows "Option.bind (u_xml_encode (bs @ [NUL]) (length bs)) (\<lambda>s. u_xml_decode (s @ [NUL]) (length s)) = Some bs"
  using xml.dec_enc [OF assms] .

theorem xml_roundtrip_witness:
  "xml_fresh (bytes ''a<b & c'') \<and>
   Option.bind (u_xml_encode (bytes ''a<b & c'' @ [NUL]) (length (bytes ''a<b & c'')))
     (\<lambda>s. u_xml_decode (s @ [NUL]) (length s)) = Some (bytes ''a<b & c'')"
proof -
  have h: "xml_fresh (bytes ''a<b & c'')" by code_simp
  from xml_roundtrip [OF h] h show ?thesis by blast
qed

text \<open>
  Encoding twice is encoding once: whenever the encoder stays inside a terminated input, its
  output encodes to itself.
\<close>

theorem xml_encode_idempotent:
  assumes "u_xml_encode (bs @ [NUL]) (length bs) = Some e"
  shows "u_xml_encode (e @ [NUL]) (length e) = Some e"
  using assms xml_encode_idem unfolding u_xml_encode_def by blast

theorem xml_encode_idempotent_witness:
  "u_xml_encode (bytes ''<&#65;'' @ [NUL]) (length (bytes ''<&#65;'')) = Some (bytes ''&lt;&#65;'') \<and>
   u_xml_encode (bytes ''&lt;&#65;'' @ [NUL]) (length (bytes ''&lt;&#65;'')) = Some (bytes ''&lt;&#65;'')"
proof -
  have h: "u_xml_encode (bytes ''<&#65;'' @ [NUL]) (length (bytes ''<&#65;'')) = Some (bytes ''&lt;&#65;'')"
    by code_simp
  from xml_encode_idempotent [OF h] h show ?thesis by blast
qed

text \<open>
  No quote and no angle bracket survives the encoding of an input without entities.
\<close>

theorem xml_encode_no_markup:
  assumes "xml_fresh bs"
  shows "\<exists>e. u_xml_encode (bs @ [NUL]) (length bs) = Some e \<and> list_all (\<lambda>c. \<not> xml_markup c) e"
  using xml_encode_fresh [OF assms] enc1_no_markup by (auto simp: list_all_iff)

theorem xml_encode_no_markup_witness:
  "xml_fresh (bytes ''<b>'') \<and>
   (\<exists>e. u_xml_encode (bytes ''<b>'' @ [NUL]) (length (bytes ''<b>'')) = Some e \<and> list_all (\<lambda>c. \<not> xml_markup c) e)"
proof -
  have h: "xml_fresh (bytes ''<b>'')" by code_simp
  from xml_encode_no_markup [OF h] h show ?thesis by blast
qed

text \<open>
  Where the coder departs from its comment. An ampersand followed by a hash sign is copied
  with everything up to the next semicolon, markup included; a hexadecimal entity is decoded to a
  zero byte followed by its digits; and a decimal entity with a leading zero is read as octal.
\<close>

theorem xml_numeric_entities:
  "u_xml_encode (bytes ''&#<b>;'' @ [NUL]) 6 = Some (bytes ''&#<b>;'')"
  "u_xml_decode (bytes ''&#65;'' @ [NUL]) 5 = Some (bytes ''A'')"
  "u_xml_decode (bytes ''&#x41;'' @ [NUL]) 6 = Some (NUL # bytes ''41;'')"
  "u_xml_decode (bytes ''&#065;'' @ [NUL]) 6 = Some (bytes ''5'')"
  by code_simp+

end
