(* ===== verification/QuotedPrintable.thy ===== *)
theory QuotedPrintable
  imports Ctype
begin

text \<open>
  The quoted-printable coder, \<open>src/ulib/base/coder/cquoted_printable.c\<close>. The state of the encoder
  is the column \<open>n\<close> and the pending blank \<open>ws\<close> (0: none); each character is one step that answers
  the bytes it writes. The decoder looks up to five bytes ahead, so it takes the memory at \<open>inptr\<close>.
\<close>

section \<open>Definitions\<close>

record qp_state =
  col :: nat
  ws :: byte

definition qp_init :: qp_state where
  "qp_init = \<lparr>col = 0, ws = NUL\<rparr>"

definition qp_hex :: "byte \<Rightarrow> byte list" where
  "qp_hex ch = [EQUALS, u_hex_upper ! unat (drop_bit 4 ch AND 0xf), u_hex_upper ! unat (ch AND 0xf)]"

text \<open>The three branches of the \<open>switch\<close>.\<close>

definition qp_blank :: "qp_state \<Rightarrow> byte \<Rightarrow> byte list \<times> qp_state" where
  "qp_blank st ch =
     (if ws st \<noteq> NUL then ([ws st], \<lparr>col = col st + 1, ws = ch\<rparr>) else ([], \<lparr>col = col st, ws = ch\<rparr>))"

definition qp_newline :: "qp_state \<Rightarrow> byte \<Rightarrow> byte list \<times> qp_state" where
  "qp_newline st ch = ((if ws st \<noteq> NUL then qp_hex (ws st) else []) @ [ch], \<lparr>col = 0, ws = NUL\<rparr>)"

definition qp_other :: "qp_state \<Rightarrow> byte \<Rightarrow> byte list \<times> qp_state" where
  "qp_other st ch =
     (let (w, n) = (if ws st \<noteq> NUL then ([ws st], col st + 1) else ([], col st))
      in if ch > 126 \<or> ch < 33 \<or> ch = EQUALS
         then (w @ qp_hex ch, \<lparr>col = n + 3, ws = NUL\<rparr>)
         else (w @ [ch], \<lparr>col = n + 1, ws = NUL\<rparr>))"

text \<open>The soft line break after the \<open>switch\<close>.\<close>

definition qp_soft_break :: "qp_state \<Rightarrow> byte list \<times> qp_state" where
  "qp_soft_break st =
     (if col st > 71
      then ((if ws st \<noteq> NUL then [ws st] else []) @ [EQUALS, LF], \<lparr>col = 0, ws = NUL\<rparr>)
      else ([], st))"

definition qp_step :: "qp_state \<Rightarrow> byte \<Rightarrow> byte list \<times> qp_state" where
  "qp_step st ch =
     (let (o1, st1) =
            (if ch = SPACE \<or> ch = TAB then qp_blank st ch
             else if ch = CR \<or> ch = LF then qp_newline st ch
             else qp_other st ch);
          (o2, st2) = qp_soft_break st1
      in (o1 @ o2, st2))"

fun qp_encode_loop :: "qp_state \<Rightarrow> byte list \<Rightarrow> byte list \<times> qp_state" where
  "qp_encode_loop st [] = ([], st)"
| "qp_encode_loop st (ch # input) =
     (let (o1, st1) = qp_step st ch; (o2, st2) = qp_encode_loop st1 input in (o1 @ o2, st2))"

definition u_quoted_printable_encode :: "byte list \<Rightarrow> byte list" where
  "u_quoted_printable_encode input = fst (qp_encode_loop qp_init input)"

text \<open>The value of an escape, a \<open>char\<close>.\<close>

definition qp_value :: "byte \<Rightarrow> byte \<Rightarrow> byte" where
  "qp_value c0 c1 = ucast (push_bit 4 (u__hexc2int c0 AND 0x0f) OR (u__hexc2int c1 AND 0x0f))"

text \<open>\<open>*(inptr+3) == '=' && *(inptr+4) == 0x0A\<close>.\<close>

definition qp_cr_soft :: "mem \<Rightarrow> bool option" where
  "qp_cr_soft m = do {
     c3 \<leftarrow> rd m 3;
     if c3 = EQUALS then do { c4 \<leftarrow> rd m 4; Some (c4 = LF) } else Some False
   }"

text \<open>The loop, with the memory from \<open>inptr\<close> and the distance \<open>inend - inptr\<close>.\<close>

function qp_decode_loop :: "mem \<Rightarrow> nat \<Rightarrow> byte list option" where
  "qp_decode_loop m n =
     (if n = 0 then Some []
      else do {
        c0 \<leftarrow> rd m 0;
        if c0 = EQUALS then
          (if n < 3 then Some []
           else do {
             c0 \<leftarrow> rd m 1;
             c1 \<leftarrow> rd m 2;
             if u__isxdigit c0 \<and> u__isxdigit c1 then do {
               soft \<leftarrow> (if qp_value c0 c1 = CR then qp_cr_soft m else Some False);
               if soft then do {
                 c5 \<leftarrow> rd m 5;
                 let k = (if u__isalnum c5 then 5 else 6);
                 map_option ((#) LF) (qp_decode_loop (drop k m) (n - k))
               }
               else map_option ((#) (qp_value c0 c1)) (qp_decode_loop (drop 3 m) (n - 3))
             }
             else if c0 = LF then qp_decode_loop (drop 2 m) (n - 2)
             else map_option ((#) c0) (qp_decode_loop (drop 1 m) (n - 1))
           })
        else map_option ((#) (if c0 = UNDERBAR then SPACE else c0)) (qp_decode_loop (drop 1 m) (n - 1))
      })"
  by pat_completeness auto

termination
  by (relation "measure snd") (auto split: if_splits)

declare qp_decode_loop.simps [simp del]

definition u_quoted_printable_decode :: "mem \<Rightarrow> nat \<Rightarrow> byte list option" where
  "u_quoted_printable_decode inptr len = qp_decode_loop inptr len"

section \<open>Decoder steps\<close>

lemma qp_decode_0 [simp]: "qp_decode_loop m 0 = Some []"
  by (simp add: qp_decode_loop.simps)

lemma qp_decode_char:
  "c \<noteq> EQUALS \<Longrightarrow> c \<noteq> UNDERBAR \<Longrightarrow>
   qp_decode_loop (c # m) (Suc n) = map_option ((#) c) (qp_decode_loop m n)"
  by (simp add: qp_decode_loop.simps [of "c # m"])

lemma qp_value_hex:
  "qp_value (u_hex_upper ! unat (drop_bit 4 c AND 0x0F)) (u_hex_upper ! unat (c AND 0x0F)) = c"
  by (rule all_byteI) code_simp

lemma qp_decode_hex:
  "c \<noteq> CR \<Longrightarrow> qp_decode_loop (qp_hex c @ m) (length (qp_hex c) + n) = map_option ((#) c) (qp_decode_loop m n)"
  using qp_value_hex [of c]
  by (simp add: qp_decode_loop.simps [of "EQUALS # _"] qp_hex_def isxdigit_upper byte_nibble_bound)

lemma qp_decode_soft:
  "n \<le> length m \<Longrightarrow> qp_decode_loop ([EQUALS, LF] @ m) (2 + n) = qp_decode_loop m n"
  by (cases n; cases m) (simp_all add: qp_decode_loop.simps [of "EQUALS # _"] char_class)

section \<open>The steps of the encoder, decoded\<close>

text \<open>What a state still has to write.\<close>

definition qp_pending :: "qp_state \<Rightarrow> byte list" where
  "qp_pending st = (if ws st \<noteq> NUL then [ws st] else [])"

definition qp_ok :: "qp_state \<Rightarrow> bool" where
  "qp_ok st \<longleftrightarrow> ws st \<in> {NUL, SPACE, TAB} \<and> col st \<le> 71"

text \<open>A chunk of output that decodes to \<open>d\<close> whatever follows it.\<close>

definition qp_means :: "byte list \<Rightarrow> byte list \<Rightarrow> bool" where
  "qp_means cs d \<longleftrightarrow>
     (\<forall>m n. n \<le> length m \<longrightarrow> qp_decode_loop (cs @ m) (length cs + n) = map_option ((@) d) (qp_decode_loop m n))"

lemma map_option_append: "map_option ((@) (a @ b)) x = map_option ((@) a) (map_option ((@) b) x)"
  by (cases x) auto

lemma qp_means_append: "qp_means a d \<Longrightarrow> qp_means b e \<Longrightarrow> qp_means (a @ b) (d @ e)"
  unfolding qp_means_def
proof (intro allI impI)
  fix m :: mem and n
  assume a: "\<forall>m n. n \<le> length m \<longrightarrow> qp_decode_loop (a @ m) (length a + n) = map_option ((@) d) (qp_decode_loop m n)"
    and b: "\<forall>m n. n \<le> length m \<longrightarrow> qp_decode_loop (b @ m) (length b + n) = map_option ((@) e) (qp_decode_loop m n)"
    and "n \<le> length m"
  then show "qp_decode_loop ((a @ b) @ m) (length (a @ b) + n) = map_option ((@) (d @ e)) (qp_decode_loop m n)"
    using a [rule_format, of "length b + n" "b @ m"] by (simp add: map_option_append add.assoc)
qed

lemma map_option_app: "map_option ((@) [c]) x = map_option ((#) c) x" "map_option ((@) []) x = x"
  by (cases x; simp)+

lemma qp_means_simps:
  "qp_means [] []"
  "c \<noteq> EQUALS \<Longrightarrow> c \<noteq> UNDERBAR \<Longrightarrow> qp_means [c] [c]"
  "c \<noteq> CR \<Longrightarrow> qp_means (qp_hex c) [c]"
  "qp_means [EQUALS, LF] []"
  using qp_decode_hex qp_decode_soft
  by (simp_all add: qp_means_def qp_decode_char map_option_app)

lemma qp_pending_means: "qp_ok st \<Longrightarrow> qp_means (qp_pending st) (qp_pending st)"
  by (auto simp: qp_ok_def qp_pending_def qp_means_simps)


lemma qp_soft_break_means:
  assumes "ws st \<in> {NUL, SPACE, TAB}" "qp_soft_break st = (o1, st')"
  shows "\<exists>d. qp_means o1 d \<and> d @ qp_pending st' = qp_pending st \<and> qp_ok st'"
proof (cases "col st > 71")
  case True
  then have "o1 = qp_pending st @ [EQUALS, LF]" "st' = \<lparr>col = 0, ws = NUL\<rparr>"
    using assms(2) by (auto simp: qp_soft_break_def qp_pending_def)
  moreover have "qp_means (qp_pending st) (qp_pending st)"
    using assms(1) by (auto simp: qp_pending_def qp_means_simps)
  ultimately show ?thesis
    using qp_means_append [OF _ qp_means_simps(4)] by (auto simp: qp_pending_def qp_ok_def)
next
  case False
  then show ?thesis
    using assms by (auto simp: qp_soft_break_def qp_means_simps qp_ok_def)
qed

text \<open>The \<open>switch\<close> writes what was pending and the character, or keeps it pending.\<close>

lemma qp_switch_means:
  assumes "qp_ok st" "ch \<noteq> UNDERBAR"
    and "(if ch = SPACE \<or> ch = TAB then qp_blank st ch
          else if ch = CR \<or> ch = LF then qp_newline st ch else qp_other st ch) = (o1, st1)"
  shows "\<exists>d. qp_means o1 d \<and> d @ qp_pending st1 = qp_pending st @ [ch] \<and> ws st1 \<in> {NUL, SPACE, TAB}"
proof -
  let ?p = "qp_pending st"
  have p: "qp_means ?p ?p" by (rule qp_pending_means [OF assms(1)])
  have h: "qp_means (if ws st \<noteq> NUL then qp_hex (ws st) else []) ?p"
    using assms(1) by (auto simp: qp_pending_def qp_ok_def qp_means_simps)
  consider "ch = SPACE \<or> ch = TAB" | "ch = CR \<or> ch = LF" | "\<not> (ch = SPACE \<or> ch = TAB)" "\<not> (ch = CR \<or> ch = LF)"
    by blast
  then show ?thesis
  proof cases
    case 1
    then have "o1 = ?p" "qp_pending st1 = [ch]" "ws st1 = ch"
      using assms(3) by (auto simp: qp_blank_def qp_pending_def split: if_splits)
    then show ?thesis using p 1 by auto
  next
    case 2
    then have "ch \<noteq> SPACE \<and> ch \<noteq> TAB" by auto
    then have "o1 = (if ws st \<noteq> NUL then qp_hex (ws st) else []) @ [ch]" "qp_pending st1 = []" "ws st1 = NUL"
      using assms(3) 2 by (auto simp: qp_newline_def qp_pending_def)
    then show ?thesis using qp_means_append [OF h, of "[ch]" "[ch]"] qp_means_simps(2) [of ch] 2 by auto
  next
    case 3
    then have "o1 = ?p @ (if ch > 126 \<or> ch < 33 \<or> ch = EQUALS then qp_hex ch else [ch])" "qp_pending st1 = []" "ws st1 = NUL"
      using assms(3) by (auto simp: qp_other_def qp_pending_def split: if_splits)
    moreover have "qp_means (if ch > 126 \<or> ch < 33 \<or> ch = EQUALS then qp_hex ch else [ch]) [ch]"
      using 3 assms(2) by (auto simp: qp_means_simps)
    ultimately show ?thesis using qp_means_append [OF p] by force
  qed
qed

lemma qp_step_means:
  assumes "qp_ok st" "ch \<noteq> UNDERBAR" "qp_step st ch = (o1, st')"
  shows "\<exists>d. qp_means o1 d \<and> d @ qp_pending st' = qp_pending st @ [ch] \<and> qp_ok st'"
proof -
  obtain a st1 where a: "(if ch = SPACE \<or> ch = TAB then qp_blank st ch
      else if ch = CR \<or> ch = LF then qp_newline st ch else qp_other st ch) = (a, st1)" by fastforce
  obtain b st2 where b: "qp_soft_break st1 = (b, st2)" by fastforce
  from qp_switch_means [OF assms(1, 2) a] obtain d where d: "qp_means a d"
    "d @ qp_pending st1 = qp_pending st @ [ch]" "ws st1 \<in> {NUL, SPACE, TAB}" by blast
  from qp_soft_break_means [OF d(3) b] obtain e where e: "qp_means b e"
    "e @ qp_pending st2 = qp_pending st1" "qp_ok st2" by blast
  have "o1 = a @ b" "st' = st2"
    using assms(3) a b by (auto simp: qp_step_def)
  moreover have "(d @ e) @ qp_pending st2 = qp_pending st @ [ch]" using d(2) e(2) by simp
  ultimately show ?thesis using qp_means_append [OF d(1) e(1)] e(3) by blast
qed

lemma qp_encode_means:
  assumes "qp_ok st" "UNDERBAR \<notin> set bs" "qp_encode_loop st bs = (out, st')"
  shows "\<exists>d. qp_means out d \<and> d @ qp_pending st' = qp_pending st @ bs \<and> qp_ok st'"
  using assms
proof (induction bs arbitrary: st out)
  case Nil
  then show ?case by (auto simp: qp_means_simps)
next
  case (Cons c bs)
  obtain a st1 where a: "qp_step st c = (a, st1)" by fastforce
  obtain b where b: "qp_encode_loop st1 bs = (b, st')" "out = a @ b"
    using Cons.prems(3) a by (auto split: prod.splits)
  from qp_step_means [OF Cons.prems(1) _ a] Cons.prems(2) obtain d where d: "qp_means a d"
    "d @ qp_pending st1 = qp_pending st @ [c]" "qp_ok st1" by auto
  from Cons.IH [OF d(3) _ b(1)] Cons.prems(2) obtain e where e: "qp_means b e"
    "e @ qp_pending st' = qp_pending st1 @ bs" "qp_ok st'" by auto
  have "(d @ e) @ qp_pending st' = qp_pending st @ c # bs"
    using d(2) e(2) by (metis append.assoc append_Cons append_Nil)
  then show ?case using qp_means_append [OF d(1) e(1)] e(3) b(2) by blast
qed

section \<open>Line length\<close>

text \<open>Every line of at most \<open>k\<close> characters, the first one after \<open>n\<close> characters already there.\<close>

fun lines_le :: "nat \<Rightarrow> nat \<Rightarrow> byte list \<Rightarrow> bool" where
  "lines_le k n [] \<longleftrightarrow> n \<le> k"
| "lines_le k n (c # cs) \<longleftrightarrow> n \<le> k \<and> lines_le k (if c = CR \<or> c = LF then 0 else n + 1) cs"

lemma lines_le_append:
  "lines_le k n (a @ b) \<longleftrightarrow> lines_le k n a \<and> lines_le k (fold (\<lambda>c n. if c = CR \<or> c = LF then 0 else n + 1) a n) b"
  by (induction a arbitrary: n) (auto elim: lines_le.elims)

lemma hex_not_eol:
  "n < 16 \<Longrightarrow> u_hex_upper ! n \<noteq> CR" "n < 16 \<Longrightarrow> u_hex_upper ! n \<noteq> LF"
  using isxdigit_upper [of n] by (auto simp: char_class)

lemma qp_hex_lines [simp]:
  "lines_le k n (qp_hex c) \<longleftrightarrow> n + 3 \<le> k"
  "fold (\<lambda>c n. if c = CR \<or> c = LF then 0 else n + 1) (qp_hex c) n = n + 3"
  by (simp_all add: qp_hex_def hex_not_eol byte_nibble_bound) auto

text \<open>One step stays within 76 columns and leaves the column counter exact.\<close>

lemma qp_step_lines:
  assumes "qp_ok st" "qp_step st ch = (o1, st')"
  shows "lines_le 76 (col st) o1 \<and> fold (\<lambda>c n. if c = CR \<or> c = LF then 0 else n + 1) o1 (col st) = col st' \<and> qp_ok st'"
  using assms
  by (auto simp: qp_step_def qp_blank_def qp_newline_def qp_other_def qp_soft_break_def qp_ok_def
      lines_le_append Let_def split: if_splits)

lemma qp_encode_lines:
  "qp_ok st \<Longrightarrow> lines_le 76 (col st) (fst (qp_encode_loop st bs))"
proof (induction bs arbitrary: st)
  case Nil
  then show ?case by (simp add: qp_ok_def)
next
  case (Cons c bs)
  obtain a st1 where a: "qp_step st c = (a, st1)" by fastforce
  then show ?case
    using qp_step_lines [OF Cons.prems a] Cons.IH [of st1] by (auto simp: lines_le_append split: prod.splits)
qed

section \<open>Properties\<close>

text \<open>
  C35: decoding an encoding gives the input back, except a blank at the very end of the input that is
  still pending when the encoder stops, for every input without an underscore (which the decoder
  reads as a space).
\<close>

theorem quoted_printable_roundtrip:
  assumes "UNDERBAR \<notin> set bs"
  shows "\<exists>d. u_quoted_printable_decode (u_quoted_printable_encode bs) (length (u_quoted_printable_encode bs)) = Some d \<and>
     (bs = d \<or> bs = d @ [SPACE] \<or> bs = d @ [TAB])"
proof -
  obtain out st where out: "qp_encode_loop qp_init bs = (out, st)" by fastforce
  from qp_encode_means [OF _ assms out] obtain d where d: "qp_means out d" "d @ qp_pending st = bs" "qp_ok st"
    by (auto simp: qp_ok_def qp_init_def qp_pending_def)
  from d(1) have "qp_decode_loop out (length out) = Some d"
    unfolding qp_means_def using append_Nil2 [of out] by (metis add_0_right map_option_app(2) option.map(2) le0 qp_decode_0 append_Nil2)
  then show ?thesis
    using d(2, 3) out
    by (auto simp: u_quoted_printable_decode_def u_quoted_printable_encode_def qp_pending_def qp_ok_def split: if_splits)
qed

theorem quoted_printable_roundtrip_witness:
  "UNDERBAR \<notin> set (bytes ''a=b '') \<and>
   (\<exists>d. u_quoted_printable_decode (u_quoted_printable_encode (bytes ''a=b ''))
      (length (u_quoted_printable_encode (bytes ''a=b ''))) = Some d \<and>
     (bytes ''a=b '' = d \<or> bytes ''a=b '' = d @ [SPACE] \<or> bytes ''a=b '' = d @ [TAB]))"
proof -
  have h: "UNDERBAR \<notin> set (bytes ''a=b '')" by code_simp
  from quoted_printable_roundtrip [OF h] h show ?thesis by blast
qed

text \<open>
  No line of an encoding is longer than 76 characters, for every input.
\<close>

theorem quoted_printable_line_length: "lines_le 76 0 (u_quoted_printable_encode bs)"
  using qp_encode_lines [of qp_init bs] by (simp add: u_quoted_printable_encode_def qp_init_def qp_ok_def)

text \<open>
  What the coder loses. A blank at the end of the input is not written at all, and an underscore
  comes back as a space.
\<close>

theorem quoted_printable_losses:
  "u_quoted_printable_encode (bytes ''a '') = bytes ''a''"
  "u_quoted_printable_decode (u_quoted_printable_encode (bytes ''a_b'')) 3 = Some (bytes ''a b'')"
  by code_simp+

end
