(* ===== verification/Escape.thy ===== *)
theory Escape
  imports Ctype
begin

text \<open>
  The escape coder, \<open>src/ulib/base/coder/cescape.c\<close>. \<open>u_sprintc\<close> answers the bytes it writes; the
  encoder counts the bytes written so far, because it stops when \<open>outptr\<close> reaches \<open>outend\<close>; the
  decoder works on the memory at \<open>inptr\<close> and answers \<open>None\<close> when it reads outside it.
\<close>

section \<open>Definitions\<close>

abbreviation CHAR_u :: byte where "CHAR_u \<equiv> 117"

text \<open>\<open>do { *--cp = (c & 7) + '0'; c >>= 3; } while (c);\<close>\<close>

function octal_loop :: "byte \<Rightarrow> byte list \<Rightarrow> byte list" where
  "octal_loop c cp =
     (let cp' = ((c AND 7) + 48) # cp; c' = drop_bit 3 c
      in if c' \<noteq> 0 then octal_loop c' cp' else cp')"
  by pat_completeness auto

termination
proof (relation "measure (\<lambda>(c, cp). unat c)")
  fix c :: byte and cp x xa
  assume "x = ((c AND 7) + 48) # cp" "xa = drop_bit 3 c" "xa \<noteq> 0"
  have e: "unat xa = unat c div 8" unfolding \<open>xa = _\<close> by (simp add: drop_bit_eq_div unat_div)
  with \<open>xa \<noteq> 0\<close> have "0 < unat c div 8" by (metis gr0I unat_eq_zero)
  then show "((xa, x), c, cp) \<in> measure (\<lambda>(c, cp). unat c)"
    using e by (cases "unat c = 0") simp_all
qed simp

definition u_sprintc :: "byte \<Rightarrow> bool \<Rightarrow> byte list" where
  "u_sprintc c json =
     (if c = CR then [BSLASH, 114]
      else if c = LF then [BSLASH, 110]
      else if c = TAB then [BSLASH, 116]
      else if c = BSLASH then [BSLASH, BSLASH]
      else if c = DQUOTE then [BSLASH, DQUOTE]
      else if c = BS then [BSLASH, 98]
      else if c = FF then [BSLASH, 102]
      else if c < 32 \<or> c > 126 then
        (if json
         then [BSLASH, CHAR_u, 48, 48, u_hex_upper ! unat (drop_bit 4 c AND 0x0F), u_hex_upper ! unat (c AND 0x0F)]
         else (let ds = octal_loop c [] in BSLASH # replicate (3 - length ds) 48 @ ds))
      else [c])"

text \<open>
  The loop: \<open>k\<close> is \<open>outptr - out\<close>, \<open>outend\<close> the distance of the stop from \<open>out\<close>.
\<close>

fun u_escape_encode_loop :: "bool \<Rightarrow> nat \<Rightarrow> nat \<Rightarrow> mem \<Rightarrow> nat \<Rightarrow> byte list option" where
  "u_escape_encode_loop json outend k m 0 = Some []"
| "u_escape_encode_loop json outend k [] (Suc n) = None"
| "u_escape_encode_loop json outend k (c # m) (Suc n) = do {
     u \<leftarrow> (if json \<and> c = BSLASH then map_option (\<lambda>x. x = CHAR_u) (rd m 0) else Some False);
     let s = (if u then [BSLASH] else u_sprintc c json);
     if k + length s \<ge> outend then Some (s @ [DOT, DOT, DOT])
     else map_option ((@) s) (u_escape_encode_loop json outend (k + length s) m n)
   }"

text \<open>\<open>max_output - 4\<close> is unsigned 32-bit arithmetic. The terminator follows the bytes of the answer.\<close>

definition u_escape_encode :: "mem \<Rightarrow> nat \<Rightarrow> u32 \<Rightarrow> bool \<Rightarrow> byte list option" where
  "u_escape_encode inptr len max_output json =
     map_option (\<lambda>s. DQUOTE # s @ [DQUOTE]) (u_escape_encode_loop json (unat (max_output - 4)) 1 inptr len)"

text \<open>The character an escape stands for and the number of bytes of the escape.\<close>

definition u_escape_decode_ptr :: "mem \<Rightarrow> (byte \<times> nat) option" where
  "u_escape_decode_ptr t = do {
     c \<leftarrow> rd t 0;
     if c = 114 then Some (CR, 1)
     else if c = 110 then Some (LF, 1)
     else if c = 116 then Some (TAB, 1)
     else if c = 98 then Some (BS, 1)
     else if c = 102 then Some (FF, 1)
     else if c = 118 then Some (VT, 1)
     else if c = 97 then Some (BEL, 1)
     else if c = 101 then Some (ESC, 1)
     else if c = CARET then do { t1 \<leftarrow> rd t 1; Some (u__toupper t1 - AT, 2) }
     else if c = 120 then do {
       t1 \<leftarrow> rd t 1;
       if u__isxdigit t1 then do {
         t2 \<leftarrow> rd t 2;
         if u__isxdigit t2
         then Some (ucast (push_bit 4 (u__hexc2int t1) OR u__hexc2int t2), 3)
         else Some (ucast (u__hexc2int t1), 2)
       }
       else Some (c, 1)
     }
     else if 48 \<le> c \<and> c \<le> 55 then do {
       t1 \<leftarrow> rd t 1;
       if u__isoctal t1 then do {
         let c1 = push_bit 3 (ucast (c - 48)) OR u__octc2int t1;
         t2 \<leftarrow> rd t 2;
         if u__isoctal t2
         then Some (ucast (push_bit 3 c1 OR u__octc2int t2), 3)
         else Some (ucast c1, 2)
       }
       else Some (c - 48, 1)
     }
     else if c = CHAR_u then do {
       t3 \<leftarrow> rd t 3;
       t4 \<leftarrow> rd t 4;
       Some (ucast (push_bit 4 (u__hexc2int t3) OR u__hexc2int t4), 5)
     }
     else Some (c, 1)
   }"

text \<open>\<open>inptr[1] == 'u' && (inptr[2] != '0' || inptr[3] != '0')\<close>.\<close>

definition escape_keeps_unicode :: "mem \<Rightarrow> bool option" where
  "escape_keeps_unicode m = do {
     c1 \<leftarrow> rd m 1;
     if c1 \<noteq> CHAR_u then Some False
     else do {
       c2 \<leftarrow> rd m 2;
       if c2 \<noteq> 48 then Some True else map_option (\<lambda>c3. c3 \<noteq> 48) (rd m 3)
     }
   }"

text \<open>The loop, with the memory from \<open>inptr\<close> and the distance \<open>inend - inptr\<close>.\<close>

function u_escape_decode_loop :: "mem \<Rightarrow> nat \<Rightarrow> byte list option" where
  "u_escape_decode_loop m n =
     (if n = 0 then Some []
      else if length m < n then None
      else (case memchr (take n m) BSLASH of
          None \<Rightarrow> Some (take n m)
        | Some i \<Rightarrow> do {
            keep \<leftarrow> escape_keeps_unicode m;
            if keep then
              (if length m < 6 then None
               else map_option (\<lambda>r. take i m @ take 6 m @ r) (u_escape_decode_loop (drop 6 m) (n - 6)))
            else do {
              (c, k) \<leftarrow> u_escape_decode_ptr (drop (Suc i) m);
              map_option (\<lambda>r. take i m @ c # r) (u_escape_decode_loop (drop (Suc (i + k)) m) (n - Suc (i + k)))
            }
          }))"
  by pat_completeness auto

termination
  by (relation "measure snd") auto

declare u_escape_decode_loop.simps [simp del] octal_loop.simps [simp del]

definition u_escape_decode :: "mem \<Rightarrow> nat \<Rightarrow> byte list option" where
  "u_escape_decode inptr len = u_escape_decode_loop inptr len"

section \<open>One character\<close>

definition octal3 :: "byte \<Rightarrow> byte list" where
  "octal3 c = [48 + (drop_bit 6 c AND 7), 48 + (drop_bit 3 c AND 7), 48 + (c AND 7)]"

lemma octal_digits: "replicate (3 - length (octal_loop c [])) 48 @ octal_loop c [] = octal3 c"
  by (rule all_byteI) code_simp

lemma octal3_decode:
  "u__isoctal (48 + (drop_bit 6 c AND 7)) \<and> u__isoctal (48 + (drop_bit 3 c AND 7)) \<and> u__isoctal (48 + (c AND 7)) \<and>
   48 \<le> 48 + (drop_bit 6 c AND 7) \<and> 48 + (drop_bit 6 c AND 7) \<le> 55 \<and>
   ucast (push_bit 3 (push_bit 3 (ucast (drop_bit 6 c AND 7)) OR u__octc2int (48 + (drop_bit 3 c AND 7))) OR
     u__octc2int (48 + (c AND 7))) = c"
  by (rule all_byteI) code_simp

lemma sprintc_cases:
  obtains (plain) "u_sprintc c False = [c]" "c \<noteq> BSLASH"
  | (letter) x where "u_sprintc c False = [BSLASH, x]" "\<And>m. u_escape_decode_ptr (x # m) = Some (c, 1)" "x \<noteq> CHAR_u"
  | (octal) "u_sprintc c False = BSLASH # octal3 c"
proof -
  consider "c \<in> {CR, LF, TAB, BSLASH, DQUOTE, BS, FF}"
    | "c \<notin> {CR, LF, TAB, BSLASH, DQUOTE, BS, FF}" "c < 32 \<or> c > 126"
    | "c \<notin> {CR, LF, TAB, BSLASH, DQUOTE, BS, FF}" "\<not> (c < 32 \<or> c > 126)" by blast
  then show ?thesis
  proof cases
    case 1
    have "\<forall>c \<in> {CR, LF, TAB, BSLASH, DQUOTE, BS, FF}.
        \<exists>x. u_sprintc c False = [BSLASH, x] \<and> (\<forall>m. u_escape_decode_ptr (x # m) = Some (c, 1)) \<and> x \<noteq> CHAR_u"
      by (simp add: u_sprintc_def u_escape_decode_ptr_def)
    then show ?thesis using 1 letter by blast
  next
    case 2
    then show ?thesis using octal octal_digits [of c] by (simp add: u_sprintc_def Let_def)
  next
    case 3
    then show ?thesis using plain by (simp add: u_sprintc_def)
  qed
qed

lemma length_sprintc_le: "length (u_sprintc c json) \<le> (if json then 6 else 4)"
  using octal_digits [of c] by (auto simp: u_sprintc_def Let_def octal3_def dest: arg_cong [of _ _ length])


lemma octal3_head: "48 + (drop_bit 6 c AND 7) \<notin> {114, 110, 116, 98, 102, 118, 97, 101, CARET, 120, CHAR_u :: byte}"
  by (rule all_byteI) code_simp

lemma decode_ptr_octal: "u_escape_decode_ptr (octal3 c @ m) = Some (c, 3)"
  using octal3_head [of c] octal3_decode [of c] unfolding octal3_def u_escape_decode_ptr_def by (simp add: Let_def)

lemma decode_ptr_sprintc:
  assumes "u_sprintc c False = BSLASH # r"
  shows "u_escape_decode_ptr (r @ m) = Some (c, length r)"
  using assms decode_ptr_octal [of c m] by (cases c rule: sprintc_cases) (auto simp: octal3_def)

lemma sprintc_no_u: "c \<noteq> CHAR_u \<Longrightarrow> CHAR_u \<notin> set (u_sprintc c False)"
proof -
  have "CHAR_u \<notin> set (octal3 c)" by (rule all_byteI) code_simp
  then show "c \<noteq> CHAR_u \<Longrightarrow> CHAR_u \<notin> set (u_sprintc c False)"
    by (cases c rule: sprintc_cases) auto
qed

section \<open>Round trip\<close>

lemma keeps_unicode_False:
  "CHAR_u \<notin> set m \<Longrightarrow> escape_keeps_unicode m = (if length m < 2 then None else Some False)"
  by (cases m rule: list.exhaust [case_product list.exhaust]; cases "tl m")
     (auto simp: escape_keeps_unicode_def)

lemma decode_loop_no_u:
  "CHAR_u \<notin> set m \<Longrightarrow> n \<le> length m \<Longrightarrow> u_escape_decode_loop m n =
     (case memchr (take n m) BSLASH of
        None \<Rightarrow> Some (take n m)
      | Some i \<Rightarrow> do {
            (c, k) \<leftarrow> u_escape_decode_ptr (drop (Suc i) m);
            map_option (\<lambda>r. take i m @ c # r) (u_escape_decode_loop (drop (Suc (i + k)) m) (n - Suc (i + k)))
          })"
proof -
  assume m: "CHAR_u \<notin> set m" "n \<le> length m"
  have "u_escape_decode_ptr (drop (Suc i) m) = None" if "length m < 2" for i
    using that by (simp add: u_escape_decode_ptr_def)
  then show ?thesis
    using m keeps_unicode_False [OF m(1)]
    by (auto simp: u_escape_decode_loop.simps [of m n] split: option.splits)
qed

lemma decode_plain:
  assumes "CHAR_u \<notin> set (c # m)" "n \<le> length m" "c \<noteq> BSLASH"
  shows "u_escape_decode_loop (c # m) (Suc n) = map_option ((#) c) (u_escape_decode_loop m n)"
  using assms decode_loop_no_u [of "c # m" "Suc n"] decode_loop_no_u [of m n]
  by (auto simp: option.map_comp comp_def bind_eq_Some_conv split: option.splits bind_splits)

lemma decode_sprintc:
  assumes "CHAR_u \<notin> set m" "n \<le> length m" "c \<noteq> CHAR_u"
  shows "u_escape_decode_loop (u_sprintc c False @ m) (length (u_sprintc c False) + n) =
    map_option ((#) c) (u_escape_decode_loop m n)"
proof (cases "\<exists>r. u_sprintc c False = BSLASH # r")
  case True
  then obtain r where r: "u_sprintc c False = BSLASH # r" by blast
  then show ?thesis
    using decode_ptr_sprintc [OF r, of m] sprintc_no_u [OF assms(3)] assms
      decode_loop_no_u [of "BSLASH # r @ m" "Suc (length r + n)"]
    by simp
next
  case False
  then have "u_sprintc c False = [c]" "c \<noteq> BSLASH"
    by (cases c rule: sprintc_cases; simp)+
  then show ?thesis
    using assms decode_plain [of c m n] by simp
qed

lemma decode_sprintc_all:
  assumes "CHAR_u \<notin> set bs" "CHAR_u \<notin> set m"
  shows "u_escape_decode (concat (map (\<lambda>c. u_sprintc c False) bs) @ m)
           (length (concat (map (\<lambda>c. u_sprintc c False) bs))) = Some bs"
  using assms(1) unfolding u_escape_decode_def
proof (induction bs)
  case Nil
  then show ?case by (simp add: u_escape_decode_loop.simps)
next
  case (Cons c bs)
  have "x \<noteq> CHAR_u" if "x \<in> set bs" for x using that Cons.prems by auto
  then have "CHAR_u \<notin> set (u_sprintc x False)" if "x \<in> set bs" for x using that by (intro sprintc_no_u)
  then have "CHAR_u \<notin> set (concat (map (\<lambda>c. u_sprintc c False) bs) @ m)"
    using assms(2) by auto
  then show ?case
    using Cons decode_sprintc [of "concat (map (\<lambda>c. u_sprintc c False) bs) @ m" _ c] by (simp del: length_concat)
qed

section \<open>Bounds\<close>

lemma encode_loop_all:
  "k + 4 * length bs < outend \<Longrightarrow>
   u_escape_encode_loop False outend k (bs @ m) (length bs) = Some (concat (map (\<lambda>c. u_sprintc c False) bs))"
proof (induction bs arbitrary: k)
  case (Cons c bs)
  then show ?case
    using length_sprintc_le [of c False] Cons.IH [of "k + length (u_sprintc c False)"] by auto
qed simp

lemma encode_loop_bound:
  "u_escape_encode_loop json outend k m n = Some s \<Longrightarrow> k < outend \<Longrightarrow>
   k + length s < outend + (if json then 6 else 4) + 3"
proof (induction json outend k m n arbitrary: s rule: u_escape_encode_loop.induct)
  case (3 json outend k c m n)
  then show ?case
    using length_sprintc_le [of c json]
    by (auto simp: bind_eq_Some_conv Let_def split: if_splits) fastforce+
qed auto

section \<open>Properties\<close>

text \<open>
  C36: an input without the letter \<open>u\<close> whose encoding fits is encoded between quotes, and decoding
  what stands between them gives it back.
\<close>

theorem escape_roundtrip:
  assumes "CHAR_u \<notin> set bs" "4 * length bs + 1 < unat (max_output - 4)"
  shows "\<exists>e. u_escape_encode bs (length bs) max_output False = Some (DQUOTE # e @ [DQUOTE]) \<and>
    u_escape_decode (e @ [DQUOTE]) (length e) = Some bs"
proof -
  let ?e = "concat (map (\<lambda>c. u_sprintc c False) bs)"
  have "u_escape_encode bs (length bs) max_output False = Some (DQUOTE # ?e @ [DQUOTE])"
    using encode_loop_all [of 1 bs "unat (max_output - 4)" "[]"] assms(2) by (simp add: u_escape_encode_def)
  moreover have "u_escape_decode (?e @ [DQUOTE]) (length ?e) = Some bs"
    using assms(1) by (intro decode_sprintc_all) simp_all
  ultimately show ?thesis by blast
qed

theorem escape_roundtrip_witness:
  "CHAR_u \<notin> set [65, LF, 1, 200 :: byte] \<and> 4 * length [65, LF, 1, 200 :: byte] + 1 < unat (64 - 4 :: u32) \<and>
   (\<exists>e. u_escape_encode [65, LF, 1, 200] (length [65, LF, 1, 200 :: byte]) 64 False = Some (DQUOTE # e @ [DQUOTE]) \<and>
     u_escape_decode (e @ [DQUOTE]) (length e) = Some [65, LF, 1, 200])"
proof -
  have h: "CHAR_u \<notin> set [65, LF, 1, 200 :: byte]" "4 * length [65, LF, 1, 200 :: byte] + 1 < unat (64 - 4 :: u32)"
    by simp_all
  from escape_roundtrip [OF h] h show ?thesis by blast
qed

text \<open>
  C38: the encoder with its terminator writes at most four bytes (six in JSON mode) more than
  \<open>max_output\<close>.
\<close>

theorem escape_encode_bound:
  assumes "u_escape_encode inptr len max_output json = Some s" "6 \<le> unat max_output"
  shows "length s + 1 \<le> unat max_output + (if json then 6 else 4)"
proof -
  have "unat (max_output - 4) = unat max_output - 4"
    using assms(2) by (simp add: unat_sub_if')
  then show ?thesis
    using assms encode_loop_bound [of json "unat (max_output - 4)" 1 inptr len]
    by (fastforce simp: u_escape_encode_def)
qed

theorem escape_encode_bound_witness:
  "u_escape_encode [65] 1 8 False = Some [DQUOTE, 65, DQUOTE] \<and> 6 \<le> unat (8 :: u32) \<and>
   length [DQUOTE, 65, DQUOTE :: byte] + 1 \<le> unat (8 :: u32) + (if False then 6 else 4)"
proof -
  have h: "u_escape_encode [65] 1 8 False = Some [DQUOTE, 65, DQUOTE]" "6 \<le> unat (8 :: u32)"
    by code_simp simp
  from escape_encode_bound [OF h] h show ?thesis by blast
qed

text \<open>
  Where the coder fails. The bound above is reached, so \<open>max_output\<close> is not a bound on what is
  written; and because the decoder tests the character after \<open>inptr\<close> and not the one after the
  backslash, a text whose second letter is \<open>u\<close> is not decoded.
\<close>

theorem escape_defects:
  "map_option (\<lambda>s. length s + 1) (u_escape_encode [65, 65, 1] 3 8 False) = Some 12"
  "u_escape_decode (bytes ''bus'' @ [BSLASH, 110] @ [NUL]) 5 = Some (bytes ''busbus'' @ [BSLASH, 110, NUL])"
  by code_simp+

end
