(* ===== verification/Search.thy ===== *)
theory Search
  imports Ctype
begin

text \<open>
  The string searches of \<open>src/ulib/base/utility.c\<close>: \<open>u_is_overlap\<close>, \<open>u_findEndHeader\<close>, \<open>u_rmatch\<close>,
  \<open>u_find\<close>, \<open>u__strpbrk\<close>, \<open>u_strpend\<close>, \<open>u_startsWith\<close>, \<open>u_endsWith\<close> and \<open>u_isNumber\<close>. A pointer
  answer is an offset, the null pointer \<open>None\<close>; the functions that can read outside the string given
  take the memory and answer \<open>None\<close> for such a read.
\<close>

section \<open>Definitions\<close>

text \<open>Addresses of two areas of \<open>n > 0\<close> bytes.\<close>

definition u_is_overlap :: "nat \<Rightarrow> nat \<Rightarrow> nat \<Rightarrow> bool" where
  "u_is_overlap dst src n =
     (if src < dst then \<not> (src + n - 1 < dst)
      else if dst < src then \<not> (dst + n - 1 < src)
      else True)"

text \<open>\<open>memchr (m + s, c, n)\<close> on a memory: \<open>None\<close> when the search leaves the memory.\<close>

definition mem_chr :: "mem \<Rightarrow> nat \<Rightarrow> nat \<Rightarrow> byte \<Rightarrow> nat option option" where
  "mem_chr m s n c =
     (case memchr (take n (drop s m)) c of
        Some k \<Rightarrow> Some (Some (s + k))
      | None \<Rightarrow> if s + n \<le> length m then Some None else None)"

datatype line_terminator = U_LF | U_CRLF

text \<open>The test for \<open>CR LF CR LF\<close> around the line feed at \<open>p\<close>.\<close>

definition at_crlf2 :: "mem \<Rightarrow> nat \<Rightarrow> bool option" where
  "at_crlf2 m p = do {
     a \<leftarrow> rd m (p + 1);
     if a \<noteq> CR then Some False
     else do {
       b \<leftarrow> rdi m (int p - 1);
       if b \<noteq> CR then Some False else map_option (\<lambda>c. c = LF) (rd m (p + 2))
     }
   }"

text \<open>
  The answer is \<open>endHeader\<close> (\<open>None\<close>: \<open>U_NOT_FOUND\<close>) with the value stored in the global
  \<open>u_line_terminator\<close> (\<open>None\<close>: left alone).
\<close>

function find_end_header :: "mem \<Rightarrow> nat \<Rightarrow> nat \<Rightarrow> (nat option \<times> line_terminator option) option" where
  "find_end_header str n ptr =
     (if ptr < n then do {
        q \<leftarrow> mem_chr str ptr (n - ptr) LF;
        case q of
          None \<Rightarrow> Some (None, None)
        | Some p \<Rightarrow> do {
            crlf2 \<leftarrow> at_crlf2 str p;
            if crlf2 then
              Some (if p + 3 \<le> n then (Some (p + 3), Some U_CRLF) else (None, None))
            else do {
              a \<leftarrow> rd str (p + 1);
              if a = LF then Some (if p + 2 \<le> n then (Some (p + 2), Some U_LF) else (None, None))
              else find_end_header str n (p + 1)
            }
          }
      }
      else Some (None, None))"
  by pat_completeness auto

termination
  by (relation "measure (\<lambda>(str, n, ptr). n - ptr)") (auto simp: mem_chr_def split: option.splits if_splits)

definition u_findEndHeader :: "mem \<Rightarrow> nat \<Rightarrow> (nat option \<times> line_terminator option) option" where
  "u_findEndHeader str n = find_end_header str n 0"

text \<open>
  The loop of \<open>u_rmatch\<close> walks both strings backwards: on the reversed strings it walks forwards.
\<close>

fun rmatch_loop :: "byte list \<Rightarrow> byte list \<Rightarrow> bool option" where
  "rmatch_loop (n # nn) (h # hh) =
     (if n = h then if nn \<noteq> [] then rmatch_loop nn hh else Some True else Some False)"
| "rmatch_loop nn hh = None"

definition u_rmatch :: "byte list \<Rightarrow> byte list \<Rightarrow> bool option" where
  "u_rmatch haystack needle =
     (if length haystack \<ge> length needle then rmatch_loop (rev needle) (rev haystack) else Some False)"

text \<open>The search loop of \<open>u_find\<close>, which \<open>memmem\<close> replaces where the C library has it.\<close>

fun find_loop :: "byte list \<Rightarrow> byte list \<Rightarrow> nat option" where
  "find_loop s a =
     (if length a \<le> length s then
        if take (length a) s = a then Some 0
        else (case s of [] \<Rightarrow> None | c # s' \<Rightarrow> map_option Suc (find_loop s' a))
      else None)"

definition u_find :: "byte list \<Rightarrow> byte list \<Rightarrow> nat option" where
  "u_find s a =
     (if s \<noteq> [] then if length a = 1 then memchr s (hd a) else find_loop s a else None)"

text \<open>\<open>_accept\<close> is the contents of a C string.\<close>

fun u__strpbrk :: "byte list \<Rightarrow> byte list \<Rightarrow> nat option" where
  "u__strpbrk [] accept = None"
| "u__strpbrk (c # s) accept =
     (if c \<in> set accept then Some 0 else map_option Suc (u__strpbrk s accept))"

text \<open>\<open>for (i = 1; i < n; ++i) if (s[i] != d[i]) goto loop;\<close> with the delimiter from index 1.\<close>

fun delimiter_rest :: "mem \<Rightarrow> nat \<Rightarrow> byte list \<Rightarrow> bool option" where
  "delimiter_rest m s [] = Some True"
| "delimiter_rest m s (d # ds) = do {
     c \<leftarrow> rd m (Suc s);
     if c \<noteq> d then Some False else delimiter_rest m (Suc s) ds
   }"

text \<open>
  \<open>test\<close> tells whether control comes from the \<open>while\<close> (which tests \<open>s < end\<close>) or from \<open>goto loop\<close>
  (which does not). \<open>gd\<close> is the group delimiter, \<open>n\<close> half its length.
\<close>

function strpend_loop :: "mem \<Rightarrow> nat \<Rightarrow> byte list \<Rightarrow> nat \<Rightarrow> byte \<Rightarrow> int \<Rightarrow> bool \<Rightarrow> nat \<Rightarrow> nat option option" where
  "strpend_loop m e gd n skip_line_comment level test s0 =
     (if test \<and> \<not> s0 < e then Some None
      else let s = Suc s0 in do {
        c \<leftarrow> rd m s;
        if u__isspace c then strpend_loop m e gd n skip_line_comment level True s
        else if c = skip_line_comment then
          (if e < s then None
           else do {
             q \<leftarrow> mem_chr m s (e - s) LF;
             case q of None \<Rightarrow> Some None | Some s' \<Rightarrow> strpend_loop m e gd n skip_line_comment level True s'
           })
        else do {
          b \<leftarrow> rd m s0;
          if c = gd ! 0 \<and> b \<noteq> BSLASH then do {
            r \<leftarrow> delimiter_rest m s (take (n - 1) (drop 1 gd));
            if r then strpend_loop m e gd n skip_line_comment (level + 1) True s
            else strpend_loop m e gd n skip_line_comment level False s
          }
          else if c = gd ! n \<and> b \<noteq> BSLASH then do {
            r \<leftarrow> delimiter_rest m s (take (n - 1) (drop (n + 1) gd));
            if r then
              (if level - 1 = 0 then Some (Some s)
               else strpend_loop m e gd n skip_line_comment (level - 1) True s)
            else strpend_loop m e gd n skip_line_comment level False s
          }
          else strpend_loop m e gd n skip_line_comment level True s
        }
      })"
  by pat_completeness auto

termination
  by (relation "measure (\<lambda>(m, e, gd, n, skip, level, test, s). length m - s)")
     (auto simp: rd_Some_iff mem_chr_def memchr_Some split: option.splits if_splits)

definition u_strpend :: "mem \<Rightarrow> nat \<Rightarrow> byte list \<Rightarrow> byte \<Rightarrow> nat option option" where
  "u_strpend s slen group_delimitor skip_line_comment =
     strpend_loop s slen group_delimitor (length group_delimitor div 2) skip_line_comment 1 True 0"

declare find_end_header.simps [simp del] strpend_loop.simps [simp del] find_loop.simps [simp del]

text \<open>\<open>diff\<close> is the signed 32-bit difference of the lengths.\<close>

definition u_startsWith :: "mem \<Rightarrow> u32 \<Rightarrow> mem \<Rightarrow> u32 \<Rightarrow> bool option" where
  "u_startsWith a n1 b n2 =
     (if sint (n1 - n2) \<ge> 0 then strneq a b (unat n2) else Some False)"

definition u_endsWith :: "mem \<Rightarrow> u32 \<Rightarrow> mem \<Rightarrow> u32 \<Rightarrow> bool option" where
  "u_endsWith a n1 b n2 =
     (if sint (n1 - n2) \<ge> 0 then strneq (drop (nat (sint (n1 - n2))) a) b (unat n2) else Some False)"

definition vdigit :: "nat list" where
  "vdigit = [1, 1, 1, 1, 1, 1, 1, 1, 1, 1, 0, 0, 0, 0, 0, 0]"

fun number_loop :: "byte list \<Rightarrow> bool" where
  "number_loop [] = True"
| "number_loop (c # s) =
     (if drop_bit 4 c = 0x03 \<and> vdigit ! unat (c AND 0x0f) \<noteq> 0 then number_loop s else False)"

text \<open>\<open>n > 0\<close> is asserted; the model answers \<open>None\<close> for the read of an empty string.\<close>

definition u_isNumber :: "byte list \<Rightarrow> bool option" where
  "u_isNumber s =
     (case s of [] \<Rightarrow> None | c # s' \<Rightarrow> Some (number_loop (if c = PLUS \<or> c = MINUS then s' else s)))"

section \<open>Substrings\<close>

lemma rmatch_loop_prefix:
  "nn \<noteq> [] \<Longrightarrow> length nn \<le> length hh \<Longrightarrow> rmatch_loop nn hh = Some (prefix nn hh)"
  by (induction nn hh rule: rmatch_loop.induct) auto

lemma rmatch_suffix:
  assumes "needle \<noteq> []"
  shows "u_rmatch haystack needle = Some (suffix needle haystack)"
  using rmatch_loop_prefix [of "rev needle" "rev haystack"] assms
  by (auto simp: u_rmatch_def suffix_to_prefix dest: prefix_length_le)

lemma find_loop_Some:
  "find_loop s a = Some i \<longleftrightarrow> prefix a (drop i s) \<and> i + length a \<le> length s \<and> (\<forall>j < i. \<not> prefix a (drop j s))"
proof (induction s a arbitrary: i rule: find_loop.induct)
  case (1 s a)
  have p: "take (length a) s = a \<longleftrightarrow> prefix a s" by (metis append_eq_conv_conj prefix_def take_is_prefix)
  show ?case
  proof (cases "length a \<le> length s \<and> \<not> prefix a s")
    case True
    then obtain c s' where s: "s = c # s'" by (cases s) auto
    then have "find_loop s a = map_option Suc (find_loop s' a)"
      using True p by (subst find_loop.simps) simp
    then show ?thesis
      using 1 [of c s'] s True p by (cases i) (auto simp: less_Suc_eq_0_disj)
  next
    case False
    have "\<not> prefix a (drop j s)" if "\<not> length a \<le> length s" for j
      using that by (auto dest!: prefix_length_le)
    then show ?thesis
      using False p by (subst find_loop.simps) (auto dest: prefix_length_le)
  qed
qed

lemma memchr_prefix: "memchr s c = Some i \<longleftrightarrow> prefix [c] (drop i s) \<and> i + 1 \<le> length s \<and> (\<forall>j < i. \<not> prefix [c] (drop j s))"
proof (induction s arbitrary: i)
  case (Cons x s)
  then show ?case by (cases i) (auto simp: less_Suc_eq_0_disj)
qed simp

lemma strpbrk_Some:
  "u__strpbrk s accept = Some i \<longleftrightarrow> i < length s \<and> s ! i \<in> set accept \<and> (\<forall>j < i. s ! j \<notin> set accept)"
proof (induction s arbitrary: i)
  case (Cons c s)
  then show ?case by (cases i) (auto simp: less_Suc_eq_0_disj)
qed simp

lemma strpbrk_None: "u__strpbrk s accept = None \<longleftrightarrow> set s \<inter> set accept = {}"
  by (induction s) auto


section \<open>Starts and ends\<close>

lemma sint_diff:
  assumes "n1 < 2 ^ 31" "n2 < 2 ^ 31"
  shows "sint (word_of_nat n1 - word_of_nat n2 :: u32) = int n1 - int n2"
proof -
  have "(word_of_nat n1 - word_of_nat n2 :: u32) = word_of_int (int n1 - int n2)"
    by simp
  then show ?thesis
    using assms by (simp add: signed_of_int signed_take_bit_int_eq_self del: of_int_diff)
qed

lemma endsWith_suffix:
  assumes "length a < 2 ^ 31" "length b < 2 ^ 31" "NUL \<notin> set b"
  shows "u_endsWith a (word_of_nat (length a)) b (word_of_nat (length b)) = Some (suffix b a)"
proof (cases "length b \<le> length a")
  case True
  have "suffix b a \<longleftrightarrow> drop (length a - length b) a = b"
    using True by (metis append_take_drop_id length_drop same_append_eq suffix_def suffix_drop suffix_take diff_diff_cancel append_eq_append_conv)
  moreover have "prefix b (drop (length a - length b) a) \<longleftrightarrow> drop (length a - length b) a = b"
    using True by (metis append_Nil2 append_eq_append_conv length_drop diff_diff_cancel prefixE prefix_order.refl length_append)
  ultimately show ?thesis
    using True assms strneq_prefix [of b "length b" "drop (length a - length b) a"]
    by (simp add: u_endsWith_def sint_diff unat_of_nat nat_diff_distrib)
next
  case False
  then show ?thesis
    using assms by (auto simp: u_endsWith_def sint_diff dest: suffix_length_le)
qed

lemma startsWith_prefix:
  assumes "length a < 2 ^ 31" "length b < 2 ^ 31" "NUL \<notin> set b"
  shows "u_startsWith a (word_of_nat (length a)) b (word_of_nat (length b)) = Some (prefix b a)"
proof (cases "length b \<le> length a")
  case True
  then show ?thesis
    using assms strneq_prefix [of b "length b" a] by (simp add: u_startsWith_def sint_diff unat_of_nat)
next
  case False
  then show ?thesis
    using assms by (auto simp: u_startsWith_def sint_diff dest: prefix_length_le)
qed

lemma number_loop_digits: "number_loop s = list_all u__isdigit s"
proof -
  have "(drop_bit 4 c = 0x03 \<and> vdigit ! unat (c AND 0x0f) \<noteq> 0) = u__isdigit c" for c :: byte
    by (rule all_byteI) code_simp
  then show ?thesis by (induction s) simp_all
qed

section \<open>The end of a header\<close>

definition header_end :: "byte list \<Rightarrow> nat \<Rightarrow> nat option" where
  "header_end s p =
     (if 1 \<le> p \<and> prefix [CR, LF, CR, LF] (drop (p - 1) s) then Some (p + 3)
      else if prefix [LF, LF] (drop p s) then Some (p + 2)
      else None)"

lemma prefix_drop_Cons:
  "prefix (c # cs) (drop p s) \<longleftrightarrow> p < length s \<and> s ! p = c \<and> prefix cs (drop (Suc p) s)"
  by (cases "p < length s") (auto simp: Cons_nth_drop_Suc [symmetric])

lemma header_end_LF: "header_end s p \<noteq> None \<Longrightarrow> p < length s \<and> s ! p = LF"
  unfolding header_end_def prefix_drop_Cons by (auto split: if_splits)

definition header_answer :: "byte list \<Rightarrow> nat option \<Rightarrow> bool" where
  "header_answer s r =
     (case r of
        Some q \<Rightarrow> \<exists>p. header_end s p = Some q \<and> (\<forall>p' < p. header_end s p' = None)
      | None \<Rightarrow> \<forall>p. header_end s p = None)"

lemma header_answer_None:
  assumes "\<forall>p < ptr. header_end s p = None" "LF \<notin> set (drop ptr s)"
  shows "header_answer s None"
proof -
  have "header_end s p = None" if "ptr \<le> p" for p
  proof (rule ccontr)
    assume "header_end s p \<noteq> None"
    with header_end_LF have "p < length s" "s ! p = LF" by blast+
    with that have "p - ptr < length (drop ptr s)" "drop ptr s ! (p - ptr) = LF" by simp_all
    then have "LF \<in> set (drop ptr s)" by (metis nth_mem)
    with assms(2) show False by blast
  qed
  then show ?thesis using assms(1) by (simp add: header_answer_def) (metis not_le)
qed

lemma rd_terminated: "rd (s @ [NUL]) i = (if i < length s then Some (s ! i) else if i = length s then Some NUL else None)"
  by (auto simp: rd_def nth_append)

lemma at_crlf2_header:
  assumes "\<not> prefix [LF, CR] s" "p < length s" "s ! p = LF"
  shows "at_crlf2 (s @ [NUL]) p = Some (1 \<le> p \<and> prefix [CR, LF, CR, LF] (drop (p - 1) s))"
proof (cases p)
  case 0
  then obtain t where t: "s = LF # t" using assms by (cases s) auto
  show ?thesis
    using 0 assms(1) t by (cases t) (auto simp: at_crlf2_def)
next
  case (Suc k)
  then show ?thesis
    using assms unfolding at_crlf2_def prefix_drop_Cons by (auto simp: rdi_def rd_terminated nat_add_distrib)
qed

lemma memchr_takeWhile:
  "(case memchr xs c of None \<Rightarrow> length xs | Some k \<Rightarrow> k) = length (takeWhile (\<lambda>x. x \<noteq> c) xs)"
  by (induction xs) (auto split: option.splits)

lemma mem_chr_terminated:
  "mem_chr (s @ [NUL]) ptr (length s - ptr) c = Some (map_option ((+) ptr) (memchr (drop ptr s) c))"
  if "ptr \<le> length s"
  using that by (simp add: mem_chr_def split: option.splits)

lemma find_end_header_answer:
  assumes "\<not> prefix [LF, CR] s" "\<forall>p < ptr. header_end s p = None"
  shows "\<exists>r t. find_end_header (s @ [NUL]) (length s) ptr = Some (r, t) \<and> header_answer s r"
  using assms(2)
proof (induction "length s - ptr" arbitrary: ptr rule: less_induct)
  case less
  show ?case
  proof (cases "LF \<in> set (drop ptr s)")
    case False
    then have "memchr (drop ptr s) LF = None" by (simp add: memchr_None)
    then show ?thesis
      using header_answer_None [OF less.prems False] mem_chr_terminated [of ptr s LF]
      by (simp add: find_end_header.simps [of _ _ ptr])
  next
    case True
    then obtain k where k: "memchr (drop ptr s) LF = Some k" using memchr_None by fast
    define p where "p = ptr + k"
    have ptr: "ptr < length s" using True by (metis drop_eq_Nil empty_iff leI list.set(1))
    have p: "p < length s" "s ! p = LF" and lf: "LF \<notin> set (take k (drop ptr s))"
      using k ptr by (auto simp: memchr_Some p_def)
    have before: "\<forall>p' < p. header_end s p' = None"
    proof (intro allI impI, rule ccontr)
      fix p' assume "p' < p" "header_end s p' \<noteq> None"
      moreover from this have "s ! p' = LF" "ptr \<le> p'" using header_end_LF less.prems by (blast, metis not_le)
      ultimately have "LF \<in> set (take k (drop ptr s))"
        using p(1) by (auto simp: in_set_conv_nth p_def intro!: exI [of _ "p' - ptr"])
      with lf show False by blast
    qed
    have eq: "find_end_header (s @ [NUL]) (length s) ptr =
      (if 1 \<le> p \<and> prefix [CR, LF, CR, LF] (drop (p - 1) s) then Some (Some (p + 3), Some U_CRLF)
       else if prefix [LF, LF] (drop p s) then Some (Some (p + 2), Some U_LF)
       else find_end_header (s @ [NUL]) (length s) (p + 1))"
      using ptr p k mem_chr_terminated [of ptr s LF] at_crlf2_header [OF assms(1) p]
      unfolding prefix_drop_Cons
      by (subst find_end_header.simps) (auto simp: p_def [symmetric] rd_terminated)
    show ?thesis
    proof (cases "header_end s p")
      case None
      then have "\<forall>p' < p + 1. header_end s p' = None" using before less_Suc_eq by auto
      moreover have "length s - (p + 1) < length s - ptr" using p(1) by (simp add: p_def)
      ultimately show ?thesis
        using less.hyps [of "p + 1"] eq None by (auto simp: header_end_def split: if_splits)
    next
      case (Some q)
      then have "header_answer s (Some q)" using before by (auto simp: header_answer_def)
      then show ?thesis using eq Some by (auto simp: header_end_def split: if_splits)
    qed
  qed
qed

section \<open>Balanced groups\<close>

text \<open>The nesting level after the first \<open>i\<close> characters that follow the opening delimiter at offset 0.\<close>

definition nesting :: "byte \<Rightarrow> byte \<Rightarrow> mem \<Rightarrow> nat \<Rightarrow> int" where
  "nesting op cl m i = 1 + int (count_list (take i (drop 1 m)) op) - int (count_list (take i (drop 1 m)) cl)"

definition closes_group :: "byte \<Rightarrow> byte \<Rightarrow> mem \<Rightarrow> nat \<Rightarrow> nat option \<Rightarrow> bool" where
  "closes_group op cl m e r =
     (case r of
        Some i \<Rightarrow> i \<le> e \<and> m ! i = cl \<and> nesting op cl m i = 0 \<and> (\<forall>j < i. nesting op cl m j > 0)
      | None \<Rightarrow> \<forall>j \<le> e. nesting op cl m j > 0)"

lemma nesting_Suc:
  assumes "Suc i < length m"
  shows "nesting op cl m (Suc i) = nesting op cl m i + (if m ! Suc i = op then 1 else 0) - (if m ! Suc i = cl then 1 else 0)"
proof -
  have "take (Suc i) (drop 1 m) = take i (drop 1 m) @ [m ! Suc i]"
    using assms by (simp add: take_Suc_conv_app_nth)
  then show ?thesis by (simp add: nesting_def)
qed

lemma strpend_loop_closes:
  assumes "op \<noteq> cl" "\<not> u__isspace op" "\<not> u__isspace cl" "BSLASH \<notin> set m" "skip \<notin> set m" "e < length m"
    and "s \<le> e" "lvl = nesting op cl m s" "\<forall>j \<le> s. nesting op cl m j > 0"
  shows "\<exists>r. strpend_loop m e [op, cl] 1 skip lvl True s = Some r \<and> closes_group op cl m e r"
  using assms(7-9)
proof (induction "e - s" arbitrary: s lvl rule: less_induct)
  case less
  show ?case
  proof (cases "s < e")
    case False
    then have "strpend_loop m e [op, cl] 1 skip lvl True s = Some None" by (subst strpend_loop.simps) simp
    then show ?thesis
      using False less.prems by (auto simp: closes_group_def)
  next
    case True
    let ?c = "m ! Suc s"
    have s: "Suc s < length m" using True assms(6) by simp
    then have "m ! s \<in> set m" "?c \<in> set m" by (auto intro!: nth_mem)
    then have b: "m ! s \<noteq> BSLASH" "?c \<noteq> skip" using assms(4, 5) by metis+
    have rds: "rd m (Suc s) = Some ?c" "rd m s = Some (m ! s)" using s by (simp_all add: rd_def)
    have step: "strpend_loop m e [op, cl] 1 skip lvl True s =
      (if ?c = cl \<and> lvl - 1 = 0 then Some (Some (Suc s))
       else strpend_loop m e [op, cl] 1 skip (nesting op cl m (Suc s)) True (Suc s))"
      using True rds b assms(1-3) less.prems(2) nesting_Suc [OF s, of op cl]
      by (subst strpend_loop.simps) auto
    show ?thesis
    proof (cases "?c = cl \<and> lvl - 1 = 0")
      case c: True
      then have "nesting op cl m (Suc s) = 0" using nesting_Suc [OF s, of op cl] less.prems(2) assms(1) by simp
      then show ?thesis
        using c step True less.prems(3) by (auto simp: closes_group_def less_Suc_eq_le)
    next
      case c: False
      have "nesting op cl m (Suc s) > 0"
        using c nesting_Suc [OF s, of op cl] less.prems by (auto split: if_splits)
      then have "\<forall>j \<le> Suc s. nesting op cl m j > 0" using less.prems(3) le_Suc_eq by auto
      then show ?thesis
        using less.hyps [of "Suc s" "nesting op cl m (Suc s)"] True
        unfolding step if_not_P [OF c] by simp
    qed
  qed
qed

section \<open>Properties\<close>

text \<open>
  On a terminated string that does not begin with \<open>LF CR\<close>, \<open>u_findEndHeader\<close> reads nothing
  outside the string and its terminator, and answers the end of the first blank line
  (\<open>CR LF CR LF\<close> or \<open>LF LF\<close>), not found only if there is none.
\<close>

theorem findEndHeader_first:
  assumes "\<not> prefix [LF, CR] s"
  shows "\<exists>r t. u_findEndHeader (s @ [NUL]) (length s) = Some (r, t) \<and>
    (case r of
       Some q \<Rightarrow> \<exists>p. header_end s p = Some q \<and> (\<forall>p' < p. header_end s p' = None)
     | None \<Rightarrow> \<forall>p. header_end s p = None)"
  using find_end_header_answer [OF assms, of 0] by (simp add: u_findEndHeader_def header_answer_def)

theorem findEndHeader_first_witness:
  "\<not> prefix [LF, CR] [65, CR, LF, CR, LF, 66 :: byte] \<and>
   (\<exists>r t. u_findEndHeader ([65, CR, LF, CR, LF, 66] @ [NUL]) (length [65, CR, LF, CR, LF, 66 :: byte]) = Some (r, t) \<and>
    (case r of
       Some q \<Rightarrow> \<exists>p. header_end [65, CR, LF, CR, LF, 66] p = Some q \<and> (\<forall>p' < p. header_end [65, CR, LF, CR, LF, 66] p' = None)
     | None \<Rightarrow> \<forall>p. header_end [65, CR, LF, CR, LF, 66] p = None))"
proof -
  have h: "\<not> prefix [LF, CR] [65, CR, LF, CR, LF, 66 :: byte]" by simp
  from findEndHeader_first [OF h] h show ?thesis by blast
qed

text \<open>
  \<open>u_rmatch\<close> decides whether a non-empty needle ends the haystack, \<open>u_find\<close> answers its first
  occurrence, and \<open>u_startsWith\<close> and \<open>u_endsWith\<close> decide prefix and suffix for strings without a
  terminator inside, shorter than \<open>2 ^ 31\<close> bytes.
\<close>

theorem substring_searches:
  assumes "b \<noteq> []" "NUL \<notin> set b" "length a < 2 ^ 31" "length b < 2 ^ 31"
  shows "u_rmatch a b = Some (suffix b a)"
    "u_find a b = Some i \<longleftrightarrow> prefix b (drop i a) \<and> i + length b \<le> length a \<and> (\<forall>j < i. \<not> prefix b (drop j a))"
    "u_startsWith a (word_of_nat (length a)) b (word_of_nat (length b)) = Some (prefix b a)"
    "u_endsWith a (word_of_nat (length a)) b (word_of_nat (length b)) = Some (suffix b a)"
proof -
  show "u_find a b = Some i \<longleftrightarrow> prefix b (drop i a) \<and> i + length b \<le> length a \<and> (\<forall>j < i. \<not> prefix b (drop j a))"
  proof (cases "length b = 1")
    case True
    then obtain c where "b = [c]" by (cases b) auto
    then show ?thesis using memchr_prefix [of a c i] by (cases a) (auto simp: u_find_def)
  next
    case False
    then show ?thesis
      using find_loop_Some [of a b i] assms(1) by (cases a) (auto simp: u_find_def)
  qed
qed (use rmatch_suffix [OF assms(1)] startsWith_prefix [OF assms(3, 4, 2)] endsWith_suffix [OF assms(3, 4, 2)] in auto)

theorem substring_searches_witness:
  "(bytes ''na'' \<noteq> [] \<and> NUL \<notin> set (bytes ''na'') \<and> length (bytes ''banana'') < 2 ^ 31 \<and> length (bytes ''na'') < 2 ^ 31) \<and>
   u_rmatch (bytes ''banana'') (bytes ''na'') = Some (suffix (bytes ''na'') (bytes ''banana''))"
proof -
  have h: "bytes ''na'' \<noteq> []" "NUL \<notin> set (bytes ''na'')" "length (bytes ''banana'') < 2 ^ 31" "length (bytes ''na'') < 2 ^ 31"
    by (code_simp, code_simp, simp_all)
  from substring_searches(1) [OF h] h show ?thesis by blast
qed

text \<open>
  For a pair of distinct delimiters, in a text with no escape and no comment character,
  \<open>u_strpend\<close> answers the delimiter that closes the group opened at offset 0: the first position at
  which the nesting level falls to zero; the null pointer only if it never does.
\<close>

theorem strpend_balanced:
  assumes "op \<noteq> cl" "\<not> u__isspace op" "\<not> u__isspace cl" "BSLASH \<notin> set m" "skip \<notin> set m" "slen < length m"
  shows "\<exists>r. u_strpend m slen [op, cl] skip = Some r \<and>
    (case r of
       Some i \<Rightarrow> i \<le> slen \<and> m ! i = cl \<and> nesting op cl m i = 0 \<and> (\<forall>j < i. nesting op cl m j > 0)
     | None \<Rightarrow> \<forall>j \<le> slen. nesting op cl m j > 0)"
  using strpend_loop_closes [OF assms, of 0 1] by (auto simp: u_strpend_def nesting_def closes_group_def)

theorem strpend_balanced_witness:
  "u_strpend (bytes ''{a{b}c}d'') 7 [123, 125] HASH = Some (Some 6) \<and>
   (\<exists>r. u_strpend (bytes ''{a{b}c}d'') 7 [123, 125] HASH = Some r \<and>
    (case r of
       Some i \<Rightarrow> i \<le> 7 \<and> bytes ''{a{b}c}d'' ! i = 125 \<and> nesting 123 125 (bytes ''{a{b}c}d'') i = 0 \<and>
         (\<forall>j < i. nesting 123 125 (bytes ''{a{b}c}d'') j > 0)
     | None \<Rightarrow> \<forall>j \<le> 7. nesting 123 125 (bytes ''{a{b}c}d'') j > 0))"
proof -
  have h: "(123 :: byte) \<noteq> 125" "\<not> u__isspace 123" "\<not> u__isspace 125" "BSLASH \<notin> set (bytes ''{a{b}c}d'')"
    "HASH \<notin> set (bytes ''{a{b}c}d'')" "7 < length (bytes ''{a{b}c}d'')"
    by (simp, simp add: char_class, simp add: char_class, code_simp, code_simp, simp)
  have "u_strpend (bytes ''{a{b}c}d'') 7 [123, 125] HASH = Some (Some 6)" by code_simp
  with strpend_balanced [OF h] show ?thesis by blast
qed

end
