(* ===== verification/Token.thy ===== *)
theory Token
  imports Search
begin

text \<open>
  Tokens, \<open>u_find_char\<close>, \<open>u_skip\<close>, \<open>u_delimit_token\<close> and \<open>u_split\<close> of \<open>src/ulib/base/utility.c\<close>. The
  pointers \<open>s\<close> and \<open>end\<close> are offsets into one memory, \<open>delim\<close> is a C string or null. \<open>u_split\<close> writes
  terminators into the memory: its state is the memory, the arguments stored and the position.
\<close>

section \<open>Definitions\<close>

text \<open>\<open>*(s-1) == '\\' && *(s-2) != '\\'\<close>.\<close>

definition quoted_at :: "mem \<Rightarrow> nat \<Rightarrow> bool option" where
  "quoted_at m s = do {
     b1 \<leftarrow> rdi m (int s - 1);
     if b1 = BSLASH then map_option (\<lambda>b2. b2 \<noteq> BSLASH) (rdi m (int s - 2)) else Some False
   }"

function u_find_char :: "mem \<Rightarrow> nat \<Rightarrow> nat \<Rightarrow> byte \<Rightarrow> nat option" where
  "u_find_char m s e c = do {
     q \<leftarrow> mem_chr m s (e - s) c;
     case q of
       None \<Rightarrow> Some e
     | Some p \<Rightarrow> do {
         quoted \<leftarrow> quoted_at m p;
         if quoted then u_find_char m (Suc p) e c else Some p
       }
   }"
  by pat_completeness auto

termination
  by (relation "measure (\<lambda>(m, s, e, c). e - s)")
     (auto simp: mem_chr_def memchr_Some split: option.splits if_splits)

text \<open>\<open>while (s < end && P (*s)) ++s;\<close>\<close>

function skip_while :: "(byte \<Rightarrow> bool) \<Rightarrow> mem \<Rightarrow> nat \<Rightarrow> nat \<Rightarrow> nat option" where
  "skip_while P m s e =
     (if s < e then do {
        c \<leftarrow> rd m s;
        if P c then skip_while P m (Suc s) e else Some s
      }
      else Some s)"
  by pat_completeness auto

termination
  by (relation "measure (\<lambda>(P, m, s, e). e - s)") auto

declare u_find_char.simps [simp del] skip_while.simps [simp del]

lemma skip_while_bounds: "skip_while P m s e = Some s' \<Longrightarrow> s \<le> s' \<and> (s' = s \<or> s' \<le> e)"
proof (induction P m s e rule: skip_while.induct)
  case (1 P m s e)
  from 1(2) show ?case
    using 1(1) by (subst (asm) skip_while.simps) (auto simp: bind_eq_Some_conv split: if_splits)
qed

lemma skip_while_stops: "skip_while P m s e = Some s' \<Longrightarrow> s' < e \<Longrightarrow> s' < length m \<and> \<not> P (m ! s')"
proof (induction P m s e rule: skip_while.induct)
  case (1 P m s e)
  from 1(2) show ?case
    using 1(1, 3) by (subst (asm) skip_while.simps) (auto simp: bind_eq_Some_conv rd_Some_iff split: if_splits)
qed

text \<open>
  The label \<open>skipws\<close>. A line comment is looked for at \<open>*s\<close> even when \<open>s\<close> has reached \<open>end\<close>.
\<close>

function u_skip_ws :: "mem \<Rightarrow> nat \<Rightarrow> nat \<Rightarrow> byte \<Rightarrow> nat option" where
  "u_skip_ws m s0 e line_comment = do {
     s \<leftarrow> skip_while u__isspace m s0 e;
     if line_comment \<noteq> NUL then do {
       c \<leftarrow> rd m s;
       if c = line_comment then do {
         q \<leftarrow> mem_chr m s (e - s) LF;
         case q of Some s' \<Rightarrow> u_skip_ws m s' e line_comment | None \<Rightarrow> Some e
       }
       else Some s
     }
     else Some s
   }"
  by pat_completeness auto

termination
proof (relation "measure (\<lambda>(m, s, e, c). e - s)")
  fix m :: mem and s0 e s s' :: nat and line_comment c q
  assume s: "skip_while u__isspace m s0 e = Some s" and "rd m s = Some c"
    and q: "mem_chr m s (e - s) LF = Some q" "q = Some s'"
  from q have m: "s \<le> s'" "s' < e" "s' < length m" "m ! s' = LF"
    by (auto simp: mem_chr_def memchr_Some split: option.splits if_splits)
  then have "s < e" by simp
  with skip_while_stops [OF s] have "\<not> u__isspace (m ! s)" by blast
  moreover have "u__isspace LF" by (simp add: char_class)
  ultimately have "s \<noteq> s'" using m(4) by auto
  with m skip_while_bounds [OF s]
  show "((m, s', e, line_comment), m, s0, e, line_comment) \<in> measure (\<lambda>(m, s, e, c). e - s)"
    by simp
qed simp

declare u_skip_ws.simps [simp del]

definition u_skip :: "mem \<Rightarrow> nat \<Rightarrow> nat \<Rightarrow> byte list option \<Rightarrow> byte \<Rightarrow> nat option" where
  "u_skip m s e delim line_comment =
     (case delim of
        Some d \<Rightarrow> skip_while (strchr d) m s e
      | None \<Rightarrow> u_skip_ws m s e line_comment)"

text \<open>The pointer returned and the one stored at \<open>*p\<close> (\<open>None\<close>: null).\<close>

definition u_delimit_token :: "mem \<Rightarrow> nat \<Rightarrow> nat \<Rightarrow> byte list option \<Rightarrow> byte \<Rightarrow> (nat \<times> nat option) option" where
  "u_delimit_token m s0 e delim skip_line_comment = do {
     s \<leftarrow> u_skip m s0 e delim skip_line_comment;
     if s = e then Some (Suc e, None)
     else do {
       c \<leftarrow> rd m s;
       if c = DQUOTE \<or> c = APOS then do {
         t \<leftarrow> u_find_char m (Suc s) e c;
         case delim of
           Some d \<Rightarrow> Some (if t < e then Suc t else t, Some s)
         | None \<Rightarrow> Some (t, Some (Suc s))
       }
       else case delim of
         Some d \<Rightarrow>
           (if length m < e then None
            else Some (case u__strpbrk (take (e - Suc s) (drop (Suc s) m)) d of
                None \<Rightarrow> e | Some k \<Rightarrow> Suc s + k, Some s))
       | None \<Rightarrow> map_option (\<lambda>t. (t, Some s)) (skip_while (\<lambda>c. \<not> u__isspace c) m (Suc s) e)
     }
   }"

record split_state =
  smem :: mem
  argv :: "nat list"

text \<open>Every operation moves forward and stays within \<open>end + 1\<close>.\<close>

lemma find_char_bounds: "u_find_char m s e c = Some t \<Longrightarrow> s \<le> e \<Longrightarrow> s \<le> t \<and> t \<le> e"
proof (induction m s e c rule: u_find_char.induct)
  case (1 m s e c)
  from 1(2) show ?case
    using 1(1, 3) by (subst (asm) u_find_char.simps)
      (fastforce simp: bind_eq_Some_conv mem_chr_def memchr_Some split: option.splits if_splits)
qed

lemma skip_ws_bounds: "u_skip_ws m s e lc = Some t \<Longrightarrow> s \<le> e \<Longrightarrow> s \<le> t \<and> t \<le> e"
proof (induction m s e lc rule: u_skip_ws.induct)
  case (1 m s e lc)
  from 1(2) show ?case
    using 1(1, 3) by (subst (asm) u_skip_ws.simps)
      (fastforce simp: bind_eq_Some_conv mem_chr_def memchr_Some dest: skip_while_bounds split: option.splits if_splits)
qed

lemma u_skip_bounds: "u_skip m s e d lc = Some t \<Longrightarrow> s \<le> e \<Longrightarrow> s \<le> t \<and> t \<le> e"
  by (auto simp: u_skip_def dest: skip_ws_bounds skip_while_bounds split: option.splits)

lemma delimit_token_bounds:
  "u_delimit_token m s e d lc = Some (t, p) \<Longrightarrow> s < e \<Longrightarrow> s < t \<and> t \<le> Suc e \<and> (p = None \<longleftrightarrow> t = Suc e)"
proof -
  assume t: "u_delimit_token m s e d lc = Some (t, p)" and "s < e"
  from t obtain s1 where s1: "u_skip m s e d lc = Some s1"
    by (auto simp: u_delimit_token_def bind_eq_Some_conv)
  with \<open>s < e\<close> have b: "s \<le> s1" "s1 \<le> e" using u_skip_bounds [OF s1] by auto
  show ?thesis
  proof (cases "s1 = e")
    case True
    then show ?thesis using t s1 b \<open>s < e\<close> by (auto simp: u_delimit_token_def)
  next
    case False
    with b have "Suc s1 \<le> e" by simp
    obtain c where c: "rd m s1 = Some c" using t s1 False by (auto simp: u_delimit_token_def bind_eq_Some_conv)
    have "s1 < t \<and> t \<le> e \<and> p \<noteq> None"
    proof (cases "c = DQUOTE \<or> c = APOS")
      case True
      then obtain u where u: "u_find_char m (Suc s1) e c = Some u"
        and tp: "(t, p) = (case d of Some _ \<Rightarrow> (if u < e then Suc u else u, Some s1) | None \<Rightarrow> (u, Some (Suc s1)))"
        using t s1 False c by (auto simp: u_delimit_token_def bind_eq_Some_conv split: option.splits)
      show ?thesis
        using find_char_bounds [OF u \<open>Suc s1 \<le> e\<close>] tp by (auto split: option.splits if_splits)
    next
      case nq: False
      show ?thesis
      proof (cases d)
        case None
        then obtain u where u: "skip_while (\<lambda>c. \<not> u__isspace c) m (Suc s1) e = Some u" "t = u" "p = Some s1"
          using t s1 False c nq by (auto simp: u_delimit_token_def)
        show ?thesis
          using skip_while_bounds [OF u(1)] u(2, 3) \<open>Suc s1 \<le> e\<close> by auto
      next
        case (Some dl)
        then have "t = (case u__strpbrk (take (e - Suc s1) (drop (Suc s1) m)) dl of None \<Rightarrow> e | Some k \<Rightarrow> Suc s1 + k)"
          "p = Some s1"
          using t s1 False c nq by (auto simp: u_delimit_token_def split: if_splits)
        then show ?thesis
          using \<open>Suc s1 \<le> e\<close> by (auto simp: strpbrk_Some split: option.splits)
      qed
    qed
    then show ?thesis using b by auto
  qed
qed

text \<open>
  The loop of \<open>u_split\<close>. By the lemma above a pass moves \<open>s\<close> forward, and a token is stored only with
  a pointer that is not null.
\<close>

function split_loop :: "split_state \<Rightarrow> nat \<Rightarrow> nat \<Rightarrow> byte list option \<Rightarrow> split_state option" where
  "split_loop st s e delim =
     (if s < e then
        (case u_delimit_token (smem st) s e delim NUL of
           None \<Rightarrow> None
         | Some (s', p) \<Rightarrow>
             if s' \<le> e then
               (case p of
                  Some q \<Rightarrow>
                    if s' < length (smem st)
                    then split_loop \<lparr>smem = (smem st)[s' := NUL], argv = argv st @ [q]\<rparr> (Suc s') e delim
                    else None
                | None \<Rightarrow> None)
             else split_loop st s' e delim)
      else Some st)"
  by pat_completeness auto

termination
  by (relation "measure (\<lambda>(st, s, e, d). e - s)") (auto dest!: delimit_token_bounds)

declare split_loop.simps [simp del]

definition u_split :: "mem \<Rightarrow> nat \<Rightarrow> byte list option \<Rightarrow> split_state option" where
  "u_split s n delim = split_loop \<lparr>smem = s, argv = []\<rparr> 0 n delim"

section \<open>Specification: the words of a text\<close>

function split_words :: "('a \<Rightarrow> bool) \<Rightarrow> 'a list \<Rightarrow> 'a list list" where
  "split_words sep xs =
     (let ys = dropWhile sep xs
      in if ys = [] then [] else takeWhile (\<lambda>c. \<not> sep c) ys # split_words sep (dropWhile (\<lambda>c. \<not> sep c) ys))"
  by pat_completeness auto

termination
proof (relation "measure (\<lambda>(sep, xs). length xs)")
  fix sep :: "'a \<Rightarrow> bool" and xs ys
  assume ys: "ys = dropWhile sep xs" "ys \<noteq> []"
  then have "\<not> sep (hd ys)" using hd_dropWhile by blast
  then have "length (dropWhile (\<lambda>c. \<not> sep c) ys) < length ys"
    using ys(2) by (cases ys) (auto simp: length_dropWhile_le le_imp_less_Suc)
  also have "\<dots> \<le> length xs" unfolding ys(1) by (rule length_dropWhile_le)
  finally show "((sep, dropWhile (\<lambda>c. \<not> sep c) ys), sep, xs) \<in> measure (\<lambda>(sep, xs). length xs)" by simp
qed simp

declare split_words.simps [simp del]

lemma split_words_sep: "sep c \<Longrightarrow> split_words sep (c # xs) = split_words sep xs"
  by (simp add: split_words.simps [of sep "c # xs"] split_words.simps [of sep xs])

definition is_sep :: "byte list option \<Rightarrow> byte \<Rightarrow> bool" where
  "is_sep delim c = (case delim of None \<Rightarrow> u__isspace c | Some d \<Rightarrow> c \<in> set d)"

definition cstr_at :: "mem \<Rightarrow> nat \<Rightarrow> byte list" where
  "cstr_at m q = takeWhile (\<lambda>c. c \<noteq> NUL) (drop q m)"

section \<open>Tokens of a text without quotes\<close>

lemma skip_while_eq:
  "e \<le> length m \<Longrightarrow> s \<le> e \<Longrightarrow>
   skip_while P m s e = Some (s + length (takeWhile P (take (e - s) (drop s m))))"
proof (induction P m s e rule: skip_while.induct)
  case (1 P m s e)
  show ?case
  proof (cases "s < e")
    case True
    then have "take (e - s) (drop s m) = m ! s # take (e - Suc s) (drop (Suc s) m)"
      using 1(2) by (simp add: Cons_nth_drop_Suc [symmetric] take_Cons' )
    then show ?thesis
      using 1 True by (subst skip_while.simps) (auto simp: rd_def)
  next
    case False
    then show ?thesis using 1 by (subst skip_while.simps) simp
  qed
qed

lemma strpbrk_takeWhile:
  "(case u__strpbrk xs d of None \<Rightarrow> length xs | Some k \<Rightarrow> k) = length (takeWhile (\<lambda>c. c \<notin> set d) xs)"
  by (induction xs) (auto split: option.splits)

text \<open>The part of the memory from \<open>s\<close> on is the rest of the text.\<close>

definition rest_of :: "byte list \<Rightarrow> mem \<Rightarrow> nat \<Rightarrow> bool" where
  "rest_of t m s \<longleftrightarrow> length m = Suc (length t) \<and> s \<le> length t \<and> drop s m = drop s t @ [NUL]"

definition plain_text :: "byte list \<Rightarrow> bool" where
  "plain_text t \<longleftrightarrow> NUL \<notin> set t \<and> DQUOTE \<notin> set t \<and> APOS \<notin> set t"

lemma rest_of_drop: "rest_of t m s \<Longrightarrow> s \<le> s' \<Longrightarrow> s' \<le> length t \<Longrightarrow> rest_of t m s'"
proof -
  assume r: "rest_of t m s" "s \<le> s'" "s' \<le> length t"
  then have "drop (s' - s) (drop s m) = drop (s' - s) (drop s t @ [NUL])" by (simp add: rest_of_def)
  then show ?thesis using r by (simp add: rest_of_def)
qed

lemma rest_of_nth: "rest_of t m s \<Longrightarrow> s < length t \<Longrightarrow> rd m s = Some (t ! s)"
  using hd_drop_conv_nth [of s m] hd_drop_conv_nth [of s t]
  by (cases "drop s t") (auto simp: rest_of_def rd_def)

lemma rest_of_take: "rest_of t m s \<Longrightarrow> take (length t - s) (drop s m) = drop s t"
  by (simp add: rest_of_def)

lemma u_skip_words:
  assumes "rest_of t m s" "plain_text t"
  shows "u_skip m s (length t) delim NUL = Some (s + length (takeWhile (is_sep delim) (drop s t)))"
proof -
  have w: "skip_while P m s (length t) = Some (s + length (takeWhile P (drop s t)))" for P
    using skip_while_eq [of "length t" m s P] rest_of_take [OF assms(1)] assms(1) by (simp add: rest_of_def)
  have "takeWhile (strchr d) (drop s t) = takeWhile (\<lambda>c. c \<in> set d) (drop s t)" for d
    using assms(2) by (intro takeWhile_cong) (auto simp: strchr_def plain_text_def dest: in_set_dropD)
  then show ?thesis
    using w by (cases delim) (auto simp: u_skip_def u_skip_ws.simps [of m s] is_sep_def [abs_def])
qed

lemma delimit_token_words:
  assumes "rest_of t m s" "plain_text t"
    and "s1 = s + length (takeWhile (is_sep delim) (drop s t))"
  shows "u_delimit_token m s (length t) delim NUL =
    Some (if s1 = length t then (Suc (length t), None)
          else (s1 + length (takeWhile (\<lambda>c. \<not> is_sep delim c) (drop s1 t)), Some s1))"
proof (cases "s1 = length t")
  case True
  then show ?thesis
    using u_skip_words [OF assms(1, 2), of delim] assms(3) by (simp add: u_delimit_token_def)
next
  case False
  have le: "s \<le> s1" "s1 \<le> length t"
    using assms(1, 3) length_takeWhile_le [of "is_sep delim" "drop s t"] by (auto simp: rest_of_def)
  with False have lt: "s1 < length t" by simp
  have r: "rest_of t m s1" "rest_of t m (Suc s1)"
    using rest_of_drop [OF assms(1)] le lt by auto
  have d: "drop s1 t = t ! s1 # drop (Suc s1) t" using lt by (simp add: Cons_nth_drop_Suc)
  have c: "rd m s1 = Some (t ! s1)"
    using rest_of_nth [OF r(1) lt] .
  have "drop s1 t = dropWhile (is_sep delim) (drop s t)"
    using assms(3) by (simp add: dropWhile_eq_drop add.commute)
  then have ns: "\<not> is_sep delim (t ! s1)" using hd_dropWhile [of "is_sep delim" "drop s t"] d by (metis list.sel(1) list.distinct(1))
  have nq: "t ! s1 \<noteq> DQUOTE" "t ! s1 \<noteq> APOS" using assms(2) lt nth_mem by (fastforce simp: plain_text_def)+
  have len: "length m = Suc (length t)" using r(1) by (simp add: rest_of_def)
  show ?thesis
  proof (cases delim)
    case None
    then show ?thesis
      using u_skip_words [OF assms(1, 2), of delim] assms(3) False c nq ns d lt len
        skip_while_eq [of "length t" m "Suc s1"] rest_of_take [OF r(2)]
      by (simp add: u_delimit_token_def is_sep_def [abs_def])
  next
    case (Some dl)
    then show ?thesis
      using u_skip_words [OF assms(1, 2), of delim] assms(3) False c nq ns d lt len
        rest_of_take [OF r(2)] strpbrk_takeWhile [of "drop (Suc s1) t" dl]
      by (auto simp: u_delimit_token_def is_sep_def [abs_def] split: option.splits)
  qed
qed

text \<open>What the loop adds: arguments that read, in the final memory, as the words of the rest.\<close>

definition split_adds :: "split_state \<Rightarrow> nat \<Rightarrow> byte list list \<Rightarrow> split_state \<Rightarrow> bool" where
  "split_adds st s ws st' \<longleftrightarrow>
     (\<exists>qs. argv st' = argv st @ qs \<and> map (cstr_at (smem st')) qs = ws) \<and>
     length (smem st') = length (smem st) \<and> take s (smem st') = take s (smem st)"

lemma cstr_at_token:
  assumes "take (Suc (q + length w)) m = pre @ w @ [NUL]" "length pre = q" "NUL \<notin> set w"
  shows "cstr_at m q = w"
proof -
  have "m = (pre @ w @ [NUL]) @ drop (Suc (q + length w)) m"
    by (metis append_take_drop_id assms(1))
  then have "drop q m = w @ NUL # drop (Suc (q + length w)) m"
    using assms(2) by (metis append.assoc append_Cons append_Nil append_eq_conv_conj)
  then show ?thesis
    using assms(3) by (simp add: cstr_at_def) (metis (mono_tags, lifting) append_Nil2 takeWhile.simps(2) takeWhile_append2)
qed

lemma token_cstr:
  assumes "rest_of t m s" "plain_text t" "s < length t"
    and "take (Suc (s + length (takeWhile N (drop s t)))) m' =
         take (Suc (s + length (takeWhile N (drop s t)))) (m[s + length (takeWhile N (drop s t)) := NUL])"
  shows "cstr_at m' s = takeWhile N (drop s t)"
proof (rule cstr_at_token)
  let ?w = "takeWhile N (drop s t)"
  have w: "length ?w \<le> length t - s" using length_takeWhile_le [of N "drop s t"] by simp
  have "take (length ?w) (drop s m) = ?w"
    using assms(1) w takeWhile_eq_take [of N "drop s t"] by (simp add: rest_of_def)
  then have "take (s + length ?w) m = take s m @ ?w" by (simp add: take_add)
  then show "take (Suc (s + length ?w)) m' = take s m @ ?w @ [NUL]"
    using assms(1, 3, 4) w by (simp add: rest_of_def take_Suc_conv_app_nth)
  show "NUL \<notin> set ?w"
    using assms(2) by (auto simp: plain_text_def dest!: set_takeWhileD in_set_dropD)
  show "length (take s m) = s" using assms(1) by (simp add: rest_of_def)
qed

lemma split_words_step:
  assumes "dropWhile sep (drop s t) = drop s1 t" "s1 < length t"
  shows "split_words sep (drop s t) =
    takeWhile (\<lambda>c. \<not> sep c) (drop s1 t) # split_words sep (drop (Suc (s1 + length (takeWhile (\<lambda>c. \<not> sep c) (drop s1 t)))) t)"
proof -
  let ?N = "\<lambda>c. \<not> sep c"
  define s2 where "s2 = s1 + length (takeWhile ?N (drop s1 t))"
  have d2: "dropWhile ?N (drop s1 t) = drop s2 t"
    by (simp add: s2_def dropWhile_eq_drop add.commute)
  have "split_words sep (drop s2 t) = split_words sep (drop (Suc s2) t)"
  proof (cases "s2 < length t")
    case True
    then have c: "drop s2 t = t ! s2 # drop (Suc s2) t" by (simp add: Cons_nth_drop_Suc)
    then have "sep (t ! s2)" using hd_dropWhile [of ?N "drop s1 t"] d2 by (metis list.sel(1) list.distinct(1))
    then show ?thesis unfolding c by (rule split_words_sep)
  qed simp
  then show ?thesis
    using assms d2 by (subst split_words.simps) (simp add: s2_def Let_def)
qed

lemma split_loop_words:
  assumes "rest_of t (smem st) s \<or> s = Suc (length t)" "plain_text t" "length (smem st) = Suc (length t)"
  shows "\<exists>st'. split_loop st s (length t) delim = Some st' \<and>
    split_adds st s (split_words (is_sep delim) (drop s t)) st'"
  using assms(1, 3)
proof (induction "Suc (length t) - s" arbitrary: st s rule: less_induct)
  case less
  let ?P = "is_sep delim" and ?N = "\<lambda>c. \<not> is_sep delim c"
  show ?case
  proof (cases "s < length t")
    case False
    then show ?thesis
      by (subst split_loop.simps) (auto simp: split_adds_def split_words.simps)
  next
    case True
    with less.prems have r: "rest_of t (smem st) s" by auto
    define s1 where "s1 = s + length (takeWhile ?P (drop s t))"
    define w where "w = takeWhile ?N (drop s1 t)"
    have d1: "dropWhile ?P (drop s t) = drop s1 t"
      by (simp add: s1_def dropWhile_eq_drop add.commute)
    have le1: "s \<le> s1" "s1 \<le> length t"
      using True length_takeWhile_le [of ?P "drop s t"] by (auto simp: s1_def)
    note tok = delimit_token_words [OF r assms(2) s1_def]
    show ?thesis
    proof (cases "s1 = length t")
      case e: True
      then have "split_words ?P (drop s t) = []" using d1 by (simp add: split_words.simps)
      then show ?thesis
        using tok e True
        by (subst split_loop.simps) (simp add: split_loop.simps [of st "Suc (length t)"] split_adds_def)
    next
      case False
      then have "s1 < length t" using le1 by simp
      define s2 where "s2 = s1 + length w"
      have le2: "s2 \<le> length t" "s1 \<le> s2"
        using \<open>s1 < length t\<close> length_takeWhile_le [of ?N "drop s1 t"] by (auto simp: s2_def w_def)
      let ?st = "\<lparr>smem = (smem st)[s2 := NUL], argv = argv st @ [s1]\<rparr>"
      have eq: "split_loop st s (length t) delim = split_loop ?st (Suc s2) (length t) delim"
        using tok False True le2 less.prems(2)
        by (subst split_loop.simps) (simp add: s2_def w_def)
      have "rest_of t (smem ?st) (Suc s2) \<or> Suc s2 = Suc (length t)"
        using rest_of_drop [OF r, of "Suc s2"] le1 le2 by (auto simp: rest_of_def)
      moreover have "Suc (length t) - Suc s2 < Suc (length t) - s" using le1 le2 True by simp
      ultimately obtain st' where st': "split_loop ?st (Suc s2) (length t) delim = Some st'"
        "split_adds ?st (Suc s2) (split_words ?P (drop (Suc s2) t)) st'"
        using less.hyps [of "Suc s2" ?st] less.prems(2) by auto
      obtain qs where qs: "argv st' = argv st @ s1 # qs"
        "map (cstr_at (smem st')) qs = split_words ?P (drop (Suc s2) t)"
        "length (smem st') = length (smem st)" "take (Suc s2) (smem st') = take (Suc s2) (smem ?st)"
        using st'(2) by (auto simp: split_adds_def)
      have "cstr_at (smem st') s1 = w"
        using token_cstr [OF rest_of_drop [OF r le1] assms(2), of ?N] qs(4) \<open>s1 < length t\<close>
        by (simp add: s2_def w_def)
      moreover have "take s (smem st') = take s (smem st)"
        using arg_cong [OF qs(4), of "take s"] le1 le2 by (simp add: min_def)
      moreover have "split_words ?P (drop s t) = w # split_words ?P (drop (Suc s2) t)"
        using split_words_step [OF d1 \<open>s1 < length t\<close>] by (simp add: s2_def w_def)
      ultimately show ?thesis
        using eq st'(1) qs by (auto simp: split_adds_def intro!: exI [of _ "s1 # qs"])
    qed
  qed
qed

section \<open>Properties\<close>



end
