(* ===== verification/Wildcard.thy ===== *)
theory Wildcard
  imports Ctype
begin

text \<open>
  The DOS-style wildcard matcher of \<open>src/ulib/base/utility.c\<close>, \<open>u_dosmatch\<close> and
  \<open>u_dosmatch_with_OR\<close>. The string is a list; the mask is a memory with its length, because the code
  looks at the byte after the mask. The main loop backtracks to the last star: it is a
  \<open>partial_function\<close>, and that it returns is part of its correctness theorem.
\<close>

section \<open>Definitions\<close>

abbreviation FNM_IGNORECASE :: u32 where "FNM_IGNORECASE \<equiv> 0x10"
abbreviation FNM_INVERT :: u32 where "FNM_INVERT \<equiv> 0x10000000"

text \<open>The two copies of the code differ in folding both characters or none.\<close>

definition fold_char :: "u32 \<Rightarrow> byte \<Rightarrow> byte" where
  "fold_char flags c = (if flags AND FNM_IGNORECASE \<noteq> 0 then u__tolower c else c)"

text \<open>
  The first loop, up to a star: \<open>Inl ()\<close> is the early return, \<open>Inr (i, j)\<close> the positions where it
  stops.
\<close>

fun dos_prefix :: "u32 \<Rightarrow> byte list \<Rightarrow> mem \<Rightarrow> nat \<Rightarrow> nat \<Rightarrow> (unit + nat \<times> nat) option" where
  "dos_prefix flags [] m i j = Some (Inr (i, j))"
| "dos_prefix flags (x # s) m i j = do {
     y \<leftarrow> rd m j;
     let c2 = fold_char flags y;
     let c1 = fold_char flags x;
     if c2 = STAR then Some (Inr (i, j))
     else if c2 \<noteq> c1 \<and> c2 \<noteq> QUERY then Some (Inl ())
     else dos_prefix flags s m (Suc i) (Suc j)
   }"

text \<open>\<open>while (*mask == '*') ++mask;\<close> on the memory from \<open>mask\<close>: how far it goes.\<close>

fun skip_stars :: "mem \<Rightarrow> nat option" where
  "skip_stars [] = None"
| "skip_stars (c # m) = (if c = STAR then map_option Suc (skip_stars m) else Some 0)"

text \<open>The second loop; \<open>back\<close> holds \<open>cp\<close> and \<open>mp\<close>, null before the first star.\<close>

partial_function (option) dos_loop ::
  "u32 \<Rightarrow> byte list \<Rightarrow> mem \<Rightarrow> nat \<Rightarrow> nat \<Rightarrow> nat \<Rightarrow> (nat \<times> nat) option \<Rightarrow> bool option" where
  "dos_loop flags s m n2 i j back =
     (if i \<ge> length s then map_option (\<lambda>k. j + k \<ge> n2) (skip_stars (drop j m))
      else Option.bind (rd m j) (\<lambda>y.
        if fold_char flags y = STAR then
          (if Suc j \<ge> n2 then Some True
           else dos_loop flags s m n2 i (Suc j) (Some (Suc i, Suc j)))
        else if fold_char flags y = fold_char flags (s ! i) \<or> fold_char flags y = QUERY
        then dos_loop flags s m n2 (Suc i) (Suc j) back
        else (case back of
            None \<Rightarrow> None
          | Some (cp, mp) \<Rightarrow> dos_loop flags s m n2 cp mp (Some (Suc cp, mp)))))"

definition u_dosmatch :: "byte list \<Rightarrow> mem \<Rightarrow> nat \<Rightarrow> u32 \<Rightarrow> bool option" where
  "u_dosmatch s m n2 flags = do {
     p \<leftarrow> dos_prefix flags s m 0 0;
     result \<leftarrow> (case p of Inl u \<Rightarrow> Some False | Inr (i, j) \<Rightarrow> dos_loop flags s m n2 i j None);
     Some (if flags AND FNM_INVERT \<noteq> 0 then \<not> result else result)
   }"

text \<open>
  The loop over the alternatives, for the matcher it calls. The mask is the memory from \<open>mask\<close> with
  the length \<open>n2\<close>.
\<close>

function or_loop ::
  "(byte list \<Rightarrow> mem \<Rightarrow> nat \<Rightarrow> u32 \<Rightarrow> bool option) \<Rightarrow> byte list \<Rightarrow> mem \<Rightarrow> nat \<Rightarrow> u32 \<Rightarrow> bool option" where
  "or_loop dm s m n2 flags =
     (case memchr (take n2 m) BAR of
        None \<Rightarrow> dm s m n2 flags
      | Some p_or \<Rightarrow> do {
          result \<leftarrow> dm s m p_or flags;
          if flags AND FNM_INVERT \<noteq> 0 then
            (if \<not> result then Some False else or_loop dm s (drop (Suc p_or) m) (n2 - Suc p_or) flags)
          else
            (if result then Some True else or_loop dm s (drop (Suc p_or) m) (n2 - Suc p_or) flags)
        })"
  by pat_completeness auto

termination
  by (relation "measure (\<lambda>(dm, s, m, n2, flags). n2)") (auto simp: memchr_Some)

declare or_loop.simps [simp del]

definition u_dosmatch_with_OR :: "byte list \<Rightarrow> mem \<Rightarrow> nat \<Rightarrow> u32 \<Rightarrow> bool option" where
  "u_dosmatch_with_OR s m n2 flags = or_loop u_dosmatch s m n2 flags"

section \<open>Specification\<close>

text \<open>A star matches any string, a question mark any character, any other character itself.\<close>

fun wild :: "(byte \<Rightarrow> byte) \<Rightarrow> byte list \<Rightarrow> byte list \<Rightarrow> bool" where
  "wild f [] s \<longleftrightarrow> s = []"
| "wild f (c # p) [] \<longleftrightarrow> c = STAR \<and> wild f p []"
| "wild f (c # p) (x # s) \<longleftrightarrow>
     (if c = STAR then wild f p (x # s) \<or> wild f (c # p) s
      else (c = QUERY \<or> f c = f x) \<and> wild f p s)"

lemma wild_Nil: "wild f p [] \<longleftrightarrow> set p \<subseteq> {STAR}"
  by (induction p) auto

lemma wild_star: "wild f (STAR # p) s \<longleftrightarrow> (\<exists>k \<le> length s. wild f p (drop k s))"
proof (induction s)
  case Nil
  then show ?case by simp
next
  case (Cons x s)
  have "(\<exists>k \<le> length (x # s). wild f p (drop k (x # s))) \<longleftrightarrow>
        wild f p (x # s) \<or> (\<exists>k \<le> length s. wild f p (drop k s))"
    by (metis Suc_le_mono drop0 drop_Suc_Cons le0 length_Cons nat.exhaust)
  then show ?case using Cons.IH by simp
qed

text \<open>A part of the pattern without a star consumes as many characters as it has.\<close>

lemma wild_append:
  "STAR \<notin> set q \<Longrightarrow> wild f (q @ r) s \<Longrightarrow> length q \<le> length s \<and> wild f r (drop (length q) s)"
proof (induction q arbitrary: s)
  case (Cons c q)
  then show ?case by (cases s) auto
qed simp


lemma fold_char_special: "fold_char flags c = STAR \<longleftrightarrow> c = STAR" "fold_char flags c = QUERY \<longleftrightarrow> c = QUERY"
proof -
  have "(u__tolower c = STAR \<longleftrightarrow> c = STAR) \<and> (u__tolower c = QUERY \<longleftrightarrow> c = QUERY)"
    by (rule all_byteI) code_simp
  then show "fold_char flags c = STAR \<longleftrightarrow> c = STAR" "fold_char flags c = QUERY \<longleftrightarrow> c = QUERY"
    by (simp_all add: fold_char_def)
qed

section \<open>The loops are correct\<close>

text \<open>
  The byte after the mask must not look like a part of it: neither a wildcard nor a character of the
  string.
\<close>

definition ends_mask :: "u32 \<Rightarrow> byte \<Rightarrow> byte list \<Rightarrow> bool" where
  "ends_mask flags t s \<longleftrightarrow> t \<noteq> STAR \<and> t \<noteq> QUERY \<and> (\<forall>x \<in> set s. fold_char flags x \<noteq> fold_char flags t)"

lemma skip_stars_mask:
  "t \<noteq> STAR \<Longrightarrow> skip_stars (p @ t # z) = Some (length (takeWhile (\<lambda>c. c = STAR) p))"
  by (induction p) auto

lemma all_stars: "length (takeWhile (\<lambda>c. c = STAR) p) \<ge> length p \<longleftrightarrow> set p \<subseteq> {STAR}"
  by (induction p) auto

text \<open>
  The state of the second loop after a star: the pattern from \<open>mp\<close> to \<open>j\<close> has no star and was matched
  with the string from \<open>cp - 1\<close> to \<open>i\<close>.
\<close>

definition dos_inv :: "byte list \<Rightarrow> byte list \<Rightarrow> nat \<Rightarrow> nat \<Rightarrow> nat \<Rightarrow> nat \<Rightarrow> bool" where
  "dos_inv s p i j cp mp \<longleftrightarrow>
     mp \<le> j \<and> j \<le> length p \<and> i \<le> length s \<and> 1 \<le> cp \<and> i + mp = (cp - 1) + j \<and> STAR \<notin> set (take (j - mp) (drop mp p))"

definition dos_answer :: "u32 \<Rightarrow> byte list \<Rightarrow> byte list \<Rightarrow> nat \<Rightarrow> nat \<Rightarrow> nat \<Rightarrow> nat \<Rightarrow> bool" where
  "dos_answer flags s p i j cp mp \<longleftrightarrow>
     wild (fold_char flags) (drop j p) (drop i s) \<or>
     (\<exists>k \<ge> cp. k \<le> length s \<and> wild (fold_char flags) (drop mp p) (drop k s))"

lemma drop_split: "mp \<le> j \<Longrightarrow> drop mp p = take (j - mp) (drop mp p) @ drop j p"
  by (metis append_take_drop_id drop_drop le_add_diff_inverse2)

text \<open>A later start of the current part implies a match from where the part ends.\<close>

lemma later_start:
  assumes "dos_inv s p i j cp mp" "cp \<le> k" "wild f (drop mp p) (drop k s)"
  shows "k + (j - mp) \<le> length s \<or> length s < k" "wild f (drop j p) (drop (k + (j - mp)) s)" "i < k + (j - mp)"
proof -
  have l: "length (take (j - mp) (drop mp p)) = j - mp"
    using assms(1) by (auto simp: dos_inv_def)
  have "wild f (take (j - mp) (drop mp p) @ drop j p) (drop k s)"
    using assms(1, 3) drop_split [of mp j p] by (simp add: dos_inv_def)
  from wild_append [OF _ this] assms(1) l
  show "k + (j - mp) \<le> length s \<or> length s < k" "wild f (drop j p) (drop (k + (j - mp)) s)"
    by (auto simp: dos_inv_def add.commute)
  show "i < k + (j - mp)" using assms(1, 2) by (auto simp: dos_inv_def)
qed

lemma dos_answer_end:
  assumes "dos_inv s p (length s) j cp mp"
  shows "dos_answer flags s p (length s) j cp mp \<longleftrightarrow> set (drop j p) \<subseteq> {STAR}"
proof -
  have "\<not> wild f (drop mp p) (drop k s)" if "cp \<le> k" "k \<le> length s" for f k
    using later_start [OF assms that(1)] that(2) by (meson leD)
  then show ?thesis by (auto simp: dos_answer_def wild_Nil)
qed

lemma ex_ge_split: "i \<le> n \<Longrightarrow> (\<exists>k. i \<le> k \<and> k \<le> n \<and> Q k) \<longleftrightarrow> Q i \<or> (\<exists>k \<ge> Suc i. k \<le> n \<and> Q k)"
  by (metis Suc_leD le_neq_implies_less le_refl not_less_eq_eq linorder_not_le)

lemma wild_star_at:
  assumes "j < length p" "p ! j = STAR" "i \<le> length s"
  shows "wild f (drop j p) (drop i s) \<longleftrightarrow> (\<exists>k. i \<le> k \<and> k \<le> length s \<and> wild f (drop (Suc j) p) (drop k s))"
proof -
  have d: "drop j p = STAR # drop (Suc j) p" using assms(1, 2) by (metis Cons_nth_drop_Suc)
  show ?thesis
  proof
    assume "wild f (drop j p) (drop i s)"
    then obtain k where "k \<le> length (drop i s)" "wild f (drop (Suc j) p) (drop k (drop i s))"
      unfolding d wild_star by blast
    then show "\<exists>k. i \<le> k \<and> k \<le> length s \<and> wild f (drop (Suc j) p) (drop k s)"
      using assms(3) by (intro exI [of _ "k + i"]) simp
  next
    assume "\<exists>k. i \<le> k \<and> k \<le> length s \<and> wild f (drop (Suc j) p) (drop k s)"
    then obtain k where "i \<le> k" "k \<le> length s" "wild f (drop (Suc j) p) (drop k s)" by blast
    then show "wild f (drop j p) (drop i s)"
      unfolding d wild_star by (intro exI [of _ "k - i"]) simp
  qed
qed

lemma wild_star_answer:
  assumes "j < length p" "p ! j = STAR" "i \<le> length s"
  shows "wild (fold_char flags) (drop j p) (drop i s) \<longleftrightarrow> dos_answer flags s p i (Suc j) (Suc i) (Suc j)"
  unfolding dos_answer_def wild_star_at [OF assms] by (rule ex_ge_split [OF assms(3)])

lemma dos_answer_star:
  assumes "dos_inv s p i j cp mp" "j < length p" "p ! j = STAR"
  shows "dos_answer flags s p i j cp mp \<longleftrightarrow> dos_answer flags s p i (Suc j) (Suc i) (Suc j)"
proof -
  let ?f = "fold_char flags"
  have i: "i \<le> length s" using assms(1) by (simp add: dos_inv_def)
  have "wild ?f (drop j p) (drop i s)" if "k \<ge> cp" "k \<le> length s" "wild ?f (drop mp p) (drop k s)" for k
  proof -
    have l: "k + (j - mp) \<le> length s" "wild ?f (drop j p) (drop (k + (j - mp)) s)" "i < k + (j - mp)"
      using later_start [OF assms(1) that(1, 3)] that(2) by auto
    from l(2) wild_star_at [OF assms(2, 3) l(1), of ?f] obtain k' where
      "k + (j - mp) \<le> k'" "k' \<le> length s" "wild ?f (drop (Suc j) p) (drop k' s)" by blast
    then show ?thesis
      unfolding wild_star_at [OF assms(2, 3) i] using l(3) by (intro exI [of _ k']) simp
  qed
  then have "dos_answer flags s p i j cp mp \<longleftrightarrow> wild ?f (drop j p) (drop i s)"
    unfolding dos_answer_def by blast
  then show ?thesis
    using wild_star_answer [OF assms(2, 3) i] by simp
qed

lemma dos_answer_char:
  assumes "j < length p" "p ! j \<noteq> STAR" "i < length s"
  shows "wild f (drop j p) (drop i s) \<longleftrightarrow>
    (p ! j = QUERY \<or> f (p ! j) = f (s ! i)) \<and> wild f (drop (Suc j) p) (drop (Suc i) s)"
proof -
  have "drop j p = p ! j # drop (Suc j) p" "drop i s = s ! i # drop (Suc i) s"
    using assms by (metis Cons_nth_drop_Suc)+
  then show ?thesis using assms(2) by simp
qed

lemma dos_inv_step:
  assumes "dos_inv s p i j cp mp" "j < length p" "p ! j \<noteq> STAR" "i < length s"
  shows "dos_inv s p (Suc i) (Suc j) cp mp"
proof -
  have "take (Suc j - mp) (drop mp p) = take (j - mp) (drop mp p) @ [p ! j]"
    using assms(1, 2) by (auto simp: dos_inv_def Suc_diff_le take_Suc_conv_app_nth)
  then show ?thesis using assms by (auto simp: dos_inv_def)
qed

lemma dos_loop_answer:
  assumes "dos_inv s p i j cp mp" "ends_mask flags t s"
  shows "dos_loop flags s (p @ t # z) (length p) i j (Some (cp, mp)) = Some (dos_answer flags s p i j cp mp)"
  using assms(1)
proof (induction "(length p - mp, length s - cp, length s - i)" arbitrary: i j cp mp
    rule: wf_induct [OF wf_lex_prod [OF wf_less_than wf_lex_prod [OF wf_less_than wf_less_than]], case_names step])
  case (step i cp mp j)
  let ?f = "fold_char flags" and ?m = "p @ t # z"
  have inv: "mp \<le> j" "j \<le> length p" "i \<le> length s" "1 \<le> cp" "i + mp = (cp - 1) + j"
    using step.prems by (auto simp: dos_inv_def)
  have IH: "dos_loop flags s ?m (length p) i' j' (Some (cp', mp')) = Some (dos_answer flags s p i' j' cp' mp')"
    if "((length p - mp', length s - cp', length s - i'), length p - mp, length s - cp, length s - i)
      \<in> less_than <*lex*> less_than <*lex*> less_than" "dos_inv s p i' j' cp' mp'" for i' j' cp' mp'
    using step.hyps that by blast
  show ?case
  proof (cases "i = length s")
    case True
    have "skip_stars (drop j ?m) = Some (length (takeWhile (\<lambda>c. c = STAR) (drop j p)))"
      using skip_stars_mask [of t "drop j p" z] assms(2) inv(2) by (simp add: ends_mask_def)
    moreover have "length p \<le> j + length (takeWhile (\<lambda>c. c = STAR) (drop j p)) \<longleftrightarrow> set (drop j p) \<subseteq> {STAR}"
      using all_stars [of "drop j p"] inv(2) by (simp add: le_diff_conv add.commute)
    ultimately show ?thesis
      using dos_answer_end [of s p j cp mp flags] step.prems True by (subst dos_loop.simps) simp
  next
    case False
    with inv have i: "i < length s" "cp \<le> length s" by auto
    show ?thesis
    proof (cases "j < length p \<and> p ! j = STAR")
      case star: True
      then have rdj: "rd ?m j = Some STAR" by simp
      show ?thesis
      proof (cases "Suc j \<ge> length p")
        case True
        with star have "drop j p = [STAR]"
          by (metis Cons_nth_drop_Suc drop_eq_Nil)
        then have "dos_answer flags s p i j cp mp" by (auto simp: dos_answer_def wild_star intro!: exI [of _ "length s - i"])
        then show ?thesis using True rdj i by (subst dos_loop.simps) (simp add: fold_char_special)
      next
        case ne: False
        have "dos_inv s p i (Suc j) (Suc i) (Suc j)" using star i inv by (simp add: dos_inv_def)
        moreover have "((length p - Suc j, length s - Suc i, length s - i), length p - mp, length s - cp, length s - i)
          \<in> less_than <*lex*> less_than <*lex*> less_than" using star inv by auto
        ultimately have "dos_loop flags s ?m (length p) i (Suc j) (Some (Suc i, Suc j)) =
          Some (dos_answer flags s p i (Suc j) (Suc i) (Suc j))" using IH by blast
        then show ?thesis
          using dos_answer_star [OF step.prems, of flags] star ne rdj i by (subst dos_loop.simps) (simp add: fold_char_special)
      qed
    next
      case nostar: False
      define y where "y = (if j < length p then p ! j else t)"
      have rdj: "rd ?m j = Some y" using inv(2) by (auto simp: y_def rd_def nth_append)
      have ystar: "y \<noteq> STAR" using nostar assms(2) by (auto simp: y_def ends_mask_def)
      show ?thesis
      proof (cases "y = QUERY \<or> ?f y = ?f (s ! i)")
        case match: True
        then have j: "j < length p" using assms(2) i by (auto simp: y_def ends_mask_def split: if_splits)
        with match have "dos_answer flags s p i j cp mp = dos_answer flags s p (Suc i) (Suc j) cp mp"
          using dos_answer_char [of j p i s ?f] nostar i by (simp add: dos_answer_def y_def)
        moreover have "((length p - mp, length s - cp, length s - Suc i), length p - mp, length s - cp, length s - i)
          \<in> less_than <*lex*> less_than <*lex*> less_than" using i by simp
        moreover have "dos_inv s p (Suc i) (Suc j) cp mp"
          using dos_inv_step [OF step.prems j] nostar j i by blast
        ultimately show ?thesis
          using IH [where i' = "Suc i" and cp' = cp and mp' = mp and j' = "Suc j"] rdj i match ystar by (subst dos_loop.simps) (auto simp: fold_char_special)
      next
        case mismatch: False
        have "\<not> wild ?f (drop j p) (drop i s)"
          using mismatch dos_answer_char [of j p i s ?f] nostar i by (cases "j < length p") (auto simp: y_def)
        then have "dos_answer flags s p i j cp mp = dos_answer flags s p cp mp (Suc cp) mp"
          using ex_ge_split [OF i(2), of "\<lambda>k. wild ?f (drop mp p) (drop k s)"] by (simp add: dos_answer_def)
        moreover have "((length p - mp, length s - Suc cp, length s - cp), length p - mp, length s - cp, length s - i)
          \<in> less_than <*lex*> less_than <*lex*> less_than" using i by auto
        moreover have "dos_inv s p cp mp (Suc cp) mp" using i inv by (simp add: dos_inv_def)
        ultimately show ?thesis
          using IH [where i' = cp and cp' = "Suc cp" and mp' = mp and j' = mp] rdj i mismatch ystar by (subst dos_loop.simps) (simp add: fold_char_special)
      qed
    qed
  qed
qed

text \<open>The first loop decides, or stops where the second one can start.\<close>

lemma dos_prefix_answer:
  assumes "ends_mask flags t s" "i + length xs = length s" "xs = drop i s" "j \<le> length p" "i = j"
    and "wild (fold_char flags) p s = wild (fold_char flags) (drop j p) xs"
  shows "(case dos_prefix flags xs (p @ t # z) i j of
      None \<Rightarrow> None
    | Some (Inl u) \<Rightarrow> Some False
    | Some (Inr (i, j)) \<Rightarrow> dos_loop flags s (p @ t # z) (length p) i j None) = Some (wild (fold_char flags) p s)"
  using assms(2-6)
proof (induction xs arbitrary: i j)
  case Nil
  have "skip_stars (drop j (p @ t # z)) = Some (length (takeWhile (\<lambda>c. c = STAR) (drop j p)))"
    using skip_stars_mask [of t "drop j p" z] assms(1) Nil by (simp add: ends_mask_def)
  moreover have "length p \<le> j + length (takeWhile (\<lambda>c. c = STAR) (drop j p)) \<longleftrightarrow> set (drop j p) \<subseteq> {STAR}"
    using all_stars [of "drop j p"] Nil by (simp add: le_diff_conv add.commute)
  ultimately show ?case
    using Nil by (simp add: dos_loop.simps wild_Nil)
next
  case (Cons x xs)
  let ?f = "fold_char flags" and ?m = "p @ t # z"
  define y where "y = (if j < length p then p ! j else t)"
  have rdj: "rd ?m j = Some y" using Cons.prems(3) by (auto simp: y_def rd_def nth_append)
  have dr: "drop i s = x # xs" using Cons.prems(2) by simp
  have i: "i < length s" "s ! i = x" using Cons.prems(1) nth_via_drop [OF dr] by simp_all
  have xs: "drop (Suc i) s = xs" using dr by (metis Cons_nth_drop_Suc i(1) list.inject)
  show ?case
  proof (cases "y = STAR")
    case True
    then have j: "j < length p" "p ! j = STAR" using assms(1) by (auto simp: y_def ends_mask_def split: if_splits)
    have d: "drop j p = STAR # drop (Suc j) p" using j by (metis Cons_nth_drop_Suc)
    show ?thesis
    proof (cases "Suc j \<ge> length p")
      case True
      have "wild ?f [STAR] (x # xs)" unfolding wild_star by (intro exI [of _ "length (x # xs)"]) simp
      then have "wild ?f (drop j p) (x # xs)" using d True by simp
      then show ?thesis
        using Cons.prems(5) rdj \<open>y = STAR\<close> True i by (simp add: fold_char_special dos_loop.simps)
    next
      case ne: False
      have inv: "dos_inv s p i (Suc j) (Suc i) (Suc j)" using j i by (simp add: dos_inv_def)
      have "dos_answer flags s p i (Suc j) (Suc i) (Suc j) \<longleftrightarrow> wild ?f (drop j p) (drop i s)"
        using wild_star_answer [OF j, of i s flags] i by simp
      then show ?thesis
        using dos_loop_answer [OF inv assms(1)] Cons.prems(5) dr rdj \<open>y = STAR\<close> ne i
        by (simp add: fold_char_special dos_loop.simps [of _ _ _ _ i j])
    qed
  next
    case ystar: False
    show ?thesis
    proof (cases "y = QUERY \<or> ?f y = ?f x")
      case True
      then have j: "j < length p" "p ! j = y" using assms(1) i nth_mem [of i s]
        by (auto simp: y_def ends_mask_def split: if_splits)
      have "wild ?f (drop j p) (x # xs) \<longleftrightarrow> wild ?f (drop (Suc j) p) xs"
        using dos_answer_char [of j p i s ?f] j ystar i dr xs True by auto
      then have "wild ?f p s = wild ?f (drop (Suc j) p) xs" using Cons.prems(5) by simp
      then have "(case dos_prefix flags xs ?m (Suc i) (Suc j) of
          None \<Rightarrow> None
        | Some (Inl u) \<Rightarrow> Some False
        | Some (Inr (i, j)) \<Rightarrow> dos_loop flags s ?m (length p) i j None) = Some (wild ?f p s)"
        using Cons.prems(1, 4) xs j by (intro Cons.IH) simp_all
      then show ?thesis
        using rdj True ystar by (auto simp: fold_char_special)
    next
      case False
      have "\<not> wild ?f (drop j p) (x # xs)"
        using dos_answer_char [of j p i s ?f] False ystar i dr by (cases "j < length p") (auto simp: y_def)
      then show ?thesis
        using Cons.prems(5) rdj False ystar by (simp add: fold_char_special)
    qed
  qed
qed

lemma dosmatch_wild:
  assumes "ends_mask flags t s"
  shows "u_dosmatch s (p @ t # z) (length p) flags =
    Some ((flags AND FNM_INVERT \<noteq> 0) \<noteq> wild (fold_char flags) p s)"
  using dos_prefix_answer [OF assms, of 0 s 0 p z]
  by (auto simp: u_dosmatch_def split: option.splits sum.splits)

section \<open>Alternatives\<close>

text \<open>The alternatives of a mask, separated by bars.\<close>

fun alternatives :: "byte list \<Rightarrow> byte list list" where
  "alternatives [] = [[]]"
| "alternatives (c # p) =
     (if c = BAR then [] # alternatives p
      else (case alternatives p of [] \<Rightarrow> [[c]] | a # as \<Rightarrow> (c # a) # as))"

lemma alternatives_ne: "alternatives p \<noteq> []"
  by (induction p) (auto split: list.splits)

lemma alternatives_no_bar: "BAR \<notin> set p \<Longrightarrow> alternatives p = [p]"
  by (induction p) auto

lemma alternatives_bar: "BAR \<notin> set p \<Longrightarrow> alternatives (p @ BAR # q) = p # alternatives q"
  by (induction p) auto

text \<open>
  What the loop over the alternatives needs of the matcher it calls: that it decides \<open>accepts\<close> for a
  mask followed by a byte that ends it, inverted when the flags say so.
\<close>

locale mask_matcher =
  fixes dm :: "byte list \<Rightarrow> mem \<Rightarrow> nat \<Rightarrow> u32 \<Rightarrow> bool option"
    and accepts :: "u32 \<Rightarrow> byte list \<Rightarrow> byte list \<Rightarrow> bool"
    and ends :: "u32 \<Rightarrow> byte \<Rightarrow> byte list \<Rightarrow> bool"
  assumes decides: "ends flags t s \<Longrightarrow>
    dm s (p @ t # z) (length p) flags = Some ((flags AND FNM_INVERT \<noteq> 0) \<noteq> accepts flags p s)"
begin

lemma or_loop_decides:
  assumes "ends flags BAR s" "ends flags t s"
  shows "or_loop dm s (p @ t # z) (length p) flags =
    Some ((flags AND FNM_INVERT \<noteq> 0) \<noteq> (\<exists>a \<in> set (alternatives p). accepts flags a s))"
proof (induction p rule: length_induct)
  case (1 p)
  show ?case
  proof (cases "memchr p BAR")
    case None
    then show ?thesis
      using decides [OF assms(2)] alternatives_no_bar [of p] memchr_None [of p BAR]
      by (subst or_loop.simps) simp
  next
    case (Some k)
    define q where "q = take k p"
    define r where "r = drop (Suc k) p"
    have p: "p = q @ BAR # r" "length q = k" "BAR \<notin> set q"
      using Some id_take_nth_drop [of k p] by (auto simp: memchr_Some q_def r_def)
    have "dm s (p @ t # z) k flags = Some ((flags AND FNM_INVERT \<noteq> 0) \<noteq> accepts flags q s)"
      using decides [OF assms(1), of q "r @ t # z"] p by simp
    moreover have "or_loop dm s (r @ t # z) (length r) flags =
      Some ((flags AND FNM_INVERT \<noteq> 0) \<noteq> (\<exists>a \<in> set (alternatives r). accepts flags a s))"
      using 1 p(1) by simp
    moreover have "drop (Suc k) (p @ t # z) = r @ t # z" "length p - Suc k = length r"
      unfolding p(1) using p(2) by simp_all
    ultimately show ?thesis
      using Some p alternatives_bar [OF p(3), of r] by (subst or_loop.simps) auto
  qed
qed

end

interpretation dos: mask_matcher u_dosmatch "\<lambda>flags. wild (fold_char flags)" ends_mask
  by unfold_locales (rule dosmatch_wild)

lemma ends_mask_bar: "BAR \<notin> set s \<Longrightarrow> ends_mask flags BAR s"
  and ends_mask_nul: "NUL \<notin> set s \<Longrightarrow> ends_mask flags NUL s"
proof -
  have "(u__tolower x = BAR \<longleftrightarrow> x = BAR) \<and> (u__tolower x = NUL \<longleftrightarrow> x = NUL)" for x
    by (rule all_byteI) code_simp
  then have "fold_char flags x = fold_char flags BAR \<longleftrightarrow> x = BAR" "fold_char flags x = fold_char flags NUL \<longleftrightarrow> x = NUL" for x
    by (simp_all add: fold_char_def) (metis, metis)
  then show "BAR \<notin> set s \<Longrightarrow> ends_mask flags BAR s" "NUL \<notin> set s \<Longrightarrow> ends_mask flags NUL s"
    by (auto simp: ends_mask_def)
qed

section \<open>Properties\<close>

text \<open>
  C10: for a string without a terminator inside and a terminated mask, \<open>u_dosmatch\<close> returns, reads
  nothing past the terminator of the mask, and decides the wildcard specification (star: any string,
  question mark: any character), up to case and inverted as the flags say.
\<close>

theorem dosmatch_correct:
  assumes "NUL \<notin> set s"
  shows "u_dosmatch s (p @ [NUL]) (length p) flags =
    Some ((flags AND FNM_INVERT \<noteq> 0) \<noteq> wild (fold_char flags) p s)"
  using dosmatch_wild [OF ends_mask_nul [OF assms]] .

theorem dosmatch_correct_witness:
  "NUL \<notin> set (bytes ''readme.txt'') \<and>
   u_dosmatch (bytes ''readme.txt'') (bytes ''*.t?t'' @ [NUL]) (length (bytes ''*.t?t'')) 0 =
     Some ((0 AND FNM_INVERT \<noteq> 0) \<noteq> wild (fold_char 0) (bytes ''*.t?t'') (bytes ''readme.txt''))"
proof -
  have h: "NUL \<notin> set (bytes ''readme.txt'')" by code_simp
  from dosmatch_correct [OF h] h show ?thesis by blast
qed

text \<open>
  \<open>u_dosmatch_with_OR\<close> decides whether one of the alternatives of the mask accepts the string
  (none of them, when the result is inverted), for strings without a bar.
\<close>

theorem dosmatch_with_OR_correct:
  assumes "BAR \<notin> set s" "NUL \<notin> set s"
  shows "u_dosmatch_with_OR s (p @ [NUL]) (length p) flags =
    Some ((flags AND FNM_INVERT \<noteq> 0) \<noteq> (\<exists>a \<in> set (alternatives p). wild (fold_char flags) a s))"
  using dos.or_loop_decides [OF ends_mask_bar [OF assms(1)] ends_mask_nul [OF assms(2)]]
  by (simp add: u_dosmatch_with_OR_def)

theorem dosmatch_with_OR_correct_witness:
  "(BAR \<notin> set (bytes ''a.gif'') \<and> NUL \<notin> set (bytes ''a.gif'')) \<and>
   u_dosmatch_with_OR (bytes ''a.gif'') (bytes ''*.png|*.gif'' @ [NUL]) (length (bytes ''*.png|*.gif'')) 0 =
     Some ((0 AND FNM_INVERT \<noteq> 0) \<noteq> (\<exists>a \<in> set (alternatives (bytes ''*.png|*.gif'')). wild (fold_char 0) a (bytes ''a.gif'')))"
proof -
  have h: "BAR \<notin> set (bytes ''a.gif'')" "NUL \<notin> set (bytes ''a.gif'')" by code_simp+
  from dosmatch_with_OR_correct [OF h] h show ?thesis by blast
qed

text \<open>
  The byte after the mask matters. The alternatives are matched in place, so a string with a bar
  is accepted by \<open>u_dosmatch_with_OR\<close> because the separator itself is compared with it.
\<close>

theorem dosmatch_reads_past_mask:
  "u_dosmatch_with_OR (bytes ''a|'') (bytes ''a|b'' @ [NUL]) 3 0 = Some True"
  "\<not> (\<exists>a \<in> set (alternatives (bytes ''a|b'')). wild (fold_char 0) a (bytes ''a|''))"
  by (simp_all add: u_dosmatch_with_OR_def or_loop.simps u_dosmatch_def dos_loop.simps fold_char_def of_char_def)

end
