(* ===== verification/Validate.thy ===== *)
theory Validate
  imports Search
begin

text \<open>
  The syntax checks of \<open>src/ulib/base/utility.c\<close> and \<open>utility.h\<close>: IP addresses, host names, URL
  schemes, URLs, MAC addresses and e-mail addresses. They take a memory and offsets where the code
  looks outside the text given.
\<close>

section \<open>Definitions\<close>

text \<open>\<open>for (; s < end; ++s) if (! P (*s)) return false; return true;\<close>\<close>

function all_between :: "(byte \<Rightarrow> bool) \<Rightarrow> mem \<Rightarrow> nat \<Rightarrow> nat \<Rightarrow> bool option" where
  "all_between P m s e =
     (if s < e then do { c \<leftarrow> rd m s; if \<not> P c then Some False else all_between P m (Suc s) e }
      else Some True)"
  by pat_completeness auto

termination
  by (relation "measure (\<lambda>(P, m, s, e). e - s)") auto

declare all_between.simps [simp del]

definition u_isIPv4Addr :: "mem \<Rightarrow> nat \<Rightarrow> nat \<Rightarrow> bool option" where
  "u_isIPv4Addr m p n = all_between (\<lambda>c. \<not> (\<not> u__isdigit c \<and> c \<noteq> DOT)) m p (p + n)"

definition u_isIPv6Addr :: "mem \<Rightarrow> nat \<Rightarrow> nat \<Rightarrow> bool option" where
  "u_isIPv6Addr m p n = all_between (\<lambda>c. \<not> (\<not> u__isxdigit c \<and> c \<noteq> DOT \<and> c \<noteq> COLON)) m p (p + n)"

definition u_isIPAddr :: "bool \<Rightarrow> mem \<Rightarrow> nat \<Rightarrow> nat \<Rightarrow> bool option" where
  "u_isIPAddr IPv6 m p n = (if IPv6 then u_isIPv6Addr m p n else u_isIPv4Addr m p n)"

text \<open>\<open>len - 1\<close> is unsigned 32-bit arithmetic.\<close>

definition u_isHostName :: "mem \<Rightarrow> nat \<Rightarrow> nat \<Rightarrow> bool option" where
  "u_isHostName m ptr len = do {
     ch \<leftarrow> rd m ptr;
     br \<leftarrow> (if ch = LBRACK then map_option (\<lambda>c. c = RBRACK) (rdi m (int (ptr + len) - 1)) else Some False);
     if br then u_isIPv6Addr m (Suc ptr) (nat ((int len - 1) mod 2 ^ 32))
     else if u__isalpha ch then do {
       l \<leftarrow> rdi m (int (ptr + len) - 1);
       if \<not> u__isalnum l then Some False else all_between u__ishname m (Suc ptr) (ptr + len)
     }
     else all_between (\<lambda>ch. \<not> ((\<not> u__isdigit ch \<and> ch \<noteq> DOT) \<and> (\<not> u__isxdigit ch \<and> ch \<noteq> DOT \<and> ch \<noteq> COLON)))
            m ptr (ptr + len)
   }"

text \<open>The loop over the scheme; \<open>ptr\<close> runs from \<open>url\<close>, offset 0, to the colon.\<close>

function scheme_loop :: "mem \<Rightarrow> nat \<Rightarrow> nat \<Rightarrow> bool option" where
  "scheme_loop m ptr colon =
     (if ptr < colon then do {
        ch \<leftarrow> rd m ptr;
        let special = (ch = PLUS \<or> ch = MINUS \<or> ch = DOT);
        let alphanumeric = (ch > 0 \<and> u__isalnum ch);
        if \<not> alphanumeric \<and> \<not> (ptr \<noteq> 0 \<and> special) then Some False
        else scheme_loop m (Suc ptr) colon
      }
      else Some True)"
  by pat_completeness auto

termination
  by (relation "measure (\<lambda>(m, p, e). e - p)") auto

declare scheme_loop.simps [simp del]

text \<open>The offset after \<open>://\<close>, or the null pointer.\<close>

definition u_isUrlScheme :: "mem \<Rightarrow> nat \<Rightarrow> nat option option" where
  "u_isUrlScheme url len = do {
     q \<leftarrow> mem_chr url 0 len SLASH;
     case q of
       None \<Rightarrow> Some None
     | Some first_slash \<Rightarrow>
         if first_slash = 0 then Some None
         else do {
           b \<leftarrow> rd url (first_slash - 1);
           if b \<noteq> COLON then Some None
           else do {
             a \<leftarrow> rd url (first_slash + 1);
             if a \<noteq> SLASH \<or> first_slash = 1 then Some None
             else map_option (\<lambda>ok. if ok then Some (first_slash - 1 + 3) else None) (scheme_loop url 0 (first_slash - 1))
           }
         }
   }"

text \<open>The end of the host part: the first slash or question mark, or the end of the text.\<close>

function host_end :: "mem \<Rightarrow> nat \<Rightarrow> nat \<Rightarrow> nat option" where
  "host_end m tmp e =
     (if tmp < e then do { ch \<leftarrow> rd m tmp; if ch = SLASH \<or> ch = QUERY then Some tmp else host_end m (Suc tmp) e }
      else Some e)"
  by pat_completeness auto

termination
  by (relation "measure (\<lambda>(m, p, e). e - p)") auto

declare host_end.simps [simp del]

text \<open>
  When the second slash is the byte after the text, \<open>len - (ptr - url)\<close> wraps around and the code
  reads far outside: the model answers \<open>None\<close>.
\<close>

definition u_isURL :: "mem \<Rightarrow> nat \<Rightarrow> bool option" where
  "u_isURL url len = do {
     p \<leftarrow> u_isUrlScheme url len;
     case p of
       None \<Rightarrow> Some False
     | Some ptr \<Rightarrow> if len < ptr then None else do {
         e \<leftarrow> host_end url ptr len;
         case memrchr (take (e - ptr) (drop ptr url)) COLON of
           None \<Rightarrow> u_isHostName url ptr (e - ptr)
         | Some k \<Rightarrow>
             if e - (ptr + k) \<le> 5 then do {
               digits \<leftarrow> all_between u__isdigit url (Suc (ptr + k)) e;
               if digits then u_isHostName url ptr k else Some False
             }
             else u_isHostName url ptr (e - ptr)
       }
   }"

text \<open>The text has exactly \<open>len\<close> characters, so these loops stay inside.\<close>

fun mac_loop :: "nat \<Rightarrow> (byte \<Rightarrow> bool) \<Rightarrow> nat \<Rightarrow> byte list \<Rightarrow> bool" where
  "mac_loop w sep c [] = True"
| "mac_loop w sep c (x # p) =
     (if c mod w = w - 1 then if \<not> sep x then False else mac_loop w sep (Suc c) p
      else if \<not> u__isxdigit x then False else mac_loop w sep (Suc c) p)"

definition u_isMacAddr :: "byte list \<Rightarrow> bool" where
  "u_isMacAddr p =
     (if length p = 3 * 5 - 1 then mac_loop 5 (\<lambda>c. c = DOT) 0 p
      else if length p = 6 * 3 - 1 then mac_loop 3 (\<lambda>c. c = COLON \<or> c = MINUS) 0 p
      else False)"

definition RFC822_SPECIALS :: "byte list" where
  "RFC822_SPECIALS = [40, 41, LESS, GREATER, AT, 44, SEMI, COLON, BSLASH, DQUOTE, LBRACK, RBRACK]"

text \<open>\<open>*c <= ' ' || *c >= 127\<close> is the same for signed and unsigned characters.\<close>

definition not_graphic :: "byte \<Rightarrow> bool" where
  "not_graphic c \<longleftrightarrow> c \<le> SPACE \<or> c \<ge> 127"

text \<open>
  The quoted part, from the character after the opening quote: the memory from \<open>c\<close> and the distance
  \<open>end - c\<close>, 0 once \<open>c\<close> is at or past \<open>end\<close>. \<open>Inl ()\<close> is \<open>return false\<close>.
\<close>

fun email_quoted :: "mem \<Rightarrow> nat \<Rightarrow> (unit + mem \<times> nat) option" where
  "email_quoted m 0 = Some (Inr (m, 0))"
| "email_quoted [] (Suc k) = None"
| "email_quoted (x # m) (Suc k) =
     (if x = DQUOTE then Some (Inr (x # m, Suc k))
      else if x = BSLASH then
        (case m of
           [] \<Rightarrow> None
         | y # m' \<Rightarrow>
             if y = SPACE then email_quoted m' (k - 1)
             else if not_graphic y then Some (Inl ())
             else email_quoted m' (k - 1))
      else if not_graphic x then Some (Inl ())
      else email_quoted m k)"

lemma email_quoted_bound: "email_quoted m k = Some (Inr (m', k')) \<Longrightarrow> k' \<le> k"
  by (induction m k rule: email_quoted.induct) (fastforce split: if_splits list.splits)+

text \<open>
  The name: \<open>first\<close> is \<open>c == address\<close>, \<open>prev\<close> is \<open>*(c - 1)\<close>. It stops at the at sign or at the end.
\<close>

function email_name :: "bool \<Rightarrow> byte \<Rightarrow> mem \<Rightarrow> nat \<Rightarrow> (unit + bool \<times> byte \<times> mem \<times> nat) option" where
  "email_name first prev m 0 = Some (Inr (first, prev, m, 0))"
| "email_name first prev [] (Suc k) = None"
| "email_name first prev (x # m) (Suc k) =
     (if x = DQUOTE \<and> (first \<or> prev = DOT \<or> prev = DQUOTE) then
        (case email_quoted m k of
           None \<Rightarrow> None
         | Some (Inl u) \<Rightarrow> Some (Inl u)
         | Some (Inr (m1, k1)) \<Rightarrow>
             if k1 = 0 then Some (Inl ())
             else do {
               z \<leftarrow> rd m1 1;
               if z = AT then Some (Inr (False, DQUOTE, drop 1 m1, k1 - 1))
               else if z \<noteq> DOT then Some (Inl ())
               else email_name False DOT (drop 2 m1) (k1 - 2)
             })
      else if x = AT then Some (Inr (first, prev, x # m, Suc k))
      else if not_graphic x then Some (Inl ())
      else if strchr RFC822_SPECIALS x then Some (Inl ())
      else email_name False x m k)"
  by pat_completeness auto

termination
  by (relation "measure (\<lambda>(first, prev, m, k). k)") (auto dest!: email_quoted_bound)

text \<open>The domain, a \<open>do\<close> loop: at least one character is left.\<close>

fun email_domain :: "bool \<Rightarrow> byte \<Rightarrow> mem \<Rightarrow> nat \<Rightarrow> nat \<Rightarrow> bool option" where
  "email_domain first prev [] k count = None"
| "email_domain first prev (x # m) k count =
     (if x = DOT \<and> (first \<or> prev = DOT) then Some False
      else if not_graphic x then Some False
      else if strchr RFC822_SPECIALS x then Some False
      else let count' = (if x = DOT then count + 1 else count)
           in if k \<le> 1 then Some (count' \<ge> 1) else email_domain False x m (k - 1) count')"

definition u_validate_email_address :: "mem \<Rightarrow> nat \<Rightarrow> bool option" where
  "u_validate_email_address address address_len =
     (if address_len < 3 then Some False
      else do {
        r \<leftarrow> email_name True NUL address address_len;
        case r of
          Inl u \<Rightarrow> Some False
        | Inr (first, prev, m, k) \<Rightarrow>
            if first \<or> prev = DOT then Some False
            else if k \<le> 1 then Some False
            else email_domain True AT (drop 1 m) (k - 1) 0
      })"

section \<open>Loops over a text\<close>

lemma all_between_eq:
  "e \<le> length m \<Longrightarrow> all_between P m s e = Some (list_all P (take (e - s) (drop s m)))"
proof (induction P m s e rule: all_between.induct)
  case (1 P m s e)
  show ?case
  proof (cases "s < e")
    case True
    then have "take (e - s) (drop s m) = m ! s # take (e - Suc s) (drop (Suc s) m)"
      using 1(2) by (simp add: Cons_nth_drop_Suc [symmetric] take_Cons')
    then show ?thesis
      using 1 True by (subst all_between.simps) (auto simp: rd_def)
  next
    case False
    then show ?thesis by (subst all_between.simps) simp
  qed
qed


lemma host_end_eq:
  "e \<le> length m \<Longrightarrow> s \<le> e \<Longrightarrow>
   host_end m s e = Some (s + length (takeWhile (\<lambda>c. c \<noteq> SLASH \<and> c \<noteq> QUERY) (take (e - s) (drop s m))))"
proof (induction m s e rule: host_end.induct)
  case (1 m s e)
  show ?case
  proof (cases "s < e")
    case True
    then have "take (e - s) (drop s m) = m ! s # take (e - Suc s) (drop (Suc s) m)"
      using 1(2) by (simp add: Cons_nth_drop_Suc [symmetric] take_Cons')
    then show ?thesis
      using 1 True by (subst host_end.simps) (auto simp: rd_def)
  next
    case False
    then show ?thesis using 1 by (subst host_end.simps) simp
  qed
qed

lemma all_between_segment: "all_between P (pre @ xs @ z) (length pre) (length pre + length xs) = Some (list_all P xs)"
  by (simp add: all_between_eq)

lemma rdi_of_nat: "rdi m (int n) = rd m n"
  by (simp add: rdi_def)

section \<open>Schemes\<close>

definition scheme_char :: "byte \<Rightarrow> bool" where
  "scheme_char c \<longleftrightarrow> u__isalnum c \<or> c = PLUS \<or> c = MINUS \<or> c = DOT"

definition scheme_ok :: "byte list \<Rightarrow> bool" where
  "scheme_ok xs \<longleftrightarrow> xs \<noteq> [] \<and> u__isalnum (hd xs) \<and> list_all scheme_char xs"

lemma alnum_pos: "(c > 0 \<and> u__isalnum c) = u__isalnum c"
  by (rule all_byteI) code_simp

lemma scheme_loop_later:
  "e \<le> length m \<Longrightarrow> 0 < s \<Longrightarrow> scheme_loop m s e = Some (list_all scheme_char (take (e - s) (drop s m)))"
proof (induction m s e rule: scheme_loop.induct)
  case (1 m s e)
  show ?case
  proof (cases "s < e")
    case True
    then have "take (e - s) (drop s m) = m ! s # take (e - Suc s) (drop (Suc s) m)"
      using 1(2) by (simp add: Cons_nth_drop_Suc [symmetric] take_Cons')
    then show ?thesis
      using 1 True scheme_char_def [of "m ! s"] by (subst scheme_loop.simps) (auto simp: rd_def alnum_pos)
  next
    case False
    then show ?thesis by (subst scheme_loop.simps) simp
  qed
qed

lemma scheme_loop_ok:
  assumes "0 < e" "e \<le> length m"
  shows "scheme_loop m 0 e = Some (scheme_ok (take e m))"
proof -
  obtain x xs where m: "m = x # xs" using assms by (cases m) auto
  have "take e m = x # take (e - 1) xs" using assms m by (cases e) auto
  then show ?thesis
    using assms m scheme_loop_later [of e m 1] scheme_char_def [of x]
    by (subst scheme_loop.simps) (auto simp: alnum_pos scheme_ok_def)
qed

lemma scheme_no_slash: "scheme_ok xs \<Longrightarrow> SLASH \<notin> set xs \<and> COLON \<notin> set xs"
proof -
  have "scheme_char c \<longrightarrow> c \<noteq> SLASH \<and> c \<noteq> COLON" for c by (rule all_byteI) code_simp
  then show "scheme_ok xs \<Longrightarrow> SLASH \<notin> set xs \<and> COLON \<notin> set xs"
    by (auto simp: scheme_ok_def list_all_iff)
qed

text \<open>A text that begins with a scheme is recognised, with the offset after \<open>://\<close>.\<close>

lemma isUrlScheme_accepts:
  assumes "scheme_ok sc"
  shows "u_isUrlScheme ((sc @ [COLON, SLASH, SLASH] @ r) @ z) (length sc + 3 + length r) = Some (Some (length sc + 3))"
proof -
  let ?m = "(sc @ [COLON, SLASH, SLASH] @ r) @ z"
  have "SLASH \<notin> set (sc @ [COLON])" using scheme_no_slash [OF assms] by simp
  then have "memchr (sc @ [COLON]) SLASH = None" by (simp add: memchr_None)
  then have "memchr ((sc @ [COLON]) @ SLASH # SLASH # r) SLASH = Some (Suc (length sc))"
    unfolding memchr_append by simp
  moreover have "take (length sc + 3 + length r) ?m = sc @ [COLON, SLASH, SLASH] @ r"
    by (simp add: eval_nat_numeral)
  ultimately have "mem_chr ?m 0 (length sc + 3 + length r) SLASH = Some (Some (Suc (length sc)))"
    by (simp add: mem_chr_def)
  moreover have "rd ?m (length sc) = Some COLON" "rd ?m (Suc (Suc (length sc))) = Some SLASH"
    by (simp_all add: rd_def nth_append)
  moreover have "scheme_loop ?m 0 (length sc) = Some True"
    using scheme_loop_ok [of "length sc" ?m] assms by (auto simp: scheme_ok_def)
  ultimately show ?thesis
    using assms by (simp add: u_isUrlScheme_def scheme_ok_def)
qed

lemma isUrlScheme_sound:
  assumes "u_isUrlScheme (u @ [NUL]) (length u) = Some (Some q)"
  shows "\<exists>sc r. u = sc @ [COLON, SLASH, SLASH] @ r \<and> scheme_ok sc \<and> q = length sc + 3"
proof -
  obtain k where k: "memchr u SLASH = Some k" "k \<noteq> 0" "rd (u @ [NUL]) (k - 1) = Some COLON"
    "rd (u @ [NUL]) (Suc k) = Some SLASH" "k \<noteq> 1" "scheme_loop (u @ [NUL]) 0 (k - 1) = Some True" "q = k + 2"
    using assms
    by (auto simp: u_isUrlScheme_def mem_chr_def bind_eq_Some_conv split: option.splits if_splits)
  have lt: "k < length u" "u ! k = SLASH" using k(1) by (auto simp: memchr_Some)
  have slash2: "Suc k < length u" "u ! Suc k = SLASH"
    using k(4) lt(1) by (auto simp: rd_terminated split: if_splits)
  have colon: "u ! (k - 1) = COLON" using k(3) lt(1) by (auto simp: rd_terminated split: if_splits)
  obtain j where j: "k = Suc j" "0 < j" using k(2, 5) by (cases k) auto
  have "u = take j u @ u ! j # u ! Suc j # u ! Suc (Suc j) # drop (Suc (Suc (Suc j))) u"
    using slash2(1) j by (simp add: Cons_nth_drop_Suc Suc_lessD)
  then have "u = take j u @ [COLON, SLASH, SLASH] @ drop (Suc (Suc (Suc j))) u"
    using colon lt(2) slash2(2) j by simp
  moreover have "scheme_ok (take j u)"
    using k(6) scheme_loop_ok [of j "u @ [NUL]"] j lt(1) by simp
  moreover have "q = length (take j u) + 3" using k(7) j lt(1) by simp
  ultimately show ?thesis by blast
qed

section \<open>Host names\<close>

definition host_ok :: "byte list \<Rightarrow> bool" where
  "host_ok h \<longleftrightarrow>
     (if u__isalpha (hd h) then u__isalnum (last h) \<and> list_all u__ishname (tl h)
      else list_all (\<lambda>c. u__isxdigit c \<or> c = DOT \<or> c = COLON) h)"

lemma digit_xdigit: "u__isdigit c \<longrightarrow> u__isxdigit c"
  by (rule all_byteI) code_simp

lemma isHostName_ok:
  assumes "h \<noteq> []" "hd h \<noteq> LBRACK" "length h < 2 ^ 32"
  shows "u_isHostName (pre @ h @ z) (length pre) (length h) = Some (host_ok h)"
proof -
  obtain x xs where h: "h = x # xs" using assms(1) by (cases h) auto
  have l: "rdi (pre @ h @ z) (int (length pre + length h) - 1) = Some (last h)"
  proof -
    have e: "int (length pre + length h) - 1 = int (length pre + length xs)" using h by simp
    have "last h = h ! length xs" using h by (simp add: last_conv_nth)
    then show ?thesis unfolding e rdi_of_nat using nth_append [of "x # xs" z "length xs"] by (simp add: rd_def nth_append [of pre] h)
  qed
  have x: "rd (pre @ h @ z) (length pre) = Some x" using h by simp
  have t: "take (length xs) (drop (Suc (length pre)) (pre @ h @ z)) = xs" using h by simp
  have P: "(\<not> ((\<not> u__isdigit c \<and> c \<noteq> DOT) \<and> (\<not> u__isxdigit c \<and> c \<noteq> DOT \<and> c \<noteq> COLON))) = (u__isxdigit c \<or> c = DOT \<or> c = COLON)" for c
    using digit_xdigit by blast
  show ?thesis
    using x l t assms(2) h unfolding u_isHostName_def P
    by (simp add: all_between_eq host_ok_def)
qed

lemma isHostName_bracket:
  assumes "length h + 2 < 2 ^ 32"
  shows "u_isHostName ((LBRACK # h @ [RBRACK]) @ z) 0 (length h + 2) = Some False"
proof -
  have e: "int (0 + (length h + 2)) - 1 = int (Suc (length h))" by simp
  have "rdi ((LBRACK # h @ [RBRACK]) @ z) (int (0 + (length h + 2)) - 1) = Some RBRACK"
    unfolding e rdi_of_nat by (simp add: rd_def nth_append)
  moreover have "nat ((int (length h + 2) - 1) mod 2 ^ 32) = Suc (length h)"
    using assms by simp
  ultimately show ?thesis
    by (simp add: u_isHostName_def u_isIPv6Addr_def all_between_eq char_class nat_add_distrib)
qed

section \<open>URLs\<close>

text \<open>A port of at most four digits, with its colon.\<close>

definition port_ok :: "byte list \<Rightarrow> bool" where
  "port_ok p \<longleftrightarrow> p = [] \<or> (\<exists>ds. p = COLON # ds \<and> length ds \<le> 4 \<and> list_all u__isdigit ds)"

definition url_rest :: "byte list \<Rightarrow> bool" where
  "url_rest r \<longleftrightarrow> r = [] \<or> hd r = SLASH \<or> hd r = QUERY"

lemma memrchr_append_notin: "c \<notin> set ys \<Longrightarrow> memrchr (xs @ c # ys) c = Some (length xs)"
  by (simp add: memrchr_Some nth_append)

lemma takeWhile_stop:
  "\<forall>x \<in> set xs. P x \<Longrightarrow> r = [] \<or> \<not> P (hd r) \<Longrightarrow> takeWhile P (xs @ r) = xs"
proof (induction xs)
  case Nil
  then show ?case by (cases r) auto
qed simp

lemma port_chars: "port_ok p \<Longrightarrow> SLASH \<notin> set p \<and> QUERY \<notin> set p"
proof -
  have "\<not> u__isdigit SLASH" "\<not> u__isdigit QUERY" by (simp_all add: char_class)
  then show "port_ok p \<Longrightarrow> SLASH \<notin> set p \<and> QUERY \<notin> set p"
    unfolding port_ok_def list_all_iff by fastforce
qed

lemma isURL_host:
  assumes "scheme_ok sc" "host \<noteq> []" "hd host \<noteq> LBRACK" "length host < 2 ^ 32"
    and "SLASH \<notin> set host" "QUERY \<notin> set host" "COLON \<notin> set host" "port_ok port" "url_rest r"
  shows "u_isURL (sc @ [COLON, SLASH, SLASH] @ host @ port @ r) (length sc + 3 + length (host @ port @ r)) =
    Some (host_ok host)"
proof -
  let ?pre = "sc @ [COLON, SLASH, SLASH]"
  let ?m = "?pre @ host @ port @ r" and ?q = "length sc + 3" and ?n = "length sc + 3 + length (host @ port @ r)"
  have sch: "u_isUrlScheme ?m ?n = Some (Some ?q)"
    using isUrlScheme_accepts [OF assms(1), of "host @ port @ r" "[]"] by simp
  have q: "?q = length ?pre" by simp
  have hp: "SLASH \<notin> set (host @ port)" "QUERY \<notin> set (host @ port)"
    using assms(5, 6) port_chars [OF assms(8)] by auto
  have "takeWhile (\<lambda>c. c \<noteq> SLASH \<and> c \<noteq> QUERY) ((host @ port) @ r) = host @ port"
    using hp assms(9) by (intro takeWhile_stop) (auto simp: url_rest_def)
  then have e: "host_end ?m ?q ?n = Some (?q + length (host @ port))"
    using host_end_eq [of ?n ?m ?q] unfolding q by simp
  have seg: "take (length (host @ port)) (drop ?q ?m) = host @ port" unfolding q by simp
  have host: "u_isHostName ?m ?q (length host) = Some (host_ok host)"
    using isHostName_ok [OF assms(2-4), of ?pre "port @ r"] unfolding q by simp
  show ?thesis
  proof (cases port)
    case Nil
    then have "memrchr (host @ port) COLON = None" using assms(7) by (simp add: memrchr_None)
    then show ?thesis
      using sch e seg host Nil by (simp add: u_isURL_def)
  next
    case (Cons c ds)
    then have ds: "c = COLON" "length ds \<le> 4" "list_all u__isdigit ds" using assms(8) by (auto simp: port_ok_def)
    have "COLON \<notin> set ds" using ds(3) by (auto simp: list_all_iff char_class)
    then have "memrchr (host @ port) COLON = Some (length host)" using memrchr_append_notin ds(1) Cons by simp
    moreover have "all_between u__isdigit ?m (Suc (?q + length host)) (?q + length (host @ port)) = Some True"
      using all_between_segment [of u__isdigit "?pre @ host @ [COLON]" ds r] ds Cons by (simp add: eval_nat_numeral add.assoc)
    ultimately show ?thesis
      using sch e seg host Cons ds by (simp add: u_isURL_def)
  qed
qed

section \<open>E-mail addresses without quotes\<close>

definition email_char :: "byte \<Rightarrow> bool" where
  "email_char c \<longleftrightarrow> \<not> not_graphic c \<and> c \<notin> set RFC822_SPECIALS"

lemma email_char_simps: "\<not> email_char AT" "\<not> email_char DQUOTE" "email_char DOT" "\<not> email_char NUL"
  by (simp_all add: email_char_def RFC822_SPECIALS_def not_graphic_def)

lemma email_char_code:
  "not_graphic c \<or> strchr RFC822_SPECIALS c \<longleftrightarrow> \<not> email_char c"
  by (auto simp: email_char_def strchr_def not_graphic_def)

text \<open>The name runs over address characters to the at sign, the end or a bad character.\<close>

lemma email_name_plain:
  assumes "list_all email_char xs" "k = length xs + n" "xs = [] \<or> k \<noteq> 0"
  shows "email_name first prev (xs @ m) k = email_name (first \<and> xs = []) (if xs = [] then prev else last xs) m n"
  using assms
proof (induction xs arbitrary: first prev k)
  case (Cons x xs)
  then have x: "x \<noteq> DQUOTE" "x \<noteq> AT" "\<not> not_graphic x" "\<not> strchr RFC822_SPECIALS x"
    using email_char_simps email_char_code [of x] by auto
  obtain k' where k: "k = Suc k'" "k' = length xs + n" using Cons.prems(2) by simp
  then show ?case
    using Cons.IH [of k' False x] Cons.prems(1) x by (cases k') auto
qed simp

definition domain_ok :: "bool \<Rightarrow> byte \<Rightarrow> byte list \<Rightarrow> bool" where
  "domain_ok first prev d \<longleftrightarrow>
     list_all email_char d \<and> (first \<or> prev = DOT \<longrightarrow> d = [] \<or> hd d \<noteq> DOT) \<and>
     (\<forall>i. Suc i < length d \<longrightarrow> \<not> (d ! i = DOT \<and> d ! Suc i = DOT))"

lemma domain_ok_Cons:
  "domain_ok first prev (x # d) \<longleftrightarrow> email_char x \<and> \<not> (x = DOT \<and> (first \<or> prev = DOT)) \<and> domain_ok False x d"
proof -
  have "(\<forall>i. Suc i < length (x # d) \<longrightarrow> \<not> ((x # d) ! i = DOT \<and> (x # d) ! Suc i = DOT)) \<longleftrightarrow>
    (x = DOT \<longrightarrow> d = [] \<or> hd d \<noteq> DOT) \<and> (\<forall>i. Suc i < length d \<longrightarrow> \<not> (d ! i = DOT \<and> d ! Suc i = DOT))"
    by (cases d) (auto simp: nth_Cons' split: if_splits, (metis Suc_pred gr0I)?)
  then show ?thesis by (auto simp: domain_ok_def)
qed

lemma email_domain_ok:
  assumes "d \<noteq> []"
  shows "email_domain first prev (d @ z) (length d) count =
    Some (domain_ok first prev d \<and> count + count_list d DOT \<ge> 1)"
  using assms
proof (induction d arbitrary: first prev count)
  case (Cons x d)
  show ?case
  proof (cases "email_char x \<and> \<not> (x = DOT \<and> (first \<or> prev = DOT))")
    case True
    then have x: "\<not> not_graphic x" "\<not> strchr RFC822_SPECIALS x" using email_char_code [of x] by auto
    let ?count = "if x = DOT then count + 1 else count"
    have "email_domain first prev ((x # d) @ z) (length (x # d)) count =
      (if d = [] then Some (?count \<ge> 1) else email_domain False x (d @ z) (length d) ?count)"
      using True x by (auto simp: Let_def)
    then show ?thesis
      using True Cons.IH [of False x ?count] by (cases "d = []") (auto simp: domain_ok_Cons domain_ok_def [of _ _ "[]"])
  next
    case False
    then have "x = DOT \<and> (first \<or> prev = DOT) \<or> not_graphic x \<or> strchr RFC822_SPECIALS x"
      using email_char_code [of x] by blast
    then have "email_domain first prev ((x # d) @ z) (length (x # d)) count = Some False" by auto
    moreover have "\<not> domain_ok first prev (x # d)" using False unfolding domain_ok_Cons by blast
    ultimately show ?thesis by simp
  qed
qed simp

lemma email_name_stop:
  assumes "list_all email_char xs" "y \<notin> {AT, DQUOTE}" "\<not> email_char y"
  shows "email_name first prev (xs @ y # m) (length xs + Suc n) = Some (Inl ())"
  using email_name_plain [OF assms(1), of "length xs + Suc n" "Suc n"] email_char_code [of y] assms(2, 3)
  by auto

lemma email_name_at:
  assumes "list_all email_char xs"
  shows "email_name True NUL (xs @ AT # m) (length xs + Suc n) =
    Some (Inr (xs = [], if xs = [] then NUL else last xs, AT # m, Suc n))"
  using email_name_plain [OF assms, of "length xs + Suc n" "Suc n"] by auto

lemma email_name_end:
  assumes "list_all email_char xs"
  shows "email_name True NUL (xs @ m) (length xs) = Some (Inr (xs = [], if xs = [] then NUL else last xs, m, 0))"
  using email_name_plain [OF assms, of "length xs" 0] by auto

definition email_spec :: "byte list \<Rightarrow> byte list \<Rightarrow> bool" where
  "email_spec name dm \<longleftrightarrow>
     name \<noteq> [] \<and> last name \<noteq> DOT \<and> list_all email_char name \<and>
     dm \<noteq> [] \<and> DOT \<in> set dm \<and> domain_ok True AT dm"

lemma email_at:
  assumes "list_all email_char name"
  shows "u_validate_email_address (name @ AT # dm @ z) (length name + Suc (length dm)) =
    Some (email_spec name dm \<and> 3 \<le> length name + Suc (length dm))"
proof (cases "3 \<le> length name + Suc (length dm)")
  case True
  have c: "1 \<le> count_list dm DOT \<longleftrightarrow> DOT \<in> set dm"
    using count_list_0_iff [of dm DOT] by (cases "count_list dm DOT") auto
  show ?thesis
    using True email_name_at [OF assms, of "dm @ z" "length dm"] assms email_domain_ok [of dm True AT z 0] c
    by (cases "dm = []"; cases "name = []") (auto simp: u_validate_email_address_def email_spec_def)
qed (simp add: u_validate_email_address_def)

lemma first_bad: "list_all email_char xs \<Longrightarrow> \<not> email_char y \<Longrightarrow> takeWhile email_char (xs @ y # r) = xs"
  by (rule takeWhile_stop) (auto simp: list_all_iff)

lemma split_name:
  obtains (at) name dm where "addr = name @ AT # dm" "list_all email_char name"
  | (stop) name y r where "addr = name @ y # r" "list_all email_char name" "y \<noteq> AT" "\<not> email_char y"
  | (plain) "list_all email_char addr"
proof (cases "dropWhile email_char addr")
  case Nil
  then show ?thesis using that(3) by (simp add: dropWhile_eq_Nil_conv list_all_iff)
next
  case (Cons y r)
  then have a: "addr = takeWhile email_char addr @ y # r" by (metis takeWhile_dropWhile_id)
  have t: "list_all email_char (takeWhile email_char addr)" by (auto simp: list_all_iff dest: set_takeWhileD)
  have y: "\<not> email_char y" using Cons by (metis dropWhile_eq_Cons_conv)
  show ?thesis
  proof (cases "y = AT")
    case True
    with a t show ?thesis by (intro that(1)) auto
  next
    case False
    with a t y show ?thesis by (intro that(2))
  qed
qed

lemma email_unquoted:
  assumes "DQUOTE \<notin> set addr"
  shows "u_validate_email_address (addr @ z) (length addr) =
    Some (3 \<le> length addr \<and> (\<exists>name dm. addr = name @ AT # dm \<and> email_spec name dm))"
proof (cases addr rule: split_name)
  case (at name dm)
  have "name' = name \<and> dm' = dm" if "addr = name' @ AT # dm'" "list_all email_char name'" for name' dm'
  proof -
    have "name' = name"
      using first_bad [OF that(2) email_char_simps(1)] first_bad [OF at(2) email_char_simps(1)] that(1) at(1) by metis
    then show ?thesis using that(1) at(1) by simp
  qed
  then have "(\<exists>n d. addr = n @ AT # d \<and> email_spec n d) \<longleftrightarrow> email_spec name dm"
    using at by (auto simp: email_spec_def)
  then show ?thesis
    using email_at [OF at(2), of dm z] at(1) by auto
next
  case (stop name y r)
  have "\<not> (\<exists>n d. addr = n @ AT # d \<and> email_spec n d)"
  proof
    assume "\<exists>n d. addr = n @ AT # d \<and> email_spec n d"
    then obtain n d where n: "addr = n @ AT # d" "list_all email_char n" by (auto simp: email_spec_def)
    then have "n = name" using first_bad [OF stop(2, 4)] first_bad [OF n(2) email_char_simps(1)] stop(1) by metis
    then show False using n(1) stop(1, 3) by simp
  qed
  then show ?thesis
    using email_name_stop [OF stop(2), of y True NUL "r @ z" "length r"] stop assms
    by (auto simp: u_validate_email_address_def)
next
  case plain
  have "AT \<notin> set addr" using plain email_char_simps(1) by (auto simp: list_all_iff)
  then show ?thesis
    using email_name_end [OF plain, of z] by (auto simp: u_validate_email_address_def)
qed

section \<open>Properties\<close>

text \<open>
  \<open>u_isUrlScheme\<close> accepts a terminated text exactly when it begins with a scheme (letters and
  digits, then also plus, minus and dot) followed by \<open>://\<close>, and answers the offset of what follows.
\<close>

theorem isUrlScheme_correct:
  "u_isUrlScheme (u @ [NUL]) (length u) = Some (Some q) \<longleftrightarrow>
   (\<exists>sc r. u = sc @ [COLON, SLASH, SLASH] @ r \<and> scheme_ok sc \<and> q = length sc + 3)"
proof
  assume "\<exists>sc r. u = sc @ [COLON, SLASH, SLASH] @ r \<and> scheme_ok sc \<and> q = length sc + 3"
  then obtain sc r where "u = sc @ [COLON, SLASH, SLASH] @ r" "scheme_ok sc" "q = length sc + 3" by blast
  then show "u_isUrlScheme (u @ [NUL]) (length u) = Some (Some q)"
    using isUrlScheme_accepts [of sc r "[NUL]"] by (simp add: eval_nat_numeral)
qed (rule isUrlScheme_sound)

text \<open>
  A URL made of a scheme, a host without bracket or colon, a port of at most four digits and a
  path or query is accepted exactly when the host name is: first character alphabetic, last
  alphanumeric and host characters between, or all characters those of an address.
\<close>

theorem isURL_correct:
  assumes "scheme_ok sc" "host \<noteq> []" "hd host \<noteq> LBRACK" "length host < 2 ^ 32"
    and "SLASH \<notin> set host" "QUERY \<notin> set host" "COLON \<notin> set host" "port_ok port" "url_rest r"
  shows "u_isURL (sc @ [COLON, SLASH, SLASH] @ host @ port @ r) (length sc + 3 + length (host @ port @ r)) =
    Some (host_ok host)"
  using isURL_host [OF assms] .

theorem isURL_correct_witness:
  "(scheme_ok (bytes ''http'') \<and> bytes ''www.a.it'' \<noteq> [] \<and> port_ok (bytes '':8080'') \<and> url_rest (bytes ''/x'')) \<and>
   u_isURL (bytes ''http'' @ [COLON, SLASH, SLASH] @ bytes ''www.a.it'' @ bytes '':8080'' @ bytes ''/x'')
     (length (bytes ''http'') + 3 + length (bytes ''www.a.it'' @ bytes '':8080'' @ bytes ''/x'')) =
   Some (host_ok (bytes ''www.a.it''))"
proof -
  have h: "scheme_ok (bytes ''http'')" "bytes ''www.a.it'' \<noteq> []" "hd (bytes ''www.a.it'') \<noteq> LBRACK"
    "length (bytes ''www.a.it'') < 2 ^ 32" "SLASH \<notin> set (bytes ''www.a.it'')" "QUERY \<notin> set (bytes ''www.a.it'')"
    "COLON \<notin> set (bytes ''www.a.it'')" "url_rest (bytes ''/x'')"
    by (code_simp, code_simp, code_simp, simp, code_simp, code_simp, code_simp, code_simp)
  have p: "port_ok (bytes '':8080'')" by (simp add: port_ok_def of_char_def char_class)
  from isURL_correct [OF h(1-7) p h(8)] h p show ?thesis by blast
qed

text \<open>
  An e-mail address without quotes is accepted exactly when it is a name, an at sign and a
  domain: address characters only, the name not empty and not ending in a dot, the domain with a
  dot, not beginning with one, and without two dots in a row.
\<close>

theorem validate_email_correct:
  assumes "DQUOTE \<notin> set addr"
  shows "u_validate_email_address (addr @ z) (length addr) =
    Some (3 \<le> length addr \<and> (\<exists>name dm. addr = name @ AT # dm \<and> email_spec name dm))"
  using email_unquoted [OF assms] .

theorem validate_email_correct_witness:
  "DQUOTE \<notin> set (bytes ''a.b@c.it'') \<and>
   u_validate_email_address (bytes ''a.b@c.it'' @ [NUL]) (length (bytes ''a.b@c.it'')) =
    Some (3 \<le> length (bytes ''a.b@c.it'') \<and> (\<exists>name dm. bytes ''a.b@c.it'' = name @ AT # dm \<and> email_spec name dm))"
proof -
  have h: "DQUOTE \<notin> set (bytes ''a.b@c.it'')" by code_simp
  from validate_email_correct [OF h] h show ?thesis by blast
qed

text \<open>
  A bracketed host is never accepted, because the closing bracket is handed to the IPv6 check
  too; and a port of five digits is not recognised as one, so the URL is rejected.
\<close>

theorem host_defects:
  assumes "length h + 2 < 2 ^ 32"
  shows "u_isHostName ((LBRACK # h @ [RBRACK]) @ z) 0 (length h + 2) = Some False"
    "u_isURL (bytes ''http://a:8080/'' @ [NUL]) 14 = Some True"
    "u_isURL (bytes ''http://a:65535/'' @ [NUL]) 15 = Some False"
  using isHostName_bracket [OF assms] by (simp, code_simp, code_simp)

theorem host_defects_witness:
  "length (bytes ''::1'') + 2 < 2 ^ 32 \<and>
   u_isHostName ((LBRACK # bytes ''::1'' @ [RBRACK]) @ [NUL]) 0 (length (bytes ''::1'') + 2) = Some False"
proof -
  have h: "length (bytes ''::1'') + 2 < 2 ^ 32" by simp
  from host_defects(1) [OF h] h show ?thesis by blast
qed

end
