(* ===== verification/Natcmp.thy ===== *)
theory Natcmp
  imports Ctype
begin

text \<open>
  Natural order comparison, \<open>u_strnatcmp\<close> of \<open>src/ulib/base/utility.c\<close>. The two strings are memories
  read from their current positions; reading past the memory answers \<open>None\<close>. Characters are compared
  as signed \<open>char\<close>.
\<close>

section \<open>Definitions\<close>

text \<open>\<open>while (u__isspace (ca) || ca == '0') ca = a[++ai];\<close>\<close>

fun nat_skip :: "mem \<Rightarrow> mem option" where
  "nat_skip [] = None"
| "nat_skip (c # a) = (if u__isspace c \<or> c = DIGIT0 then nat_skip a else Some (c # a))"

definition char_less :: "byte \<Rightarrow> byte \<Rightarrow> bool" where
  "char_less x y \<longleftrightarrow> sint x < sint y"

text \<open>The run of digits: \<open>Inl\<close> is a \<open>return\<close>, \<open>Inr\<close> the bias and the positions at \<open>done_number\<close>.\<close>

fun nat_digits :: "mem \<Rightarrow> mem \<Rightarrow> int \<Rightarrow> (int + int \<times> mem \<times> mem) option" where
  "nat_digits (ca # a) (cb # b) bias =
     (if \<not> u__isdigit ca \<and> \<not> u__isdigit cb then Some (Inr (bias, ca # a, cb # b))
      else if \<not> u__isdigit ca then Some (Inl (-1))
      else if \<not> u__isdigit cb then Some (Inl 1)
      else if char_less ca cb then nat_digits a b (if bias = 0 then -1 else bias)
      else if char_less cb ca then nat_digits a b (if bias = 0 then 1 else bias)
      else if ca = NUL \<and> cb = NUL then Some (Inl bias)
      else nat_digits a b bias)"
| "nat_digits a b bias = None"

text \<open>From \<open>done_number\<close> on: \<open>Inr\<close> is the next pass of the loop.\<close>

definition nat_char :: "mem \<Rightarrow> mem \<Rightarrow> (int + mem \<times> mem) option" where
  "nat_char a b = do {
     ca \<leftarrow> rd a 0;
     cb \<leftarrow> rd b 0;
     if ca = NUL \<and> cb = NUL then Some (Inl 0)
     else if char_less ca cb then Some (Inl (-1))
     else if char_less cb ca then Some (Inl 1)
     else Some (Inr (drop 1 a, drop 1 b))
   }"

text \<open>One pass of the outer loop.\<close>

definition nat_pass :: "mem \<Rightarrow> mem \<Rightarrow> (int + mem \<times> mem) option" where
  "nat_pass a0 b0 = do {
     a \<leftarrow> nat_skip a0;
     b \<leftarrow> nat_skip b0;
     ca \<leftarrow> rd a 0;
     cb \<leftarrow> rd b 0;
     if u__isdigit ca \<and> u__isdigit cb then do {
       r \<leftarrow> nat_digits a b 0;
       case r of
         Inl v \<Rightarrow> Some (Inl v)
       | Inr (bias, a', b') \<Rightarrow> if bias \<noteq> 0 then Some (Inl bias) else nat_char a' b'
     }
     else nat_char a b
   }"

lemma nat_skip_length: "nat_skip a = Some a' \<Longrightarrow> length a' \<le> length a"
  by (induction a) (auto split: if_splits)

lemma nat_digits_length: "nat_digits a b bias = Some (Inr (v, a', b')) \<Longrightarrow> length a' \<le> length a"
proof (induction a b bias rule: nat_digits.induct)
  case (1 ca a cb b bias)
  from 1(4) show ?case
    using 1(1-3) by (auto split: if_splits intro: le_SucI)
qed simp_all

lemma nat_char_length: "nat_char a b = Some (Inr (a', b')) \<Longrightarrow> length a' < length a"
  by (cases a) (auto simp: nat_char_def bind_eq_Some_conv split: if_splits)

lemma nat_pass_length: "nat_pass a b = Some (Inr (a', b')) \<Longrightarrow> length a' < length a"
proof -
  assume p: "nat_pass a b = Some (Inr (a', b'))"
  then obtain x y ca cb where x: "nat_skip a = Some x" "nat_skip b = Some y" "rd x 0 = Some ca" "rd y 0 = Some cb"
    by (auto simp: nat_pass_def bind_eq_Some_conv)
  show ?thesis
  proof (cases "u__isdigit ca \<and> u__isdigit cb")
    case True
    with p x obtain r where r: "nat_digits x y 0 = Some r"
      "(case r of Inl v \<Rightarrow> Some (Inl v) | Inr (bias, a', b') \<Rightarrow> if bias \<noteq> 0 then Some (Inl bias) else nat_char a' b') =
         Some (Inr (a', b'))"
      by (auto simp: nat_pass_def bind_eq_Some_conv)
    from r(2) obtain v u w where "r = Inr (v, u, w)" "nat_char u w = Some (Inr (a', b'))"
      by (cases r) (auto split: if_splits)
    then show ?thesis
      using r(1) nat_digits_length [of x y 0 v u w] nat_char_length [of u w a' b'] nat_skip_length [OF x(1)] by simp
  next
    case False
    with p x have "nat_char x y = Some (Inr (a', b'))" by (simp add: nat_pass_def)
    then show ?thesis using nat_char_length [of x y a' b'] nat_skip_length [OF x(1)] by simp
  qed
qed

function u_strnatcmp :: "mem \<Rightarrow> mem \<Rightarrow> int option" where
  "u_strnatcmp a b =
     (case nat_pass a b of
        None \<Rightarrow> None
      | Some (Inl v) \<Rightarrow> Some v
      | Some (Inr (a', b')) \<Rightarrow> u_strnatcmp a' b')"
  by pat_completeness auto

termination
  by (relation "measure (\<lambda>(a, b). length a)") (auto dest: nat_pass_length)

declare u_strnatcmp.simps [simp del]

section \<open>Antisymmetry\<close>

definition swap_result :: "int + mem \<times> mem \<Rightarrow> int + mem \<times> mem" where
  "swap_result r = (case r of Inl v \<Rightarrow> Inl (- v) | Inr (a, b) \<Rightarrow> Inr (b, a))"

lemma nat_char_swap: "nat_char b a = map_option swap_result (nat_char a b)"
  by (cases a; cases b) (auto simp: nat_char_def swap_result_def char_less_def)

lemma nat_digits_swap:
  "nat_digits b a (- bias) =
   map_option (\<lambda>r. case r of Inl v \<Rightarrow> Inl (- v) | Inr (v, x, y) \<Rightarrow> Inr (- v, y, x)) (nat_digits a b bias)"
proof (induction a b bias rule: nat_digits.induct)
  case (1 ca a cb b bias)
  have nd: "u__isdigit c \<Longrightarrow> c \<noteq> NUL" for c by (auto simp: char_class)
  show ?case
    using 1 nd by (auto simp: char_less_def)
qed simp_all

lemma nat_pass_swap: "nat_pass b a = map_option swap_result (nat_pass a b)"
proof (cases "nat_skip a = None \<or> nat_skip b = None")
  case True
  then show ?thesis by (cases "nat_skip a"; cases "nat_skip b") (simp_all add: nat_pass_def)
next
  case False
  then obtain x y where x: "nat_skip a = Some x" "nat_skip b = Some y" by auto
  show ?thesis
  proof (cases "x = [] \<or> y = []")
    case True
    then show ?thesis using x by (cases x; cases y) (simp_all add: nat_pass_def)
  next
    case False
    then obtain ca cb where c: "rd x 0 = Some ca" "rd y 0 = Some cb" by (cases x; cases y) auto
    show ?thesis
    proof (cases "u__isdigit ca \<and> u__isdigit cb")
      case True
      show ?thesis
      proof (cases "nat_digits x y 0")
        case None
        then show ?thesis using True x c nat_digits_swap [of y x 0] by (simp add: nat_pass_def)
      next
        case (Some r)
        show ?thesis
        proof (cases r)
          case (Inl v)
          then show ?thesis
            using Some True x c nat_digits_swap [of y x 0] by (simp add: nat_pass_def swap_result_def)
        next
          case (Inr q)
          obtain v u w where "q = (v, u, w)" by (cases q)
          then show ?thesis
            using Some Inr True x c nat_digits_swap [of y x 0] nat_char_swap [of w u]
            by (simp add: nat_pass_def swap_result_def)
        qed
      qed
    next
      case False
      then show ?thesis using x c nat_char_swap [of y x] by (auto simp: nat_pass_def)
    qed
  qed
qed

lemma strnatcmp_swap: "u_strnatcmp b a = map_option uminus (u_strnatcmp a b)"
proof (induction a b rule: u_strnatcmp.induct)
  case (1 a b)
  show ?case
  proof (cases "nat_pass a b")
    case None
    then show ?thesis using nat_pass_swap [of b a] by (simp add: u_strnatcmp.simps [of a b] u_strnatcmp.simps [of b a])
  next
    case (Some r)
    then show ?thesis
      using 1 nat_pass_swap [of b a]
      by (cases r) (auto simp: u_strnatcmp.simps [of a b] u_strnatcmp.simps [of b a] swap_result_def)
  qed
qed

section \<open>Terminated strings\<close>

text \<open>A string and its terminator: everything is read inside, and the comparison returns.\<close>

definition cstring :: "mem \<Rightarrow> bool" where
  "cstring m \<longleftrightarrow> (\<exists>s. m = s @ [NUL] \<and> NUL \<notin> set s)"

lemma cstring_Cons: "cstring (c # m) \<longleftrightarrow> (if m = [] then c = NUL else c \<noteq> NUL \<and> cstring m)"
proof (cases m)
  case (Cons x xs)
  show ?thesis
  proof
    assume "cstring (c # m)"
    then obtain s where "c # m = s @ [NUL]" "NUL \<notin> set s" by (auto simp: cstring_def)
    then show "if m = [] then c = NUL else c \<noteq> NUL \<and> cstring m"
      using Cons by (cases s) (auto simp: cstring_def)
  next
    assume "if m = [] then c = NUL else c \<noteq> NUL \<and> cstring m"
    then obtain s where "c \<noteq> NUL" "m = s @ [NUL]" "NUL \<notin> set s" using Cons by (auto simp: cstring_def)
    then show "cstring (c # m)" unfolding cstring_def by (intro exI [of _ "c # s"]) auto
  qed
qed (auto simp: cstring_def)

lemma nat_skip_cstring: "cstring a \<Longrightarrow> \<exists>a'. nat_skip a = Some a' \<and> cstring a'"
proof (induction a)
  case Nil
  then show ?case by (simp add: cstring_def)
next
  case (Cons c a)
  then show ?case by (auto simp: cstring_Cons char_class split: if_splits)
qed

lemma nat_digits_cstring:
  "cstring a \<Longrightarrow> cstring b \<Longrightarrow> \<exists>r. nat_digits a b bias = Some r \<and> (\<forall>v x y. r = Inr (v, x, y) \<longrightarrow> cstring x \<and> cstring y)"
proof (induction a b bias rule: nat_digits.induct)
  case (1 ca a cb b bias)
  show ?case
  proof (cases "u__isdigit ca \<and> u__isdigit cb")
    case True
    then have "ca \<noteq> NUL" "cb \<noteq> NUL" by (auto simp: char_class)
    then have "cstring a" "cstring b" using 1(4, 5) by (auto simp: cstring_Cons split: if_splits)
    then show ?thesis using 1(1-3) True \<open>ca \<noteq> NUL\<close> by auto
  next
    case False
    then show ?thesis using 1(4, 5) by auto
  qed
qed (simp_all add: cstring_def)

lemma nat_char_cstring:
  assumes "cstring a" "cstring b"
  shows "\<exists>r. nat_char a b = Some r \<and> (\<forall>x y. r = Inr (x, y) \<longrightarrow> cstring x \<and> cstring y) \<and> (\<forall>v. r = Inl v \<longrightarrow> v \<in> {-1, 0, 1})"
proof -
  obtain ca a' cb b' where e: "a = ca # a'" "b = cb # b'"
    using assms by (cases a; cases b) (auto simp: cstring_def)
  have "ca = cb" if "\<not> char_less ca cb" "\<not> char_less cb ca"
  proof -
    from that have "sint ca = sint cb" by (simp add: char_less_def)
    then show ?thesis by (rule signed_word_eqI)
  qed
  then show ?thesis
    using assms unfolding e cstring_Cons by (auto simp: nat_char_def split: if_splits)
qed

lemma nat_digits_bias:
  "nat_digits a b bias = Some r \<Longrightarrow> bias \<in> {-1, 0, 1} \<Longrightarrow>
   (case r of Inl v \<Rightarrow> v \<in> {-1, 0, 1} | Inr (v, x, y) \<Rightarrow> v \<in> {-1, 0, 1})"
proof (induction a b bias rule: nat_digits.induct)
  case (1 ca a cb b bias)
  from 1(4) show ?case
    using 1(1-3, 5) by (simp split: if_splits) auto
qed simp_all

lemma nat_pass_cstring:
  assumes "cstring a" "cstring b"
  shows "\<exists>r. nat_pass a b = Some r \<and> (\<forall>x y. r = Inr (x, y) \<longrightarrow> cstring x \<and> cstring y) \<and> (\<forall>v. r = Inl v \<longrightarrow> v \<in> {-1, 0, 1})"
proof -
  obtain x y where x: "nat_skip a = Some x" "cstring x" "nat_skip b = Some y" "cstring y"
    using nat_skip_cstring [OF assms(1)] nat_skip_cstring [OF assms(2)] by blast
  then obtain ca cb where c: "rd x 0 = Some ca" "rd y 0 = Some cb"
    by (cases x; cases y) (auto simp: cstring_def)
  show ?thesis
  proof (cases "u__isdigit ca \<and> u__isdigit cb")
    case True
    obtain r where r: "nat_digits x y 0 = Some r" "\<forall>v u w. r = Inr (v, u, w) \<longrightarrow> cstring u \<and> cstring w"
      using nat_digits_cstring [OF x(2, 4)] by blast
    show ?thesis
    proof (cases r)
      case (Inl v)
      then show ?thesis using True x c r nat_digits_bias [OF r(1)] by (auto simp: nat_pass_def)
    next
      case (Inr q)
      obtain v u w where q: "q = (v, u, w)" by (cases q)
      have uw: "cstring u" "cstring w" using r(2) Inr q by auto
      have v: "v \<in> {-1, 0, 1}" using nat_digits_bias [OF r(1)] Inr q by simp
      show ?thesis
        using True x c r(1) Inr q v nat_char_cstring [OF uw] by (auto simp: nat_pass_def)
    qed
  next
    case False
    then show ?thesis using x c nat_char_cstring [OF x(2, 4)] by (auto simp: nat_pass_def)
  qed
qed

lemma strnatcmp_total: "cstring a \<Longrightarrow> cstring b \<Longrightarrow> \<exists>v \<in> {-1, 0, 1}. u_strnatcmp a b = Some v"
proof (induction a b rule: u_strnatcmp.induct)
  case (1 a b)
  obtain r where r: "nat_pass a b = Some r" "\<forall>x y. r = Inr (x, y) \<longrightarrow> cstring x \<and> cstring y" "\<forall>v. r = Inl v \<longrightarrow> v \<in> {-1, 0, 1}"
    using nat_pass_cstring [OF 1(2, 3)] by blast
  show ?case
  proof (cases r)
    case (Inl v)
    then show ?thesis using r by (simp add: u_strnatcmp.simps [of a b])
  next
    case (Inr q)
    then show ?thesis using r 1(1) [OF r(1)] by (cases q) (simp add: u_strnatcmp.simps [of a b])
  qed
qed

section \<open>Numbers\<close>

text \<open>The value of a decimal numeral.\<close>

definition decval :: "byte list \<Rightarrow> int" where
  "decval ds = foldl (\<lambda>n c. 10 * n + (uint c - 48)) 0 ds"

lemma decval_append: "decval (xs @ [c]) = 10 * decval xs + (uint c - 48)"
  by (simp add: decval_def)

lemma digit_range: "u__isdigit c \<Longrightarrow> 0 \<le> uint c - 48 \<and> uint c - 48 \<le> 9"
  by (auto simp: u__isdigit_iff word_le_def)

lemma decval_Cons: "decval (c # xs) = (uint c - 48) * 10 ^ length xs + decval xs"
proof (induction xs rule: rev_induct)
  case (snoc x xs)
  then show ?case
    using decval_append [of "c # xs" x] decval_append [of xs x] by (simp add: algebra_simps)
qed (simp add: decval_def)

lemma decval_bound: "list_all u__isdigit xs \<Longrightarrow> 0 \<le> decval xs \<and> decval xs < 10 ^ length xs"
proof (induction xs)
  case (Cons c xs)
  then have "0 \<le> uint c - 48" "uint c - 48 \<le> 9" "0 \<le> decval xs" "decval xs < 10 ^ length xs"
    using digit_range [of c] by auto
  moreover have "(uint c - 48) * 10 ^ length xs \<le> 9 * 10 ^ length xs" "0 \<le> (uint c - 48) * 10 ^ length xs"
    using calculation by (simp_all add: mult_right_mono)
  ultimately show ?case unfolding decval_Cons by (simp only: length_Cons power_Suc) linarith
qed (simp add: decval_def)

lemma char_less_digit:
  assumes "u__isdigit x" "u__isdigit y"
  shows "char_less x y \<longleftrightarrow> uint x < uint y"
proof -
  have "sint c = uint c" if "u__isdigit c" for c :: byte
    using digit_range [OF that] by (simp add: sint_uint signed_take_bit_int_eq_self)
  then show ?thesis using assms by (simp add: char_less_def)
qed

lemma sgn_decval_Cons:
  assumes "list_all u__isdigit xs" "list_all u__isdigit ys" "length xs = length ys"
  shows "sgn (decval (x # xs) - decval (y # ys)) =
    (if uint x = uint y then sgn (decval xs - decval ys) else sgn (uint x - uint y))"
proof (cases "uint x = uint y")
  case False
  let ?p = "10 ^ length xs :: int"
  have b: "\<bar>decval xs - decval ys\<bar> < ?p"
    using decval_bound [OF assms(1)] decval_bound [OF assms(2)] assms(3) by auto
  have e: "decval (x # xs) - decval (y # ys) = (uint x - uint y) * ?p + (decval xs - decval ys)"
    using assms(3) by (simp add: decval_Cons algebra_simps)
  consider "uint x - uint y \<ge> 1" | "uint x - uint y \<le> -1" using False by linarith
  then show ?thesis
  proof cases
    case 1
    then have "(uint x - uint y) * ?p \<ge> 1 * ?p" by (intro mult_right_mono) simp_all
    with b have "decval (x # xs) - decval (y # ys) > 0" unfolding e by linarith
    then show ?thesis using 1 by simp
  next
    case 2
    then have "(uint x - uint y) * ?p \<le> (-1) * ?p" by (intro mult_right_mono) simp_all
    with b have "decval (x # xs) - decval (y # ys) < 0" unfolding e by linarith
    then show ?thesis using 2 by simp
  qed
qed (simp add: decval_Cons assms(3))

lemma nat_digits_value:
  assumes "list_all u__isdigit xs" "list_all u__isdigit ys"
  shows "nat_digits (xs @ [NUL]) (ys @ [NUL]) bias =
    (if length xs < length ys then Some (Inl (-1))
     else if length ys < length xs then Some (Inl 1)
     else Some (Inr (if bias \<noteq> 0 then bias else sgn (decval xs - decval ys), [NUL], [NUL])))"
  using assms
proof (induction xs arbitrary: ys bias)
  case Nil
  have n: "\<not> u__isdigit NUL" by (simp add: char_class)
  show ?case using Nil n by (cases ys) (auto simp: decval_def)
next
  case (Cons x xs)
  have n: "\<not> u__isdigit NUL" by (simp add: char_class)
  show ?case
  proof (cases ys)
    case Nil
    then show ?thesis using Cons n by simp
  next
    case (Cons y ys')
    then have d: "u__isdigit x" "u__isdigit y" "list_all u__isdigit xs" "list_all u__isdigit ys'"
      using \<open>list_all u__isdigit (x # xs)\<close> \<open>list_all u__isdigit ys\<close> by auto
    have nn: "x \<noteq> NUL" using d(1) n by auto
    show ?thesis
      using Cons.IH [OF d(3, 4)] d nn Cons sgn_decval_Cons [OF d(3, 4), of x y]
      by (auto simp: char_less_digit)
  qed
qed

lemma nat_skip_zeros:
  assumes "list_all u__isdigit xs"
  shows "nat_skip (xs @ [NUL]) = Some (dropWhile (\<lambda>c. c = DIGIT0) xs @ [NUL])"
proof -
  have "u__isdigit c \<longrightarrow> \<not> u__isspace c" for c by (rule all_byteI) code_simp
  moreover have "\<not> u__isspace NUL" by (simp add: char_class)
  ultimately show ?thesis using assms by (induction xs) auto
qed

lemma decval_zeros: "decval (dropWhile (\<lambda>c. c = DIGIT0) xs) = decval xs"
  by (induction xs) (auto simp: decval_Cons)

lemma decval_leading:
  assumes "list_all u__isdigit (x # xs)" "x \<noteq> DIGIT0"
  shows "10 ^ length xs \<le> decval (x # xs)"
proof -
  have "uint x \<noteq> 48"
  proof
    assume "uint x = 48"
    then have "x = word_of_int 48" by (metis word_of_int_uint)
    with assms(2) show False by simp
  qed
  then have "1 \<le> uint x - 48" using digit_range [of x] assms(1) by auto
  then have "1 * 10 ^ length xs \<le> (uint x - 48) * 10 ^ length xs" by (intro mult_right_mono) simp_all
  moreover have "0 \<le> decval xs" using decval_bound [of xs] assms(1) by simp
  ultimately show ?thesis unfolding decval_Cons by linarith
qed

text \<open>A numeral without leading zeros is larger than a shorter one.\<close>

lemma decval_longer:
  assumes "list_all u__isdigit xs" "list_all u__isdigit ys" "length xs < length ys" "hd ys \<noteq> DIGIT0"
  shows "decval xs < decval ys"
proof -
  obtain y ys' where y: "ys = y # ys'" using assms(3) by (cases ys) auto
  have "decval xs < 10 ^ length xs" using decval_bound [OF assms(1)] by simp
  also have "\<dots> \<le> 10 ^ length ys'" using assms(3) y by (intro power_increasing) auto
  also have "\<dots> \<le> decval ys" using decval_leading [of y ys'] assms(2, 4) y by simp
  finally show ?thesis .
qed

lemma strnatcmp_value:
  assumes "list_all u__isdigit xs" "list_all u__isdigit ys"
  shows "u_strnatcmp (xs @ [NUL]) (ys @ [NUL]) = Some (sgn (decval xs - decval ys))"
proof -
  define x where "x = dropWhile (\<lambda>c. c = DIGIT0) xs"
  define y where "y = dropWhile (\<lambda>c. c = DIGIT0) ys"
  have d: "list_all u__isdigit x" "list_all u__isdigit y"
    using assms by (auto simp: x_def y_def list_all_iff dest: set_dropWhileD)
  have h: "x \<noteq> [] \<Longrightarrow> hd x \<noteq> DIGIT0" "y \<noteq> [] \<Longrightarrow> hd y \<noteq> DIGIT0"
    unfolding x_def y_def using hd_dropWhile [of "\<lambda>c. c = DIGIT0"] by blast+
  have v: "decval xs = decval x" "decval ys = decval y" by (simp_all add: x_def y_def decval_zeros)
  have sk: "nat_skip (xs @ [NUL]) = Some (x @ [NUL])" "nat_skip (ys @ [NUL]) = Some (y @ [NUL])"
    using nat_skip_zeros assms by (auto simp: x_def y_def)
  have n: "\<not> u__isdigit NUL" by (simp add: char_class)
  have pos: "char_less NUL c" "\<not> char_less c NUL" "c \<noteq> NUL" if "u__isdigit c" for c
  proof -
    have "(u__isdigit c \<longrightarrow> char_less NUL c \<and> \<not> char_less c NUL \<and> c \<noteq> NUL)" by (rule all_byteI) code_simp
    with that show "char_less NUL c" "\<not> char_less c NUL" "c \<noteq> NUL" by auto
  qed
  have "nat_pass (xs @ [NUL]) (ys @ [NUL]) = Some (Inl (sgn (decval x - decval y)))"
  proof (cases "x = [] \<or> y = []")
    case True
    have "decval x > 0" if "x \<noteq> []" using decval_longer [of "[]" x] that d h by (simp add: decval_def)
    moreover have "decval y > 0" if "y \<noteq> []" using decval_longer [of "[]" y] that d h by (simp add: decval_def)
    moreover have "decval [] = 0" by (simp add: decval_def)
    ultimately show ?thesis
      using True sk n pos d by (cases x; cases y) (auto simp: nat_pass_def nat_char_def)
  next
    case False
    then have dig: "u__isdigit (hd x)" "u__isdigit (hd y)" using d by (cases x; cases y; simp)+
    have r: "rd (x @ [NUL]) 0 = Some (hd x)" "rd (y @ [NUL]) 0 = Some (hd y)" using False by (cases x; cases y; simp)+
    consider "length x < length y" | "length y < length x" | "length x = length y" by linarith
    then show ?thesis
    proof cases
      case 1
      then have "decval x < decval y" using decval_longer [OF d] h(2) False by auto
      then show ?thesis using 1 sk r dig nat_digits_value [OF d, of 0] by (simp add: nat_pass_def)
    next
      case 2
      then have "decval y < decval x" using decval_longer [OF d(2, 1)] h(1) False by auto
      then show ?thesis using 2 sk r dig nat_digits_value [OF d, of 0] by (simp add: nat_pass_def)
    next
      case 3
      then show ?thesis
        using sk r dig nat_digits_value [OF d, of 0] by (auto simp: nat_pass_def nat_char_def sgn_if)
    qed
  qed
  then show ?thesis by (simp add: u_strnatcmp.simps v)
qed

section \<open>Properties\<close>

text \<open>
  Strings of digits are compared by their values, whatever their lengths and leading zeros.
\<close>

theorem strnatcmp_numbers:
  assumes "list_all u__isdigit xs" "list_all u__isdigit ys"
  shows "u_strnatcmp (xs @ [NUL]) (ys @ [NUL]) = Some (sgn (decval xs - decval ys))"
  using strnatcmp_value [OF assms] .

theorem strnatcmp_numbers_witness:
  "(list_all u__isdigit (bytes ''0099'') \<and> list_all u__isdigit (bytes ''100'')) \<and>
   u_strnatcmp (bytes ''0099'' @ [NUL]) (bytes ''100'' @ [NUL]) = Some (sgn (decval (bytes ''0099'') - decval (bytes ''100'')))"
proof -
  have h: "list_all u__isdigit (bytes ''0099'')" "list_all u__isdigit (bytes ''100'')" by code_simp+
  from strnatcmp_numbers [OF h] h show ?thesis by blast
qed

text \<open>
  On terminated strings the comparison returns -1, 0 or 1 without reading past a terminator, and
  exchanging the strings negates the answer.
\<close>

theorem strnatcmp_antisymmetric:
  assumes "cstring a" "cstring b"
  shows "\<exists>v \<in> {-1, 0, 1}. u_strnatcmp a b = Some v \<and> u_strnatcmp b a = Some (- v)"
  using strnatcmp_total [OF assms] strnatcmp_swap [of b a] by auto

theorem strnatcmp_antisymmetric_witness:
  "(cstring (bytes ''a2'' @ [NUL]) \<and> cstring (bytes ''a10'' @ [NUL])) \<and>
   (\<exists>v \<in> {-1, 0, 1}. u_strnatcmp (bytes ''a2'' @ [NUL]) (bytes ''a10'' @ [NUL]) = Some v \<and>
     u_strnatcmp (bytes ''a10'' @ [NUL]) (bytes ''a2'' @ [NUL]) = Some (- v))"
proof -
  have h: "cstring (bytes ''a2'' @ [NUL])" "cstring (bytes ''a10'' @ [NUL])"
    by (auto simp: cstring_def of_char_def)
  from strnatcmp_antisymmetric [OF h] h show ?thesis by blast
qed

end
