(* ===== verification/Utf.thy ===== *)
theory Utf
  imports Ctype
begin

text \<open>
  Text detection of \<open>src/ulib/base/utility.c\<close>: \<open>u_isName\<close>, \<open>u_isBase64\<close>, \<open>u_isWhiteSpace\<close>,
  \<open>u_isText\<close> (all instances of the macro \<open>U_LOOP_STRING\<close>), the UTF-8 automaton \<open>u_isUTF8\<close> with its
  table, \<open>u_isUTF16\<close> and \<open>u_isBinary\<close>. The specification of UTF-8 is the encoding function on Unicode
  scalar values.
\<close>

section \<open>Definitions\<close>

text \<open>
  \<open>U_LOOP_STRING\<close>: \<open>c = *s; while (n--) { exec_code; c = *(++s); }\<close>. The byte after the text is read too.
\<close>

fun loop_string :: "(byte \<Rightarrow> bool) \<Rightarrow> mem \<Rightarrow> nat \<Rightarrow> bool option" where
  "loop_string P [] n = None"
| "loop_string P (c # m) 0 = Some True"
| "loop_string P (c # m) (Suc n) = (if \<not> P c then Some False else loop_string P m n)"

definition u_isName :: "mem \<Rightarrow> nat \<Rightarrow> bool option" where
  "u_isName s n = loop_string u__isname s n"

definition u_isBase64 :: "mem \<Rightarrow> nat \<Rightarrow> bool option" where
  "u_isBase64 s n = loop_string u__isbase64 s n"

definition u_isWhiteSpace :: "mem \<Rightarrow> nat \<Rightarrow> bool option" where
  "u_isWhiteSpace s n = loop_string u__isspace s n"

definition u_isText :: "mem \<Rightarrow> nat \<Rightarrow> bool option" where
  "u_isText s n = loop_string u__istext s n"

definition u_validate_utf8 :: "nat list" where
  "u_validate_utf8 = [
    0, 0, 0, 0, 0, 0, 0, 0, 0, 0, 0, 0, 0, 0, 0, 0, 0, 0, 0, 0, 0, 0, 0, 0, 0, 0, 0, 0, 0, 0, 0, 0,
    0, 0, 0, 0, 0, 0, 0, 0, 0, 0, 0, 0, 0, 0, 0, 0, 0, 0, 0, 0, 0, 0, 0, 0, 0, 0, 0, 0, 0, 0, 0, 0,
    0, 0, 0, 0, 0, 0, 0, 0, 0, 0, 0, 0, 0, 0, 0, 0, 0, 0, 0, 0, 0, 0, 0, 0, 0, 0, 0, 0, 0, 0, 0, 0,
    0, 0, 0, 0, 0, 0, 0, 0, 0, 0, 0, 0, 0, 0, 0, 0, 0, 0, 0, 0, 0, 0, 0, 0, 0, 0, 0, 0, 0, 0, 0, 0,
    1, 1, 1, 1, 1, 1, 1, 1, 1, 1, 1, 1, 1, 1, 1, 1, 9, 9, 9, 9, 9, 9, 9, 9, 9, 9, 9, 9, 9, 9, 9, 9,
    7, 7, 7, 7, 7, 7, 7, 7, 7, 7, 7, 7, 7, 7, 7, 7, 7, 7, 7, 7, 7, 7, 7, 7, 7, 7, 7, 7, 7, 7, 7, 7,
    8, 8, 2, 2, 2, 2, 2, 2, 2, 2, 2, 2, 2, 2, 2, 2, 2, 2, 2, 2, 2, 2, 2, 2, 2, 2, 2, 2, 2, 2, 2, 2,
    10, 3, 3, 3, 3, 3, 3, 3, 3, 3, 3, 3, 3, 4, 3, 3, 11, 6, 6, 6, 5, 8, 8, 8, 8, 8, 8, 8, 8, 8, 8, 8,
    0, 1, 2, 3, 5, 8, 7, 1, 1, 1, 4, 6, 1, 1, 1, 1, 1, 1, 1, 1, 1, 1, 1, 1, 1, 1, 1, 1, 1, 1, 1, 1,
    1, 0, 1, 1, 1, 1, 1, 0, 1, 0, 1, 1, 1, 1, 1, 1, 1, 2, 1, 1, 1, 1, 1, 2, 1, 2, 1, 1, 1, 1, 1, 1,
    1, 1, 1, 1, 1, 1, 1, 2, 1, 1, 1, 1, 1, 1, 1, 1, 1, 2, 1, 1, 1, 1, 1, 1, 1, 2, 1, 1, 1, 1, 1, 1,
    1, 1, 1, 1, 1, 1, 1, 3, 1, 3, 1, 1, 1, 1, 1, 1, 1, 3, 1, 1, 1, 1, 1, 3, 1, 3, 1, 1, 1, 1, 1, 1,
    1, 3, 1, 1, 1, 1, 1, 1, 1, 1, 1, 1, 1, 1, 1, 1]"

text \<open>
  The loop. The variable \<open>code\<close> of the source is computed and never used; it is left out.
\<close>

fun utf8_loop :: "nat \<Rightarrow> byte list \<Rightarrow> bool" where
  "utf8_loop state [] \<longleftrightarrow> state = 0"
| "utf8_loop state (c # buf) \<longleftrightarrow>
     (let type = u_validate_utf8 ! unat c;
          state' = u_validate_utf8 ! (256 + state * 16 + type)
      in if state' = 1 then False else utf8_loop state' buf)"

definition u_isUTF8 :: "byte list \<Rightarrow> bool" where
  "u_isUTF8 buf = utf8_loop 0 buf"

text \<open>\<open>for (i = 2; i + 1 < len; i += 2)\<close> over the pairs of bytes after the byte order mark.\<close>

fun utf16_loop :: "bool \<Rightarrow> byte list \<Rightarrow> bool" where
  "utf16_loop be (x # y # buf) =
     (let c = (if be then unat y + 256 * unat x else unat x + 256 * unat y)
      in if c = 0xfffe \<or> (c < 128 \<and> u_cttab (word_of_nat c) AND 0x0200 = 0) then False
         else utf16_loop be buf)"
| "utf16_loop be buf = True"

definition u_isUTF16 :: "byte list \<Rightarrow> nat" where
  "u_isUTF16 buf =
     (if length buf < 2 then 0
      else if buf ! 0 = 0xff \<and> buf ! 1 = 0xfe then (if utf16_loop False (drop 2 buf) then 1 else 0)
      else if buf ! 0 = 0xfe \<and> buf ! 1 = 0xff then (if utf16_loop True (drop 2 buf) then 2 else 0)
      else 0)"

definition u_isBinary :: "mem \<Rightarrow> nat \<Rightarrow> bool option" where
  "u_isBinary s n = do {
     t \<leftarrow> u_isText s n;
     Some (\<not> (t \<or> u_isUTF8 (take n s) \<or> u_isUTF16 (take n s) \<noteq> 0))
   }"

section \<open>The automaton\<close>

definition utf8_step :: "nat \<Rightarrow> byte \<Rightarrow> nat" where
  "utf8_step state c = u_validate_utf8 ! (256 + state * 16 + u_validate_utf8 ! unat c)"

lemma utf8_loop_Cons:
  "utf8_loop state (c # buf) \<longleftrightarrow> utf8_step state c \<noteq> 1 \<and> utf8_loop (utf8_step state c) buf"
  by (simp add: utf8_step_def Let_def)

declare utf8_loop.simps(2) [simp del]

definition cont :: "byte \<Rightarrow> bool" where
  "cont c \<longleftrightarrow> 0x80 \<le> c \<and> c \<le> 0xBF"

definition utf8_type :: "byte \<Rightarrow> nat" where
  "utf8_type c =
     (if c \<le> 0x7F then 0 else if c \<le> 0x8F then 1 else if c \<le> 0x9F then 9 else if c \<le> 0xBF then 7
      else if c \<le> 0xC1 then 8 else if c \<le> 0xDF then 2 else if c = 0xE0 then 10 else if c = 0xED then 4
      else if c \<le> 0xEF then 3 else if c = 0xF0 then 11 else if c \<le> 0xF3 then 6 else if c = 0xF4 then 5 else 8)"

interpretation utf8_tab: byte_table "take 256 u_validate_utf8"
  by unfold_locales code_simp

lemma utf8_table_types: "u_validate_utf8 ! unat c = utf8_type c"
proof -
  have "take 256 u_validate_utf8 ! unat c = utf8_type c"
    by (rule utf8_tab.lookup_allI) code_simp
  then show ?thesis using unat_byte_less [of c] by simp
qed

text \<open>The rows of the transition table, one per state.\<close>

definition utf8_trans :: "nat list" where
  "utf8_trans = [
    0, 1, 2, 3, 5, 8, 7, 1, 1, 1, 4, 6, 1, 1, 1, 1,
    1, 1, 1, 1, 1, 1, 1, 1, 1, 1, 1, 1, 1, 1, 1, 1,
    1, 0, 1, 1, 1, 1, 1, 0, 1, 0, 1, 1, 1, 1, 1, 1,
    1, 2, 1, 1, 1, 1, 1, 2, 1, 2, 1, 1, 1, 1, 1, 1,
    1, 1, 1, 1, 1, 1, 1, 2, 1, 1, 1, 1, 1, 1, 1, 1,
    1, 2, 1, 1, 1, 1, 1, 1, 1, 2, 1, 1, 1, 1, 1, 1,
    1, 1, 1, 1, 1, 1, 1, 3, 1, 3, 1, 1, 1, 1, 1, 1,
    1, 3, 1, 1, 1, 1, 1, 3, 1, 3, 1, 1, 1, 1, 1, 1,
    1, 3, 1, 1, 1, 1, 1, 1, 1, 1, 1, 1, 1, 1, 1, 1]"

lemma utf8_table_trans: "u_validate_utf8 ! (256 + k) = utf8_trans ! k"
proof -
  have "drop 256 u_validate_utf8 = utf8_trans" "256 \<le> length u_validate_utf8" by code_simp+
  then show ?thesis by (metis nth_drop)
qed

lemma utf8_step_eq: "utf8_step state c = utf8_trans ! (state * 16 + utf8_type c)"
  unfolding utf8_step_def utf8_table_types add.assoc by (rule utf8_table_trans)

lemma utf8_type_less: "utf8_type c < 12"
  by (simp add: utf8_type_def)

text \<open>The rows as functions of the character type.\<close>

definition utf8_row :: "nat \<Rightarrow> nat \<Rightarrow> nat" where
  "utf8_row state t =
     (if state = 0 then [0, 1, 2, 3, 5, 8, 7, 1, 1, 1, 4, 6] ! t
      else if state = 2 then if t \<in> {1, 7, 9} then 0 else 1
      else if state = 3 then if t \<in> {1, 7, 9} then 2 else 1
      else if state = 4 then if t = 7 then 2 else 1
      else if state = 5 then if t \<in> {1, 9} then 2 else 1
      else if state = 6 then if t \<in> {7, 9} then 3 else 1
      else if state = 7 then if t \<in> {1, 7, 9} then 3 else 1
      else if t = 1 then 3 else 1)"

lemma utf8_trans_row:
  assumes "state \<in> {0, 2, 3, 4, 5, 6, 7, 8}" "t < 12"
  shows "utf8_trans ! (state * 16 + t) = utf8_row state t"
proof -
  have "list_all (\<lambda>s. list_all (\<lambda>t. utf8_trans ! (s * 16 + t) = utf8_row s t) [0..<12]) [0, 2, 3, 4, 5, 6, 7, 8]"
    by code_simp
  then show ?thesis using assms by (auto simp: list_all_iff)
qed

lemma utf8_step_row: "state \<in> {0, 2, 3, 4, 5, 6, 7, 8} \<Longrightarrow> utf8_step state c = utf8_row state (utf8_type c)"
  unfolding utf8_step_eq using utf8_type_less by (intro utf8_trans_row)

definition utf8_first :: "byte \<Rightarrow> nat" where
  "utf8_first c =
     (if c \<le> 0x7F then 0 else if c \<le> 0xC1 then 1 else if c \<le> 0xDF then 2 else if c = 0xE0 then 4
      else if c = 0xED then 5 else if c \<le> 0xEF then 3 else if c = 0xF0 then 6 else if c \<le> 0xF3 then 7
      else if c = 0xF4 then 8 else 1)"

lemma utf8_steps:
  "utf8_step 0 c = utf8_first c"
  "utf8_step 2 c = (if cont c then 0 else 1)"
  "utf8_step 3 c = (if cont c then 2 else 1)"
  "utf8_step 4 c = (if cont c \<and> 0xA0 \<le> c then 2 else 1)"
  "utf8_step 5 c = (if cont c \<and> c \<le> 0x9F then 2 else 1)"
  "utf8_step 6 c = (if cont c \<and> 0x90 \<le> c then 3 else 1)"
  "utf8_step 7 c = (if cont c then 3 else 1)"
  "utf8_step 8 c = (if cont c \<and> c \<le> 0x8F then 3 else 1)"
  by (subst utf8_step_row, simp, rule all_byteI, code_simp)+

section \<open>What each state accepts\<close>

lemma utf8_accept:
  "utf8_loop 2 bs \<longleftrightarrow> (\<exists>d r. bs = d # r \<and> cont d \<and> utf8_loop 0 r)"
  "utf8_loop 3 bs \<longleftrightarrow> (\<exists>d r. bs = d # r \<and> cont d \<and> utf8_loop 2 r)"
  "utf8_loop 4 bs \<longleftrightarrow> (\<exists>d r. bs = d # r \<and> cont d \<and> 0xA0 \<le> d \<and> utf8_loop 2 r)"
  "utf8_loop 5 bs \<longleftrightarrow> (\<exists>d r. bs = d # r \<and> cont d \<and> d \<le> 0x9F \<and> utf8_loop 2 r)"
  "utf8_loop 6 bs \<longleftrightarrow> (\<exists>d r. bs = d # r \<and> cont d \<and> 0x90 \<le> d \<and> utf8_loop 3 r)"
  "utf8_loop 7 bs \<longleftrightarrow> (\<exists>d r. bs = d # r \<and> cont d \<and> utf8_loop 3 r)"
  "utf8_loop 8 bs \<longleftrightarrow> (\<exists>d r. bs = d # r \<and> cont d \<and> d \<le> 0x8F \<and> utf8_loop 3 r)"
  by (cases bs; auto simp: utf8_loop_Cons utf8_steps)+

lemma utf8_lead:
  "c \<le> 0x7F \<and> utf8_step 0 c = 0 \<or>
   \<not> c \<le> 0x7F \<and> (c < 0xC2 \<or> 0xF4 < c) \<and> utf8_step 0 c = 1 \<or>
   0xC2 \<le> c \<and> c \<le> 0xDF \<and> utf8_step 0 c = 2 \<or>
   c = 0xE0 \<and> utf8_step 0 c = 4 \<or> c = 0xED \<and> utf8_step 0 c = 5 \<or>
   0xE0 \<le> c \<and> c \<le> 0xEF \<and> c \<noteq> 0xE0 \<and> c \<noteq> 0xED \<and> utf8_step 0 c = 3 \<or>
   c = 0xF0 \<and> utf8_step 0 c = 6 \<or> c = 0xF4 \<and> utf8_step 0 c = 8 \<or>
   0xF0 \<le> c \<and> c \<le> 0xF4 \<and> c \<noteq> 0xF0 \<and> c \<noteq> 0xF4 \<and> utf8_step 0 c = 7"
  unfolding utf8_steps(1) by (rule all_byteI) code_simp

lemma utf8_lead_step:
  "(c \<le> 0x7F \<longrightarrow> utf8_step 0 c = 0) \<and> (0xC2 \<le> c \<and> c \<le> 0xDF \<longrightarrow> utf8_step 0 c = 2) \<and>
   (0xE0 \<le> c \<and> c \<le> 0xEF \<longrightarrow> utf8_step 0 c = (if c = 0xE0 then 4 else if c = 0xED then 5 else 3)) \<and>
   (0xF0 \<le> c \<and> c \<le> 0xF4 \<longrightarrow> utf8_step 0 c = (if c = 0xF0 then 6 else if c = 0xF4 then 8 else 7))"
  unfolding utf8_steps(1) by (rule all_byteI) code_simp

text \<open>The well-formed byte sequences of one character, by ranges of bytes.\<close>

fun utf8_seq :: "byte list \<Rightarrow> bool" where
  "utf8_seq [a] \<longleftrightarrow> a \<le> 0x7F"
| "utf8_seq [a, b] \<longleftrightarrow> 0xC2 \<le> a \<and> a \<le> 0xDF \<and> cont b"
| "utf8_seq [a, b, c] \<longleftrightarrow>
     0xE0 \<le> a \<and> a \<le> 0xEF \<and> cont b \<and> cont c \<and> (a = 0xE0 \<longrightarrow> 0xA0 \<le> b) \<and> (a = 0xED \<longrightarrow> b \<le> 0x9F)"
| "utf8_seq [a, b, c, d] \<longleftrightarrow>
     0xF0 \<le> a \<and> a \<le> 0xF4 \<and> cont b \<and> cont c \<and> cont d \<and> (a = 0xF0 \<longrightarrow> 0x90 \<le> b) \<and> (a = 0xF4 \<longrightarrow> b \<le> 0x8F)"
| "utf8_seq _ \<longleftrightarrow> False"

lemma utf8_loop_seq: "utf8_seq xs \<Longrightarrow> utf8_loop 0 r \<Longrightarrow> utf8_loop 0 (xs @ r)"
proof (induction xs rule: utf8_seq.induct)
  case (1 a)
  then show ?case using utf8_lead_step [of a] by (simp add: utf8_loop_Cons)
next
  case (2 a b)
  then show ?case using utf8_lead_step [of a] by (simp add: utf8_loop_Cons [of 0 a] utf8_accept)
next
  case (3 a b c)
  then show ?case using utf8_lead_step [of a] by (simp add: utf8_loop_Cons [of 0 a] utf8_accept)
next
  case (4 a b c d)
  then show ?case using utf8_lead_step [of a] by (simp add: utf8_loop_Cons [of 0 a] utf8_accept)
qed simp_all

lemma utf8_loop_0:
  assumes "utf8_loop 0 (c # bs)"
  shows "\<exists>xs r. c # bs = xs @ r \<and> utf8_seq xs \<and> utf8_loop 0 r"
proof -
  have step: "utf8_step 0 c \<noteq> 1" "utf8_loop (utf8_step 0 c) bs" using assms by (simp_all add: utf8_loop_Cons)
  have seq: "c # bs = xs @ r \<Longrightarrow> utf8_seq xs \<Longrightarrow> utf8_loop 0 r \<Longrightarrow> ?thesis" for xs r by blast
  consider "c \<le> 0x7F" "utf8_loop 0 bs"
    | "0xC2 \<le> c" "c \<le> 0xDF" "utf8_loop 2 bs"
    | "c = 0xE0" "utf8_loop 4 bs" | "c = 0xED" "utf8_loop 5 bs"
    | "0xE0 \<le> c" "c \<le> 0xEF" "c \<noteq> 0xE0" "c \<noteq> 0xED" "utf8_loop 3 bs"
    | "c = 0xF0" "utf8_loop 6 bs" | "c = 0xF4" "utf8_loop 8 bs"
    | "0xF0 \<le> c" "c \<le> 0xF4" "c \<noteq> 0xF0" "c \<noteq> 0xF4" "utf8_loop 7 bs"
    using utf8_lead [of c] step by metis
  then show ?thesis
  proof cases
    case 1
    then show ?thesis by (intro seq [of "[c]" bs]) simp_all
  next
    case 2
    then obtain d r where "bs = d # r" "cont d" "utf8_loop 0 r" unfolding utf8_accept by blast
    with 2 show ?thesis by (intro seq [of "[c, d]" r]) simp_all
  next
    case 3
    then obtain d e r where "bs = d # e # r" "cont d" "0xA0 \<le> d" "cont e" "utf8_loop 0 r" unfolding utf8_accept by blast
    with 3 show ?thesis by (intro seq [of "[c, d, e]" r]) simp_all
  next
    case 4
    then obtain d e r where "bs = d # e # r" "cont d" "d \<le> 0x9F" "cont e" "utf8_loop 0 r" unfolding utf8_accept by blast
    with 4 show ?thesis by (intro seq [of "[c, d, e]" r]) simp_all
  next
    case 5
    then obtain d e r where "bs = d # e # r" "cont d" "cont e" "utf8_loop 0 r" unfolding utf8_accept by blast
    with 5 show ?thesis by (intro seq [of "[c, d, e]" r]) simp_all
  next
    case 6
    then obtain d e f r where "bs = d # e # f # r" "cont d" "0x90 \<le> d" "cont e" "cont f" "utf8_loop 0 r"
      unfolding utf8_accept by blast
    with 6 show ?thesis by (intro seq [of "[c, d, e, f]" r]) simp_all
  next
    case 7
    then obtain d e f r where "bs = d # e # f # r" "cont d" "d \<le> 0x8F" "cont e" "cont f" "utf8_loop 0 r"
      unfolding utf8_accept by blast
    with 7 show ?thesis by (intro seq [of "[c, d, e, f]" r]) simp_all
  next
    case 8
    then obtain d e f r where "bs = d # e # f # r" "cont d" "cont e" "cont f" "utf8_loop 0 r"
      unfolding utf8_accept by blast
    with 8 show ?thesis by (intro seq [of "[c, d, e, f]" r]) simp_all
  qed
qed

lemma isUTF8_seqs: "u_isUTF8 bs \<longleftrightarrow> (\<exists>xss. bs = concat xss \<and> list_all utf8_seq xss)"
proof
  show "u_isUTF8 bs \<Longrightarrow> \<exists>xss. bs = concat xss \<and> list_all utf8_seq xss"
    unfolding u_isUTF8_def
  proof (induction bs rule: length_induct)
    case (1 bs)
    show ?case
    proof (cases bs)
      case Nil
      then show ?thesis by (intro exI [of _ "[]"]) simp
    next
      case (Cons c cs)
      then obtain xs r where xs: "bs = xs @ r" "utf8_seq xs" "utf8_loop 0 r"
        using utf8_loop_0 [of c cs] 1(2) by blast
      then have "xs \<noteq> []" by auto
      then have "length r < length bs" using xs(1) by simp
      then obtain xss where "r = concat xss" "list_all utf8_seq xss" using 1(1) xs(3) by blast
      then show ?thesis using xs by (intro exI [of _ "xs # xss"]) simp
    qed
  qed
next
  have "list_all utf8_seq xss \<Longrightarrow> utf8_loop 0 (concat xss)" for xss
    by (induction xss) (simp_all add: utf8_loop_seq)
  then show "\<exists>xss. bs = concat xss \<and> list_all utf8_seq xss \<Longrightarrow> u_isUTF8 bs"
    unfolding u_isUTF8_def by blast
qed

section \<open>Encoding of scalar values\<close>

definition scalar_value :: "nat \<Rightarrow> bool" where
  "scalar_value cp \<longleftrightarrow> cp < 0x110000 \<and> \<not> (0xD800 \<le> cp \<and> cp \<le> 0xDFFF)"

definition u8 :: "nat \<Rightarrow> byte" where
  "u8 k = word_of_nat k"

definition utf8_encode :: "nat \<Rightarrow> byte list" where
  "utf8_encode cp = map u8
     (if cp < 0x80 then [cp]
      else if cp < 0x800 then [0xC0 + cp div 64, 0x80 + cp mod 64]
      else if cp < 0x10000 then [0xE0 + cp div 4096, 0x80 + cp div 64 mod 64, 0x80 + cp mod 64]
      else [0xF0 + cp div 262144, 0x80 + cp div 4096 mod 64, 0x80 + cp div 64 mod 64, 0x80 + cp mod 64])"

lemma byte_eq_nat: "(a :: byte) = b \<longleftrightarrow> unat a = unat b"
  by (simp add: word_unat_eq_iff)

lemma unat_byte_of_nat: "k < 256 \<Longrightarrow> unat (u8 k) = k"
  by (simp add: u8_def unat_of_nat)

lemma u8_unat [simp]: "u8 (unat a) = a"
  by (simp add: u8_def)

lemma cont_nat: "cont b \<longleftrightarrow> 128 \<le> unat b \<and> unat b \<le> 191"
  by (simp add: cont_def word_le_nat_alt)

lemmas byte_nat = word_le_nat_alt byte_eq_nat cont_nat

lemma utf8_encode_seq: "scalar_value cp \<Longrightarrow> utf8_seq (utf8_encode cp)"
proof -
  assume sc: "scalar_value cp"
  have m: "n mod 64 \<le> 63" for n :: nat using mod_less_divisor [of 64 n] by linarith
  consider "cp < 0x80" | "0x80 \<le> cp" "cp < 0x800" | "0x800 \<le> cp" "cp < 0x10000" | "0x10000 \<le> cp" "cp < 0x110000"
    using sc by (force simp: scalar_value_def)
  then show ?thesis
  proof cases
    case 1
    then show ?thesis by (simp add: utf8_encode_def byte_nat unat_byte_of_nat)
  next
    case 2
    then have "2 \<le> cp div 64" "cp div 64 < 32" by (simp_all add: less_eq_div_iff_mult_less_eq div_less_iff_less_mult)
    then show ?thesis using 2 m [of cp] by (simp add: utf8_encode_def byte_nat unat_byte_of_nat)
  next
    case 3
    then have a: "cp div 4096 < 16" by (simp add: div_less_iff_less_mult)
    have e: "cp div 64 mod 64 = cp div 64 - 64 * (cp div 4096)"
      using div_mult2_eq [of cp 64 64] minus_mult_div_eq_mod [of "cp div 64" 64] by simp
    have "cp div 4096 = 0 \<Longrightarrow> 32 \<le> cp div 64 mod 64" using 3 by (simp add: e less_eq_div_iff_mult_less_eq)
    moreover have "cp div 4096 = 13 \<Longrightarrow> cp div 64 mod 64 < 32"
      using sc 3 unfolding scalar_value_def e by auto
    ultimately show ?thesis
      using 3 a m [of cp] m [of "cp div 64"] by (auto simp add: utf8_encode_def byte_nat unat_byte_of_nat)
  next
    case 4
    then have a: "cp div 262144 < 5" by (simp add: div_less_iff_less_mult)
    have e: "cp div 4096 mod 64 = cp div 4096 - 64 * (cp div 262144)"
      using div_mult2_eq [of cp 4096 64] minus_mult_div_eq_mod [of "cp div 4096" 64] by simp
    have "cp div 262144 = 0 \<Longrightarrow> 16 \<le> cp div 4096 mod 64" using 4 by (simp add: e less_eq_div_iff_mult_less_eq)
    moreover have "cp div 262144 = 4 \<Longrightarrow> cp div 4096 mod 64 < 16"
      using 4 unfolding e by auto
    ultimately show ?thesis
      using 4 a m [of cp] m [of "cp div 64"] m [of "cp div 4096"] by (auto simp add: utf8_encode_def byte_nat unat_byte_of_nat)
  qed
qed

text \<open>The scalar value of a well-formed sequence.\<close>

lemma utf8_digits:
  fixes a b c d :: nat
  assumes "b < 64" "c < 64" "d < 64"
  shows "(a * 64 + b) div 64 = a" "(a * 64 + b) mod 64 = b"
    "(a * 4096 + b * 64 + c) div 4096 = a" "(a * 4096 + b * 64 + c) div 64 mod 64 = b" "(a * 4096 + b * 64 + c) mod 64 = c"
    "(a * 262144 + b * 4096 + c * 64 + d) div 262144 = a" "(a * 262144 + b * 4096 + c * 64 + d) div 4096 mod 64 = b"
    "(a * 262144 + b * 4096 + c * 64 + d) div 64 mod 64 = c" "(a * 262144 + b * 4096 + c * 64 + d) mod 64 = d"
proof -
  have e: "(a * 64 + b) div 64 = a" "(a * 64 + b) mod 64 = b" if "b < 64" for a b :: nat using that by simp_all
  have e3: "a * 4096 + b * 64 + c = (a * 64 + b) * 64 + c"
    and e4: "a * 262144 + b * 4096 + c * 64 + d = ((a * 64 + b) * 64 + c) * 64 + d" by simp_all
  have d2: "n div 4096 = n div 64 div 64" and d3: "n div 262144 = n div 64 div 64 div 64" for n :: nat
    by (simp_all add: div_mult2_eq [symmetric])
  show "(a * 64 + b) div 64 = a" "(a * 64 + b) mod 64 = b" by (simp_all only: e assms)
  show "(a * 4096 + b * 64 + c) div 4096 = a" "(a * 4096 + b * 64 + c) div 64 mod 64 = b" "(a * 4096 + b * 64 + c) mod 64 = c"
    unfolding e3 d2 by (simp_all only: e assms)
  show "(a * 262144 + b * 4096 + c * 64 + d) div 262144 = a" "(a * 262144 + b * 4096 + c * 64 + d) div 4096 mod 64 = b"
    "(a * 262144 + b * 4096 + c * 64 + d) div 64 mod 64 = c" "(a * 262144 + b * 4096 + c * 64 + d) mod 64 = d"
    unfolding e4 d2 d3 by (simp_all only: e assms)
qed

lemma cont_value: "cont b \<Longrightarrow> \<exists>k < 64. b = u8 (128 + k) \<and> unat b = 128 + k"
proof -
  assume "cont b"
  then have "unat b - 128 < 64" "unat b = 128 + (unat b - 128)" by (auto simp: cont_nat)
  then show ?thesis by (metis u8_unat)
qed

lemma utf8_seq_encode: "utf8_seq xs \<Longrightarrow> \<exists>cp. scalar_value cp \<and> xs = utf8_encode cp"
proof (induction xs rule: utf8_seq.induct)
  case (1 a)
  then show ?case by (intro exI [of _ "unat a"]) (simp add: scalar_value_def utf8_encode_def byte_nat)
next
  case (2 a b)
  then obtain k where b: "k < 64" "b = u8 (128 + k)" "unat b = 128 + k" using cont_value by auto
  define h where "h = unat a - 192"
  from 2 have h: "2 \<le> h" "h < 32" "unat a = 192 + h" by (auto simp: h_def byte_nat)
  then have a: "a = u8 (192 + h)" by (metis u8_unat)
  have "128 \<le> h * 64 + k" "h * 64 + k < 2048" using h b by auto
  then show ?case
    using utf8_digits(1, 2) [OF b(1) b(1) b(1), of h]
    by (intro exI [of _ "h * 64 + k"]) (simp add: scalar_value_def utf8_encode_def a b)
next
  case (3 a b c)
  then obtain k l where b: "k < 64" "b = u8 (128 + k)" "unat b = 128 + k" and c: "l < 64" "c = u8 (128 + l)"
    using cont_value [of b] cont_value [of c] by auto
  define h where "h = unat a - 224"
  from 3 have h: "h < 16" "unat a = 224 + h" "h = 0 \<longrightarrow> 32 \<le> k" "h = 13 \<longrightarrow> k < 32" using b by (auto simp: h_def byte_nat)
  then have a: "a = u8 (224 + h)" by (metis u8_unat)
  have "h \<le> 12 \<or> h = 13 \<or> 14 \<le> h" by linarith
  then have "\<not> (0xD800 \<le> h * 4096 + k * 64 + l \<and> h * 4096 + k * 64 + l \<le> 0xDFFF)"
    using h(4) b(1) c(1) by auto
  then have "scalar_value (h * 4096 + k * 64 + l)" "2048 \<le> h * 4096 + k * 64 + l" "h * 4096 + k * 64 + l < 65536"
    using h b(1) c(1) by (auto simp: scalar_value_def)
  then show ?case
    using utf8_digits(3-5) [OF b(1) c(1) c(1), of h]
    by (intro exI [of _ "h * 4096 + k * 64 + l"]) (simp add: utf8_encode_def a b c)
next
  case (4 a b c d)
  then obtain k l m where b: "k < 64" "b = u8 (128 + k)" "unat b = 128 + k" and c: "l < 64" "c = u8 (128 + l)"
    and d: "m < 64" "d = u8 (128 + m)"
    using cont_value [of b] cont_value [of c] cont_value [of d] by auto
  define h where "h = unat a - 240"
  from 4 have h: "h < 5" "unat a = 240 + h" "h = 0 \<longrightarrow> 16 \<le> k" "h = 4 \<longrightarrow> k < 16" using b by (auto simp: h_def byte_nat)
  then have a: "a = u8 (240 + h)" by (metis u8_unat)
  have "scalar_value (h * 262144 + k * 4096 + l * 64 + m)" "65536 \<le> h * 262144 + k * 4096 + l * 64 + m"
    using h b(1) c(1) d(1) by (auto simp: scalar_value_def)
  then show ?case
    using utf8_digits(6-9) [OF b(1) c(1) d(1), of h]
    by (intro exI [of _ "h * 262144 + k * 4096 + l * 64 + m"]) (simp add: utf8_encode_def a b c d)
qed simp_all

lemma isUTF8_scalars:
  "u_isUTF8 bs \<longleftrightarrow> (\<exists>cps. list_all scalar_value cps \<and> bs = concat (map utf8_encode cps))"
proof
  assume "u_isUTF8 bs"
  then obtain xss where bs: "bs = concat xss" and seqs: "list_all utf8_seq xss" by (auto simp: isUTF8_seqs)
  from seqs have "\<exists>cps. list_all scalar_value cps \<and> xss = map utf8_encode cps"
  proof (induction xss)
    case (Cons xs xss)
    then obtain cp cps where "scalar_value cp" "xs = utf8_encode cp" "list_all scalar_value cps" "xss = map utf8_encode cps"
      using utf8_seq_encode by fastforce
    then show ?case by (intro exI [of _ "cp # cps"]) simp
  qed simp
  then show "\<exists>cps. list_all scalar_value cps \<and> bs = concat (map utf8_encode cps)" using bs by blast
next
  assume "\<exists>cps. list_all scalar_value cps \<and> bs = concat (map utf8_encode cps)"
  then obtain cps where "list_all scalar_value cps" "bs = concat (map utf8_encode cps)" by blast
  moreover from this(1) have "list_all utf8_seq (map utf8_encode cps)"
    by (auto simp: list_all_iff utf8_encode_seq)
  ultimately show "u_isUTF8 bs" unfolding isUTF8_seqs by blast
qed

lemma loop_string_text: "loop_string P (s @ x # z) (length s) = Some (list_all P s)"
  by (induction s) auto

lemma utf16_flag: "u_cttab c AND 0x0200 = 0 \<longleftrightarrow> \<not> u__islower c"
  by (simp add: u__islower_def)

section \<open>Properties\<close>

text \<open>
  C15: \<open>u_isUTF8\<close> accepts exactly the concatenations of UTF-8 encodings of Unicode scalar values: no
  overlong form, no surrogate, nothing above \<open>U+10FFFF\<close>, nothing truncated.
\<close>

theorem isUTF8_correct:
  "u_isUTF8 bs \<longleftrightarrow> (\<exists>cps. list_all scalar_value cps \<and> bs = concat (map utf8_encode cps))"
  by (rule isUTF8_scalars)

text \<open>
  A text followed by at least one byte of memory is classified as binary exactly when it is not
  all text characters, not UTF-8 and not recognised as UTF-16.
\<close>

theorem isBinary_correct:
  "u_isBinary (s @ x # z) (length s) =
   Some (\<not> (list_all u__istext s \<or>
     (\<exists>cps. list_all scalar_value cps \<and> s = concat (map utf8_encode cps)) \<or> u_isUTF16 s \<noteq> 0))"
  unfolding isUTF8_scalars [symmetric]
  by (simp add: u_isBinary_def u_isText_def loop_string_text)

text \<open>
  UTF-16 detection tests the flag of lower case letters where the text flag is meant: a lower case
  letter is accepted, an upper case letter, a digit, a space and a line feed are not.
\<close>

theorem isUTF16_text_flag:
  "u_isUTF16 [0xff, 0xfe, 97, 0] = 1"
  "u_isUTF16 [0xff, 0xfe, 65, 0] = 0"
  "u_isUTF16 [0xff, 0xfe, 49, 0] = 0"
  "u_isUTF16 [0xff, 0xfe, 32, 0] = 0"
  "u_isUTF16 [0xff, 0xfe, 10, 0] = 0"
  by (simp_all add: u_isUTF16_def utf16_flag char_class)

end
