(* ===== verification/Path.thy ===== *)
theory Path
  imports Prelude Token
begin

text \<open>
  Path names (\<open>utility.c\<close>, \<open>base.c\<close>): canonical form, path relative to the working directory,
  base name and suffix, the search along a colon-separated list, and the split of a command line
  for \<open>exec\<close>. A C string is the list of its bytes before the terminator; \<open>access\<close> and \<open>getenv\<close> of
  the operating system are parameters.
\<close>

section \<open>Operations\<close>

text \<open>
  The byte at an offset of a C string. At the length it is the terminator; the sources read one
  byte further only after a byte that is not the terminator.
\<close>

definition zat :: "byte list \<Rightarrow> nat \<Rightarrow> byte" where
  "zat s i = (if i < length s then s ! i else NUL)"

lemma zat_simps [simp]:
  "zat [] i = NUL" "zat (c # l) 0 = c" "zat (c # l) (Suc i) = zat l i"
  "zat (c # l) 1 = zat l 0" "zat (c # l) (numeral k) = zat l (pred_numeral k)"
  by (simp_all add: zat_def numeral_eq_Suc)

lemma zat_append: "zat (a @ b) i = (if i < length a then zat a i else zat b (i - length a))"
  by (auto simp: zat_def nth_append)

lemma zat_0: "zat l 0 = (if l = [] then NUL else hd l)"
  by (cases l) auto

subsection \<open>Canonical form\<close>

text \<open>
  Each pass of \<open>u_canonicalize_pathname\<close> answers the new path and whether it was modified. In the
  first two the argument is the string at the pointer \<open>p\<close>: what is before \<open>p\<close> stays.
\<close>

function collapse_slashes :: "byte list \<Rightarrow> byte list \<times> bool" where
  "collapse_slashes [] = ([], False)"
| "collapse_slashes (c # r) =
     (if c = SLASH \<and> zat r 0 = SLASH then
        (let s = dropWhile (\<lambda>x. x = SLASH) (drop 1 r)
         in (c # fst (collapse_slashes s), True))
      else (let (q, b) = collapse_slashes r in (c # q, b)))"
  by pat_completeness auto

termination
  by (relation "measure length") (auto intro!: le_imp_less_Suc order_trans [OF length_dropWhile_le])

fun collapse_dot :: "byte list \<Rightarrow> byte list \<times> bool" where
  "collapse_dot [] = ([], False)"
| "collapse_dot (c # r) =
     (if c = SLASH \<and> zat r 0 = DOT \<and> zat r 1 = SLASH then (fst (collapse_dot (drop 1 r)), True)
      else (let (q, b) = collapse_dot r in (c # q, b)))"

function remove_trailing_slashes :: "byte list \<Rightarrow> byte list \<times> bool" where
  "remove_trailing_slashes s =
     (if 1 < length s \<and> last s = SLASH then (fst (remove_trailing_slashes (butlast s)), True)
      else (s, False))"
  by pat_completeness auto

termination by (relation "measure length") auto

declare remove_trailing_slashes.simps [simp del]

text \<open>
  A pass that may return early: \<open>Inl\<close> is the path at the \<open>return true\<close> of the code.
\<close>

definition remove_leading_dot :: "byte list \<Rightarrow> byte list + (byte list \<times> bool)" where
  "remove_leading_dot s =
     (if zat s 0 = DOT \<and> zat s 1 = SLASH then
        (if zat s 2 = NUL then Inl (take 1 s) else Inr (drop 2 s, True))
      else Inr (s, False))"

definition remove_trailing_dot :: "byte list \<Rightarrow> byte list + (byte list \<times> bool)" where
  "remove_trailing_dot s =
     (let len = length s
      in if zat s (len - 1) = SLASH then Inr (take (len - 1) s, True)
         else if zat s (len - 1) = DOT \<and> zat s (len - 2) = SLASH then
           (if len = 2 then Inl (take 1 s) else Inr (take (len - 2) s, True))
         else Inr (s, False))"

text \<open>Start of the token that ends before \<open>p\<close>: \<open>s = p - 1; while (s >= lpath && *s != '/') --s; ++s\<close>.\<close>

fun previous_token :: "byte list \<Rightarrow> nat \<Rightarrow> nat" where
  "previous_token l 0 = 0"
| "previous_token l (Suc k) = (if zat l k = SLASH then Suc k else previous_token l k)"

lemma previous_token_le: "previous_token l p \<le> p"
  by (induction p) auto

function collapse_dotdot :: "byte list \<Rightarrow> nat \<Rightarrow> byte list \<times> bool" where
  "collapse_dotdot l p =
     (if zat l p \<noteq> NUL \<and> zat l (p + 1) \<noteq> NUL \<and> zat l (p + 2) \<noteq> NUL then
        (if (zat l p \<noteq> SLASH \<or> zat l (p + 1) \<noteq> DOT \<or> zat l (p + 2) \<noteq> DOT) \<or>
            (zat l (p + 3) \<noteq> SLASH \<and> zat l (p + 3) \<noteq> NUL)
         then collapse_dotdot l (p + 1)
         else
           (let s = previous_token l p
            in if zat l s = DOT \<and> zat l (s + 1) = DOT \<and> s + 2 = p then collapse_dotdot l (p + 3)
               else if zat l (p + 3) \<noteq> NUL then
                 (let d = (if s = 0 \<and> zat l s = SLASH then s + 1 else s)
                  in (fst (collapse_dotdot (take d l @ drop (p + 4) l) (if 0 < s then s - 1 else s)), True))
               else if s = 0 then ([if zat l 0 \<noteq> SLASH then DOT else zat l 0], True)
               else if s = 1 then (take s l, True)
               else (take (s - 1) l, True)))
      else (l, False))"
  by pat_completeness auto

termination
proof (relation "measures [\<lambda>(l, p). length l, \<lambda>(l, p). length l - p]", goal_cases)
  case 1
  show ?case by simp
next
  case (2 l p)
  then show ?case by (auto simp: zat_def split: if_splits)
next
  case (3 l p s)
  then show ?case by (auto simp: zat_def split: if_splits)
next
  case (4 l p s d)
  then show ?case using previous_token_le [of l p] by (auto simp: zat_def split: if_splits)
qed

declare collapse_dotdot.simps [simp del]

definition u_canonicalize_pathname :: "byte list \<Rightarrow> byte list \<times> bool" where
  "u_canonicalize_pathname path =
     (let (l1, b1) = collapse_slashes path;
          (l2, b2) = collapse_dot l1;
          (l3, b3) = remove_trailing_slashes l2
      in case remove_leading_dot l3 of
           Inl r \<Rightarrow> (r, True)
         | Inr (l4, b4) \<Rightarrow>
             if length l4 < 2 then (l4, b1 \<or> b2 \<or> b3 \<or> b4)
             else (case remove_trailing_dot l4 of
                 Inl r \<Rightarrow> (r, True)
               | Inr (l5, b5) \<Rightarrow>
                   (let (l6, b6) = collapse_dotdot l5 0
                    in (l6, b1 \<or> b2 \<or> b3 \<or> b4 \<or> b5 \<or> b6))))"

subsection \<open>Base name, suffix, path relative to the working directory\<close>

text \<open>The pointer \<open>base\<close> is the string from it on.\<close>

fun basename_loop :: "byte list \<Rightarrow> byte list \<Rightarrow> byte list" where
  "basename_loop base [] = base"
| "basename_loop base (c # path) = basename_loop (if c = SLASH then path else base) path"

definition u_basename :: "byte list \<Rightarrow> byte list" where
  "u_basename path = basename_loop path path"

definition u_getsuffix :: "byte list \<Rightarrow> nat option" where
  "u_getsuffix path =
     (case memrchr path SLASH of
        Some i \<Rightarrow> map_option ((+) (i + 1)) (memrchr (drop (i + 1) path) DOT)
      | None \<Rightarrow> memrchr path DOT)"

text \<open>
  \<open>path\<close> is the memory at the pointer, terminator included, and \<open>len\<close> the value at \<open>ptr_path_len\<close>;
  the result is the memory at the pointer returned and the new length.
\<close>

fun strip_slashes :: "mem \<Rightarrow> nat \<Rightarrow> nat option" where
  "strip_slashes path 0 = None"
| "strip_slashes path (Suc k) = do {
     c \<leftarrow> rd path k;
     if c = SLASH then strip_slashes path k else Some (Suc k)
   }"

text \<open>Subtraction on \<open>uint32_t\<close>.\<close>

definition sub32 :: "nat \<Rightarrow> nat \<Rightarrow> nat" where
  "sub32 n k = (if k \<le> n then n - k else n + 2 ^ 32 - k)"

fun skip_slashes :: "mem \<Rightarrow> nat \<Rightarrow> (mem \<times> nat) option" where
  "skip_slashes [] n = None"
| "skip_slashes (c # path) n = (if c = SLASH then skip_slashes path (sub32 n 1) else Some (c # path, n))"

definition relativ_to_cwd :: "byte list \<Rightarrow> mem \<Rightarrow> nat \<Rightarrow> (mem \<times> nat) option" where
  "relativ_to_cwd cwd path len = do {
     path_len \<leftarrow> strip_slashes path len;
     if length cwd \<le> path_len \<and> take (length cwd) path = cwd then
       if path_len = length cwd then Some ([DOT, NUL], 1)
       else do {
         c \<leftarrow> rd path (length cwd);
         if length cwd = 1 \<or> c = SLASH then
           let n = length cwd + (if 1 < length cwd then 1 else 0)
           in skip_slashes (drop n path) (sub32 path_len n)
         else Some (path, path_len)
       }
     else Some (path, path_len)
   }"

definition u_getPathRelativ :: "byte list \<Rightarrow> mem \<Rightarrow> nat \<Rightarrow> (mem \<times> nat) option" where
  "u_getPathRelativ cwd path len = do {
     c \<leftarrow> rd path 0;
     (p, n) \<leftarrow> if c = hd cwd then relativ_to_cwd cwd path len else Some (path, len);
     c0 \<leftarrow> rd p 0;
     if c0 \<noteq> DOT then Some (p, n)
     else do {
       c1 \<leftarrow> rd p 1;
       Some (if c1 = SLASH then (drop 2 p, sub32 n 2) else (p, n))
     }
   }"

subsection \<open>Search along a path\<close>

definition U_PATH_MAX :: nat where "U_PATH_MAX = 1024"

text \<open>
  The next unit of the colon-separated \<open>string\<close> and the new index. The outer \<open>None\<close> is a write past
  the buffer \<open>pzDir\<close> of \<open>U_PATH_MAX + 1\<close> bytes, the inner one the null pointer.
\<close>

definition extract_colon_unit :: "byte list \<Rightarrow> nat \<Rightarrow> nat \<Rightarrow> (byte list \<times> nat) option option" where
  "extract_colon_unit string string_len p_index =
     (if string_len \<le> p_index then Some None
      else
        let pzSrc = dropWhile (\<lambda>c. c = COLON) (drop p_index string);
            pzDir = takeWhile (\<lambda>c. c \<noteq> COLON) pzSrc
        in if U_PATH_MAX < length pzDir then None
           else if pzDir = [] then Some None
           else Some (Some (pzDir, length string - length pzSrc + length pzDir)))"

definition make_absolute :: "byte list \<Rightarrow> byte list \<Rightarrow> byte list" where
  "make_absolute dot_path string =
     (if dot_path \<noteq> [] then dot_path @ (if last dot_path \<noteq> SLASH then [SLASH] else []) else [DOT, SLASH]) @ string"

definition U_PATH_DEFAULT :: "byte list" where
  "U_PATH_DEFAULT = bytes ''/sbin:/usr/sbin:/usr/local/sbin:/bin:/usr/bin:/usr/local/bin''"

lemma extract_colon_unit_advances:
  assumes "extract_colon_unit string n i = Some (Some (d, j))"
  shows "i < j \<and> j \<le> length string"
proof -
  let ?src = "dropWhile (\<lambda>c. c = COLON) (drop i string)"
  have d: "d = takeWhile (\<lambda>c. c \<noteq> COLON) ?src" "d \<noteq> []" "j = length string - length ?src + length d"
    using assms by (auto simp: extract_colon_unit_def Let_def split: if_splits)
  have "length d \<le> length ?src" unfolding d(1) by (rule length_takeWhile_le)
  moreover have "length ?src \<le> length string - i"
    using length_dropWhile_le [of _ "drop i string"] by simp
  moreover have "0 < length d" using d(2) by simp
  ultimately show ?thesis unfolding d(3) by linarith
qed

text \<open>
  The loop of \<open>u_pathfind\<close>: the answer and the contents of \<open>result\<close>. \<open>access\<close> says whether the file
  can be accessed in the mode asked for.
\<close>

function pathfind_loop :: "(byte list \<Rightarrow> bool) \<Rightarrow> byte list \<Rightarrow> byte list \<Rightarrow> nat \<Rightarrow> byte list \<Rightarrow> nat \<Rightarrow> (bool \<times> byte list) option" where
  "pathfind_loop access result path path_len filename p_index =
     (case extract_colon_unit path path_len p_index of
        None \<Rightarrow> None
      | Some None \<Rightarrow> Some (False, result)
      | Some (Some (colon_unit, p_index')) \<Rightarrow>
          let result' = make_absolute colon_unit filename
          in if access result' then Some (True, fst (u_canonicalize_pathname result'))
             else pathfind_loop access result' path path_len filename p_index')"
  by pat_completeness auto

termination
  by (relation "measure (\<lambda>(a, r, path, n, f, i). length path - i)")
    (auto dest!: extract_colon_unit_advances)

declare pathfind_loop.simps [simp del]

definition u_pathfind ::
    "(byte list \<Rightarrow> bool) \<Rightarrow> byte list option \<Rightarrow> byte list \<Rightarrow> byte list \<Rightarrow> nat \<Rightarrow> byte list \<Rightarrow> (bool \<times> byte list) option" where
  "u_pathfind access env_path result path path_len filename =
     (let (path', path_len') =
            (if path_len = 0 then
               (case env_path of
                  Some p \<Rightarrow> (p, length p)
                | None \<Rightarrow> (U_PATH_DEFAULT, length U_PATH_DEFAULT))
             else (path, path_len))
      in pathfind_loop access result path' path_len' filename 0)"

subsection \<open>Command line for \<open>exec\<close>\<close>

text \<open>\<open>argv[0]\<close> points to the buffer \<open>pathbuf\<close> or into the line.\<close>

datatype exec_file = In_pathbuf | In_line nat

record command =
  cmd_result :: int
  cmd_line :: mem
  cmd_file :: exec_file
  cmd_argv :: "nat list"
  cmd_pathbuf :: "byte list"

definition u_splitCommand ::
    "(byte list \<Rightarrow> bool) \<Rightarrow> byte list option \<Rightarrow> mem \<Rightarrow> nat \<Rightarrow> byte list \<Rightarrow> command option" where
  "u_splitCommand access env_path s n pathbuf = do {
     st \<leftarrow> u_split s n None;
     case argv st of
       [] \<Rightarrow> None
     | a # args \<Rightarrow>
         (let prog = cstr_at (smem st) a
          in if SLASH \<in> set prog then
               Some \<lparr>cmd_result = int (length (argv st)), cmd_line = smem st, cmd_file = In_line a,
                     cmd_argv = (a + (length prog - length (u_basename prog))) # args, cmd_pathbuf = []\<rparr>
             else
               (case u_pathfind access env_path pathbuf [] 0 prog of
                  None \<Rightarrow> None
                | Some (found, buf) \<Rightarrow>
                    Some \<lparr>cmd_result = (if found then int (length (argv st)) else -1), cmd_line = smem st,
                          cmd_file = In_pathbuf, cmd_argv = argv st, cmd_pathbuf = buf\<rparr>))
   }"

subsection \<open>Pseudo-random numbers\<close>

text \<open>The static variable \<open>_random\<close> is passed and returned; signed arithmetic wraps at 32 bits.\<close>

definition u_get_num_random :: "32 word \<Rightarrow> int \<Rightarrow> int \<times> 32 word" where
  "u_get_num_random random rng =
     (let r = (random * 1103515245 + 12345) AND 0x7fffffff
      in (sint r mod rng + 1, r))"

section \<open>Base name and suffix\<close>

lemma basename_loop_suffix:
  "basename_loop base path = (if SLASH \<in> set path then u_basename path else base)"
  unfolding u_basename_def
proof (induction path arbitrary: base)
  case (Cons c path)
  show ?case using Cons [of path] Cons [of base] Cons [of "c # path"] by auto
qed simp

lemma basename_split:
  "\<exists>dir. path = dir @ u_basename path \<and> SLASH \<notin> set (u_basename path) \<and> (dir = [] \<or> last dir = SLASH)"
proof (induction path)
  case (Cons c path)
  then obtain dir where dir: "path = dir @ u_basename path" "SLASH \<notin> set (u_basename path)" "dir = [] \<or> last dir = SLASH"
    by blast
  have b: "u_basename (c # path) = (if SLASH \<in> set path then u_basename path else if c = SLASH then path else c # path)"
    using basename_loop_suffix [of _ path] by (simp add: u_basename_def)
  show ?case
  proof (cases "SLASH \<in> set path")
    case True
    then have "dir \<noteq> []" using dir by auto
    then show ?thesis using True b dir by (intro exI [of _ "c # dir"]) auto
  next
    case False
    then show ?thesis using b by (cases "c = SLASH") (auto intro: exI [of _ "[c]"])
  qed
qed (simp add: u_basename_def)

text \<open>
  \<open>u_basename\<close> answers what follows the last slash: the path is a directory part, empty or ended
  by a slash, followed by the base name, which has no slash.
\<close>

theorem basename_correct:
  "\<exists>dir. path = dir @ u_basename path \<and> SLASH \<notin> set (u_basename path) \<and> (dir = [] \<or> last dir = SLASH)"
  by (rule basename_split)

text \<open>
  \<open>u_getsuffix\<close> points to the last dot of the path, provided no slash follows it: a dot in a
  directory name is not a suffix.
\<close>

theorem getsuffix_correct:
  "u_getsuffix path = Some i \<longleftrightarrow>
     i < length path \<and> path ! i = DOT \<and> DOT \<notin> set (drop (Suc i) path) \<and> SLASH \<notin> set (drop (Suc i) path)"
    (is "_ \<longleftrightarrow> ?r")
proof (cases "memrchr path SLASH")
  case None
  then have "SLASH \<notin> set path" by (simp add: memrchr_None)
  then show ?thesis
    using None by (auto simp: u_getsuffix_def memrchr_Some dest: in_set_dropD)
next
  case (Some k)
  then have k: "k < length path" "path ! k = SLASH" "SLASH \<notin> set (drop (Suc k) path)"
    by (simp_all add: memrchr_Some)
  have k_in: "i < k \<Longrightarrow> SLASH \<in> set (drop (Suc i) path)" for i
    using k nth_mem [of "k - Suc i" "drop (Suc i) path"] by auto
  show ?thesis
  proof
    assume "u_getsuffix path = Some i"
    then obtain j where j: "memrchr (drop (Suc k) path) DOT = Some j" "i = Suc (k + j)"
      using Some by (auto simp: u_getsuffix_def)
    have d: "drop (Suc i) path = drop (Suc j) (drop (Suc k) path)" by (simp add: j(2) add.commute)
    then have "SLASH \<notin> set (drop (Suc i) path)" using k(3) in_set_dropD by metis
    then show ?r
      using k(1) j unfolding d by (auto simp: memrchr_Some)
  next
    assume r: ?r
    then have "k < i" using k_in k(2) by (cases i k rule: linorder_cases) auto
    then obtain j where j: "i = Suc (k + j)" using less_iff_Suc_add by auto
    then have "memrchr (drop (Suc k) path) DOT = Some j" using r by (auto simp: memrchr_Some add.commute)
    then show "u_getsuffix path = Some i" using Some j by (simp add: u_getsuffix_def)
  qed
qed

section \<open>Path relative to the working directory\<close>

lemma strip_slashes_tail:
  assumes "x \<noteq> []" "last x \<noteq> SLASH"
  shows "strip_slashes (x @ replicate k SLASH @ y) (length x + k) = Some (length x)"
proof (induction k arbitrary: y)
  case 0
  then show ?case using assms by (cases x rule: rev_cases) auto
next
  case (Suc k)
  have "x @ replicate (Suc k) SLASH @ y = x @ replicate k SLASH @ SLASH # y" by (simp add: replicate_app_Cons_same)
  then show ?case using Suc [of "SLASH # y"] by simp
qed

lemma strip_slashes_all: "strip_slashes (replicate k SLASH @ y) k = None"
proof (induction k arbitrary: y)
  case (Suc k)
  have "rd (replicate (Suc k) SLASH @ y) k = Some SLASH"
    by (subst rd_append1) (simp_all del: replicate_Suc)
  then show ?case using Suc [of "SLASH # y"] by (simp add: replicate_app_Cons_same)
qed simp

lemma skip_slashes_replicate:
  "x \<noteq> [] \<Longrightarrow> hd x \<noteq> SLASH \<Longrightarrow> skip_slashes (replicate k SLASH @ x) (k + n) = Some (x, n)"
proof (induction k)
  case 0
  then show ?case by (cases x) auto
qed (simp add: sub32_def)

text \<open>
  For a path below the working directory, with any number of slashes between the two and at the
  end, \<open>u_getPathRelativ\<close> answers the rest of the path and its length without the final slashes.
\<close>

theorem getPathRelativ_below:
  assumes "1 < length cwd" "rest \<noteq> []" "hd rest \<noteq> SLASH" "last rest \<noteq> SLASH"
    and "\<not> prefix [DOT, SLASH] (rest @ replicate j SLASH)"
  shows "u_getPathRelativ cwd (cwd @ replicate (Suc k) SLASH @ rest @ replicate j SLASH @ [NUL])
      (length cwd + Suc k + length rest + j) =
    Some (rest @ replicate j SLASH @ [NUL], length rest)"
proof -
  let ?tail = "rest @ replicate j SLASH @ [NUL]"
  let ?m = "cwd @ replicate (Suc k) SLASH @ ?tail"
  let ?x = "cwd @ replicate (Suc k) SLASH @ rest"
  have strip: "strip_slashes ?m (length cwd + Suc k + length rest + j) = Some (length cwd + Suc k + length rest)"
    using strip_slashes_tail [of ?x j "[NUL]"] assms(2, 4) by (simp add: add.assoc)
  have "drop (length cwd + 1) ?m = replicate k SLASH @ ?tail"
    "sub32 (length cwd + Suc k + length rest) (length cwd + 1) = k + length rest" by (simp_all add: sub32_def)
  then have rel: "relativ_to_cwd cwd ?m (length cwd + Suc k + length rest + j) = Some (?tail, length rest)"
    using strip assms(1) skip_slashes_replicate [of ?tail k "length rest"] assms(2, 3)
    by (simp add: relativ_to_cwd_def rd_def)
  obtain c where c: "rd ?tail 1 = Some c" using assms(2) by (cases rest) (auto simp: rd_def)
  have "c \<noteq> SLASH" if "hd rest = DOT"
    using c assms(2, 5) that by (cases rest; cases "tl rest"; cases j) auto
  moreover have "rd ?tail 0 = Some (hd rest)" "rd ?m 0 = Some (hd cwd)"
    using assms(1, 2) by (cases rest; cases cwd; simp)+
  ultimately show ?thesis using rel c by (simp add: u_getPathRelativ_def)
qed

theorem getPathRelativ_below_witness:
  "u_getPathRelativ (bytes ''/home'') (bytes ''/home//src/'' @ [NUL]) (length (bytes ''/home//src/'')) =
    Some (bytes ''src/'' @ [NUL], length (bytes ''src''))"
proof -
  have "bytes ''/home//src/'' @ [NUL] = bytes ''/home'' @ replicate (Suc 1) SLASH @ bytes ''src'' @ replicate 1 SLASH @ [NUL]"
    by code_simp
  then show ?thesis
    using getPathRelativ_below [of "bytes ''/home''" "bytes ''src''" 1 1] by simp
qed

text \<open>
  \<open>u_getPathRelativ\<close> on a path of slashes only reads in front of the path when the working
  directory is absolute, and the length of a path that ends in \<open>/./\<close> below the working directory
  wraps around to the largest 32-bit value.
\<close>

theorem getPathRelativ_defects:
  "u_getPathRelativ (SLASH # cwd) (replicate (Suc k) SLASH @ [NUL]) (Suc k) = None"
  "u_getPathRelativ (bytes ''/home'') (bytes ''/home/./'' @ [NUL]) 8 = Some ([NUL], 2 ^ 32 - 1)"
proof -
  show "u_getPathRelativ (SLASH # cwd) (replicate (Suc k) SLASH @ [NUL]) (Suc k) = None"
    using strip_slashes_all [of "Suc k" "[NUL]"] by (simp add: u_getPathRelativ_def relativ_to_cwd_def)
  show "u_getPathRelativ (bytes ''/home'') (bytes ''/home/./'' @ [NUL]) 8 = Some ([NUL], 2 ^ 32 - 1)"
  proof -
    have "relativ_to_cwd (bytes ''/home'') (bytes ''/home/./'' @ [NUL]) 8 = Some (bytes ''./'' @ [NUL], 1)"
      by code_simp
    then show ?thesis by (simp add: u_getPathRelativ_def sub32_def)
  qed
qed

section \<open>Search along a path\<close>

definition candidates :: "byte list \<Rightarrow> byte list \<Rightarrow> byte list list" where
  "candidates path filename = map (\<lambda>d. make_absolute d filename) (split_words (\<lambda>c. c = COLON) path)"

text \<open>What \<open>u_pathfind\<close> answers: the first candidate that can be accessed, in canonical form.\<close>

definition pathfind_spec :: "(byte list \<Rightarrow> bool) \<Rightarrow> byte list \<Rightarrow> byte list list \<Rightarrow> bool \<times> byte list" where
  "pathfind_spec access result cands =
     (case find access cands of
        Some r \<Rightarrow> (True, fst (u_canonicalize_pathname r))
      | None \<Rightarrow> (False, last (result # cands)))"

lemma extract_colon_unit_words:
  assumes "\<forall>d \<in> set (split_words (\<lambda>c. c = COLON) (drop i path)). length d \<le> U_PATH_MAX"
  shows "case split_words (\<lambda>c. c = COLON) (drop i path) of
      [] \<Rightarrow> extract_colon_unit path (length path) i = Some None
    | d # ds \<Rightarrow> \<exists>j. extract_colon_unit path (length path) i = Some (Some (d, j)) \<and>
        split_words (\<lambda>c. c = COLON) (drop j path) = ds"
proof -
  let ?src = "dropWhile (\<lambda>c. c = COLON) (drop i path)"
  let ?d = "takeWhile (\<lambda>c. c \<noteq> COLON) ?src"
  have w: "split_words (\<lambda>c. c = COLON) (drop i path) =
      (if ?src = [] then [] else ?d # split_words (\<lambda>c. c = COLON) (dropWhile (\<lambda>c. c \<noteq> COLON) ?src))"
    by (subst split_words.simps) (simp only: Let_def)
  show ?thesis
  proof (cases "?src = []")
    case True
    then show ?thesis unfolding w by (simp only: if_True list.case extract_colon_unit_def Let_def) simp
  next
    case False
    then have "hd ?src \<noteq> COLON" using hd_dropWhile by blast
    then have d: "?d \<noteq> []" using False by (cases ?src) auto
    have i: "i < length path" using False by (cases "i < length path") auto
    let ?j = "length path - length ?src + length ?d"
    define u where "u = take i path @ takeWhile (\<lambda>c. c = COLON) (drop i path)"
    have u: "path = u @ ?src" by (simp add: u_def)
    have "length path - length ?src = length u" using arg_cong [OF u, of length] by simp
    moreover have "drop (length u + length ?d) path = drop (length ?d) ?src"
      using arg_cong [OF u, of "drop (length u + length ?d)"] by simp
    ultimately have "drop ?j path = dropWhile (\<lambda>c. c \<noteq> COLON) ?src"
      by (simp only: dropWhile_eq_drop [of "\<lambda>c. c \<noteq> COLON"])
    moreover have "length ?d \<le> U_PATH_MAX" using assms False unfolding w by simp
    ultimately show ?thesis
      unfolding w using False d i by (simp only: if_False list.case extract_colon_unit_def Let_def) simp
  qed
qed

lemma pathfind_loop_candidates:
  assumes "\<forall>d \<in> set (split_words (\<lambda>c. c = COLON) (drop i path)). length d \<le> U_PATH_MAX"
  shows "pathfind_loop access result path (length path) filename i =
    Some (pathfind_spec access result (candidates (drop i path) filename))"
  using assms
proof (induction "split_words (\<lambda>c. c = COLON) (drop i path)" arbitrary: i result)
  case Nil
  then show ?case
    using extract_colon_unit_words [of i path]
    by (subst pathfind_loop.simps) (simp add: pathfind_spec_def candidates_def flip: Nil(1))
next
  case (Cons d ds)
  then obtain j where j: "extract_colon_unit path (length path) i = Some (Some (d, j))"
    "split_words (\<lambda>c. c = COLON) (drop j path) = ds"
    using extract_colon_unit_words [of i path] by (auto simp flip: Cons(2))
  have "pathfind_loop access (make_absolute d filename) path (length path) filename j =
      Some (pathfind_spec access (make_absolute d filename) (candidates (drop j path) filename))"
    using Cons(1) [of j "make_absolute d filename"] Cons(3) j by (auto simp flip: Cons(2))
  then show ?case
    using j by (subst pathfind_loop.simps) (simp add: pathfind_spec_def candidates_def Let_def split: option.split flip: Cons(2))
qed

text \<open>
  \<open>u_pathfind\<close> tries the non-empty units of the path in their order and answers true with the
  canonical name of the first file that can be accessed, false when there is none; without a path
  it searches the environment's, or the default one when there is none.
\<close>

theorem pathfind_correct:
  assumes "p = (if path_len = 0 then case env of Some e \<Rightarrow> e | None \<Rightarrow> U_PATH_DEFAULT else path)"
    and "path_len = 0 \<or> path_len = length path"
    and "\<forall>d \<in> set (split_words (\<lambda>c. c = COLON) p). length d \<le> U_PATH_MAX"
  shows "u_pathfind access env result path path_len filename =
    Some (pathfind_spec access result (candidates p filename))"
  using assms pathfind_loop_candidates [of 0 p access result filename]
  by (auto simp: u_pathfind_def split: option.splits)

theorem pathfind_correct_witness:
  "u_pathfind (\<lambda>f. f = bytes ''/bin/./ls'') None [] (bytes ''/sbin::/bin/.'') 13 (bytes ''ls'') = Some (True, bytes ''/bin/ls'')"
proof -
  let ?p = "bytes ''/sbin::/bin/.''"
  have h: "\<forall>d \<in> set (split_words (\<lambda>c. c = COLON) ?p). length d \<le> U_PATH_MAX"
    by code_simp
  have "u_pathfind (\<lambda>f. f = bytes ''/bin/./ls'') None [] ?p 13 (bytes ''ls'') =
      Some (pathfind_spec (\<lambda>f. f = bytes ''/bin/./ls'') [] (candidates ?p (bytes ''ls'')))"
    by (rule pathfind_correct [OF _ _ h]) simp_all
  also have "\<dots> = Some (True, bytes ''/bin/ls'')" by code_simp
  finally show ?thesis .
qed

section \<open>Command line\<close>

lemma cstr_at_drop:
  assumes "k \<le> length (cstr_at m a)"
  shows "cstr_at m (a + k) = drop k (cstr_at m a)"
proof -
  have "takeWhile P (drop k xs) = drop k (takeWhile P xs)" if "k \<le> length (takeWhile P xs)" for P and xs :: mem
    using that by (induction xs arbitrary: k) (auto simp: drop_Cons' split: if_splits)
  from this [of "\<lambda>c. c \<noteq> NUL" "drop a m"] show ?thesis
    using assms by (simp add: cstr_at_def add.commute)
qed

lemma split_line:
  assumes "plain_text t"
  obtains st where "u_split (t @ [NUL]) (length t) None = Some st"
    "map (cstr_at (smem st)) (argv st) = split_words u__isspace t"
proof -
  have "rest_of t (smem \<lparr>smem = t @ [NUL], argv = []\<rparr>) 0" by (simp add: rest_of_def)
  then show ?thesis
    using split_loop_words [of t "\<lparr>smem = t @ [NUL], argv = []\<rparr>" 0 None] assms that
    by (auto simp: u_split_def split_adds_def is_sep_def [abs_def])
qed

lemma basename_drop: "drop (length path - length (u_basename path)) path = u_basename path"
  using basename_split [of path] by (metis append_eq_conv_conj length_append add_diff_cancel_right')

lemma basename_length: "length (u_basename path) \<le> length path"
  using basename_split [of path] by (metis length_append le_add2)

text \<open>
  A command line whose program has a slash becomes the program's path in \<open>argv[0]\<close>, its base name
  in \<open>argv[1]\<close> and the other words in the rest of \<open>argv\<close>; the result is the number of words.
\<close>

theorem splitCommand_path:
  assumes "plain_text t" "split_words u__isspace t = prog # args" "SLASH \<in> set prog"
  shows "\<exists>c a. u_splitCommand access env (t @ [NUL]) (length t) buf = Some c \<and>
    cmd_result c = int (length (prog # args)) \<and> cmd_file c = In_line a \<and> cstr_at (cmd_line c) a = prog \<and>
    map (cstr_at (cmd_line c)) (cmd_argv c) = u_basename prog # args"
proof -
  obtain st where st: "u_split (t @ [NUL]) (length t) None = Some st"
    "map (cstr_at (smem st)) (argv st) = prog # args"
    using split_line [OF assms(1)] assms(2) by metis
  then obtain a as where a: "argv st = a # as" "cstr_at (smem st) a = prog" "map (cstr_at (smem st)) as = args"
    by (cases "argv st") auto
  have "cstr_at (smem st) (a + (length prog - length (u_basename prog))) = u_basename prog"
    using cstr_at_drop [of "length prog - length (u_basename prog)" "smem st" a] a(2) by (simp add: basename_drop)
  then show ?thesis
    using st(1) a assms(3) by (auto simp: u_splitCommand_def Let_def)
qed

theorem splitCommand_path_witness:
  "\<exists>c a. u_splitCommand (\<lambda>_. False) None (bytes ''/bin/ls -l'' @ [NUL]) (length (bytes ''/bin/ls -l'')) [] = Some c \<and>
    cmd_result c = int (length [bytes ''/bin/ls'', bytes ''-l'']) \<and> cmd_file c = In_line a \<and>
    cstr_at (cmd_line c) a = bytes ''/bin/ls'' \<and>
    map (cstr_at (cmd_line c)) (cmd_argv c) = u_basename (bytes ''/bin/ls'') # [bytes ''-l'']"
proof (rule splitCommand_path)
  show "plain_text (bytes ''/bin/ls -l'')" by code_simp
  show "split_words u__isspace (bytes ''/bin/ls -l'') = [bytes ''/bin/ls'', bytes ''-l'']" by code_simp
  show "SLASH \<in> set (bytes ''/bin/ls'')" by simp
qed

text \<open>
  A program without a slash is searched along the environment's path: \<open>argv[0]\<close> is the buffer
  with the name found, \<open>argv\<close> from 1 on are the words, and the result is -1 when nothing is found.
\<close>

theorem splitCommand_search:
  assumes "plain_text t" "split_words u__isspace t = prog # args" "SLASH \<notin> set prog"
    and "p = (case env of Some e \<Rightarrow> e | None \<Rightarrow> U_PATH_DEFAULT)"
    and "\<forall>d \<in> set (split_words (\<lambda>c. c = COLON) p). length d \<le> U_PATH_MAX"
    and "pathfind_spec access buf (candidates p prog) = (found, file)"
  shows "\<exists>c. u_splitCommand access env (t @ [NUL]) (length t) buf = Some c \<and>
    cmd_result c = (if found then int (length (prog # args)) else -1) \<and>
    cmd_file c = In_pathbuf \<and> cmd_pathbuf c = file \<and>
    map (cstr_at (cmd_line c)) (cmd_argv c) = prog # args"
proof -
  obtain st where st: "u_split (t @ [NUL]) (length t) None = Some st"
    "map (cstr_at (smem st)) (argv st) = prog # args"
    using split_line [OF assms(1)] assms(2) by metis
  then obtain a as where a: "argv st = a # as" "cstr_at (smem st) a = prog" "map (cstr_at (smem st)) as = args"
    by (cases "argv st") auto
  have "u_pathfind access env buf [] 0 prog = Some (found, file)"
    using pathfind_loop_candidates [of 0 p access buf prog] assms(4-6)
    by (auto simp: u_pathfind_def split: option.splits)
  then show ?thesis
    using st(1) a assms(3) by (auto simp: u_splitCommand_def Let_def)
qed

theorem splitCommand_search_witness:
  "\<exists>c. u_splitCommand (\<lambda>f. f = bytes ''/bin/ls'') (Some (bytes ''/bin'')) (bytes ''ls -l'' @ [NUL]) (length (bytes ''ls -l'')) [] = Some c \<and>
    cmd_result c = (if True then int (length [bytes ''ls'', bytes ''-l'']) else -1) \<and>
    cmd_file c = In_pathbuf \<and> cmd_pathbuf c = bytes ''/bin/ls'' \<and>
    map (cstr_at (cmd_line c)) (cmd_argv c) = [bytes ''ls'', bytes ''-l'']"
proof (rule splitCommand_search)
  show "plain_text (bytes ''ls -l'')" by code_simp
  show "split_words u__isspace (bytes ''ls -l'') = [bytes ''ls'', bytes ''-l'']" by code_simp
  show "SLASH \<notin> set (bytes ''ls'')" by simp
  show "bytes ''/bin'' = (case Some (bytes ''/bin'') of Some e \<Rightarrow> e | None \<Rightarrow> U_PATH_DEFAULT)" by simp
  show "\<forall>d \<in> set (split_words (\<lambda>c. c = COLON) (bytes ''/bin'')). length d \<le> U_PATH_MAX" by code_simp
  show "pathfind_spec (\<lambda>f. f = bytes ''/bin/ls'') [] (candidates (bytes ''/bin'') (bytes ''ls'')) = (True, bytes ''/bin/ls'')"
    by code_simp
qed

text \<open>
  A command line of white space only makes \<open>u_splitCommand\<close> read through the null pointer that
  \<open>u_split\<close> leaves in \<open>argv[1]\<close>.
\<close>

theorem splitCommand_blank:
  assumes "\<forall>c \<in> set t. u__isspace c"
  shows "u_splitCommand access env (t @ [NUL]) (length t) buf = None"
proof -
  have plain: "plain_text t"
  proof -
    have "\<not> u__isspace NUL" "\<not> u__isspace DQUOTE" "\<not> u__isspace APOS" by code_simp+
    then show ?thesis using assms by (auto simp: plain_text_def)
  qed
  have "split_words u__isspace t = []" using assms by (subst split_words.simps) simp
  then obtain st where "u_split (t @ [NUL]) (length t) None = Some st" "argv st = []"
    using split_line [OF plain] by auto
  then show ?thesis by (simp add: u_splitCommand_def)
qed

theorem splitCommand_blank_witness: "u_splitCommand (\<lambda>_. False) None ([SPACE, TAB] @ [NUL]) (length [SPACE, TAB]) [] = None"
proof -
  have "\<forall>c \<in> set [SPACE, TAB]. u__isspace c" by code_simp
  then show ?thesis by (rule splitCommand_blank)
qed

text \<open>
  \<open>u_get_num_random\<close> answers a number from 1 to its argument, whatever the state, and keeps the
  state a non-negative \<open>int\<close>.
\<close>

theorem get_num_random_range:
  assumes "0 < rng" "u_get_num_random random rng = (n, random')"
  shows "1 \<le> n \<and> n \<le> rng \<and> 0 \<le> sint random'"
proof -
  let ?r = "(random * 1103515245 + 12345) AND 0x7fffffff :: 32 word"
  have n: "n = sint ?r mod rng + 1" "random' = ?r" using assms(2) by (auto simp: u_get_num_random_def Let_def)
  have "\<not> bit ?r 31" by (simp add: bit_simps)
  then have "0 \<le> sint ?r" using bit_last_iff [of ?r] by simp
  then show ?thesis using n assms(1) by (simp add: zless_imp_add1_zle)
qed

theorem get_num_random_range_witness: "1 \<le> fst (u_get_num_random 1 6) \<and> fst (u_get_num_random 1 6) \<le> 6"
  using get_num_random_range [of 6 1 "fst (u_get_num_random 1 6)" "snd (u_get_num_random 1 6)"] by simp

end
