(* ===== verification/Canonical.thy ===== *)
theory Canonical
  imports Path
begin

text \<open>
  The canonical form of a path name: \<open>u_canonicalize_pathname\<close> rewrites its argument in place, in six
  passes over the bytes. Here it is proved equal to a specification on the components of the path,
  and the boolean it returns to say exactly whether the path was changed.
\<close>

section \<open>Specification of the canonical form\<close>

text \<open>
  A path is a list of components between slashes, absolute or relative. Empty components and dots
  do not count; a \<open>..\<close> removes the component before it, is dropped at the root, and stays in front
  of a relative path.
\<close>

abbreviation DOTDOT :: "byte list" where "DOTDOT \<equiv> [DOT, DOT]"

definition components :: "byte list \<Rightarrow> byte list list" where
  "components path = filter (\<lambda>c. c \<noteq> [DOT]) (split_words (\<lambda>c. c = SLASH) path)"

fun push_component :: "bool \<Rightarrow> byte list \<Rightarrow> byte list list \<Rightarrow> byte list list" where
  "push_component root c [] = (if c = DOTDOT \<and> root then [] else [c])"
| "push_component root c (t # st) = (if c = DOTDOT \<and> t \<noteq> DOTDOT then st else c # t # st)"

definition slashed :: "byte list list \<Rightarrow> byte list" where
  "slashed cs = concat (map (\<lambda>c. SLASH # c) cs)"

definition render_path :: "bool \<Rightarrow> byte list list \<Rightarrow> byte list" where
  "render_path root cs =
     (if root then SLASH # drop 1 (slashed cs) else if cs = [] then [DOT] else drop 1 (slashed cs))"

definition canonical_path :: "byte list \<Rightarrow> byte list" where
  "canonical_path path =
     (if path = [] then []
      else let root = (hd path = SLASH)
           in render_path root (rev (fold (push_component root) (components path) [])))"

section \<open>Words between slashes\<close>

definition word_ok :: "byte list \<Rightarrow> bool" where
  "word_ok w \<longleftrightarrow> w \<noteq> [] \<and> SLASH \<notin> set w \<and> NUL \<notin> set w"

abbreviation path_words :: "byte list \<Rightarrow> byte list list" where
  "path_words \<equiv> split_words (\<lambda>c. c = SLASH)"

lemma path_words_Nil [simp]: "path_words [] = []"
  by (simp add: split_words.simps)

lemma path_words_slash [simp]: "path_words (SLASH # r) = path_words r"
  by (rule split_words_sep) simp

lemma path_words_char:
  assumes "c \<noteq> SLASH"
  shows "path_words (c # r) =
    (if r = [] \<or> hd r = SLASH then [c] # path_words r else (c # hd (path_words r)) # tl (path_words r))"
proof (cases r)
  case Nil
  then show ?thesis using assms by (subst split_words.simps) simp
next
  case (Cons d q)
  then show ?thesis
    using assms
    by (subst split_words.simps) (simp add: split_words.simps [of _ "d # q"])
qed

lemma path_words_eq_Nil: "path_words l = [] \<longleftrightarrow> set l \<subseteq> {SLASH}"
proof (induction l)
  case (Cons c r)
  then show ?case by (cases "c = SLASH") (auto simp: path_words_char)
qed simp

lemma path_words_dropWhile: "path_words (dropWhile (\<lambda>x. x = SLASH) l) = path_words l"
  by (induction l) auto

lemma path_words_ok: "NUL \<notin> set l \<Longrightarrow> \<forall>w \<in> set (path_words l). word_ok w"
proof (induction l)
  case (Cons c r)
  show ?case
  proof (cases "c = SLASH \<or> r = [] \<or> hd r = SLASH")
    case True
    then show ?thesis using Cons by (cases "c = SLASH") (simp_all add: path_words_char word_ok_def)
  next
    case False
    then have "path_words r \<noteq> []" by (cases r) (auto simp: path_words_eq_Nil)
    then show ?thesis
      using Cons False by (cases "path_words r") (auto simp: path_words_char word_ok_def)
  qed
qed simp

lemma slashed_simps [simp]:
  "slashed [] = []" "slashed (c # cs) = SLASH # c @ slashed cs" "slashed (cs @ ds) = slashed cs @ slashed ds"
  by (simp_all add: slashed_def)

lemma slashed_eq_Nil [simp]: "slashed cs = [] \<longleftrightarrow> cs = []"
  by (cases cs) auto

lemma hd_slashed [simp]: "cs \<noteq> [] \<Longrightarrow> hd (slashed cs) = SLASH"
  by (cases cs) auto

lemma slash_drop_slashed: "cs \<noteq> [] \<Longrightarrow> SLASH # drop 1 (slashed cs) = slashed cs"
  by (cases cs) auto

lemma render_path_slashed: "cs \<noteq> [] \<Longrightarrow> render_path root cs = (if root then slashed cs else drop 1 (slashed cs))"
  by (cases cs) (auto simp: render_path_def)

lemma render_path_root: "render_path True cs = (if cs = [] then [SLASH] else slashed cs)"
  by (cases cs) (auto simp: render_path_def)

lemma last_dropWhile_eq: "dropWhile P xs \<noteq> [] \<Longrightarrow> last (dropWhile P xs) = last xs"
  by (metis last_appendR takeWhile_dropWhile_id)

section \<open>The passes on words\<close>

lemma collapse_slashes_words:
  "fst (collapse_slashes l) =
     (if l = [] then [] else if path_words l = [] then [SLASH]
      else (if hd l = SLASH then slashed (path_words l) else drop 1 (slashed (path_words l))) @
           (if last l = SLASH then [SLASH] else []))"
proof (induction l rule: collapse_slashes.induct)
  case (2 c r)
  show ?case
  proof (cases "c = SLASH \<and> zat r 0 = SLASH")
    case True
    define s where "s = dropWhile (\<lambda>x. x = SLASH) (drop 1 r)"
    from True obtain q where r: "r = SLASH # q" by (cases r) auto
    then have w: "path_words s = path_words (c # r)"
      unfolding s_def using True by (simp add: path_words_dropWhile)
    have e: "fst (collapse_slashes (c # r)) = c # fst (collapse_slashes s)"
      using True by (simp add: Let_def s_def)
    note IH = 2(1) [OF True s_def]
    show ?thesis
    proof (cases "s = []")
      case s: True
      then have "path_words (c # r) = []" unfolding w [symmetric] by (simp only: path_words_Nil)
      then show ?thesis unfolding e using True s by simp
    next
      case False
      then have h: "hd s \<noteq> SLASH" unfolding s_def using hd_dropWhile by blast
      with False have n: "path_words s \<noteq> []" by (cases s) (auto simp: path_words_eq_Nil)
      have "last s = last (c # r)"
        using False r last_dropWhile_eq [of _ "drop 1 r"] unfolding s_def by auto
      then show ?thesis
        unfolding e using True False h n IH w slash_drop_slashed [OF n] by simp
    qed
  next
    case False
    note IH = 2(2) [OF False]
    have e: "fst (collapse_slashes (c # r)) = c # fst (collapse_slashes r)"
      using False by (auto simp: Let_def split: prod.splits)
    show ?thesis
    proof (cases "r = []")
      case True
      then show ?thesis by (auto simp: path_words_char)
    next
      case r: False
      then have l: "last (c # r) = last r" by simp
      show ?thesis
      proof (cases "c = SLASH")
        case True
        with False r have h: "hd r \<noteq> SLASH" by (simp add: zat_0)
        with r have "path_words r \<noteq> []" by (cases r) (auto simp: path_words_eq_Nil)
        then show ?thesis unfolding e l using IH True r h slash_drop_slashed [of "path_words r"] by simp
      next
        case c: False
        show ?thesis
        proof (cases "hd r = SLASH")
          case True
          then show ?thesis unfolding e l using IH c r
            by (auto simp: path_words_char path_words_eq_Nil last_in_set subset_singleton_iff dest: last_in_set)
        next
          case h: False
          with r have "path_words r \<noteq> []" by (cases r) (auto simp: path_words_eq_Nil)
          then show ?thesis unfolding e l using IH c r h
            by (cases "path_words r") (auto simp: path_words_char)
        qed
      qed
    qed
  qed
qed simp

lemma collapse_dot_word: "SLASH \<notin> set w \<Longrightarrow> fst (collapse_dot (w @ l)) = w @ fst (collapse_dot l)"
  by (induction w) (auto simp: Let_def split: prod.splits)

definition undot :: "bool \<Rightarrow> byte list list \<Rightarrow> byte list list" where
  "undot all ws =
     (if all then filter (\<lambda>w. w \<noteq> [DOT]) ws
      else filter (\<lambda>w. w \<noteq> [DOT]) (butlast ws) @ (if ws = [] then [] else [last ws]))"

lemma collapse_dot_slashed:
  assumes "\<forall>w \<in> set ws. word_ok w"
  shows "fst (collapse_dot (slashed ws @ (if t then [SLASH] else []))) =
    slashed (undot t ws) @ (if t then [SLASH] else [])"
  using assms
proof (induction ws)
  case Nil
  then show ?case by (simp add: undot_def)
next
  case (Cons w ws)
  let ?r = "slashed ws @ (if t then [SLASH] else [])"
  have IH: "fst (collapse_dot ?r) = slashed (undot t ws) @ (if t then [SLASH] else [])"
    using Cons by simp
  have w: "w \<noteq> []" "SLASH \<notin> set w" using Cons(2) by (auto simp: word_ok_def)
  have m: "zat (w @ ?r) 0 = DOT \<and> zat (w @ ?r) 1 = SLASH \<longleftrightarrow> w = [DOT] \<and> ?r \<noteq> []"
  proof (cases w)
    case (Cons x v)
    then show ?thesis using w by (cases v; cases ws) auto
  qed (use w in simp)
  show ?case
  proof (cases "w = [DOT] \<and> ?r \<noteq> []")
    case True
    with m IH show ?thesis using True by (cases "ws = []"; cases t) (auto simp: undot_def)
  next
    case False
    then have "fst (collapse_dot (SLASH # w @ ?r)) = SLASH # fst (collapse_dot (w @ ?r))"
      using m by (auto simp: Let_def split: prod.splits)
    also have "\<dots> = SLASH # w @ slashed (undot t ws) @ (if t then [SLASH] else [])"
      using w IH by (simp add: collapse_dot_word)
    finally show ?thesis using False by (cases "ws = []") (auto simp: undot_def)
  qed
qed

lemma trailing_slashes_id: "last l \<noteq> SLASH \<or> length l \<le> 1 \<Longrightarrow> fst (remove_trailing_slashes l) = l"
  by (subst remove_trailing_slashes.simps) auto

lemma trailing_slashes_one: "last l \<noteq> SLASH \<Longrightarrow> l \<noteq> [] \<Longrightarrow> fst (remove_trailing_slashes (l @ [SLASH])) = l"
  by (subst remove_trailing_slashes.simps) (auto simp: trailing_slashes_id Suc_le_eq)

lemma last_slashed: "cs \<noteq> [] \<Longrightarrow> \<forall>w \<in> set cs. word_ok w \<Longrightarrow> last (slashed cs) \<noteq> SLASH"
proof (induction cs)
  case (Cons c cs)
  then have "last c \<noteq> SLASH" "c \<noteq> []" by (auto simp: word_ok_def) (metis last_in_set)
  then show ?case using Cons by (cases "cs = []") auto
qed simp

lemma trailing_dot_slash:
  assumes "word_ok w"
  shows "remove_trailing_dot (x @ SLASH # w) =
    (if w = [DOT] then if x = [] then Inl [SLASH] else Inr (x, True) else Inr (x @ SLASH # w, False))"
proof -
  obtain v z where w: "w = v @ [z]" using assms by (cases w rule: rev_cases) (auto simp: word_ok_def)
  then have z: "z \<noteq> SLASH" "SLASH \<notin> set v" using assms by (auto simp: word_ok_def)
  show ?thesis
  proof (cases v rule: rev_cases)
    case Nil
    then show ?thesis using w z by (auto simp: remove_trailing_dot_def zat_append)
  next
    case (snoc u y)
    then have "y \<noteq> SLASH" using z by auto
    then show ?thesis using w z snoc by (auto simp: remove_trailing_dot_def zat_append Let_def)
  qed
qed

lemma trailing_dot_word:
  assumes "word_ok w"
  shows "remove_trailing_dot w = Inr (w, False)"
proof -
  have "zat w i \<noteq> SLASH" for i using assms by (auto simp: zat_def word_ok_def) (metis nth_mem)
  then show ?thesis by (simp add: remove_trailing_dot_def Let_def)
qed

lemma collapse_dotdot_short: "length l < 3 \<Longrightarrow> collapse_dotdot l p = (l, False)"
  by (subst collapse_dotdot.simps) (auto simp: zat_def)

text \<open>What the passes before the last one leave.\<close>

definition before_dotdot :: "byte list \<Rightarrow> byte list" where
  "before_dotdot path =
     (case remove_leading_dot (fst (remove_trailing_slashes (fst (collapse_dot (fst (collapse_slashes path)))))) of
        Inl r \<Rightarrow> r
      | Inr (l, _) \<Rightarrow>
          if length l < 2 then l else (case remove_trailing_dot l of Inl r \<Rightarrow> r | Inr (l', _) \<Rightarrow> l'))"

lemma canonicalize_before_dotdot:
  "fst (u_canonicalize_pathname path) = fst (collapse_dotdot (before_dotdot path) 0)"
proof -
  have "remove_leading_dot l = Inl r \<Longrightarrow> length r < 3" "remove_trailing_dot l = Inl r \<Longrightarrow> length r < 3" for l r
    by (auto simp: remove_leading_dot_def remove_trailing_dot_def Let_def split: if_splits)
  then show ?thesis
    by (simp add: u_canonicalize_pathname_def before_dotdot_def case_prod_unfold Let_def
        collapse_dotdot_short split: sum.splits)
qed

lemma undot_ok: "\<forall>w \<in> set ws. word_ok w \<Longrightarrow> \<forall>w \<in> set (undot t ws). word_ok w"
  by (auto simp: undot_def dest: in_set_butlastD)

lemma undot_filter:
  "undot t ws = filter (\<lambda>w. w \<noteq> [DOT]) ws \<or>
   (\<not> t \<and> ws \<noteq> [] \<and> last ws = [DOT] \<and> undot t ws = filter (\<lambda>w. w \<noteq> [DOT]) ws @ [[DOT]])"
  by (cases ws rule: rev_cases) (auto simp: undot_def)

lemma components_no_dot: "[DOT] \<notin> set (components path)"
  by (simp add: components_def)

lemma before_dotdot_root:
  assumes "path \<noteq> []" "hd path = SLASH" "NUL \<notin> set path"
  shows "before_dotdot path = render_path True (components path)"
proof -
  let ?ws = "path_words path" and ?t = "last path = SLASH"
  let ?vs = "undot ?t ?ws"
  have ok: "\<forall>w \<in> set ?ws. word_ok w" using path_words_ok assms(3) by blast
  have "?ws = [] \<Longrightarrow> ?t" using assms(1) last_in_set by (auto simp: path_words_eq_Nil)
  then have "fst (collapse_slashes path) = slashed ?ws @ (if ?t then [SLASH] else [])"
    using assms by (auto simp: collapse_slashes_words)
  then have l2: "fst (collapse_dot (fst (collapse_slashes path))) = slashed ?vs @ (if ?t then [SLASH] else [])"
    using collapse_dot_slashed [OF ok] by simp
  have l3: "fst (remove_trailing_slashes (slashed ?vs @ (if ?t then [SLASH] else []))) =
      (if ?vs = [] then [SLASH] else slashed ?vs)"
  proof (cases "?vs = []")
    case True
    then have ?t using \<open>?ws = [] \<Longrightarrow> ?t\<close> by (auto simp: undot_def split: if_splits)
    then show ?thesis using True by (simp add: trailing_slashes_id)
  next
    case False
    then show ?thesis
      using last_slashed [OF False undot_ok [OF ok]]
      by (cases ?t) (simp_all add: trailing_slashes_id trailing_slashes_one)
  qed
  have l4: "remove_leading_dot (if ?vs = [] then [SLASH] else slashed ?vs) =
      Inr (if ?vs = [] then [SLASH] else slashed ?vs, False)"
    by (cases ?vs) (auto simp: remove_leading_dot_def)
  show ?thesis
  proof (cases ?vs rule: rev_cases)
    case Nil
    then have "components path = []" using undot_filter [of ?t ?ws] by (auto simp: components_def)
    then show ?thesis using Nil l2 l3 l4 by (simp add: before_dotdot_def render_path_def)
  next
    case (snoc us w)
    have w: "word_ok w" using undot_ok [OF ok, of ?t] unfolding snoc by simp
    then have "\<not> length (slashed ?vs) < 2" using snoc by (cases w) (auto simp: word_ok_def)
    then have b: "before_dotdot path = (case remove_trailing_dot (slashed us @ SLASH # w) of Inl r \<Rightarrow> r | Inr (l', _) \<Rightarrow> l')"
      using l2 l3 l4 snoc by (auto simp: before_dotdot_def)
    have "components path \<noteq> us @ [[DOT]]" using components_no_dot [of path] by auto
    then consider "w = [DOT]" "components path = us" | "w \<noteq> [DOT]" "components path = ?vs"
      using undot_filter [of ?t ?ws] snoc unfolding components_def by (cases "w = [DOT]") auto
    then show ?thesis
      by cases (use b w snoc in \<open>auto simp: trailing_dot_slash render_path_root\<close>)
  qed
qed

lemma before_dotdot_relative:
  assumes "path \<noteq> []" "hd path \<noteq> SLASH" "NUL \<notin> set path"
  shows "before_dotdot path = render_path False (components path)"
proof -
  let ?t = "last path = SLASH"
  have ok: "\<forall>w \<in> set (path_words path). word_ok w" using path_words_ok assms(3) by blast
  have "path_words path \<noteq> []" using assms by (cases path) (auto simp: path_words_eq_Nil)
  then obtain w ws where ws: "path_words path = w # ws" by (cases "path_words path") auto
  define vs where "vs = undot ?t ws"
  have w: "word_ok w" "w \<noteq> []" "SLASH \<notin> set w" "last w \<noteq> SLASH"
    using ok ws by (auto simp: word_ok_def) (metis last_in_set)
  have vok: "\<forall>v \<in> set vs. word_ok v" unfolding vs_def using ok ws by (intro undot_ok) simp
  have "fst (collapse_slashes path) = w @ slashed ws @ (if ?t then [SLASH] else [])"
    using assms ws by (simp add: collapse_slashes_words)
  then have l2: "fst (collapse_dot (fst (collapse_slashes path))) = (w @ slashed vs) @ (if ?t then [SLASH] else [])"
    using collapse_dot_slashed [of ws] w ok ws by (simp add: collapse_dot_word vs_def)
  have "last (w @ slashed vs) \<noteq> SLASH"
    using w last_slashed [OF _ vok] by (cases "vs = []") auto
  then have l3: "fst (remove_trailing_slashes ((w @ slashed vs) @ (if ?t then [SLASH] else []))) = w @ slashed vs"
    using w by (cases ?t) (simp_all add: trailing_slashes_id trailing_slashes_one del: append_assoc)
  define us where "us = (if w = [DOT] \<and> vs \<noteq> [] then vs else w # vs)"
  have l4: "\<exists>b. remove_leading_dot (w @ slashed vs) = Inr (drop 1 (slashed us), b)"
  proof (cases w)
    case (Cons x v)
    show ?thesis
    proof (cases "v = []")
      case True
      then show ?thesis using Cons w vok
        by (cases vs; cases "hd vs") (auto simp: remove_leading_dot_def us_def word_ok_def)
    next
      case False
      then show ?thesis using Cons w by (cases v) (auto simp: remove_leading_dot_def us_def)
    qed
  qed (use w in simp)
  have us: "us \<noteq> []" "\<forall>u \<in> set us. word_ok u" using w vok by (auto simp: us_def split: if_splits)
  have b: "before_dotdot path = (if length (drop 1 (slashed us)) < 2 then drop 1 (slashed us)
     else (case remove_trailing_dot (drop 1 (slashed us)) of Inl r \<Rightarrow> r | Inr (l', _) \<Rightarrow> l'))"
    using l2 l3 l4 by (auto simp: before_dotdot_def)
  obtain xs u where xu: "us = xs @ [u]" using us(1) by (cases us rule: rev_cases) auto
  have u: "word_ok u" and u_in: "u \<in> set us" using us(2) xu by simp_all
  have c: "us = components path \<or> u = [DOT] \<and> xs = components path"
    using undot_filter [of ?t ws] ws xu by (auto simp: us_def vs_def [symmetric] components_def split: if_splits)
  show ?thesis
  proof (cases "xs = []")
    case True
    with c xu have "components path = [u] \<or> u = [DOT] \<and> components path = []" by auto
    then show ?thesis using True b xu trailing_dot_word [OF u] by (auto simp: render_path_def)
  next
    case False
    then have d: "drop 1 (slashed us) = drop 1 (slashed xs) @ SLASH # u"
      using xu by (cases xs) auto
    have "drop 1 (slashed xs) \<noteq> []" using False us(2) xu by (cases xs) (auto simp: word_ok_def)
    moreover have "\<not> length (drop 1 (slashed us)) < 2" using d u by (cases u) (auto simp: word_ok_def)
    moreover have "components path = (if u = [DOT] then xs else us)"
      using c u_in components_no_dot [of path] by metis
    ultimately show ?thesis using b d u False us(1)
      by (simp add: trailing_dot_slash render_path_slashed)
  qed
qed

section \<open>The last pass\<close>

definition dotdot_at :: "byte list \<Rightarrow> nat \<Rightarrow> bool" where
  "dotdot_at l p \<longleftrightarrow>
     zat l p = SLASH \<and> zat l (p + 1) = DOT \<and> zat l (p + 2) = DOT \<and> (zat l (p + 3) = SLASH \<or> zat l (p + 3) = NUL)"

lemma zat_NUL: "NUL \<notin> set l \<Longrightarrow> zat l i = NUL \<longleftrightarrow> length l \<le> i"
  by (auto simp: zat_def) (metis nth_mem)

lemma collapse_dotdot_skip:
  assumes "NUL \<notin> set l" "\<not> dotdot_at l p"
  shows "collapse_dotdot l p = collapse_dotdot l (Suc p)"
proof (cases "p + 2 < length l")
  case True
  then show ?thesis
    using assms by (subst collapse_dotdot.simps) (auto simp: zat_NUL dotdot_at_def)
next
  case False
  then show ?thesis
    using assms by (simp add: collapse_dotdot.simps [of l p] collapse_dotdot.simps [of l "Suc p"] zat_NUL)
qed

lemma collapse_dotdot_word:
  assumes "SLASH \<notin> set w" "NUL \<notin> set (A @ w @ B)"
  shows "collapse_dotdot (A @ w @ B) (length A) = collapse_dotdot (A @ w @ B) (length A + length w)"
  using assms
proof (induction w arbitrary: A)
  case (Cons c w)
  have "collapse_dotdot (A @ (c # w) @ B) (length A) = collapse_dotdot (A @ (c # w) @ B) (Suc (length A))"
    using Cons(2, 3) by (intro collapse_dotdot_skip) (auto simp: dotdot_at_def zat_append)
  also have "\<dots> = collapse_dotdot ((A @ [c]) @ w @ B) (length (A @ [c]))" by simp
  also have "\<dots> = collapse_dotdot ((A @ [c]) @ w @ B) (length (A @ [c]) + length w)"
    using Cons by (intro Cons.IH) auto
  finally show ?case by simp
qed simp

lemma collapse_dotdot_component:
  assumes "word_ok c" "c \<noteq> DOTDOT" "NUL \<notin> set (A @ B)" "B = [] \<or> hd B = SLASH"
  shows "collapse_dotdot (A @ SLASH # c @ B) (length A) = collapse_dotdot (A @ SLASH # c @ B) (length A + Suc (length c))"
proof -
  have B: "zat B 0 = SLASH \<or> zat B 0 = NUL" using assms(4) by (cases B) auto
  have "\<not> dotdot_at (SLASH # c @ B) 0"
    using assms(1, 2) B
    by (cases c; cases "tl c"; cases "tl (tl c)") (auto simp: dotdot_at_def word_ok_def)
  then have "\<not> dotdot_at (A @ SLASH # c @ B) (length A)" by (simp add: dotdot_at_def zat_append)
  moreover have n: "NUL \<notin> set (A @ SLASH # c @ B)" using assms by (auto simp: word_ok_def)
  ultimately have "collapse_dotdot (A @ SLASH # c @ B) (length A) = collapse_dotdot (A @ SLASH # c @ B) (Suc (length A))"
    by (rule collapse_dotdot_skip [rotated])
  also have "\<dots> = collapse_dotdot ((A @ [SLASH]) @ c @ B) (length (A @ [SLASH]))" by simp
  also have "\<dots> = collapse_dotdot ((A @ [SLASH]) @ c @ B) (length (A @ [SLASH]) + length c)"
    using assms(1) n by (intro collapse_dotdot_word) (auto simp: word_ok_def)
  finally show ?thesis by simp
qed

lemma previous_token_word:
  assumes "SLASH \<notin> set w" "A = [] \<or> last A = SLASH"
  shows "previous_token (A @ w @ B) (length A + length w) = length A"
  using assms
proof (induction w arbitrary: B rule: rev_induct)
  case Nil
  then show ?case by (cases A rule: rev_cases) (auto simp: zat_append)
next
  case (snoc c w)
  then show ?case using snoc.IH [of "c # B"] by (simp add: zat_append)
qed

text \<open>A \<open>..\<close> component after a component \<open>t\<close> that starts at \<open>length D\<close>.\<close>

lemma collapse_dotdot_hit:
  assumes "word_ok t" "D = [] \<or> last D = SLASH" "R = [] \<or> hd R = SLASH"
    and l: "l = D @ t @ SLASH # DOT # DOT # R"
  shows "fst (collapse_dotdot l (length D + length t)) =
    (if t = DOTDOT then fst (collapse_dotdot l (length D + length t + 3))
     else if R \<noteq> [] then fst (collapse_dotdot (D @ drop 1 R) (if D = [] then 0 else length D - 1))
     else if D = [] then [DOT] else if length D = 1 then D else butlast D)"
proof -
  let ?p = "length D + length t"
  have s: "previous_token l ?p = length D"
    unfolding l using assms(1, 2) by (intro previous_token_word) (auto simp: word_ok_def)
  have z: "zat l ?p = SLASH" "zat l (?p + 1) = DOT" "zat l (?p + 2) = DOT" "zat l (?p + 3) = zat R 0"
    "zat l (Suc ?p) = DOT" "zat l (length D) = hd t"
    unfolding l using assms(1) by (auto simp: zat_append word_ok_def zat_0)
  have R: "R \<noteq> [] \<longleftrightarrow> zat R 0 = SLASH" "R = [] \<longleftrightarrow> zat R 0 = NUL" using assms(3) by (cases R; auto)+
  have t: "hd t \<noteq> SLASH" using assms(1) by (cases t) (auto simp: word_ok_def)
  have dd: "zat l (length D) = DOT \<and> zat l (length D + 1) = DOT \<and> length D + 2 = ?p \<longleftrightarrow> t = DOTDOT"
    unfolding l using assms(1)
    by (cases t; cases "tl t") (auto simp: zat_append word_ok_def)
  have d: "take (length D) l @ drop (?p + 4) l = D @ drop 1 R"
    "D \<noteq> [] \<Longrightarrow> take (length D - 1) l = butlast D" "D = [] \<Longrightarrow> zat l 0 \<noteq> SLASH"
    unfolding l using t assms(1)
    by (auto simp: butlast_conv_take zat_append zat_0 word_ok_def numeral_eq_Suc)
  show ?thesis
    using z R t dd d s by (subst collapse_dotdot.simps) (auto simp: Let_def)
qed

lemma collapse_dotdot_hit_root:
  assumes "R = [] \<or> hd R = SLASH"
  shows "fst (collapse_dotdot (SLASH # DOT # DOT # R) 0) = (if R \<noteq> [] then fst (collapse_dotdot R 0) else [SLASH])"
  using assms by (cases R; subst collapse_dotdot.simps) auto

definition base_path :: "bool \<Rightarrow> byte list list \<Rightarrow> byte list" where
  "base_path root st = (if root then slashed (rev st) else drop 1 (slashed (rev st)))"

lemma base_path_Cons:
  "base_path root (t # st) =
     (if root \<or> st \<noteq> [] then base_path root st @ [SLASH] else []) @ t"
  by (cases "rev st") (auto simp: base_path_def)

lemma base_path_render: "st \<noteq> [] \<Longrightarrow> base_path root st = render_path root (rev st)"
  by (simp add: base_path_def render_path_slashed)

lemma base_path_eq_Nil: "\<forall>t \<in> set st. word_ok t \<Longrightarrow> base_path root st = [] \<longleftrightarrow> st = []"
  by (cases st) (auto simp: base_path_Cons word_ok_def, simp_all add: base_path_def)

lemma word_ok_DOTDOT: "word_ok DOTDOT"
  by (simp add: word_ok_def)

lemma push_component_ok:
  "word_ok c \<Longrightarrow> \<forall>t \<in> set st. word_ok t \<Longrightarrow> \<forall>t \<in> set (push_component root c st). word_ok t"
  by (cases st) auto

lemma NUL_slashed: "\<forall>t \<in> set cs. word_ok t \<Longrightarrow> NUL \<notin> set (slashed cs)"
  by (induction cs) (auto simp: word_ok_def)

text \<open>
  The pass as a whole, from a position between two components: \<open>st\<close> are the components behind it,
  last one first, and \<open>cs\<close> those ahead. In front of a relative path there is no slash, so the start
  is a case of its own.
\<close>

lemma collapse_dotdot_fold:
  assumes "\<forall>t \<in> set st. word_ok t" "\<forall>c \<in> set cs. word_ok c" "root \<or> st \<noteq> []" "cs \<noteq> [] \<or> st \<noteq> []"
  shows "fst (collapse_dotdot (base_path root st @ slashed cs) (length (base_path root st))) =
    render_path root (rev (fold (push_component root) cs st))"
  using assms
proof (induction "length cs" arbitrary: st cs rule: less_induct)
  case less
  note IH = less(1) and st = less(2) and cs = less(3) and ne = less(4, 5)
  show ?case
  proof (cases cs)
    case Nil
    have "collapse_dotdot (base_path root st) (length (base_path root st)) = (base_path root st, False)"
      by (subst collapse_dotdot.simps) (simp add: zat_def)
    then show ?thesis using Nil ne by (simp add: base_path_render)
  next
    case (Cons c rest)
    have ok: "word_ok c" "\<forall>c \<in> set rest. word_ok c" using cs Cons by auto
    have R: "slashed rest = [] \<or> hd (slashed rest) = SLASH" by (cases rest) auto
    have next_c: "fst (collapse_dotdot (base_path root (c # st) @ slashed rest) (length (base_path root (c # st)))) =
        render_path root (rev (fold (push_component root) rest (c # st)))"
      using IH [of rest "c # st"] st ok Cons by simp
    have next_b: "base_path root (c # st) @ slashed rest = base_path root st @ slashed cs"
      "length (base_path root (c # st)) = length (base_path root st) + Suc (length c)"
      using ne Cons by (simp_all add: base_path_Cons)
    show ?thesis
    proof (cases "c = DOTDOT")
      case False
      have "NUL \<notin> set (base_path root st)"
        using NUL_slashed [of "rev st"] st by (auto simp: base_path_def dest: in_set_dropD)
      then have "collapse_dotdot (base_path root st @ slashed cs) (length (base_path root st)) =
          collapse_dotdot (base_path root st @ slashed cs) (length (base_path root (c # st)))"
        unfolding Cons next_b slashed_simps(2)
        using False ok NUL_slashed [OF ok(2)] R by (intro collapse_dotdot_component) auto
      moreover have "push_component root c st = c # st" using False by (cases st) auto
      ultimately show ?thesis using next_c next_b Cons by simp
    next
      case c: True
      show ?thesis
      proof (cases st)
        case Nil
        then have "root" using ne by simp
        then show ?thesis
          using c Cons Nil IH [of rest "[]"] ok collapse_dotdot_hit_root [OF R]
          by (auto simp: base_path_def render_path_root)
      next
        case st_eq: (Cons t st')
        define D where "D = (if root \<or> st' \<noteq> [] then base_path root st' @ [SLASH] else [])"
        have t: "word_ok t" "\<forall>t \<in> set st'. word_ok t" using st st_eq by auto
        have b: "base_path root st = D @ t" "length (base_path root st) = length D + length t"
          by (simp_all add: st_eq base_path_Cons D_def)
        have D: "D = [] \<or> last D = SLASH" by (simp add: D_def)
        note hit = collapse_dotdot_hit [OF t(1) D R refl]
        have l: "base_path root st @ slashed cs = D @ t @ SLASH # DOT # DOT # slashed rest"
          by (simp add: b c Cons)
        show ?thesis
        proof (cases "t = DOTDOT")
          case True
          then have "push_component root c st = c # st" using st_eq by simp
          then show ?thesis
            using hit next_c next_b True c Cons l b by (simp add: eval_nat_numeral)
        next
          case False
          then have p: "push_component root c st = st'" using st_eq c by simp
          consider "rest = []" | "rest \<noteq> []" "root \<or> st' \<noteq> []" | "rest \<noteq> []" "\<not> root" "st' = []" by auto
          then show ?thesis
          proof cases
            case 1
            then show ?thesis
              using hit False c Cons l b p t base_path_eq_Nil [OF t(2), of root] base_path_render [of st' root]
              by (cases "st' = []"; cases root) (auto simp: D_def render_path_def base_path_def)
          next
            case 2
            then have "D @ drop 1 (slashed rest) = base_path root st' @ slashed rest" "D \<noteq> []"
              "length D - 1 = length (base_path root st')"
              using slash_drop_slashed [OF 2(1)] by (auto simp: D_def)
            then show ?thesis
              using hit False 2 Cons l b p IH [of rest st'] t ok by simp
          next
            case 3
            then obtain d rest' where r: "rest = d # rest'" by (cases rest) auto
            then have d: "word_ok d" "\<forall>c \<in> set rest'. word_ok c" using ok by auto
            have "fst (collapse_dotdot (base_path root st @ slashed cs) (length (base_path root st))) =
                fst (collapse_dotdot ([] @ d @ slashed rest') 0)"
              using hit False 3 l b r by (simp add: D_def)
            also have "\<dots> = fst (collapse_dotdot (base_path root [d] @ slashed rest') (length (base_path root [d])))"
              using collapse_dotdot_word [of d "[]" "slashed rest'"] d NUL_slashed [OF d(2)] 3
              by (simp add: word_ok_def base_path_def)
            also have "\<dots> = render_path root (rev (fold (push_component root) rest' [d]))"
              using IH [of rest' "[d]"] d Cons r by simp
            finally show ?thesis using 3 r Cons p by simp
          qed
        qed
      qed
    qed
  qed
qed

lemma components_ok: "NUL \<notin> set path \<Longrightarrow> \<forall>c \<in> set (components path). word_ok c"
  using path_words_ok by (auto simp: components_def)

lemma collapse_dotdot_render:
  assumes "\<forall>c \<in> set cs. word_ok c"
  shows "fst (collapse_dotdot (render_path root cs) 0) = render_path root (rev (fold (push_component root) cs []))"
proof (cases cs)
  case Nil
  then show ?thesis by (simp add: collapse_dotdot_short render_path_def)
next
  case (Cons c rest)
  show ?thesis
  proof (cases root)
    case True
    then show ?thesis
      using collapse_dotdot_fold [of "[]" cs root] assms Cons by (simp add: base_path_def render_path_root)
  next
    case False
    have "NUL \<notin> set (c @ slashed rest)" "SLASH \<notin> set c"
      using NUL_slashed [of rest] assms Cons by (auto simp: word_ok_def)
    then have "collapse_dotdot (c @ slashed rest) 0 = collapse_dotdot (c @ slashed rest) (length c)"
      using collapse_dotdot_word [of c "[]" "slashed rest"] by simp
    then show ?thesis
      using collapse_dotdot_fold [of "[c]" rest root] assms Cons False
      by (simp add: base_path_def render_path_def)
  qed
qed

lemma canonicalize_path:
  assumes "NUL \<notin> set path"
  shows "fst (u_canonicalize_pathname path) = canonical_path path"
proof (cases "path = []")
  case True
  then show ?thesis
    by (simp add: canonicalize_before_dotdot before_dotdot_def collapse_dotdot_short remove_leading_dot_def
        trailing_slashes_id canonical_path_def)
next
  case False
  then have "before_dotdot path = render_path (hd path = SLASH) (components path)"
    using assms before_dotdot_root before_dotdot_relative by (cases "hd path = SLASH") auto
  then show ?thesis
    using False collapse_dotdot_render [OF components_ok [OF assms]]
    by (simp add: canonicalize_before_dotdot canonical_path_def Let_def)
qed

section \<open>What the boolean says\<close>

text \<open>A pass reports a modification exactly when it makes the path shorter.\<close>

fun shrinks :: "byte list \<Rightarrow> byte list \<times> bool \<Rightarrow> bool" where
  "shrinks l (r, b) \<longleftrightarrow> (if b then length r < length l else r = l)"

lemma shrinks_iff: "shrinks l x \<longleftrightarrow> (if snd x then length (fst x) < length l else fst x = l)"
  by (cases x) simp

lemma shrinks_collapse_slashes: "shrinks l (collapse_slashes l)"
proof (induction l rule: collapse_slashes.induct)
  case (2 c r)
  have "length (fst (collapse_slashes (dropWhile (\<lambda>x. x = SLASH) (drop 1 r)))) \<le> length r - 1"
    if "c = SLASH \<and> zat r 0 = SLASH"
    using 2(1) [OF that refl] length_dropWhile_le [of "\<lambda>x. x = SLASH" "drop 1 r"]
    by (auto simp: shrinks_iff split: if_splits)
  then show ?case using 2(2) by (cases r) (auto simp: Let_def shrinks_iff split: prod.splits if_splits)
qed simp

lemma shrinks_collapse_dot: "shrinks l (collapse_dot l)"
proof (induction l rule: collapse_dot.induct)
  case (2 c r)
  then show ?case by (cases r) (auto simp: Let_def shrinks_iff split: prod.splits if_splits)
qed simp

lemma shrinks_remove_trailing_slashes: "shrinks l (remove_trailing_slashes l)"
proof (induction l rule: remove_trailing_slashes.induct)
  case (1 s)
  then show ?case
    by (subst remove_trailing_slashes.simps) (auto simp: shrinks_iff split: if_splits)
qed

lemma shrinks_le: "shrinks l x \<Longrightarrow> length (fst x) \<le> length l"
  by (cases x) (auto split: if_splits)

lemma shrinks_collapse_dotdot: "shrinks l (collapse_dotdot l p)"
proof (induction l p rule: collapse_dotdot.induct)
  case (1 l p)
  define s where "s = previous_token l p"
  define d where "d = (if s = 0 \<and> zat l s = SLASH then s + 1 else s)"
  let ?in = "zat l p \<noteq> NUL \<and> zat l (p + 1) \<noteq> NUL \<and> zat l (p + 2) \<noteq> NUL"
  let ?skip = "(zat l p \<noteq> SLASH \<or> zat l (p + 1) \<noteq> DOT \<or> zat l (p + 2) \<noteq> DOT) \<or>
            (zat l (p + 3) \<noteq> SLASH \<and> zat l (p + 3) \<noteq> NUL)"
  let ?dd = "zat l s = DOT \<and> zat l (s + 1) = DOT \<and> s + 2 = p"
  have s: "s \<le> p" unfolding s_def by (rule previous_token_le)
  have len: "?in \<Longrightarrow> p + 2 < length l" "zat l (p + 3) \<noteq> NUL \<Longrightarrow> p + 3 < length l"
    by (auto simp: zat_def split: if_splits)
  consider "\<not> ?in" | "?in" "?skip" | "?in" "\<not> ?skip" "?dd" | "?in" "\<not> ?skip" "\<not> ?dd" "zat l (p + 3) \<noteq> NUL"
    | "?in" "\<not> ?skip" "\<not> ?dd" "zat l (p + 3) = NUL" by argo
  then show ?case
  proof cases
    case 4
    have "shrinks (take d l @ drop (p + 4) l) (collapse_dotdot (take d l @ drop (p + 4) l) (if 0 < s then s - 1 else s))"
      using 1(3) [OF 4(1, 2) s_def 4(3, 4) d_def] .
    note shrinks_le [OF this]
    also have "length (take d l @ drop (p + 4) l) < length l"
    proof -
      have "d \<le> p + 1" using s by (simp add: d_def)
      then show ?thesis using len(2) [OF 4(4)] by simp
    qed
    finally show ?thesis
      using 4 by (subst collapse_dotdot.simps) (auto simp: Let_def s_def [symmetric] d_def)
  next
    case 5
    then show ?thesis
      using s len(1) [OF 5(1)] by (subst collapse_dotdot.simps) (auto simp: Let_def s_def [symmetric])
  next
    case skip: 2
    then show ?thesis using 1(1) [OF skip] by (subst collapse_dotdot.simps) (simp only: simp_thms if_True)
  next
    case dd: 3
    then show ?thesis
      using 1(2) [OF dd(1, 2) s_def dd(3)]
      by (subst collapse_dotdot.simps) (simp only: simp_thms if_True if_False Let_def s_def [symmetric])
  next
    case 1
    then show ?thesis by (subst collapse_dotdot.simps) (simp only: if_False shrinks.simps)
  qed
qed

lemma shrinks_comp: "shrinks l (r, b) \<Longrightarrow> shrinks r (r', b') \<Longrightarrow> shrinks l (r', b \<or> b')"
  by (auto split: if_splits)

lemma shrinks_leading:
  "(case remove_leading_dot l of Inl r \<Rightarrow> length r < length l | Inr x \<Rightarrow> shrinks l x)"
  by (cases l; cases "tl l") (auto simp: remove_leading_dot_def)

lemma shrinks_trailing:
  "2 \<le> length l \<Longrightarrow> (case remove_trailing_dot l of Inl r \<Rightarrow> length r < length l | Inr x \<Rightarrow> shrinks l x)"
  by (auto simp: remove_trailing_dot_def Let_def)

lemma shrinks_canonicalize: "shrinks path (u_canonicalize_pathname path)"
proof -
  obtain l1 b1 where 1: "collapse_slashes path = (l1, b1)" by (cases "collapse_slashes path")
  obtain l2 b2 where 2: "collapse_dot l1 = (l2, b2)" by (cases "collapse_dot l1")
  obtain l3 b3 where 3: "remove_trailing_slashes l2 = (l3, b3)" by (cases "remove_trailing_slashes l2")
  have s3: "shrinks path (l3, (b1 \<or> b2) \<or> b3)"
    using shrinks_collapse_slashes [of path] shrinks_collapse_dot [of l1] shrinks_remove_trailing_slashes [of l2]
    unfolding 1 2 3 by (blast intro: shrinks_comp)
  show ?thesis
  proof (cases "remove_leading_dot l3")
    case (Inl r)
    then show ?thesis
      using s3 shrinks_leading [of l3] 1 2 3 by (auto simp: u_canonicalize_pathname_def split: if_splits)
  next
    case (Inr x)
    then obtain l4 b4 where 4: "remove_leading_dot l3 = Inr (l4, b4)" by (cases x) auto
    have s4: "shrinks path (l4, ((b1 \<or> b2) \<or> b3) \<or> b4)"
      using shrinks_comp [OF s3] shrinks_leading [of l3] 4 by simp
    show ?thesis
    proof (cases "length l4 < 2")
      case True
      then show ?thesis using s4 1 2 3 4 by (simp add: u_canonicalize_pathname_def disj_assoc)
    next
      case False
      show ?thesis
      proof (cases "remove_trailing_dot l4")
        case (Inl r)
        then show ?thesis
          using False s4 shrinks_trailing [of l4] 1 2 3 4
          by (auto simp: u_canonicalize_pathname_def split: if_splits)
      next
        case (Inr y)
        then obtain l5 b5 where 5: "remove_trailing_dot l4 = Inr (l5, b5)" by (cases y) auto
        obtain l6 b6 where 6: "collapse_dotdot l5 0 = (l6, b6)" by (cases "collapse_dotdot l5 0")
        have "shrinks path (l6, ((((b1 \<or> b2) \<or> b3) \<or> b4) \<or> b5) \<or> b6)"
          using shrinks_comp [OF s4] shrinks_trailing [of l4] False 5 shrinks_collapse_dotdot [of l5 0] 6
          by (metis shrinks_comp sum.case(2) linorder_not_less)
        then show ?thesis using False 1 2 3 4 5 6 by (simp add: u_canonicalize_pathname_def disj_assoc)
      qed
    qed
  qed
qed

section \<open>Properties\<close>

text \<open>
  C3: \<open>u_canonicalize_pathname\<close> leaves the canonical path: its components without the empty ones and
  the dots, every \<open>..\<close> resolved against the component before it, dropped at the root and kept in
  front of a relative path; and it returns true exactly when that differs from its argument.
\<close>

theorem canonicalize_pathname_correct:
  assumes "NUL \<notin> set path"
  shows "u_canonicalize_pathname path = (canonical_path path, canonical_path path \<noteq> path)"
proof -
  have "snd (u_canonicalize_pathname path) \<longleftrightarrow> fst (u_canonicalize_pathname path) \<noteq> path"
    using shrinks_canonicalize [of path] by (auto simp: shrinks_iff split: if_splits)
  then show ?thesis
    using canonicalize_path [OF assms] by (cases "u_canonicalize_pathname path") simp
qed

theorem canonicalize_pathname_correct_witness:
  "u_canonicalize_pathname (bytes ''/usr//./lib/../bin/'') = (bytes ''/usr/bin'', True)"
proof -
  have "u_canonicalize_pathname (bytes ''/usr//./lib/../bin/'') =
      (canonical_path (bytes ''/usr//./lib/../bin/''),
       canonical_path (bytes ''/usr//./lib/../bin/'') \<noteq> bytes ''/usr//./lib/../bin/'')"
    by (rule canonicalize_pathname_correct) code_simp
  also have "\<dots> = (bytes ''/usr/bin'', True)" by code_simp
  finally show ?thesis .
qed

text \<open>
  The components of a canonical path, last one first: no empty one, no dot, and \<open>..\<close> only in front
  of a relative path.
\<close>

definition stack_ok :: "bool \<Rightarrow> byte list list \<Rightarrow> bool" where
  "stack_ok root st \<longleftrightarrow>
     (\<forall>t \<in> set st. word_ok t \<and> t \<noteq> [DOT]) \<and>
     (\<exists>a n. st = a @ replicate n DOTDOT \<and> DOTDOT \<notin> set a \<and> (root \<longrightarrow> n = 0))"

lemma stack_ok_Cons:
  "stack_ok root (c # st) \<longleftrightarrow>
     word_ok c \<and> c \<noteq> [DOT] \<and> stack_ok root st \<and> (c = DOTDOT \<longrightarrow> \<not> root \<and> set st \<subseteq> {DOTDOT})"
    (is "?l \<longleftrightarrow> ?r")
proof
  assume ?l
  then obtain a n where a: "c # st = a @ replicate n DOTDOT" "DOTDOT \<notin> set a" "root \<longrightarrow> n = 0"
    by (auto simp: stack_ok_def)
  show ?r
  proof (cases a)
    case Nil
    then obtain m where "n = Suc m" using a(1) by (cases n) auto
    then have c: "c = DOTDOT" "st = [] @ replicate m DOTDOT" "\<not> root" using a Nil by auto
    then have "stack_ok root st"
      using \<open>?l\<close> unfolding stack_ok_def
      by (intro conjI exI [of _ "[]"] exI [of _ m]) (simp_all add: c del: append_Nil)
    moreover have "word_ok c \<and> c \<noteq> [DOT]" using \<open>?l\<close> by (simp add: stack_ok_def)
    moreover have "set st \<subseteq> {DOTDOT}" using c(2) by auto
    ultimately show ?thesis using c(1, 3) by blast
  next
    case (Cons x b)
    then show ?thesis using \<open>?l\<close> a by (auto simp: stack_ok_def)
  qed
next
  assume r: ?r
  then obtain a n where a: "st = a @ replicate n DOTDOT" "DOTDOT \<notin> set a" "root \<longrightarrow> n = 0"
    by (auto simp: stack_ok_def)
  show ?l
  proof (cases "c = DOTDOT")
    case True
    then have "a = []" using r a by (cases a) auto
    then have "c # st = [] @ replicate (Suc n) DOTDOT" using True a by simp
    then show ?thesis using r True unfolding stack_ok_def by (metis empty_iff empty_set set_ConsD)
  next
    case False
    then have "c # st = (c # a) @ replicate n DOTDOT" "DOTDOT \<notin> set (c # a)" using a by auto
    then show ?thesis using r a(3) unfolding stack_ok_def by (metis set_ConsD)
  qed
qed

lemma stack_ok_Nil [simp]: "stack_ok root []"
  by (simp add: stack_ok_def)

lemma stack_ok_push:
  "stack_ok root st \<Longrightarrow> word_ok c \<Longrightarrow> c \<noteq> [DOT] \<Longrightarrow> stack_ok root (push_component root c st)"
  by (cases st) (auto simp: stack_ok_Cons)

lemma stack_ok_fold:
  "stack_ok root st \<Longrightarrow> \<forall>c \<in> set cs. word_ok c \<and> c \<noteq> [DOT] \<Longrightarrow> stack_ok root (fold (push_component root) cs st)"
  by (induction cs arbitrary: st) (simp_all add: stack_ok_push)

lemma fold_push_id: "stack_ok root st \<Longrightarrow> fold (push_component root) (rev st) [] = st"
proof (induction st)
  case (Cons c st)
  then have "push_component root c st = c # st" by (cases st) (auto simp: stack_ok_Cons)
  then show ?case using Cons by (simp add: stack_ok_Cons)
qed simp

lemma path_words_word: "word_ok w \<Longrightarrow> r = [] \<or> hd r = SLASH \<Longrightarrow> path_words (w @ r) = w # path_words r"
proof (induction w)
  case (Cons c w)
  then show ?case by (cases w) (auto simp: word_ok_def path_words_char)
qed (simp add: word_ok_def)

lemma path_words_slashed: "\<forall>c \<in> set cs. word_ok c \<Longrightarrow> path_words (slashed cs) = cs"
proof (induction cs)
  case (Cons c cs)
  then show ?case using path_words_word [of c "slashed cs"] by (cases cs) simp_all
qed simp

lemma components_render:
  assumes "\<forall>c \<in> set cs. word_ok c \<and> c \<noteq> [DOT]"
  shows "components (render_path root cs) = cs"
proof (cases cs)
  case Nil
  then show ?thesis by (simp add: components_def render_path_def path_words_char)
next
  case (Cons c ds)
  have "path_words (render_path root cs) = cs"
    using assms Cons path_words_slashed [of ds] path_words_word [of c "slashed ds"]
    by (cases ds; cases root) (auto simp: render_path_slashed)
  then show ?thesis using assms by (simp add: components_def)
qed

lemma canonical_path_form:
  assumes "NUL \<notin> set path" "path \<noteq> []"
  shows "\<exists>st. canonical_path path = render_path (hd path = SLASH) (rev st) \<and> stack_ok (hd path = SLASH) st"
  using assms components_ok [OF assms(1)] components_no_dot [of path]
    stack_ok_fold [of "hd path = SLASH" "[]" "components path"]
  by (auto simp: canonical_path_def Let_def)

lemma canonical_path_idem:
  assumes "NUL \<notin> set path"
  shows "canonical_path (canonical_path path) = canonical_path path"
proof (cases "path = []")
  case False
  then obtain st where st: "canonical_path path = render_path (hd path = SLASH) (rev st)" "stack_ok (hd path = SLASH) st"
    using canonical_path_form [OF assms] by blast
  let ?q = "render_path (hd path = SLASH) (rev st)"
  have ok: "\<forall>c \<in> set (rev st). word_ok c \<and> c \<noteq> [DOT]" using st(2) by (simp add: stack_ok_def)
  have "?q \<noteq> []" using ok by (cases "rev st") (auto simp: render_path_def word_ok_def)
  moreover have "hd ?q = SLASH \<longleftrightarrow> hd path = SLASH"
    using ok by (cases "rev st"; cases "hd (rev st)") (auto simp: render_path_def word_ok_def)
  ultimately show ?thesis
    unfolding st(1) using components_render [OF ok] fold_push_id [OF st(2)]
    by (simp add: canonical_path_def)
qed (simp add: canonical_path_def)

text \<open>
  C32: the path left by \<open>u_canonicalize_pathname\<close> does not climb: an absolute path becomes a slash and
  components that are neither empty nor a dot nor \<open>..\<close>; in a relative one all \<open>..\<close> stand in front.
\<close>

theorem canonicalize_no_climb:
  assumes "NUL \<notin> set path" "path \<noteq> []"
  shows "\<exists>n cs. fst (u_canonicalize_pathname path) = render_path (hd path = SLASH) (replicate n [DOT, DOT] @ cs) \<and>
    (hd path = SLASH \<longrightarrow> n = 0) \<and>
    (\<forall>c \<in> set cs. c \<noteq> [] \<and> SLASH \<notin> set c \<and> c \<noteq> [DOT] \<and> c \<noteq> [DOT, DOT])"
proof -
  obtain st where st: "canonical_path path = render_path (hd path = SLASH) (rev st)" "stack_ok (hd path = SLASH) st"
    using canonical_path_form [OF assms] by blast
  then obtain a n where "st = a @ replicate n DOTDOT" "DOTDOT \<notin> set a" "hd path = SLASH \<longrightarrow> n = 0"
    "\<forall>t \<in> set a. word_ok t \<and> t \<noteq> [DOT]"
    unfolding stack_ok_def by (metis UnCI set_append)
  then show ?thesis
    using st(1) canonicalize_path [OF assms(1)]
    by (intro exI [of _ n] exI [of _ "rev a"]) (auto simp: word_ok_def)
qed

theorem canonicalize_no_climb_witness:
  "\<exists>n cs. fst (u_canonicalize_pathname (bytes ''/a/../../etc'')) = render_path True (replicate n [DOT, DOT] @ cs) \<and>
    n = 0 \<and> (\<forall>c \<in> set cs. c \<noteq> [] \<and> SLASH \<notin> set c \<and> c \<noteq> [DOT] \<and> c \<noteq> [DOT, DOT])"
proof -
  have h: "(hd (bytes ''/a/../../etc'') = SLASH) = True" by simp
  have "NUL \<notin> set (bytes ''/a/../../etc'')" "bytes ''/a/../../etc'' \<noteq> []" by simp_all
  from canonicalize_no_climb [OF this] show ?thesis by (simp only: h simp_thms)
qed

text \<open>
  \<open>u_canonicalize_pathname\<close> on its own result changes nothing and returns false.
\<close>

theorem canonicalize_idempotent:
  assumes "NUL \<notin> set path"
  shows "u_canonicalize_pathname (fst (u_canonicalize_pathname path)) = (fst (u_canonicalize_pathname path), False)"
proof -
  have len: "length (fst (u_canonicalize_pathname q)) < length q \<or> fst (u_canonicalize_pathname q) = q" for q
    using shrinks_canonicalize [of q] by (auto simp: shrinks_iff split: if_splits)
  have nul: "NUL \<notin> set (canonical_path path)"
  proof (cases "path = []")
    case False
    then obtain st where st: "canonical_path path = render_path (hd path = SLASH) (rev st)" "stack_ok (hd path = SLASH) st"
      using canonical_path_form [OF assms] by blast
    then have "NUL \<notin> set (slashed (rev st))" by (intro NUL_slashed) (auto simp: stack_ok_def)
    then show ?thesis unfolding st(1) by (auto simp: render_path_def dest: in_set_dropD)
  qed (simp add: canonical_path_def)
  have "fst (u_canonicalize_pathname (canonical_path path)) = canonical_path path"
    using canonicalize_path [OF nul] canonical_path_idem [OF assms] by simp
  then show ?thesis
    using canonicalize_path [OF assms] shrinks_canonicalize [of "canonical_path path"]
    by (cases "u_canonicalize_pathname (canonical_path path)") (auto split: if_splits)
qed

theorem canonicalize_idempotent_witness:
  "u_canonicalize_pathname (fst (u_canonicalize_pathname (bytes ''a/./../b''))) = (bytes ''b'', False)"
proof -
  have "NUL \<notin> set (bytes ''a/./../b'')" by code_simp
  moreover have "fst (u_canonicalize_pathname (bytes ''a/./../b'')) = bytes ''b''" by code_simp
  ultimately show ?thesis using canonicalize_idempotent [of "bytes ''a/./../b''"] by metis
qed

end
