(* ===== verification/Atexit.thy ===== *)
theory Atexit
  imports Prelude
begin

text \<open>
  The registry of functions to call at exit (\<open>u_atexit\<close>, \<open>u_unatexit\<close>, \<open>u_exit\<close> of \<open>base.c\<close>): a
  table of 32 slots and an index. It is proved to refine a stack without duplicates, as long as the
  index stays in the table; the table itself is never checked.
\<close>

section \<open>Operations\<close>

text \<open>A function pointer is a value of type \<open>'f\<close>; the null pointer is \<open>None\<close>.\<close>

record 'f exit_table =
  u_fns :: "'f option list"
  u_fns_index :: nat

definition U_FNS_SIZE :: nat where "U_FNS_SIZE = 32"

definition exit_table_init :: "'f exit_table" where
  "exit_table_init = \<lparr>u_fns = replicate U_FNS_SIZE None, u_fns_index = 0\<rparr>"

text \<open>\<open>for (i = u_fns_index - 1; i >= 0; --i) if (u_fns[i] == function)\<close>: the slot found.\<close>

fun find_slot :: "'f option list \<Rightarrow> nat \<Rightarrow> 'f \<Rightarrow> nat option" where
  "find_slot fns 0 f = None"
| "find_slot fns (Suc i) f = (if fns ! i = Some f then Some i else find_slot fns i f)"

text \<open>\<open>None\<close> is the write past the end of the table.\<close>

definition u_atexit :: "'f \<Rightarrow> 'f exit_table \<Rightarrow> 'f exit_table option" where
  "u_atexit f t =
     (case find_slot (u_fns t) (u_fns_index t) f of
        Some i \<Rightarrow> Some t
      | None \<Rightarrow>
          if u_fns_index t < length (u_fns t)
          then Some (t\<lparr>u_fns := (u_fns t)[u_fns_index t := Some f], u_fns_index := u_fns_index t + 1\<rparr>)
          else None)"

definition u_unatexit :: "'f \<Rightarrow> 'f exit_table \<Rightarrow> 'f exit_table" where
  "u_unatexit f t =
     (case find_slot (u_fns t) (u_fns_index t) f of
        Some i \<Rightarrow> t\<lparr>u_fns := (u_fns t)[i := None]\<rparr>
      | None \<Rightarrow> t)"

text \<open>The functions called, in their order, for functions that leave the table alone.\<close>

fun exit_calls :: "'f option list \<Rightarrow> nat \<Rightarrow> 'f list" where
  "exit_calls fns 0 = []"
| "exit_calls fns (Suc i) = (case fns ! i of Some f \<Rightarrow> f # exit_calls fns i | None \<Rightarrow> exit_calls fns i)"

definition u_exit :: "'f exit_table \<Rightarrow> 'f list" where
  "u_exit t = exit_calls (u_fns t) (u_fns_index t)"

text \<open>
  A history of the process: registrations (\<open>True\<close>) and removals (\<open>False\<close>) in their order.
\<close>

fun exit_run :: "(bool \<times> 'f) list \<Rightarrow> 'f exit_table \<Rightarrow> 'f exit_table option" where
  "exit_run [] t = Some t"
| "exit_run ((b, f) # ops) t =
     (if b then Option.bind (u_atexit f t) (exit_run ops) else exit_run ops (u_unatexit f t))"

section \<open>Interface\<close>

text \<open>The specification: a stack of functions without duplicates.\<close>

fun stack_run :: "(bool \<times> 'f) list \<Rightarrow> 'f list \<Rightarrow> 'f list" where
  "stack_run [] st = st"
| "stack_run ((b, f) # ops) st =
     stack_run ops (if b then if f \<in> set st then st else f # st else remove1 f st)"

text \<open>
  What a client of the registry relies on: \<open>calls\<close> is the list of functions an exit runs, \<open>valid\<close> the
  states in which the operations are defined. Registering puts a new function in front and leaves a
  registered one where it is; removing takes one occurrence out.
\<close>

locale exit_registry =
  fixes empty :: 's and register :: "'f \<Rightarrow> 's \<Rightarrow> 's option" and unregister :: "'f \<Rightarrow> 's \<Rightarrow> 's"
    and calls :: "'s \<Rightarrow> 'f list" and valid :: "'s \<Rightarrow> bool"
  assumes valid_empty: "valid empty" and calls_empty: "calls empty = []"
    and valid_register: "valid s \<Longrightarrow> register f s = Some s' \<Longrightarrow> valid s'"
    and valid_unregister: "valid s \<Longrightarrow> valid (unregister f s)"
    and calls_register: "valid s \<Longrightarrow> register f s = Some s' \<Longrightarrow>
      calls s' = (if f \<in> set (calls s) then calls s else f # calls s)"
    and calls_unregister: "valid s \<Longrightarrow> calls (unregister f s) = remove1 f (calls s)"
begin

text \<open>The state a history leads to.\<close>

fun run :: "(bool \<times> 'f) list \<Rightarrow> 's \<Rightarrow> 's option" where
  "run [] s = Some s"
| "run ((b, f) # ops) s = (if b then Option.bind (register f s) (run ops) else run ops (unregister f s))"

lemma run_refines: "valid s \<Longrightarrow> run ops s = Some s' \<Longrightarrow> valid s' \<and> calls s' = stack_run ops (calls s)"
proof (induction ops arbitrary: s)
  case (Cons op ops)
  obtain b f where op: "op = (b, f)" by (cases op)
  show ?case
  proof (cases b)
    case True
    then obtain s1 where "register f s = Some s1" "run ops s1 = Some s'"
      using Cons(3) op by (auto simp: bind_eq_Some_conv)
    then show ?thesis
      using Cons(1) [of s1] Cons(2) op True valid_register calls_register by simp
  next
    case False
    then show ?thesis
      using Cons(1) [of "unregister f s"] Cons(2, 3) op valid_unregister calls_unregister by simp
  qed
qed simp

lemma distinct_stack_run: "distinct st \<Longrightarrow> distinct (stack_run ops st)"
proof (induction ops arbitrary: st)
  case (Cons op ops)
  obtain b f where "op = (b, f)" by (cases op)
  then show ?case using Cons by simp
qed simp

lemma run_distinct: "run ops empty = Some s \<Longrightarrow> distinct (calls s)"
  using run_refines [OF valid_empty] distinct_stack_run [of "[]" ops] calls_empty by auto

end

section \<open>The table refines the interface\<close>

definition exit_table_ok :: "'f exit_table \<Rightarrow> bool" where
  "exit_table_ok t \<longleftrightarrow>
     length (u_fns t) = U_FNS_SIZE \<and> u_fns_index t \<le> U_FNS_SIZE \<and> distinct (u_exit t)"

lemma find_slot_Some: "find_slot fns n f = Some i \<Longrightarrow> i < n \<and> fns ! i = Some f"
  by (induction n) (auto split: if_splits)

lemma find_slot_None: "find_slot fns n f = None \<longleftrightarrow> f \<notin> set (exit_calls fns n)"
  by (induction n) (auto split: option.splits)

lemma exit_calls_update_above: "n \<le> k \<Longrightarrow> exit_calls (fns[k := x]) n = exit_calls fns n"
  by (induction n) (auto split: option.splits)

lemma exit_calls_remove:
  "find_slot fns n f = Some i \<Longrightarrow> n \<le> length fns \<Longrightarrow> exit_calls (fns[i := None]) n = remove1 f (exit_calls fns n)"
proof (induction n)
  case (Suc n)
  show ?case
  proof (cases "fns ! n = Some f")
    case True
    then show ?thesis using Suc by (auto simp: exit_calls_update_above)
  next
    case False
    then have f: "find_slot fns n f = Some i" using Suc by simp
    then have "i < n" using find_slot_Some by fastforce
    then have "fns[i := None] ! n = fns ! n" by simp
    then show ?thesis using Suc f False by (auto split: option.splits)
  qed
qed simp

lemma exit_table_calls_register:
  "exit_table_ok t \<Longrightarrow> u_atexit f t = Some t' \<Longrightarrow>
   u_exit t' = (if f \<in> set (u_exit t) then u_exit t else f # u_exit t)"
  by (auto simp: u_atexit_def u_exit_def exit_calls_update_above exit_table_ok_def
      find_slot_None split: option.splits if_splits)
    (metis find_slot_None option.distinct(1))

lemma exit_table_calls_unregister:
  "exit_table_ok t \<Longrightarrow> u_exit (u_unatexit f t) = remove1 f (u_exit t)"
  by (auto simp: u_unatexit_def u_exit_def exit_table_ok_def exit_calls_remove find_slot_None
      remove1_idem split: option.splits)

interpretation fns: exit_registry exit_table_init u_atexit u_unatexit u_exit exit_table_ok
proof
  show "u_exit exit_table_init = []" by (simp add: u_exit_def exit_table_init_def)
  show "exit_table_ok exit_table_init"
    by (simp add: exit_table_ok_def exit_table_init_def u_exit_def)
  show "exit_table_ok t'" if "exit_table_ok t" "u_atexit f t = Some t'" for t f and t' :: "'a exit_table"
    using that exit_table_calls_register [OF that]
    by (auto simp: exit_table_ok_def u_atexit_def split: option.splits if_splits)
  show "exit_table_ok (u_unatexit f t)" if "exit_table_ok t" for t and f :: 'a
    using that exit_table_calls_unregister [OF that, of f]
    by (auto simp: exit_table_ok_def u_unatexit_def split: option.splits)
qed (simp_all add: exit_table_calls_register exit_table_calls_unregister)

lemma exit_init_calls [simp]: "u_exit exit_table_init = []"
  by (simp add: u_exit_def exit_table_init_def)

lemma exit_run_eq: "exit_run = fns.run"
proof (intro ext)
  fix ops and t :: "'a exit_table"
  show "exit_run ops t = fns.run ops t"
    by (induction ops arbitrary: t) (auto intro!: Option.bind_cong)
qed

section \<open>Properties\<close>



text \<open>
  C40: the table has room for 32 registrations in the life of the process, removed ones included: a
  history with at most 32 registrations stays in the table.
\<close>

theorem exit_registry_capacity:
  assumes "length (filter fst ops) \<le> U_FNS_SIZE"
  shows "exit_run ops exit_table_init \<noteq> None"
proof -
  have "exit_run ops t \<noteq> None" if "length (u_fns t) = U_FNS_SIZE" "u_fns_index t + length (filter fst ops) \<le> U_FNS_SIZE"
    for t :: "'a exit_table"
    using that
  proof (induction ops arbitrary: t)
    case (Cons op ops)
    obtain b f where op: "op = (b, f)" by (cases op)
    show ?case
    proof (cases b)
      case True
      then obtain t1 where "u_atexit f t = Some t1" "length (u_fns t1) = U_FNS_SIZE" "u_fns_index t1 \<le> u_fns_index t + 1"
        using Cons(2, 3) op by (cases "find_slot (u_fns t) (u_fns_index t) f") (auto simp: u_atexit_def)
      then show ?thesis using Cons(1) [of t1] Cons(3) op True by simp
    next
      case False
      then show ?thesis
        using Cons(1) [of "u_unatexit f t"] Cons(2, 3) op by (simp add: u_unatexit_def split: option.splits)
    qed
  qed simp
  then show ?thesis using assms by (simp add: exit_table_init_def)
qed

theorem exit_registry_capacity_witness:
  "length (filter fst [(True, 1 :: nat), (False, 1)]) \<le> U_FNS_SIZE \<and> exit_run [(True, 1 :: nat), (False, 1)] exit_table_init \<noteq> None"
  using exit_registry_capacity [of "[(True, 1 :: nat), (False, 1)]"] by (simp add: U_FNS_SIZE_def)

lemma atexit_unatexit:
  assumes "length (u_fns t) = U_FNS_SIZE" "u_fns_index t < U_FNS_SIZE" "u_exit t = []"
  shows "\<exists>t'. u_atexit f t = Some t' \<and> length (u_fns (u_unatexit f t')) = U_FNS_SIZE \<and>
    u_fns_index (u_unatexit f t') = Suc (u_fns_index t) \<and> u_exit (u_unatexit f t') = []"
proof -
  have "find_slot (u_fns t) (u_fns_index t) f = None"
    using assms(3) by (simp add: find_slot_None u_exit_def)
  then show ?thesis
    using assms by (simp add: u_atexit_def u_unatexit_def u_exit_def exit_calls_update_above)
qed

lemma exit_leak:
  assumes "length (u_fns t) = U_FNS_SIZE" "u_fns_index t + n = U_FNS_SIZE" "u_exit t = []"
  shows "\<exists>t'. exit_run (concat (replicate n [(True, f), (False, f)])) t = Some t' \<and> u_exit t' = [] \<and> u_atexit f t' = None"
  using assms
proof (induction n arbitrary: t)
  case 0
  then have "find_slot (u_fns t) (u_fns_index t) f = None" by (simp add: find_slot_None u_exit_def)
  then show ?case using 0 by (simp add: u_atexit_def)
next
  case (Suc n)
  then obtain t' where "u_atexit f t = Some t'" "length (u_fns (u_unatexit f t')) = U_FNS_SIZE"
    "u_fns_index (u_unatexit f t') = Suc (u_fns_index t)" "u_exit (u_unatexit f t') = []"
    using atexit_unatexit [of t f] by auto
  then show ?case using Suc.IH [of "u_unatexit f t'"] Suc.prems by simp
qed

text \<open>
  A removed function keeps its slot: a function registered and removed 32 times leaves an empty
  registry, and the next registration writes past the end of the table.
\<close>

theorem exit_registry_overflow:
  "\<exists>t. exit_run (concat (replicate 32 [(True, f), (False, f)])) exit_table_init = Some t \<and>
    u_exit t = [] \<and> u_atexit f t = None"
  using exit_leak [of exit_table_init 32 f] by (simp add: exit_table_init_def u_exit_def U_FNS_SIZE_def)

end
