(* ===== verification/Security.thy ===== *)
theory Security
  imports Prelude
begin

text \<open>
  Privileges of a setuid program (the security functions of \<open>utility.c\<close>): the identities the library
  remembers and the calls that gain, drop and give up root and group privileges. The system calls
  are a parameter, a record of functions on the credentials of the process; what the code relies on
  is the locale \<open>posix_os\<close>, with the credentials of POSIX as its instance.
\<close>

section \<open>The operating system\<close>

text \<open>The setters answer whether they succeeded, and the new credentials.\<close>

type_synonym uid = "32 word"

record 'c os =
  os_getuid :: "'c \<Rightarrow> uid"
  os_geteuid :: "'c \<Rightarrow> uid"
  os_getgid :: "'c \<Rightarrow> uid"
  os_getegid :: "'c \<Rightarrow> uid"
  os_seteuid :: "uid \<Rightarrow> 'c \<Rightarrow> bool \<times> 'c"
  os_setuid :: "uid \<Rightarrow> 'c \<Rightarrow> bool \<times> 'c"
  os_setegid :: "uid \<Rightarrow> 'c \<Rightarrow> bool \<times> 'c"
  os_setgid :: "uid \<Rightarrow> 'c \<Rightarrow> bool \<times> 'c"
  os_chdir :: "byte list \<Rightarrow> 'c \<Rightarrow> 'c"
  os_getcwd :: "'c \<Rightarrow> byte list"

section \<open>Operations\<close>

text \<open>The static variables and the credentials of the process.\<close>

record 'c security =
  real_uid :: uid
  real_gid :: uid
  effective_uid :: uid
  effective_gid :: uid
  cred :: 'c

definition security_start :: "'c \<Rightarrow> 'c security" where
  "security_start c = \<lparr>real_uid = -1, real_gid = -1, effective_uid = -1, effective_gid = -1, cred = c\<rparr>"

text \<open>The messages of \<open>U_ERROR\<close>, which ends the process.\<close>

datatype sec_error =
    Not_setuid_root
  | Init_not_called
  | No_root_privilege
  | Root_not_dropped
  | No_group_privilege
  | Group_not_dropped

definition and_then :: "'e + 'a \<Rightarrow> ('a \<Rightarrow> 'e + 'b) \<Rightarrow> 'e + 'b" where
  "and_then r f = (case r of Inl e \<Rightarrow> Inl e | Inr x \<Rightarrow> f x)"

definition u_need_root :: "'c os \<Rightarrow> bool \<Rightarrow> 'c security \<Rightarrow> sec_error + 'c security" where
  "u_need_root os necessary s =
     (if effective_uid s \<noteq> 0 then (if necessary then Inl Not_setuid_root else Inr s)
      else if real_uid s = -1 then Inl Init_not_called
      else if os_geteuid os (cred s) = 0 then Inr s
      else
        let (ok, c) = os_seteuid os (effective_uid s) (cred s)
        in if (\<not> ok \<or> os_geteuid os c \<noteq> 0) \<and> necessary then Inl No_root_privilege
           else Inr (s\<lparr>cred := c\<rparr>))"

definition u_dont_need_root :: "'c os \<Rightarrow> 'c security \<Rightarrow> sec_error + 'c security" where
  "u_dont_need_root os s =
     (if effective_uid s \<noteq> 0 then Inr s
      else if real_uid s = -1 then Inl Init_not_called
      else if os_geteuid os (cred s) \<noteq> 0 then Inr s
      else
        let (ok, c) = os_seteuid os (real_uid s) (cred s)
        in if \<not> ok \<or> os_geteuid os c \<noteq> real_uid s then Inl Root_not_dropped
           else Inr (s\<lparr>cred := c\<rparr>))"

definition u_never_need_root :: "'c os \<Rightarrow> 'c security \<Rightarrow> sec_error + 'c security" where
  "u_never_need_root os s =
     (if real_uid s = -1 then Inl Init_not_called
      else
        let c = (if os_geteuid os (cred s) = 0 then snd (os_setuid os (real_uid s) (cred s)) else cred s)
        in if os_geteuid os c \<noteq> real_uid s \<or> os_getuid os c \<noteq> real_uid s then Inl Root_not_dropped
           else Inr (s\<lparr>cred := c, effective_uid := real_uid s\<rparr>))"

definition u_need_group :: "'c os \<Rightarrow> bool \<Rightarrow> 'c security \<Rightarrow> sec_error + 'c security" where
  "u_need_group os necessary s =
     (if real_gid s = -1 then Inl Init_not_called
      else if os_getegid os (cred s) = effective_gid s then Inr s
      else
        let (ok, c) = os_setegid os (effective_gid s) (cred s)
        in if (\<not> ok \<or> os_getegid os c \<noteq> effective_gid s) \<and> necessary then Inl No_group_privilege
           else Inr (s\<lparr>cred := c\<rparr>))"

definition u_dont_need_group :: "'c os \<Rightarrow> 'c security \<Rightarrow> sec_error + 'c security" where
  "u_dont_need_group os s =
     (if real_gid s = -1 then Inl Init_not_called
      else if os_getegid os (cred s) \<noteq> effective_gid s then Inr s
      else
        let (ok, c) = os_setegid os (real_gid s) (cred s)
        in if \<not> ok \<or> os_getegid os c \<noteq> real_gid s then Inl Group_not_dropped
           else Inr (s\<lparr>cred := c\<rparr>))"

definition u_never_need_group :: "'c os \<Rightarrow> 'c security \<Rightarrow> sec_error + 'c security" where
  "u_never_need_group os s =
     (if real_gid s = -1 then Inl Init_not_called
      else
        let c = (if os_getegid os (cred s) \<noteq> effective_gid s then snd (os_setgid os (real_gid s) (cred s)) else cred s)
        in if os_getegid os c \<noteq> real_gid s \<or> os_getgid os c \<noteq> real_gid s then Inl Group_not_dropped
           else Inr (s\<lparr>cred := c, effective_gid := real_gid s\<rparr>))"

text \<open>The warning and the \<open>alarm (0)\<close> of \<open>u_init_security\<close> change none of this state.\<close>

definition u_init_security :: "'c os \<Rightarrow> 'c security \<Rightarrow> sec_error + 'c security" where
  "u_init_security os s0 =
     (let s1 = s0\<lparr>real_uid := os_getuid os (cred s0)\<rparr>;
          leffective_uid = os_geteuid os (cred s0)
      in and_then
           (if leffective_uid \<noteq> real_uid s1 \<and> leffective_uid \<noteq> 0 then u_never_need_root os s1
            else Inr (s1\<lparr>effective_uid := leffective_uid\<rparr>))
           (\<lambda>s2. and_then
             (u_dont_need_root os (s2\<lparr>real_gid := os_getgid os (cred s2), effective_gid := os_getegid os (cred s2)\<rparr>))
             (u_dont_need_group os)))"

text \<open>
  \<open>u_runAsUser\<close>: the entry that \<open>getpwnam\<close> finds is a parameter, its directory \<open>None\<close> for the null
  pointer. The state is the name and the working directory that the library remembers, and the
  process. The answer is the boolean returned and the new state.
\<close>

record passwd =
  pw_uid :: uid
  pw_gid :: uid
  pw_dir :: "byte list option"

record 'c run_state =
  u_user_name :: "byte list"
  u_cwd :: "byte list"
  process :: 'c

definition u_runAsUser :: "'c os \<Rightarrow> (byte list \<Rightarrow> passwd option) \<Rightarrow> byte list \<Rightarrow> bool \<Rightarrow> 'c run_state \<Rightarrow> bool \<times> 'c run_state" where
  "u_runAsUser os getpwnam user change_dir r =
     (case getpwnam user of
        None \<Rightarrow> (False, r)
      | Some pw \<Rightarrow>
          let (ok1, c1) = os_setgid os (pw_gid pw) (process r)
          in if \<not> ok1 then (False, r\<lparr>process := c1\<rparr>)
             else
               let (ok2, c2) = os_setuid os (pw_uid pw) c1
               in if \<not> ok2 then (False, r\<lparr>process := c2\<rparr>)
                  else if change_dir \<and> pw_dir pw \<noteq> None \<and> pw_dir pw \<noteq> Some [] then
                    let c3 = os_chdir os (the (pw_dir pw)) c2
                    in (True, \<lparr>u_user_name = user, u_cwd = os_getcwd os c3, process = c3\<rparr>)
                  else (True, r\<lparr>u_user_name := user, process := c2\<rparr>))"

text \<open>A program uses its privileges by any sequence of these calls.\<close>

inductive sec_step :: "'c os \<Rightarrow> 'c security \<Rightarrow> 'c security \<Rightarrow> bool" for os where
  need_root: "u_need_root os b s = Inr s' \<Longrightarrow> sec_step os s s'"
| dont_need_root: "u_dont_need_root os s = Inr s' \<Longrightarrow> sec_step os s s'"
| never_need_root: "u_never_need_root os s = Inr s' \<Longrightarrow> sec_step os s s'"
| need_group: "u_need_group os b s = Inr s' \<Longrightarrow> sec_step os s s'"
| dont_need_group: "u_dont_need_group os s = Inr s' \<Longrightarrow> sec_step os s s'"
| never_need_group: "u_never_need_group os s = Inr s' \<Longrightarrow> sec_step os s s'"

inductive_simps sec_step_simps: "sec_step os s s'"

text \<open>
  The invariant: the library was initialised, it remembers root or the real user as the effective
  user, and the process runs as one of the two; without remembered privileges, as the real user.
\<close>

definition sec_inv :: "'c os \<Rightarrow> 'c security \<Rightarrow> bool" where
  "sec_inv os s \<longleftrightarrow>
     real_uid s \<noteq> -1 \<and> os_getuid os (cred s) = real_uid s \<and>
     (effective_uid s = 0 \<or> effective_uid s = real_uid s) \<and>
     (os_geteuid os (cred s) = real_uid s \<or> os_geteuid os (cred s) = 0 \<and> effective_uid s = 0)"

section \<open>What the code relies on\<close>

text \<open>
  The documented behaviour of the system calls: a setter that fails changes nothing; a user setter
  that succeeds sets the effective user, \<open>setuid\<close> called by root the real one too, and leaves the
  groups alone; group setters leave the users alone.
\<close>

locale posix_os =
  fixes os :: "'c os"
  assumes seteuid_ok: "os_seteuid os u c = (True, c') \<Longrightarrow>
      os_geteuid os c' = u \<and> os_getuid os c' = os_getuid os c"
    and seteuid_gid: "os_seteuid os u c = (b, c') \<Longrightarrow>
      os_getgid os c' = os_getgid os c \<and> os_getegid os c' = os_getegid os c"
    and seteuid_fail: "os_seteuid os u c = (False, c') \<Longrightarrow> c' = c"
    and setuid_ok: "os_setuid os u c = (True, c') \<Longrightarrow>
      os_geteuid os c' = u \<and> os_getuid os c' = (if os_geteuid os c = 0 then u else os_getuid os c)"
    and setuid_gid: "os_setuid os u c = (b, c') \<Longrightarrow>
      os_getgid os c' = os_getgid os c \<and> os_getegid os c' = os_getegid os c"
    and setuid_fail: "os_setuid os u c = (False, c') \<Longrightarrow> c' = c"
    and setegid_uid: "os_setegid os g c = (b, c') \<Longrightarrow>
      os_getuid os c' = os_getuid os c \<and> os_geteuid os c' = os_geteuid os c"
    and setgid_ok: "os_setgid os g c = (True, c') \<Longrightarrow>
      os_getegid os c' = g \<and> os_getgid os c' = (if os_geteuid os c = 0 then g else os_getgid os c)"
    and setgid_uid: "os_setgid os g c = (b, c') \<Longrightarrow>
      os_getuid os c' = os_getuid os c \<and> os_geteuid os c' = os_geteuid os c"
    and chdir_ids: "os_getuid os (os_chdir os d c) = os_getuid os c" "os_geteuid os (os_chdir os d c) = os_geteuid os c"
      "os_getgid os (os_chdir os d c) = os_getgid os c" "os_getegid os (os_chdir os d c) = os_getegid os c"
begin

lemmas uid_laws = seteuid_ok seteuid_fail setuid_ok setuid_fail setegid_uid setgid_uid

text \<open>A call to a user setter leaves the old credentials or the ones it should.\<close>

lemma seteuid_cases:
  assumes "os_seteuid os u c = (b, c')"
  shows "c' = c \<or> os_geteuid os c' = u \<and> os_getuid os c' = os_getuid os c"
  using assms seteuid_ok [of u c c'] seteuid_fail [of u c c'] by (cases b) auto

lemma need_root_inv:
  assumes "sec_inv os s" "u_need_root os b s = Inr s'"
  shows "sec_inv os s' \<and> real_uid s' = real_uid s \<and> effective_uid s' = effective_uid s"
proof -
  obtain ok c where c: "os_seteuid os (effective_uid s) (cred s) = (ok, c)" by force
  show ?thesis
    using assms c seteuid_cases [OF c]
    by (auto simp: u_need_root_def sec_inv_def split: if_splits)
qed

lemma dont_need_root_inv:
  assumes "sec_inv os s" "u_dont_need_root os s = Inr s'"
  shows "sec_inv os s' \<and> real_uid s' = real_uid s \<and> effective_uid s' = effective_uid s \<and>
    os_geteuid os (cred s') = real_uid s'"
proof -
  obtain ok c where c: "os_seteuid os (real_uid s) (cred s) = (ok, c)" by force
  show ?thesis
    using assms c seteuid_cases [OF c]
    by (auto simp: u_dont_need_root_def sec_inv_def split: if_splits)
qed

lemma never_need_root_inv:
  assumes "real_uid s \<noteq> -1" "u_never_need_root os s = Inr s'"
  shows "sec_inv os s' \<and> real_uid s' = real_uid s \<and> effective_uid s' = real_uid s"
  using assms by (auto simp: u_never_need_root_def sec_inv_def Let_def split: if_splits)

text \<open>The group calls keep the user identities.\<close>

definition same_users :: "'c security \<Rightarrow> 'c security \<Rightarrow> bool" where
  "same_users s s' \<longleftrightarrow>
     real_uid s' = real_uid s \<and> effective_uid s' = effective_uid s \<and>
     os_getuid os (cred s') = os_getuid os (cred s) \<and> os_geteuid os (cred s') = os_geteuid os (cred s)"

lemma same_users_inv: "sec_inv os s \<Longrightarrow> same_users s s' \<Longrightarrow> sec_inv os s'"
  by (simp add: sec_inv_def same_users_def)

lemma group_same_users:
  "u_need_group os b s = Inr s' \<Longrightarrow> same_users s s'"
  "u_dont_need_group os s = Inr s' \<Longrightarrow> same_users s s'"
  "u_never_need_group os s = Inr s' \<Longrightarrow> same_users s s'"
proof -
  obtain b1 c1 where 1: "os_setegid os (effective_gid s) (cred s) = (b1, c1)" by force
  obtain b2 c2 where 2: "os_setegid os (real_gid s) (cred s) = (b2, c2)" by force
  obtain b3 c3 where 3: "os_setgid os (real_gid s) (cred s) = (b3, c3)" by force
  show "u_need_group os b s = Inr s' \<Longrightarrow> same_users s s'"
    using setegid_uid [OF 1] 1 by (auto simp: u_need_group_def same_users_def split: if_splits)
  show "u_dont_need_group os s = Inr s' \<Longrightarrow> same_users s s'"
    using setegid_uid [OF 2] 2 by (auto simp: u_dont_need_group_def same_users_def split: if_splits)
  show "u_never_need_group os s = Inr s' \<Longrightarrow> same_users s s'"
    using setgid_uid [OF 3] 3 by (auto simp: u_never_need_group_def same_users_def Let_def split: if_splits)
qed

lemma step_inv:
  assumes "sec_step os s s'" "sec_inv os s"
  shows "sec_inv os s' \<and> real_uid s' = real_uid s \<and> (effective_uid s = real_uid s \<longrightarrow> effective_uid s' = real_uid s)"
  using assms
proof (induction rule: sec_step.induct)
  case (never_need_root s s')
  then show ?case using never_need_root_inv [of s s'] by (auto simp: sec_inv_def)
next
  case (need_root b s s')
  then show ?case using need_root_inv [of s b s'] by simp
next
  case (dont_need_root s s')
  then show ?case using dont_need_root_inv [of s s'] by simp
qed (use group_same_users same_users_inv in \<open>metis same_users_def\<close>)+

lemma steps_inv:
  assumes "(sec_step os)\<^sup>*\<^sup>* s s'" "sec_inv os s"
  shows "sec_inv os s' \<and> real_uid s' = real_uid s \<and> (effective_uid s = real_uid s \<longrightarrow> effective_uid s' = real_uid s)"
  using assms
proof (induction rule: rtranclp_induct)
  case (step y z)
  then show ?case using step_inv [of y z] by simp
qed simp

lemma init_setuid_nonroot:
  assumes "os_getuid os (cred s0) \<noteq> -1"
    and "os_geteuid os (cred s0) \<noteq> os_getuid os (cred s0)" "os_geteuid os (cred s0) \<noteq> 0"
  shows "u_init_security os s0 = Inl Root_not_dropped"
  using assms by (simp add: u_init_security_def u_never_need_root_def and_then_def)

lemma init_inv:
  assumes "os_getuid os (cred s0) \<noteq> -1" "u_init_security os s0 = Inr s"
  shows "sec_inv os s \<and> os_geteuid os (cred s) = real_uid s \<and> real_uid s = os_getuid os (cred s0)"
proof -
  let ?ru = "os_getuid os (cred s0)" and ?eu = "os_geteuid os (cred s0)"
  have e: "?eu = ?ru \<or> ?eu = 0" using init_setuid_nonroot [of s0] assms by force
  let ?s2 = "s0\<lparr>real_uid := ?ru, effective_uid := ?eu, real_gid := os_getgid os (cred s0), effective_gid := os_getegid os (cred s0)\<rparr>"
  have inv: "sec_inv os ?s2" using assms(1) e by (auto simp: sec_inv_def)
  have "?s2 = s0\<lparr>real_uid := ?ru\<rparr>\<lparr>effective_uid := ?eu\<rparr>\<lparr>real_gid := os_getgid os (cred s0), effective_gid := os_getegid os (cred s0)\<rparr>"
    by simp
  then obtain s3 where s3: "u_dont_need_root os ?s2 = Inr s3" "u_dont_need_group os s3 = Inr s"
    using assms(2) e by (auto simp: u_init_security_def and_then_def Let_def split: sum.splits)
  have "sec_inv os s3 \<and> real_uid s3 = ?ru \<and> os_geteuid os (cred s3) = real_uid s3"
    using dont_need_root_inv [OF inv s3(1)] by simp
  then show ?thesis
    using group_same_users(2) [OF s3(2)] same_users_inv [of s3 s] by (simp add: same_users_def)
qed

end


section \<open>POSIX credentials\<close>

record posix_cred =
  ruid :: uid
  euid :: uid
  suid :: uid
  rgid :: uid
  egid :: uid
  sgid :: uid
  cwd :: "byte list"

definition posix_seteuid :: "uid \<Rightarrow> posix_cred \<Rightarrow> bool \<times> posix_cred" where
  "posix_seteuid u c = (if euid c = 0 \<or> u = ruid c \<or> u = suid c then (True, c\<lparr>euid := u\<rparr>) else (False, c))"

definition posix_setuid :: "uid \<Rightarrow> posix_cred \<Rightarrow> bool \<times> posix_cred" where
  "posix_setuid u c =
     (if euid c = 0 then (True, c\<lparr>ruid := u, euid := u, suid := u\<rparr>)
      else if u = ruid c \<or> u = suid c then (True, c\<lparr>euid := u\<rparr>) else (False, c))"

definition posix_setegid :: "uid \<Rightarrow> posix_cred \<Rightarrow> bool \<times> posix_cred" where
  "posix_setegid g c = (if euid c = 0 \<or> g = rgid c \<or> g = sgid c then (True, c\<lparr>egid := g\<rparr>) else (False, c))"

definition posix_setgid :: "uid \<Rightarrow> posix_cred \<Rightarrow> bool \<times> posix_cred" where
  "posix_setgid g c =
     (if euid c = 0 then (True, c\<lparr>rgid := g, egid := g, sgid := g\<rparr>)
      else if g = rgid c \<or> g = sgid c then (True, c\<lparr>egid := g\<rparr>) else (False, c))"

definition posix :: "posix_cred os" where
  "posix = \<lparr>os_getuid = ruid, os_geteuid = euid, os_getgid = rgid, os_getegid = egid,
     os_seteuid = posix_seteuid, os_setuid = posix_setuid, os_setegid = posix_setegid, os_setgid = posix_setgid,
     os_chdir = (\<lambda>d c. c\<lparr>cwd := d\<rparr>), os_getcwd = cwd\<rparr>"

interpretation px: posix_os posix
  by unfold_locales
    (auto simp: posix_def posix_seteuid_def posix_setuid_def posix_setegid_def posix_setgid_def split: if_splits)

lemma posix_os_posix: "posix_os posix"
  by (rule px.posix_os_axioms)

section \<open>Properties\<close>

text \<open>
  C19: once \<open>u_init_security\<close> has returned, the process runs as the real user, and in every state
  reached by any sequence of the calls it runs as the real user, or as root while the library
  remembers root as its effective user.
\<close>

theorem security_invariant:
  assumes "posix_os os" "os_getuid os (cred s0) \<noteq> -1" "u_init_security os s0 = Inr s"
  shows "os_geteuid os (cred s) = os_getuid os (cred s0) \<and> (\<forall>s'. (sec_step os)\<^sup>*\<^sup>* s s' \<longrightarrow> sec_inv os s')"
  using posix_os.init_inv [OF assms] posix_os.steps_inv [OF assms(1)] by metis

abbreviation setuid_root :: posix_cred where
  "setuid_root \<equiv> \<lparr>ruid = 1000, euid = 0, suid = 0, rgid = 100, egid = 100, sgid = 100, cwd = [SLASH]\<rparr>"

lemma init_setuid_root:
  "u_init_security posix (security_start setuid_root) =
     Inr \<lparr>real_uid = 1000, real_gid = 100, effective_uid = 0, effective_gid = 100,
       cred = setuid_root\<lparr>euid := 1000\<rparr>\<rparr>"
  by code_simp

theorem security_invariant_witness:
  "\<exists>s. u_init_security posix (security_start setuid_root) = Inr s \<and>
    os_geteuid posix (cred s) = 1000 \<and> (\<forall>s'. (sec_step posix)\<^sup>*\<^sup>* s s' \<longrightarrow> sec_inv posix s')"
proof -
  have "os_getuid posix (cred (security_start setuid_root)) = 1000" by code_simp
  then show ?thesis
    using security_invariant [OF posix_os_posix _ init_setuid_root] init_setuid_root by simp
qed

text \<open>
  C4: after \<open>u_never_need_root\<close> has returned, no sequence of the calls makes the process run as root
  again, for a real user other than root.
\<close>

theorem never_root_again:
  assumes "posix_os os" "u_never_need_root os s = Inr s'" "real_uid s \<noteq> 0" "(sec_step os)\<^sup>*\<^sup>* s' s''"
  shows "os_geteuid os (cred s'') = real_uid s \<and> os_getuid os (cred s'') = real_uid s \<and>
    u_need_root os True s'' = Inl Not_setuid_root"
proof -
  have "real_uid s \<noteq> -1" using assms(2) by (auto simp: u_never_need_root_def split: if_splits)
  note inv = posix_os.never_need_root_inv [OF assms(1) this assms(2)]
  show ?thesis
    using posix_os.steps_inv [OF assms(1, 4)] inv assms(3) by (auto simp: sec_inv_def u_need_root_def)
qed

theorem never_root_again_witness:
  "\<exists>s s' s''. u_never_need_root posix s = Inr s' \<and> sec_step posix s' s'' \<and>
    os_geteuid posix (cred s'') = 1000 \<and> os_getuid posix (cred s'') = 1000 \<and>
    u_need_root posix True s'' = Inl Not_setuid_root"
proof -
  let ?s = "\<lparr>real_uid = 1000, real_gid = 100, effective_uid = 0, effective_gid = 100, cred = setuid_root\<rparr>"
  let ?s' = "\<lparr>real_uid = 1000, real_gid = 100, effective_uid = 1000, effective_gid = 100,
    cred = setuid_root\<lparr>ruid := 1000, euid := 1000, suid := 1000\<rparr>\<rparr>"
  have n: "u_never_need_root posix ?s = Inr ?s'" by code_simp
  have "u_need_root posix False ?s' = Inr ?s'" by code_simp
  then have st: "sec_step posix ?s' ?s'" by (rule sec_step.need_root)
  have "os_geteuid posix (cred ?s') = real_uid ?s \<and> os_getuid posix (cred ?s') = real_uid ?s \<and>
      u_need_root posix True ?s' = Inl Not_setuid_root"
    by (rule never_root_again [OF posix_os_posix n _ r_into_rtranclp [of "sec_step posix", OF st]]) simp
  then show ?thesis using n st by (intro exI [of _ ?s] exI [of _ ?s']) simp
qed


text \<open>
  A program that is setuid to a user other than root does not have its privileges dropped, as
  the warning announces: \<open>u_init_security\<close> ends the process, because \<open>u_never_need_root\<close> calls
  \<open>setuid\<close> for root only.
\<close>

theorem init_security_setuid_nonroot:
  assumes "posix_os os" "os_getuid os (cred s0) \<noteq> -1"
    and "os_geteuid os (cred s0) \<noteq> os_getuid os (cred s0)" "os_geteuid os (cred s0) \<noteq> 0"
  shows "u_init_security os s0 = Inl Root_not_dropped"
  using posix_os.init_setuid_nonroot [OF assms] .

theorem init_security_setuid_nonroot_witness:
  "u_init_security posix (security_start (setuid_root\<lparr>euid := 7, suid := 7\<rparr>)) = Inl Root_not_dropped"
  by (rule init_security_setuid_nonroot [OF posix_os_posix]) (code_simp+)

text \<open>
  Between \<open>u_need_root\<close> and \<open>u_dont_need_root\<close> the process runs as root, and afterwards as the real
  user again, when the library remembers root and the system lets the process take it.
\<close>

theorem root_bracket:
  assumes "posix_os os" "sec_inv os s" "u_need_root os True s = Inr s1" "u_dont_need_root os s1 = Inr s2"
  shows "os_geteuid os (cred s1) = 0 \<and> os_geteuid os (cred s2) = real_uid s \<and> os_getuid os (cred s2) = real_uid s"
proof -
  note i1 = posix_os.need_root_inv [OF assms(1-3)]
  have "os_geteuid os (cred s1) = 0"
    using assms(3) by (auto simp: u_need_root_def split: if_splits prod.splits)
  then show ?thesis
    using posix_os.dont_need_root_inv [OF assms(1) conjunct1 [OF i1] assms(4)] i1 by (auto simp: sec_inv_def)
qed

theorem root_bracket_witness:
  "\<exists>s s1 s2. sec_inv posix s \<and> u_need_root posix True s = Inr s1 \<and> u_dont_need_root posix s1 = Inr s2 \<and>
    os_geteuid posix (cred s1) = 0 \<and> os_geteuid posix (cred s2) = 1000"
proof -
  let ?s = "\<lparr>real_uid = 1000, real_gid = 100, effective_uid = 0, effective_gid = 100,
       cred = setuid_root\<lparr>euid := 1000\<rparr>\<rparr>"
  let ?s1 = "?s\<lparr>cred := setuid_root\<rparr>"
  have i: "sec_inv posix ?s" by code_simp
  have 1: "u_need_root posix True ?s = Inr ?s1" by code_simp
  have 2: "u_dont_need_root posix ?s1 = Inr ?s" by code_simp
  from root_bracket [OF posix_os_posix i 1 2] i 1 2 show ?thesis
    by (intro exI [of _ ?s] exI [of _ ?s1]) simp
qed

text \<open>
  When \<open>u_runAsUser\<close> called by root answers true, the process runs with the user and group of the
  password entry as its real and effective ones, and the library remembers the user's name and, when
  asked to change to it, the directory the process is in.
\<close>

theorem runAsUser_by_root:
  assumes "posix_os os" "os_geteuid os (process r) = 0" "u_runAsUser os getpwnam user change_dir r = (True, r')"
  shows "\<exists>pw. getpwnam user = Some pw \<and> u_user_name r' = user \<and>
    os_getuid os (process r') = pw_uid pw \<and> os_geteuid os (process r') = pw_uid pw \<and>
    os_getgid os (process r') = pw_gid pw \<and> os_getegid os (process r') = pw_gid pw \<and>
    (change_dir \<and> pw_dir pw \<notin> {None, Some []} \<longrightarrow> u_cwd r' = os_getcwd os (process r'))"
proof -
  obtain pw where pw: "getpwnam user = Some pw" using assms(3) by (auto simp: u_runAsUser_def split: option.splits)
  obtain b c1 where c1: "os_setgid os (pw_gid pw) (process r) = (b, c1)" by force
  then have b: "b" using assms(3) pw by (auto simp: u_runAsUser_def split: if_splits)
  obtain b2 c2 where c2: "os_setuid os (pw_uid pw) c1 = (b2, c2)" by force
  then have b2: "b2" using assms(3) pw c1 b by (auto simp: u_runAsUser_def split: if_splits)
  have r': "process r' = c2 \<or> process r' = os_chdir os (the (pw_dir pw)) c2" "u_user_name r' = user"
    "change_dir \<and> pw_dir pw \<notin> {None, Some []} \<Longrightarrow> u_cwd r' = os_getcwd os (process r')"
    using assms(3) pw c1 b c2 b2 by (auto simp: u_runAsUser_def Let_def split: if_splits)
  have "os_getuid os c2 = pw_uid pw \<and> os_geteuid os c2 = pw_uid pw \<and> os_getgid os c2 = pw_gid pw \<and> os_getegid os c2 = pw_gid pw"
    using posix_os.setgid_ok [OF assms(1), of "pw_gid pw" "process r" c1] posix_os.setgid_uid [OF assms(1) c1]
      posix_os.setuid_ok [OF assms(1), of "pw_uid pw" c1 c2] posix_os.setuid_gid [OF assms(1) c2] c1 b c2 b2 assms(2) by simp
  then show ?thesis using r' pw posix_os.chdir_ids [OF assms(1)] by auto
qed

theorem runAsUser_by_root_witness:
  "\<exists>r'. u_runAsUser posix (\<lambda>u. Some \<lparr>pw_uid = 33, pw_gid = 34, pw_dir = Some [SLASH, 119]\<rparr>) [119] True
      \<lparr>u_user_name = [], u_cwd = [], process = setuid_root\<rparr> = (True, r') \<and>
    os_geteuid posix (process r') = 33 \<and> u_cwd r' = [SLASH, 119]"
proof -
  let ?pw = "\<lambda>u :: byte list. Some \<lparr>pw_uid = 33, pw_gid = 34, pw_dir = Some [SLASH, 119]\<rparr>"
  let ?r = "\<lparr>u_user_name = [], u_cwd = [], process = setuid_root\<rparr>"
  let ?c = "setuid_root\<lparr>ruid := 33, euid := 33, suid := 33, rgid := 34, egid := 34, sgid := 34, cwd := [SLASH, 119]\<rparr>"
  have 1: "os_geteuid posix (process ?r) = 0" by code_simp
  have 2: "u_runAsUser posix ?pw [119] True ?r = (True, \<lparr>u_user_name = [119], u_cwd = [SLASH, 119], process = ?c\<rparr>)"
    by code_simp
  from runAsUser_by_root [OF posix_os_posix 1 2] 2 show ?thesis by auto
qed

end
