(* ===== verification/Fnmatch.thy ===== *)
theory Fnmatch
  imports Prelude Ctype
begin

text \<open>
  File name patterns (\<open>rangematch\<close>, \<open>kfnmatch\<close>, \<open>u_fnmatch\<close> of \<open>utility.c\<close>). Pattern and string are
  memories with an end offset each, as the static pointers \<open>end_p\<close> and \<open>end_s\<close>; \<open>None\<close> is a read
  outside one of them. The C result \<open>0\<close>, a match, is \<open>True\<close> here.
\<close>

section \<open>Operations\<close>

type_synonym flags = "32 word"

definition FNM_PATHNAME :: flags where "FNM_PATHNAME = 1"
definition FNM_NOESCAPE :: flags where "FNM_NOESCAPE = 2"
definition FNM_PERIOD :: flags where "FNM_PERIOD = 4"
definition FNM_LEADING_DIR :: flags where "FNM_LEADING_DIR = 8"
definition FNM_CASEFOLD :: flags where "FNM_CASEFOLD = 16"
definition FNM_INVERT :: flags where "FNM_INVERT = 0x10000000"

definition has :: "flags \<Rightarrow> flags \<Rightarrow> bool" where
  "has flags f \<longleftrightarrow> flags AND f \<noteq> 0"

definition fold_case :: "flags \<Rightarrow> byte \<Rightarrow> byte" where
  "fold_case flags c = (if has flags FNM_CASEFOLD then u__tolower c else c)"

text \<open>
  One pass of the loop of \<open>rangematch\<close>: \<open>c0\<close> is the character read last and \<open>p0\<close> the pointer behind
  it. \<open>Item hit p\<close> goes on at \<open>p\<close>. Characters are compared as \<open>char\<close>, which is signed.
\<close>

datatype range_item = Item_error | Item_no | Item bool nat

definition range_char :: "mem \<Rightarrow> flags \<Rightarrow> byte \<Rightarrow> nat \<Rightarrow> (byte \<times> nat) option" where
  "range_char pat flags c p =
     (if c = BSLASH \<and> \<not> has flags FNM_NOESCAPE then map_option (\<lambda>c'. (c', p + 1)) (rd pat p) else Some (c, p))"

definition range_pair :: "mem \<Rightarrow> nat \<Rightarrow> byte \<Rightarrow> flags \<Rightarrow> byte \<Rightarrow> nat \<Rightarrow> range_item option" where
  "range_pair pat ep test flags c p =
     (case rd pat p of
        None \<Rightarrow> None
      | Some d \<Rightarrow>
          if d \<noteq> MINUS then Some (Item (c = test) p)
          else
            (case rd pat (p + 1) of
               None \<Rightarrow> None
             | Some d2 \<Rightarrow>
                 if d2 = RBRACK \<or> p + 1 = ep then Some (Item (c = test) p)
                 else
                   (case range_char pat flags d2 (p + 2) of
                      None \<Rightarrow> None
                    | Some (c2, p2) \<Rightarrow>
                        Some (if ep < p2 then Item_error
                              else Item (c <=s test \<and> test <=s fold_case flags c2) p2))))"

definition range_item :: "mem \<Rightarrow> nat \<Rightarrow> byte \<Rightarrow> flags \<Rightarrow> byte \<Rightarrow> nat \<Rightarrow> range_item option" where
  "range_item pat ep test flags c0 p0 =
     (case range_char pat flags c0 p0 of
        None \<Rightarrow> None
      | Some (c, p) \<Rightarrow>
          if ep < p then Some Item_error
          else if c = SLASH \<and> has flags FNM_PATHNAME then Some Item_no
          else range_pair pat ep test flags (fold_case flags c) p)"

lemma range_char_bounds: "range_char pat flags c p = Some (c', q) \<Longrightarrow> p \<le> q"
  by (auto simp: range_char_def split: if_splits)

lemma range_pair_bounds: "range_pair pat ep test flags c p = Some (Item hit q) \<Longrightarrow> p \<le> ep \<Longrightarrow> p \<le> q \<and> q \<le> ep"
  by (auto simp: range_pair_def split: option.splits if_splits dest!: range_char_bounds)

lemma range_item_bounds: "range_item pat ep test flags c p = Some (Item hit q) \<Longrightarrow> p \<le> q \<and> q \<le> ep"
  by (auto simp: range_item_def split: option.splits if_splits dest!: range_char_bounds range_pair_bounds)

datatype range_result = Range_error | Range_no | Range_yes nat

function range_loop :: "mem \<Rightarrow> nat \<Rightarrow> byte \<Rightarrow> flags \<Rightarrow> bool \<Rightarrow> byte \<Rightarrow> nat \<Rightarrow> bool \<Rightarrow> range_result option" where
  "range_loop pat ep test flags negate c p ok =
     (case range_item pat ep test flags c p of
        None \<Rightarrow> None
      | Some Item_error \<Rightarrow> Some Range_error
      | Some Item_no \<Rightarrow> Some Range_no
      | Some (Item hit q) \<Rightarrow>
          (case rd pat q of
             None \<Rightarrow> None
           | Some c' \<Rightarrow>
               if c' \<noteq> RBRACK then range_loop pat ep test flags negate c' (q + 1) (ok \<or> hit)
               else Some (if (ok \<or> hit) = negate then Range_no else Range_yes (q + 1))))"
  by pat_completeness auto

termination
  by (relation "measure (\<lambda>(pat, ep, test, flags, negate, c, p, ok). Suc ep - p)")
    (auto dest!: range_item_bounds)

declare range_loop.simps [simp del]

definition rangematch :: "mem \<Rightarrow> nat \<Rightarrow> nat \<Rightarrow> byte \<Rightarrow> flags \<Rightarrow> range_result option" where
  "rangematch pat ep p test flags = do {
     c \<leftarrow> rd pat p;
     let negate = (c = 33 \<or> c = CARET);
     let p1 = (if negate then p + 1 else p);
     c1 \<leftarrow> rd pat p1;
     range_loop pat ep (fold_case flags test) flags negate c1 (p1 + 1) False
   }"

lemma range_loop_advances: "range_loop pat ep test flags negate c p ok = Some (Range_yes q) \<Longrightarrow> p < q"
proof (induction pat ep test flags negate c p ok rule: range_loop.induct)
  case (1 pat ep test flags negate c p ok)
  from 1(2) obtain hit r c' where r: "range_item pat ep test flags c p = Some (Item hit r)" "rd pat r = Some c'"
    by (subst (asm) range_loop.simps) (auto split: option.splits range_item.splits)
  then show ?case
    using 1(1) [OF r(1) refl r(2)] 1(2) range_item_bounds [OF r(1)]
    by (subst (asm) (2) range_loop.simps) (auto split: if_splits)
qed

lemma rangematch_advances: "rangematch pat ep p test flags = Some (Range_yes q) \<Longrightarrow> Suc p < q"
  by (auto simp: rangematch_def bind_eq_Some_conv Let_def dest!: range_loop_advances split: if_splits)

text \<open>\<open>while (c == '*') c = *++pattern\<close>: the character found and its offset.\<close>

function collapse_stars :: "mem \<Rightarrow> nat \<Rightarrow> (byte \<times> nat) option" where
  "collapse_stars pat p = do {
     c \<leftarrow> rd pat p;
     if c = STAR then collapse_stars pat (p + 1) else Some (c, p)
   }"
  by pat_completeness auto

termination by (relation "measure (\<lambda>(pat, p). length pat - p)") (auto simp: rd_Some_iff)

declare collapse_stars.simps [simp del]

lemma collapse_stars_le: "collapse_stars pat p = Some (c, q) \<Longrightarrow> p \<le> q"
proof (induction pat p rule: collapse_stars.induct)
  case (1 pat p)
  from 1(2) show ?case
    using 1(1) by (subst (asm) collapse_stars.simps) (fastforce simp: bind_eq_Some_conv split: if_splits)
qed

text \<open>A period that a wildcard must not match.\<close>

definition leading_period :: "mem \<Rightarrow> flags \<Rightarrow> nat \<Rightarrow> nat \<Rightarrow> bool option" where
  "leading_period str flags stringstart s = do {
     x \<leftarrow> rd str s;
     if x = DOT \<and> has flags FNM_PERIOD then
       if s = stringstart then Some True
       else if has flags FNM_PATHNAME then map_option (\<lambda>y. y = SLASH) (rdi str (int s - 1))
       else Some False
     else Some False
   }"

text \<open>\<open>memchr (string, '/', end_s - string)\<close>; a negative length is a fault.\<close>

definition find_slash :: "mem \<Rightarrow> nat \<Rightarrow> nat \<Rightarrow> nat option option" where
  "find_slash str es s =
     (if s \<le> es \<and> es \<le> length str then Some (memchr (take (es - s) (drop s str)) SLASH) else None)"

definition norm_match :: "flags \<Rightarrow> byte \<Rightarrow> byte \<Rightarrow> bool" where
  "norm_match flags c x \<longleftrightarrow> c = x \<or> has flags FNM_CASEFOLD \<and> u__tolower c = u__tolower x"

text \<open>
  \<open>kfn_loop\<close> is a pass of the loop of \<open>kfnmatch\<close>, \<open>kfn_star\<close> its inner loop for a star, \<open>kfnmatch\<close> the
  entry.
\<close>

function kfnmatch :: "mem \<Rightarrow> nat \<Rightarrow> mem \<Rightarrow> nat \<Rightarrow> flags \<Rightarrow> nat \<Rightarrow> nat \<Rightarrow> nat \<Rightarrow> bool option"
  and kfn_loop :: "mem \<Rightarrow> nat \<Rightarrow> mem \<Rightarrow> nat \<Rightarrow> flags \<Rightarrow> nat \<Rightarrow> nat \<Rightarrow> nat \<Rightarrow> nat \<Rightarrow> bool option"
  and kfn_star :: "mem \<Rightarrow> nat \<Rightarrow> mem \<Rightarrow> nat \<Rightarrow> flags \<Rightarrow> nat \<Rightarrow> nat \<Rightarrow> nat \<Rightarrow> bool option"
where
  "kfnmatch pat ep str es flags nesting p s =
     (if nesting = 20 then Some False else kfn_loop pat ep str es flags nesting s p s)"
| "kfn_loop pat ep str es flags nesting start p s = do {
     c \<leftarrow> rd pat p;
     if ep < p + 1 then
       if has flags FNM_LEADING_DIR then map_option (\<lambda>x. x = SLASH \<or> s = es) (rd str s) else Some (s = es)
     else if c = QUERY then
       if s = es then Some False
       else do {
         x \<leftarrow> rd str s;
         if x = SLASH \<and> has flags FNM_PATHNAME then Some False
         else do {
           hidden \<leftarrow> leading_period str flags start s;
           if hidden then Some False else kfn_loop pat ep str es flags nesting start (p + 1) (s + 1)
         }
       }
     else if c = STAR then do {
       (c1, p1) \<leftarrow> collapse_stars pat (p + 1);
       hidden \<leftarrow> leading_period str flags start s;
       if hidden then Some False
       else if p1 = ep then
         if has flags FNM_PATHNAME then
           if has flags FNM_LEADING_DIR then Some True
           else map_option (\<lambda>r. r = None) (find_slash str es s)
         else Some True
       else if c1 = SLASH \<and> has flags FNM_PATHNAME then do {
         r \<leftarrow> find_slash str es s;
         case r of None \<Rightarrow> Some False | Some k \<Rightarrow> kfn_loop pat ep str es flags nesting start p1 (s + k)
       }
       else kfn_star pat ep str es flags nesting p1 s
     }
     else if c = LBRACK then
       if s = es then Some False
       else do {
         x \<leftarrow> rd str s;
         if x = SLASH \<and> has flags FNM_PATHNAME then Some False
         else do {
           hidden \<leftarrow> leading_period str flags start s;
           if hidden then Some False
           else do {
             r \<leftarrow> rangematch pat ep (p + 1) x flags;
             case r of
               Range_error \<Rightarrow>
                 (if norm_match flags c x then kfn_loop pat ep str es flags nesting start (p + 1) (s + 1) else Some False)
             | Range_no \<Rightarrow> Some False
             | Range_yes newp \<Rightarrow> kfn_loop pat ep str es flags nesting start newp (s + 1)
           }
         }
       }
     else do {
       (c1, p1) \<leftarrow>
         if c = BSLASH \<and> \<not> has flags FNM_NOESCAPE then
           map_option (\<lambda>c'. if ep < p + 2 then (BSLASH, p + 1) else (c', p + 2)) (rd pat (p + 1))
         else Some (c, p + 1);
       x \<leftarrow> rd str s;
       if norm_match flags c1 x then kfn_loop pat ep str es flags nesting start p1 (s + 1) else Some False
     }
   }"
| "kfn_star pat ep str es flags nesting p s =
     (if s < es then do {
        test \<leftarrow> rd str s;
        r \<leftarrow> kfnmatch pat ep str es (flags AND NOT FNM_PERIOD) (nesting + 1) p s;
        if r then Some True
        else if test = SLASH \<and> has flags FNM_PATHNAME then Some False
        else kfn_star pat ep str es flags nesting p (s + 1)
      }
      else Some False)"
  by pat_completeness auto

termination
proof (relation "inv_image (less_than <*lex*> less_than) (\<lambda>x. case x of
    Inl (pat, ep, str, es, flags, nesting, p, s) \<Rightarrow> (Suc ep - p, 1)
  | Inr (Inl (pat, ep, str, es, flags, nesting, start, p, s)) \<Rightarrow> (Suc ep - p, 0)
  | Inr (Inr (pat, ep, str, es, flags, nesting, p, s)) \<Rightarrow> (Suc ep - p, 2 + (es - s)))", goal_cases)
qed (auto dest!: collapse_stars_le rangematch_advances split: if_splits)

declare kfnmatch.simps [simp del]
declare kfn_loop.simps [simp del]
declare kfn_star.simps [simp del]

definition u_fnmatch :: "mem \<Rightarrow> nat \<Rightarrow> mem \<Rightarrow> nat \<Rightarrow> flags \<Rightarrow> bool option" where
  "u_fnmatch str n1 pat n2 flags =
     map_option (\<lambda>r. if has flags FNM_INVERT then \<not> r else r) (kfnmatch pat n2 str n1 flags 0 0 0)"

section \<open>Shape of a match\<close>

lemma collapse_stars_rd: "collapse_stars pat p = Some (c, q) \<Longrightarrow> rd pat q = Some c"
proof (induction pat p rule: collapse_stars.induct)
  case (1 pat p)
  from 1(2) show ?case
    using 1(1) by (subst (asm) collapse_stars.simps) (fastforce simp: bind_eq_Some_conv split: if_splits)
qed

lemma rd_in_set: "rd m i = Some c \<Longrightarrow> c \<in> set m"
  by (auto simp: rd_Some_iff)

text \<open>
  A successful pass consumes one character, skips to a slash, enters a star, or is the last one. A
  character consumed is not a slash under \<open>FNM_PATHNAME\<close>, unless the pattern has one.
\<close>

lemma kfn_loop_True:
  assumes "kfn_loop pat ep str es flags n start p s = Some True"
  obtains (End) "s = es \<or> has flags FNM_LEADING_DIR"
  | (One) p' x where "p < p'" "p < ep" "rd str s = Some x" "kfn_loop pat ep str es flags n start p' (s + 1) = Some True"
      "x = SLASH \<and> has flags FNM_PATHNAME \<longrightarrow> (\<exists>c \<in> {LBRACK, BSLASH} \<union> set pat. norm_match flags c x)"
  | (Star_end) "has flags FNM_PATHNAME \<and> \<not> has flags FNM_LEADING_DIR \<longrightarrow> find_slash str es s = Some None"
  | (Star_slash) "SLASH \<in> set pat"
  | (Star) p' where "p < p'" "p < ep" "kfn_star pat ep str es flags n p' s = Some True"
proof -
  note pass = assms [unfolded kfn_loop.simps [of pat ep str es flags n start p s]]
  obtain c where c: "rd pat p = Some c" using pass by (auto simp: bind_eq_Some_conv)
  consider "ep < p + 1" | "p < ep" "c = QUERY" | "p < ep" "c = STAR" | "p < ep" "c = LBRACK"
    | "p < ep" "c \<noteq> QUERY" "c \<noteq> STAR" "c \<noteq> LBRACK" by linarith
  then show thesis
  proof cases
    case 1
    then show thesis using pass c End
      by (auto split: if_splits)
  next
    case 2
    then show thesis using pass c One [of "p + 1"]
      by (auto simp: bind_eq_Some_conv split: if_splits)
  next
    case 3
    obtain c1 p1 where p1: "collapse_stars pat (p + 1) = Some (c1, p1)"
      using pass c 3 by (auto simp: bind_eq_Some_conv)
    then have "p < p1" "c1 \<in> set pat"
      using collapse_stars_le [OF p1] rd_in_set [OF collapse_stars_rd [OF p1]] by auto
    then show thesis using pass c 3 p1 Star_end Star_slash Star [of p1]
      by (auto simp: bind_eq_Some_conv split: if_splits option.splits)
  next
    case 4
    have "s \<noteq> es" using pass c 4 by auto
    obtain x where x: "rd str s = Some x" "x = SLASH \<longrightarrow> \<not> has flags FNM_PATHNAME"
      using pass c 4 \<open>s \<noteq> es\<close> by (auto simp: bind_eq_Some_conv split: if_splits)
    have "leading_period str flags start s = Some False"
      using pass c 4 \<open>s \<noteq> es\<close> x by (auto simp: bind_eq_Some_conv split: if_splits)
    then have m: "rangematch pat ep (p + 1) x flags \<bind> (\<lambda>r. case r of
               Range_error \<Rightarrow>
                 (if norm_match flags c x then kfn_loop pat ep str es flags n start (p + 1) (s + 1) else Some False)
             | Range_no \<Rightarrow> Some False
             | Range_yes newp \<Rightarrow> kfn_loop pat ep str es flags n start newp (s + 1)) = Some True"
      using pass c 4 \<open>s \<noteq> es\<close> x by (simp split: if_splits)
    then obtain r where r: "rangematch pat ep (p + 1) x flags = Some r" by (auto simp: bind_eq_Some_conv)
    show thesis
    proof (cases r)
      case Range_error
      then show thesis using m r x 4 One [of "p + 1" x] by (auto split: if_splits)
    next
      case (Range_yes q)
      then show thesis using m r x 4 One [of q x] rangematch_advances [of pat ep "p + 1" x flags q] by auto
    qed (use m r in simp)
  next
    case 5
    then obtain c1 p1 x where c1: "(if c = BSLASH \<and> \<not> has flags FNM_NOESCAPE then
           map_option (\<lambda>c'. if ep < p + 2 then (BSLASH, p + 1) else (c', p + 2)) (rd pat (p + 1))
         else Some (c, p + 1)) = Some (c1, p1)"
      and x: "rd str s = Some x" "norm_match flags c1 x" "kfn_loop pat ep str es flags n start p1 (s + 1) = Some True"
      using pass c
      by (auto simp: bind_eq_Some_conv split: if_splits)
    have "p < p1" "c1 \<in> {LBRACK, BSLASH} \<union> set pat"
      using c1 rd_in_set [OF c] rd_in_set [of pat "p + 1"] by (auto split: if_splits)
    then show thesis using x 5 One [of p1 x] by blast
  qed
qed

lemma kfn_star_True:
  "kfn_star pat ep str es flags n p s = Some True \<Longrightarrow>
   \<exists>t. s \<le> t \<and> t < es \<and> kfnmatch pat ep str es (flags AND NOT FNM_PERIOD) (n + 1) p t = Some True \<and>
     (has flags FNM_PATHNAME \<longrightarrow> (\<forall>i. s \<le> i \<and> i < t \<longrightarrow> rd str i \<noteq> Some SLASH))"
proof (induction "es - s" arbitrary: s)
  case 0
  then show ?case by (subst (asm) kfn_star.simps) simp
next
  case (Suc d)
  then have "s < es" and d: "d = es - (s + 1)" by simp_all
  from Suc(3) obtain test r where t: "rd str s = Some test"
    "kfnmatch pat ep str es (flags AND NOT FNM_PERIOD) (n + 1) p s = Some r"
    "r \<or> \<not> (test = SLASH \<and> has flags FNM_PATHNAME) \<and> kfn_star pat ep str es flags n p (s + 1) = Some True"
    using \<open>s < es\<close> by (subst (asm) kfn_star.simps) (auto simp: bind_eq_Some_conv split: if_splits)
  show ?case
  proof (cases r)
    case True
    then show ?thesis using t \<open>s < es\<close> by auto
  next
    case False
    then obtain u where u: "s + 1 \<le> u" "u < es" "kfnmatch pat ep str es (flags AND NOT FNM_PERIOD) (n + 1) p u = Some True"
      "has flags FNM_PATHNAME \<longrightarrow> (\<forall>i. s + 1 \<le> i \<and> i < u \<longrightarrow> rd str i \<noteq> Some SLASH)"
      using Suc(1) [of "s + 1"] d t(3) by blast
    have "rd str i \<noteq> Some SLASH" if "has flags FNM_PATHNAME" "s \<le> i" "i < u" for i
      using that u(4) t(1, 3) False by (cases "i = s") auto
    then show ?thesis using u(1-3) by (intro exI [of _ u]) auto
  qed
qed

lemma has_not_period:
  "has (flags AND NOT FNM_PERIOD) FNM_PATHNAME = has flags FNM_PATHNAME"
  "has (flags AND NOT FNM_PERIOD) FNM_LEADING_DIR = has flags FNM_LEADING_DIR"
  "has (flags AND NOT FNM_PERIOD) FNM_CASEFOLD = has flags FNM_CASEFOLD"
  "\<not> has (flags AND NOT FNM_PERIOD) FNM_PERIOD"
proof -
  have "NOT FNM_PERIOD AND FNM_PATHNAME = FNM_PATHNAME" "NOT FNM_PERIOD AND FNM_LEADING_DIR = FNM_LEADING_DIR"
    "NOT FNM_PERIOD AND FNM_CASEFOLD = FNM_CASEFOLD" "NOT FNM_PERIOD AND FNM_PERIOD = 0"
    by (simp_all add: FNM_PERIOD_def FNM_PATHNAME_def FNM_LEADING_DIR_def FNM_CASEFOLD_def)
  then show "has (flags AND NOT FNM_PERIOD) FNM_PATHNAME = has flags FNM_PATHNAME"
    "has (flags AND NOT FNM_PERIOD) FNM_LEADING_DIR = has flags FNM_LEADING_DIR"
    "has (flags AND NOT FNM_PERIOD) FNM_CASEFOLD = has flags FNM_CASEFOLD"
    "\<not> has (flags AND NOT FNM_PERIOD) FNM_PERIOD"
    by (simp_all add: has_def and.assoc)
qed

lemma tolower_slash [rule_format]: "u__tolower c = u__tolower SLASH \<longrightarrow> c = SLASH"
  by (rule all_byteI [where P = "\<lambda>c. u__tolower c = u__tolower SLASH \<longrightarrow> c = SLASH"]) code_simp

lemma tolower_NUL [rule_format]: "u__tolower c = u__tolower NUL \<longrightarrow> c = NUL"
  by (rule all_byteI [where P = "\<lambda>c. u__tolower c = u__tolower NUL \<longrightarrow> c = NUL"]) code_simp

lemma kfn_loop_pathname:
  assumes "SLASH \<notin> set pat" "has flags FNM_PATHNAME" "\<not> has flags FNM_LEADING_DIR"
    and "kfn_loop pat ep str es flags n start p s = Some True"
  shows "\<forall>i. s \<le> i \<and> i < es \<longrightarrow> rd str i \<noteq> Some SLASH"
  using assms(2-4)
proof (induction "Suc ep - p" arbitrary: flags n start p s rule: less_induct)
  case less
  from less(4) show ?case
  proof (cases rule: kfn_loop_True)
    case (One p' x)
    have "x \<noteq> SLASH"
    proof
      assume "x = SLASH"
      then obtain c where "c \<in> {LBRACK, BSLASH} \<union> set pat" "norm_match flags c SLASH" using One(5) less(2) by blast
      then have "c = SLASH" using tolower_slash by (auto simp: norm_match_def)
      then show False using \<open>c \<in> _\<close> assms(1) by simp
    qed
    moreover have "\<forall>i. s + 1 \<le> i \<and> i < es \<longrightarrow> rd str i \<noteq> Some SLASH"
      using less(1) [of p' flags n start "s + 1"] less(2, 3) One(1, 2, 4) by simp
    ultimately show ?thesis using One(3) by (metis Suc_eq_plus1 not_less_eq_eq le_antisym option.inject)
  next
    case (Star p')
    obtain t where t: "s \<le> t" "t < es" "kfnmatch pat ep str es (flags AND NOT FNM_PERIOD) (n + 1) p' t = Some True"
      "\<forall>i. s \<le> i \<and> i < t \<longrightarrow> rd str i \<noteq> Some SLASH"
      using kfn_star_True [OF Star(3)] less(2) by blast
    from t(3) have "kfn_loop pat ep str es (flags AND NOT FNM_PERIOD) (n + 1) t p' t = Some True"
      by (auto simp: kfnmatch.simps split: if_splits)
    then have "\<forall>i. t \<le> i \<and> i < es \<longrightarrow> rd str i \<noteq> Some SLASH"
      using less(1) [of p' "flags AND NOT FNM_PERIOD" "n + 1" t t] Star(1, 2) less(2, 3) by (simp add: has_not_period)
    then show ?thesis using t(4) by (meson not_less)
  next
    case Star_end
    then have f: "find_slash str es s = Some None" using less(2, 3) by simp
    then have "SLASH \<notin> set (take (es - s) (drop s str))" "es \<le> length str" "s \<le> es"
      by (auto simp: find_slash_def memchr_None split: if_splits)
    then show ?thesis
      by (auto simp: in_set_conv_nth rd_Some_iff) (metis add_diff_inverse_nat diff_less_mono not_less)
  qed (use assms(1) less(3) in auto)
qed

section \<open>Specification of the patterns without brackets\<close>

fun glob :: "flags \<Rightarrow> byte list \<Rightarrow> byte list \<Rightarrow> bool" where
  "glob flags [] s \<longleftrightarrow> s = []"
| "glob flags (c # p) s \<longleftrightarrow>
     (if c = QUERY then s \<noteq> [] \<and> glob flags p (tl s)
      else if c = STAR then (\<exists>k \<le> length s. glob flags p (drop k s))
      else s \<noteq> [] \<and> norm_match flags c (hd s) \<and> glob flags p (tl s))"

lemma glob_stars:
  "0 < k \<Longrightarrow> glob flags (replicate k STAR @ q) s \<longleftrightarrow> (\<exists>t \<le> length s. glob flags q (drop t s))"
proof (induction k arbitrary: s)
  case (Suc k)
  show ?case
  proof (cases "k = 0")
    case False
    then have "glob flags (replicate k STAR @ q) (drop j s) \<longleftrightarrow> (\<exists>t \<le> length s - j. glob flags q (drop (j + t) s))" for j
      using Suc.IH [of "drop j s"] by (simp add: add.commute)
    then show ?thesis
      by auto (metis add_leD1 le_diff_conv2 add.commute, metis add_0 diff_zero zero_le)
  qed simp
qed simp

lemma collapse_stars_eq:
  "P = x @ replicate k STAR @ q \<Longrightarrow> hd (q @ [NUL]) \<noteq> STAR \<Longrightarrow>
   collapse_stars (P @ [NUL]) (length x) = Some (hd (q @ [NUL]), length x + k)"
proof (induction k arbitrary: x)
  case 0
  then have "rd (P @ [NUL]) (length x) = Some (hd (q @ [NUL]))" by (cases q) auto
  then show ?case using 0 by (subst collapse_stars.simps) simp
next
  case (Suc k)
  then have P: "P = (x @ [STAR]) @ replicate k STAR @ q" by simp
  then have "rd (P @ [NUL]) (length x) = Some STAR" by simp
  then show ?case using Suc.IH [OF P] Suc.prems(2) by (subst collapse_stars.simps) simp
qed

definition plain_pattern :: "byte list \<Rightarrow> bool" where
  "plain_pattern P \<longleftrightarrow> NUL \<notin> set P \<and> LBRACK \<notin> set P \<and> BSLASH \<notin> set P"

definition plain_flags :: "flags \<Rightarrow> bool" where
  "plain_flags flags \<longleftrightarrow> \<not> has flags FNM_PATHNAME \<and> \<not> has flags FNM_PERIOD \<and> \<not> has flags FNM_LEADING_DIR"

lemma plain_not_period: "plain_flags flags \<Longrightarrow> plain_flags (flags AND NOT FNM_PERIOD)"
  by (simp add: plain_flags_def has_not_period)

lemma glob_not_period: "glob (flags AND NOT FNM_PERIOD) P S = glob flags P S"
  by (induction P arbitrary: S) (simp_all add: norm_match_def has_not_period)

lemma kfn_star_glob:
  assumes "\<And>t. s \<le> t \<Longrightarrow> t < length S \<Longrightarrow>
      kfnmatch pat ep (S @ [NUL]) (length S) (flags AND NOT FNM_PERIOD) (n + 1) p t = Some (glob flags q (drop t S))"
    and "\<not> has flags FNM_PATHNAME" "s \<le> length S"
  shows "kfn_star pat ep (S @ [NUL]) (length S) flags n p s = Some (\<exists>t. s \<le> t \<and> t < length S \<and> glob flags q (drop t S))"
  using assms(1, 3)
proof (induction "length S - s" arbitrary: s)
  case 0
  then show ?case by (subst kfn_star.simps) simp
next
  case (Suc d)
  then have "s < length S" by simp
  have ex: "(\<exists>t. s \<le> t \<and> t < length S \<and> R t) \<longleftrightarrow> R s \<or> (\<exists>t. Suc s \<le> t \<and> t < length S \<and> R t)" for R
    using \<open>s < length S\<close> by (metis Suc_le_eq le_less order_refl)
  show ?case
    using Suc \<open>s < length S\<close> assms(2) by (subst kfn_star.simps) (auto simp: ex [of "\<lambda>t. glob flags q (drop t S)"])
qed

lemma shift_range:
  assumes "s \<le> length S" "glob flags q [] = False"
  shows "(\<exists>t \<le> length S - s. glob flags q (drop (s + t) S)) \<longleftrightarrow> (\<exists>t. s \<le> t \<and> t < length S \<and> glob flags q (drop t S))"
    (is "?l \<longleftrightarrow> ?r")
proof
  assume ?l
  then obtain t where t: "glob flags q (drop (s + t) S)" by blast
  then have "s + t < length S" using assms(2) by (cases "s + t < length S") simp_all
  then show ?r using t by (intro exI [of _ "s + t"]) simp
next
  assume ?r
  then obtain t where "s \<le> t" "t < length S" "glob flags q (drop t S)" by blast
  then show ?l by (intro exI [of _ "t - s"]) simp
qed

lemma kfn_loop_glob:
  assumes "plain_pattern P" "NUL \<notin> set S"
    and "plain_flags flags" "P = x @ Q" "n + count_list Q STAR < 20" "s \<le> length S"
  shows "kfn_loop (P @ [NUL]) (length P) (S @ [NUL]) (length S) flags n start (length x) s = Some (glob flags Q (drop s S))"
  using assms(3-)
proof (induction "length Q" arbitrary: flags x Q n start s rule: less_induct)
  case less
  note flags = less(2) and P = less(3) and n = less(4) and s = less(5)
  have rd_s: "rd (S @ [NUL]) s = Some (if s = length S then NUL else S ! s)"
    using s by (auto simp: rd_append2)
  have lp: "leading_period (S @ [NUL]) flags start s = Some False"
    using flags rd_s by (simp add: leading_period_def plain_flags_def)
  have dS: "s < length S \<Longrightarrow> drop s S = S ! s # drop (Suc s) S" by (simp add: Cons_nth_drop_Suc)
  show ?case
  proof (cases Q)
    case Nil
    then show ?thesis using P flags s by (subst kfn_loop.simps) (auto simp: plain_flags_def)
  next
    case (Cons c Q')
    then have rd_p: "rd (P @ [NUL]) (length x) = Some c" "length x < length P"
      and P': "P = (x @ [c]) @ Q'" using P by auto
    have c: "c \<noteq> NUL" "c \<noteq> LBRACK" "c \<noteq> BSLASH" using assms(1) P Cons by (auto simp: plain_pattern_def)
    have IH: "kfn_loop (P @ [NUL]) (length P) (S @ [NUL]) (length S) flags n start (Suc (length x)) (Suc s) =
        Some (glob flags Q' (drop (Suc s) S))" if "s < length S" "c \<noteq> STAR"
      using less(1) [of Q' flags "x @ [c]" n "Suc s" start] Cons flags P' n that by simp
    consider "c = QUERY" | "c = STAR" | "c \<noteq> QUERY" "c \<noteq> STAR" by blast
    then show ?thesis
    proof cases
      case 1
      then show ?thesis using rd_p rd_s lp IH Cons flags s dS
        by (subst kfn_loop.simps) (auto simp: plain_flags_def)
    next
      case 3
      have "\<not> norm_match flags c NUL" using c tolower_NUL by (auto simp: norm_match_def)
      then show ?thesis using 3 c rd_p rd_s IH Cons s dS
        by (subst kfn_loop.simps) auto
    next
      case 2
      define k where "k = length (takeWhile (\<lambda>c. c = STAR) Q)"
      define q where "q = dropWhile (\<lambda>c. c = STAR) Q"
      have "takeWhile (\<lambda>c. c = STAR) Q = replicate k STAR"
        unfolding k_def by (rule replicate_length_same [symmetric]) (auto dest: set_takeWhileD)
      then have Q: "Q = replicate k STAR @ q" unfolding q_def by (metis takeWhile_dropWhile_id)
      obtain k' where k: "k = Suc k'" using Cons 2 by (cases k) (auto simp: k_def)
      have q: "q = [] \<or> hd q \<noteq> STAR" unfolding q_def using hd_dropWhile by blast
      have st: "collapse_stars (P @ [NUL]) (length x + 1) = Some (hd (q @ [NUL]), length x + k)"
        using collapse_stars_eq [of P "x @ [STAR]" k' q] P Q k q by (cases q) auto
      have g: "glob flags Q (drop s S) \<longleftrightarrow> (\<exists>t \<le> length S - s. glob flags q (drop (s + t) S))"
        unfolding Q using glob_stars [of k flags q "drop s S"] k by (simp add: add.commute)
      show ?thesis
      proof (cases "q = []")
        case True
        then have "length x + k = length P" using P Q by simp
        moreover have "\<exists>t \<le> length S - s. glob flags q (drop (s + t) S)"
          using True s by (intro exI [of _ "length S - s"]) simp
        ultimately show ?thesis using 2 rd_p lp flags st g
          by (subst kfn_loop.simps) (auto simp: plain_flags_def)
      next
        case False
        then have "hd q \<noteq> STAR" "length x + k \<noteq> length P" using q P Q by auto
        have rec: "kfnmatch (P @ [NUL]) (length P) (S @ [NUL]) (length S) (flags AND NOT FNM_PERIOD) (n + 1) (length x + k) t =
            Some (glob flags q (drop t S))" if "t < length S" for t
          using less(1) [of q "flags AND NOT FNM_PERIOD" "x @ replicate k STAR" "n + 1" t t]
            plain_not_period [OF flags] P Q k n that
          by (simp add: kfnmatch.simps glob_not_period)
        have "glob flags q [] = False" using False \<open>hd q \<noteq> STAR\<close> by (cases q) auto
        then have "(\<exists>t \<le> length S - s. glob flags q (drop (s + t) S)) \<longleftrightarrow> (\<exists>t. s \<le> t \<and> t < length S \<and> glob flags q (drop t S))"
          by (rule shift_range [OF s])
        then show ?thesis
          using 2 rd_p lp flags st g \<open>length x + k \<noteq> length P\<close>
            kfn_star_glob [of s S "P @ [NUL]" "length P" flags n "length x + k" q] rec s
          by (subst kfn_loop.simps) (auto simp: plain_flags_def)
      qed
    qed
  qed
qed

section \<open>Terminated operands are never left\<close>

text \<open>A terminated operand: the contents and a terminator at the end offset.\<close>

definition terminated :: "mem \<Rightarrow> nat \<Rightarrow> bool" where
  "terminated m e \<longleftrightarrow> length m = Suc e \<and> m ! e = NUL \<and> NUL \<notin> set (take e m)"

lemma terminated_rd: "terminated m e \<Longrightarrow> i \<le> e \<Longrightarrow> rd m i = Some (m ! i)"
  by (simp add: terminated_def rd_def)

lemma terminated_lt: "terminated m e \<Longrightarrow> i \<le> e \<Longrightarrow> m ! i \<noteq> NUL \<Longrightarrow> i < e"
  by (cases "i = e") (auto simp: terminated_def)

lemma terminated_NUL: "terminated m e \<Longrightarrow> i < e \<Longrightarrow> m ! i \<noteq> NUL"
  by (auto simp: terminated_def in_set_conv_nth)

lemma range_char_total:
  assumes "terminated pat ep" "p \<le> Suc ep" "0 < p" "c = pat ! (p - 1)"
  shows "\<exists>c' q. range_char pat flags c p = Some (c', q) \<and> q \<le> Suc p"
proof (cases "c = BSLASH \<and> \<not> has flags FNM_NOESCAPE")
  case True
  then have "p - 1 < ep" using assms by (intro terminated_lt [OF assms(1)]) auto
  then show ?thesis using True assms(3) terminated_rd [OF assms(1), of p] by (simp add: range_char_def)
qed (auto simp: range_char_def)

lemma range_pair_total:
  assumes "terminated pat ep" "p \<le> ep"
  shows "\<exists>it. range_pair pat ep test flags c p = Some it"
proof (cases "pat ! p = MINUS")
  case True
  then have "p < ep" using assms by (intro terminated_lt [OF assms(1)]) auto
  show ?thesis
  proof (cases "pat ! (p + 1) = RBRACK \<or> p + 1 = ep")
    case False
    obtain c2 q where "range_char pat flags (pat ! (p + 1)) (p + 2) = Some (c2, q)"
      using range_char_total [OF assms(1), of "p + 2" "pat ! (p + 1)" flags] \<open>p < ep\<close> by auto
    then show ?thesis using terminated_rd [OF assms(1)] \<open>p < ep\<close> True False by (simp add: range_pair_def)
  qed (use terminated_rd [OF assms(1)] \<open>p < ep\<close> True in \<open>auto simp: range_pair_def\<close>)
qed (use terminated_rd [OF assms] in \<open>simp add: range_pair_def\<close>)

lemma range_item_total:
  assumes "terminated pat ep" "p \<le> Suc ep" "0 < p" "c = pat ! (p - 1)"
  shows "\<exists>it. range_item pat ep test flags c p = Some it"
proof -
  obtain c' q where "range_char pat flags c p = Some (c', q)" using range_char_total [OF assms] by blast
  then show ?thesis using range_pair_total [OF assms(1), of q] by (auto simp: range_item_def)
qed

lemma range_loop_total:
  assumes "terminated pat ep" "p \<le> Suc ep" "0 < p" "c = pat ! (p - 1)"
  shows "\<exists>r. range_loop pat ep test flags negate c p ok = Some r \<and> (\<forall>q. r = Range_yes q \<longrightarrow> q \<le> ep)"
  using assms
proof (induction pat ep test flags negate c p ok rule: range_loop.induct)
  case (1 pat ep test flags negate c p ok)
  obtain it where it: "range_item pat ep test flags c p = Some it" using range_item_total [OF 1(2-5)] by blast
  show ?case
  proof (cases it)
    case (Item hit q)
    then have "q \<le> ep" using it range_item_bounds by blast
    then have rd: "rd pat q = Some (pat ! q)" using 1(2) terminated_rd by blast
    show ?thesis
    proof (cases "pat ! q = RBRACK")
      case True
      then have "q < ep" using 1(2) \<open>q \<le> ep\<close> by (intro terminated_lt) auto
      then show ?thesis using it Item rd True by (subst range_loop.simps) auto
    next
      case False
      obtain r where r: "range_loop pat ep test flags negate (pat ! q) (q + 1) (ok \<or> hit) = Some r"
        "\<forall>q'. r = Range_yes q' \<longrightarrow> q' \<le> ep"
        using 1(1) [OF it Item rd False 1(2)] \<open>q \<le> ep\<close> by auto
      have "range_loop pat ep test flags negate c p ok = Some r"
        using it Item rd False r(1) by (subst range_loop.simps) simp
      then show ?thesis using r(2) by blast
    qed
  qed (use it in \<open>subst range_loop.simps, simp\<close>)+
qed

lemma rangematch_total:
  assumes "terminated pat ep" "p \<le> ep"
  shows "\<exists>r. rangematch pat ep p test flags = Some r \<and> (\<forall>q. r = Range_yes q \<longrightarrow> q \<le> ep)"
proof -
  let ?neg = "pat ! p = 33 \<or> pat ! p = CARET"
  let ?p = "if ?neg then p + 1 else p"
  have "?neg \<Longrightarrow> p < ep" using assms by (intro terminated_lt) auto
  then have p: "?p \<le> ep" using assms(2) by auto
  show ?thesis
    using range_loop_total [OF assms(1), of "?p + 1" "pat ! ?p"] p terminated_rd [OF assms] terminated_rd [OF assms(1) p]
    by (simp add: rangematch_def Let_def)
qed

lemma collapse_stars_total:
  assumes "terminated pat ep" "p \<le> ep"
  shows "\<exists>c q. collapse_stars pat p = Some (c, q) \<and> q \<le> ep"
  using assms(2)
proof (induction "ep - p" arbitrary: p)
  case (Suc d)
  then show ?case
    using Suc(1) [of "p + 1"] terminated_rd [OF assms(1), of p]
    by (subst collapse_stars.simps) auto
next
  case 0
  then have "p = ep" by simp
  then show ?case using assms(1) terminated_rd [OF assms(1), of p] by (subst collapse_stars.simps) (auto simp: terminated_def)
qed

lemma leading_period_total:
  assumes "terminated str es" "s \<le> es" "start \<le> s"
  shows "\<exists>b. leading_period str flags start s = Some b"
proof (cases "s = start")
  case False
  then have "rdi str (int s - 1) = Some (str ! (s - 1))"
    using assms terminated_rd [OF assms(1), of "s - 1"] by (simp add: rdi_def nat_diff_distrib)
  then show ?thesis using terminated_rd [OF assms(1, 2)] by (auto simp: leading_period_def)
qed (use terminated_rd [OF assms(1, 2)] in \<open>auto simp: leading_period_def\<close>)

lemma kfn_star_total:
  assumes "terminated str es"
    and "\<And>t. s \<le> t \<Longrightarrow> t < es \<Longrightarrow> kfnmatch pat ep str es (flags AND NOT FNM_PERIOD) (n + 1) p t \<noteq> None"
  shows "kfn_star pat ep str es flags n p s \<noteq> None"
  using assms(2)
proof (induction "es - s" arbitrary: s)
  case 0
  then show ?case by (subst kfn_star.simps) simp
next
  case (Suc d)
  then have "s < es" and d: "d = es - (s + 1)" by simp_all
  have "kfn_star pat ep str es flags n p (s + 1) \<noteq> None" using Suc(1) [OF d] Suc(3) by simp
  moreover obtain r where "kfnmatch pat ep str es (flags AND NOT FNM_PERIOD) (n + 1) p s = Some r"
    using Suc(3) [of s] \<open>s < es\<close> by auto
  ultimately show ?case
    using terminated_rd [OF assms(1), of s] \<open>s < es\<close> by (subst kfn_star.simps) auto
qed

lemma norm_match_NUL: "norm_match flags c x \<Longrightarrow> c \<noteq> NUL \<Longrightarrow> x \<noteq> NUL"
  using tolower_NUL by (auto simp: norm_match_def)

lemma kfn_loop_total:
  assumes "terminated pat ep" "terminated str es" "p \<le> ep" "s \<le> es" "start \<le> s"
  shows "kfn_loop pat ep str es flags n start p s \<noteq> None"
  using assms(3-)
proof (induction "ep - p" arbitrary: flags n start p s rule: less_induct)
  case less
  note p = less(2) and s = less(3) and start = less(4)
  have c: "rd pat p = Some (pat ! p)" using terminated_rd [OF assms(1) p] .
  have x: "rd str s = Some (str ! s)" using terminated_rd [OF assms(2) s] .
  obtain b where b: "leading_period str flags start s = Some b" using leading_period_total [OF assms(2) s start] by blast
  have IH: "kfn_loop pat ep str es flags n start p' s' \<noteq> None" if "p < p'" "p' \<le> ep" "s \<le> s'" "s' \<le> es" for p' s'
    using less(1) [of p'] that start p by simp
  note simps = kfn_loop.simps [of pat ep str es flags n start p s]
  consider "p = ep" | "p < ep" "pat ! p = QUERY" | "p < ep" "pat ! p = STAR" | "p < ep" "pat ! p = LBRACK"
    | "p < ep" "pat ! p \<noteq> QUERY" "pat ! p \<noteq> STAR" "pat ! p \<noteq> LBRACK" using p by linarith
  then show ?case
  proof cases
    case 1
    then show ?thesis unfolding simps using c x by simp
  next
    case 2
    then show ?thesis using c x b s IH [of "p + 1" "s + 1"] by (simp add: simps del: not_None_eq)
  next
    case 3
    obtain c1 p1 where p1: "collapse_stars pat (p + 1) = Some (c1, p1)" "p1 \<le> ep"
      using collapse_stars_total [OF assms(1), of "p + 1"] 3 by auto
    then have "p < p1" using collapse_stars_le by fastforce
    obtain r where r: "find_slash str es s = Some r" using assms(2) s by (auto simp: find_slash_def terminated_def)
    have k: "s + k \<le> es" if "r = Some k" for k
      using r that s assms(2) by (auto simp: find_slash_def memchr_Some terminated_def split: if_splits)
    have "kfn_star pat ep str es flags n p1 s \<noteq> None"
      using less(1) [of p1] \<open>p < p1\<close> p1(2) 3 by (intro kfn_star_total [OF assms(2)]) (simp add: kfnmatch.simps del: not_None_eq)
    then show ?thesis using c b r k p1 \<open>p < p1\<close> 3 IH [of p1] by (simp add: simps del: not_None_eq split: option.split)
  next
    case 4
    obtain r where r: "rangematch pat ep (p + 1) (str ! s) flags = Some r" "\<And>q. r = Range_yes q \<Longrightarrow> q \<le> ep"
      using rangematch_total [OF assms(1), of "p + 1"] 4 by fastforce
    have "p < q \<and> q \<le> ep" if "r = Range_yes q" for q
      using r that rangematch_advances [of pat ep "p + 1" "str ! s" flags q] by auto
    then show ?thesis using c x b s r(1) 4 IH [of _ "s + 1"] by (simp add: simps del: not_None_eq split: range_result.split)
  next
    case 5
    define c1 p1 where "c1 = (if pat ! p = BSLASH \<and> \<not> has flags FNM_NOESCAPE \<and> p + 1 \<noteq> ep then pat ! (p + 1) else pat ! p)"
      and "p1 = (if pat ! p = BSLASH \<and> \<not> has flags FNM_NOESCAPE \<and> p + 1 \<noteq> ep then p + 2 else p + 1)"
    have p1: "(if pat ! p = BSLASH \<and> \<not> has flags FNM_NOESCAPE then
           map_option (\<lambda>c'. if ep < p + 2 then (BSLASH, p + 1) else (c', p + 2)) (rd pat (p + 1))
         else Some (pat ! p, p + 1)) = Some (c1, p1)" "p < p1" "p1 \<le> ep"
      using terminated_rd [OF assms(1), of "p + 1"] 5 by (auto simp: c1_def p1_def)
    have "c1 \<noteq> NUL" using terminated_NUL [OF assms(1)] 5 by (simp add: c1_def)
    then have "s < es" if "norm_match flags c1 (str ! s)"
      using norm_match_NUL [OF that] terminated_lt [OF assms(2) s] by blast
    then have "norm_match flags c1 (str ! s) \<Longrightarrow> kfn_loop pat ep str es flags n start p1 (s + 1) \<noteq> None"
      using IH [of p1 "s + 1"] p1(2, 3) by (simp del: not_None_eq)
    then show ?thesis using c x 5 p1(1) by (simp add: simps del: not_None_eq)
  qed
qed

section \<open>Properties\<close>



text \<open>
  C24: on operands with a terminator at their ends, \<open>u_fnmatch\<close> returns an answer for every pattern,
  brackets and escapes included, every string and all flags, without a read outside the operands.
\<close>

theorem fnmatch_returns:
  assumes "NUL \<notin> set P" "NUL \<notin> set S"
  shows "\<exists>b. u_fnmatch (S @ [NUL]) (length S) (P @ [NUL]) (length P) flags = Some b"
proof -
  have "terminated (P @ [NUL]) (length P)" "terminated (S @ [NUL]) (length S)" using assms by (simp_all add: terminated_def)
  then have "kfn_loop (P @ [NUL]) (length P) (S @ [NUL]) (length S) flags 0 0 0 0 \<noteq> None"
    by (intro kfn_loop_total) simp_all
  then show ?thesis by (auto simp: u_fnmatch_def kfnmatch.simps)
qed

theorem fnmatch_returns_witness:
  "\<exists>b. u_fnmatch (bytes ''x'' @ [NUL]) (length (bytes ''x'')) (bytes ''[a-'' @ [NUL]) (length (bytes ''[a-'')) FNM_PERIOD = Some b"
proof -
  have "NUL \<notin> set (bytes ''[a-'')" "NUL \<notin> set (bytes ''x'')" by simp_all
  then show ?thesis by (rule fnmatch_returns)
qed

text \<open>
  Under \<open>FNM_PATHNAME\<close> no wildcard and no bracket matches a slash: a pattern without a slash, whatever
  else it has, matches no string with one (\<open>FNM_LEADING_DIR\<close> and \<open>FNM_INVERT\<close> not given).
\<close>

theorem fnmatch_pathname:
  assumes "SLASH \<notin> set pat" "has flags FNM_PATHNAME" "\<not> has flags FNM_LEADING_DIR" "\<not> has flags FNM_INVERT"
    and "u_fnmatch str n1 pat n2 flags = Some True" "n1 \<le> length str"
  shows "SLASH \<notin> set (take n1 str)"
proof -
  have "kfn_loop pat n2 str n1 flags 0 0 0 0 = Some True"
    using assms(4, 5) by (auto simp: u_fnmatch_def kfnmatch.simps)
  then have "\<forall>i < n1. rd str i \<noteq> Some SLASH"
    using kfn_loop_pathname [OF assms(1-3)] by blast
  then show ?thesis using assms(6) by (auto simp: in_set_conv_nth rd_def)
qed

theorem fnmatch_pathname_witness:
  "u_fnmatch (bytes ''ab.c'' @ [NUL]) 4 (bytes ''a[a-c].*'' @ [NUL]) 8 FNM_PATHNAME = Some True \<and>
   SLASH \<notin> set (take 4 (bytes ''ab.c'' @ [NUL]))"
proof -
  have 1: "SLASH \<notin> set (bytes ''a[a-c].*'' @ [NUL])" "has FNM_PATHNAME FNM_PATHNAME" "\<not> has FNM_PATHNAME FNM_LEADING_DIR"
    "\<not> has FNM_PATHNAME FNM_INVERT" by code_simp+
  have 2: "u_fnmatch (bytes ''ab.c'' @ [NUL]) 4 (bytes ''a[a-c].*'' @ [NUL]) 8 FNM_PATHNAME = Some True" by code_simp
  have 3: "4 \<le> length (bytes ''ab.c'' @ [NUL])" by simp
  from fnmatch_pathname [OF 1 2 3] 2 show ?thesis by blast
qed

text \<open>
  A literal character is compared with the byte at the end of the string too: a string that is a
  part of a longer buffer matches a pattern that goes on in the bytes behind it. And a pattern with
  twenty stars before other characters matches nothing, even an equal string.
\<close>

theorem fnmatch_defects:
  "u_fnmatch (bytes ''abc'' @ [NUL]) 1 (bytes ''ab*'' @ [NUL]) 3 0 = Some True"
  "glob 0 (bytes ''ab*'') (bytes ''a'') = False"
  "u_fnmatch (bytes ''abcdefghijklmnopqrst'' @ [NUL]) 20 (bytes ''*a*b*c*d*e*f*g*h*i*j*k*l*m*n*o*p*q*r*s*t'' @ [NUL]) 40 0 = Some False"
  "glob 0 (bytes ''*a*b*c*d*e*f*g*h*i*j*k*l*m*n*o*p*q*r*s*t'') (bytes ''abcdefghijklmnopqrst'') = True"
  by code_simp+

end
