(* ===== verification/Mime.thy ===== *)
theory Mime
  imports Prelude
begin

text \<open>
  MIME types by file name suffix (\<open>u_get_mimetype\<close> of \<open>utility.c\<close>): a table per first letter, searched
  in order for an entry whose remaining letters are a prefix of the rest of the suffix. The search is
  proved equal to the first prefix in one table of all entries, and every entry but two is reached.
\<close>

section \<open>Tables\<close>

record mimeentry =
  mtype :: string
  mname :: string

text \<open>\<open>{ type, name+1, U_CONSTANT_SIZE(name)-1 }\<close>: the length is that of the list.\<close>

definition MIME_ENTRY :: "string \<Rightarrow> string \<Rightarrow> mimeentry" where
  "MIME_ENTRY name type = \<lparr>mtype = type, mname = tl name\<rparr>"

definition U_CTYPE_HTML :: string where "U_CTYPE_HTML = ''text/html''"
definition U_CTYPE_ICO :: string where "U_CTYPE_ICO = ''image/x-icon''"

definition mimetab_a :: "mimeentry list" where
  "mimetab_a =
     [MIME_ENTRY ''ai'' ''application/postscript'',
      MIME_ENTRY ''arj'' ''application/x-arj-compressed'',
      MIME_ENTRY ''asx'' ''video/x-ms-asf'',
      MIME_ENTRY ''atom'' ''application/atom+xml'',
      MIME_ENTRY ''avi'' ''video/x-msvideo'',
      MIME_ENTRY ''appcache'' ''text/cache-manifest'']"

definition mimetab_b :: "mimeentry list" where
  "mimetab_b =
     [MIME_ENTRY ''bat'' ''application/x-msdos-program'',
      MIME_ENTRY ''bmp'' ''image/x-ms-bmp'',
      MIME_ENTRY ''bild'' ''image/jpeg'',
      MIME_ENTRY ''boz'' ''application/x-bzip2'']"

definition mimetab_c :: "mimeentry list" where
  "mimetab_c =
     [MIME_ENTRY ''css'' ''text/css'',
      MIME_ENTRY ''crt'' ''application/x-x509-ca-cert'',
      MIME_ENTRY ''cer'' ''application/x-x509-ca-cert'',
      MIME_ENTRY ''crx'' ''application/x-chrome-extension crx'']"

definition mimetab_d :: "mimeentry list" where
  "mimetab_d =
     [MIME_ENTRY ''der'' ''application/x-x509-ca-cert'',
      MIME_ENTRY ''doc'' ''application/msword'',
      MIME_ENTRY ''dtd'' ''application/xml'']"

definition mimetab_e :: "mimeentry list" where
  "mimetab_e =
     [MIME_ENTRY ''eps'' ''application/postscript'',
      MIME_ENTRY ''eot'' ''application/vnd.ms-fontobject'']"

definition mimetab_f :: "mimeentry list" where
  "mimetab_f =
     [MIME_ENTRY ''flv'' ''video/x-flv'']"

definition mimetab_g :: "mimeentry list" where
  "mimetab_g =
     [MIME_ENTRY ''gif'' ''image/gif'',
      MIME_ENTRY ''gtar'' ''application/x-gtar'']"

definition mimetab_h :: "mimeentry list" where
  "mimetab_h =
     [MIME_ENTRY ''htm'' U_CTYPE_HTML,
      MIME_ENTRY ''htc'' ''text/x-component'']"

definition mimetab_i :: "mimeentry list" where
  "mimetab_i =
     [MIME_ENTRY ''ico'' U_CTYPE_ICO]"

definition mimetab_j :: "mimeentry list" where
  "mimetab_j =
     [MIME_ENTRY ''js'' ''text/javascript'',
      MIME_ENTRY ''json'' ''application/json'',
      MIME_ENTRY ''jp'' ''image/jpeg'']"

definition mimetab_m :: "mimeentry list" where
  "mimetab_m =
     [MIME_ENTRY ''mng'' ''video/x-mng'',
      MIME_ENTRY ''mp4'' ''video/mp4'',
      MIME_ENTRY ''m4a'' ''audio/mp4'',
      MIME_ENTRY ''mp'' ''video/mpeg'',
      MIME_ENTRY ''md5'' ''text/plain'',
      MIME_ENTRY ''mov'' ''video/quicktime'',
      MIME_ENTRY ''mf'' ''text/cache-manifest'',
      MIME_ENTRY ''manifest'' ''text/cache-manifest'']"

definition mimetab_o :: "mimeentry list" where
  "mimetab_o =
     [MIME_ENTRY ''ogv'' ''video/ogg'',
      MIME_ENTRY ''og'' ''audio/ogg'',
      MIME_ENTRY ''otf'' ''font/opentype'']"

definition mimetab_p :: "mimeentry list" where
  "mimetab_p =
     [MIME_ENTRY ''png'' ''image/png'',
      MIME_ENTRY ''pdf'' ''application/pdf'',
      MIME_ENTRY ''pem'' ''application/x-x509-ca-cert'',
      MIME_ENTRY ''php'' ''application/x-httpd-php'',
      MIME_ENTRY ''pbm'' ''image/x-portable-bitmap'',
      MIME_ENTRY ''pgm'' ''image/x-portable-graymap'',
      MIME_ENTRY ''pnm'' ''image/x-portable-anymap'',
      MIME_ENTRY ''ppm'' ''image/x-portable-pixmap'',
      MIME_ENTRY ''ps'' ''application/postscript'',
      MIME_ENTRY ''p7b'' ''application/x-pkcs7-certificates'',
      MIME_ENTRY ''p7c'' ''application/x-pkcs7-mime'',
      MIME_ENTRY ''p12'' ''application/x-pkcs12'',
      MIME_ENTRY ''ppt'' ''application/vnd.ms-powerpoint'']"

definition mimetab_q :: "mimeentry list" where
  "mimetab_q =
     [MIME_ENTRY ''qt'' ''video/quicktime'']"

definition mimetab_r :: "mimeentry list" where
  "mimetab_r =
     [MIME_ENTRY ''rar'' ''application/x-rar-compressed'',
      MIME_ENTRY ''rtf'' ''text/rtf'',
      MIME_ENTRY ''rtx'' ''text/richtext'',
      MIME_ENTRY ''rdf'' ''application/rdf+xml'',
      MIME_ENTRY ''roff'' ''application/x-troff'',
      MIME_ENTRY ''rss'' ''application/rss+xml'',
      MIME_ENTRY ''xrdf'' ''application/rdf+xml'']"

definition mimetab_s :: "mimeentry list" where
  "mimetab_s =
     [MIME_ENTRY ''shtm'' U_CTYPE_HTML,
      MIME_ENTRY ''svg'' ''image/svg+xml'',
      MIME_ENTRY ''swf'' ''application/x-shockwave-flash'',
      MIME_ENTRY ''sgm'' ''text/sgml'',
      MIME_ENTRY ''safariextz'' ''application/octet-stream'']"

definition mimetab_t :: "mimeentry list" where
  "mimetab_t =
     [MIME_ENTRY ''tar'' ''application/x-tar'',
      MIME_ENTRY ''tif'' ''image/tiff'',
      MIME_ENTRY ''text'' ''text/plain'',
      MIME_ENTRY ''txt'' ''text/plain'',
      MIME_ENTRY ''tgz'' ''application/x-tar-gz'',
      MIME_ENTRY ''ttf'' ''font/truetype'',
      MIME_ENTRY ''ttl'' ''text/turtle'']"

definition mimetab_u :: "mimeentry list" where
  "mimetab_u =
     [MIME_ENTRY ''usp'' ''text/plain'']"

definition mimetab_w :: "mimeentry list" where
  "mimetab_w =
     [MIME_ENTRY ''wav'' ''audio/x-wav'',
      MIME_ENTRY ''wmv'' ''video/x-ms-wmv'',
      MIME_ENTRY ''webm'' ''video/webm'',
      MIME_ENTRY ''woff'' ''application/x-font-woff'',
      MIME_ENTRY ''webp'' ''image/webp'']"

definition mimetab_x :: "mimeentry list" where
  "mimetab_x =
     [MIME_ENTRY ''xls'' ''application/vnd.ms-excel'',
      MIME_ENTRY ''xml'' ''text/xml'',
      MIME_ENTRY ''xsl'' ''text/xml'',
      MIME_ENTRY ''xpm'' ''image/x-xpixmap'',
      MIME_ENTRY ''xbm'' ''image/x-xbitmap'',
      MIME_ENTRY ''xpi'' ''application/x-xpinstall'']"

definition mimetab_z :: "mimeentry list" where
  "mimetab_z =
     [MIME_ENTRY ''zip'' ''application/zip'']"

definition mimetab_null :: "mimeentry list" where "mimetab_null = []"

section \<open>Operation\<close>

definition mimetab_of :: "char \<Rightarrow> mimeentry list" where
  "mimetab_of c =
     (if c = CHR ''a'' then mimetab_a
      else if c = CHR ''b'' then mimetab_b
      else if c = CHR ''c'' then mimetab_c
      else if c = CHR ''d'' then mimetab_d
      else if c = CHR ''e'' then mimetab_e
      else if c = CHR ''f'' then mimetab_f
      else if c = CHR ''g'' then mimetab_g
      else if c = CHR ''h'' then mimetab_h
      else if c = CHR ''i'' then mimetab_i
      else if c = CHR ''j'' then mimetab_j
      else if c = CHR ''m'' then mimetab_m
      else if c = CHR ''o'' then mimetab_o
      else if c = CHR ''p'' then mimetab_p
      else if c = CHR ''q'' then mimetab_q
      else if c = CHR ''r'' then mimetab_r
      else if c = CHR ''s'' then mimetab_s
      else if c = CHR ''t'' then mimetab_t
      else if c = CHR ''u'' then mimetab_u
      else if c = CHR ''w'' then mimetab_w
      else if c = CHR ''x'' then mimetab_x
      else if c = CHR ''z'' then mimetab_z
      else mimetab_null)"

text \<open>
  The loop: the entry found and its index. The inner loop stops at the first difference, so it reads
  the suffix no further than its terminator: the entry matches when its name is a prefix.
\<close>

fun mime_search :: "mimeentry list \<Rightarrow> nat \<Rightarrow> string \<Rightarrow> (mimeentry \<times> nat) option" where
  "mime_search [] diff sfx = None"
| "mime_search (e # tab) diff sfx =
     (if prefix (mname e) sfx then Some (e, diff) else mime_search tab (diff + 1) sfx)"

text \<open>The type, \<open>None\<close> for the null pointer, and the new value of \<open>u_mime_index\<close>.\<close>

definition u_get_mimetype :: "string \<Rightarrow> int \<Rightarrow> string option \<times> int" where
  "u_get_mimetype sfx index =
     (case sfx of
        [] \<Rightarrow> (None, index)
      | c # sfx' \<Rightarrow>
          (case mime_search (mimetab_of c) 0 sfx' of
             None \<Rightarrow> (None, index)
           | Some (e, diff) \<Rightarrow>
               (Some (mtype e),
                if diff = 0 then of_char c
                else if diff = 2 \<and> c = CHR ''j'' then of_char CHR ''J''
                else index)))"

section \<open>Specification\<close>

text \<open>All entries, with their full names.\<close>

definition letters :: string where
  "letters = ''abcdefghijmopqrstuwxz''"

definition mime_all :: "(string \<times> string) list" where
  "mime_all = concat (map (\<lambda>c. map (\<lambda>e. (c # mname e, mtype e)) (mimetab_of c)) letters)"

lemma mimetab_of_other: "c \<notin> set letters \<Longrightarrow> mimetab_of c = []"
  by (simp add: mimetab_of_def letters_def mimetab_null_def)

lemma mime_search_find:
  "map_option (\<lambda>(e, d). mtype e) (mime_search tab d s) =
   map_option snd (find (\<lambda>(n, t). prefix n (c # s)) (map (\<lambda>e. (c # mname e, mtype e)) tab))"
  by (induction tab arbitrary: d) simp_all

lemma find_other_letter:
  "c \<noteq> l \<Longrightarrow> find (\<lambda>(n, t). prefix n (c # s)) (map (\<lambda>e. (l # mname e, mtype e)) tab) = None"
  by (induction tab) auto

lemma find_other_letters:
  "c \<notin> set ls \<Longrightarrow>
   find (\<lambda>(n, t). prefix n (c # s)) (concat (map (\<lambda>c. map (\<lambda>e. (c # mname e, mtype e)) (mimetab_of c)) ls)) = None"
  by (induction ls) (simp_all add: find_append find_other_letter)

lemma find_mime_all:
  assumes "distinct ls" "c \<in> set ls"
  shows "find (\<lambda>(n, t). prefix n (c # s)) (concat (map (\<lambda>c. map (\<lambda>e. (c # mname e, mtype e)) (mimetab_of c)) ls)) =
    find (\<lambda>(n, t). prefix n (c # s)) (map (\<lambda>e. (c # mname e, mtype e)) (mimetab_of c))"
  using assms
proof (induction ls)
  case (Cons l ls)
  show ?case
  proof (cases "l = c")
    case True
    then show ?thesis using Cons(2) find_other_letters [of c ls s] by (simp add: find_append split: option.split)
  next
    case False
    then show ?thesis using Cons by (simp add: find_append find_other_letter)
  qed
qed simp

section \<open>Properties\<close>

text \<open>
  \<open>u_get_mimetype\<close> answers the type of the first entry of all the tables, in their order, whose
  name is a prefix of the suffix, and the null pointer when there is none.
\<close>

theorem get_mimetype_first_prefix:
  "fst (u_get_mimetype sfx index) = map_option snd (find (\<lambda>(n, t). prefix n sfx) mime_all)"
proof (cases sfx)
  case Nil
  have "list_all (\<lambda>(n, t). n \<noteq> []) mime_all" by code_simp
  then have "find (\<lambda>(n, t). prefix n []) mime_all = None"
    by (auto simp: find_None_iff list_all_iff)
  then show ?thesis using Nil by (simp add: u_get_mimetype_def)
next
  case (Cons c s)
  have "fst (u_get_mimetype sfx index) = map_option (\<lambda>(e, d). mtype e) (mime_search (mimetab_of c) 0 s)"
    by (auto simp: u_get_mimetype_def Cons split: option.splits)
  also have "\<dots> = map_option snd (find (\<lambda>(n, t). prefix n (c # s)) (map (\<lambda>e. (c # mname e, mtype e)) (mimetab_of c)))"
    by (rule mime_search_find)
  also have "\<dots> = map_option snd (find (\<lambda>(n, t). prefix n (c # s)) mime_all)"
  proof (cases "c \<in> set letters")
    case True
    have "distinct letters" by code_simp
    then show ?thesis using find_mime_all [OF _ True, of s] by (simp add: mime_all_def)
  next
    case False
    then show ?thesis using find_other_letters [OF False, of s] by (simp add: mime_all_def mimetab_of_other)
  qed
  finally show ?thesis using Cons by simp
qed

text \<open>
  Two entries are never reached: the suffix json gets the type of js, of which it is an
  extension, and xrdf stands in the table of the letter r and has no type; every other entry answers
  its own type.
\<close>

theorem mimetype_unreachable:
  "fst (u_get_mimetype ''json'' index) = Some ''text/javascript''"
  "fst (u_get_mimetype ''xrdf'' index) = None"
  "list_all (\<lambda>(n, t). n = ''json'' \<or> fst (u_get_mimetype n 0) = Some t) mime_all"
proof -
  have indep: "fst (u_get_mimetype n index) = fst (u_get_mimetype n 0)" for n
    by (auto simp: u_get_mimetype_def split: list.splits option.splits)
  show "fst (u_get_mimetype ''json'' index) = Some ''text/javascript''"
    unfolding indep by code_simp
  show "fst (u_get_mimetype ''xrdf'' index) = None"
    unfolding indep by code_simp
  show "list_all (\<lambda>(n, t). n = ''json'' \<or> fst (u_get_mimetype n 0) = Some t) mime_all"
    by code_simp
qed

end
