(* ===== verification/Strftime.thy ===== *)
theory Strftime
  imports Prelude Ctype "HOL-Library.Signed_Division"
begin

text \<open>
  Dates and times (\<open>u__strftime\<close>, \<open>u_strftime\<close>, \<open>u_getMonth\<close> of \<open>base.c\<close>). The broken-down time and the
  time zone are the library's globals, passed as a record; \<open>gmtime_r\<close> of the C library is a parameter.
  The result of a formatting is the list of the \<open>count\<close> characters it leaves in the buffer.
\<close>

section \<open>Globals\<close>

record tm =
  tm_sec :: int
  tm_min :: int
  tm_hour :: int
  tm_mday :: int
  tm_mon :: int
  tm_year :: int
  tm_wday :: int
  tm_yday :: int

record clock =
  u_strftime_tm :: tm
  u_now_adjust :: int
  u_tzname :: "byte list"

section \<open>Numbers as \<open>sprintf\<close> writes them\<close>

fun decimal :: "nat \<Rightarrow> byte list" where
  "decimal n = (if n < 10 then [DIGIT0 + of_nat n] else decimal (n div 10) @ [DIGIT0 + of_nat (n mod 10)])"

declare decimal.simps [simp del]

text \<open>\<open>%.<p>d\<close>, which is \<open>%<p>.<p>d\<close> too, \<open>%+.<p>ld\<close> and \<open>%.<p>lu\<close>.\<close>

definition prec_digits :: "nat \<Rightarrow> nat \<Rightarrow> byte list" where
  "prec_digits p n = replicate (p - length (decimal n)) DIGIT0 @ decimal n"

definition sprintf_d :: "nat \<Rightarrow> int \<Rightarrow> byte list" where
  "sprintf_d p i = (if i < 0 then MINUS # prec_digits p (nat (- i)) else prec_digits p (nat i))"

definition sprintf_plus_ld :: "nat \<Rightarrow> int \<Rightarrow> byte list" where
  "sprintf_plus_ld p i = (if i < 0 then MINUS else PLUS) # prec_digits p (nat \<bar>i\<bar>)"

definition sprintf_lu :: "nat \<Rightarrow> int \<Rightarrow> byte list" where
  "sprintf_lu p i = prec_digits p (nat (i mod 2 ^ 64))"

section \<open>Conversions\<close>

definition dname :: "byte list list" where
  "dname = map bytes [''Sunday'', ''Monday'', ''Tuesday'', ''Wednesday'', ''Thursday'', ''Friday'', ''Saturday'']"

definition mname :: "byte list list" where
  "mname = map bytes [''January'', ''February'', ''March'', ''April'', ''May'', ''June'', ''July'', ''August'',
     ''September'', ''October'', ''November'', ''December'']"

definition dname_len :: "nat list" where "dname_len = [6, 6, 7, 9, 8, 6, 8]"

definition mname_len :: "nat list" where "mname_len = [7, 8, 5, 5, 3, 4, 4, 6, 9, 7, 8, 8]"

text \<open>The first \<open>n\<close> characters of a name; an index outside the table is a fault.\<close>

definition name_chars :: "byte list list \<Rightarrow> int \<Rightarrow> nat \<Rightarrow> byte list option" where
  "name_chars tab i n =
     (if 0 \<le> i \<and> i < int (length tab) \<and> n \<le> length (tab ! nat i) then Some (take n (tab ! nat i)) else None)"

text \<open>
  Each conversion: the characters by which \<open>count\<close> grows. Where \<open>sprintf\<close> writes more than the constant
  added to \<open>count\<close>, the rest is overwritten.
\<close>

definition conv_name :: "tm \<Rightarrow> char \<Rightarrow> byte list option" where
  "conv_name t ch =
     (if ch = CHR ''a'' then name_chars dname (tm_wday t) 3
      else if ch = CHR ''A'' then
        (if 0 \<le> tm_wday t \<and> tm_wday t < 7 then name_chars dname (tm_wday t) (dname_len ! nat (tm_wday t)) else None)
      else if ch = CHR ''b'' \<or> ch = CHR ''h'' then name_chars mname (tm_mon t) 3
      else
        (if 0 \<le> tm_mon t \<and> tm_mon t < 12 then name_chars mname (tm_mon t) (mname_len ! nat (tm_mon t)) else None))"

definition conv_datetime :: "tm \<Rightarrow> byte list option" where
  "conv_datetime t = do {
     d \<leftarrow> name_chars dname (tm_wday t) 3;
     m \<leftarrow> name_chars mname (tm_mon t) 3;
     Some (d @ [SPACE] @ m @
       take 17 ([SPACE] @ sprintf_d 2 (tm_mday t) @ [SPACE] @ sprintf_d 2 (tm_hour t) @ [COLON] @ sprintf_d 2 (tm_min t) @
         [COLON] @ sprintf_d 2 (tm_sec t) @ [SPACE] @ sprintf_d 4 (1900 + tm_year t)))
   }"

definition conv_date :: "tm \<Rightarrow> byte list option" where
  "conv_date t = do {
     d \<leftarrow> name_chars dname (tm_wday t) 3;
     m \<leftarrow> name_chars mname (tm_mon t) 3;
     Some (d @ [SPACE] @ m @ take 8 ([SPACE] @ sprintf_d 2 (tm_mday t) @ [SPACE] @ sprintf_d 4 (1900 + tm_year t)))
   }"

text \<open>The conversions that write one number of a fixed width.\<close>

definition conv_number :: "tm \<Rightarrow> char \<Rightarrow> byte list" where
  "conv_number t ch =
     (if ch = CHR ''d'' then take 2 (sprintf_d 2 (tm_mday t))
      else if ch = CHR ''e'' then take 2 (sprintf_d 2 (tm_mday t))
      else if ch = CHR ''H'' then take 2 (sprintf_d 2 (tm_hour t))
      else if ch = CHR ''j'' then take 3 (sprintf_d 3 (tm_yday t + 1))
      else if ch = CHR ''m'' then take 2 (sprintf_d 2 (tm_mon t + 1))
      else if ch = CHR ''M'' then take 2 (sprintf_d 2 (tm_min t))
      else if ch = CHR ''S'' then take 2 (sprintf_d 2 (tm_sec t))
      else take 1 (sprintf_d 1 (tm_wday t)))"

definition conv_time :: "tm \<Rightarrow> byte list" where
  "conv_time t =
     take 8 (sprintf_d 2 (tm_hour t) @ [COLON] @ sprintf_d 2 (tm_min t) @ [COLON] @ sprintf_d 2 (tm_sec t))"

definition conv_hour12 :: "tm \<Rightarrow> byte list" where
  "conv_hour12 t =
     (if tm_hour t = 0 \<or> tm_hour t = 12 then bytes ''12'' else take 2 (sprintf_d 2 (tm_hour t smod 12)))"

definition conv_week :: "tm \<Rightarrow> char \<Rightarrow> byte list" where
  "conv_week t ch =
     take 2 (sprintf_d 2
       (if ch = CHR ''U'' then (tm_yday t + 7 - tm_wday t) sdiv 7
        else (tm_yday t + (8 - tm_wday t) smod 7) sdiv 7))"

definition conv_year :: "tm \<Rightarrow> char \<Rightarrow> byte list" where
  "conv_year t ch =
     (if ch = CHR ''y'' then take 2 (sprintf_d 2 ((tm_year t smod 100 + 100) smod 100))
      else take 4 (sprintf_d 4 (1900 + tm_year t)))"

definition conv_zone :: "clock \<Rightarrow> byte list" where
  "conv_zone ck = take 5 (sprintf_plus_ld 2 (u_now_adjust ck sdiv 3600) @ sprintf_lu 2 (u_now_adjust ck smod 3600))"

text \<open>The \<open>switch\<close>. The terminator is not a case here: the loop treats it.\<close>

definition conversion :: "clock \<Rightarrow> char \<Rightarrow> byte list option" where
  "conversion ck ch =
     (let t = u_strftime_tm ck
      in if ch \<in> set ''aAbhB'' then conv_name t ch
         else if ch = CHR ''c'' then conv_datetime t
         else if ch \<in> set ''deHjmMSw'' then Some (conv_number t ch)
         else if ch = CHR ''I'' then Some (conv_hour12 t)
         else if ch = CHR ''p'' then Some (bytes (if tm_hour t < 12 then ''AM'' else ''PM''))
         else if ch \<in> set ''UW'' then Some (conv_week t ch)
         else if ch = CHR ''x'' then conv_date t
         else if ch \<in> set ''XT'' then Some (conv_time t)
         else if ch \<in> set ''yY'' then Some (conv_year t ch)
         else if ch = CHR ''z'' then Some (conv_zone ck)
         else if ch = CHR ''Z'' then Some (u_tzname ck)
         else if ch = CHR ''%'' then Some [PERCENT]
         else Some [PERCENT, of_char ch])"

section \<open>The loop\<close>

text \<open>\<open>format\<close> is the memory at the pointer, terminator included.\<close>

function skip_plain :: "mem \<Rightarrow> nat \<Rightarrow> nat option" where
  "skip_plain format i =
     (case rd format i of
        None \<Rightarrow> None
      | Some ch \<Rightarrow> if ch = NUL \<or> ch = PERCENT then Some i else skip_plain format (i + 1))"
  by pat_completeness auto

termination by (relation "measure (\<lambda>(f, i). length f - i)") (auto simp: rd_Some_iff)

declare skip_plain.simps [simp del]

lemma skip_plain_bounds: "skip_plain format i = Some j \<Longrightarrow> i \<le> j \<and> j < length format"
proof (induction format i rule: skip_plain.induct)
  case (1 format i)
  from 1(2) show ?case
    using 1(1) by (subst (asm) skip_plain.simps) (fastforce simp: rd_Some_iff split: option.splits if_splits)
qed

function strftime_loop :: "clock \<Rightarrow> mem \<Rightarrow> nat \<Rightarrow> nat \<Rightarrow> byte list \<Rightarrow> byte list option" where
  "strftime_loop ck format maxsize i s =
     (if length s < maxsize then
        (case skip_plain format i of
           None \<Rightarrow> None
         | Some j \<Rightarrow>
             let s1 = s @ take (j - i) (drop i format)
             in if format ! j = NUL then Some s1
                else
                  (case rd format (j + 1) of
                     None \<Rightarrow> None
                   | Some ch \<Rightarrow>
                       if ch = NUL then strftime_loop ck format maxsize (j + 2) (s1 @ [PERCENT])
                       else
                         (case conversion ck (char_of (unat ch)) of
                            None \<Rightarrow> None
                          | Some t \<Rightarrow> strftime_loop ck format maxsize (j + 2) (s1 @ t))))
      else Some s)"
  by pat_completeness auto

termination
  by (relation "measure (\<lambda>(ck, f, m, i, s). length f - i)") (auto dest!: skip_plain_bounds)

declare strftime_loop.simps [simp del]

definition u__strftime :: "clock \<Rightarrow> nat \<Rightarrow> mem \<Rightarrow> byte list option" where
  "u__strftime ck maxsize format = strftime_loop ck format maxsize 0 []"

definition u_strftime :: "(int \<Rightarrow> tm) \<Rightarrow> clock \<Rightarrow> nat \<Rightarrow> mem \<Rightarrow> int \<Rightarrow> byte list option" where
  "u_strftime gmtime_r ck maxsize format t = u__strftime (ck\<lparr>u_strftime_tm := gmtime_r t\<rparr>) maxsize format"

section \<open>Month names\<close>

definition u_months :: "byte list list" where
  "u_months = map bytes [''jan'', ''feb'', ''mar'', ''apr'', ''may'', ''jun'', ''jul'', ''aug'', ''sep'', ''oct'', ''nov'', ''dec'']"

definition u_months_it :: "byte list list" where
  "u_months_it = map bytes [''gen'', ''feb'', ''mar'', ''apr'', ''mag'', ''giu'', ''lug'', ''ago'', ''set'', ''ott'', ''nov'', ''dic'']"

text \<open>Three characters compared with a month name; the comparison stops at the first difference.\<close>

fun month_eq :: "byte list \<Rightarrow> mem \<Rightarrow> bool option" where
  "month_eq [] buf = Some True"
| "month_eq (c # ptr) [] = None"
| "month_eq (c # ptr) (b # buf) = (if c = u__tolower b then month_eq ptr buf else Some False)"

fun month_loop :: "nat \<Rightarrow> (byte list \<times> byte list) list \<Rightarrow> mem \<Rightarrow> nat option" where
  "month_loop i [] buf = Some 0"
| "month_loop i ((en, it) # tab) buf = do {
     b \<leftarrow> month_eq en buf;
     if b then Some (i + 1)
     else do {
       b' \<leftarrow> month_eq it buf;
       if b' then Some (i + 1) else month_loop (i + 1) tab buf
     }
   }"

definition u_getMonth :: "mem \<Rightarrow> nat option" where
  "u_getMonth buf = month_loop 0 (zip u_months u_months_it) buf"

section \<open>Specification: a format as a list of items\<close>

datatype item = Lit "byte list" | Conv char

fun item_src :: "item \<Rightarrow> byte list" where
  "item_src (Lit t) = t"
| "item_src (Conv ch) = [PERCENT, of_char ch]"

fun item_text :: "clock \<Rightarrow> item \<Rightarrow> byte list option" where
  "item_text ck (Lit t) = Some t"
| "item_text ck (Conv ch) = conversion ck ch"

fun item_ok :: "item \<Rightarrow> bool" where
  "item_ok (Lit t) \<longleftrightarrow> NUL \<notin> set t \<and> PERCENT \<notin> set t"
| "item_ok (Conv ch) \<longleftrightarrow> ch \<noteq> CHR 0x00"

fun format_text :: "clock \<Rightarrow> item list \<Rightarrow> byte list option" where
  "format_text ck [] = Some []"
| "format_text ck (x # xs) = do { t \<leftarrow> item_text ck x; r \<leftarrow> format_text ck xs; Some (t @ r) }"

definition format_src :: "item list \<Rightarrow> mem" where
  "format_src items = concat (map item_src items) @ [NUL]"

lemma skip_plain_run:
  "NUL \<notin> set t \<Longrightarrow> PERCENT \<notin> set t \<Longrightarrow>
   skip_plain (pre @ t @ r) (length pre) = skip_plain (pre @ t @ r) (length pre + length t)"
proof (induction t arbitrary: pre)
  case (Cons c t)
  have "skip_plain (pre @ (c # t) @ r) (length pre) = skip_plain (pre @ (c # t) @ r) (Suc (length pre))"
    using Cons(2, 3) by (subst skip_plain.simps) auto
  also have "\<dots> = skip_plain ((pre @ [c]) @ t @ r) (length (pre @ [c]))" by simp
  also have "\<dots> = skip_plain ((pre @ [c]) @ t @ r) (length (pre @ [c]) + length t)"
    using Cons by (intro Cons.IH) auto
  finally show ?case by simp
qed simp

lemma strftime_loop_run:
  assumes "NUL \<notin> set t" "PERCENT \<notin> set t" "length (s @ t) < maxsize"
  shows "strftime_loop ck (pre @ t @ r) maxsize (length pre) s =
    strftime_loop ck (pre @ t @ r) maxsize (length pre + length t) (s @ t)"
proof -
  let ?f = "pre @ t @ r"
  have "take (j - length pre) (drop (length pre) ?f) = t @ take (j - (length pre + length t)) (drop (length pre + length t) ?f)"
    if "skip_plain ?f (length pre + length t) = Some j" for j
    using skip_plain_bounds [OF that] by auto
  then show ?thesis
    unfolding strftime_loop.simps [of ck ?f maxsize "length pre" s]
      strftime_loop.simps [of ck ?f maxsize "length pre + length t" "s @ t"]
    using skip_plain_run [OF assms(1, 2), of pre r] assms(3)
    by (cases "skip_plain ?f (length pre + length t)") (simp_all add: Let_def)
qed

lemma unat_of_char: "unat (of_char ch :: byte) = of_char ch"
proof -
  have "list_all (\<lambda>ch. unat (of_char ch :: byte) = of_char ch) Enum.enum" by code_simp
  then show ?thesis using enum_UNIV [where 'a = char] by (simp add: list_all_iff)
qed

lemma char_of_byte: "char_of (unat (of_char ch :: byte)) = ch"
  by (simp add: unat_of_char)

lemma of_char_NUL: "of_char ch = (NUL :: byte) \<longleftrightarrow> ch = CHR 0x00"
proof
  assume "of_char ch = (NUL :: byte)"
  then have "char_of (0 :: nat) = ch" using char_of_byte [of ch] by simp
  then show "ch = CHR 0x00" by (simp add: char_of_def)
qed simp

lemma strftime_loop_conv:
  assumes "ch \<noteq> CHR 0x00" "length s < maxsize" "conversion ck ch = Some t"
  shows "strftime_loop ck (pre @ [PERCENT, of_char ch] @ r) maxsize (length pre) s =
    strftime_loop ck (pre @ [PERCENT, of_char ch] @ r) maxsize (length pre + 2) (s @ t)"
proof -
  let ?f = "pre @ [PERCENT, of_char ch] @ r"
  have "skip_plain ?f (length pre) = Some (length pre)" by (subst skip_plain.simps) simp
  moreover have "rd ?f (length pre + 1) = Some (of_char ch)" "?f ! length pre = PERCENT" by (simp_all add: nth_append)
  ultimately show ?thesis
    using assms by (subst strftime_loop.simps) (simp add: Let_def char_of_byte of_char_NUL)
qed

lemma strftime_loop_items:
  assumes "list_all item_ok items" "format_text ck items = Some t" "length (s @ t) < maxsize"
  shows "strftime_loop ck (pre @ format_src items) maxsize (length pre) s = Some (s @ t)"
  using assms
proof (induction items arbitrary: pre s t)
  case Nil
  have "skip_plain (pre @ [NUL]) (length pre) = Some (length pre)" by (subst skip_plain.simps) simp
  then show ?case using Nil by (subst strftime_loop.simps) (simp add: format_src_def)
next
  case (Cons x xs)
  then obtain a b where ab: "item_text ck x = Some a" "format_text ck xs = Some b" "t = a @ b"
    by (auto simp: bind_eq_Some_conv)
  have src: "pre @ format_src (x # xs) = pre @ item_src x @ format_src xs" by (simp add: format_src_def)
  have len: "length (s @ a) < maxsize" "length s < maxsize" "length ((s @ a) @ b) < maxsize" using Cons(4) ab(3) by simp_all
  have "strftime_loop ck (pre @ format_src (x # xs)) maxsize (length pre) s =
      strftime_loop ck ((pre @ item_src x) @ format_src xs) maxsize (length (pre @ item_src x)) (s @ a)"
    unfolding src
  proof (cases x)
    case (Lit u)
    then show "strftime_loop ck (pre @ item_src x @ format_src xs) maxsize (length pre) s =
        strftime_loop ck ((pre @ item_src x) @ format_src xs) maxsize (length (pre @ item_src x)) (s @ a)"
      using strftime_loop_run [of u s maxsize ck pre "format_src xs"] Cons(2) ab len by simp
  next
    case (Conv ch)
    then show "strftime_loop ck (pre @ item_src x @ format_src xs) maxsize (length pre) s =
        strftime_loop ck ((pre @ item_src x) @ format_src xs) maxsize (length (pre @ item_src x)) (s @ a)"
      using strftime_loop_conv [of ch s maxsize ck a pre "format_src xs"] Cons(2) ab len by simp
  qed
  also have "\<dots> = Some ((s @ a) @ b)" using Cons(1) [of b "s @ a" "pre @ item_src x"] Cons(2) ab len by simp
  finally show ?case using ab(3) by simp
qed

section \<open>Widths and values\<close>

lemma decimal_ne: "decimal n \<noteq> []"
  by (subst decimal.simps) simp

lemma length_sprintf_d: "p \<le> length (sprintf_d p i)"
  by (auto simp: sprintf_d_def prec_digits_def)

lemma length_take_sprintf_d [simp]: "length (take p (sprintf_d p i)) = p"
  using length_sprintf_d [of p i] by simp

fun dec_value :: "byte list \<Rightarrow> nat" where
  "dec_value ds = foldl (\<lambda>v d. 10 * v + unat (d - DIGIT0)) 0 ds"

lemma digit_value: "k < 10 \<Longrightarrow> unat (DIGIT0 + of_nat k - DIGIT0 :: byte) = k"
  by (simp add: unat_of_nat)

lemma dec_value_decimal: "dec_value (decimal n) = n"
proof (induction n rule: decimal.induct)
  case (1 n)
  show ?case
  proof (cases "n < 10")
    case True
    then show ?thesis by (subst decimal.simps) (simp add: unat_of_nat)
  next
    case False
    then have "dec_value (decimal n) = 10 * dec_value (decimal (n div 10)) + n mod 10"
      by (subst decimal.simps) (simp add: unat_of_nat)
    then show ?thesis using 1 False by simp
  qed
qed

lemma dec_value_zeros: "foldl (\<lambda>v d. 10 * v + unat (d - DIGIT0)) 0 (replicate k DIGIT0) = 0"
  by (induction k) simp_all

lemma dec_value_prec: "dec_value (prec_digits p n) = n"
  using dec_value_decimal [of n] by (simp add: prec_digits_def dec_value_zeros)

lemma length_decimal: "n < 10 ^ p \<Longrightarrow> 0 < p \<Longrightarrow> length (decimal n) \<le> p"
proof (induction n arbitrary: p rule: decimal.induct)
  case (1 n)
  show ?case
  proof (cases "n < 10")
    case True
    then show ?thesis using 1(3) by (subst decimal.simps) simp
  next
    case False
    obtain q where q: "p = Suc q" using 1(3) by (cases p) auto
    then have "q \<noteq> 0" using False 1(2) by (cases q) auto
    moreover have "n div 10 < 10 ^ q" using q 1(2) by (simp add: div_less_iff_less_mult mult.commute)
    ultimately show ?thesis using 1(1) [OF False, of q] q False by (subst decimal.simps) simp
  qed
qed

lemma length_prec_digits: "n < 10 ^ p \<Longrightarrow> 0 < p \<Longrightarrow> length (prec_digits p n) = p"
  using length_decimal [of n p] by (simp add: prec_digits_def)

text \<open>A field that fits its width is written in full, and reads back.\<close>

lemma sprintf_d_field:
  assumes "0 \<le> i" "i < 10 ^ p" "0 < p"
  shows "take p (sprintf_d p i) = sprintf_d p i" "length (sprintf_d p i) = p" "dec_value (sprintf_d p i) = nat i"
proof -
  have "nat i < 10 ^ p" using assms by (simp add: nat_less_iff)
  then show l: "length (sprintf_d p i) = p" using assms length_prec_digits by (simp add: sprintf_d_def)
  then show "take p (sprintf_d p i) = sprintf_d p i" by simp
  show "dec_value (sprintf_d p i) = nat i"
    using assms dec_value_prec [of p "nat i"] by (simp add: sprintf_d_def del: dec_value.simps)
qed

text \<open>The fields as \<open>gmtime_r\<close> fills them in, for a year of four digits.\<close>

definition tm_ok :: "tm \<Rightarrow> bool" where
  "tm_ok t \<longleftrightarrow>
     0 \<le> tm_sec t \<and> tm_sec t \<le> 60 \<and> 0 \<le> tm_min t \<and> tm_min t < 60 \<and> 0 \<le> tm_hour t \<and> tm_hour t < 24 \<and>
     1 \<le> tm_mday t \<and> tm_mday t \<le> 31 \<and> 0 \<le> tm_mon t \<and> tm_mon t < 12 \<and> - 1900 \<le> tm_year t \<and> tm_year t < 8100 \<and>
     0 \<le> tm_wday t \<and> tm_wday t < 7 \<and> 0 \<le> tm_yday t \<and> tm_yday t < 366"

lemma name_chars_total:
  "list_all (\<lambda>w. 3 \<le> length w) tab \<Longrightarrow> 0 \<le> i \<Longrightarrow> i < int (length tab) \<Longrightarrow>
   name_chars tab i 3 = Some (take 3 (tab ! nat i)) \<and> length (take 3 (tab ! nat i)) = 3"
proof -
  assume a: "list_all (\<lambda>w. 3 \<le> length w) tab" "0 \<le> i" "i < int (length tab)"
  then have "nat i < length tab" by (simp add: nat_less_iff)
  then have "3 \<le> length (tab ! nat i)" using a(1) by (simp add: list_all_length)
  then show ?thesis using a by (simp add: name_chars_def)
qed

lemma names_long: "list_all (\<lambda>w. 3 \<le> length w) dname" "length dname = 7"
  "list_all (\<lambda>w. 3 \<le> length w) mname" "length mname = 12"
  by code_simp+

section \<open>Properties\<close>


definition sample_clock :: clock where
  "sample_clock = \<lparr>u_strftime_tm = \<lparr>tm_sec = 7, tm_min = 6, tm_hour = 5, tm_mday = 4, tm_mon = 2, tm_year = 112,
     tm_wday = 0, tm_yday = 63\<rparr>, u_now_adjust = 19800, u_tzname = bytes ''IST''\<rparr>"


text \<open>
  The date of the HTTP headers, with the format \<open>%a, %d %b %Y %T GMT\<close>, is defined and has exactly
  29 characters, for every time whose fields \<open>gmtime_r\<close> fills in within their ranges and whose year has
  four digits.
\<close>

theorem http_date_length:
  assumes "tm_ok (gmtime_r t)" "29 < maxsize"
  shows "\<exists>s. u_strftime gmtime_r ck maxsize (bytes ''%a, %d %b %Y %T GMT'' @ [NUL]) t = Some s \<and> length s = 29"
proof -
  let ?ck = "ck\<lparr>u_strftime_tm := gmtime_r t\<rparr>"
  let ?items = "[Conv CHR ''a'', Lit (bytes '', ''), Conv CHR ''d'', Lit (bytes '' ''), Conv CHR ''b'', Lit (bytes '' ''),
    Conv CHR ''Y'', Lit (bytes '' ''), Conv CHR ''T'', Lit (bytes '' GMT'')]"
  have 1: "list_all item_ok ?items" by code_simp
  have src: "format_src ?items = bytes ''%a, %d %b %Y %T GMT'' @ [NUL]" by code_simp
  obtain d where d: "name_chars dname (tm_wday (gmtime_r t)) 3 = Some d" "length d = 3"
    using assms(1) name_chars_total [OF names_long(1)] names_long(2) by (auto simp: tm_ok_def)
  obtain m where m: "name_chars mname (tm_mon (gmtime_r t)) 3 = Some m" "length m = 3"
    using assms(1) name_chars_total [OF names_long(3)] names_long(4) by (auto simp: tm_ok_def)
  have "length (conv_time (gmtime_r t)) = 8"
    using length_sprintf_d [of 2 "tm_hour (gmtime_r t)"] length_sprintf_d [of 2 "tm_min (gmtime_r t)"]
      length_sprintf_d [of 2 "tm_sec (gmtime_r t)"] by (simp add: conv_time_def)
  moreover have "length (conv_year (gmtime_r t) CHR ''Y'') = 4" "length (take 2 (sprintf_d 2 (tm_mday (gmtime_r t)))) = 2"
    by (simp_all only: conv_year_def length_take_sprintf_d char.inject if_False simp_thms)
  ultimately have "\<exists>s. format_text ?ck ?items = Some s \<and> length s = 29"
    using d m by (simp add: conversion_def conv_name_def conv_number_def)
  then show ?thesis
    using strftime_loop_items [OF 1, of ?ck _ "[]" maxsize "[]"] src assms(2)
    by (auto simp: u_strftime_def u__strftime_def)
qed

theorem http_date_length_witness:
  "\<exists>s. u_strftime (\<lambda>t. u_strftime_tm sample_clock) sample_clock 30 (bytes ''%a, %d %b %Y %T GMT'' @ [NUL]) 0 = Some s \<and> length s = 29"
proof -
  have "tm_ok (u_strftime_tm sample_clock)" by code_simp
  then show ?thesis by (intro http_date_length) simp_all
qed

text \<open>
  The fields of a date of the form \<open>%Y%m%d%H%M%S\<close> read back from their positions: it has 14
  digits, whose values are the year, the month counted from one, the day, hour, minute and second.
\<close>

theorem strftime_fields_roundtrip:
  assumes "tm_ok (u_strftime_tm ck)" "14 < maxsize"
  shows "\<exists>s. u__strftime ck maxsize (bytes ''%Y%m%d%H%M%S'' @ [NUL]) = Some s \<and> length s = 14 \<and>
    int (dec_value (take 4 s)) = 1900 + tm_year (u_strftime_tm ck) \<and>
    int (dec_value (take 2 (drop 4 s))) = tm_mon (u_strftime_tm ck) + 1 \<and>
    int (dec_value (take 2 (drop 6 s))) = tm_mday (u_strftime_tm ck) \<and>
    int (dec_value (take 2 (drop 8 s))) = tm_hour (u_strftime_tm ck) \<and>
    int (dec_value (take 2 (drop 10 s))) = tm_min (u_strftime_tm ck) \<and>
    int (dec_value (take 2 (drop 12 s))) = tm_sec (u_strftime_tm ck)"
proof -
  let ?t = "u_strftime_tm ck"
  let ?items = "map Conv ''YmdHMS''"
  define Y where "Y = sprintf_d 4 (1900 + tm_year ?t)"
  define m where "m = sprintf_d 2 (tm_mon ?t + 1)"
  define d where "d = sprintf_d 2 (tm_mday ?t)"
  define H where "H = sprintf_d 2 (tm_hour ?t)"
  define M where "M = sprintf_d 2 (tm_min ?t)"
  define S where "S = sprintf_d 2 (tm_sec ?t)"
  have Y: "length Y = 4" "take 4 Y = Y" "int (dec_value Y) = 1900 + tm_year ?t"
    unfolding Y_def using assms(1) sprintf_d_field [of "1900 + tm_year ?t" 4] by (simp_all add: tm_ok_def del: dec_value.simps)
  have m: "length m = 2" "take 2 m = m" "int (dec_value m) = tm_mon ?t + 1"
    unfolding m_def using assms(1) sprintf_d_field [of "tm_mon ?t + 1" 2] by (simp_all add: tm_ok_def del: dec_value.simps)
  have d: "length d = 2" "take 2 d = d" "int (dec_value d) = tm_mday ?t"
    unfolding d_def using assms(1) sprintf_d_field [of "tm_mday ?t" 2] by (simp_all add: tm_ok_def del: dec_value.simps)
  have H: "length H = 2" "take 2 H = H" "int (dec_value H) = tm_hour ?t"
    unfolding H_def using assms(1) sprintf_d_field [of "tm_hour ?t" 2] by (simp_all add: tm_ok_def del: dec_value.simps)
  have M: "length M = 2" "take 2 M = M" "int (dec_value M) = tm_min ?t"
    unfolding M_def using assms(1) sprintf_d_field [of "tm_min ?t" 2] by (simp_all add: tm_ok_def del: dec_value.simps)
  have S: "length S = 2" "take 2 S = S" "int (dec_value S) = tm_sec ?t"
    unfolding S_def using assms(1) sprintf_d_field [of "tm_sec ?t" 2] by (simp_all add: tm_ok_def del: dec_value.simps)
  have 1: "list_all item_ok ?items" by code_simp
  have src: "format_src ?items = bytes ''%Y%m%d%H%M%S'' @ [NUL]" by code_simp
  have "format_text ck ?items = Some (Y @ m @ d @ H @ M @ S)"
    using Y(2) m(2) d(2) H(2) M(2) S(2)
    by (simp add: conversion_def conv_number_def conv_year_def Y_def m_def d_def H_def M_def S_def)
  then have "u__strftime ck maxsize (bytes ''%Y%m%d%H%M%S'' @ [NUL]) = Some (Y @ m @ d @ H @ M @ S)"
    using strftime_loop_items [OF 1, of ck "Y @ m @ d @ H @ M @ S" "[]" maxsize "[]"] src assms(2)
      Y(1) m(1) d(1) H(1) M(1) S(1) by (simp add: u__strftime_def)
  then show ?thesis using Y m d H M S by (simp del: dec_value.simps)
qed

theorem strftime_fields_roundtrip_witness:
  "\<exists>s. u__strftime sample_clock 20 (bytes ''%Y%m%d%H%M%S'' @ [NUL]) = Some s \<and> length s = 14 \<and> int (dec_value (take 4 s)) = 2012"
proof -
  have "tm_ok (u_strftime_tm sample_clock)" "1900 + tm_year (u_strftime_tm sample_clock) = 2012" by code_simp+
  then show ?thesis using strftime_fields_roundtrip [of sample_clock 20] by auto
qed

lemma month_eq_fold: "length buf \<ge> length ptr \<Longrightarrow> month_eq ptr buf = Some (ptr = map u__tolower (take (length ptr) buf))"
  by (induction ptr buf rule: month_eq.induct) auto

lemma month_loop_le: "month_loop i tab buf = Some n \<Longrightarrow> n \<le> i + length tab"
  by (induction i tab buf rule: month_loop.induct) (auto simp: bind_eq_Some_conv split: if_splits)

lemma month_loop_fold:
  assumes "3 \<le> length buf" "3 \<le> length buf'" "map u__tolower (take 3 buf) = map u__tolower (take 3 buf')"
    and "list_all (\<lambda>(a, b). length a = 3 \<and> length b = 3) tab"
  shows "month_loop i tab buf = month_loop i tab buf'"
  using assms(4)
proof (induction tab arbitrary: i)
  case (Cons x tab)
  then show ?case using assms(1-3) by (cases x) (simp add: month_eq_fold)
qed simp

lemma months_3: "list_all (\<lambda>(a, b). length a = 3 \<and> length b = 3) (zip u_months u_months_it)"
  by code_simp

lemma getMonth_names: "list_all (\<lambda>k. u_getMonth (take 3 (mname ! k)) = Some (k + 1)) [0..<12]"
  by code_simp

text \<open>
  \<open>u_getMonth\<close> reads back the abbreviated month names of \<open>%b\<close>, in any case, and answers a number
  up to 12.
\<close>

theorem getMonth_strftime:
  assumes "conv_name t CHR ''b'' = Some w" "map u__tolower (take 3 buf) = map u__tolower w" "3 \<le> length buf"
  shows "u_getMonth buf = Some (nat (tm_mon t) + 1) \<and> nat (tm_mon t) + 1 \<le> 12"
proof -
  have k: "0 \<le> tm_mon t" "tm_mon t < 12" "w = take 3 (mname ! nat (tm_mon t))" "3 \<le> length (mname ! nat (tm_mon t))"
    using assms(1) names_long(4) by (auto simp: conv_name_def name_chars_def split: if_splits)
  then have n: "nat (tm_mon t) < 12" by simp
  then have "u_getMonth w = Some (nat (tm_mon t) + 1)" using getMonth_names k(3) by (simp add: list_all_iff)
  moreover have "u_getMonth buf = u_getMonth w"
    unfolding u_getMonth_def
    using assms(2, 3) k(3, 4) months_3 by (intro month_loop_fold) auto
  ultimately show ?thesis using n by simp
qed

theorem getMonth_strftime_witness:
  "u_getMonth (bytes ''MAR 2012'') = Some 3"
proof -
  have 1: "conv_name (u_strftime_tm sample_clock) CHR ''b'' = Some (bytes ''Mar'')" by code_simp
  have 2: "map u__tolower (take 3 (bytes ''MAR 2012'')) = map u__tolower (bytes ''Mar'')" by code_simp
  have 3: "3 \<le> length (bytes ''MAR 2012'')" by simp
  have "nat (tm_mon (u_strftime_tm sample_clock)) = 2" by code_simp
  then show ?thesis using getMonth_strftime [OF 1 2 3] by simp
qed

text \<open>
  \<open>u__strftime\<close> does not do what its comments say: it writes past \<open>maxsize\<close> and returns the larger
  count instead of zero; \<open>%e\<close> keeps the leading zero; \<open>%z\<close> writes seconds after the hours, so that the
  offset +05:30 becomes +0518; and after a percent sign at the end of the format it reads on behind
  the terminator.
\<close>

theorem strftime_defects:
  "map_option length (u__strftime sample_clock 4 (bytes ''%A'' @ [NUL])) = Some 6"
  "u__strftime sample_clock 9 (bytes ''%e'' @ [NUL]) = Some (bytes ''04'')"
  "u__strftime sample_clock 9 (bytes ''%z'' @ [NUL]) = Some (bytes ''+0518'')"
  "u__strftime sample_clock 9 (bytes ''%'' @ [NUL]) = None"
  by code_simp+

end
