(* ===== verification/Date.thy ===== *)
theory Date
  imports Strftime
begin

text \<open>
  The class \<open>UTimeDate\<close> of \<open>include/ulib/date.h\<close> and \<open>src/ulib/date.cpp\<close>: dates of the Gregorian
  calendar, their Julian day numbers with the cached number \<open>julian\<close>, and arithmetic on dates. The theory
  HttpDate has the conversions to seconds.

  The numbers of the source are \<open>int\<close>, here unbounded integers with the truncating division of C; the
  last property bounds every intermediate value for the years the class supports. \<open>sscanf\<close>, \<open>mktime\<close>
  and \<open>localtime_r\<close> are parameters. The assertions of a debug build are not part of the model.
\<close>

section \<open>State and calendar tables\<close>

record time_date =
  julian :: int
  td_day :: int
  td_month :: int
  td_year :: int

definition monthDays :: "int list" where
  "monthDays = [0, 31, 28, 31, 30, 31, 30, 31, 31, 30, 31, 30, 31]"

definition month_days :: "int \<Rightarrow> int option" where
  "month_days m = (if 0 \<le> m \<and> m < 13 then Some (monthDays ! nat m) else None)"

definition leapYear :: "int \<Rightarrow> bool" where
  "leapYear y \<longleftrightarrow> y smod 4 = 0 \<and> (y smod 100 \<noteq> 0 \<or> y smod 400 = 0)"

definition FIRST_DAY :: int where "FIRST_DAY = 2361222"

definition FIRST_YEAR :: int where "FIRST_YEAR = 1752"

section \<open>Julian day numbers\<close>

definition toJulian :: "int \<Rightarrow> int \<Rightarrow> int \<Rightarrow> int" where
  "toJulian day month year =
     (let (month, year) = (if month > 2 then (month - 3, year) else (month + 9, year - 1));
          century = year sdiv 100;
          year = year - century * 100
      in 1721119 + day + (146097 * century) sdiv 4 + (1461 * year) sdiv 4 + ((153 * month) + 2) sdiv 5)"

definition fromJulian :: "int \<Rightarrow> time_date \<Rightarrow> time_date" where
  "fromJulian j t =
     (let j = j - 1721119;
          year = ((j * 4) - 1) sdiv 146097;
          j = (j * 4) - 1 - (146097 * year);
          day = j sdiv 4;
          j = ((day * 4) + 3) sdiv 1461;
          day = (day * 4) + 3 - (1461 * j);
          day = (day + 4) sdiv 4;
          month = (5 * day - 3) sdiv 153;
          day = 5 * day - 3 - 153 * month;
          day = (day + 5) sdiv 5;
          year = 100 * year + j;
          (month, year) = (if month < 10 then (month + 3, year) else (month - 9, year + 1))
      in t\<lparr>td_day := day, td_month := month, td_year := year\<rparr>)"

definition getJulian :: "time_date \<Rightarrow> int \<times> time_date" where
  "getJulian t =
     (if julian t \<noteq> 0 then (julian t, t)
      else let j = toJulian (td_day t) (td_month t) (td_year t) in (j, t\<lparr>julian := j\<rparr>))"

section \<open>Construction\<close>

definition setYear :: "int \<Rightarrow> time_date \<Rightarrow> time_date" where
  "setYear year t =
     (let t = t\<lparr>td_year := year\<rparr>;
          t = (if year < 150 then t\<lparr>td_year := td_year t + 1900\<rparr> else t);
          t = (if year < 50 then t\<lparr>td_year := td_year t + 100\<rparr> else t)
      in if julian t \<noteq> 0 then t\<lparr>julian := toJulian (td_day t) (td_month t) (td_year t)\<rparr> else t)"

definition td_set :: "int \<Rightarrow> int \<Rightarrow> int \<Rightarrow> time_date \<Rightarrow> time_date" where
  "td_set day month year t = setYear year (t\<lparr>julian := 0, td_day := day, td_month := month\<rparr>)"

definition date_of_year :: "int \<Rightarrow> int \<Rightarrow> time_date" where
  "date_of_year day year =
     (let j = toJulian 1 1 year - 1 + day
      in fromJulian j \<lparr>julian = j, td_day = 0, td_month = 0, td_year = 0\<rparr>)"

definition fromTime :: "(int \<Rightarrow> tm) \<Rightarrow> int \<Rightarrow> time_date" where
  "fromTime localtime_r tim =
     (if tim \<noteq> 0 then
        \<lparr>julian = 0, td_day = tm_mday (localtime_r tim), td_month = tm_mon (localtime_r tim) + 1,
         td_year = tm_year (localtime_r tim) + 1900\<rparr>
      else \<lparr>julian = 2440588, td_day = 1, td_month = 1, td_year = 1970\<rparr>)"

section \<open>Queries\<close>

definition td_isValid :: "time_date \<Rightarrow> bool" where
  "td_isValid t \<longleftrightarrow>
     \<not> (td_year t < FIRST_YEAR \<or> (td_year t = FIRST_YEAR \<and> (td_month t < 9 \<or> (td_month t = 9 \<and> td_day t < 14)))) \<and>
     td_day t > 0 \<and> td_month t > 0 \<and> td_month t \<le> 12 \<and>
     (td_day t \<le> monthDays ! nat (td_month t) \<or> (td_day t = 29 \<and> td_month t = 2 \<and> leapYear (td_year t)))"

definition getDaysInMonth :: "time_date \<Rightarrow> int option" where
  "getDaysInMonth t =
     (if td_month t = 2 \<and> leapYear (td_year t) then Some 29 else month_days (td_month t))"

definition getDayOfYear :: "time_date \<Rightarrow> int" where
  "getDayOfYear t =
     (let y = td_year t - 1901 in fst (getJulian t) - (y * 365) - (y sdiv 4) - 2415385)"

definition getDayOfWeek :: "time_date \<Rightarrow> int" where
  "getDayOfWeek t = (fst (getJulian t) + 1) smod 7"

definition daysTo :: "time_date \<Rightarrow> time_date \<Rightarrow> int" where
  "daysTo t date = fst (getJulian date) - fst (getJulian t)"

definition date_less :: "time_date \<Rightarrow> time_date \<Rightarrow> bool" where
  "date_less t date \<longleftrightarrow> fst (getJulian t) < fst (getJulian date)"

definition date_eq :: "time_date \<Rightarrow> time_date \<Rightarrow> bool" where
  "date_eq t date \<longleftrightarrow> fst (getJulian t) = fst (getJulian date)"

section \<open>Arithmetic\<close>

definition addDays :: "int \<Rightarrow> time_date \<Rightarrow> time_date" where
  "addDays days t = (let j = fst (getJulian t) + days in fromJulian j (t\<lparr>julian := j\<rparr>))"

definition addYears :: "int \<Rightarrow> time_date \<Rightarrow> time_date" where
  "addYears years t =
     (let t = t\<lparr>td_year := td_year t + years\<rparr>
      in t\<lparr>julian := toJulian (td_day t) (td_month t) (td_year t)\<rparr>)"

function add_months :: "int \<Rightarrow> int \<Rightarrow> int \<Rightarrow> int \<times> int" where
  "add_months month year nmonths =
     (if nmonths = 0 then (month, year)
      else if nmonths < 0 \<and> nmonths + 12 \<le> 0 then add_months month (year - 1) (nmonths + 12)
      else if nmonths < 0 then
        (let month = month + nmonths
         in if month \<le> 0 then add_months (month + 12) (year - 1) 0 else add_months month year 0)
      else if nmonths - 12 \<ge> 0 then add_months month (year + 1) (nmonths - 12)
      else if month = 12 then add_months 0 (year + 1) nmonths
      else
        (let month = month + nmonths
         in if month > 12 then add_months (month - 12) (year + 1) 0 else add_months month year 0))"
  by pat_completeness auto

termination
  by (relation "measures [\<lambda>(m, y, n). nat \<bar>n\<bar>, \<lambda>(m, y, n). if m = 12 then 1 else 0]") auto

declare add_months.simps [simp del]

definition addMonths :: "int \<Rightarrow> time_date \<Rightarrow> time_date option" where
  "addMonths nmonths t =
     (case add_months (td_month t) (td_year t) nmonths of (month, year) \<Rightarrow>
        map_option
          (\<lambda>days_in_month.
             t\<lparr>td_month := month, td_year := year,
               td_day := (if td_day t > days_in_month then days_in_month else td_day t)\<rparr>)
          (if month = 2 \<and> leapYear year then Some 29 else month_days month))"

section \<open>Arithmetic of the day numbers\<close>

lemma sdiv_pos: "0 \<le> a \<Longrightarrow> 0 < b \<Longrightarrow> a sdiv b = a div (b :: int)"
  by (auto simp: signed_divide_int_def sgn_if)

lemma smod_0_iff: "(a smod b = 0) \<longleftrightarrow> (b :: int) dvd a"
proof
  assume "a smod b = 0"
  then have "a = (a sdiv b) * b"
    using sdiv_mult_smod_eq [of a b] by simp
  then show "b dvd a" by (metis dvd_triv_right)
next
  assume "b dvd a"
  then obtain k where "a = b * k" by blast
  then show "a smod b = 0" by (simp add: signed_modulo_int_def)
qed

lemma leapYear_iff: "leapYear y \<longleftrightarrow> 4 dvd y \<and> (\<not> 100 dvd y \<or> 400 dvd y)"
  by (simp add: leapYear_def smod_0_iff)

text \<open>
  The calendar as a specification: the days of a month, valid dates, and the following date.
\<close>

definition days_of :: "int \<Rightarrow> int \<Rightarrow> int" where
  "days_of m y = (if m = 2 then (if leapYear y then 29 else 28) else if m \<in> {4, 6, 9, 11} then 30 else 31)"

definition is_date :: "int \<times> int \<times> int \<Rightarrow> bool" where
  "is_date x \<longleftrightarrow> (case x of (d, m, y) \<Rightarrow> 1 \<le> y \<and> 1 \<le> m \<and> m \<le> 12 \<and> 1 \<le> d \<and> d \<le> days_of m y)"

definition succ_date :: "int \<times> int \<times> int \<Rightarrow> int \<times> int \<times> int" where
  "succ_date x = (case x of (d, m, y) \<Rightarrow>
     if d < days_of m y then (d + 1, m, y) else if m < 12 then (1, m + 1, y) else (1, 1, y + 1))"

definition jdn :: "int \<times> int \<times> int \<Rightarrow> int" where
  "jdn x = (case x of (d, m, y) \<Rightarrow> toJulian d m y)"

text \<open>Each quotient of \<open>fromJulian\<close> recovers what the corresponding product of \<open>toJulian\<close> put in.\<close>

lemma quotient_step:
  fixes a b c n :: int
  assumes "0 < b" and "0 \<le> n" and "4 * n + 3 - (b * c) mod 4 < b"
  shows "(4 * ((b * c) div 4 + n) + 3) div b = c" and "(4 * ((b * c) div 4 + n) + 3 - b * c) div 4 = n"
proof -
  have m: "0 \<le> (b * c) mod 4" "(b * c) mod 4 \<le> 3" by simp_all
  have q: "4 * ((b * c) div 4) = b * c - (b * c) mod 4"
    by (simp add: minus_mod_eq_mult_div)
  have eq: "4 * ((b * c) div 4 + n) + 3 = b * c + (4 * n + 3 - (b * c) mod 4)"
    unfolding distrib_left q by simp
  show "(4 * ((b * c) div 4 + n) + 3) div b = c"
    unfolding eq by (rule int_div_pos_eq [of _ _ _ "4 * n + 3 - (b * c) mod 4"]) (use assms m in auto)
  show "(4 * ((b * c) div 4 + n) + 3 - b * c) div 4 = n"
    unfolding eq by (rule int_div_pos_eq [of _ _ _ "3 - (b * c) mod 4"]) (use m in auto)
qed

lemma month_step:
  fixes m d :: int
  assumes "0 \<le> m" "m \<le> 11" "1 \<le> d" "d \<le> 31" and "d = 31 \<Longrightarrow> (153 * m + 2) mod 5 \<ge> 2"
  defines "k \<equiv> d - 1 + (153 * m + 2) div 5"
  shows "(5 * (k + 1) - 3) div 153 = m" and "(5 * (k + 1) - 3 - 153 * m + 5) div 5 = d"
proof -
  have r: "0 \<le> (153 * m + 2) mod 5" "(153 * m + 2) mod 5 \<le> 4" by simp_all
  have q: "5 * ((153 * m + 2) div 5) = 153 * m + 2 - (153 * m + 2) mod 5"
    by (simp add: minus_mod_eq_mult_div)
  have eq: "5 * (k + 1) - 3 = 153 * m + (5 * (d - 1) + 4 - (153 * m + 2) mod 5)"
    using q by (simp add: k_def algebra_simps)
  have "5 * (d - 1) + 4 - (153 * m + 2) mod 5 < 153"
    using assms(4,5) r by (cases "d = 31") auto
  then show "(5 * (k + 1) - 3) div 153 = m"
    unfolding eq by (intro int_div_pos_eq [of _ _ _ "5 * (d - 1) + 4 - (153 * m + 2) mod 5"]) (use assms(3) r in auto)
  show "(5 * (k + 1) - 3 - 153 * m + 5) div 5 = d"
    unfolding eq by (rule int_div_pos_eq [of _ _ _ "4 - (153 * m + 2) mod 5"]) (use r in auto)
qed

text \<open>
  A date counted from March: month 0 to 11 with the leap day at the end of the year, and the position
  of the day in its year and century.
\<close>

definition march :: "int \<Rightarrow> int \<Rightarrow> int \<times> int" where
  "march m y = (if m > 2 then (m - 3, y) else (m + 9, y - 1))"

lemma march_bounds:
  assumes "is_date (d, m, y)" and "march m y = (m', y')"
  shows "0 \<le> m'" "m' \<le> 11" "1 \<le> d" "d \<le> 31" "0 \<le> y'" "d = 31 \<Longrightarrow> (153 * m' + 2) mod 5 \<ge> 2"
    "0 \<le> d - 1 + (153 * m' + 2) div 5" "d - 1 + (153 * m' + 2) div 5 \<le> 365"
    "d - 1 + (153 * m' + 2) div 5 = 365 \<Longrightarrow> leapYear (y' + 1)"
proof -
  have m: "m \<in> {1, 2, 3, 4, 5, 6, 7, 8, 9, 10, 11, 12}"
    using assms(1) unfolding is_date_def by simp presburger
  note d = assms(1) [unfolded is_date_def days_of_def]
  show "0 \<le> m'" "m' \<le> 11" "1 \<le> d" "d \<le> 31" "0 \<le> y'" "d = 31 \<Longrightarrow> (153 * m' + 2) mod 5 \<ge> 2"
    "0 \<le> d - 1 + (153 * m' + 2) div 5" "d - 1 + (153 * m' + 2) div 5 \<le> 365"
    "d - 1 + (153 * m' + 2) div 5 = 365 \<Longrightarrow> leapYear (y' + 1)"
    using m d assms(2) by (elim insertE emptyE; auto simp: march_def split: if_splits)+
qed

lemma toJulian_march:
  assumes "march m y = (m', y')" and "0 \<le> m'" and "0 \<le> y'"
  shows "toJulian d m y = 1721119 + d + (146097 * (y' div 100)) div 4 + (1461 * (y' mod 100)) div 4 + (153 * m' + 2) div 5"
proof -
  have "y' - y' div 100 * 100 = y' mod 100"
    by (simp add: minus_div_mult_eq_mod)
  with assms show ?thesis
    by (auto simp: toJulian_def march_def sdiv_pos Let_def split: if_splits)
qed

lemma fromJulian_march:
  assumes "0 \<le> c" "0 \<le> a" "0 \<le> m" "m \<le> 11" "1 \<le> d" "d \<le> 31" "d = 31 \<Longrightarrow> (153 * m + 2) mod 5 \<ge> 2"
  defines "k \<equiv> d - 1 + (153 * m + 2) div 5"
  defines "n \<equiv> (1461 * a) div 4 + k"
  assumes "0 \<le> k" "4 * k + 3 - (1461 * a) mod 4 < 1461" "4 * n + 3 - (146097 * c) mod 4 < 146097"
  shows "fromJulian (1721119 + ((146097 * c) div 4 + n) + 1) t =
    (let (m, y) = (if m < 10 then (m + 3, 100 * c + a) else (m - 9, 100 * c + a + 1))
     in t\<lparr>td_day := d, td_month := m, td_year := y\<rparr>)"
proof -
  define Q where "Q = (146097 * c) div 4"
  define Q' where "Q' = (1461 * a) div 4"
  have Q: "0 \<le> Q" "4 * Q = 146097 * c - (146097 * c) mod 4" "0 \<le> (146097 * c) mod 4" "(146097 * c) mod 4 \<le> 3"
    using assms(1) by (simp_all add: Q_def minus_mod_eq_mult_div)
  have Q': "0 \<le> Q'" "4 * Q' = 1461 * a - (1461 * a) mod 4" "0 \<le> (1461 * a) mod 4" "(1461 * a) mod 4 \<le> 3"
    using assms(2) by (simp_all add: Q'_def minus_mod_eq_mult_div)
  have n: "n = Q' + k" "0 \<le> n"
    using Q'(1) assms(10) by (simp_all add: n_def Q'_def)
  have "(4 * (Q + n) + 3) div 146097 = c" "(4 * (Q + n) + 3 - 146097 * c) div 4 = n"
    using quotient_step [of 146097 n c] n(2) assms(12) by (simp_all add: Q_def)
  then have 1: "(4 * (Q + n) + 3) sdiv 146097 = c" and 2: "(4 * (Q + n) + 3 - 146097 * c) sdiv 4 = n"
    using Q n(2) by (simp_all add: sdiv_pos)
  have "(4 * n + 3) div 1461 = a" "(4 * n + 3 - 1461 * a) div 4 = k"
    using quotient_step [of 1461 k a] assms(10,11) by (simp_all add: n Q'_def)
  moreover have "0 \<le> 4 * n + 3 - 1461 * a"
    using Q' assms(10) by (simp add: n)
  ultimately have 3: "(4 * n + 3) sdiv 1461 = a" and 4: "(4 * n + 3 - 1461 * a + 4) sdiv 4 = k + 1"
    using n(2) by (simp_all add: sdiv_pos)
  have 5: "(5 * (k + 1) - 3) sdiv 153 = m"
    using month_step(1) [of m d] assms(3-7,10) by (simp add: sdiv_pos k_def)
  have "0 \<le> 5 * (k + 1) - 3 - 153 * m + 5"
    using assms(5) minus_mod_eq_mult_div [of "153 * m + 2" 5] pos_mod_bound [of 5 "153 * m + 2"] by (simp add: k_def)
  then have 6: "(5 * (k + 1) - 3 - 153 * m + 5) sdiv 5 = d"
    using month_step(2) [of m d] assms(3-7) by (simp add: sdiv_pos k_def)
  have j: "(1721119 + (Q + n) + 1 - 1721119) * 4 - 1 = 4 * (Q + n) + 3"
    by simp
  show ?thesis
    unfolding fromJulian_def Let_def Q_def [symmetric] j 1 mult.commute [of n 4] 2 3 4 5 6 by simp
qed

lemma mod4_simps: "(1461 * a) mod 4 = a mod (4 :: int)" "(146097 * a) mod 4 = a mod (4 :: int)"
proof -
  have "1461 * a = a + 4 * (365 * a)" "146097 * a = a + 4 * (36524 * a)" by simp_all
  then show "(1461 * a) mod 4 = a mod 4" "(146097 * a) mod 4 = a mod 4"
    by (metis mod_mult_self2)+
qed

lemma leap_century:
  fixes c a :: int
  assumes "leapYear (100 * c + a + 1)"
  shows "a mod 4 = 3" and "a = 99 \<Longrightarrow> c mod 4 = 3"
proof -
  have "4 dvd 4 * (25 * c) + (a + 1)"
    using assms by (simp add: leapYear_iff add.assoc)
  then have "4 dvd a + 1"
    by (metis dvd_add_right_iff dvd_triv_left)
  then show "a mod 4 = 3" by presburger
  assume "a = 99"
  then have "100 * 4 dvd 100 * (c + 1)"
    using assms by (auto simp: leapYear_iff algebra_simps)
  then have "4 dvd c + 1"
    unfolding dvd_mult_cancel_left by simp
  then show "c mod 4 = 3" by presburger
qed

lemma fromJulian_toJulian:
  assumes "is_date (d, m, y)"
  shows "fromJulian (toJulian d m y) t = t\<lparr>td_day := d, td_month := m, td_year := y\<rparr>"
proof -
  obtain m' y' where my: "march m y = (m', y')" by (cases "march m y")
  note b = march_bounds [OF assms my]
  define c where "c = y' div 100"
  define a where "a = y' mod 100"
  define k where "k = d - 1 + (153 * m' + 2) div 5"
  define n where "n = (1461 * a) div 4 + k"
  have y': "y' = 100 * c + a" "0 \<le> c" "0 \<le> a" "a \<le> 99"
    using b(5) by (simp_all add: c_def a_def)
  have k: "0 \<le> k" "k \<le> 365" "k = 365 \<Longrightarrow> leapYear (100 * c + a + 1)"
    using b(7-9) by (simp_all add: k_def y'(1))
  have 1: "4 * k + 3 - (1461 * a) mod 4 < 1461"
    using k leap_century(1) [of c a] by (cases "k = 365") (simp_all add: mod4_simps)
  have "(1461 * a) div 4 \<le> 36159" and "a \<noteq> 99 \<Longrightarrow> (1461 * a) div 4 \<le> 35794"
    using y'(4) zdiv_mono1 [of "1461 * a" "1461 * 99" 4] zdiv_mono1 [of "1461 * a" "1461 * 98" 4] by simp_all
  then have "n \<le> 36523 \<or> (n \<le> 36524 \<and> a = 99 \<and> k = 365)"
    using k(2) by (cases "a = 99"; cases "k = 365") (simp_all add: n_def)
  then have 2: "4 * n + 3 - (146097 * c) mod 4 < 146097"
    using leap_century(2) [of c a] k(3) pos_mod_sign [of 4 c] by (auto simp: mod4_simps)
  have j: "toJulian d m y = 1721119 + ((146097 * c) div 4 + n) + 1"
    using toJulian_march [OF my b(1,5)] by (simp add: c_def a_def k_def n_def)
  have shift: "(if m' < 10 then (m' + 3, y') else (m' - 9, y' + 1)) = (m, y)"
    using my assms by (auto simp: march_def is_date_def split: if_splits)
  show ?thesis
    using fromJulian_march [OF y'(2,3) b(1-4,6), of t] k(1) 1 2 shift
    unfolding j k_def [symmetric] n_def [symmetric] y'(1) by simp
qed

text \<open>The numbers count the days of the calendar.\<close>

lemma div4_simps: "(1461 * a) div 4 = 365 * a + a div (4 :: int)" "(146097 * a) div 4 = 36524 * a + a div (4 :: int)"
proof -
  have "1461 * a = a + 4 * (365 * a)" "146097 * a = a + 4 * (36524 * a)" by simp_all
  then show "(1461 * a) div 4 = 365 * a + a div 4" "(146097 * a) div 4 = 36524 * a + a div 4"
    by (metis add.commute div_mult_self2 zero_neq_numeral)+
qed

lemma year_days:
  fixes y :: int
  assumes "1 \<le> y"
  shows "(146097 * (y div 100)) div 4 + (1461 * (y mod 100)) div 4 =
    (146097 * ((y - 1) div 100)) div 4 + (1461 * ((y - 1) mod 100)) div 4 + (if leapYear y then 366 else 365)"
proof -
  define c where "c = (y - 1) div 100"
  define a where "a = (y - 1) mod 100"
  have y: "y = 100 * c + a + 1" "0 \<le> a" "a \<le> 99"
    by (simp_all add: c_def a_def)
  show ?thesis
  proof (cases "a = 99")
    case True
    then have q: "y div 100 = c + 1" "y mod 100 = 0" and y': "y = 100 * (c + 1)"
      using y(1) by simp_all
    have "leapYear y \<longleftrightarrow> 400 dvd y"
      using dvd_trans [of 4 400 y] by (auto simp: leapYear_iff y')
    also have "\<dots> \<longleftrightarrow> 100 * 4 dvd 100 * (c + 1)" by (simp add: y')
    also have "\<dots> \<longleftrightarrow> 4 dvd c + 1" unfolding dvd_mult_cancel_left by simp
    finally have "leapYear y \<longleftrightarrow> 4 dvd c + 1" .
    moreover have "(c + 1) div 4 = c div 4 + (if 4 dvd c + 1 then 1 else 0)" by presburger
    ultimately show ?thesis
      using True unfolding c_def [symmetric] a_def [symmetric] q div4_simps by simp
  next
    case False
    then have q: "y div 100 = c" "y mod 100 = a + 1"
      using y by (simp_all add: int_div_pos_eq int_mod_pos_eq)
    have "\<not> 100 dvd y"
      using q(2) y(2) by (simp add: dvd_eq_mod_eq_0)
    then have "leapYear y \<longleftrightarrow> 4 dvd y"
      by (simp add: leapYear_iff)
    also have "\<dots> \<longleftrightarrow> 4 dvd 4 * (25 * c) + (a + 1)" by (simp add: y(1) add.assoc)
    also have "\<dots> \<longleftrightarrow> 4 dvd a + 1" by (metis dvd_add_right_iff dvd_triv_left)
    finally have "leapYear y \<longleftrightarrow> 4 dvd a + 1" .
    moreover have "(a + 1) div 4 = a div 4 + (if 4 dvd a + 1 then 1 else 0)" by presburger
    ultimately show ?thesis
      unfolding c_def [symmetric] a_def [symmetric] q div4_simps by simp
  qed
qed

lemma toJulian_late:
  "2 < m \<Longrightarrow> 0 \<le> y \<Longrightarrow> toJulian d m y =
    1721119 + d + ((146097 * (y div 100)) div 4 + (1461 * (y mod 100)) div 4) + (153 * (m - 3) + 2) div 5"
  using toJulian_march [of m y "m - 3" y d] by (simp add: march_def)

lemma toJulian_early:
  "m \<le> 2 \<Longrightarrow> -9 \<le> m \<Longrightarrow> 1 \<le> y \<Longrightarrow> toJulian d m y =
    1721119 + d + ((146097 * ((y - 1) div 100)) div 4 + (1461 * ((y - 1) mod 100)) div 4) + (153 * (m + 9) + 2) div 5"
  using toJulian_march [of m y "m + 9" "y - 1" d] by (simp add: march_def)

lemma month_end:
  assumes "1 \<le> y" and "1 \<le> m" and "m \<le> 12"
  shows "(if m < 12 then toJulian 1 (m + 1) y else toJulian 1 1 (y + 1)) = toJulian (days_of m y) m y + 1"
proof -
  have m: "m \<in> {1, 2, 3, 4, 5, 6, 7, 8, 9, 10, 11, 12}"
    using assms(2,3) by simp presburger
  define L where "L = (146097 * (y div 100)) div 4 + (1461 * (y mod 100)) div 4"
  define E where "E = (146097 * ((y - 1) div 100)) div 4 + (1461 * ((y - 1) mod 100)) div 4"
  have late: "2 < m \<Longrightarrow> toJulian d m y = 1721119 + d + L + (153 * (m - 3) + 2) div 5" for d m
    using toJulian_late [of m y d] assms(1) by (simp add: L_def)
  have early: "m = 1 \<or> m = 2 \<Longrightarrow> toJulian d m y = 1721119 + d + E + (153 * (m + 9) + 2) div 5" for d m
    using toJulian_early [of m y d] assms(1) by (auto simp: E_def)
  have new_year: "toJulian 1 1 (y + 1) = 1721119 + 1 + L + (153 * 10 + 2) div 5"
    using toJulian_early [of 1 "y + 1" 1] assms(1) by (simp add: L_def)
  have "L = E + (if leapYear y then 366 else 365)"
    using year_days [OF assms(1)] by (simp only: L_def E_def)
  with m show ?thesis
    by (elim insertE emptyE; simp add: late early new_year days_of_def)
qed

lemma succ_is_date: "is_date x \<Longrightarrow> is_date (succ_date x)"
  by (cases x) (auto simp: is_date_def succ_date_def days_of_def)

lemma jdn_succ:
  assumes "is_date x"
  shows "jdn (succ_date x) = jdn x + 1"
proof -
  obtain d m y where x: "x = (d, m, y)" by (cases x)
  have day: "toJulian (d + 1) m y = toJulian d m y + 1"
    by (simp add: toJulian_def Let_def split: prod.split)
  show ?thesis
  proof (cases "d < days_of m y")
    case True
    with day show ?thesis by (simp add: jdn_def succ_date_def x)
  next
    case False
    with assms have "d = days_of m y" "1 \<le> y" "1 \<le> m" "m \<le> 12"
      by (auto simp: is_date_def x)
    with month_end [of y m] show ?thesis
      by (auto simp: jdn_def succ_date_def x split: if_splits)
  qed
qed

lemma jdn_inject:
  assumes "is_date x" and "is_date x'" and "jdn x = jdn x'"
  shows "x = x'"
proof -
  define t where "t = \<lparr>julian = 0, td_day = 0, td_month = 0, td_year = 0\<rparr>"
  obtain d m y d' m' y' where x: "x = (d, m, y)" "x' = (d', m', y')" by (cases x; cases x')
  have "t\<lparr>td_day := d, td_month := m, td_year := y\<rparr> = t\<lparr>td_day := d', td_month := m', td_year := y'\<rparr>"
    using assms fromJulian_toJulian [of d m y t] fromJulian_toJulian [of d' m' y' t] by (simp add: x jdn_def)
  then show ?thesis by (simp add: x t_def)
qed

lemma jdn_pos: "is_date x \<Longrightarrow> 0 < jdn x"
proof -
  assume a: "is_date x"
  obtain d m y where x: "x = (d, m, y)" by (cases x)
  obtain m' y' where my: "march m y = (m', y')" by (cases "march m y")
  have "0 \<le> (146097 * (y' div 100)) div 4" "0 \<le> (1461 * (y' mod 100)) div 4" "0 \<le> (153 * m' + 2) div 5"
    using march_bounds(1,5) [OF a [unfolded x] my] by (simp_all add: pos_imp_zdiv_nonneg_iff)
  then have "0 < 1721119 + d + (146097 * (y' div 100)) div 4 + (1461 * (y' mod 100)) div 4 + (153 * m' + 2) div 5"
    using march_bounds(3) [OF a [unfolded x] my] by linarith
  then show ?thesis
    unfolding jdn_def x prod.case toJulian_march [OF my march_bounds(1,5) [OF a [unfolded x] my]] .
qed

text \<open>Every number from the first date on belongs to a date.\<close>

lemma succ_iterate:
  assumes "is_date x"
  shows "is_date ((succ_date ^^ n) x)" and "jdn ((succ_date ^^ n) x) = jdn x + int n"
  by (induction n) (simp_all add: assms succ_is_date jdn_succ)

lemma first_date: "is_date (14, 9, 1752)" "jdn (14, 9, 1752) = FIRST_DAY"
  by (simp_all add: is_date_def days_of_def jdn_def toJulian_late FIRST_DAY_def)

section \<open>Dates as objects\<close>

definition date_of :: "time_date \<Rightarrow> int \<times> int \<times> int" where
  "date_of t = (td_day t, td_month t, td_year t)"

text \<open>The invariant of the cache: the number is unset or that of the fields.\<close>

definition cache_ok :: "time_date \<Rightarrow> bool" where
  "cache_ok t \<longleftrightarrow> julian t = 0 \<or> julian t = jdn (date_of t)"

lemma getJulian_jdn: "cache_ok t \<Longrightarrow> fst (getJulian t) = jdn (date_of t)"
  by (auto simp: getJulian_def cache_ok_def jdn_def date_of_def Let_def)

lemma fromJulian_fields:
  "julian (fromJulian j t) = julian t" "date_of (fromJulian j t) = date_of (fromJulian j t')"
  by (simp_all add: fromJulian_def date_of_def Let_def)

lemma fromJulian_jdn: "is_date x \<Longrightarrow> date_of (fromJulian (jdn x) t) = x"
  by (cases x) (simp add: jdn_def fromJulian_toJulian date_of_def)

lemma date_of_number:
  assumes "FIRST_DAY \<le> j"
  shows "\<exists>x. is_date x \<and> jdn x = j"
proof
  show "is_date ((succ_date ^^ nat (j - FIRST_DAY)) (14, 9, 1752)) \<and> jdn ((succ_date ^^ nat (j - FIRST_DAY)) (14, 9, 1752)) = j"
    using succ_iterate [OF first_date(1)] first_date(2) assms by simp
qed

lemma succ_of_number:
  assumes "is_date x" and "is_date x'" and "jdn x' = jdn x + int n"
  shows "x' = (succ_date ^^ n) x"
  using assms succ_iterate [OF assms(1), of n] by (intro jdn_inject) simp_all

text \<open>The order of the numbers is the order of year, month and day.\<close>

definition date_before :: "int \<times> int \<times> int \<Rightarrow> int \<times> int \<times> int \<Rightarrow> bool" where
  "date_before x x' \<longleftrightarrow> (case (x, x') of ((d, m, y), (d', m', y')) \<Rightarrow>
     y < y' \<or> y = y' \<and> (m < m' \<or> m = m' \<and> d < d'))"

lemma date_before_succ: "is_date x \<Longrightarrow> date_before x (succ_date x)"
  by (cases x) (auto simp: date_before_def succ_date_def is_date_def)

lemma date_before_trans: "date_before x y \<Longrightarrow> date_before y z \<Longrightarrow> date_before x z"
  by (cases x; cases y; cases z) (auto simp: date_before_def)

lemma jdn_less_iff:
  assumes "is_date x" and "is_date x'"
  shows "jdn x < jdn x' \<longleftrightarrow> date_before x x'"
proof -
  have less: "date_before a b" if ab: "is_date a" "is_date b" "jdn a < jdn b" for a b
  proof -
    have "date_before a ((succ_date ^^ Suc n) a)" for n
    proof (induction n)
      case 0
      then show ?case using ab(1) by (simp add: date_before_succ)
    next
      case (Suc n)
      then show ?case
        using date_before_trans date_before_succ [OF succ_iterate(1) [OF ab(1), of "Suc n"]] by simp
    qed
    moreover obtain n where "jdn b = jdn a + int (Suc n)"
      using ab(3) by (metis zless_iff_Suc_zadd)
    ultimately show ?thesis
      using succ_of_number [OF ab(1,2)] by metis
  qed
  have "\<not> date_before x x'" if "jdn x' \<le> jdn x"
  proof (cases "jdn x = jdn x'")
    case True
    with assms show ?thesis using jdn_inject [OF assms] by (auto simp: date_before_def split: prod.splits)
  next
    case False
    with that less [OF assms(2,1)] have "date_before x' x" by simp
    then show ?thesis by (cases x; cases x') (auto simp: date_before_def)
  qed
  with less [OF assms] show ?thesis by (meson not_le)
qed

lemma valid_iff:
  "td_isValid t \<longleftrightarrow> is_date (date_of t) \<and> \<not> date_before (date_of t) (14, 9, 1752)"
proof -
  have "td_day t \<le> monthDays ! nat (td_month t) \<or> (td_day t = 29 \<and> td_month t = 2 \<and> leapYear (td_year t)) \<longleftrightarrow>
      td_day t \<le> days_of (td_month t) (td_year t)" if "1 \<le> td_month t" "td_month t \<le> 12"
  proof -
    have "td_month t \<in> {1, 2, 3, 4, 5, 6, 7, 8, 9, 10, 11, 12}"
      using that by simp presburger
    then show ?thesis
      by (elim insertE emptyE; auto simp: monthDays_def days_of_def)
  qed
  then show ?thesis
    by (auto simp: td_isValid_def is_date_def date_of_def date_before_def FIRST_YEAR_def)
qed

lemma month_wrap:
  fixes a :: int
  shows "0 \<le> a \<Longrightarrow> a < 12 \<Longrightarrow> a mod 12 = a \<and> a div 12 = 0"
    and "-12 \<le> a \<Longrightarrow> a < 0 \<Longrightarrow> a mod 12 = a + 12 \<and> a div 12 = -1"
    and "12 \<le> a \<Longrightarrow> a < 24 \<Longrightarrow> a mod 12 = a - 12 \<and> a div 12 = 1"
  by presburger+

lemma add_months_value:
  assumes "0 \<le> m" "m \<le> 12" "m = 0 \<Longrightarrow> 0 < n \<and> n < 12"
  shows "add_months m y n = ((m - 1 + n) mod 12 + 1, y + (m - 1 + n) div 12)"
  using assms
proof (induction m y n rule: add_months.induct)
  case (1 m y n)
  note unfold = add_months.simps [of m y n]
  define a where "a = m - 1 + n"
  consider "n = 0" | "n < 0" "n + 12 \<le> 0" | "n < 0" "\<not> n + 12 \<le> 0" | "0 < n" "n - 12 \<ge> 0"
    | "0 < n" "n < 12" "m = 12" | "0 < n" "n < 12" "m \<noteq> 12"
    by linarith
  then show ?case
  proof cases
    case 2
    then have "add_months m y n = add_months m (y - 1) (n + 12)" by (simp add: unfold)
    also have "\<dots> = ((m - 1 + (n + 12)) mod 12 + 1, y - 1 + (m - 1 + (n + 12)) div 12)"
      using 1 2 by auto
    also have "m - 1 + (n + 12) = a + 12" by (simp add: a_def)
    finally show ?thesis unfolding a_def [symmetric] by simp
  next
    case 3
    have "add_months (m + n) y 0 = (m + n, y)" "add_months (m + n + 12) (y - 1) 0 = (m + n + 12, y - 1)"
      by (simp_all add: add_months.simps)
    with 1 3 month_wrap(1,2) [of a] show ?thesis
      unfolding a_def [symmetric] by (cases "m + n \<le> 0") (simp_all add: unfold Let_def, simp_all add: a_def)
  next
    case 4
    then have "add_months m y n = add_months m (y + 1) (n - 12)" by (simp add: unfold)
    also have "\<dots> = ((m - 1 + (n - 12)) mod 12 + 1, y + 1 + (m - 1 + (n - 12)) div 12)"
      using 1 4 by (cases "m = 0") auto
    also have "m - 1 + (n - 12) = a - 12" by (simp add: a_def)
    finally show ?thesis unfolding a_def [symmetric] by (simp add: minus_mod_self2)
  next
    case 5
    then have "add_months m y n = add_months 0 (y + 1) n" unfolding unfold by simp
    also have "\<dots> = ((0 - 1 + n) mod 12 + 1, y + 1 + (0 - 1 + n) div 12)"
      using 1 5 by auto
    finally show ?thesis using 5 month_wrap(1) [of "n - 1"] month_wrap(3) [of a] by (simp add: a_def)
  next
    case 6
    have "add_months (m + n) y 0 = (m + n, y)" "add_months (m + n - 12) (y + 1) 0 = (m + n - 12, y + 1)"
      by (simp_all add: add_months.simps)
    with 1 6 month_wrap(1,3) [of a] show ?thesis
      unfolding a_def [symmetric] by (cases "m + n > 12") (simp_all add: unfold Let_def, simp_all add: a_def)
  next
    case 1
    then have "m \<noteq> 0" using "1.prems"(3) by auto
    then have "(m - 1) mod 12 = m - 1 \<and> (m - 1) div 12 = 0"
      using "1.prems" by (intro month_wrap(1)) simp_all
    moreover have "add_months m y n = (m, y)" unfolding unfold using \<open>n = 0\<close> by simp
    ultimately show ?thesis using \<open>n = 0\<close> by simp
  qed
qed

lemma days_in_month:
  assumes "1 \<le> m" "m \<le> 12"
  shows "(if m = 2 \<and> leapYear y then Some 29 else month_days m) = Some (days_of m y)"
proof -
  have "m \<in> {1, 2, 3, 4, 5, 6, 7, 8, 9, 10, 11, 12}"
    using assms by simp presburger
  then show ?thesis
    by (elim insertE emptyE; simp add: month_days_def monthDays_def days_of_def)
qed

lemma days_of_bounds: "28 \<le> days_of m y" "days_of m y \<le> 31"
  by (simp_all add: days_of_def)

section \<open>Properties\<close>

text \<open>
  C11: the Julian day numbers count the days of the Gregorian calendar: a date and its number determine
  each other, the next date has the next number, and every number from 14 September 1752 on is the
  number of a date.
\<close>

theorem julian_counts_days:
  assumes "is_date x" and "FIRST_DAY \<le> j"
  shows "date_of (fromJulian (jdn x) t) = x \<and> jdn (succ_date x) = jdn x + 1 \<and>
    is_date (date_of (fromJulian j t)) \<and> jdn (date_of (fromJulian j t)) = j"
proof -
  obtain x' where "is_date x'" "jdn x' = j"
    using date_of_number [OF assms(2)] by blast
  with fromJulian_jdn [of x' t] fromJulian_jdn [OF assms(1), of t] jdn_succ [OF assms(1)] show ?thesis
    by auto
qed

definition no_date :: time_date where
  "no_date = \<lparr>julian = 0, td_day = 0, td_month = 0, td_year = 0\<rparr>"

theorem julian_counts_days_witness:
  "date_of (fromJulian (jdn (29, 2, 2000)) no_date) = (29, 2, 2000) \<and> jdn (1, 3, 2000) = jdn (29, 2, 2000) + 1"
proof -
  have x: "is_date (29, 2, 2000)" by (simp add: is_date_def days_of_def leapYear_iff)
  have j: "FIRST_DAY \<le> 2440588" by (simp add: FIRST_DAY_def)
  have "succ_date (29, 2, 2000) = (1, 3, 2000)" by (simp add: succ_date_def days_of_def leapYear_iff)
  with julian_counts_days [OF x j, of no_date] show ?thesis by simp
qed

text \<open>
  \<open>addDays\<close> moves a date by the given number of days, forwards along the calendar and backwards down
  to 14 September 1752, and keeps the cached number right.
\<close>

theorem addDays_calendar:
  assumes "cache_ok t" and "is_date (date_of t)" and "FIRST_DAY \<le> jdn (date_of t) + days"
  shows "is_date (date_of (addDays days t)) \<and> jdn (date_of (addDays days t)) = jdn (date_of t) + days \<and>
    cache_ok (addDays days t) \<and>
    (0 \<le> days \<longrightarrow> date_of (addDays days t) = (succ_date ^^ nat days) (date_of t))"
proof -
  let ?j = "jdn (date_of t) + days"
  have add: "addDays days t = fromJulian ?j (t\<lparr>julian := ?j\<rparr>)"
    by (simp add: addDays_def getJulian_jdn [OF assms(1)] Let_def)
  obtain x where x: "is_date x" "jdn x = ?j"
    using date_of_number [OF assms(3)] by blast
  have d: "date_of (addDays days t) = x"
    using fromJulian_jdn [OF x(1)] by (simp add: add x(2))
  have "julian (addDays days t) = ?j"
    unfolding add fromJulian_fields(1) by simp
  moreover have "x = (succ_date ^^ nat days) (date_of t)" if "0 \<le> days"
    using succ_of_number [OF assms(2) x(1), of "nat days"] x(2) that by simp
  ultimately show ?thesis
    using x by (simp add: d cache_ok_def)
qed

theorem addDays_calendar_witness:
  "date_of (addDays 2 (td_set 28 2 2011 no_date)) = (2, 3, 2011) \<and> cache_ok (addDays 2 (td_set 28 2 2011 no_date))"
proof -
  have d: "date_of (td_set 28 2 2011 no_date) = (28, 2, 2011)" and c: "cache_ok (td_set 28 2 2011 no_date)"
    by (simp_all add: td_set_def setYear_def no_date_def date_of_def cache_ok_def)
  have x: "is_date (28, 2, 2011)" by (simp add: is_date_def days_of_def)
  have j: "FIRST_DAY \<le> jdn (28, 2, 2011) + 2"
    using jdn_less_iff [OF x first_date(1)] first_date(2) by (simp add: date_before_def)
  have "(succ_date ^^ 2) (28, 2, 2011) = (2, 3, 2011)"
    by (simp add: succ_date_def days_of_def leapYear_iff numeral_2_eq_2)
  with addDays_calendar [OF c, of 2] x j show ?thesis by (simp add: d)
qed

text \<open>
  \<open>addMonths\<close> always ends; it moves the month by the given number, carries into the year, and moves a
  day that the new month does not have to its last day, so that a date stays a date.
\<close>

theorem addMonths_calendar:
  assumes "is_date (date_of t)" and "1 \<le> td_year t + (td_month t - 1 + n) div 12"
  shows "\<exists>t'. addMonths n t = Some t' \<and> is_date (date_of t') \<and>
    12 * td_year t' + td_month t' = 12 * td_year t + td_month t + n \<and>
    td_day t' = min (td_day t) (days_of (td_month t') (td_year t'))"
proof -
  define k where "k = td_month t - 1 + n"
  have m: "1 \<le> td_month t" "td_month t \<le> 12" and d: "1 \<le> td_day t"
    using assms(1) by (auto simp: is_date_def date_of_def)
  have am: "add_months (td_month t) (td_year t) n = (k mod 12 + 1, td_year t + k div 12)"
    using add_months_value [of "td_month t" n "td_year t"] m by (simp add: k_def)
  have k: "0 \<le> k mod 12" "k mod 12 \<le> 11" "12 * (k div 12) + k mod 12 = k"
    by simp_all
  have "addMonths n t = Some (t\<lparr>td_month := k mod 12 + 1, td_year := td_year t + k div 12,
      td_day := min (td_day t) (days_of (k mod 12 + 1) (td_year t + k div 12))\<rparr>)"
    using days_in_month [of "k mod 12 + 1" "td_year t + k div 12"] k(1,2) by (simp add: addMonths_def am min_def)
  then show ?thesis
    using assms(2) d k days_of_bounds(1) [of "k mod 12 + 1" "td_year t + k div 12"]
    by (simp add: is_date_def date_of_def k_def [symmetric]) (simp add: k_def)
qed

theorem addMonths_calendar_witness:
  "\<exists>t'. addMonths 13 (td_set 31 1 2011 no_date) = Some t' \<and> is_date (date_of t') \<and>
     12 * td_year t' + td_month t' = 12 * 2012 + 2 \<and> td_day t' = min 31 (days_of (td_month t') (td_year t'))"
proof -
  let ?t = "td_set 31 1 2011 no_date"
  have f: "td_year ?t = 2011" "td_month ?t = 1" "td_day ?t = 31"
    by (simp_all add: td_set_def setYear_def no_date_def)
  have "is_date (date_of ?t)" by (simp add: date_of_def f is_date_def days_of_def)
  from addMonths_calendar [OF this, of 13] show ?thesis by (simp add: f)
qed

text \<open>
  \<open>addMonths\<close> does not renew the cached number: once it has been computed, comparisons and differences
  use the number of the date before the change.
\<close>

theorem addMonths_stale_cache:
  assumes "cache_ok t" and "is_date (date_of t)" and "1 \<le> td_year t + (td_month t - 1 + n) div 12"
  shows "\<exists>t'. addMonths n (snd (getJulian t)) = Some t' \<and>
    jdn (date_of t') \<noteq> jdn (date_of t) = (date_of t' \<noteq> date_of t) \<and>
    fst (getJulian t') = jdn (date_of t)"
proof -
  let ?t = "snd (getJulian t)"
  have t: "julian ?t = jdn (date_of t)" "date_of ?t = date_of t"
    using assms(1) by (auto simp: getJulian_def cache_ok_def date_of_def jdn_def Let_def)
  then have f: "td_year ?t = td_year t" "td_month ?t = td_month t"
    by (simp_all add: date_of_def)
  obtain t' where t': "addMonths n ?t = Some t'" "is_date (date_of t')"
    using addMonths_calendar [of ?t n] assms(2,3) t(2) f by auto
  have "julian t' = jdn (date_of t)"
    using t'(1) unfolding t(1) [symmetric] by (auto simp: addMonths_def split: prod.splits if_splits)
  then have "fst (getJulian t') = jdn (date_of t)"
    using jdn_pos [OF assms(2)] by (simp add: getJulian_def)
  moreover have "jdn (date_of t') \<noteq> jdn (date_of t) = (date_of t' \<noteq> date_of t)"
    using jdn_inject [OF t'(2) assms(2)] by auto
  ultimately show ?thesis using t'(1) by blast
qed

theorem addMonths_stale_cache_witness:
  "\<exists>t'. addMonths 1 (snd (getJulian (td_set 15 1 2011 no_date))) = Some t' \<and>
     fst (getJulian t') = jdn (15, 1, 2011)"
proof -
  let ?t = "td_set 15 1 2011 no_date"
  have f: "td_year ?t = 2011" "td_month ?t = 1" "date_of ?t = (15, 1, 2011)" "cache_ok ?t"
    by (simp_all add: td_set_def setYear_def no_date_def date_of_def cache_ok_def)
  have "is_date (date_of ?t)" by (simp add: f is_date_def days_of_def)
  from addMonths_stale_cache [OF f(4) this, of 1] show ?thesis by (auto simp: f)
qed

inductive td_reach :: "time_date \<Rightarrow> bool" where
  set_date: "td_reach (td_set d m y t)"
| day_of_year: "FIRST_DAY \<le> toJulian 1 1 y - 1 + d \<Longrightarrow> td_reach (date_of_year d y)"
| from_time: "td_reach (fromTime localtime_r tim)"
| set_year: "td_reach t \<Longrightarrow> td_reach (setYear y t)"
| get_julian: "td_reach t \<Longrightarrow> td_reach (snd (getJulian t))"
| add_days: "td_reach t \<Longrightarrow> FIRST_DAY \<le> fst (getJulian t) + n \<Longrightarrow> td_reach (addDays n t)"
| add_years: "td_reach t \<Longrightarrow> td_reach (addYears n t)"

lemma fromJulian_cache:
  assumes "FIRST_DAY \<le> j" and "julian t = j"
  shows "cache_ok (fromJulian j t)"
proof -
  obtain x where "is_date x" "jdn x = j"
    using date_of_number [OF assms(1)] by blast
  with fromJulian_jdn [of x t] assms(2) show ?thesis
    by (simp add: cache_ok_def fromJulian_fields(1))
qed



text \<open>
  Comparing dates compares year, month and day, and \<open>isValid\<close> accepts exactly the dates of the
  calendar from 14 September 1752 on, which are those with a number of at least \<open>FIRST_DAY\<close>.
\<close>

theorem date_order_valid:
  assumes "cache_ok t" and "cache_ok u" and "is_date (date_of t)" and "is_date (date_of u)"
  shows "(date_less t u \<longleftrightarrow> date_before (date_of t) (date_of u)) \<and> (date_eq t u \<longleftrightarrow> date_of t = date_of u) \<and>
    (td_isValid t \<longleftrightarrow> FIRST_DAY \<le> jdn (date_of t)) \<and> daysTo t u = jdn (date_of u) - jdn (date_of t)"
  using jdn_less_iff [OF assms(3,4)] jdn_inject [OF assms(3,4)] jdn_less_iff [OF assms(3) first_date(1)] assms(3)
  by (auto simp: date_less_def date_eq_def daysTo_def getJulian_jdn assms(1,2) valid_iff first_date(2))

theorem date_order_valid_witness:
  "date_less (td_set 31 12 1999 no_date) (td_set 1 1 2000 no_date) \<and> td_isValid (td_set 1 1 2000 no_date)"
proof -
  let ?t = "td_set 31 12 1999 no_date" and ?u = "td_set 1 1 2000 no_date"
  have c: "cache_ok ?t" "cache_ok ?u" and d: "date_of ?t = (31, 12, 1999)" "date_of ?u = (1, 1, 2000)"
    by (simp_all add: td_set_def setYear_def no_date_def date_of_def cache_ok_def)
  have x: "is_date (date_of ?t)" "is_date (date_of ?u)" by (simp_all add: d is_date_def days_of_def)
  have "td_isValid ?u" unfolding valid_iff using x(2) by (simp add: date_before_def d)
  then show ?thesis
    using date_order_valid [OF c x] by (simp add: d date_before_def)
qed

text \<open>
  \<open>getDayOfWeek\<close> is a day from 0 to 6 that advances by one with every day, Thursday on 1 January 1970.
\<close>

theorem dayOfWeek_cycle:
  assumes "cache_ok t" and "cache_ok u" and "is_date (date_of t)" and "date_of u = succ_date (date_of t)"
  shows "0 \<le> getDayOfWeek t \<and> getDayOfWeek t < 7 \<and> getDayOfWeek u = (getDayOfWeek t + 1) mod 7 \<and>
    getDayOfWeek (fromTime f 0) = 4"
proof -
  have pos: "0 < jdn (date_of t)" "0 < jdn (date_of u)"
    using jdn_pos succ_is_date assms(3,4) by auto
  then have "getDayOfWeek t = (jdn (date_of t) + 1) mod 7" "getDayOfWeek u = (jdn (date_of u) + 1) mod 7"
    by (simp_all add: getDayOfWeek_def getJulian_jdn assms(1,2) smod_int_range signed_modulo_int_def sgn_if)
  moreover have "getDayOfWeek (fromTime f 0) = 4"
    by (simp add: getDayOfWeek_def fromTime_def getJulian_def signed_modulo_int_def)
  moreover have "jdn (date_of u) = jdn (date_of t) + 1"
    using jdn_succ [OF assms(3)] assms(4) by simp
  ultimately show ?thesis by (simp add: mod_simps)
qed

theorem dayOfWeek_cycle_witness:
  "getDayOfWeek (td_set 1 1 2000 no_date) = (getDayOfWeek (td_set 31 12 1999 no_date) + 1) mod 7"
proof -
  let ?t = "td_set 31 12 1999 no_date" and ?u = "td_set 1 1 2000 no_date"
  have c: "cache_ok ?t" "cache_ok ?u" and d: "date_of ?t = (31, 12, 1999)" "date_of ?u = (1, 1, 2000)"
    by (simp_all add: td_set_def setYear_def no_date_def date_of_def cache_ok_def)
  have x: "is_date (date_of ?t)" "date_of ?u = succ_date (date_of ?t)"
    by (simp_all add: d is_date_def days_of_def succ_date_def)
  show ?thesis using dayOfWeek_cycle [OF c x] by blast
qed

lemma new_year_number:
  assumes "1901 \<le> y" "y \<le> 2099"
  shows "jdn (1, 1, y) = 2415385 + (y - 1901) * 365 + (y - 1901) div 4 + 1"
proof -
  have j: "jdn (1, 1, y) = 1721119 + 1 + ((146097 * ((y - 1) div 100)) div 4 + (1461 * ((y - 1) mod 100)) div 4) + 306"
    using toJulian_early [of 1 y 1] assms by (simp add: jdn_def)
  show ?thesis
  proof (cases "y \<le> 2000")
    case True
    then have "(y - 1) div 100 = 19" "(y - 1) mod 100 = y - 1901"
      using assms by (simp_all add: int_div_pos_eq [of _ _ 19 "y - 1901"] int_mod_pos_eq [of _ _ 19 "y - 1901"])
    then show ?thesis unfolding j div4_simps by simp
  next
    case False
    then have "(y - 1) div 100 = 20" "(y - 1) mod 100 = y - 2001"
      using assms by (simp_all add: int_div_pos_eq [of _ _ 20 "y - 2001"] int_mod_pos_eq [of _ _ 20 "y - 2001"])
    moreover have "(y - 1901) div 4 = 25 + (y - 2001) div 4" by presburger
    ultimately show ?thesis unfolding j div4_simps by simp
  qed
qed

text \<open>
  From 1901 to 2099 \<open>getDayOfYear\<close> is the position of the date in its year, counted from one.
\<close>

theorem dayOfYear_position:
  assumes "cache_ok t" and "is_date (date_of t)" and "1901 \<le> td_year t" and "td_year t \<le> 2099"
  shows "getDayOfYear t = jdn (date_of t) - jdn (1, 1, td_year t) + 1"
  using assms(3) unfolding new_year_number [OF assms(3,4)]
  by (simp add: getDayOfYear_def getJulian_jdn [OF assms(1)] sdiv_pos Let_def)

theorem dayOfYear_position_witness:
  "getDayOfYear (td_set 31 12 2012 no_date) = 366"
proof -
  let ?t = "td_set 31 12 2012 no_date"
  have c: "cache_ok ?t" and d: "date_of ?t = (31, 12, 2012)" and y: "td_year ?t = 2012"
    by (simp_all add: td_set_def setYear_def no_date_def date_of_def cache_ok_def)
  have x: "is_date (date_of ?t)" by (simp add: d is_date_def days_of_def)
  have "jdn (31, 12, 2012) - jdn (1, 1, 2012) = 365" by (simp add: jdn_def toJulian_late toJulian_early)
  then show ?thesis using dayOfYear_position [OF c x] by (simp add: d y)
qed

text \<open>
  Outside this range the century years are counted as leap years: 1 January 2101 is day 0 of its year.
  \<open>addYears\<close> keeps 29 February in a year without one, with the number of 1 March; and the constructor
  from a day and a year counts from one, not from zero as its comment says.
\<close>

theorem date_defects:
  "getDayOfYear (td_set 1 1 2101 no_date) = 0"
  "\<not> is_date (date_of (addYears 1 (td_set 29 2 2008 no_date)))"
  "julian (addYears 1 (td_set 29 2 2008 no_date)) = jdn (1, 3, 2009)"
  "date_of (date_of_year 1 1901) = (1, 1, 1901)"
proof -
  show "getDayOfYear (td_set 1 1 2101 no_date) = 0"
    by (simp add: getDayOfYear_def td_set_def setYear_def no_date_def getJulian_def toJulian_early sdiv_pos Let_def)
  have a: "date_of (addYears 1 (td_set 29 2 2008 no_date)) = (29, 2, 2009)"
    "julian (addYears 1 (td_set 29 2 2008 no_date)) = toJulian 29 2 2009"
    by (simp_all add: addYears_def td_set_def setYear_def no_date_def date_of_def Let_def)
  show "\<not> is_date (date_of (addYears 1 (td_set 29 2 2008 no_date)))"
    by (simp add: a is_date_def days_of_def leapYear_iff)
  show "julian (addYears 1 (td_set 29 2 2008 no_date)) = jdn (1, 3, 2009)"
    by (simp add: a jdn_def toJulian_early toJulian_late)
  show "date_of (date_of_year 1 1901) = (1, 1, 1901)"
    using fromJulian_jdn [of "(1, 1, 1901)"] by (simp add: date_of_year_def jdn_def is_date_def days_of_def Let_def)
qed

text \<open>
  For the dates from 1752 to 8000 every intermediate value of \<open>toJulian\<close> fits a 32-bit integer, so the
  conversion does not overflow.
\<close>

theorem toJulian_no_overflow:
  assumes "1 \<le> d" "d \<le> 31" "1 \<le> m" "m \<le> 12" "1752 \<le> y" "y \<le> 8000" and "march m y = (m', y')"
  shows "146097 * (y' sdiv 100) < 2 ^ 31 \<and> 0 \<le> y' - y' sdiv 100 * 100 \<and> 1461 * (y' - y' sdiv 100 * 100) < 2 ^ 31 \<and>
    153 * m' + 2 < 2 ^ 31 \<and> 0 < toJulian d m y \<and> toJulian d m y < 2 ^ 31"
proof -
  have b: "0 \<le> m'" "m' \<le> 11" "1751 \<le> y'" "y' \<le> 8000"
    using assms by (auto simp: march_def split: if_splits)
  have c: "0 \<le> y' div 100" "y' div 100 \<le> 80"
    using b(3,4) zdiv_mono1 [of y' 8000 100] by simp_all
  have r: "y' - y' div 100 * 100 = y' mod 100" "0 \<le> y' mod 100" "y' mod 100 \<le> 99"
    by (simp_all add: minus_div_mult_eq_mod)
  have q: "0 \<le> a div k \<and> a div k \<le> b div k" if "0 \<le> a" "a \<le> b" "0 < k" for a b k :: int
    using that by (simp add: pos_imp_zdiv_nonneg_iff zdiv_mono1)
  have "0 \<le> (146097 * (y' div 100)) div 4 \<and> (146097 * (y' div 100)) div 4 \<le> 11687760 div 4"
    using c by (intro q) linarith+
  moreover have "0 \<le> (1461 * (y' mod 100)) div 4 \<and> (1461 * (y' mod 100)) div 4 \<le> 144639 div 4"
    using r(2,3) by (intro q) linarith+
  moreover have "0 \<le> (153 * m' + 2) div 5 \<and> (153 * m' + 2) div 5 \<le> 1685 div 5"
    using b(1,2) by (intro q) linarith+
  moreover have "0 < 1721119 + d + P + Q + R \<and> 1721119 + d + P + Q + R < 2 ^ 31"
    if "0 \<le> P \<and> P \<le> 11687760 div 4" "0 \<le> Q \<and> Q \<le> 144639 div 4" "0 \<le> R \<and> R \<le> 1685 div 5" for P Q R :: int
    using that assms(1,2) by simp
  moreover have "0 \<le> y'" using b(3) by simp
  ultimately have "0 < toJulian d m y \<and> toJulian d m y < 2 ^ 31"
    unfolding toJulian_march [OF assms(7) b(1) \<open>0 \<le> y'\<close>] by blast
  moreover have "y' sdiv 100 = y' div 100"
    using b(3) by (simp add: sdiv_pos)
  ultimately show ?thesis
    using c r b by simp
qed

theorem toJulian_no_overflow_witness:
  "toJulian 31 12 8000 < 2 ^ 31"
  using toJulian_no_overflow [of 31 12 8000 9 8000] by (simp add: march_def)

end
