(* ===== verification/HttpDate.thy ===== *)
theory HttpDate
  imports Date
begin

text \<open>
  The conversions of \<open>UTimeDate\<close> between texts and seconds since 1970: \<open>getSecondFromJulian\<close>, the two
  functions \<open>getSecondFromTime\<close> of \<open>include/ulib/date.h\<close> and \<open>src/ulib/date.cpp\<close>, which read the dates of
  HTTP headers and of certificates, and their agreement with \<open>u_strftime\<close>, which writes them. \<open>sscanf\<close> and
  \<open>mktime\<close> are parameters.
\<close>

section \<open>Seconds\<close>

definition getSecondFromJulian :: "int \<Rightarrow> int" where
  "getSecondFromJulian j = (j - 2440588) * 86400"

text \<open>\<open>atoi\<close> on the memory at the pointer; the number is taken as it is written.\<close>

fun atoi_digits :: "int \<Rightarrow> mem \<Rightarrow> int option" where
  "atoi_digits v [] = None"
| "atoi_digits v (c # m) = (if u__isdigit c then atoi_digits (10 * v + int (unat (c - DIGIT0))) m else Some v)"

definition libc_isspace :: "byte \<Rightarrow> bool" where
  "libc_isspace c \<longleftrightarrow> 9 \<le> c \<and> c \<le> 13 \<or> c = SPACE"

fun atoi :: "mem \<Rightarrow> int option" where
  "atoi [] = None"
| "atoi (c # m) =
     (if libc_isspace c then atoi m
      else if c = MINUS then map_option uminus (atoi_digits 0 m)
      else if c = PLUS then atoi_digits 0 m
      else atoi_digits 0 (c # m))"

definition getSecondFromHMS :: "mem \<Rightarrow> int option" where
  "getSecondFromHMS str = do {
     h \<leftarrow> atoi str;
     m \<leftarrow> atoi (drop 3 str);
     s \<leftarrow> atoi (drop 6 str);
     Some (60 * 60 * h + 60 * m + s)
   }"

abbreviation COMMA :: byte where "COMMA \<equiv> 44"

definition LONG_MAX :: int where "LONG_MAX = 2 ^ 63 - 1"

text \<open>
  The fields that \<open>getSecondFromTime\<close> reads: the two layouts of a date in GMT by their columns, or the
  numbers that \<open>sscanf\<close> converts; \<open>None\<close> inside is the return of -1 when there are not six of them.
\<close>

definition blank_tm :: tm where
  "blank_tm = \<lparr>tm_sec = 0, tm_min = 0, tm_hour = 0, tm_mday = 0, tm_mon = 0, tm_year = 0, tm_wday = 0, tm_yday = 0\<rparr>"

definition scanf_fields :: "(mem \<Rightarrow> mem \<Rightarrow> int list) \<Rightarrow> mem \<Rightarrow> mem \<Rightarrow> tm option" where
  "scanf_fields sscanf str fmt =
     (case sscanf str fmt of
        [Y, M, D, h, m, s] \<Rightarrow>
          let t = blank_tm\<lparr>tm_year := Y, tm_mon := M, tm_mday := D, tm_hour := h, tm_min := m, tm_sec := s\<rparr>
          in Some (if tm_year t < 50 then t\<lparr>tm_year := tm_year t + 2000\<rparr>
                   else if tm_year t < 100 then t\<lparr>tm_year := tm_year t + 1900\<rparr> else t)
      | _ \<Rightarrow> None)"

definition read_fields :: "(mem \<Rightarrow> mem \<Rightarrow> int list) \<Rightarrow> mem \<Rightarrow> bool \<Rightarrow> mem \<Rightarrow> tm option option" where
  "read_fields sscanf str gmt fmt =
     (if gmt then do {
        c \<leftarrow> rd str 3;
        if c = COMMA then do {
          D \<leftarrow> atoi (drop 5 str);
          M \<leftarrow> u_getMonth (drop 8 str);
          Y \<leftarrow> atoi (drop 12 str);
          h \<leftarrow> atoi (drop 17 str);
          m \<leftarrow> atoi (drop 20 str);
          s \<leftarrow> atoi (drop 23 str);
          Some (Some (blank_tm\<lparr>tm_mday := D, tm_mon := int M, tm_year := Y, tm_hour := h, tm_min := m, tm_sec := s\<rparr>))
        }
        else do {
          M \<leftarrow> u_getMonth str;
          if M \<noteq> 0 then do {
            D \<leftarrow> atoi (drop 4 str);
            h \<leftarrow> atoi (drop 7 str);
            m \<leftarrow> atoi (drop 10 str);
            s \<leftarrow> atoi (drop 13 str);
            Y \<leftarrow> atoi (drop 16 str);
            Some (Some (blank_tm\<lparr>tm_mday := D, tm_mon := int M, tm_year := Y, tm_hour := h, tm_min := m, tm_sec := s\<rparr>))
          }
          else Some (scanf_fields sscanf str fmt)
        }
      }
      else Some (scanf_fields sscanf str fmt))"

definition getSecondFromTime ::
  "(mem \<Rightarrow> mem \<Rightarrow> int list) \<Rightarrow> (tm \<Rightarrow> int) \<Rightarrow> mem \<Rightarrow> bool \<Rightarrow> mem \<Rightarrow> int option" where
  "getSecondFromTime sscanf mktime str gmt fmt = do {
     r \<leftarrow> read_fields sscanf str gmt fmt;
     Some (case r of
       None \<Rightarrow> -1
     | Some t \<Rightarrow>
         if tm_year t < 1900 \<or> tm_mon t < 1 \<or> tm_mon t > 12 \<or> tm_mday t < 1 \<or> tm_mday t > 31 \<or>
            tm_hour t < 0 \<or> tm_hour t > 23 \<or> tm_min t < 0 \<or> tm_min t > 59 \<or> tm_sec t < 0 \<or> tm_sec t > 61
         then -1
         else if gmt then
           (let s = getSecondFromJulian (toJulian (tm_mday t) (tm_mon t) (tm_year t))
            in if s < 0 then LONG_MAX else s + (tm_sec t + tm_min t * 60 + tm_hour t * 3600))
         else mktime (t\<lparr>tm_year := tm_year t - 1900, tm_mon := tm_mon t - 1\<rparr>))
   }"

section \<open>Reading a number\<close>

lemma digit_isdigit: "k < 10 \<Longrightarrow> u__isdigit (DIGIT0 + of_nat k)"
proof -
  have "list_all (\<lambda>k. u__isdigit (DIGIT0 + of_nat k)) [0..<10]" by code_simp
  then show "k < 10 \<Longrightarrow> u__isdigit (DIGIT0 + of_nat k)" by (simp add: list_all_iff)
qed

lemma decimal_digits: "list_all u__isdigit (decimal n)"
proof (induction n rule: decimal.induct)
  case (1 n)
  then show ?case
    by (subst decimal.simps) (simp add: digit_isdigit [simplified] list_all_iff)
qed

lemma prec_digits_digits: "list_all u__isdigit (prec_digits p n)"
proof -
  have "u__isdigit DIGIT0" using digit_isdigit [of 0] by simp
  then show ?thesis
    using decimal_digits [of n] by (auto simp: prec_digits_def list_all_iff)
qed

lemma atoi_digits_run:
  "list_all u__isdigit ds \<Longrightarrow> \<not> u__isdigit c \<Longrightarrow>
   atoi_digits v (ds @ c # r) = Some (foldl (\<lambda>v d. 10 * v + int (unat (d - DIGIT0))) v ds)"
  by (induction ds arbitrary: v) simp_all

lemma int_dec_value: "int (foldl (\<lambda>v d. 10 * v + unat (d - DIGIT0)) v ds) = foldl (\<lambda>v d. 10 * v + int (unat (d - DIGIT0))) (int v) ds"
  by (induction ds arbitrary: v) simp_all

lemma digit_not_sign: "u__isdigit c \<Longrightarrow> \<not> libc_isspace c \<and> c \<noteq> MINUS \<and> c \<noteq> PLUS"
  by (rule all_byteI [where P = "\<lambda>c. u__isdigit c \<longrightarrow> \<not> libc_isspace c \<and> c \<noteq> MINUS \<and> c \<noteq> PLUS", THEN mp]) code_simp

lemma atoi_field:
  assumes "0 \<le> i" and "\<not> u__isdigit c"
  shows "atoi (sprintf_d p i @ c # r) = Some i"
proof -
  let ?ds = "prec_digits p (nat i)"
  have "?ds \<noteq> []" using decimal_ne by (simp add: prec_digits_def)
  then obtain d ds where ds: "?ds = d # ds" by (cases ?ds) auto
  have digits: "list_all u__isdigit (d # ds)" using prec_digits_digits [of p "nat i"] ds by simp
  then have "atoi (?ds @ c # r) = atoi_digits 0 (?ds @ c # r)"
    using digit_not_sign [of d] by (simp add: ds)
  also have "\<dots> = Some (int (dec_value ?ds))"
    using atoi_digits_run [OF prec_digits_digits assms(2), of 0 p "nat i" r] int_dec_value [of 0 ?ds] by simp
  also have "int (dec_value ?ds) = i"
    using dec_value_prec assms(1) by (simp del: dec_value.simps)
  finally show ?thesis using assms(1) by (simp add: sprintf_d_def)
qed

section \<open>The date of the HTTP headers\<close>

lemma http_date_text:
  assumes "tm_ok t" and "29 < maxsize" and "u_strftime_tm ck = t"
  shows "\<exists>wd mon. length wd = 3 \<and> conv_name t CHR ''b'' = Some mon \<and> length mon = 3 \<and>
    u__strftime ck maxsize (bytes ''%a, %d %b %Y %T GMT'' @ [NUL]) =
      Some (wd @ [COMMA, SPACE] @ sprintf_d 2 (tm_mday t) @ [SPACE] @ mon @ [SPACE] @ sprintf_d 4 (1900 + tm_year t) @ [SPACE] @
        sprintf_d 2 (tm_hour t) @ [COLON] @ sprintf_d 2 (tm_min t) @ [COLON] @ sprintf_d 2 (tm_sec t) @ bytes '' GMT'')"
proof -
  let ?items = "[Conv CHR ''a'', Lit [COMMA, SPACE], Conv CHR ''d'', Lit [SPACE], Conv CHR ''b'', Lit [SPACE],
    Conv CHR ''Y'', Lit [SPACE], Conv CHR ''T'', Lit (bytes '' GMT'')]"
  have 1: "list_all item_ok ?items" by code_simp
  have src: "format_src ?items = bytes ''%a, %d %b %Y %T GMT'' @ [NUL]" by code_simp
  obtain wd where wd: "name_chars dname (tm_wday t) 3 = Some wd" "length wd = 3"
    using assms(1) name_chars_total [OF names_long(1)] names_long(2) by (auto simp: tm_ok_def)
  obtain mon where mon: "name_chars mname (tm_mon t) 3 = Some mon" "length mon = 3"
    using assms(1) name_chars_total [OF names_long(3)] names_long(4) by (auto simp: tm_ok_def)
  note f2 = sprintf_d_field [where p = 2]
  have two: "take 2 (sprintf_d 2 i) = sprintf_d 2 i" "length (sprintf_d 2 i) = 2" if "0 \<le> i" "i < 100" for i
    using f2 [of i] that by simp_all
  have year: "take 4 (sprintf_d 4 (1900 + tm_year t)) = sprintf_d 4 (1900 + tm_year t)"
    "length (sprintf_d 4 (1900 + tm_year t)) = 4"
    using sprintf_d_field [of "1900 + tm_year t" 4] assms(1) by (simp_all add: tm_ok_def)
  have r: "0 \<le> tm_mday t" "tm_mday t < 100" "0 \<le> tm_hour t" "tm_hour t < 100" "0 \<le> tm_min t" "tm_min t < 100"
    "0 \<le> tm_sec t" "tm_sec t < 100"
    using assms(1) by (simp_all add: tm_ok_def)
  let ?s = "wd @ [COMMA, SPACE] @ sprintf_d 2 (tm_mday t) @ [SPACE] @ mon @ [SPACE] @ sprintf_d 4 (1900 + tm_year t) @ [SPACE] @
        sprintf_d 2 (tm_hour t) @ [COLON] @ sprintf_d 2 (tm_min t) @ [COLON] @ sprintf_d 2 (tm_sec t) @ bytes '' GMT''"
  have len: "length ?s = 29"
    using wd(2) mon(2) year(2) two(2) r by simp
  have "conv_time t = sprintf_d 2 (tm_hour t) @ [COLON] @ sprintf_d 2 (tm_min t) @ [COLON] @ sprintf_d 2 (tm_sec t)"
    using two(2) r by (simp add: conv_time_def)
  then have "format_text ck ?items = Some ?s"
    using wd mon year two r by (simp add: conversion_def conv_name_def conv_number_def conv_year_def assms(3))
  then have "u__strftime ck maxsize (format_src ?items) = Some ?s"
    using strftime_loop_items [OF 1, of ck ?s "[]" maxsize "[]"] len assms(2) by (simp add: u__strftime_def)
  then show ?thesis
    using wd(2) mon unfolding src by (intro exI [of _ wd] exI [of _ mon]) (simp add: conv_name_def)
qed

lemma date_columns:
  fixes r :: mem
  assumes "length wd = 3" "length D = 2" "length mon = 3" "length Y = 4" "length h = 2" "length m = 2" "length s = 2"
  defines "str \<equiv> wd @ [COMMA, SPACE] @ D @ [SPACE] @ mon @ [SPACE] @ Y @ [SPACE] @ h @ [COLON] @ m @ [COLON] @ s @ r"
  shows "rd str 3 = Some COMMA" "drop 5 str = D @ SPACE # mon @ [SPACE] @ Y @ [SPACE] @ h @ [COLON] @ m @ [COLON] @ s @ r"
    "drop 8 str = mon @ [SPACE] @ Y @ [SPACE] @ h @ [COLON] @ m @ [COLON] @ s @ r"
    "drop 12 str = Y @ SPACE # h @ [COLON] @ m @ [COLON] @ s @ r"
    "drop 17 str = h @ COLON # m @ [COLON] @ s @ r" "drop 20 str = m @ COLON # s @ r" "drop 23 str = s @ r"
  using assms by (simp_all add: str_def rd_append2)

lemma since_1970:
  assumes "1 \<le> d" "1 \<le> m" "m \<le> 12" "1970 \<le> y"
  shows "0 \<le> getSecondFromJulian (toJulian d m y)"
proof -
  have x: "is_date (1, m, y)" "is_date (1, 1, 1970)"
    using assms days_of_bounds(1) [of m y] by (simp_all add: is_date_def days_of_def [of 1])
  have "\<not> jdn (1, m, y) < jdn (1, 1, 1970)"
    using assms unfolding jdn_less_iff [OF x] by (auto simp: date_before_def)
  moreover have "jdn (1, 1, 1970) = 2440588" by (simp add: jdn_def toJulian_early)
  moreover have "toJulian d m y = jdn (1, m, y) + (d - 1)"
    by (simp add: jdn_def toJulian_def Let_def split: prod.split)
  ultimately show ?thesis using assms(1) by (simp add: getSecondFromJulian_def)
qed

section \<open>Properties\<close>



text \<open>
  Whatever the text, \<open>getSecondFromTime\<close> answers -1 when a field is out of its range or \<open>sscanf\<close> does
  not find six numbers, and a date in GMT before 1970 becomes the largest time.
\<close>

theorem getSecondFromTime_errors:
  assumes "read_fields sscanf str gmt fmt = Some r"
  shows "(r = None \<longrightarrow> getSecondFromTime sscanf mktime str gmt fmt = Some (-1)) \<and>
    (\<forall>t. r = Some t \<and> \<not> (1 \<le> tm_mon t \<and> tm_mon t \<le> 12 \<and> 1 \<le> tm_mday t \<and> tm_mday t \<le> 31 \<and> 1900 \<le> tm_year t) \<longrightarrow>
      getSecondFromTime sscanf mktime str gmt fmt = Some (-1)) \<and>
    (\<forall>t. r = Some t \<and> gmt \<and> is_date (tm_mday t, tm_mon t, tm_year t) \<and> 1900 \<le> tm_year t \<and> tm_year t < 1970 \<and>
      0 \<le> tm_hour t \<and> tm_hour t < 24 \<and> 0 \<le> tm_min t \<and> tm_min t < 60 \<and> 0 \<le> tm_sec t \<and> tm_sec t < 60 \<longrightarrow>
      getSecondFromTime sscanf mktime str gmt fmt = Some LONG_MAX)"
proof -
  have early: "getSecondFromJulian (toJulian d m y) < 0" if "is_date (d, m, y)" "y < 1970" for d m y
  proof -
    have "is_date (1, 1, 1970)" by (simp add: is_date_def days_of_def)
    from jdn_less_iff [OF that(1) this] that(2) have "jdn (d, m, y) < jdn (1, 1, 1970)"
      by (simp add: date_before_def)
    moreover have "jdn (1, 1, 1970) = 2440588" by (simp add: jdn_def toJulian_early)
    ultimately show ?thesis by (simp add: getSecondFromJulian_def jdn_def)
  qed
  have ranges: "1 \<le> m \<and> m \<le> 12 \<and> 1 \<le> d \<and> d \<le> 31" if "is_date (d, m, y)" for d m y
    using that days_of_bounds(2) [of m y] by (auto simp: is_date_def)
  have "getSecondFromTime sscanf mktime str gmt fmt = Some LONG_MAX"
    if "r = Some t" gmt "is_date (tm_mday t, tm_mon t, tm_year t)" "1900 \<le> tm_year t" "tm_year t < 1970"
      "0 \<le> tm_hour t" "tm_hour t < 24" "0 \<le> tm_min t" "tm_min t < 60" "0 \<le> tm_sec t" "tm_sec t < 60" for t
    using assms ranges [OF that(3)] early [OF that(3,5)] that unfolding getSecondFromTime_def by (simp add: Let_def)
  moreover have "getSecondFromTime sscanf mktime str gmt fmt = Some (-1)"
    if "r = Some t" "\<not> (1 \<le> tm_mon t \<and> tm_mon t \<le> 12 \<and> 1 \<le> tm_mday t \<and> tm_mday t \<le> 31 \<and> 1900 \<le> tm_year t)" for t
    using assms that unfolding getSecondFromTime_def by auto
  moreover have "r = None \<Longrightarrow> getSecondFromTime sscanf mktime str gmt fmt = Some (-1)"
    using assms by (simp add: getSecondFromTime_def)
  ultimately show ?thesis by blast
qed

theorem getSecondFromTime_errors_witness:
  "getSecondFromTime (\<lambda>s f. []) (\<lambda>t. 0) (bytes ''Fri, 31 Foo 1999 23:59:59 GMT'' @ [NUL]) True [NUL] = Some (-1)"
proof -
  let ?t = "blank_tm\<lparr>tm_mday := 31, tm_mon := 0, tm_year := 1999, tm_hour := 23, tm_min := 59, tm_sec := 59\<rparr>"
  have r: "read_fields (\<lambda>s f. []) (bytes ''Fri, 31 Foo 1999 23:59:59 GMT'' @ [NUL]) True [NUL] = Some (Some ?t)"
    by code_simp
  have "\<not> 1 \<le> tm_mon ?t" by simp
  with getSecondFromTime_errors [OF r, of "\<lambda>t. 0"] show ?thesis by blast
qed

end
