(* ===== verification/HashMap.thy ===== *)
theory HashMap
  imports Hash
begin

text \<open>
  The hash map of the library: \<open>UHashMapNode\<close>, \<open>UHashMap<void*>\<close>, \<open>UHashMap<T*>\<close> and the part of
  \<open>UHashMap<UString>\<close> that changes the table, of \<open>include/ulib/container/hash_map.h\<close> and
  \<open>src/ulib/container/hash_map.cpp\<close>, with the comparisons of \<open>UStringRep\<close> they call.

  A chain of nodes is a list, the \<open>next\<close> pointers being its order. The pointer \<open>node\<close> of the object is
  \<open>Null\<close>, the position in the chain \<open>table[index]\<close>, or \<open>Freed\<close> after \<open>delete\<close>. An operation that reads
  through a null or freed pointer, outside the table, or divides by a capacity of zero is \<open>None\<close>. The
  elements are plain values: their construction and destruction (reference counts) are not part of the
  model. The allocator is the one of a build without \<open>ENABLE_MEMPOOL\<close>, which hands out the number of
  entries asked for. \<open>gperf\<close> and the seed of the hash function are static members, the fields of
  \<open>hash_env\<close>.
\<close>

section \<open>Keys\<close>

text \<open>
  \<open>strncasecmp(a, b, n) == 0\<close> for two strings of \<open>n\<close> characters: the comparison stops after a common
  null character.
\<close>

fun strncase_eq :: "byte list \<Rightarrow> byte list \<Rightarrow> bool" where
  "strncase_eq (x # a) (y # b) \<longleftrightarrow> u__tolower x = u__tolower y \<and> (x = 0 \<or> strncase_eq a b)"
| "strncase_eq a b \<longleftrightarrow> True"

definition rep_equal :: "byte list \<Rightarrow> byte list \<Rightarrow> bool \<Rightarrow> bool" where
  "rep_equal str s ic \<longleftrightarrow> length str = length s \<and> (if ic then strncase_eq str s else str = s)"

section \<open>State\<close>

record 'e hash_node =
  n_elem :: 'e
  n_key :: "byte list"
  n_hash :: u32

datatype node_ptr = Null | At nat | Freed

record hash_env =
  gperf :: "(byte list \<Rightarrow> u32) option"
  seed_hash :: u32

record 'e hash_map =
  h_table :: "'e hash_node list list"
  h_length :: nat
  h_space :: nat
  h_index :: nat
  h_hash :: u32
  h_node :: node_ptr
  h_ignore_case :: bool

abbreviation h_capacity :: "'e hash_map \<Rightarrow> nat" where
  "h_capacity m \<equiv> length (h_table m)"

definition hm_new :: "bool \<Rightarrow> 'e hash_map" where
  "hm_new ic = \<lparr>h_table = [], h_length = 0, h_space = 0, h_index = 0, h_hash = 0, h_node = Null,
     h_ignore_case = ic\<rparr>"

definition hm_allocate :: "nat \<Rightarrow> 'e hash_map \<Rightarrow> 'e hash_map" where
  "hm_allocate n m = m\<lparr>h_table := replicate n []\<rparr>"

definition hm_deallocate :: "'e hash_map \<Rightarrow> 'e hash_map" where
  "hm_deallocate m = m\<lparr>h_table := []\<rparr>"

section \<open>Search\<close>

fun chain_search :: "byte list \<Rightarrow> bool \<Rightarrow> 'e hash_node list \<Rightarrow> nat \<Rightarrow> node_ptr" where
  "chain_search keyr ic [] p = Null"
| "chain_search keyr ic (n # chain) p =
     (if rep_equal (n_key n) keyr ic then At p else chain_search keyr ic chain (Suc p))"

definition lookup :: "hash_env \<Rightarrow> byte list \<Rightarrow> 'e hash_map \<Rightarrow> 'e hash_map option" where
  "lookup env keyr m = do {
     m \<leftarrow> (case gperf env of
         Some g \<Rightarrow> Some (m\<lparr>h_index := unat (g keyr)\<rparr>)
       | None \<Rightarrow>
           if h_capacity m = 0 then None
           else (let h = u_hash (seed_hash env) keyr (h_ignore_case m)
                 in Some (m\<lparr>h_hash := h, h_index := unat h mod h_capacity m\<rparr>)));
     if h_index m < h_capacity m
     then Some (m\<lparr>h_node := chain_search keyr (h_ignore_case m) (h_table m ! h_index m) 0\<rparr>)
     else None
   }"

text \<open>The node that the object points at.\<close>

definition deref :: "'e hash_map \<Rightarrow> 'e hash_node option" where
  "deref m = (case h_node m of
       At p \<Rightarrow> if h_index m < h_capacity m \<and> p < length (h_table m ! h_index m)
               then Some (h_table m ! h_index m ! p) else None
     | _ \<Rightarrow> None)"

definition hm_find :: "hash_env \<Rightarrow> byte list \<Rightarrow> 'e hash_map \<Rightarrow> (bool \<times> 'e hash_map) option" where
  "hm_find env keyr m = map_option (\<lambda>m. (h_node m \<noteq> Null, m)) (lookup env keyr m)"

definition hm_at :: "hash_env \<Rightarrow> byte list \<Rightarrow> 'e hash_map \<Rightarrow> ('e option \<times> 'e hash_map) option" where
  "hm_at env keyr m = do {
     m \<leftarrow> lookup env keyr m;
     if h_node m \<noteq> Null then map_option (\<lambda>n. (Some (n_elem n), m)) (deref m)
     else Some (None, m)
   }"

section \<open>Changes\<close>

definition set_chain :: "'e hash_node list \<Rightarrow> 'e hash_map \<Rightarrow> 'e hash_map" where
  "set_chain chain m = m\<lparr>h_table := (h_table m)[h_index m := chain]\<rparr>"

definition insertAfterFind_void :: "byte list \<Rightarrow> 'e \<Rightarrow> 'e hash_map \<Rightarrow> 'e hash_map option" where
  "insertAfterFind_void k e m =
     (if h_index m < h_capacity m then
        Some ((set_chain (\<lparr>n_elem = e, n_key = k, n_hash = h_hash m\<rparr> # h_table m ! h_index m) m)
          \<lparr>h_node := At 0, h_length := h_length m + 1\<rparr>)
      else None)"

definition insert_void :: "hash_env \<Rightarrow> byte list \<Rightarrow> 'e \<Rightarrow> 'e hash_map \<Rightarrow> 'e hash_map option" where
  "insert_void env k e m = Option.bind (lookup env k m) (insertAfterFind_void k e)"

definition replaceAfterFind :: "'e \<Rightarrow> 'e hash_map \<Rightarrow> 'e hash_map option" where
  "replaceAfterFind e m = (case (h_node m, deref m) of
       (At p, Some n) \<Rightarrow> Some (set_chain ((h_table m ! h_index m)[p := n\<lparr>n_elem := e\<rparr>]) m)
     | _ \<Rightarrow> None)"

definition insertAfterFind :: "byte list \<Rightarrow> 'e \<Rightarrow> 'e hash_map \<Rightarrow> 'e hash_map option" where
  "insertAfterFind k e m =
     (if h_node m \<noteq> Null then replaceAfterFind e m else insertAfterFind_void k e m)"

definition hm_insert :: "hash_env \<Rightarrow> byte list \<Rightarrow> 'e \<Rightarrow> 'e hash_map \<Rightarrow> 'e hash_map option" where
  "hm_insert env k e m = Option.bind (lookup env k m) (insertAfterFind k e)"

text \<open>\<open>UHashMap<UString>::insert\<close> adds the sizes of the two strings to \<open>_space\<close>.\<close>

definition insert_string :: "hash_env \<Rightarrow> byte list \<Rightarrow> byte list \<Rightarrow> byte list hash_map \<Rightarrow> byte list hash_map option" where
  "insert_string env k str m =
     map_option (\<lambda>m. m\<lparr>h_space := h_space m + (length k + length str)\<rparr>) (hm_insert env k str m)"

text \<open>
  \<open>_eraseAfterFind\<close>: the loop looks for \<open>node\<close> in its chain, with \<open>prev\<close> the nodes it has passed, and
  moves it to the front; then the head of the chain is unlinked.
\<close>

fun move_to_front :: "'n list \<Rightarrow> 'n list \<Rightarrow> nat \<Rightarrow> 'n list option" where
  "move_to_front prev [] p = None"
| "move_to_front prev (n # chain) 0 = Some (n # rev prev @ chain)"
| "move_to_front prev (n # chain) (Suc p) = move_to_front (n # prev) chain p"

definition eraseAfterFind_link :: "'e hash_map \<Rightarrow> ('e hash_node \<times> 'e hash_map) option" where
  "eraseAfterFind_link m = (case h_node m of
       At p \<Rightarrow>
         if h_index m < h_capacity m then
           (case move_to_front [] (h_table m ! h_index m) p of
              Some (n # chain) \<Rightarrow> Some (n, set_chain chain m)
            | _ \<Rightarrow> None)
         else None
     | _ \<Rightarrow> None)"

definition eraseAfterFind :: "'e hash_map \<Rightarrow> 'e hash_map option" where
  "eraseAfterFind m =
     map_option (\<lambda>(n, m). m\<lparr>h_node := Freed, h_length := h_length m - 1\<rparr>) (eraseAfterFind_link m)"

definition hm_erase :: "hash_env \<Rightarrow> byte list \<Rightarrow> 'e hash_map \<Rightarrow> ('e option \<times> 'e hash_map) option" where
  "hm_erase env k m = do {
     m \<leftarrow> lookup env k m;
     if h_node m \<noteq> Null then do {
       n \<leftarrow> deref m;
       m \<leftarrow> eraseAfterFind m;
       Some (Some (n_elem n), m)
     }
     else Some (None, m)
   }"

definition replaceKey :: "hash_env \<Rightarrow> byte list \<Rightarrow> 'e hash_map \<Rightarrow> 'e hash_map option" where
  "replaceKey env k m = do {
     (pnode, m) \<leftarrow> eraseAfterFind_link m;
     m \<leftarrow> lookup env k m;
     Some ((set_chain (pnode\<lparr>n_hash := h_hash m, n_key := k\<rparr> # h_table m ! h_index m) m)\<lparr>h_node := At 0\<rparr>)
   }"

section \<open>Resizing\<close>

definition next_prime_number :: "nat \<Rightarrow> nat" where
  "next_prime_number sz =
     (if sz \<le> 53 then 97 else
      if sz \<le> 97 then 193 else
      if sz \<le> 193 then 389 else
      if sz \<le> 389 then 769 else
      if sz \<le> 769 then 1543 else
      if sz \<le> 1543 then 3079 else
      if sz \<le> 3079 then 6151 else
      if sz \<le> 6151 then 12289 else
      if sz \<le> 12289 then 24593 else
      if sz \<le> 24593 then 49157 else
      if sz \<le> 49157 then 98317 else
      if sz \<le> 98317 then 196613 else
      if sz \<le> 196613 then 393241 else
      if sz \<le> 393241 then 786433 else
      if sz \<le> 786433 then 1572869 else
      if sz \<le> 1572869 then 3145739 else
      if sz \<le> 3145739 then 6291469 else
      if sz \<le> 6291469 then 12582917 else
      if sz \<le> 12582917 then 25165843 else
      if sz \<le> 25165843 then 50331653 else
      if sz \<le> 50331653 then 100663319 else
      if sz \<le> 100663319 then 201326611 else
      if sz \<le> 201326611 then 402653189 else
      if sz \<le> 402653189 then 805306457 else
      if sz \<le> 805306457 then 805306457 else
      if sz \<le> 1610612741 then 3221225473 else 4294967291)"

text \<open>
  The body of the two loops of \<open>reserve\<close>: a node of the old table goes to the front of its new chain;
  \<open>node\<close> is the next node, null at the end of every chain.
\<close>

definition rehash_node :: "'e hash_node \<Rightarrow> 'e hash_map \<Rightarrow> 'e hash_map" where
  "rehash_node n m =
     (let m = m\<lparr>h_index := unat (n_hash n) mod h_capacity m\<rparr>
      in (set_chain (n # h_table m ! h_index m) m)\<lparr>h_node := Null\<rparr>)"

definition reserve :: "nat \<Rightarrow> 'e hash_map \<Rightarrow> 'e hash_map" where
  "reserve n m =
     (let new_capacity = next_prime_number n
      in if new_capacity = h_capacity m then m
         else fold (fold rehash_node) (h_table m) (hm_allocate new_capacity m))"

section \<open>Traversal\<close>

fun next_bucket :: "'e hash_node list list \<Rightarrow> nat \<Rightarrow> nat \<times> bool" where
  "next_bucket [] i = (i, False)"
| "next_bucket (chain # tab) i = (if chain \<noteq> [] then (i, True) else next_bucket tab (Suc i))"

definition hm_first :: "'e hash_map \<Rightarrow> bool \<times> 'e hash_map" where
  "hm_first m = (case next_bucket (h_table m) 0 of
       (i, True) \<Rightarrow> (True, m\<lparr>h_index := i, h_node := At 0\<rparr>)
     | (i, False) \<Rightarrow> (False, m\<lparr>h_index := i\<rparr>))"

definition hm_next :: "'e hash_map \<Rightarrow> (bool \<times> 'e hash_map) option" where
  "hm_next m = (case h_node m of
       At p \<Rightarrow>
         if h_index m < h_capacity m \<and> p < length (h_table m ! h_index m) then
           Some (if Suc p < length (h_table m ! h_index m) then (True, m\<lparr>h_node := At (Suc p)\<rparr>)
             else (case next_bucket (drop (Suc (h_index m)) (h_table m)) (Suc (h_index m)) of
                 (i, True) \<Rightarrow> (True, m\<lparr>h_index := i, h_node := At 0\<rparr>)
               | (i, False) \<Rightarrow> (False, m\<lparr>h_index := i, h_node := Null\<rparr>)))
         else None
     | _ \<Rightarrow> None)"

text \<open>
  The traversals call a function on the key and the element of every node. Its effect is a change of a
  state \<open>'s\<close>; the second component tells that it called \<open>stopCallForAllEntry\<close>.
\<close>

fun call_entries :: "(byte list \<Rightarrow> 'e \<Rightarrow> 's \<Rightarrow> 's \<times> bool) \<Rightarrow> 'e hash_node list \<Rightarrow> 's \<Rightarrow> 's \<times> bool" where
  "call_entries f [] s = (s, False)"
| "call_entries f (n # chain) s =
     (case f (n_key n) (n_elem n) s of
        (s, stop) \<Rightarrow> if stop then (s, True) else call_entries f chain s)"

fun call_buckets :: "(byte list \<Rightarrow> 'e \<Rightarrow> 's \<Rightarrow> 's \<times> bool) \<Rightarrow> 'e hash_node list list \<Rightarrow> 's \<Rightarrow> 's" where
  "call_buckets f [] s = s"
| "call_buckets f (chain # tab) s =
     (case call_entries f chain s of (s, stop) \<Rightarrow> if stop then s else call_buckets f tab s)"

definition callForAllEntry :: "(byte list \<Rightarrow> 'e \<Rightarrow> 's \<Rightarrow> 's \<times> bool) \<Rightarrow> 'e hash_map \<Rightarrow> 's \<Rightarrow> 's" where
  "callForAllEntry f m s = call_buckets f (h_table m) s"

definition getKeys :: "'e hash_map \<Rightarrow> byte list list \<times> 'e hash_map" where
  "getKeys m = (concat (map (map n_key) (h_table m)),
     m\<lparr>h_index := h_capacity m, h_node := (if \<forall>chain \<in> set (h_table m). chain = [] then h_node m else Null)\<rparr>)"

definition hm_clear :: "'e hash_map \<Rightarrow> 'e hash_map" where
  "hm_clear m =
     (if h_length m \<noteq> 0 then
        m\<lparr>h_index := h_capacity m,
          h_node := (if \<forall>chain \<in> set (h_table m). chain = [] then h_node m else Null),
          h_table := map (\<lambda>chain. []) (h_table m), h_length := 0\<rparr>
      else m)"

text \<open>
  \<open>callWithDeleteForAllEntry\<close> unlinks the nodes on which the function answers true. The flag
  \<open>stop_call_for_all_entry\<close> is tested before each call; \<open>stop\<close> is its value, the last answer of the
  function tells that it set it. The answer has the changed chains, the number of unlinked nodes, the
  state with the flag, and the position of \<open>node\<close> when the loop returned early.
\<close>

fun delete_entries ::
  "(byte list \<Rightarrow> 'e \<Rightarrow> 's \<Rightarrow> 's \<times> bool \<times> bool) \<Rightarrow> nat \<Rightarrow> 'e hash_node list \<Rightarrow> 's \<Rightarrow> bool \<Rightarrow>
     'e hash_node list \<times> nat \<times> 's \<times> bool \<times> nat option" where
  "delete_entries f p [] s stop = ([], 0, s, stop, None)"
| "delete_entries f p (n # chain) s stop =
     (if stop then (n # chain, 0, s, False, Some p)
      else case f (n_key n) (n_elem n) s of (s, del, stop) \<Rightarrow>
        if del then (case delete_entries f p chain s stop of (chain, d, r) \<Rightarrow> (chain, Suc d, r))
        else (case delete_entries f (Suc p) chain s stop of (chain, d, r) \<Rightarrow> (n # chain, d, r)))"

fun delete_buckets ::
  "(byte list \<Rightarrow> 'e \<Rightarrow> 's \<Rightarrow> 's \<times> bool \<times> bool) \<Rightarrow> nat \<Rightarrow> 'e hash_node list list \<Rightarrow> 's \<Rightarrow> bool \<Rightarrow>
     'e hash_node list list \<times> nat \<times> 's \<times> bool \<times> (nat \<times> nat) option" where
  "delete_buckets f i [] s stop = ([], 0, s, stop, None)"
| "delete_buckets f i (chain # tab) s stop =
     (case delete_entries f 0 chain s stop of (chain, d, s, stop, ret) \<Rightarrow>
        (case ret of
           Some p \<Rightarrow> (chain # tab, d, s, stop, Some (i, p))
         | None \<Rightarrow> (case delete_buckets f (Suc i) tab s stop of (tab, d', r) \<Rightarrow> (chain # tab, d + d', r))))"

definition callWithDeleteForAllEntry ::
  "(byte list \<Rightarrow> 'e \<Rightarrow> 's \<Rightarrow> 's \<times> bool \<times> bool) \<Rightarrow> 'e hash_map \<Rightarrow> 's \<Rightarrow> bool \<Rightarrow> 'e hash_map \<times> 's \<times> bool" where
  "callWithDeleteForAllEntry f m s stop =
     (case delete_buckets f 0 (h_table m) s stop of (tab, d, s, stop, ret) \<Rightarrow>
        (m\<lparr>h_index := (case ret of Some (i, p) \<Rightarrow> i | None \<Rightarrow> h_capacity m),
           h_node := (case ret of Some (i, p) \<Rightarrow> At p
             | None \<Rightarrow> if \<forall>chain \<in> set (h_table m). chain = [] then h_node m else Null),
           h_table := tab, h_length := h_length m - d\<rparr>, s, stop))"

text \<open>\<open>assign\<close> copies the chains node by node, each to the front of its new chain.\<close>

definition hm_assign :: "'e hash_map \<Rightarrow> 'e hash_map \<Rightarrow> 'e hash_map" where
  "hm_assign t m =
     (let m = hm_clear m
      in if h_length t \<noteq> 0 then
           (hm_allocate (h_capacity t) m)
             \<lparr>h_table := map (\<lambda>chain. fold (#) chain []) (h_table t),
              h_index := h_capacity t, h_node := Null, h_length := h_length t\<rparr>
         else m)"

section \<open>Contract of the keys\<close>

text \<open>
  What the table relies on: the comparison of keys is an equivalence, and keys of \<open>ok\<close> that compare
  equal have the same hash value.
\<close>

definition find_elem :: "(byte list \<Rightarrow> byte list \<Rightarrow> bool) \<Rightarrow> byte list \<Rightarrow> 'e hash_node list \<Rightarrow> 'e option" where
  "find_elem eq k chain = map_option n_elem (find (\<lambda>n. eq (n_key n) k) chain)"

definition node_ok :: "(byte list \<Rightarrow> u32) \<Rightarrow> (byte list \<Rightarrow> bool) \<Rightarrow> nat \<Rightarrow> nat \<Rightarrow> 'e hash_node \<Rightarrow> bool" where
  "node_ok h ok cap i n \<longleftrightarrow> ok (n_key n) \<and> n_hash n = h (n_key n) \<and> unat (n_hash n) mod cap = i"

lemma node_ok_elem [simp]: "node_ok h ok cap i (n\<lparr>n_elem := e\<rparr>) \<longleftrightarrow> node_ok h ok cap i n"
  by (simp add: node_ok_def)

lemma node_ok_new: "ok (n_key n) \<Longrightarrow> n_hash n = h (n_key n) \<Longrightarrow> i = unat (h (n_key n)) mod cap \<Longrightarrow> node_ok h ok cap i n"
  by (simp add: node_ok_def)

definition chains_ok ::
  "(byte list \<Rightarrow> u32) \<Rightarrow> (byte list \<Rightarrow> byte list \<Rightarrow> bool) \<Rightarrow> (byte list \<Rightarrow> bool) \<Rightarrow> 'e hash_node list list \<Rightarrow> bool" where
  "chains_ok h eq ok tab \<longleftrightarrow>
     (\<forall>i < length tab. (\<forall>n \<in> set (tab ! i). node_ok h ok (length tab) i n) \<and>
        sorted_wrt (\<lambda>a b. \<not> eq (n_key a) (n_key b)) (tab ! i))"

lemma find_elem_simps [simp]:
  "find_elem eq k [] = None"
  "find_elem eq k (n # chain) = (if eq (n_key n) k then Some (n_elem n) else find_elem eq k chain)"
  by (simp_all add: find_elem_def)

lemma find_elem_append:
  "find_elem eq k (xs @ ys) = (case find_elem eq k xs of None \<Rightarrow> find_elem eq k ys | Some e \<Rightarrow> Some e)"
  by (simp add: find_elem_def find_append split: option.split)

lemma find_elem_None: "find_elem eq k chain = None \<longleftrightarrow> (\<forall>n \<in> set chain. \<not> eq (n_key n) k)"
  by (auto simp: find_elem_def find_None_iff)

lemma find_elem_concat:
  assumes "i < length tab"
    and "\<And>j n. j < length tab \<Longrightarrow> j \<noteq> i \<Longrightarrow> n \<in> set (tab ! j) \<Longrightarrow> \<not> eq (n_key n) k"
  shows "find_elem eq k (concat tab) = find_elem eq k (tab ! i)"
  using assms
proof (induction tab arbitrary: i)
  case (Cons c tab)
  show ?case
  proof (cases i)
    case 0
    have "find_elem eq k (concat tab) = None"
      using Cons.prems(2) [of "Suc j" for j] 0
      by (fastforce simp: find_elem_None in_set_conv_nth [of _ tab])
    with 0 show ?thesis
      by (simp add: find_elem_append split: option.split)
  next
    case (Suc i')
    have c: "find_elem eq k c = None"
      using Cons.prems(2) [of 0] Suc by (simp add: find_elem_None)
    have "find_elem eq k (concat tab) = find_elem eq k (tab ! i')"
      using Cons.prems Suc by (intro Cons.IH) fastforce+
    with c Suc show ?thesis
      by (simp add: find_elem_append)
  qed
qed simp

locale hash_key =
  fixes h :: "byte list \<Rightarrow> u32" and eq :: "byte list \<Rightarrow> byte list \<Rightarrow> bool" and ok :: "byte list \<Rightarrow> bool"
  assumes eq_refl: "eq a a"
    and eq_sym: "eq a b \<Longrightarrow> eq b a"
    and eq_trans: "eq a b \<Longrightarrow> eq b c \<Longrightarrow> eq a c"
    and hash_cong: "ok a \<Longrightarrow> ok b \<Longrightarrow> eq a b \<Longrightarrow> h a = h b"
begin

lemma eq_iff: "eq a b \<Longrightarrow> eq a c \<longleftrightarrow> eq b c"
  using eq_sym eq_trans by blast

text \<open>Every node with the key is in the chain that the hash value selects.\<close>

lemma find_in_chain:
  assumes "chains_ok h eq ok tab" and "tab \<noteq> []" and "ok k"
  shows "find_elem eq k (concat tab) = find_elem eq k (tab ! (unat (h k) mod length tab))"
proof (rule find_elem_concat)
  show "unat (h k) mod length tab < length tab"
    using assms(2) by simp
  fix j n
  assume "j < length tab" "j \<noteq> unat (h k) mod length tab" "n \<in> set (tab ! j)"
  moreover from this assms(1) have "node_ok h ok (length tab) j n"
    by (simp add: chains_ok_def)
  ultimately show "\<not> eq (n_key n) k"
    using hash_cong [of "n_key n" k] assms(3) by (auto simp: node_ok_def)
qed

lemma find_after_update:
  assumes "chains_ok h eq ok (tab[i := c])" and "chains_ok h eq ok tab" and "i < length tab" and "ok k"
  shows "find_elem eq k (concat (tab[i := c])) =
    (if unat (h k) mod length tab = i then find_elem eq k c else find_elem eq k (concat tab))"
proof -
  have "tab \<noteq> []"
    using assms(3) by auto
  with find_in_chain [OF assms(1)] find_in_chain [OF assms(2)] assms(3,4) show ?thesis
    by (simp add: nth_list_update)
qed

lemma chains_ok_update:
  assumes "chains_ok h eq ok tab" and "i < length tab"
    and "\<forall>n \<in> set c. node_ok h ok (length tab) i n"
    and "sorted_wrt (\<lambda>a b. \<not> eq (n_key a) (n_key b)) c"
  shows "chains_ok h eq ok (tab[i := c])"
  using assms by (simp add: chains_ok_def nth_list_update)

end

section \<open>The table as a map\<close>

text \<open>
  The abstract machine: a map from keys to elements, with keys taken up to \<open>eq\<close>, and the operations
  that a client calls; each answers an element or nothing.
\<close>

datatype 'e hm_op = Insert "byte list" 'e | Erase "byte list" | Get "byte list" | Reserve nat | Clear

fun op_keys :: "'e hm_op \<Rightarrow> byte list set" where
  "op_keys (Insert k e) = {k}"
| "op_keys (Erase k) = {k}"
| "op_keys (Get k) = {k}"
| "op_keys (Reserve n) = {}"
| "op_keys Clear = {}"

fun spec_step ::
  "(byte list \<Rightarrow> byte list \<Rightarrow> bool) \<Rightarrow> 'e hm_op \<Rightarrow> (byte list \<Rightarrow> 'e option) \<Rightarrow> 'e option \<times> (byte list \<Rightarrow> 'e option)" where
  "spec_step eq (Insert k e) M = (None, \<lambda>k'. if eq k k' then Some e else M k')"
| "spec_step eq (Erase k) M = (M k, \<lambda>k'. if eq k k' then None else M k')"
| "spec_step eq (Get k) M = (M k, M)"
| "spec_step eq (Reserve n) M = (None, M)"
| "spec_step eq Clear M = (None, \<lambda>k. None)"

fun spec_run ::
  "(byte list \<Rightarrow> byte list \<Rightarrow> bool) \<Rightarrow> 'e hm_op list \<Rightarrow> (byte list \<Rightarrow> 'e option) \<Rightarrow> 'e option list \<times> (byte list \<Rightarrow> 'e option)" where
  "spec_run eq [] M = ([], M)"
| "spec_run eq (c # cs) M =
     (case spec_step eq c M of (r, M) \<Rightarrow> case spec_run eq cs M of (rs, M) \<Rightarrow> (r # rs, M))"

fun hm_step :: "hash_env \<Rightarrow> 'e hm_op \<Rightarrow> 'e hash_map \<Rightarrow> ('e option \<times> 'e hash_map) option" where
  "hm_step env (Insert k e) m = map_option (Pair None) (hm_insert env k e m)"
| "hm_step env (Erase k) m = hm_erase env k m"
| "hm_step env (Get k) m = hm_at env k m"
| "hm_step env (Reserve n) m = Some (None, reserve n m)"
| "hm_step env Clear m = Some (None, hm_clear m)"

fun hm_run :: "hash_env \<Rightarrow> 'e hm_op list \<Rightarrow> 'e hash_map \<Rightarrow> ('e option list \<times> 'e hash_map) option" where
  "hm_run env [] m = Some ([], m)"
| "hm_run env (c # cs) m = do {
     (r, m) \<leftarrow> hm_step env c m;
     (rs, m) \<leftarrow> hm_run env cs m;
     Some (r # rs, m)
   }"

definition hm_map :: "'e hash_map \<Rightarrow> byte list \<Rightarrow> 'e option" where
  "hm_map m k = find_elem (\<lambda>a b. rep_equal a b (h_ignore_case m)) k (concat (h_table m))"

definition hm_inv :: "hash_env \<Rightarrow> bool \<Rightarrow> (byte list \<Rightarrow> bool) \<Rightarrow> 'e hash_map \<Rightarrow> bool" where
  "hm_inv env ic ok m \<longleftrightarrow> h_ignore_case m = ic \<and> h_table m \<noteq> [] \<and>
     chains_ok (\<lambda>k. u_hash (seed_hash env) k ic) (\<lambda>a b. rep_equal a b ic) ok (h_table m) \<and>
     h_length m = length (concat (h_table m))"

lemma chain_search_Null:
  "chain_search k ic chain q = Null \<longleftrightarrow> (\<forall>n \<in> set chain. \<not> rep_equal (n_key n) k ic)"
  by (induction chain arbitrary: q) simp_all

lemma chain_search_At:
  assumes "chain_search k ic chain q \<noteq> Null"
  obtains xs n ys where "chain = xs @ n # ys" and "chain_search k ic chain q = At (q + length xs)"
    and "rep_equal (n_key n) k ic" and "\<forall>x \<in> set xs. \<not> rep_equal (n_key x) k ic"
  using assms
proof (induction chain arbitrary: q thesis)
  case (Cons c chain)
  show ?case
  proof (cases "rep_equal (n_key c) k ic")
    case True
    then show ?thesis
      using Cons.prems(1) [of "[]" c chain] by simp
  next
    case False
    then have "chain_search k ic chain (Suc q) \<noteq> Null"
      using Cons.prems(2) by simp
    then obtain xs n ys where "chain = xs @ n # ys" "chain_search k ic chain (Suc q) = At (Suc q + length xs)"
      "rep_equal (n_key n) k ic" "\<forall>x \<in> set xs. \<not> rep_equal (n_key x) k ic"
      using Cons.IH by blast
    with False show ?thesis
      using Cons.prems(1) [of "c # xs" n ys] by simp
  qed
qed simp

lemma move_to_front_append:
  "move_to_front prev (xs @ n # ys) (length xs) = Some (n # rev prev @ xs @ ys)"
  by (induction xs arbitrary: prev) simp_all

lemma hm_map_record [simp]:
  "hm_map (m\<lparr>h_node := p\<rparr>) = hm_map m" "hm_map (m\<lparr>h_length := l\<rparr>) = hm_map m"
  by (auto simp: hm_map_def)

lemma length_concat_update:
  "i < length tab \<Longrightarrow> length (concat (tab[i := c])) + length (tab ! i) = length (concat tab) + length c"
  by (induction tab arbitrary: i) (auto split: nat.split)

lemma set_concat_push:
  "i < length tab \<Longrightarrow> set (concat (tab[i := n # tab ! i])) = insert n (set (concat tab))"
  by (induction tab arbitrary: i) (auto split: nat.splits)

lemma fold_fold_concat: "fold (fold f) xss s = fold f (concat xss) s"
  by (induction xss arbitrary: s) simp_all

lemma sorted_wrt_concat:
  "\<forall>xs \<in> set xss. sorted_wrt P xs \<Longrightarrow> sorted_wrt (\<lambda>xs ys. \<forall>x \<in> set xs. \<forall>y \<in> set ys. P x y) xss \<Longrightarrow>
   sorted_wrt P (concat xss)"
  by (induction xss) (auto simp: sorted_wrt_append)

lemma rehash_node_fields [simp]:
  "h_length (rehash_node n m) = h_length m" "h_capacity (rehash_node n m) = h_capacity m"
  by (simp_all add: rehash_node_def set_chain_def Let_def)

lemma rehash_fold_fields [simp]:
  "h_length (fold rehash_node ns m) = h_length m" "h_capacity (fold rehash_node ns m) = h_capacity m"
  by (induction ns arbitrary: m) simp_all

lemma next_prime_pos [simp]: "0 < next_prime_number n"
  by (simp add: next_prime_number_def)

lemma chains_ok_empty [simp]: "chains_ok h eq ok (replicate n [])"
  by (simp add: chains_ok_def)

lemma find_elem_empty [simp]: "find_elem eq k (concat (replicate n [])) = None"
  by (simp add: find_elem_None)

lemma lookup_length: "lookup env k (m\<lparr>h_length := l\<rparr>) = map_option (h_length_update (\<lambda>_. l)) (lookup env k m)"
  by (simp add: lookup_def Let_def split: option.split)

lemma fold_Cons_rev: "fold (#) xs ys = rev xs @ ys"
  by (induction xs arbitrary: ys) simp_all

locale map_keys = hash_key "\<lambda>k. u_hash (seed_hash env) k ic" "\<lambda>a b. rep_equal a b ic" ok
  for env :: hash_env and ic :: bool and ok :: "byte list \<Rightarrow> bool" +
  assumes no_gperf: "gperf env = None"
begin

lemma lookup_chain:
  assumes "hm_inv env ic ok m"
  defines "H k \<equiv> u_hash (seed_hash env) k ic"
  shows "lookup env k m = Some (m\<lparr>h_hash := H k, h_index := unat (H k) mod h_capacity m,
    h_node := chain_search k ic (h_table m ! (unat (H k) mod h_capacity m)) 0\<rparr>)"
  using assms(1) by (simp add: lookup_def no_gperf hm_inv_def H_def Let_def)

text \<open>
  The two answers of \<open>lookup\<close>: the chain has no node with the key, or it is split at the only one.
\<close>

lemma lookup_cases:
  assumes inv: "hm_inv env ic ok m" and "ok k"
  obtains (absent) m' where "lookup env k m = Some m'" and "h_node m' = Null" and "hm_map m k = None"
      and "hm_inv env ic ok m'" and "hm_map m' = hm_map m" and "h_length m' = h_length m"
      and "h_index m' < h_capacity m'" and "h_index m' = unat (u_hash (seed_hash env) k ic) mod h_capacity m'"
      and "h_hash m' = u_hash (seed_hash env) k ic" and "h_table m' = h_table m"
      and "\<forall>n \<in> set (h_table m' ! h_index m'). \<not> rep_equal (n_key n) k ic"
  | (present) m' xs n ys where "lookup env k m = Some m'" and "h_node m' = At (length xs)"
      and "hm_map m k = Some (n_elem n)"
      and "hm_inv env ic ok m'" and "hm_map m' = hm_map m" and "h_length m' = h_length m"
      and "h_index m' < h_capacity m'" and "h_index m' = unat (u_hash (seed_hash env) k ic) mod h_capacity m'"
      and "h_hash m' = u_hash (seed_hash env) k ic" and "h_table m' = h_table m"
      and "h_table m' ! h_index m' = xs @ n # ys" and "rep_equal (n_key n) k ic"
      and "\<forall>x \<in> set xs \<union> set ys. \<not> rep_equal (n_key x) k ic"
proof -
  define H where "H = u_hash (seed_hash env) k ic"
  define i where "i = unat H mod h_capacity m"
  define m' where "m' = m\<lparr>h_hash := H, h_index := i, h_node := chain_search k ic (h_table m ! i) 0\<rparr>"
  have l: "lookup env k m = Some m'"
    using lookup_chain [OF inv] by (simp add: m'_def i_def H_def)
  have tab: "h_table m \<noteq> []" "h_ignore_case m = ic"
    and ch: "chains_ok (\<lambda>k. u_hash (seed_hash env) k ic) (\<lambda>a b. rep_equal a b ic) ok (h_table m)"
    using inv by (simp_all add: hm_inv_def)
  have i: "i < h_capacity m"
    using tab by (simp add: i_def)
  have find: "hm_map m k = find_elem (\<lambda>a b. rep_equal a b ic) k (h_table m ! i)"
    using find_in_chain [OF ch tab(1) assms(2)] by (simp add: hm_map_def tab i_def H_def)
  have inv': "hm_inv env ic ok m'" and map': "hm_map m' = hm_map m"
    using inv by (auto simp: hm_inv_def m'_def hm_map_def)
  show thesis
  proof (cases "chain_search k ic (h_table m ! i) 0 = Null")
    case True
    note none = True [unfolded chain_search_Null]
    show thesis
      by (rule absent [OF l]) (use True none i find inv' map' in
        \<open>simp_all add: m'_def find_elem_None i_def H_def\<close>)
  next
    case False
    then obtain xs n ys where split: "h_table m ! i = xs @ n # ys"
      and pos: "chain_search k ic (h_table m ! i) 0 = At (0 + length xs)"
      and n: "rep_equal (n_key n) k ic" and xs: "\<forall>x \<in> set xs. \<not> rep_equal (n_key x) k ic"
      by (rule chain_search_At)
    have "sorted_wrt (\<lambda>a b. \<not> rep_equal (n_key a) (n_key b) ic) (h_table m ! i)"
      using ch i by (simp add: chains_ok_def)
    then have "\<forall>y \<in> set ys. \<not> rep_equal (n_key n) (n_key y) ic"
      by (simp add: split sorted_wrt_append)
    then have ys: "\<forall>y \<in> set ys. \<not> rep_equal (n_key y) k ic"
      using eq_trans [OF n eq_sym] by blast
    have "find_elem (\<lambda>a b. rep_equal a b ic) k xs = None"
      using xs by (simp add: find_elem_None)
    then have found: "hm_map m k = Some (n_elem n)"
      using find n by (simp add: split find_elem_append)
    show thesis
      by (rule present [OF l _ found inv' map', of xs ys]) (use i pos split n xs ys in
        \<open>auto simp: m'_def i_def H_def\<close>)
  qed
qed

text \<open>The effect of a new chain at \<open>index\<close> on the map, given a chain that keeps the contract.\<close>

lemma set_chain_map:
  assumes inv: "hm_inv env ic ok m" and i: "h_index m < h_capacity m" and "ok k"
    and "\<forall>n \<in> set c. node_ok (\<lambda>k. u_hash (seed_hash env) k ic) ok (h_capacity m) (h_index m) n"
    and "sorted_wrt (\<lambda>a b. \<not> rep_equal (n_key a) (n_key b) ic) c"
  shows "hm_map (set_chain c m) k =
    (if unat (u_hash (seed_hash env) k ic) mod h_capacity m = h_index m
     then find_elem (\<lambda>a b. rep_equal a b ic) k c else hm_map m k)"
proof -
  have ch: "chains_ok (\<lambda>k. u_hash (seed_hash env) k ic) (\<lambda>a b. rep_equal a b ic) ok (h_table m)"
    using inv by (simp add: hm_inv_def)
  from find_after_update [OF chains_ok_update [OF ch i assms(4,5)] ch i assms(3)] inv show ?thesis
    by (simp add: hm_map_def set_chain_def hm_inv_def)
qed

lemma set_chain_inv:
  assumes inv: "hm_inv env ic ok m" and i: "h_index m < h_capacity m"
    and "\<forall>n \<in> set c. node_ok (\<lambda>k. u_hash (seed_hash env) k ic) ok (h_capacity m) (h_index m) n"
    and "sorted_wrt (\<lambda>a b. \<not> rep_equal (n_key a) (n_key b) ic) c"
    and len: "l + length (h_table m ! h_index m) = h_length m + length c"
  shows "hm_inv env ic ok ((set_chain c m)\<lparr>h_node := p, h_length := l\<rparr>)"
proof -
  have ch: "chains_ok (\<lambda>k. u_hash (seed_hash env) k ic) (\<lambda>a b. rep_equal a b ic) ok (h_table m)"
    using inv by (simp add: hm_inv_def)
  have "l = length (concat ((h_table m)[h_index m := c]))"
    using inv len length_concat_update [OF i, of c] by (simp add: hm_inv_def)
  with chains_ok_update [OF ch i assms(3,4)] inv show ?thesis
    by (auto simp: hm_inv_def set_chain_def)
qed

lemma chain_nodes:
  assumes "hm_inv env ic ok m" and "h_index m < h_capacity m"
  shows "n \<in> set (h_table m ! h_index m) \<Longrightarrow>
      node_ok (\<lambda>k. u_hash (seed_hash env) k ic) ok (h_capacity m) (h_index m) n"
    and "sorted_wrt (\<lambda>a b. \<not> rep_equal (n_key a) (n_key b) ic) (h_table m ! h_index m)"
  using assms by (simp_all add: hm_inv_def chains_ok_def)

lemma chain_find:
  assumes "hm_inv env ic ok m" and "h_index m < h_capacity m" and "ok k"
    and "unat (u_hash (seed_hash env) k ic) mod h_capacity m = h_index m"
  shows "find_elem (\<lambda>a b. rep_equal a b ic) k (h_table m ! h_index m) = hm_map m k"
proof -
  have "find_elem (\<lambda>a b. rep_equal a b ic) k (concat (h_table m)) =
      find_elem (\<lambda>a b. rep_equal a b ic) k (h_table m ! h_index m)"
    using find_in_chain [of "h_table m" k] assms by (simp add: hm_inv_def)
  with assms(1) show ?thesis
    by (simp add: hm_map_def hm_inv_def)
qed

lemma rep_equal_hash:
  "ok a \<Longrightarrow> ok b \<Longrightarrow> rep_equal a b ic \<Longrightarrow> u_hash (seed_hash env) a ic = u_hash (seed_hash env) b ic"
  by (rule hash_cong)

text \<open>A new node in front of a chain that does not have its key.\<close>

lemma push_front:
  assumes inv: "hm_inv env ic ok m" and i: "h_index m < h_capacity m" and "ok (n_key n)"
    and idx: "h_index m = unat (u_hash (seed_hash env) (n_key n) ic) mod h_capacity m"
    and nh: "n_hash n = u_hash (seed_hash env) (n_key n) ic"
    and fresh: "\<forall>x \<in> set (h_table m ! h_index m). \<not> rep_equal (n_key x) (n_key n) ic"
  shows "hm_inv env ic ok ((set_chain (n # h_table m ! h_index m) m)\<lparr>h_node := p, h_length := h_length m + 1\<rparr>)"
    and "ok k \<Longrightarrow> hm_map (set_chain (n # h_table m ! h_index m) m) k =
      (if rep_equal (n_key n) k ic then Some (n_elem n) else hm_map m k)"
proof -
  let ?c = "n # h_table m ! h_index m"
  have ok: "\<forall>x \<in> set ?c. node_ok (\<lambda>k. u_hash (seed_hash env) k ic) ok (h_capacity m) (h_index m) x"
    using chain_nodes(1) [OF inv i] node_ok_new [where h = "\<lambda>k. u_hash (seed_hash env) k ic", of ok, OF assms(3) nh idx]
    by simp
  have srt: "sorted_wrt (\<lambda>a b. \<not> rep_equal (n_key a) (n_key b) ic) ?c"
    using chain_nodes(2) [OF inv i] fresh eq_sym by auto
  show "hm_inv env ic ok ((set_chain ?c m)\<lparr>h_node := p, h_length := h_length m + 1\<rparr>)"
    by (rule set_chain_inv [OF inv i ok srt]) simp_all
  show "hm_map (set_chain ?c m) k = (if rep_equal (n_key n) k ic then Some (n_elem n) else hm_map m k)" if "ok k"
    using set_chain_map [OF inv i that ok srt] rep_equal_hash [OF assms(3) that] idx
      chain_find [OF inv i that] by auto
qed

text \<open>Another element in the node with the key, and the chain without this node.\<close>

lemma split_chain:
  assumes inv: "hm_inv env ic ok m" and i: "h_index m < h_capacity m"
    and split: "h_table m ! h_index m = xs @ n # ys" and "ok k"
  shows "hm_map m k = (if unat (u_hash (seed_hash env) k ic) mod h_capacity m = h_index m
      then find_elem (\<lambda>a b. rep_equal a b ic) k (xs @ n # ys) else hm_map m k)"
    and "rep_equal (n_key n) k ic \<Longrightarrow>
      unat (u_hash (seed_hash env) k ic) mod h_capacity m = h_index m \<and>
      (\<forall>x \<in> set xs \<union> set ys. \<not> rep_equal (n_key x) k ic)"
proof -
  show "hm_map m k = (if unat (u_hash (seed_hash env) k ic) mod h_capacity m = h_index m
      then find_elem (\<lambda>a b. rep_equal a b ic) k (xs @ n # ys) else hm_map m k)"
    using chain_find [OF inv i assms(4)] by (simp add: split)
  assume eq: "rep_equal (n_key n) k ic"
  have "node_ok (\<lambda>k. u_hash (seed_hash env) k ic) ok (h_capacity m) (h_index m) n"
    using chain_nodes(1) [OF inv i] split by simp
  then have "unat (u_hash (seed_hash env) k ic) mod h_capacity m = h_index m"
    using rep_equal_hash [OF _ assms(4) eq] by (auto simp: node_ok_def)
  moreover have "\<forall>x \<in> set xs. \<not> rep_equal (n_key x) (n_key n) ic" "\<forall>x \<in> set ys. \<not> rep_equal (n_key n) (n_key x) ic"
    using chain_nodes(2) [OF inv i] by (auto simp: split sorted_wrt_append)
  ultimately show "unat (u_hash (seed_hash env) k ic) mod h_capacity m = h_index m \<and>
      (\<forall>x \<in> set xs \<union> set ys. \<not> rep_equal (n_key x) k ic)"
    using eq eq_sym eq_trans by blast
qed

lemma replace_node:
  assumes inv: "hm_inv env ic ok m" and i: "h_index m < h_capacity m"
    and split: "h_table m ! h_index m = xs @ n # ys"
  shows "hm_inv env ic ok (set_chain (xs @ n\<lparr>n_elem := e\<rparr> # ys) m)"
    and "ok k \<Longrightarrow> hm_map (set_chain (xs @ n\<lparr>n_elem := e\<rparr> # ys) m) k =
      (if rep_equal (n_key n) k ic then Some e else hm_map m k)"
proof -
  let ?c = "xs @ n\<lparr>n_elem := e\<rparr> # ys"
  have ok: "\<forall>x \<in> set ?c. node_ok (\<lambda>k. u_hash (seed_hash env) k ic) ok (h_capacity m) (h_index m) x"
    using chain_nodes(1) [OF inv i] by (simp add: split)
  have srt: "sorted_wrt (\<lambda>a b. \<not> rep_equal (n_key a) (n_key b) ic) ?c"
    using chain_nodes(2) [OF inv i] by (simp add: split sorted_wrt_append)
  have "hm_inv env ic ok ((set_chain ?c m)\<lparr>h_node := h_node m, h_length := h_length m\<rparr>)"
    by (rule set_chain_inv [OF inv i ok srt]) (simp_all add: split)
  then show "hm_inv env ic ok (set_chain ?c m)"
    by (simp add: set_chain_def)
  assume k: "ok k"
  note upd = set_chain_map [OF inv i k ok srt]
  show "hm_map (set_chain ?c m) k = (if rep_equal (n_key n) k ic then Some e else hm_map m k)"
  proof (cases "rep_equal (n_key n) k ic")
    case True
    from split_chain(2) [OF inv i split k True]
    have "find_elem (\<lambda>a b. rep_equal a b ic) k xs = None" "find_elem (\<lambda>a b. rep_equal a b ic) k ys = None"
      by (simp_all add: find_elem_None)
    with True split_chain(2) [OF inv i split k True] show ?thesis
      by (simp add: upd find_elem_append)
  next
    case False
    with split_chain(1) [OF inv i split k] show ?thesis
      by (simp add: upd find_elem_append split: if_splits option.split)
  qed
qed

lemma erase_node:
  assumes inv: "hm_inv env ic ok m" and i: "h_index m < h_capacity m"
    and split: "h_table m ! h_index m = xs @ n # ys"
  shows "hm_inv env ic ok ((set_chain (xs @ ys) m)\<lparr>h_node := p, h_length := h_length m - 1\<rparr>)"
    and "ok k \<Longrightarrow> hm_map (set_chain (xs @ ys) m) k =
      (if rep_equal (n_key n) k ic then None else hm_map m k)"
proof -
  have ok: "\<forall>x \<in> set (xs @ ys). node_ok (\<lambda>k. u_hash (seed_hash env) k ic) ok (h_capacity m) (h_index m) x"
    using chain_nodes(1) [OF inv i] by (auto simp: split)
  have srt: "sorted_wrt (\<lambda>a b. \<not> rep_equal (n_key a) (n_key b) ic) (xs @ ys)"
    using chain_nodes(2) [OF inv i] by (simp add: split sorted_wrt_append)
  have "0 < h_length m"
    using inv length_concat_update [OF i, of "[]"] split
    by (simp add: hm_inv_def del: length_greater_0_conv length_0_conv)
  then show "hm_inv env ic ok ((set_chain (xs @ ys) m)\<lparr>h_node := p, h_length := h_length m - 1\<rparr>)"
    by (intro set_chain_inv [OF inv i ok srt]) (simp_all add: split)
  assume k: "ok k"
  note upd = set_chain_map [OF inv i k ok srt]
  show "hm_map (set_chain (xs @ ys) m) k = (if rep_equal (n_key n) k ic then None else hm_map m k)"
  proof (cases "rep_equal (n_key n) k ic")
    case True
    from split_chain(2) [OF inv i split k True]
    have "find_elem (\<lambda>a b. rep_equal a b ic) k xs = None" "find_elem (\<lambda>a b. rep_equal a b ic) k ys = None"
      by (simp_all add: find_elem_None)
    with True split_chain(2) [OF inv i split k True] show ?thesis
      by (simp add: upd find_elem_append)
  next
    case False
    with split_chain(1) [OF inv i split k] show ?thesis
      by (simp add: upd find_elem_append split: if_splits option.split)
  qed
qed

text \<open>The operations: each succeeds, keeps the invariant and changes the map as it should.\<close>

lemma hm_map_cong:
  assumes "hm_inv env ic ok m" and "rep_equal k k' ic"
  shows "hm_map m k' = hm_map m k"
proof -
  have "rep_equal a k' ic \<longleftrightarrow> rep_equal a k ic" for a
    using eq_iff [OF assms(2), of a] eq_sym [of a k] eq_sym [of a k'] eq_sym [of k a] eq_sym [of k' a] by blast
  with assms(1) show ?thesis
    by (simp add: hm_map_def find_elem_def hm_inv_def)
qed

lemma at_spec:
  assumes "hm_inv env ic ok m" and "ok k"
  shows "\<exists>m'. hm_at env k m = Some (hm_map m k, m') \<and> hm_inv env ic ok m' \<and> hm_map m' = hm_map m"
  using assms
proof (cases rule: lookup_cases)
  case (absent m')
  then show ?thesis by (auto simp: hm_at_def)
next
  case (present m' xs n ys)
  then have "deref m' = Some n" by (simp add: deref_def)
  with present show ?thesis by (auto simp: hm_at_def)
qed

lemma insert_spec:
  assumes "hm_inv env ic ok m" and "ok k"
  shows "\<exists>m'. hm_insert env k e m = Some m' \<and> hm_inv env ic ok m' \<and>
    (\<forall>k'. ok k' \<longrightarrow> hm_map m' k' = (if rep_equal k k' ic then Some e else hm_map m k'))"
  using assms
proof (cases rule: lookup_cases)
  case (absent m')
  define n where "n = \<lparr>n_elem = e, n_key = k, n_hash = h_hash m'\<rparr>"
  have "hm_insert env k e m =
      Some ((set_chain (n # h_table m' ! h_index m') m')\<lparr>h_node := At 0, h_length := h_length m' + 1\<rparr>)"
    using absent by (simp add: hm_insert_def insertAfterFind_def insertAfterFind_void_def n_def)
  with push_front [of m' n] absent assms(2) show ?thesis
    by (simp add: n_def)
next
  case (present m' xs n ys)
  then have d: "deref m' = Some n" by (simp add: deref_def)
  with present have "hm_insert env k e m = Some (set_chain (xs @ n\<lparr>n_elem := e\<rparr> # ys) m')"
    by (simp add: hm_insert_def insertAfterFind_def replaceAfterFind_def list_update_append)
  moreover have "rep_equal (n_key n) k' ic \<longleftrightarrow> rep_equal k k' ic" for k'
    by (rule eq_iff) (rule present)
  ultimately show ?thesis
    using replace_node [OF present(4,7,11), where e = e] by (simp add: present(5))
qed

lemma erase_spec:
  assumes "hm_inv env ic ok m" and "ok k"
  shows "\<exists>m'. hm_erase env k m = Some (hm_map m k, m') \<and> hm_inv env ic ok m' \<and>
    (\<forall>k'. ok k' \<longrightarrow> hm_map m' k' = (if rep_equal k k' ic then None else hm_map m k'))"
  using assms
proof (cases rule: lookup_cases)
  case (absent m')
  have "hm_map m k' = None" if "rep_equal k k' ic" for k'
    using hm_map_cong [OF assms(1) that] absent(3) by simp
  with absent show ?thesis
    by (auto simp: hm_erase_def)
next
  case (present m' xs n ys)
  then have d: "deref m' = Some n" by (simp add: deref_def)
  with present have "hm_erase env k m = Some (Some (n_elem n),
      (set_chain (xs @ ys) m')\<lparr>h_node := Freed, h_length := h_length m' - 1\<rparr>)"
    by (simp add: hm_erase_def eraseAfterFind_def eraseAfterFind_link_def
        move_to_front_append [of "[]", simplified] set_chain_def)
  moreover have "rep_equal (n_key n) k' ic \<longleftrightarrow> rep_equal k k' ic" for k'
    by (rule eq_iff) (rule present)
  ultimately show ?thesis
    using erase_node [OF present(4,7,11)] by (simp add: present(3,5))
qed

text \<open>Rehashing.\<close>

lemma nodes_distinct:
  assumes "hm_inv env ic ok m"
  shows "sorted_wrt (\<lambda>a b. \<not> rep_equal (n_key a) (n_key b) ic) (concat (h_table m))"
proof (rule sorted_wrt_concat)
  let ?tab = "h_table m"
  have nd: "node_ok (\<lambda>k. u_hash (seed_hash env) k ic) ok (length ?tab) i n" if "i < length ?tab" "n \<in> set (?tab ! i)" for i n
    using assms that by (simp add: hm_inv_def chains_ok_def)
  show "\<forall>c \<in> set ?tab. sorted_wrt (\<lambda>a b. \<not> rep_equal (n_key a) (n_key b) ic) c"
    using assms by (auto simp: hm_inv_def chains_ok_def in_set_conv_nth)
  show "sorted_wrt (\<lambda>c d. \<forall>a \<in> set c. \<forall>b \<in> set d. \<not> rep_equal (n_key a) (n_key b) ic) ?tab"
  proof (clarsimp simp: sorted_wrt_iff_nth_less)
    fix i j a b
    assume "i < j" "j < length ?tab" "a \<in> set (?tab ! i)" "b \<in> set (?tab ! j)" "rep_equal (n_key a) (n_key b) ic"
    then show False
      using nd [of i a] nd [of j b] rep_equal_hash [of "n_key a" "n_key b"] by (auto simp: node_ok_def)
  qed
qed

lemma rehash_node_spec:
  assumes inv: "hm_inv env ic ok (m\<lparr>h_length := l\<rparr>)" and "ok (n_key n)"
    and nh: "n_hash n = u_hash (seed_hash env) (n_key n) ic"
    and fresh: "\<forall>x \<in> set (concat (h_table m)). \<not> rep_equal (n_key x) (n_key n) ic"
  shows "hm_inv env ic ok ((rehash_node n m)\<lparr>h_length := l + 1\<rparr>)"
    and "ok k \<Longrightarrow> hm_map (rehash_node n m) k = (if rep_equal (n_key n) k ic then Some (n_elem n) else hm_map m k)"
    and "set (concat (h_table (rehash_node n m))) = insert n (set (concat (h_table m)))"
proof -
  define i where "i = unat (n_hash n) mod h_capacity m"
  define m' where "m' = m\<lparr>h_index := i, h_length := l\<rparr>"
  have inv': "hm_inv env ic ok m'"
    using inv by (auto simp: hm_inv_def m'_def)
  have i: "i < h_capacity m"
    using inv by (simp add: hm_inv_def i_def)
  have eq: "rehash_node n m = (set_chain (n # h_table m' ! h_index m') m')\<lparr>h_node := Null, h_length := h_length m\<rparr>"
    by (simp add: rehash_node_def set_chain_def m'_def i_def Let_def)
  have fr: "\<forall>x \<in> set (h_table m' ! h_index m'). \<not> rep_equal (n_key x) (n_key n) ic"
    using fresh i by (auto simp: m'_def)
  note push = push_front [OF inv' _ assms(2) _ nh fr]
  show "hm_inv env ic ok ((rehash_node n m)\<lparr>h_length := l + 1\<rparr>)"
    using push(1) [of Null] i nh by (simp add: eq m'_def i_def)
  show "set (concat (h_table (rehash_node n m))) = insert n (set (concat (h_table m)))"
    using set_concat_push [OF i, of n] by (simp add: eq set_chain_def m'_def)
  have "hm_map m' = hm_map m"
    by (auto simp: hm_map_def m'_def)
  then show "ok k \<Longrightarrow> hm_map (rehash_node n m) k = (if rep_equal (n_key n) k ic then Some (n_elem n) else hm_map m k)"
    using push(2) [of k] i nh by (simp add: eq) (simp add: m'_def i_def)
qed

lemma rehash_fold:
  assumes "hm_inv env ic ok (m\<lparr>h_length := l\<rparr>)"
    and "\<forall>n \<in> set ns. ok (n_key n) \<and> n_hash n = u_hash (seed_hash env) (n_key n) ic"
    and "sorted_wrt (\<lambda>a b. \<not> rep_equal (n_key a) (n_key b) ic) ns"
    and "\<forall>n \<in> set ns. \<forall>x \<in> set (concat (h_table m)). \<not> rep_equal (n_key x) (n_key n) ic"
  shows "hm_inv env ic ok ((fold rehash_node ns m)\<lparr>h_length := l + length ns\<rparr>) \<and>
    (\<forall>k. ok k \<longrightarrow> hm_map (fold rehash_node ns m) k =
      (case find_elem (\<lambda>a b. rep_equal a b ic) k ns of None \<Rightarrow> hm_map m k | Some e \<Rightarrow> Some e))"
  using assms
proof (induction ns arbitrary: m l)
  case (Cons n ns)
  have fresh: "\<forall>x \<in> set (concat (h_table m)). \<not> rep_equal (n_key x) (n_key n) ic"
    and n: "ok (n_key n)" "n_hash n = u_hash (seed_hash env) (n_key n) ic"
    using Cons.prems by simp_all
  note step = rehash_node_spec [OF Cons.prems(1) n fresh]
  have "\<forall>n' \<in> set ns. \<forall>x \<in> set (concat (h_table (rehash_node n m))). \<not> rep_equal (n_key x) (n_key n') ic"
    using Cons.prems(3,4) unfolding step(3) by simp
  with Cons.IH [OF step(1)] Cons.prems(2,3)
  have IH: "hm_inv env ic ok ((fold rehash_node ns (rehash_node n m))\<lparr>h_length := l + 1 + length ns\<rparr>)"
    "\<And>k. ok k \<Longrightarrow> hm_map (fold rehash_node ns (rehash_node n m)) k =
      (case find_elem (\<lambda>a b. rep_equal a b ic) k ns of None \<Rightarrow> hm_map (rehash_node n m) k | Some e \<Rightarrow> Some e)"
    by simp_all
  have "find_elem (\<lambda>a b. rep_equal a b ic) k ns = None" if "rep_equal (n_key n) k ic" for k
  proof -
    have "\<forall>x \<in> set ns. \<not> rep_equal (n_key n) (n_key x) ic"
      using Cons.prems(3) by simp
    then show ?thesis
      using eq_trans [OF that eq_sym] unfolding find_elem_None by blast
  qed
  with IH show ?case
    by (simp add: step(2) split: option.split)
qed simp

lemma reserve_spec:
  assumes inv: "hm_inv env ic ok m"
  shows "hm_inv env ic ok (reserve n m) \<and> (\<forall>k. ok k \<longrightarrow> hm_map (reserve n m) k = hm_map m k)"
proof (cases "next_prime_number n = h_capacity m")
  case True
  with inv show ?thesis by (simp add: reserve_def)
next
  case False
  define m0 where "m0 = hm_allocate (next_prime_number n) m"
  let ?ns = "concat (h_table m)"
  have res: "reserve n m = fold rehash_node ?ns m0"
    using False by (simp add: reserve_def m0_def fold_fold_concat Let_def)
  have tab: "h_table m0 = replicate (next_prime_number n) []" and len: "h_length m0 = length ?ns"
    and ic: "h_ignore_case m0 = ic"
    using inv by (simp_all add: m0_def hm_allocate_def hm_inv_def)
  have inv0: "hm_inv env ic ok (m0\<lparr>h_length := 0\<rparr>)"
    using next_prime_pos [of n] by (simp add: hm_inv_def tab ic)
  have nodes: "\<forall>n \<in> set ?ns. ok (n_key n) \<and> n_hash n = u_hash (seed_hash env) (n_key n) ic"
    using inv by (auto simp: hm_inv_def chains_ok_def node_ok_def in_set_conv_nth [of _ "h_table m"])
  have "\<forall>n \<in> set ?ns. \<forall>x \<in> set (concat (h_table m0)). \<not> rep_equal (n_key x) (n_key n) ic"
    by (simp add: tab)
  note fold = rehash_fold [OF inv0 nodes nodes_distinct [OF inv] this]
  have "(fold rehash_node ?ns m0)\<lparr>h_length := 0 + length ?ns\<rparr> = fold rehash_node ?ns m0"
    using rehash_fold_fields(1) [of ?ns m0] len by (metis (no_types) add_0 hash_map.surjective hash_map.update_convs(2))
  moreover have "hm_map m0 k = None" for k
    by (simp add: hm_map_def tab find_elem_None)
  moreover have "hm_map m k = find_elem (\<lambda>a b. rep_equal a b ic) k ?ns" for k
    using inv by (simp add: hm_map_def hm_inv_def)
  ultimately show ?thesis
    using fold by (simp add: res split: option.split)
qed

lemma clear_spec:
  assumes inv: "hm_inv env ic ok m"
  shows "hm_inv env ic ok (hm_clear m) \<and> hm_map (hm_clear m) = (\<lambda>k. None)"
proof (cases "h_length m = 0")
  case True
  then have "concat (h_table m) = []"
    using inv by (simp add: hm_inv_def)
  with True inv show ?thesis
    by (auto simp: hm_clear_def hm_map_def find_elem_None fun_eq_iff)
next
  case False
  have "map (\<lambda>chain. []) (h_table m) = replicate (h_capacity m) []"
    by (simp add: map_replicate_const)
  with False have "h_table (hm_clear m) = replicate (h_capacity m) []" "h_length (hm_clear m) = 0"
    "h_ignore_case (hm_clear m) = h_ignore_case m"
    by (simp_all add: hm_clear_def)
  with inv show ?thesis
    by (simp add: hm_map_def hm_inv_def fun_eq_iff)
qed

text \<open>Another key for the node that was found.\<close>

lemma replaceKey_spec:
  assumes inv: "hm_inv env ic ok m" and "ok k" and "ok k'" and "hm_map m k = Some e" and "hm_map m k' = None"
  shows "\<exists>m'. Option.bind (lookup env k m) (replaceKey env k') = Some m' \<and> hm_inv env ic ok m' \<and>
    (\<forall>x. ok x \<longrightarrow> hm_map m' x =
      (if rep_equal k' x ic then Some e else if rep_equal k x ic then None else hm_map m x))"
  using inv assms(2)
proof (cases rule: lookup_cases)
  case (absent m1)
  with assms(4) show ?thesis by simp
next
  case (present m1 xs n ys)
  have e: "n_elem n = e"
    using present(3) assms(4) by simp
  have kn: "rep_equal (n_key n) x ic \<longleftrightarrow> rep_equal k x ic" for x
    by (rule eq_iff) (rule present)
  define m2 where "m2 = (set_chain (xs @ ys) m1)\<lparr>h_node := h_node m1, h_length := h_length m1 - 1\<rparr>"
  have link: "eraseAfterFind_link m1 = Some (n, m2\<lparr>h_length := h_length m1\<rparr>)"
    using present by (simp add: eraseAfterFind_link_def move_to_front_append [of "[]", simplified] m2_def set_chain_def)
  have inv2: "hm_inv env ic ok m2"
    using erase_node(1) [OF present(4,7,11)] by (simp add: m2_def)
  have map2: "ok x \<Longrightarrow> hm_map m2 x = (if rep_equal k x ic then None else hm_map m x)" for x
    using erase_node(2) [OF present(4,7,11), of x] by (simp add: m2_def kn present(5))
  have pos: "h_length m1 = h_length m2 + 1"
    using length_concat_update [OF present(7), of "[]"] present(4,11) by (auto simp: m2_def hm_inv_def)
  have "hm_map m2 k' = None"
    using map2 [OF assms(3)] assms(5) by simp
  show ?thesis
    using inv2 assms(3)
  proof (cases rule: lookup_cases)
    case (absent m3)
    define n' where "n' = n\<lparr>n_hash := h_hash m3, n_key := k'\<rparr>"
    let ?m = "(set_chain (n' # h_table m3 ! h_index m3) m3)\<lparr>h_node := At 0, h_length := h_length m3 + 1\<rparr>"
    have "Option.bind (lookup env k m) (replaceKey env k') = Some ?m"
      using present(1) link absent(1,6) pos by (simp add: replaceKey_def lookup_length n'_def set_chain_def)
    moreover have "hm_inv env ic ok ?m"
      using push_front(1) [of m3 n'] absent assms(3) by (simp add: n'_def)
    moreover have "ok x \<Longrightarrow> hm_map ?m x = (if rep_equal k' x ic then Some e else hm_map m2 x)" for x
      using push_front(2) [of m3 n' x] absent assms(3) by (simp add: n'_def e)
    ultimately show ?thesis
      using map2 by auto
  next
    case (present m3)
    with \<open>hm_map m2 k' = None\<close> show ?thesis by simp
  qed
qed

text \<open>A copy has the chains in the opposite order and the same entries.\<close>

lemma find_elem_rev:
  "sorted_wrt (\<lambda>a b. \<not> rep_equal (n_key a) (n_key b) ic) chain \<Longrightarrow>
   find_elem (\<lambda>a b. rep_equal a b ic) k (rev chain) = find_elem (\<lambda>a b. rep_equal a b ic) k chain"
proof (induction chain)
  case (Cons n chain)
  have "find_elem (\<lambda>a b. rep_equal a b ic) k chain = None" if "rep_equal (n_key n) k ic"
    using Cons.prems eq_trans [OF that eq_sym] unfolding find_elem_None by auto
  with Cons show ?case
    by (simp add: find_elem_append split: option.split)
qed simp

lemma assign_spec:
  assumes t: "hm_inv env ic ok t" and m: "hm_inv env ic ok m"
  shows "hm_inv env ic ok (hm_assign t m) \<and> (\<forall>k. ok k \<longrightarrow> hm_map (hm_assign t m) k = hm_map t k)"
proof (cases "h_length t = 0")
  case True
  then have "hm_map t k = None" for k
    using t by (auto simp: hm_inv_def hm_map_def find_elem_None)
  with True clear_spec [OF m] show ?thesis by (simp add: hm_assign_def)
next
  case False
  have tab: "h_table (hm_assign t m) = map rev (h_table t)" and ic: "h_ignore_case (hm_assign t m) = ic"
    and len: "h_length (hm_assign t m) = h_length t"
    using False m by (simp_all add: hm_assign_def hm_allocate_def hm_clear_def fold_Cons_rev hm_inv_def)
  have ch: "chains_ok (\<lambda>k. u_hash (seed_hash env) k ic) (\<lambda>a b. rep_equal a b ic) ok (h_table t)"
    and t0: "h_table t \<noteq> []"
    using t by (simp_all add: hm_inv_def)
  have "sorted_wrt (\<lambda>a b. \<not> rep_equal (n_key b) (n_key a) ic) c"
    if "sorted_wrt (\<lambda>a b. \<not> rep_equal (n_key a) (n_key b) ic) c" for c :: "'a hash_node list"
    using that by (rule sorted_wrt_mono_rel [rotated]) (use eq_sym in blast)
  with ch have ch': "chains_ok (\<lambda>k. u_hash (seed_hash env) k ic) (\<lambda>a b. rep_equal a b ic) ok (map rev (h_table t))"
    by (simp add: chains_ok_def sorted_wrt_rev)
  have "length (concat (map rev (h_table t))) = length (concat (h_table t))"
    by (simp add: length_concat comp_def)
  with t ch' have "hm_inv env ic ok (hm_assign t m)"
    by (simp add: hm_inv_def tab ic len)
  moreover have "hm_map (hm_assign t m) k = hm_map t k" if "ok k" for k
  proof -
    have i: "unat (u_hash (seed_hash env) k ic) mod h_capacity t < h_capacity t"
      using t0 by simp
    have "sorted_wrt (\<lambda>a b. \<not> rep_equal (n_key a) (n_key b) ic)
        (h_table t ! (unat (u_hash (seed_hash env) k ic) mod h_capacity t))"
      using ch i by (simp add: chains_ok_def)
    note find_elem_rev [OF this, of k]
    then show ?thesis
      using find_in_chain [OF ch' _ that] find_in_chain [OF ch t0 that] i t0 t
      by (simp add: hm_map_def tab ic hm_inv_def)
  qed
  ultimately show ?thesis by blast
qed

text \<open>One step, and a sequence of steps, of the table and of the abstract machine.\<close>

lemma step_refines:
  assumes inv: "hm_inv env ic ok m" and rel: "\<forall>k. ok k \<longrightarrow> hm_map m k = M k" and "\<forall>k \<in> op_keys c. ok k"
  shows "\<exists>m'. hm_step env c m = Some (fst (spec_step (\<lambda>a b. rep_equal a b ic) c M), m') \<and>
    hm_inv env ic ok m' \<and> (\<forall>k. ok k \<longrightarrow> hm_map m' k = snd (spec_step (\<lambda>a b. rep_equal a b ic) c M) k)"
proof (cases c)
  case (Insert k e)
  with insert_spec [OF inv, of k e] assms(2,3) show ?thesis by auto
next
  case (Erase k)
  with erase_spec [OF inv, of k] assms(2,3) show ?thesis by auto
next
  case (Get k)
  with at_spec [OF inv, of k] assms(2,3) show ?thesis by auto
next
  case (Reserve n)
  with reserve_spec [OF inv, of n] assms(2) show ?thesis by simp
next
  case Clear
  with clear_spec [OF inv] show ?thesis by simp
qed

lemma run_refines:
  assumes "hm_inv env ic ok m" and "\<forall>k. ok k \<longrightarrow> hm_map m k = M k" and "\<forall>c \<in> set cs. \<forall>k \<in> op_keys c. ok k"
  shows "\<exists>m'. hm_run env cs m = Some (fst (spec_run (\<lambda>a b. rep_equal a b ic) cs M), m') \<and>
    hm_inv env ic ok m' \<and> (\<forall>k. ok k \<longrightarrow> hm_map m' k = snd (spec_run (\<lambda>a b. rep_equal a b ic) cs M) k)"
  using assms
proof (induction cs arbitrary: m M)
  case (Cons c cs)
  obtain r M1 where s: "spec_step (\<lambda>a b. rep_equal a b ic) c M = (r, M1)"
    by (cases "spec_step (\<lambda>a b. rep_equal a b ic) c M")
  obtain m1 where m1: "hm_step env c m = Some (r, m1)" "hm_inv env ic ok m1" "\<forall>k. ok k \<longrightarrow> hm_map m1 k = M1 k"
    using step_refines [OF Cons.prems(1,2), of c] Cons.prems(3) s by auto
  obtain m2 where "hm_run env cs m1 = Some (fst (spec_run (\<lambda>a b. rep_equal a b ic) cs M1), m2)" "hm_inv env ic ok m2"
    "\<forall>k. ok k \<longrightarrow> hm_map m2 k = snd (spec_run (\<lambda>a b. rep_equal a b ic) cs M1) k"
    using Cons.IH [OF m1(2,3)] Cons.prems(3) by auto
  with m1 s show ?case
    by (auto split: prod.split)
qed simp

lemma new_table:
  assumes "0 < n"
  shows "hm_inv env ic ok (hm_allocate n (hm_new ic))" and "hm_map (hm_allocate n (hm_new ic)) = (\<lambda>k. None)"
  using assms by (auto simp: hm_inv_def hm_allocate_def hm_new_def hm_map_def)

end

section \<open>The keys of the library\<close>

lemma u__tolower_0 [simp]: "u__tolower c = 0 \<longleftrightarrow> c = 0"
  by (rule all_byteI [where P = "\<lambda>c. u__tolower c = 0 \<longleftrightarrow> c = 0"]) code_simp

lemma strncase_eq_refl: "strncase_eq a a"
  by (induction a) simp_all

lemma strncase_eq_sym: "strncase_eq a b \<Longrightarrow> strncase_eq b a"
proof (induction a b rule: strncase_eq.induct)
  case (1 x a y b)
  then show ?case
    using u__tolower_0 [of x] u__tolower_0 [of y] by auto
qed simp_all

lemma strncase_eq_trans:
  "strncase_eq a b \<Longrightarrow> strncase_eq b c \<Longrightarrow> length a = length b \<Longrightarrow> length b = length c \<Longrightarrow> strncase_eq a c"
proof (induction a b arbitrary: c rule: strncase_eq.induct)
  case (1 x a y b)
  then obtain z c' where c: "c = z # c'"
    by (cases c) auto
  show ?case
    using 1 u__tolower_0 [of x] u__tolower_0 [of y] unfolding c by auto
qed (auto simp: length_Suc_conv)

lemma strncase_eq_map:
  "strncase_eq a b \<Longrightarrow> length a = length b \<Longrightarrow> 0 \<notin> set a \<Longrightarrow> map u__tolower a = map u__tolower b"
  by (induction a b rule: strncase_eq.induct) auto

lemma rep_equal_cs [simp]: "rep_equal a b False \<longleftrightarrow> a = b"
  by (auto simp: rep_equal_def)

text \<open>
  The keys that a map may use without surprises when it ignores case: \<open>u_hash\<close> folds whole words
  only, and \<open>strncasecmp\<close> stops at a null character.
\<close>

definition fold_key :: "byte list \<Rightarrow> bool" where
  "fold_key k \<longleftrightarrow> length k mod 4 = 0 \<and> 0 \<notin> set k"

definition std_env :: "u32 \<Rightarrow> hash_env" where
  "std_env seed = \<lparr>gperf = None, seed_hash = seed\<rparr>"

interpretation cs: map_keys "std_env seed" False "\<lambda>k. True" for seed
  by unfold_locales (simp_all add: std_env_def)

interpretation ci: map_keys "std_env seed" True fold_key for seed
proof unfold_locales
  fix a b c :: "byte list"
  show "rep_equal a a True"
    by (simp add: rep_equal_def strncase_eq_refl)
  show "rep_equal a b True \<Longrightarrow> rep_equal b a True"
    by (simp add: rep_equal_def strncase_eq_sym)
  show "rep_equal a b True \<Longrightarrow> rep_equal b c True \<Longrightarrow> rep_equal a c True"
    using strncase_eq_trans [of a b c] by (simp add: rep_equal_def)
  show "fold_key a \<Longrightarrow> fold_key b \<Longrightarrow> rep_equal a b True \<Longrightarrow>
      u_hash (seed_hash (std_env seed)) a True = u_hash (seed_hash (std_env seed)) b True"
    using murmur_ci.hash_eq_ignoring_case [of a b "seed_hash (std_env seed)"] strncase_eq_map [of a b]
    by (simp add: rep_equal_def fold_key_def)
qed (simp add: std_env_def)

section \<open>Traversal\<close>

text \<open>The position of \<open>node\<close> among all nodes, in the order of the table.\<close>

definition cursor :: "'e hash_map \<Rightarrow> nat \<Rightarrow> bool" where
  "cursor m c \<longleftrightarrow> (\<exists>p. h_node m = At p \<and> h_index m < h_capacity m \<and> p < length (h_table m ! h_index m) \<and>
     c = length (concat (take (h_index m) (h_table m))) + p)"

lemma next_bucket_True:
  "next_bucket tab i = (j, True) \<Longrightarrow> i \<le> j \<and> j - i < length tab \<and> tab ! (j - i) \<noteq> [] \<and> concat (take (j - i) tab) = []"
proof (induction tab i rule: next_bucket.induct)
  case (2 chain tab i)
  show ?case
  proof (cases "chain = []")
    case True
    with 2 have IH: "Suc i \<le> j" "j - Suc i < length tab" "tab ! (j - Suc i) \<noteq> []" "concat (take (j - Suc i) tab) = []"
      by simp_all
    have "j - i = Suc (j - Suc i)"
      using IH(1) by arith
    with IH True show ?thesis by simp
  next
    case False
    with 2 show ?thesis by auto
  qed
qed simp

lemma next_bucket_False: "next_bucket tab i = (j, False) \<Longrightarrow> concat tab = [] \<and> j = i + length tab"
  by (induction tab i rule: next_bucket.induct) (auto split: if_splits)

lemma concat_split_at:
  "i < length tab \<Longrightarrow> concat tab = concat (take i tab) @ tab ! i @ concat (drop (Suc i) tab)"
  by (metis concat.simps(2) concat_append id_take_nth_drop)

lemma cursor_deref:
  assumes "cursor m c"
  shows "c < length (concat (h_table m)) \<and> deref m = Some (concat (h_table m) ! c)"
proof -
  obtain p where p: "h_node m = At p" "h_index m < h_capacity m" "p < length (h_table m ! h_index m)"
    "c = length (concat (take (h_index m) (h_table m))) + p"
    using assms by (auto simp: cursor_def)
  then show ?thesis
    unfolding concat_split_at [OF p(2)] by (simp add: deref_def nth_append)
qed

lemma first_cursor:
  assumes "concat (h_table m) \<noteq> []"
  shows "\<exists>m'. hm_first m = (True, m') \<and> cursor m' 0 \<and> h_table m' = h_table m"
proof (cases "next_bucket (h_table m) 0")
  case (Pair i b)
  with assms next_bucket_False [of "h_table m" 0 i] have b: "b = True"
    by (cases b) auto
  with Pair next_bucket_True [of "h_table m" 0 i] show ?thesis
    by (simp add: hm_first_def cursor_def)
qed

lemma next_cursor:
  assumes "cursor m c" and "Suc c < length (concat (h_table m))"
  shows "\<exists>m'. hm_next m = Some (True, m') \<and> cursor m' (Suc c) \<and> h_table m' = h_table m"
proof -
  let ?i = "h_index m"
  let ?tab = "h_table m"
  obtain p where p: "h_node m = At p" "?i < h_capacity m" "p < length (?tab ! ?i)"
    "c = length (concat (take ?i ?tab)) + p"
    using assms by (auto simp: cursor_def)
  show ?thesis
  proof (cases "Suc p < length (?tab ! ?i)")
    case True
    with p show ?thesis by (simp add: hm_next_def cursor_def)
  next
    case False
    with p(3) have last: "length (?tab ! ?i) = Suc p" by simp
    obtain j b where nb: "next_bucket (drop (Suc ?i) ?tab) (Suc ?i) = (j, b)"
      by (cases "next_bucket (drop (Suc ?i) ?tab) (Suc ?i)")
    have "concat (drop (Suc ?i) ?tab) \<noteq> []"
      using assms(2) last p(4) unfolding concat_split_at [OF p(2)] by auto
    with nb next_bucket_False [of "drop (Suc ?i) ?tab" "Suc ?i" j] have b: "b = True"
      by (cases b) simp_all
    from next_bucket_True [OF nb [unfolded b]]
    have j: "Suc ?i \<le> j" "j < length ?tab" "?tab ! j \<noteq> []" "concat (take (j - Suc ?i) (drop (Suc ?i) ?tab)) = []"
      by (auto simp: nth_drop)
    have "take j ?tab = take (Suc ?i) ?tab @ take (j - Suc ?i) (drop (Suc ?i) ?tab)"
      using j(1) by (metis le_add_diff_inverse take_add)
    then have "concat (take j ?tab) = concat (take (Suc ?i) ?tab)"
      using j(4) by simp
    also have "\<dots> = concat (take ?i ?tab) @ ?tab ! ?i"
      using p(2) by (simp add: take_Suc_conv_app_nth)
    finally have "length (concat (take j ?tab)) = Suc c"
      using last p(4) by simp
    with p False nb b j show ?thesis
      by (simp add: hm_next_def cursor_def)
  qed
qed

lemma next_end:
  assumes "cursor m c" and "Suc c = length (concat (h_table m))"
  shows "\<exists>m'. hm_next m = Some (False, m') \<and> h_table m' = h_table m"
proof -
  let ?i = "h_index m"
  let ?tab = "h_table m"
  obtain p where p: "h_node m = At p" "?i < h_capacity m" "p < length (?tab ! ?i)"
    "c = length (concat (take ?i ?tab)) + p"
    using assms by (auto simp: cursor_def)
  have "Suc p = length (?tab ! ?i)" and "length (concat (drop (Suc ?i) ?tab)) = 0"
    using assms(2) p(3,4) unfolding concat_split_at [OF p(2)] by (simp_all del: length_0_conv)
  then have none: "concat (drop (Suc ?i) ?tab) = []"
    by (simp only: length_0_conv)
  obtain j b where nb: "next_bucket (drop (Suc ?i) ?tab) (Suc ?i) = (j, b)"
    by (cases "next_bucket (drop (Suc ?i) ?tab) (Suc ?i)")
  have "\<not> b"
  proof
    assume b
    with nb have *: "next_bucket (drop (Suc ?i) ?tab) (Suc ?i) = (j, True)" by simp
    have "drop (Suc ?i) ?tab ! (j - Suc ?i) \<in> set (drop (Suc ?i) ?tab)"
      using next_bucket_True [OF *] by (intro nth_mem) blast
    with none have "drop (Suc ?i) ?tab ! (j - Suc ?i) = []" by simp
    with next_bucket_True [OF *] show False by blast
  qed
  with p nb \<open>Suc p = length (?tab ! ?i)\<close> show ?thesis
    by (simp add: hm_next_def)
qed

section \<open>Properties\<close>

text \<open>A table of two chains with the cursor on its first node.\<close>

definition two_entries :: "nat hash_map" where
  "two_entries = \<lparr>h_table = [[\<lparr>n_elem = 1, n_key = bytes ''a'', n_hash = 2\<rparr>], [\<lparr>n_elem = 2, n_key = bytes ''b'', n_hash = 1\<rparr>]],
     h_length = 2, h_space = 0, h_index = 0, h_hash = 2, h_node = At 0, h_ignore_case = False\<rparr>"

text \<open>
  C1: a map with case-sensitive keys, allocated with any positive capacity and driven by any sequence of
  insertions, erasures, searches, resizings and clearings, never fails, gives the answers of an
  abstract map, and ends in a well-formed table that holds exactly the entries of that map. The number
  of nodes is the number the object reports.
\<close>

theorem hash_map_refines:
  assumes "0 < n"
  shows "\<exists>m. hm_run (std_env seed) cs (hm_allocate n (hm_new False)) = Some (fst (spec_run (=) cs (\<lambda>k. None)), m) \<and>
    hm_inv (std_env seed) False (\<lambda>k. True) m \<and> hm_map m = snd (spec_run (=) cs (\<lambda>k. None))"
  using cs.run_refines [OF cs.new_table(1) [OF assms], of "\<lambda>k. None" cs seed]
  by (simp add: cs.new_table(2) [OF assms]) (auto simp: fun_eq_iff)

theorem hash_map_refines_witness:
  "\<exists>m. hm_run (std_env 7) [Insert (bytes ''a'') 1, Insert (bytes ''a'') 2, Reserve 100, Erase (bytes ''b''), Get (bytes ''a'')]
      (hm_allocate 2 (hm_new False)) = Some ([None, None, None, None, Some (2 :: nat)], m)"
    (is "\<exists>m. hm_run _ ?cs _ = Some (?rs, m)")
proof -
  have "fst (spec_run (=) ?cs (\<lambda>k. None)) = ?rs" by simp
  then show ?thesis
    using hash_map_refines [of 2 7 ?cs] by (metis zero_less_numeral)
qed

text \<open>
  The same for a map that ignores case, with keys compared without case, as long as every key has a
  length that is a multiple of four and no null character.
\<close>

theorem hash_map_ignore_case:
  assumes "0 < n" and "\<forall>c \<in> set cs. \<forall>k \<in> op_keys c. fold_key k"
  shows "\<exists>m. hm_run (std_env seed) cs (hm_allocate n (hm_new True)) =
      Some (fst (spec_run (\<lambda>a b. rep_equal a b True) cs (\<lambda>k. None)), m) \<and>
    hm_inv (std_env seed) True fold_key m \<and>
    (\<forall>k. fold_key k \<longrightarrow> hm_map m k = snd (spec_run (\<lambda>a b. rep_equal a b True) cs (\<lambda>k. None)) k)"
  using ci.run_refines [OF ci.new_table(1) [OF assms(1)], of "\<lambda>k. None" cs seed] assms(2)
  by (simp add: ci.new_table(2) [OF assms(1)])

theorem hash_map_ignore_case_witness:
  "\<exists>m. hm_run (std_env 7) [Insert (bytes ''Host'') 1, Get (bytes ''hOST'')] (hm_allocate 53 (hm_new True)) =
     Some ([None, Some (1 :: nat)], m)" (is "\<exists>m. hm_run _ ?cs _ = Some (?rs, m)")
proof -
  have k: "fold_key (bytes ''Host'')" "fold_key (bytes ''hOST'')" by code_simp+
  have "rep_equal (bytes ''Host'') (bytes ''hOST'') True" by code_simp
  then have "fst (spec_run (\<lambda>a b. rep_equal a b True) ?cs (\<lambda>k. None)) = ?rs" by (simp del: bytes_simps)
  moreover have "\<forall>c \<in> set ?cs. \<forall>k \<in> op_keys c. fold_key k"
    using k by (simp del: bytes_simps)
  ultimately show ?thesis
    using hash_map_ignore_case [of 53 ?cs 7] by (metis zero_less_numeral)
qed

text \<open>
  With other keys a map that ignores case loses entries: after \<open>id\<close> has been inserted in a map of
  the default capacity, \<open>ID\<close> is not found, and inserting it adds a second node although the two keys
  compare equal.
\<close>

theorem hash_map_ignore_case_defect:
  "rep_equal (bytes ''id'') (bytes ''ID'') True \<and>
   map_option (map_prod id h_length)
     (hm_run (std_env u_seed_hash) [Insert (bytes ''id'') 1, Get (bytes ''ID''), Insert (bytes ''ID'') (2 :: nat)]
       (hm_allocate 53 (hm_new True))) = Some ([None, None, None], 2)"
proof
  show "rep_equal (bytes ''id'') (bytes ''ID'') True" by code_simp
  have h: "u_hash u_seed_hash (bytes ''id'') True = 2110153537" "u_hash u_seed_hash (bytes ''ID'') True = 3744030289"
    by code_simp+
  show "map_option (map_prod id h_length)
     (hm_run (std_env u_seed_hash) [Insert (bytes ''id'') 1, Get (bytes ''ID''), Insert (bytes ''ID'') (2 :: nat)]
       (hm_allocate 53 (hm_new True))) = Some ([None, None, None], 2)"
    by (simp add: hm_insert_def hm_at_def insertAfterFind_def insertAfterFind_void_def lookup_def std_env_def
        hm_allocate_def hm_new_def set_chain_def h Let_def del: bytes_simps)
qed

text \<open>
  \<open>UHashMap<void*>::insert\<close> does not overwrite: the second insertion of a key adds a node in front
  of the first, and erasing the key uncovers the first element again.
\<close>

theorem insert_void_shadows:
  assumes "0 < n"
  shows "map_option (\<lambda>(a, b). (a, fst b))
     (do { m \<leftarrow> insert_void (std_env seed) k x (hm_allocate n (hm_new False));
           m \<leftarrow> insert_void (std_env seed) k y m;
           (a, m) \<leftarrow> hm_erase (std_env seed) k m;
           b \<leftarrow> hm_at (std_env seed) k m;
           Some (a, b) }) = Some (Some y, Some x)"
  using assms by (simp add: insert_void_def insertAfterFind_void_def hm_erase_def hm_at_def lookup_def std_env_def
      eraseAfterFind_def eraseAfterFind_link_def deref_def hm_allocate_def hm_new_def set_chain_def Let_def)

theorem insert_void_shadows_witness:
  "map_option (\<lambda>(a, b). (a, fst b))
     (do { m \<leftarrow> insert_void (std_env 7) (bytes ''k'') (1 :: nat) (hm_allocate 53 (hm_new False));
           m \<leftarrow> insert_void (std_env 7) (bytes ''k'') 2 m;
           (a, m) \<leftarrow> hm_erase (std_env 7) (bytes ''k'') m;
           b \<leftarrow> hm_at (std_env 7) (bytes ''k'') m;
           Some (a, b) }) = Some (Some 2, Some 1)"
  by (rule insert_void_shadows) simp

text \<open>
  C31: \<open>first\<close> and \<open>next\<close> visit every node of the table exactly once and in its order: \<open>first\<close> starts at
  the first node, \<open>next\<close> moves to the following one and tells the end after the last.
\<close>

theorem traversal_visits_all:
  "(if concat (h_table m) = [] then \<not> fst (hm_first m)
    else \<exists>m'. hm_first m = (True, m') \<and> cursor m' 0 \<and> h_table m' = h_table m) \<and>
   (cursor m c \<longrightarrow> deref m = Some (concat (h_table m) ! c) \<and>
     (if Suc c < length (concat (h_table m))
      then \<exists>m'. hm_next m = Some (True, m') \<and> cursor m' (Suc c) \<and> h_table m' = h_table m
      else \<exists>m'. hm_next m = Some (False, m') \<and> h_table m' = h_table m))"
proof -
  have "\<not> fst (hm_first m)" if none: "concat (h_table m) = []"
  proof (cases "next_bucket (h_table m) 0")
    case (Pair i b)
    have "\<not> b"
    proof
      assume b
      with Pair next_bucket_True [of "h_table m" 0 i] have "i < length (h_table m)" "h_table m ! i \<noteq> []" by auto
      with none nth_mem show False by fastforce
    qed
    with Pair show ?thesis by (simp add: hm_first_def)
  qed
  then have first: "if concat (h_table m) = [] then \<not> fst (hm_first m)
      else \<exists>m'. hm_first m = (True, m') \<and> cursor m' 0 \<and> h_table m' = h_table m"
    using first_cursor [of m] by (simp del: concat_eq_Nil_conv)
  have step: "if Suc c < length (concat (h_table m))
      then \<exists>m'. hm_next m = Some (True, m') \<and> cursor m' (Suc c) \<and> h_table m' = h_table m
      else \<exists>m'. hm_next m = Some (False, m') \<and> h_table m' = h_table m" if "cursor m c"
  proof (cases "Suc c < length (concat (h_table m))")
    case True
    with next_cursor [OF that True] show ?thesis by simp
  next
    case False
    with cursor_deref [OF that] have "Suc c = length (concat (h_table m))" by linarith
    with next_end [OF that this] False show ?thesis by simp
  qed
  show ?thesis
    by (intro conjI impI first step) (use cursor_deref in blast)
qed

theorem traversal_visits_all_witness:
  "\<exists>m'. hm_next two_entries = Some (True, m') \<and> cursor m' 1 \<and> h_table m' = h_table two_entries"
proof -
  have "cursor two_entries 0" by (simp add: cursor_def two_entries_def)
  with traversal_visits_all [of two_entries 0] show ?thesis by (simp add: two_entries_def)
qed

text \<open>The two nested loops of a traversal are one loop over all nodes.\<close>

lemma call_buckets_concat: "call_buckets f tab s = fst (call_entries f (concat tab) s)"
proof (induction tab arbitrary: s)
  case (Cons chain tab)
  have "call_entries f (xs @ ys) s =
      (case call_entries f xs s of (s, stop) \<Rightarrow> if stop then (s, True) else call_entries f ys s)" for xs ys s
    by (induction xs arbitrary: s) (simp_all split: prod.split)
  with Cons show ?case by (simp split: prod.split)
qed simp

lemma call_entries_no_stop:
  "(\<And>k e s. \<not> snd (f k e s)) \<Longrightarrow>
   call_entries f ns s = (fold (\<lambda>n s. fst (f (n_key n) (n_elem n) s)) ns s, False)"
  by (induction ns arbitrary: s) (simp_all split: prod.split, metis snd_conv)

lemma delete_entries_filter:
  "(\<And>k e. f k e s = (s, d k e, False)) \<Longrightarrow> delete_entries f p ns s False =
     (filter (\<lambda>n. \<not> d (n_key n) (n_elem n)) ns, length (filter (\<lambda>n. d (n_key n) (n_elem n)) ns), s, False, None)"
  by (induction ns arbitrary: p) simp_all

lemma delete_buckets_filter:
  "(\<And>k e. f k e s = (s, d k e, False)) \<Longrightarrow> delete_buckets f i tab s False =
     (map (filter (\<lambda>n. \<not> d (n_key n) (n_elem n))) tab,
      length (filter (\<lambda>n. d (n_key n) (n_elem n)) (concat tab)), s, False, None)"
  by (induction tab arbitrary: i) (simp_all add: delete_entries_filter)

text \<open>
  \<open>callForAllEntry\<close> with a function that does not stop calls it once on every entry, in the order of
  the table; \<open>getKeys\<close> lists the keys of the same entries in the same order.
\<close>

theorem callForAllEntry_all:
  assumes "\<And>k e s. \<not> snd (f k e s)"
  shows "callForAllEntry f m s = fold (\<lambda>n s. fst (f (n_key n) (n_elem n) s)) (concat (h_table m)) s \<and>
    fst (getKeys m) = map n_key (concat (h_table m))"
  by (simp add: callForAllEntry_def getKeys_def call_buckets_concat call_entries_no_stop [OF assms] map_concat)

theorem callForAllEntry_all_witness: "callForAllEntry (\<lambda>k e s. (s @ [e], False)) two_entries [] = [1, 2]"
  using callForAllEntry_all [of "\<lambda>k e s. (s @ [e], False)" two_entries "[]"] by (simp add: two_entries_def)

text \<open>
  \<open>callWithDeleteForAllEntry\<close> with a test that does not stop keeps the entries on which the test is
  false, in their order, and the number of nodes stays right.
\<close>

theorem callWithDelete_filters:
  assumes "h_length m = length (concat (h_table m))"
  shows "\<exists>m'. callWithDeleteForAllEntry (\<lambda>k e s. (s, d k e, False)) m s False = (m', s, False) \<and>
    h_table m' = map (filter (\<lambda>n. \<not> d (n_key n) (n_elem n))) (h_table m) \<and>
    h_length m' = length (concat (h_table m'))"
proof -
  let ?P = "\<lambda>n. d (n_key n) (n_elem n)"
  have "length (concat (h_table m)) - length (filter ?P (concat (h_table m))) =
      length (filter (\<lambda>n. \<not> ?P n) (concat (h_table m)))"
    using sum_length_filter_compl [of ?P "concat (h_table m)"] by linarith
  moreover have "concat (map (filter (\<lambda>n. \<not> ?P n)) (h_table m)) = filter (\<lambda>n. \<not> ?P n) (concat (h_table m))"
    by (simp add: filter_concat)
  ultimately show ?thesis
    using assms by (simp add: callWithDeleteForAllEntry_def delete_buckets_filter [of _ _ d])
qed

theorem callWithDelete_filters_witness:
  "\<exists>m'. callWithDeleteForAllEntry (\<lambda>k e s. (s, e = 1, False)) two_entries () False = (m', (), False) \<and> h_length m' = 1"
proof -
  have "h_length two_entries = length (concat (h_table two_entries))"
    by (simp add: two_entries_def)
  from callWithDelete_filters [OF this, of "\<lambda>k e. e = 1" "()"] show ?thesis
    by (auto simp: two_entries_def)
qed

text \<open>
  The stop flag of \<open>callWithDeleteForAllEntry\<close> is tested before a call only: a function that stops
  at the last entry leaves the flag set, and the next traversal ends before its first entry.
\<close>

theorem callWithDelete_stale_stop:
  "case callWithDeleteForAllEntry (\<lambda>k e n. (Suc n, False, True))
     (two_entries\<lparr>h_table := [[], [\<lparr>n_elem = 2, n_key = bytes ''b'', n_hash = 1\<rparr>]], h_length := 1\<rparr>) 0 False of
     (m, n, stop) \<Rightarrow> n = 1 \<and> stop \<and>
       fst (snd (callWithDeleteForAllEntry (\<lambda>k e n. (Suc n, False, False)) m 0 stop)) = 0"
  by (simp add: callWithDeleteForAllEntry_def)

text \<open>
  After \<open>find\<close> has found a key, \<open>replaceKey\<close> moves its element to a new key that the map does not have
  yet, and changes nothing else.
\<close>

theorem replaceKey_moves:
  assumes "hm_inv (std_env seed) False (\<lambda>k. True) m" and "hm_map m k = Some e" and "hm_map m k' = None"
  shows "\<exists>m'. Option.bind (lookup (std_env seed) k m) (replaceKey (std_env seed) k') = Some m' \<and>
    hm_inv (std_env seed) False (\<lambda>k. True) m' \<and> hm_map m' = (hm_map m)(k := None, k' \<mapsto> e)"
  using cs.replaceKey_spec [OF assms(1) _ _ assms(2,3)] by (auto simp: fun_eq_iff)

theorem replaceKey_moves_witness:
  "\<exists>m m'. hm_insert (std_env 7) (bytes ''a'') (1 :: nat) (hm_allocate 53 (hm_new False)) = Some m \<and>
     Option.bind (lookup (std_env 7) (bytes ''a'') m) (replaceKey (std_env 7) (bytes ''b'')) = Some m' \<and>
     hm_map m' (bytes ''b'') = Some 1 \<and> hm_map m' (bytes ''a'') = None"
proof -
  have "hm_inv (std_env 7) False (\<lambda>k. True) (hm_allocate 53 (hm_new False) :: nat hash_map)"
    by (rule cs.new_table) simp
  then obtain m where m: "hm_insert (std_env 7) (bytes ''a'') (1 :: nat) (hm_allocate 53 (hm_new False)) = Some m"
    "hm_inv (std_env 7) False (\<lambda>k. True) m" "\<And>k. hm_map m k = (if bytes ''a'' = k then Some 1 else None)"
    using cs.insert_spec [where k = "bytes ''a''" and seed = 7 and e = "1 :: nat"]
    by (fastforce simp: cs.new_table(2))
  from replaceKey_moves [OF m(2), of "bytes ''a''" 1 "bytes ''b''"] m show ?thesis
    by auto
qed

text \<open>
  \<open>assign\<close> makes a well-formed map with the entries of the other map, whatever the map held before.
\<close>

theorem assign_copies:
  assumes "hm_inv (std_env seed) False (\<lambda>k. True) t" and "hm_inv (std_env seed) False (\<lambda>k. True) m"
  shows "hm_inv (std_env seed) False (\<lambda>k. True) (hm_assign t m) \<and> hm_map (hm_assign t m) = hm_map t"
  using cs.assign_spec [OF assms] by (auto simp: fun_eq_iff)

theorem assign_copies_witness:
  "hm_map (hm_assign (hm_allocate 3 (hm_new False)) (hm_allocate 53 (hm_new False) :: nat hash_map)) = (\<lambda>k. None)"
proof -
  have inv: "hm_inv (std_env 7) False (\<lambda>k. True) (hm_allocate n (hm_new False) :: nat hash_map)" if "0 < n" for n
    using that by (rule cs.new_table)
  show ?thesis
    using assign_copies [OF inv inv, of 3 53] by (simp add: cs.new_table(2))
qed

end
