(* ===== verification/Vector.thy ===== *)
theory Vector
  imports Prelude
begin

text \<open>
  The vector \<open>UVector<void*>\<close> of \<open>include/ulib/container/vector.h\<close> and \<open>src/ulib/container/vector.cpp\<close>,
  with the parts of \<open>UVector<T*>\<close> that work on the array.

  The array is a list of cells, its length the capacity; a cell that has not been written is \<open>None\<close>. An
  access outside the array, or reading a cell that was never written, is \<open>None\<close>. The capacity is a 32-bit
  number and wraps where the source shifts it. The allocator is the one of a build without
  \<open>ENABLE_MEMPOOL\<close>; the construction and destruction of the elements are not part of the model. The
  assertions of a debug build are the preconditions of the properties.
\<close>

section \<open>Cells\<close>

definition slice :: "'c list \<Rightarrow> nat \<Rightarrow> nat \<Rightarrow> 'c list option" where
  "slice m i n = (if i + n \<le> length m then Some (take n (drop i m)) else None)"

definition blit :: "'c list \<Rightarrow> nat \<Rightarrow> 'c list \<Rightarrow> 'c list option" where
  "blit m i xs = (if i + length xs \<le> length m then Some (take i m @ xs @ drop (i + length xs) m) else None)"

text \<open>\<open>memcpy\<close> and \<open>memmove\<close> of \<open>n\<close> cells.\<close>

definition copy_cells :: "'c list \<Rightarrow> nat \<Rightarrow> 'c list \<Rightarrow> nat \<Rightarrow> nat \<Rightarrow> 'c list option" where
  "copy_cells dst i src j n = Option.bind (slice src j n) (blit dst i)"

definition write_cell :: "'c list \<Rightarrow> nat \<Rightarrow> 'c \<Rightarrow> 'c list option" where
  "write_cell m i c = (if i < length m then Some (m[i := c]) else None)"

section \<open>State\<close>

record 'a uvector =
  vec :: "'a option list"
  v_length :: nat

abbreviation v_capacity :: "'a uvector \<Rightarrow> nat" where
  "v_capacity v \<equiv> length (vec v)"

definition v_new :: "nat \<Rightarrow> 'a uvector" where
  "v_new n = \<lparr>vec = replicate n None, v_length = 0\<rparr>"

definition read_cell :: "'a uvector \<Rightarrow> nat \<Rightarrow> 'a option" where
  "read_cell v i = (if i < v_capacity v then vec v ! i else None)"

section \<open>Stack operations\<close>

definition twice :: "nat \<Rightarrow> nat" where
  "twice n = (2 * n) mod 2 ^ 32"

definition v_push :: "'a \<Rightarrow> 'a uvector \<Rightarrow> 'a uvector option" where
  "v_push e v = do {
     m \<leftarrow> (if v_length v = v_capacity v
          then copy_cells (replicate (twice (v_capacity v)) None) 0 (vec v) 0 (v_length v)
          else Some (vec v));
     m \<leftarrow> write_cell m (v_length v) (Some e);
     Some \<lparr>vec = m, v_length = v_length v + 1\<rparr>
   }"

definition v_top :: "'a uvector \<Rightarrow> 'a option" where
  "v_top v = (if v_length v = 0 then None else read_cell v (v_length v - 1))"

definition v_pop :: "'a uvector \<Rightarrow> ('a \<times> 'a uvector) option" where
  "v_pop v =
     (if v_length v = 0 then None
      else map_option (\<lambda>e. (e, v\<lparr>v_length := v_length v - 1\<rparr>)) (read_cell v (v_length v - 1)))"

section \<open>List operations\<close>

definition v_insert :: "nat \<Rightarrow> 'a \<Rightarrow> 'a uvector \<Rightarrow> 'a uvector option" where
  "v_insert pos e v = do {
     m \<leftarrow> (if v_length v = v_capacity v then do {
            m \<leftarrow> copy_cells (replicate (twice (v_capacity v)) None) 0 (vec v) 0 pos;
            copy_cells m (pos + 1) (vec v) pos (v_length v - pos)
          }
          else copy_cells (vec v) (pos + 1) (vec v) pos (v_length v - pos));
     m \<leftarrow> write_cell m pos (Some e);
     Some \<lparr>vec = m, v_length = v_length v + 1\<rparr>
   }"

fun fill_cells :: "'c list \<Rightarrow> nat \<Rightarrow> nat \<Rightarrow> 'c \<Rightarrow> 'c list option" where
  "fill_cells m pos 0 c = Some m"
| "fill_cells m pos (Suc n) c = Option.bind (write_cell m pos c) (\<lambda>m. fill_cells m (pos + 1) n c)"

definition v_insert_n :: "nat \<Rightarrow> nat \<Rightarrow> 'a \<Rightarrow> 'a uvector \<Rightarrow> 'a uvector option" where
  "v_insert_n pos n e v =
     (let new_length = (v_length v + n) mod 2 ^ 32
      in do {
        m \<leftarrow> (if new_length > v_capacity v then do {
               m \<leftarrow> copy_cells (replicate (twice new_length) None) 0 (vec v) 0 pos;
               copy_cells m (pos + n) (vec v) pos (v_length v - pos)
             }
             else copy_cells (vec v) (pos + n) (vec v) pos (v_length v - pos));
        m \<leftarrow> fill_cells m pos n (Some e);
        Some \<lparr>vec = m, v_length = new_length\<rparr>
      })"

definition v_erase :: "nat \<Rightarrow> 'a uvector \<Rightarrow> 'a uvector option" where
  "v_erase pos v =
     (let len = v_length v - 1
      in do {
        m \<leftarrow> (if len \<noteq> 0 then copy_cells (vec v) pos (vec v) (pos + 1) (len - pos) else Some (vec v));
        Some \<lparr>vec = m, v_length = len\<rparr>
      })"

definition v_erase_range :: "nat \<Rightarrow> nat \<Rightarrow> 'a uvector \<Rightarrow> 'a uvector option" where
  "v_erase_range from to v =
     (let new_length = v_length v - (to - from)
      in do {
        m \<leftarrow> (if new_length \<noteq> 0 then copy_cells (vec v) from (vec v) to (v_length v - to) else Some (vec v));
        Some \<lparr>vec = m, v_length = new_length\<rparr>
      })"

definition v_reserve :: "nat \<Rightarrow> 'a uvector \<Rightarrow> 'a uvector option" where
  "v_reserve n v =
     (if n \<noteq> v_capacity v then
        (let n = (if n = 0 then 64 else n)
         in do {
           m \<leftarrow> (if v_length v \<noteq> 0 then copy_cells (replicate n None) 0 (vec v) 0 (v_length v) else Some (replicate n None));
           Some (v\<lparr>vec := m\<rparr>)
         })
      else Some v)"

definition v_replace :: "nat \<Rightarrow> 'a \<Rightarrow> 'a uvector \<Rightarrow> 'a uvector option" where
  "v_replace pos e v = map_option (\<lambda>m. v\<lparr>vec := m\<rparr>) (write_cell (vec v) pos (Some e))"

definition v_swap :: "nat \<Rightarrow> nat \<Rightarrow> 'a uvector \<Rightarrow> 'a uvector option" where
  "v_swap from to v = do {
     tmp \<leftarrow> read_cell v from;
     y \<leftarrow> read_cell v to;
     m \<leftarrow> write_cell (vec v) from (Some y);
     m \<leftarrow> write_cell m to (Some tmp);
     Some (v\<lparr>vec := m\<rparr>)
   }"

definition v_clear :: "'a uvector \<Rightarrow> 'a uvector" where
  "v_clear v = v\<lparr>v_length := 0\<rparr>"

definition v_assign :: "nat \<Rightarrow> 'a \<Rightarrow> 'a uvector \<Rightarrow> 'a uvector option" where
  "v_assign n e v =
     (let m = (if n > v_capacity v then replicate n None else vec v)
      in map_option (\<lambda>m. \<lparr>vec = m, v_length = n\<rparr>) (fill_cells m 0 n (Some e)))"

section \<open>Search\<close>

text \<open>\<open>find\<close>: the loop over the positions below the length; \<open>None\<close> inside is \<open>U_NOT_FOUND\<close>.\<close>

fun v_find_loop :: "('a \<Rightarrow> bool) \<Rightarrow> 'a uvector \<Rightarrow> nat \<Rightarrow> nat \<Rightarrow> nat option option" where
  "v_find_loop p v i 0 = Some None"
| "v_find_loop p v i (Suc n) = Option.bind (read_cell v i) (\<lambda>e. if p e then Some (Some i) else v_find_loop p v (i + 1) n)"

definition v_find :: "'a \<Rightarrow> 'a uvector \<Rightarrow> nat option option" where
  "v_find e v = v_find_loop (\<lambda>x. x = e) v 0 (v_length v)"

text \<open>\<open>callForAllEntry\<close> with a function that answers whether to go on.\<close>

fun call_loop :: "('a \<Rightarrow> 's \<Rightarrow> 's \<times> bool) \<Rightarrow> 'a uvector \<Rightarrow> nat \<Rightarrow> nat \<Rightarrow> 's \<Rightarrow> 's option" where
  "call_loop f v i 0 s = Some s"
| "call_loop f v i (Suc n) s = do {
     e \<leftarrow> read_cell v i;
     case f e s of (s, go) \<Rightarrow> if go then call_loop f v (i + 1) n s else Some s
   }"

definition v_callForAllEntry :: "('a \<Rightarrow> 's \<Rightarrow> 's \<times> bool) \<Rightarrow> 'a uvector \<Rightarrow> 's \<Rightarrow> 's option" where
  "v_callForAllEntry f v s = call_loop f v 0 (v_length v) s"

section \<open>The vector as a list\<close>

definition v_rep :: "'a uvector \<Rightarrow> 'a list \<Rightarrow> bool" where
  "v_rep v xs \<longleftrightarrow> 0 < v_capacity v \<and> v_length v = length xs \<and> (\<exists>rest. vec v = map Some xs @ rest)"

lemma v_repE:
  assumes "v_rep v xs"
  obtains rest where "v = \<lparr>vec = map Some xs @ rest, v_length = length xs\<rparr>" "0 < length xs + length rest"
proof -
  from assms obtain rest where "vec v = map Some xs @ rest" "v_length v = length xs" "0 < v_capacity v"
    by (auto simp: v_rep_def)
  with that [of rest] show thesis by (cases v) simp
qed

lemma v_repI:
  "vec v = map Some xs @ rest \<Longrightarrow> v_length v = length xs \<Longrightarrow> 0 < length xs + length rest \<Longrightarrow> v_rep v xs"
  by (auto simp: v_rep_def)

lemma read_cell_rep: "v_rep v xs \<Longrightarrow> i < length xs \<Longrightarrow> read_cell v i = Some (xs ! i)"
  by (auto simp: v_rep_def read_cell_def nth_append)

lemma copy_cells_ok:
  "i + n \<le> length dst \<Longrightarrow> j + n \<le> length src \<Longrightarrow>
   copy_cells dst i src j n = Some (take i dst @ take n (drop j src) @ drop (i + n) dst)"
  by (simp add: copy_cells_def slice_def blit_def)

lemma fill_cells_ok: "pos + n \<le> length m \<Longrightarrow> fill_cells m pos n c = Some (take pos m @ replicate n c @ drop (pos + n) m)"
proof (induction n arbitrary: m pos)
  case (Suc n)
  have "fill_cells m pos (Suc n) c = fill_cells (m[pos := c]) (pos + 1) n c"
    using Suc.prems by (simp add: write_cell_def)
  also have "\<dots> = Some (take (pos + 1) (m[pos := c]) @ replicate n c @ drop (pos + 1 + n) (m[pos := c]))"
    using Suc.prems by (intro Suc.IH) simp
  also have "take (pos + 1) (m[pos := c]) = take pos m @ [c]"
    using Suc.prems by (simp add: take_Suc_conv_app_nth)
  finally show ?case using Suc.prems by simp
qed simp

lemma twice_small: "n < 2 ^ 31 \<Longrightarrow> twice n = 2 * n"
  by (simp add: twice_def)

text \<open>Writing the cell behind a prefix.\<close>

lemma write_after:
  "rest \<noteq> [] \<Longrightarrow> write_cell (xs @ rest) (length xs) c = Some (xs @ c # tl rest)"
  by (cases rest) (simp_all add: write_cell_def)

lemma grow_cells:
  assumes "length xs < 2 ^ 31"
  shows "copy_cells (replicate (twice (length xs)) None) 0 (map Some xs) 0 (length xs) =
    Some (map Some xs @ replicate (length xs) None)"
  using assms by (simp add: copy_cells_ok twice_small mult_2)

lemma push_rep:
  assumes "v_rep v xs" and "length xs < 2 ^ 31"
  shows "\<exists>v'. v_push e v = Some v' \<and> v_rep v' (xs @ [e])"
proof -
  obtain rest where v: "v = \<lparr>vec = map Some xs @ rest, v_length = length xs\<rparr>" "0 < length xs + length rest"
    using assms(1) by (rule v_repE)
  define rest' where "rest' = (if rest = [] then replicate (length xs) None else rest)"
  have ne: "rest' \<noteq> []" using v(2) by (auto simp: rest'_def)
  have "(if v_length v = v_capacity v
      then copy_cells (replicate (twice (v_capacity v)) None) 0 (vec v) 0 (v_length v) else Some (vec v)) = Some (map Some xs @ rest')"
    using grow_cells [OF assms(2)] by (simp add: v(1) rest'_def)
  then have "v_push e v = Some \<lparr>vec = map Some xs @ Some e # tl rest', v_length = length xs + 1\<rparr>"
    using write_after [OF ne, of "map Some xs" "Some e"] by (simp add: v_push_def) (simp add: v(1))
  then show ?thesis by (auto simp: v_rep_def)
qed

text \<open>Opening a gap of \<open>n\<close> cells at a position, in place or in a new array.\<close>

lemma open_gap:
  fixes a b :: "'c list"
  assumes "n + length b \<le> length r"
  shows "\<exists>g rest'. length g = n \<and> copy_cells (a @ r) (length a + n) (a @ b @ rest) (length a) (length b) = Some (a @ g @ b @ rest')"
proof -
  have "copy_cells (a @ r) (length a + n) (a @ b @ rest) (length a) (length b) =
      Some (a @ take n r @ b @ drop (n + length b) r)"
    using assms by (subst copy_cells_ok) simp_all
  then show ?thesis
    using assms by (intro exI [of _ "take n r"] exI [of _ "drop (n + length b) r"]) simp
qed

lemma open_gap_new:
  fixes a b :: "'c list"
  assumes "length a + (n + length b) \<le> k"
  shows "\<exists>g rest'. length g = n \<and>
    Option.bind (copy_cells (replicate k c) 0 (a @ b @ rest) 0 (length a))
      (\<lambda>m. copy_cells m (length a + n) (a @ b @ rest) (length a) (length b)) = Some (a @ g @ b @ rest')"
proof -
  have "copy_cells (replicate k c) 0 (a @ b @ rest) 0 (length a) = Some (a @ replicate (k - length a) c)"
    using assms by (subst copy_cells_ok) simp_all
  then show ?thesis
    using open_gap [of n b "replicate (k - length a) c" a rest] assms by simp
qed

lemma insert_n_rep:
  assumes "v_rep v xs" and "pos \<le> length xs" and "length xs + n < 2 ^ 31" and "0 < n"
  shows "\<exists>v'. v_insert_n pos n e v = Some v' \<and> v_rep v' (take pos xs @ replicate n e @ drop pos xs)"
proof -
  obtain rest where v: "v = \<lparr>vec = map Some xs @ rest, v_length = length xs\<rparr>" "0 < length xs + length rest"
    using assms(1) by (rule v_repE)
  define a where "a = map Some (take pos xs)"
  define b where "b = map Some (drop pos xs)"
  have split: "map Some xs = a @ b" unfolding a_def b_def by (metis append_take_drop_id map_append)
  have l: "length a = pos" "length xs = pos + length b"
    using assms(2) by (simp_all add: a_def b_def)
  have nl: "(v_length v + n) mod 2 ^ 32 = length xs + n"
    using assms(3) by (simp add: v(1))
  obtain g rest' where g: "length g = n" and m: "(if length xs + n > v_capacity v then
        Option.bind (copy_cells (replicate (twice (length xs + n)) None) 0 (vec v) 0 pos)
          (\<lambda>m. copy_cells m (pos + n) (vec v) pos (v_length v - pos))
      else copy_cells (vec v) (pos + n) (vec v) pos (v_length v - pos)) = Some (a @ g @ b @ rest')"
  proof (cases "length xs + n > v_capacity v")
    case True
    have "length a + (n + length b) \<le> twice (length xs + n)"
      using assms(3) l by (simp add: twice_small)
    from open_gap_new [OF this, of None rest] obtain g rest' where "length g = n"
      "Option.bind (copy_cells (replicate (twice (length xs + n)) None) 0 (a @ b @ rest) 0 (length a))
        (\<lambda>m. copy_cells m (length a + n) (a @ b @ rest) (length a) (length b)) = Some (a @ g @ b @ rest')"
      by blast
    then show thesis
      using True by (intro that [of g rest']) (simp_all add: v(1) split l)
  next
    case False
    then have "n + length b \<le> length (b @ rest)"
      by (simp add: v(1) l(2))
    from open_gap [OF this, of a rest] obtain g rest' where "length g = n"
      "copy_cells (a @ b @ rest) (length a + n) (a @ b @ rest) (length a) (length b) = Some (a @ g @ b @ rest')"
      by blast
    then show thesis
      using False by (intro that [of g rest']) (simp_all add: v(1) split l)
  qed
  have "fill_cells (a @ g @ b @ rest') pos n (Some e) = Some (a @ replicate n (Some e) @ b @ rest')"
    using l(1) g by (simp add: fill_cells_ok)
  then have "v_insert_n pos n e v = Some \<lparr>vec = a @ replicate n (Some e) @ b @ rest', v_length = length xs + n\<rparr>"
    unfolding v_insert_n_def nl Let_def m by simp
  moreover have "v_rep \<lparr>vec = a @ replicate n (Some e) @ b @ rest', v_length = length xs + n\<rparr>
      (take pos xs @ replicate n e @ drop pos xs)"
    using assms(2,4) by (intro v_repI [where rest = rest']) (simp_all add: a_def b_def)
  ultimately show ?thesis by blast
qed

lemma insert_rep:
  assumes "v_rep v xs" and "pos \<le> length xs" and "length xs < 2 ^ 31"
  shows "\<exists>v'. v_insert pos e v = Some v' \<and> v_rep v' (take pos xs @ e # drop pos xs)"
proof -
  obtain rest where v: "v = \<lparr>vec = map Some xs @ rest, v_length = length xs\<rparr>" "0 < length xs + length rest"
    using assms(1) by (rule v_repE)
  define a where "a = map Some (take pos xs)"
  define b where "b = map Some (drop pos xs)"
  have split: "map Some xs = a @ b" unfolding a_def b_def by (metis append_take_drop_id map_append)
  have l: "length a = pos" "length xs = pos + length b"
    using assms(2) by (simp_all add: a_def b_def)
  obtain g rest' where g: "length g = 1" and m: "(if v_length v = v_capacity v then
        Option.bind (copy_cells (replicate (twice (v_capacity v)) None) 0 (vec v) 0 pos)
          (\<lambda>m. copy_cells m (pos + 1) (vec v) pos (v_length v - pos))
      else copy_cells (vec v) (pos + 1) (vec v) pos (v_length v - pos)) = Some (a @ g @ b @ rest')"
  proof (cases "rest = []")
    case True
    have "length a + (1 + length b) \<le> twice (length xs)"
      using assms(3) l v(2) True by (cases b) (simp_all add: twice_small)
    from open_gap_new [OF this, of None rest] obtain g rest' where "length g = 1"
      "Option.bind (copy_cells (replicate (twice (length xs)) None) 0 (a @ b @ rest) 0 (length a))
        (\<lambda>m. copy_cells m (length a + 1) (a @ b @ rest) (length a) (length b)) = Some (a @ g @ b @ rest')"
      by blast
    then show thesis
      using True by (intro that [of g rest']) (simp_all add: v(1) split l)
  next
    case False
    then have "1 + length b \<le> length (b @ rest)"
      by (cases rest) simp_all
    from open_gap [OF this, of a rest] obtain g rest' where "length g = 1"
      "copy_cells (a @ b @ rest) (length a + 1) (a @ b @ rest) (length a) (length b) = Some (a @ g @ b @ rest')"
      by blast
    then show thesis
      using False by (intro that [of g rest']) (simp_all add: v(1) split l)
  qed
  obtain y where "g = [y]" using g by (auto simp: length_Suc_conv)
  then have "write_cell (a @ g @ b @ rest') pos (Some e) = Some (a @ Some e # b @ rest')"
    using write_after [of "g @ b @ rest'" a "Some e"] l(1) by simp
  then have "v_insert pos e v = Some \<lparr>vec = a @ Some e # b @ rest', v_length = length xs + 1\<rparr>"
    unfolding v_insert_def m by (simp add: v(1))
  moreover have "v_rep \<lparr>vec = a @ Some e # b @ rest', v_length = length xs + 1\<rparr> (take pos xs @ e # drop pos xs)"
    using assms(2) by (intro v_repI [where rest = rest']) (simp_all add: a_def b_def)
  ultimately show ?thesis by blast
qed

text \<open>Closing a gap.\<close>

lemma close_gap:
  "copy_cells (a @ g @ b @ rest) (length a) (a @ g @ b @ rest) (length a + length g) (length b) =
   Some (a @ b @ drop (length b) (g @ b @ rest))"
  by (subst copy_cells_ok) simp_all

lemma erase_range_rep:
  assumes "v_rep v xs" and "i < j" and "j \<le> length xs"
  shows "\<exists>v'. v_erase_range i j v = Some v' \<and> v_rep v' (take i xs @ drop j xs)"
proof -
  obtain rest where v: "v = \<lparr>vec = map Some xs @ rest, v_length = length xs\<rparr>" "0 < length xs + length rest"
    using assms(1) by (rule v_repE)
  define a where "a = map Some (take i xs)"
  define g where "g = map Some (take (j - i) (drop i xs))"
  define b where "b = map Some (drop j xs)"
  have "xs = take i xs @ take (j - i) (drop i xs) @ drop j xs"
    using assms(2) by (metis append_assoc append_take_drop_id le_add_diff_inverse less_imp_le take_add)
  then have split: "map Some xs = a @ g @ b"
    unfolding a_def g_def b_def by (metis map_append)
  have l: "length a = i" "length g = j - i" "length xs = j + length b"
    using assms(2,3) by (simp_all add: a_def g_def b_def)
  have j: "i + (j - i) = j" using assms(2) by simp
  show ?thesis
  proof (cases "length xs - (j - i) = 0")
    case True
    then have "take i xs @ drop j xs = []" using assms(2,3) by simp
    moreover have "v_erase_range i j v = Some \<lparr>vec = map Some xs @ rest, v_length = 0\<rparr>"
      using True by (simp add: v_erase_range_def v(1) Let_def)
    ultimately show ?thesis using v(2) by (auto simp: v_rep_def)
  next
    case False
    have "v_erase_range i j v = Some \<lparr>vec = a @ b @ drop (length b) (g @ b @ rest), v_length = length xs - (j - i)\<rparr>"
      using False close_gap [of a g b rest] l j by (simp add: v_erase_range_def v(1) split Let_def)
    moreover have "v_rep \<lparr>vec = a @ b @ drop (length b) (g @ b @ rest), v_length = length xs - (j - i)\<rparr> (take i xs @ drop j xs)"
      using False assms(2,3) by (intro v_repI [where rest = "drop (length b) (g @ b @ rest)"]) (simp_all add: a_def b_def)
    ultimately show ?thesis by blast
  qed
qed

lemma erase_rep:
  assumes "v_rep v xs" and "i < length xs"
  shows "\<exists>v'. v_erase i v = Some v' \<and> v_rep v' (take i xs @ drop (Suc i) xs)"
proof -
  have "v_length v = length xs" using assms(1) by (simp add: v_rep_def)
  then have "v_erase i v = v_erase_range i (Suc i) v"
    by (simp add: v_erase_def v_erase_range_def Let_def)
  with erase_range_rep [OF assms(1), of i "Suc i"] assms(2) show ?thesis by simp
qed

lemma reserve_rep:
  assumes "v_rep v xs" and "length xs \<le> (if n = 0 then 64 else n)"
  shows "\<exists>v'. v_reserve n v = Some v' \<and> v_rep v' xs"
proof (cases "n = v_capacity v")
  case True
  with assms(1) show ?thesis by (simp add: v_reserve_def)
next
  case False
  define k where "k = (if n = 0 then 64 else n)"
  obtain rest where v: "v = \<lparr>vec = map Some xs @ rest, v_length = length xs\<rparr>" "0 < length xs + length rest"
    using assms(1) by (rule v_repE)
  have "v_reserve n v = Some \<lparr>vec = map Some xs @ replicate (k - length xs) None, v_length = length xs\<rparr>"
  proof (cases "xs = []")
    case True
    with False show ?thesis by (simp add: v_reserve_def v(1) k_def Let_def)
  next
    case ne: False
    have "copy_cells (replicate k None) 0 (map Some xs @ rest) 0 (length xs) = Some (map Some xs @ replicate (k - length xs) None)"
      using assms(2) by (subst copy_cells_ok) (simp_all add: k_def)
    with False ne show ?thesis by (simp add: v_reserve_def v(1) k_def Let_def)
  qed
  moreover have "0 < k" by (simp add: k_def)
  ultimately show ?thesis by (auto simp: v_rep_def k_def)
qed

lemma replace_rep:
  assumes "v_rep v xs" and "i < length xs"
  shows "\<exists>v'. v_replace i e v = Some v' \<and> v_rep v' (xs[i := e])"
proof -
  obtain rest where v: "v = \<lparr>vec = map Some xs @ rest, v_length = length xs\<rparr>" "0 < length xs + length rest"
    using assms(1) by (rule v_repE)
  have "v_replace i e v = Some \<lparr>vec = map Some (xs[i := e]) @ rest, v_length = length xs\<rparr>"
    using assms(2) by (simp add: v_replace_def write_cell_def v(1) list_update_append map_update)
  with v(2) show ?thesis by (auto simp: v_rep_def)
qed

lemma swap_rep:
  assumes "v_rep v xs" and "i < length xs" and "j < length xs"
  shows "\<exists>v'. v_swap i j v = Some v' \<and> v_rep v' (xs[i := xs ! j, j := xs ! i])"
proof -
  obtain rest where v: "v = \<lparr>vec = map Some xs @ rest, v_length = length xs\<rparr>" "0 < length xs + length rest"
    using assms(1) by (rule v_repE)
  have "v_swap i j v = Some \<lparr>vec = map Some (xs[i := xs ! j, j := xs ! i]) @ rest, v_length = length xs\<rparr>"
    using assms(2,3) read_cell_rep [OF assms(1)]
    by (simp add: v_swap_def write_cell_def) (simp add: v(1) list_update_append map_update)
  with v(2) show ?thesis by (auto simp: v_rep_def)
qed

lemma pop_rep:
  assumes "v_rep v (xs @ [e])"
  shows "\<exists>v'. v_pop v = Some (e, v') \<and> v_rep v' xs"
proof -
  have "v_pop v = Some (e, v\<lparr>v_length := length xs\<rparr>)"
    using read_cell_rep [OF assms, of "length xs"] assms by (simp add: v_pop_def v_rep_def)
  moreover have "v_rep (v\<lparr>v_length := length xs\<rparr>) xs"
    using assms by (auto simp: v_rep_def)
  ultimately show ?thesis by blast
qed

lemma assign_rep:
  assumes "v_rep v xs" and "0 < n"
  shows "\<exists>v'. v_assign n e v = Some v' \<and> v_rep v' (replicate n e)"
proof -
  define m where "m = (if n > v_capacity v then replicate n None else vec v)"
  have "n \<le> length m" by (simp add: m_def)
  then have "v_assign n e v = Some \<lparr>vec = replicate n (Some e) @ drop n m, v_length = n\<rparr>"
    unfolding v_assign_def Let_def m_def [symmetric] by (simp add: fill_cells_ok)
  moreover have "v_rep \<lparr>vec = replicate n (Some e) @ drop n m, v_length = n\<rparr> (replicate n e)"
    using assms(2) by (intro v_repI [where rest = "drop n m"]) simp_all
  ultimately show ?thesis by blast
qed

lemma v_find_loop_rep:
  assumes "v_rep v xs"
  shows "i + n = length xs \<Longrightarrow> v_find_loop p v i n =
    Some (case find (\<lambda>k. p (xs ! k)) [i..<length xs] of None \<Rightarrow> None | Some k \<Rightarrow> Some k)"
proof (induction n arbitrary: i)
  case (Suc n)
  then have "[i..<length xs] = i # [i + 1..<length xs]"
    by (simp add: upt_conv_Cons)
  with Suc show ?case
    using read_cell_rep [OF assms, of i] by simp
qed simp

lemma call_loop_rep:
  assumes "v_rep v xs"
  shows "i + n = length xs \<Longrightarrow> (\<And>e s. snd (f e s)) \<Longrightarrow>
    call_loop f v i n s = Some (fold (\<lambda>e s. fst (f e s)) (drop i xs) s)"
proof (induction n arbitrary: i s)
  case (Suc n)
  then have d: "drop i xs = xs ! i # drop (i + 1) xs"
    by (simp add: Cons_nth_drop_Suc)
  obtain s' where f: "f (xs ! i) s = (s', True)"
    using Suc.prems(2) by (metis prod.collapse)
  show ?case
    using Suc.IH [of "i + 1" s'] Suc.prems read_cell_rep [OF assms, of i] by (simp add: f d)
qed simp

section \<open>Sequences of operations\<close>

datatype 'a vop =
    Push 'a | Insert nat 'a | Insert_N nat nat 'a | Erase nat | Erase_Range nat nat | Reserve nat
  | Replace nat 'a | Swap nat nat | Pop | Clear | Assign nat 'a

text \<open>The operations on lists; \<open>None\<close> when the assertion of a debug build fails.\<close>

fun list_op :: "'a vop \<Rightarrow> 'a list \<Rightarrow> 'a list option" where
  "list_op (Push e) xs = Some (xs @ [e])"
| "list_op (Insert i e) xs = (if i \<le> length xs then Some (take i xs @ e # drop i xs) else None)"
| "list_op (Insert_N i n e) xs = (if i \<le> length xs \<and> 0 < n then Some (take i xs @ replicate n e @ drop i xs) else None)"
| "list_op (Erase i) xs = (if i < length xs then Some (take i xs @ drop (Suc i) xs) else None)"
| "list_op (Erase_Range i j) xs = (if i < j \<and> j \<le> length xs then Some (take i xs @ drop j xs) else None)"
| "list_op (Reserve n) xs = (if length xs \<le> (if n = 0 then 64 else n) then Some xs else None)"
| "list_op (Replace i e) xs = (if i < length xs then Some (xs[i := e]) else None)"
| "list_op (Swap i j) xs = (if i < length xs \<and> j < length xs then Some (xs[i := xs ! j, j := xs ! i]) else None)"
| "list_op Pop xs = (if xs = [] then None else Some (butlast xs))"
| "list_op Clear xs = Some []"
| "list_op (Assign n e) xs = (if 0 < n then Some (replicate n e) else None)"

fun list_run :: "'a vop list \<Rightarrow> 'a list \<Rightarrow> 'a list option" where
  "list_run [] xs = Some xs"
| "list_run (c # cs) xs =
     Option.bind (list_op c xs) (\<lambda>ys. if length ys < 2 ^ 31 then list_run cs ys else None)"

fun v_step :: "'a vop \<Rightarrow> 'a uvector \<Rightarrow> 'a uvector option" where
  "v_step (Push e) v = v_push e v"
| "v_step (Insert i e) v = v_insert i e v"
| "v_step (Insert_N i n e) v = v_insert_n i n e v"
| "v_step (Erase i) v = v_erase i v"
| "v_step (Erase_Range i j) v = v_erase_range i j v"
| "v_step (Reserve n) v = v_reserve n v"
| "v_step (Replace i e) v = v_replace i e v"
| "v_step (Swap i j) v = v_swap i j v"
| "v_step Pop v = map_option snd (v_pop v)"
| "v_step Clear v = Some (v_clear v)"
| "v_step (Assign n e) v = v_assign n e v"

fun v_run :: "'a vop list \<Rightarrow> 'a uvector \<Rightarrow> 'a uvector option" where
  "v_run [] v = Some v"
| "v_run (c # cs) v = Option.bind (v_step c v) (v_run cs)"

lemma step_rep:
  assumes "v_rep v xs" and "list_op c xs = Some ys" and "length ys < 2 ^ 31" and "length xs < 2 ^ 31"
  shows "\<exists>v'. v_step c v = Some v' \<and> v_rep v' ys"
proof (cases c)
  case Pop
  with assms(2) have "xs = ys @ [last xs]" by (auto split: if_splits)
  with pop_rep [of v ys "last xs"] assms(1) Pop show ?thesis by auto
next
  case Clear
  with assms show ?thesis by (auto simp: v_clear_def v_rep_def)
next
  case (Reserve n)
  with assms have "length xs \<le> (if n = 0 then 64 else n)" "ys = xs" by (simp_all split: if_splits)
  with reserve_rep [OF assms(1), of n] Reserve show ?thesis by simp
next
  case (Insert_N i n e)
  with assms insert_n_rep [OF assms(1), of i n e] show ?thesis by (auto split: if_splits)
next
  case (Push e)
  with assms(2) push_rep [OF assms(1,4), of e] show ?thesis by auto
next
  case (Insert i e)
  with assms(2) insert_rep [OF assms(1) _ assms(4), of i e] show ?thesis by (auto split: if_splits)
next
  case (Erase i)
  with assms(2) erase_rep [OF assms(1), of i] show ?thesis by (auto split: if_splits)
next
  case (Erase_Range i j)
  with assms(2) erase_range_rep [OF assms(1), of i j] show ?thesis by (auto split: if_splits)
next
  case (Replace i e)
  with assms(2) replace_rep [OF assms(1), of i e] show ?thesis by (auto split: if_splits)
next
  case (Swap i j)
  with assms(2) swap_rep [OF assms(1), of i j] show ?thesis by (auto split: if_splits)
next
  case (Assign n e)
  with assms(2) assign_rep [OF assms(1), of n e] show ?thesis by (auto split: if_splits)
qed

lemma run_rep:
  assumes "v_rep v xs" and "list_run cs xs = Some ys" and "length xs < 2 ^ 31"
  shows "\<exists>v'. v_run cs v = Some v' \<and> v_rep v' ys"
  using assms
proof (induction cs arbitrary: v xs)
  case (Cons c cs)
  then obtain zs where z: "list_op c xs = Some zs" "length zs < 2 ^ 31" "list_run cs zs = Some ys"
    by (auto simp: bind_eq_Some_conv split: if_splits)
  obtain v1 where "v_step c v = Some v1" "v_rep v1 zs"
    using step_rep [OF Cons.prems(1) z(1,2) Cons.prems(3)] by blast
  with Cons.IH [OF _ z(3,2)] show ?case by auto
qed simp

section \<open>Properties\<close>

text \<open>
  C8: a vector of any positive capacity, driven by any sequence of operations whose assertions hold, never
  leaves its array and never reads a cell that was not written: it ends as a vector that holds the list
  that the same operations make of the empty list, as long as that list stays below $2^{31}$ elements.
  Growing the array, in every operation that does it, loses nothing.
\<close>

theorem vector_refines:
  assumes "0 < n" and "list_run cs [] = Some ys"
  shows "\<exists>v. v_run cs (v_new n) = Some v \<and> v_rep v ys \<and> v_length v = length ys \<and>
    (\<forall>i < length ys. read_cell v i = Some (ys ! i))"
proof -
  have "v_rep (v_new n :: 'a uvector) []"
    using assms(1) by (auto simp: v_rep_def v_new_def)
  from run_rep [OF this assms(2)] obtain v where "v_run cs (v_new n) = Some v" "v_rep v ys" by auto
  with read_cell_rep [of v ys] show ?thesis by (auto simp: v_rep_def)
qed

theorem vector_refines_witness:
  "\<exists>v. v_run [Push 1, Push 2, Insert 1 (7 :: nat), Erase 0, Swap 0 1, Insert_N 1 1 9] (v_new 1) = Some v \<and> v_rep v [2, 9, 7]"
proof -
  have "list_run [Push 1, Push 2, Insert 1 (7 :: nat), Erase 0, Swap 0 1, Insert_N 1 1 9] [] = Some [2, 9, 7]"
    by simp
  then show ?thesis
    using vector_refines [of 1] by (metis zero_less_one)
qed

text \<open>
  \<open>find\<close> answers the first position of the element, and \<open>callForAllEntry\<close> with a function that never
  stops calls it on every element in order.
\<close>

theorem vector_search:
  assumes "v_rep v xs"
  shows "v_find e v = Some (if e \<in> set xs then Some (LEAST i. i < length xs \<and> xs ! i = e) else None) \<and>
    v_callForAllEntry (\<lambda>e s. (f e s, True)) v s = Some (fold f xs s)"
proof -
  have len: "v_length v = length xs" using assms by (simp add: v_rep_def)
  have "v_find e v = Some (find (\<lambda>k. xs ! k = e) [0..<length xs])"
    using v_find_loop_rep [OF assms, of 0 "length xs"] by (auto simp: v_find_def len split: option.split)
  also have "find (\<lambda>k. xs ! k = e) [0..<length xs] =
      (if e \<in> set xs then Some (LEAST i. i < length xs \<and> xs ! i = e) else None)"
  proof (cases "find (\<lambda>k. xs ! k = e) [0..<length xs]")
    case None
    then show ?thesis by (auto simp: find_None_iff in_set_conv_nth)
  next
    case (Some k)
    then have k: "k < length xs" "xs ! k = e" "\<forall>j < k. xs ! j \<noteq> e"
      by (auto simp: find_Some_iff)
    then have "(LEAST i. i < length xs \<and> xs ! i = e) = k"
      by (intro Least_equality) (auto simp: not_less [symmetric])
    with Some k show ?thesis by auto
  qed
  finally show ?thesis
    using call_loop_rep [OF assms, of 0 "length xs" "\<lambda>e s. (f e s, True)"] by (simp add: v_callForAllEntry_def len)
qed

theorem vector_search_witness:
  "v_find 2 \<lparr>vec = [Some 1, Some 2, Some (2 :: nat), None], v_length = 3\<rparr> = Some (Some 1)"
proof -
  have r: "v_rep \<lparr>vec = [Some 1, Some 2, Some (2 :: nat), None], v_length = 3\<rparr> [1, 2, 2]"
    by (simp add: v_rep_def)
  have "(LEAST i. i < length [1, 2, 2 :: nat] \<and> [1, 2, 2 :: nat] ! i = 2) = 1"
    by (rule Least_equality) (auto simp: less_Suc_eq Suc_le_eq intro: ccontr)
  with vector_search [OF r, of 2 "\<lambda>e s. s" "()"] show ?thesis by simp
qed

text \<open>
  \<open>reserve\<close> with fewer cells than the vector has elements copies all of them: it writes behind the
  new array.
\<close>

theorem reserve_overflow:
  assumes "v_rep v xs" and "0 < n" and "n < length xs"
  shows "v_reserve n v = None"
proof -
  obtain rest where v: "v = \<lparr>vec = map Some xs @ rest, v_length = length xs\<rparr>" "0 < length xs + length rest"
    using assms(1) by (rule v_repE)
  with assms(2,3) show ?thesis
    by (auto simp: v_reserve_def copy_cells_def slice_def blit_def Let_def)
qed

theorem reserve_overflow_witness: "v_reserve 1 \<lparr>vec = [Some 1, Some (2 :: nat)], v_length = 2\<rparr> = None"
  by (rule reserve_overflow [of _ "[1, 2]"]) (simp_all add: v_rep_def)

end
