(* ===== verification/BinaryHeap.thy ===== *)
theory BinaryHeap
  imports Vector "HOL-Library.Multiset"
begin

text \<open>
  The binary heap of \<open>UVector<T*>\<close> in \<open>include/ulib/container/vector.h\<close>: \<open>bh_put\<close>, \<open>bh_get\<close> and \<open>bh_min\<close>,
  which keep the elements in the cells from 1 to \<open>_length\<close>; cell 0 is unused. The comparison operators of
  the element type are those of a linear order.
\<close>

section \<open>Operations\<close>

definition get_cell :: "'a option list \<Rightarrow> nat \<Rightarrow> 'a option" where
  "get_cell m i = (if i < length m then m ! i else None)"

text \<open>The loop of \<open>bh_put\<close>: \<open>i\<close> is the insertion point, \<open>y\<close> the entry of its parent.\<close>

function bh_up :: "'a :: linorder option list \<Rightarrow> nat \<Rightarrow> 'a \<Rightarrow> 'a option list option" where
  "bh_up m i e =
     (if 2 \<le> i then
        (case get_cell m (i div 2) of
           None \<Rightarrow> None
         | Some y \<Rightarrow>
             if e \<ge> y then write_cell m i (Some e)
             else (case write_cell m i (Some y) of None \<Rightarrow> None | Some m \<Rightarrow> bh_up m (i div 2) e))
      else write_cell m i (Some e))"
  by pat_completeness auto

termination by (relation "measure (\<lambda>(m, i, e). i)") auto

declare bh_up.simps [simp del]

definition bh_put :: "'a :: linorder \<Rightarrow> 'a uvector \<Rightarrow> 'a uvector option" where
  "bh_put e v =
     (let v = v\<lparr>v_length := v_length v + 1\<rparr>
      in do {
        v \<leftarrow> (if v_length v = v_capacity v then v_reserve (twice (v_capacity v)) v else Some v);
        m \<leftarrow> bh_up (vec v) (v_length v) e;
        Some (v\<lparr>vec := m\<rparr>)
      })"

definition bh_min :: "'a uvector \<Rightarrow> 'a option" where
  "bh_min v = read_cell v 1"

text \<open>
  The loop of \<open>bh_get\<close>: \<open>j\<close> is the insertion point and \<open>k = 2 * j\<close> its first child; \<open>j\<close> starts at 1 and
  grows.
\<close>

function bh_down :: "'a :: linorder option list \<Rightarrow> nat \<Rightarrow> nat \<Rightarrow> 'a \<Rightarrow> 'a option list option" where
  "bh_down m len j y =
     (if 0 < j \<and> 2 * j \<le> len then
        (case (get_cell m (2 * j), if 2 * j < len then get_cell m (2 * j + 1) else get_cell m (2 * j)) of
           (Some z, Some z') \<Rightarrow>
             let (k, z) = (if 2 * j < len \<and> z > z' then (2 * j + 1, z') else (2 * j, z))
             in if y \<le> z then write_cell m j (Some y)
                else (case write_cell m j (Some z) of None \<Rightarrow> None | Some m \<Rightarrow> bh_down m len k y)
         | _ \<Rightarrow> None)
      else write_cell m j (Some y))"
  by pat_completeness auto

termination by (relation "measure (\<lambda>(m, len, j, y). Suc len - j)") (auto split: if_splits)

declare bh_down.simps [simp del]

definition bh_get :: "'a :: linorder uvector \<Rightarrow> ('a option \<times> 'a uvector) option" where
  "bh_get v =
     (if v_length v \<noteq> 0 then do {
        e \<leftarrow> bh_min v;
        y \<leftarrow> read_cell v (v_length v);
        let v = v\<lparr>v_length := v_length v - 1\<rparr>
        in do {
          m \<leftarrow> bh_down (vec v) (v_length v) 1 y;
          Some (Some e, v\<lparr>vec := m\<rparr>)
        }
      }
      else Some (None, v))"

section \<open>Heap order\<close>

text \<open>The contents are the list \<open>L\<close> behind its first entry, which stands for the unused cell.\<close>

definition bh_cells :: "'a option list \<Rightarrow> 'a list \<Rightarrow> bool" where
  "bh_cells m L \<longleftrightarrow> length L \<le> length m \<and> (\<forall>i. 1 \<le> i \<and> i < length L \<longrightarrow> m ! i = Some (L ! i))"

definition heap_order :: "'a :: linorder list \<Rightarrow> bool" where
  "heap_order L \<longleftrightarrow> (\<forall>k. 2 \<le> k \<and> k < length L \<longrightarrow> L ! (k div 2) \<le> L ! k)"

lemma heap_min:
  assumes "heap_order L" and "1 \<le> k" and "k < length L"
  shows "L ! 1 \<le> L ! k"
  using assms(2,3)
proof (induction k rule: less_induct)
  case (less k)
  show ?case
  proof (cases "k = 1")
    case False
    then have "L ! 1 \<le> L ! (k div 2)" using less by (intro less.IH) auto
    also have "\<dots> \<le> L ! k" using assms(1) False less.prems by (simp add: heap_order_def)
    finally show ?thesis .
  qed simp
qed

text \<open>
  The heap with a hole at \<open>i\<close>, where the element \<open>e\<close> will go: on the way up the order may fail between
  the hole and its parent only, on the way down between the hole and its children only; in both cases
  the children of the hole are not smaller than its parent.
\<close>

definition hole_cells :: "'a option list \<Rightarrow> 'a list \<Rightarrow> nat \<Rightarrow> bool" where
  "hole_cells m L i \<longleftrightarrow> length L \<le> length m \<and> (\<forall>k. 1 \<le> k \<and> k < length L \<and> k \<noteq> i \<longrightarrow> m ! k = Some (L ! k))"

definition skip_parent :: "'a :: linorder list \<Rightarrow> nat \<Rightarrow> bool" where
  "skip_parent L i \<longleftrightarrow> (2 \<le> i \<longrightarrow> (\<forall>k < length L. k div 2 = i \<longrightarrow> L ! (i div 2) \<le> L ! k))"

definition up_order :: "'a :: linorder list \<Rightarrow> nat \<Rightarrow> bool" where
  "up_order L i \<longleftrightarrow> (\<forall>k. 2 \<le> k \<and> k < length L \<and> k \<noteq> i \<longrightarrow> L ! (k div 2) \<le> L ! k) \<and> skip_parent L i"

definition down_order :: "'a :: linorder list \<Rightarrow> nat \<Rightarrow> bool" where
  "down_order L j \<longleftrightarrow> (\<forall>k. 2 \<le> k \<and> k < length L \<and> k div 2 \<noteq> j \<longrightarrow> L ! (k div 2) \<le> L ! k) \<and> skip_parent L j"

lemma hole_write:
  assumes "hole_cells m L i" and "1 \<le> i" and "i < length L"
  shows "write_cell m i (Some (L ! i)) = Some (m[i := Some (L ! i)]) \<and> bh_cells (m[i := Some (L ! i)]) L"
  using assms by (auto simp: hole_cells_def bh_cells_def write_cell_def nth_list_update)

text \<open>Moving the entry at \<open>p\<close> to the hole at \<open>i\<close> moves the hole to \<open>p\<close>.\<close>

lemma hole_move:
  assumes "hole_cells m L i" and "1 \<le> p" and "p < length L" and "1 \<le> i" and "i < length L" and "p \<noteq> i"
  shows "hole_cells (m[i := Some (L ! p)]) (L[i := L ! p, p := L ! i]) p" and "get_cell m p = Some (L ! p)"
    and "write_cell m i (Some (L ! p)) = Some (m[i := Some (L ! p)])"
  using assms by (auto simp: hole_cells_def get_cell_def write_cell_def nth_list_update)

lemma up_step:
  assumes "up_order L i" and "2 \<le> i" and "i < length L" and "L ! i < L ! (i div 2)"
  shows "up_order (L[i := L ! (i div 2), i div 2 := L ! i]) (i div 2)"
proof -
  let ?p = "i div 2"
  let ?L = "L[i := L ! ?p, ?p := L ! i]"
  have p: "1 \<le> ?p" "?p < i" "?p < length L" using assms(2,3) by auto
  have val: "?L ! k = (if k = ?p then L ! i else if k = i then L ! ?p else L ! k)" if "k < length L" for k
    using that p assms(3) by (auto simp: nth_list_update)
  have ord: "L ! (k div 2) \<le> L ! k" if "2 \<le> k" "k < length L" "k \<noteq> i" for k
    using assms(1) that by (simp add: up_order_def)
  have skip: "L ! ?p \<le> L ! k" if "k < length L" "k div 2 = i" for k
    using assms(1,2) that by (auto simp: up_order_def skip_parent_def)
  have "?L ! (k div 2) \<le> ?L ! k" if k: "2 \<le> k" "k < length L" "k \<noteq> ?p" for k
  proof -
    have kd: "k div 2 < length L" using k by simp
    consider "k = i" | "k \<noteq> i" "k div 2 = ?p" | "k div 2 = i" | "k \<noteq> i" "k div 2 \<noteq> ?p" "k div 2 \<noteq> i" by blast
    then show ?thesis
    proof cases
      case 1
      then show ?thesis using assms(4) p(2) val [OF k(2)] val [OF kd] by (auto intro: less_imp_le)
    next
      case 2
      then show ?thesis using ord [OF k(1,2)] assms(4) k(3) val [OF k(2)] val [OF kd] by auto
    next
      case 3
      then have "k \<noteq> i" using assms(2) by auto
      then show ?thesis using skip [OF k(2) 3] k(3) 3 p val [OF k(2)] val [OF kd] by auto
    next
      case 4
      then show ?thesis using ord [OF k(1,2)] k(3) val [OF k(2)] val [OF kd] by auto
    qed
  qed
  moreover have "?L ! (?p div 2) \<le> ?L ! k" if k: "2 \<le> ?p" "k < length L" "k div 2 = ?p" for k
  proof -
    have pp: "?p div 2 < length L" "?p div 2 \<noteq> ?p" "?p div 2 \<noteq> i" using p k(1) by auto
    have "L ! (?p div 2) \<le> L ! ?p" using ord [OF k(1) p(3)] p by simp
    moreover have "k \<noteq> i \<Longrightarrow> L ! ?p \<le> L ! k" using ord [of k] k by auto
    moreover have "k \<noteq> ?p" using k by auto
    ultimately show ?thesis
      using val [OF k(2)] val [OF pp(1)] pp by (auto intro: order_trans)
  qed
  ultimately show ?thesis by (simp add: up_order_def skip_parent_def)
qed

lemma bh_up_correct:
  assumes "hole_cells m L i" and "up_order L i" and "1 \<le> i" and "i < length L" and "L ! i = e"
  shows "\<exists>m' L'. bh_up m i e = Some m' \<and> bh_cells m' L' \<and> heap_order L' \<and> mset L' = mset L \<and>
    length L' = length L \<and> L' ! 0 = L ! 0 \<and> length m' = length m"
  using assms
proof (induction m i e arbitrary: L rule: bh_up.induct)
  case (1 m i e)
  note w = hole_write [OF "1.prems"(1,3,4)]
  show ?case
  proof (cases "2 \<le> i \<and> L ! i < L ! (i div 2)")
    case True
    let ?p = "i div 2"
    let ?L = "L[i := L ! ?p, ?p := L ! i]"
    have p: "1 \<le> ?p" "?p < length L" "?p \<noteq> i" using True "1.prems"(4) by auto
    note mv = hole_move [OF "1.prems"(1) p(1,2) "1.prems"(3,4) p(3)]
    have step: "bh_up m i e = bh_up (m[i := Some (L ! ?p)]) ?p e"
      using True mv "1.prems"(5) by (subst bh_up.simps) (auto dest: leD)
    have "\<exists>m' L'. bh_up (m[i := Some (L ! ?p)]) ?p e = Some m' \<and> bh_cells m' L' \<and> heap_order L' \<and> mset L' = mset ?L \<and>
      length L' = length ?L \<and> L' ! 0 = ?L ! 0 \<and> length m' = length (m[i := Some (L ! ?p)])"
      using True mv up_step [OF "1.prems"(2) _ "1.prems"(4)] p "1.prems"(5)
      by (intro "1.IH" [of "L ! ?p"]) auto
    moreover have "mset ?L = mset L" using mset_swap [of ?p L i] p "1.prems"(4) by simp
    moreover have "?L ! 0 = L ! 0" using p "1.prems"(3) by simp
    ultimately show ?thesis unfolding step by simp
  next
    case False
    have "heap_order L"
      using False "1.prems"(2) unfolding heap_order_def up_order_def by (metis not_less)
    moreover have "bh_up m i e = Some (m[i := Some (L ! i)])"
    proof (cases "2 \<le> i")
      case True
      then have "get_cell m (i div 2) = Some (L ! (i div 2))"
        using "1.prems"(1,4) hole_move(2) [OF "1.prems"(1), of "i div 2"] by auto
      with True False w "1.prems"(5) show ?thesis by (subst bh_up.simps) auto
    next
      case small: False
      with w "1.prems"(5) show ?thesis by (subst bh_up.simps) simp
    qed
    ultimately show ?thesis using w by auto
  qed
qed

lemma down_step:
  assumes "down_order L j" and "1 \<le> j" and "c < length L" and "c div 2 = j" and "c \<noteq> j" and "L ! c < L ! j"
    and "\<And>k. k < length L \<Longrightarrow> k div 2 = j \<Longrightarrow> L ! c \<le> L ! k"
  shows "down_order (L[j := L ! c, c := L ! j]) c"
proof -
  let ?L = "L[j := L ! c, c := L ! j]"
  have j: "j < c" "j < length L" using assms(2-5) by auto
  have val: "?L ! k = (if k = c then L ! j else if k = j then L ! c else L ! k)" if "k < length L" for k
    using that j assms(3) by (auto simp: nth_list_update)
  have ord: "L ! (k div 2) \<le> L ! k" if "2 \<le> k" "k < length L" "k div 2 \<noteq> j" for k
    using assms(1) that by (simp add: down_order_def)
  have "?L ! (k div 2) \<le> ?L ! k" if k: "2 \<le> k" "k < length L" "k div 2 \<noteq> c" for k
  proof -
    have kd: "k div 2 < length L" using k by simp
    consider "k = c" | "k \<noteq> c" "k div 2 = j" | "k = j" "k div 2 \<noteq> j" | "k \<noteq> c" "k \<noteq> j" "k div 2 \<noteq> j" by blast
    then show ?thesis
    proof cases
      case 1
      then show ?thesis using assms(4,6) j val [OF k(2)] val [OF kd] by (auto intro: less_imp_le)
    next
      case 2
      then have "k \<noteq> j" using k(1) by auto
      with 2 show ?thesis using assms(7) [OF k(2)] k(3) j val [OF k(2)] val [OF kd] by auto
    next
      case 3
      then have "L ! (j div 2) \<le> L ! c"
        using assms(1,3,4) k(1) by (auto simp: down_order_def skip_parent_def)
      with 3 show ?thesis using k(3) j val [OF k(2)] val [OF kd] by auto
    next
      case 4
      then show ?thesis using ord [OF k(1,2)] k(3) val [OF k(2)] val [OF kd] by auto
    qed
  qed
  moreover have "?L ! (c div 2) \<le> ?L ! k" if k: "k < length L" "k div 2 = c" for k
  proof -
    have "2 \<le> k" "k div 2 \<noteq> j" "k \<noteq> c" "k \<noteq> j" using k(2) j assms(2) by auto
    with ord [OF _ k(1)] k(2) show ?thesis
      using val [OF k(1)] val [OF j(2)] j assms(4) by auto
  qed
  ultimately show ?thesis unfolding down_order_def skip_parent_def length_list_update by blast
qed

text \<open>The smaller child that the loop chooses.\<close>

lemma down_child:
  assumes "hole_cells m L j" and "0 < j" and "2 * j \<le> len" and "length L = Suc len"
  obtains c where "c < length L" "c div 2 = j" "c \<noteq> j" "\<And>k. k < length L \<Longrightarrow> k div 2 = j \<Longrightarrow> L ! c \<le> L ! k"
    and "bh_down m len j y = (if y \<le> L ! c then write_cell m j (Some y)
      else case write_cell m j (Some (L ! c)) of None \<Rightarrow> None | Some m \<Rightarrow> bh_down m len c y)"
proof -
  have c0: "get_cell m (2 * j) = Some (L ! (2 * j))"
    using assms by (auto simp: hole_cells_def get_cell_def)
  have c1: "get_cell m (2 * j + 1) = Some (L ! (2 * j + 1))" if "2 * j < len"
    using assms that by (auto simp: hole_cells_def get_cell_def)
  define c where "c = (if 2 * j < len \<and> L ! (2 * j) > L ! (2 * j + 1) then 2 * j + 1 else 2 * j)"
  have kids: "k = 2 * j \<or> (k = 2 * j + 1 \<and> 2 * j < len)" if "k < length L" "k div 2 = j" for k
    using that assms(4) by auto
  show thesis
  proof (rule that [of c])
    show "c < length L" "c div 2 = j" "c \<noteq> j" using assms by (auto simp: c_def)
    show "L ! c \<le> L ! k" if "k < length L" "k div 2 = j" for k
      using kids [OF that] by (auto simp: c_def)
    show "bh_down m len j y = (if y \<le> L ! c then write_cell m j (Some y)
      else case write_cell m j (Some (L ! c)) of None \<Rightarrow> None | Some m \<Rightarrow> bh_down m len c y)"
    proof (cases "2 * j < len \<and> L ! (2 * j) > L ! (2 * j + 1)")
      case True
      then have c: "c = Suc (2 * j)" by (simp add: c_def)
      show ?thesis using True assms(2,3) c0 c1 unfolding c bh_down.simps [of m len j y] by simp
    next
      case False
      then have c: "c = 2 * j" by (auto simp: c_def)
      show ?thesis
        using False assms(2,3) c0 c1 unfolding c bh_down.simps [of m len j y] by (cases "2 * j < len") (simp_all split: option.split)
    qed
  qed
qed

lemma bh_down_correct:
  assumes "hole_cells m L j" and "down_order L j" and "1 \<le> j" and "j < length L" and "L ! j = y" and "length L = Suc len"
  shows "\<exists>m' L'. bh_down m len j y = Some m' \<and> bh_cells m' L' \<and> heap_order L' \<and> mset L' = mset L \<and>
    length L' = length L \<and> L' ! 0 = L ! 0 \<and> length m' = length m"
  using assms
proof (induction "len - j" arbitrary: m L j rule: less_induct)
  case less
  note w = hole_write [OF less.prems(1,3,4)]
  show ?case
  proof (cases "2 * j \<le> len")
    case False
    then have "k div 2 \<noteq> j" if "2 \<le> k" "k < length L" for k using that less.prems(6) by auto
    then have "heap_order L"
      using less.prems(2) by (simp add: heap_order_def down_order_def)
    moreover have "bh_down m len j y = Some (m[j := Some (L ! j)])"
      using False w less.prems(5) by (subst bh_down.simps) simp
    ultimately show ?thesis using w by auto
  next
    case True
    obtain c where c: "c < length L" "c div 2 = j" "c \<noteq> j" "\<And>k. k < length L \<Longrightarrow> k div 2 = j \<Longrightarrow> L ! c \<le> L ! k"
      and step: "bh_down m len j y = (if y \<le> L ! c then write_cell m j (Some y)
        else case write_cell m j (Some (L ! c)) of None \<Rightarrow> None | Some m \<Rightarrow> bh_down m len c y)"
      using down_child [OF less.prems(1) _ True less.prems(6), of y] less.prems(3) by (metis Suc_le_eq One_nat_def)
    show ?thesis
    proof (cases "y \<le> L ! c")
      case le: True
      have "heap_order L"
        unfolding heap_order_def
      proof (intro allI impI)
        fix k
        assume k: "2 \<le> k \<and> k < length L"
        show "L ! (k div 2) \<le> L ! k"
        proof (cases "k div 2 = j")
          case True
          with c(4) [of k] k le less.prems(5) show ?thesis by auto
        next
          case False
          with k less.prems(2) show ?thesis by (simp add: down_order_def)
        qed
      qed
      moreover have "bh_down m len j y = Some (m[j := Some (L ! j)])"
        using step le w less.prems(5) by simp
      ultimately show ?thesis using w by auto
    next
      case gt: False
      let ?L = "L[j := L ! c, c := L ! j]"
      have c1: "1 \<le> c" using c(2) less.prems(3) by auto
      note mv = hole_move [OF less.prems(1) c1 c(1) less.prems(3,4) c(3)]
      have lt: "L ! c < L ! j" using gt less.prems(5) by simp
      have "len - c < len - j" using c(1,2) less.prems(3,6) by auto
      then have "\<exists>m' L'. bh_down (m[j := Some (L ! c)]) len c y = Some m' \<and> bh_cells m' L' \<and> heap_order L' \<and> mset L' = mset ?L \<and>
        length L' = length ?L \<and> L' ! 0 = ?L ! 0 \<and> length m' = length (m[j := Some (L ! c)])"
        using mv(1) down_step [OF less.prems(2,3) c(1,2,3) lt c(4)] c(1,3) c1 less.prems(4,5,6)
        by (intro less.hyps) auto
      moreover have "mset ?L = mset L" using mset_swap [of c L j] c(1) less.prems(4) by simp
      moreover have "?L ! 0 = L ! 0" using c1 less.prems(3) by simp
      moreover have "bh_down m len j y = bh_down (m[j := Some (L ! c)]) len c y"
        using step gt mv(3) by simp
      ultimately show ?thesis by simp
    qed
  qed
qed

section \<open>The heap in the vector\<close>

text \<open>\<open>bh_queue\<close> is the invariant of the heap in the vector: its elements are the multiset \<open>M\<close>.\<close>

definition bh_rep :: "'a :: linorder uvector \<Rightarrow> 'a list \<Rightarrow> bool" where
  "bh_rep v L \<longleftrightarrow> v_length v < v_capacity v \<and> length L = Suc (v_length v) \<and> bh_cells (vec v) L \<and> heap_order L"

abbreviation bh_mset :: "'a list \<Rightarrow> 'a multiset" where
  "bh_mset L \<equiv> mset (tl L)"

lemma mset_behind:
  assumes "mset L' = mset L" and "length L' = length L" and "L' ! 0 = L ! 0"
  shows "mset (tl L') = mset (tl L)"
  using assms by (cases L; cases L') auto

lemma mset_min:
  assumes "heap_order L" and "length L = Suc (Suc n)"
  shows "L ! 1 = Min_mset (mset (tl L))"
proof -
  have el: "\<exists>k. 1 \<le> k \<and> k < length L \<and> x = L ! k" if "x \<in> set (tl L)" for x
  proof -
    obtain i where "i < length (tl L)" "x = tl L ! i" using \<open>x \<in> set (tl L)\<close> by (auto simp: in_set_conv_nth)
    then show ?thesis by (intro exI [of _ "Suc i"]) (simp add: nth_tl)
  qed
  have "L ! 1 \<in> set (tl L)" using assms(2) by (cases L) (auto simp: in_set_conv_nth)
  moreover have "L ! 1 \<le> x" if "x \<in> set (tl L)" for x using heap_min [OF assms(1)] el [OF that] by auto
  ultimately show ?thesis by (intro Min_eqI [symmetric]) auto
qed

lemma grown_cells:
  assumes "bh_cells m L" and "length L \<le> n"
  shows "\<exists>m'. copy_cells (replicate n None) 0 m 0 (length L) = Some m' \<and> bh_cells m' L \<and> length m' = n"
proof -
  have le: "length L \<le> length m" using assms(1) by (simp add: bh_cells_def)
  then have "copy_cells (replicate n None) 0 m 0 (length L) = Some (take (length L) m @ replicate (n - length L) None)"
    using assms(2) by (subst copy_cells_ok) simp_all
  moreover have "bh_cells (take (length L) m @ replicate (n - length L) None) L"
    using assms le by (auto simp: bh_cells_def nth_append)
  ultimately show ?thesis using le assms(2) by auto
qed

lemma bh_put_rep:
  assumes "bh_rep v L" and "v_capacity v < 2 ^ 31"
  shows "\<exists>v' L'. bh_put e v = Some v' \<and> bh_rep v' L' \<and> bh_mset L' = add_mset e (bh_mset L) \<and>
    (v_capacity v' = v_capacity v \<or> v_capacity v' = 2 * Suc (v_length v))"
proof -
  let ?n = "Suc (v_length v)"
  have v: "v_length v < v_capacity v" "length L = ?n" "bh_cells (vec v) L" "heap_order L"
    using assms(1) by (auto simp: bh_rep_def)
  have "\<exists>m. (if ?n = v_capacity v then v_reserve (twice (v_capacity v)) (v\<lparr>v_length := ?n\<rparr>) else Some (v\<lparr>v_length := ?n\<rparr>))
      = Some (v\<lparr>vec := m, v_length := ?n\<rparr>) \<and> bh_cells m L \<and> ?n < length m \<and> (length m = v_capacity v \<or> length m = 2 * ?n)"
  proof (cases "?n = v_capacity v")
    case True
    have "twice (v_capacity v) = 2 * v_capacity v" using twice_small assms(2) by blast
    moreover obtain m where "copy_cells (replicate (2 * v_capacity v) None) 0 (vec v) 0 ?n = Some m" "bh_cells m L"
      "length m = 2 * v_capacity v"
      using grown_cells [OF v(3), of "2 * v_capacity v"] True v(2) by auto
    ultimately show ?thesis using True v(1) by (intro exI [of _ m]) (auto simp: v_reserve_def Let_def)
  next
    case False
    with v show ?thesis by (intro exI [of _ "vec v"]) simp
  qed
  then obtain m where m: "(if ?n = v_capacity v then v_reserve (twice (v_capacity v)) (v\<lparr>v_length := ?n\<rparr>) else Some (v\<lparr>v_length := ?n\<rparr>))
      = Some (v\<lparr>vec := m, v_length := ?n\<rparr>)" "bh_cells m L" "?n < length m" "length m = v_capacity v \<or> length m = 2 * ?n"
    by blast
  have "hole_cells m (L @ [e]) ?n" using m(2,3) v(2) by (auto simp: hole_cells_def bh_cells_def nth_append)
  moreover have "up_order (L @ [e]) ?n"
    using v(2,4) by (auto simp: up_order_def skip_parent_def heap_order_def nth_append)
  ultimately obtain m' L' where up: "bh_up m ?n e = Some m'" "bh_cells m' L'" "heap_order L'" "mset L' = mset (L @ [e])"
    "length L' = length (L @ [e])" "L' ! 0 = (L @ [e]) ! 0" "length m' = length m"
    using bh_up_correct [of m "L @ [e]" ?n e] v(2) by (auto simp: nth_append)
  have "bh_put e v = Option.bind (Some (v\<lparr>vec := m, v_length := ?n\<rparr>))
      (\<lambda>v. Option.bind (bh_up (vec v) (v_length v) e) (\<lambda>m. Some (v\<lparr>vec := m\<rparr>)))"
    unfolding bh_put_def Let_def m(1) [symmetric] by simp
  then have "bh_put e v = Some (v\<lparr>vec := m', v_length := ?n\<rparr>)" using up(1) by simp
  moreover have "bh_rep (v\<lparr>vec := m', v_length := ?n\<rparr>) L'"
    using up v(2) m(3) by (simp add: bh_rep_def)
  moreover have "bh_mset L' = add_mset e (bh_mset L)"
    using mset_behind [OF up(4-6)] v(2) by (cases L) auto
  ultimately show ?thesis using m(4) up(7) by (intro exI [of _ "v\<lparr>vec := m', v_length := ?n\<rparr>"] exI [of _ L'] conjI) auto
qed

lemma bh_get_rep:
  assumes "bh_rep v L" and "v_length v \<noteq> 0"
  shows "\<exists>v' L'. bh_get v = Some (Some (Min_mset (bh_mset L)), v') \<and> bh_rep v' L' \<and>
    bh_mset L' = bh_mset L - {#Min_mset (bh_mset L)#} \<and> v_capacity v' = v_capacity v"
proof -
  obtain n where n: "v_length v = Suc n" using assms(2) by (cases "v_length v") auto
  have v: "Suc n < v_capacity v" "length L = Suc (Suc n)" "bh_cells (vec v) L" "heap_order L"
    using assms(1) n by (auto simp: bh_rep_def)
  let ?y = "L ! Suc n"
  have rd: "bh_min v = Some (L ! 1)" "read_cell v (Suc n) = Some ?y"
    using v by (auto simp: bh_min_def read_cell_def bh_cells_def)
  note mn = mset_min [OF v(4,2)]
  obtain a b t where L: "L = a # b # t" "length t = n"
    using v(2) by (metis length_Suc_conv)
  define K where "K = (butlast L)[1 := ?y]"
  show ?thesis
  proof (cases n)
    case 0
    have "bh_down (vec v) 0 1 ?y = Some ((vec v)[1 := Some ?y])"
      using v(1) by (subst bh_down.simps) (simp add: write_cell_def)
    with 0 rd n have "bh_get v = Some (Some (L ! 1), v\<lparr>vec := (vec v)[1 := Some ?y], v_length := 0\<rparr>)"
      by (simp add: bh_get_def)
    moreover have "bh_rep (v\<lparr>vec := (vec v)[1 := Some ?y], v_length := 0\<rparr>) [a]"
      using v(1) by (auto simp: bh_rep_def bh_cells_def heap_order_def)
    ultimately show ?thesis using mn L 0 by (intro exI [of _ "v\<lparr>vec := (vec v)[1 := Some ?y], v_length := 0\<rparr>"] exI [of _ "[a]"] conjI) auto
  next
    case (Suc k)
    have K: "length K = Suc n" "K ! 1 = ?y" using v(2) Suc by (auto simp: K_def)
    have Kn: "K ! i = L ! i" if "i < Suc n" "i \<noteq> 1" for i using that v(2) by (simp add: K_def nth_butlast)
    have "hole_cells (vec v) K 1"
      using v K(1) Kn by (auto simp: hole_cells_def bh_cells_def)
    moreover have "down_order K 1"
      using v(2,4) K(1) Kn by (auto simp: down_order_def skip_parent_def heap_order_def)
    ultimately obtain m' L' where down: "bh_down (vec v) n 1 ?y = Some m'" "bh_cells m' L'" "heap_order L'" "mset L' = mset K"
      "length L' = length K" "L' ! 0 = K ! 0" "length m' = length (vec v)"
      using bh_down_correct [of "vec v" K 1 ?y n] K Suc by auto
    have "bh_get v = Some (Some (L ! 1), v\<lparr>vec := m', v_length := n\<rparr>)"
      using rd n down(1) by (simp add: bh_get_def)
    moreover have "bh_rep (v\<lparr>vec := m', v_length := n\<rparr>) L'"
      using down K(1) v(1) by (simp add: bh_rep_def)
    moreover have "bh_mset L' = bh_mset L - {#L ! 1#}"
    proof -
      have t: "t \<noteq> []" using L(2) Suc by auto
      then have "K = a # last t # butlast t" using L Suc by (auto simp: K_def last_conv_nth)
      moreover have "add_mset (last t) (mset (butlast t)) = mset t"
        using t by (metis append_butlast_last_id mset_append mset.simps(1,2) union_mset_add_mset_right add_0_right)
      ultimately show ?thesis using mset_behind [OF down(4-6)] L(1) by simp
    qed
    ultimately show ?thesis using mn down(7) by (intro exI [of _ "v\<lparr>vec := m', v_length := n\<rparr>"] exI [of _ L'] conjI) auto
  qed
qed

text \<open>The capacity doubles only when it is used up, so the number of elements bounds it.\<close>

definition bh_queue :: "'a :: linorder uvector \<Rightarrow> 'a multiset \<Rightarrow> bool" where
  "bh_queue v M \<longleftrightarrow> v_capacity v < 2 ^ 31 \<and> (\<exists>L. bh_rep v L \<and> M = mset (tl L))"

section \<open>Priority queues\<close>

datatype 'a pq_op = Put 'a | Get

text \<open>A sequence of operations on an implementation, and on the multiset that specifies it.\<close>

fun pq_run :: "('a \<Rightarrow> 'q \<Rightarrow> 'q option) \<Rightarrow> ('q \<Rightarrow> ('a option \<times> 'q) option) \<Rightarrow> 'a pq_op list \<Rightarrow> 'q \<Rightarrow> ('a option list \<times> 'q) option" where
  "pq_run put get [] q = Some ([], q)"
| "pq_run put get (Put e # ops) q = Option.bind (put e q) (pq_run put get ops)"
| "pq_run put get (Get # ops) q = Option.bind (get q) (\<lambda>(r, q). map_option (\<lambda>(rs, q). (r # rs, q)) (pq_run put get ops q))"

fun mset_run :: "'a :: linorder pq_op list \<Rightarrow> 'a multiset \<Rightarrow> 'a option list \<times> 'a multiset" where
  "mset_run [] M = ([], M)"
| "mset_run (Put e # ops) M = mset_run ops (add_mset e M)"
| "mset_run (Get # ops) M =
     (if M = {#} then (let (rs, M) = mset_run ops M in (None # rs, M))
      else (let (rs, M') = mset_run ops (M - {#Min_mset M#}) in (Some (Min_mset M) # rs, M')))"

abbreviation puts :: "'a pq_op list \<Rightarrow> nat" where
  "puts ops \<equiv> length (filter (\<lambda>p. p \<noteq> Get) ops)"

locale priority_queue =
  fixes inv :: "'q \<Rightarrow> 'a :: linorder multiset \<Rightarrow> bool"
    and put :: "'a \<Rightarrow> 'q \<Rightarrow> 'q option"
    and get :: "'q \<Rightarrow> ('a option \<times> 'q) option"
    and limit :: nat
  assumes put_inv: "inv q M \<Longrightarrow> size M < limit \<Longrightarrow> \<exists>q'. put e q = Some q' \<and> inv q' (add_mset e M)"
    and get_none: "inv q {#} \<Longrightarrow> get q = Some (None, q)"
    and get_min: "inv q M \<Longrightarrow> M \<noteq> {#} \<Longrightarrow> \<exists>q'. get q = Some (Some (Min_mset M), q') \<and> inv q' (M - {#Min_mset M#})"
begin

lemma run_simulates:
  assumes "inv q M" and "size M + puts ops \<le> limit"
  shows "\<exists>q'. pq_run put get ops q = Some (fst (mset_run ops M), q') \<and> inv q' (snd (mset_run ops M))"
  using assms
proof (induction ops arbitrary: q M)
  case (Cons p ops)
  show ?case
  proof (cases p)
    case (Put e)
    then obtain q' where "put e q = Some q'" "inv q' (add_mset e M)" using put_inv [OF Cons.prems(1)] Cons.prems(2) by auto
    with Cons.IH [of q' "add_mset e M"] Cons.prems(2) Put show ?thesis by simp
  next
    case Get
    show ?thesis
    proof (cases "M = {#}")
      case True
      with Cons.IH [OF Cons.prems(1)] Cons.prems Get get_none [of q] show ?thesis
        by (auto simp: split_beta Let_def)
    next
      case False
      then obtain q' where q': "get q = Some (Some (Min_mset M), q')" "inv q' (M - {#Min_mset M#})"
        using get_min [OF Cons.prems(1)] by auto
      have "size (M - {#Min_mset M#}) + puts ops \<le> limit"
        using Cons.prems(2) Get False by (simp add: size_Diff_singleton)
      with Cons.IH [OF q'(2)] q'(1) False Get show ?thesis by (auto simp: split_beta Let_def)
    qed
  qed
qed simp

text \<open>Entering a list and drawing as many elements sorts it.\<close>

lemma puts_only: "mset_run (map Put xs @ ops) M = mset_run ops (mset xs + M)"
  by (induction xs arbitrary: M) simp_all

lemma gets_sort: "mset_run (replicate (size M) Get) M = (map Some (sorted_list_of_multiset M), {#})"
proof (induction "size M" arbitrary: M)
  case (Suc n)
  then have M: "M \<noteq> {#}" by auto
  let ?m = "Min_mset M"
  have "?m \<in># M" using M by simp
  then have sz: "n = size (M - {#?m#})" and split: "M = add_mset ?m (M - {#?m#})"
    using Suc.hyps(2) by (auto simp: size_Diff_singleton)
  have "\<forall>x \<in> set (sorted_list_of_multiset (M - {#?m#})). ?m \<le> x"
    by (auto dest: in_diffD)
  then have "sorted_list_of_multiset M = ?m # sorted_list_of_multiset (M - {#?m#})"
    by (subst split) (simp add: insort_is_Cons)
  moreover have "size M = Suc (size (M - {#?m#}))" using sz Suc.hyps(2) by simp
  ultimately show ?case using Suc.hyps(1) [OF sz] M by simp
qed simp

lemma run_sorts:
  assumes "inv q {#}" and "length xs \<le> limit"
  shows "\<exists>q'. pq_run put get (map Put xs @ replicate (length xs) Get) q = Some (map Some (sort xs), q') \<and> inv q' {#}"
proof -
  let ?ops = "map Put xs @ replicate (length xs) Get"
  have "puts ?ops = length xs" by (simp add: filter_map comp_def)
  moreover have "mset_run ?ops {#} = (map Some (sort xs), {#})"
    using gets_sort [of "mset xs"] by (simp add: puts_only)
  ultimately show ?thesis using run_simulates [OF assms(1), of ?ops] assms(2) by simp
qed

end

interpretation bh: priority_queue bh_queue bh_put bh_get "2 ^ 30 - 1 :: nat"
proof unfold_locales
  fix v :: "'a uvector" and M e
  assume q: "bh_queue v M" and size: "size M < 2 ^ 30 - 1"
  then obtain L where L: "bh_rep v L" "M = mset (tl L)" "v_capacity v < 2 ^ 31" by (auto simp: bh_queue_def)
  then obtain v' L' where v': "bh_put e v = Some v'" "bh_rep v' L'" "mset (tl L') = add_mset e (mset (tl L))"
      "v_capacity v' = v_capacity v \<or> v_capacity v' = 2 * Suc (v_length v)"
    using bh_put_rep [OF L(1,3)] by blast
  moreover have "v_length v = size M" using L by (simp add: bh_rep_def)
  then have "v_capacity v' < 2 ^ 31" using v'(4) L(3) size by auto
  ultimately show "\<exists>q'. bh_put e v = Some q' \<and> bh_queue q' (add_mset e M)"
    using L(2) by (auto simp: bh_queue_def)
next
  fix v :: "'a uvector"
  assume "bh_queue v {#}"
  then obtain L where "bh_rep v L" "length L = Suc (v_length v)" "tl L = []" unfolding bh_queue_def bh_rep_def by auto
  then have "v_length v = 0" by (cases L) auto
  then show "bh_get v = Some (None, v)" by (simp add: bh_get_def)
next
  fix v :: "'a uvector" and M
  assume q: "bh_queue v M" and "M \<noteq> {#}"
  then obtain L where L: "bh_rep v L" "M = mset (tl L)" "v_capacity v < 2 ^ 31" by (auto simp: bh_queue_def)
  then have "v_length v \<noteq> 0" using \<open>M \<noteq> {#}\<close> by (cases L) (auto simp: bh_rep_def simp flip: length_greater_0_conv)
  from bh_get_rep [OF L(1) this] L(2,3)
  show "\<exists>q'. bh_get v = Some (Some (Min_mset M), q') \<and> bh_queue q' (M - {#Min_mset M#})"
    unfolding bh_queue_def by metis
qed

section \<open>Properties\<close>

lemma bh_queue_new: "0 < n \<Longrightarrow> n < 2 ^ 31 \<Longrightarrow> bh_queue (v_new n) {#}"
  by (auto simp: bh_queue_def bh_rep_def v_new_def bh_cells_def heap_order_def intro!: exI [of _ "[undefined]"])

text \<open>
  C12: the heap in the vector is a priority queue. Any sequence of \<open>bh_put\<close> and \<open>bh_get\<close> that starts with a
  new vector runs within the array and without reading a cell that was never written, and draws what the
  multiset of the elements specifies: an element that is minimal at that moment, or the null pointer when
  there is none. Up to 2^30 - 1 elements can be entered; the array grows as needed.
\<close>

theorem heap_refines:
  fixes ops :: "'a :: linorder pq_op list"
  assumes "0 < n" and "n < 2 ^ 31" and "puts ops < 2 ^ 30"
  shows "\<exists>v. pq_run bh_put bh_get ops (v_new n) = Some (fst (mset_run ops {#}), v) \<and> bh_queue v (snd (mset_run ops {#}))"
  using bh.run_simulates [OF bh_queue_new [OF assms(1,2)], of ops] assms(3) by simp

theorem heap_refines_witness:
  "\<exists>v. pq_run bh_put bh_get [Get, Put 5, Put 3, Get, Put (4 :: nat), Get, Get] (v_new 1) = Some ([None, Some 3, Some 4, Some 5], v) \<and> bh_queue v {#}"
  using heap_refines [of 1 "[Get, Put 5, Put 3, Get, Put (4 :: nat), Get, Get]"] by (simp add: add_mset_commute)

text \<open>
  Entering a list in the heap and drawing all its elements sorts the list, and leaves the heap empty.
\<close>

theorem heap_sorts:
  fixes xs :: "'a :: linorder list"
  assumes "0 < n" and "n < 2 ^ 31" and "length xs < 2 ^ 30"
  shows "\<exists>v. pq_run bh_put bh_get (map Put xs @ replicate (length xs) Get) (v_new n) = Some (map Some (sort xs), v) \<and> v_length v = 0"
proof -
  obtain v where v: "pq_run bh_put bh_get (map Put xs @ replicate (length xs) Get) (v_new n) = Some (map Some (sort xs), v)" "bh_queue v {#}"
    using bh.run_sorts [OF bh_queue_new [OF assms(1,2)], of xs] assms(3) by auto
  then have "v_length v = 0" by (auto simp: bh_queue_def bh_rep_def length_Suc_conv)
  with v(1) show ?thesis by blast
qed

theorem heap_sorts_witness:
  "\<exists>v. pq_run bh_put bh_get [Put 3, Put 1, Put (2 :: nat), Get, Get, Get] (v_new 2) = Some ([Some 1, Some 2, Some 3], v) \<and> v_length v = 0"
  using heap_sorts [of 2 "[3, 1, 2 :: nat]"] by simp

end
