(* ===== verification/StringVector.thy ===== *)
theory StringVector
  imports Token Vector HashMap "HOL-Library.List_Lexorder"
begin

text \<open>
  The vector of strings, \<open>UVector<UString>\<close> of \<open>src/ulib/container/vector.cpp\<close>: splitting and joining,
  the searches, and the operations on vectors as sets. The elements are the bytes of the strings; the
  text that is split is a memory and its size, so that a read behind the text is visible.
\<close>

section \<open>Splitting\<close>

text \<open>Where the text starts and ends: a double quote at its start is skipped with the last character.\<close>

definition split_view :: "mem \<Rightarrow> nat \<Rightarrow> (nat \<times> nat) option" where
  "split_view m n = map_option (\<lambda>c. if c = DQUOTE then (1, n - 1) else (0, n)) (rd m 0)"

function sv_split_loop :: "mem \<Rightarrow> nat \<Rightarrow> nat \<Rightarrow> byte list option \<Rightarrow> byte list uvector \<Rightarrow> byte list uvector option" where
  "sv_split_loop m s e delim v =
     (if s < e then
        (case u_delimit_token m s e delim HASH of
           None \<Rightarrow> None
         | Some (s', p) \<Rightarrow>
             if s' \<le> e then
               (case p of
                  None \<Rightarrow> None
                | Some q \<Rightarrow> do {
                    r \<leftarrow> slice m q (s' - q);
                    v \<leftarrow> v_push r v;
                    sv_split_loop m (Suc s') e delim v
                  })
             else sv_split_loop m s' e delim v)
      else Some v)"
  by pat_completeness auto

termination
  by (relation "measure (\<lambda>(m, s, e, d, v). e - s)") (auto dest!: delimit_token_bounds)

declare sv_split_loop.simps [simp del]

text \<open>\<open>split\<close> with a string of delimiters (or null, for white space) answers the number of pieces.\<close>

definition sv_split :: "mem \<Rightarrow> nat \<Rightarrow> byte list option \<Rightarrow> byte list uvector \<Rightarrow> (nat \<times> byte list uvector) option" where
  "sv_split m n delim v = do {
     (s, e) \<leftarrow> split_view m n;
     w \<leftarrow> sv_split_loop m s e delim v;
     Some (v_length w - v_length v, w)
   }"

function sv_split_char_loop :: "mem \<Rightarrow> nat \<Rightarrow> nat \<Rightarrow> byte \<Rightarrow> byte list uvector \<Rightarrow> byte list uvector option" where
  "sv_split_char_loop m s e delim v =
     (if s < e then do {
        c \<leftarrow> rd m s;
        if c = delim then sv_split_char_loop m (Suc s) e delim v
        else (case mem_chr m s (e - s) delim of
            None \<Rightarrow> None
          | Some q \<Rightarrow> (let t = (case q of None \<Rightarrow> e | Some t \<Rightarrow> t) in do {
              r \<leftarrow> slice m s (t - s);
              v \<leftarrow> v_push r v;
              sv_split_char_loop m (Suc t) e delim v
            }))
      }
      else Some v)"
  by pat_completeness auto

termination
  by (relation "measure (\<lambda>(m, s, e, d, v). Suc e - s)")
     (auto simp: mem_chr_def memchr_Some split: option.splits if_splits)

declare sv_split_char_loop.simps [simp del]

definition sv_split_char :: "mem \<Rightarrow> nat \<Rightarrow> byte \<Rightarrow> byte list uvector \<Rightarrow> (nat \<times> byte list uvector) option" where
  "sv_split_char m n delim v = do {
     (s, e) \<leftarrow> split_view m n;
     w \<leftarrow> sv_split_char_loop m s e delim v;
     Some (v_length w - v_length v, w)
   }"

section \<open>Joining\<close>

text \<open>
  The new string has the length computed first; a byte of it that is not written is \<open>None\<close>. The number
  \<open>n\<close> counts the elements from \<open>i\<close> on.
\<close>

fun join_length :: "byte list uvector \<Rightarrow> nat \<Rightarrow> nat \<Rightarrow> nat option" where
  "join_length v i 0 = Some 0"
| "join_length v i (Suc n) = do {
     r \<leftarrow> read_cell v i;
     len \<leftarrow> join_length v (i + 1) n;
     Some (length r + len)
   }"

fun join_loop :: "byte list \<Rightarrow> byte list uvector \<Rightarrow> nat \<Rightarrow> nat \<Rightarrow> nat \<Rightarrow> byte option list \<Rightarrow> byte option list option" where
  "join_loop t v i 0 ptr buf = None"
| "join_loop t v i (Suc n) ptr buf = do {
     r \<leftarrow> read_cell v i;
     buf \<leftarrow> (if r \<noteq> [] then blit buf ptr (map Some r) else Some buf);
     if n = 0 then Some buf
     else if t \<noteq> [] then do {
       buf \<leftarrow> blit buf (ptr + length r) (map Some t);
       join_loop t v (i + 1) n (ptr + length r + length t) buf
     }
     else join_loop t v (i + 1) n (ptr + length r) buf
   }"

definition sv_join :: "byte list \<Rightarrow> byte list uvector \<Rightarrow> byte option list option" where
  "sv_join t v =
     (if v_length v = 0 then Some []
      else do {
        len \<leftarrow> join_length v 0 (v_length v);
        join_loop t v 0 (v_length v) 0 (replicate ((len + (v_length v - 1) * length t) mod 2 ^ 32) None)
      })"

section \<open>Searches\<close>

text \<open>The answer \<open>None\<close> inside is \<open>U_NOT_FOUND\<close>.\<close>

definition sv_findRange :: "byte list \<Rightarrow> nat \<Rightarrow> nat \<Rightarrow> byte list uvector \<Rightarrow> nat option option" where
  "sv_findRange s start fin v = v_find_loop (\<lambda>r. rep_equal r s False) v start (fin - start)"

definition sv_find :: "byte list \<Rightarrow> bool \<Rightarrow> byte list uvector \<Rightarrow> nat option option" where
  "sv_find s ignore_case v = v_find_loop (\<lambda>r. rep_equal s r ignore_case) v 0 (v_length v)"

text \<open>
  The comparisons of \<open>UStringRep\<close>. The C library's \<open>memcmp\<close> and \<open>strncasecmp\<close> promise the sign of their answer
  only; the difference of two 32-bit lengths is read as a signed number.
\<close>

fun memcmp :: "byte list \<Rightarrow> byte list \<Rightarrow> int" where
  "memcmp (x # a) (y # b) = (if x < y then -1 else if y < x then 1 else memcmp a b)"
| "memcmp a b = 0"

fun strncasecmp :: "byte list \<Rightarrow> byte list \<Rightarrow> int" where
  "strncasecmp (x # a) (y # b) =
     (if u__tolower x < u__tolower y then -1 else if u__tolower y < u__tolower x then 1
      else if x = NUL then 0 else strncasecmp a b)"
| "strncasecmp a b = 0"

definition length_diff :: "nat \<Rightarrow> nat \<Rightarrow> int" where
  "length_diff m n = signed_take_bit 31 (int m - int n)"

definition rep_compare :: "byte list \<Rightarrow> byte list \<Rightarrow> int" where
  "rep_compare str s =
     (let n = min (length str) (length s); r = memcmp (take n str) (take n s)
      in if r = 0 then length_diff (length str) (length s) else r)"

definition rep_comparenocase :: "byte list \<Rightarrow> byte list \<Rightarrow> int" where
  "rep_comparenocase str s =
     (let n = min (length str) (length s); r = strncasecmp (take n str) (take n s)
      in if r = 0 then length_diff (length str) (length s) else r)"

text \<open>
  The binary search, with the signed positions of the source: \<open>Inl\<close> is a position returned in the loop,
  \<open>Inr\<close> the value of \<open>low\<close> after it. A sum of positions that is not a signed 32-bit number is \<open>None\<close>.
\<close>

function sorted_loop :: "(byte list \<Rightarrow> int) \<Rightarrow> byte list uvector \<Rightarrow> int \<Rightarrow> int \<Rightarrow> (nat + int) option" where
  "sorted_loop cmp v low high =
     (if high - low > 1 then
        if 0 \<le> low + high \<and> low + high < 2 ^ 31 then
          (let probe = ((low + high) mod 2 ^ 32) div 2 in do {
             key \<leftarrow> read_cell v (nat probe);
             if cmp key > 0 then sorted_loop cmp v low probe
             else if cmp key = 0 then Some (Inl (nat probe))
             else sorted_loop cmp v probe high
           })
        else None
      else Some (Inr low))"
  by pat_completeness auto

termination
  by (relation "measure (\<lambda>(cmp, v, low, high). nat (high - low))") auto

declare sorted_loop.simps [simp del]

definition sv_findSorted :: "byte list \<Rightarrow> bool \<Rightarrow> byte list uvector \<Rightarrow> nat option option" where
  "sv_findSorted target ignore_case v =
     (let cmp = (\<lambda>key. if ignore_case then rep_comparenocase key target else rep_compare key target) in do {
        r \<leftarrow> sorted_loop cmp v (-1) (int (v_length v));
        case r of
          Inl probe \<Rightarrow> Some (Some probe)
        | Inr low \<Rightarrow>
            if low = -1 then Some None
            else do {
              key \<leftarrow> read_cell v (nat low);
              Some (if cmp key \<noteq> 0 then None else Some (nat low))
            }
      })"

section \<open>Vectors as sets\<close>

fun isEqual_loop :: "(byte list \<Rightarrow> nat option option) \<Rightarrow> byte list uvector \<Rightarrow> nat \<Rightarrow> nat \<Rightarrow> bool option" where
  "isEqual_loop fnd v i 0 = Some True"
| "isEqual_loop fnd v i (Suc n) = do {
     elem \<leftarrow> read_cell v i;
     q \<leftarrow> fnd elem;
     if q = None then Some False else isEqual_loop fnd v (i + 1) n
   }"

definition sv_isEqual :: "byte list uvector \<Rightarrow> bool \<Rightarrow> byte list uvector \<Rightarrow> bool option" where
  "sv_isEqual w ignore_case v =
     (if v_length v \<noteq> 0 then isEqual_loop (\<lambda>elem. sv_find elem ignore_case w) v 0 (v_length v) else Some False)"

fun intersection_loop :: "byte list uvector \<Rightarrow> nat \<Rightarrow> nat \<Rightarrow> byte list uvector \<Rightarrow> byte list uvector \<Rightarrow> byte list uvector option" where
  "intersection_loop set1 i 0 set2 v = Some v"
| "intersection_loop set1 i (Suc n) set2 v = do {
     elem \<leftarrow> read_cell set1 i;
     q \<leftarrow> sv_find elem False set2;
     v \<leftarrow> (if q \<noteq> None then v_push elem v else Some v);
     intersection_loop set1 (i + 1) n set2 v
   }"

definition sv_intersection :: "byte list uvector \<Rightarrow> byte list uvector \<Rightarrow> byte list uvector \<Rightarrow> (nat \<times> byte list uvector) option" where
  "sv_intersection set1 set2 v =
     (if v_length set1 = 0 \<or> v_length set2 = 0 then Some (0, v)
      else map_option (\<lambda>w. (v_length w - v_length v, w)) (intersection_loop set1 0 (v_length set1) set2 v))"

fun eq_loop :: "byte list uvector \<Rightarrow> byte list uvector \<Rightarrow> nat \<Rightarrow> nat \<Rightarrow> bool option" where
  "eq_loop v w i 0 = Some True"
| "eq_loop v w i (Suc n) = do {
     r1 \<leftarrow> read_cell v i;
     r2 \<leftarrow> read_cell w i;
     if \<not> rep_equal r1 r2 False then Some False else eq_loop v w (i + 1) n
   }"

definition sv_eq :: "byte list uvector \<Rightarrow> byte list uvector \<Rightarrow> bool option" where
  "sv_eq v w = (if v_length v = v_length w then eq_loop v w 0 (v_length v) else Some False)"

section \<open>The pieces of a text\<close>

lemma delimit_token_hash:
  assumes "rest_of t m s" and "plain_text t" and "delim = None \<longrightarrow> HASH \<notin> set t"
  shows "u_delimit_token m s (length t) delim HASH = u_delimit_token m s (length t) delim NUL"
proof (cases delim)
  case None
  let ?s = "s + length (takeWhile u__isspace (drop s t))"
  have "skip_while u__isspace m s (length t) = Some ?s"
    using u_skip_words [OF assms(1,2), of None] by (simp add: u_skip_def u_skip_ws.simps is_sep_def [abs_def])
  moreover have "\<exists>c. rd m ?s = Some c \<and> c \<noteq> HASH"
  proof (cases "?s < length t")
    case True
    then have "rd m ?s = Some (t ! ?s)"
      using rest_of_drop [OF assms(1), of ?s] rest_of_nth by auto
    with True None assms(3) show ?thesis by (metis nth_mem)
  next
    case False
    then have "?s = length t"
      using assms(1) length_takeWhile_le [of u__isspace "drop s t"] by (auto simp: rest_of_def)
    moreover have "rest_of t m (length t)" using rest_of_drop [OF assms(1)] assms(1) by (simp add: rest_of_def)
    then have "drop (length t) m = [NUL]" "length t < length m" by (simp_all add: rest_of_def)
    then have "rd m (length t) = Some NUL" by (metis hd_drop_conv_nth list.sel(1) rd_Some_iff)
    ultimately show ?thesis by simp
  qed
  ultimately show ?thesis
    by (auto simp: None u_delimit_token_def u_skip_def u_skip_ws.simps [of m s])
next
  case (Some d)
  then show ?thesis by (simp add: u_delimit_token_def u_skip_def)
qed

lemma takeWhile_prefix: "take (length (takeWhile P xs)) (xs @ ys) = takeWhile P xs"
  by (induction xs) auto

lemma split_loop_pieces:
  assumes "rest_of t m s \<or> s = Suc (length t)" and "plain_text t" and "delim = None \<longrightarrow> HASH \<notin> set t"
    and "v_rep v xs" and "length xs + (length t - s) < 2 ^ 31"
  shows "\<exists>v'. sv_split_loop m s (length t) delim v = Some v' \<and> v_rep v' (xs @ split_words (is_sep delim) (drop s t))"
  using assms(1,4,5)
proof (induction "Suc (length t) - s" arbitrary: v xs s rule: less_induct)
  case less
  let ?P = "is_sep delim" and ?N = "\<lambda>c. \<not> is_sep delim c"
  show ?case
  proof (cases "s < length t")
    case False
    with less.prems(2) show ?thesis by (subst sv_split_loop.simps) (simp add: split_words.simps)
  next
    case True
    with less.prems(1) have r: "rest_of t m s" by auto
    define s1 where "s1 = s + length (takeWhile ?P (drop s t))"
    define w where "w = takeWhile ?N (drop s1 t)"
    have d1: "dropWhile ?P (drop s t) = drop s1 t" by (simp add: s1_def dropWhile_eq_drop add.commute)
    have le1: "s \<le> s1" "s1 \<le> length t" using True length_takeWhile_le [of ?P "drop s t"] by (auto simp: s1_def)
    note tok = delimit_token_words [OF r assms(2) s1_def] delimit_token_hash [OF r assms(2,3)]
    show ?thesis
    proof (cases "s1 = length t")
      case e: True
      then have "split_words ?P (drop s t) = []" using d1 by (simp add: split_words.simps)
      with less.prems(2) tok e True show ?thesis
        by (subst sv_split_loop.simps) (simp add: sv_split_loop.simps [of m "Suc (length t)"])
    next
      case False
      then have lt: "s1 < length t" using le1 by simp
      define s2 where "s2 = s1 + length w"
      have le2: "s2 \<le> length t" "s1 \<le> s2"
        using lt length_takeWhile_le [of ?N "drop s1 t"] by (auto simp: s2_def w_def)
      have m: "drop s1 m = drop s1 t @ [NUL]" "length m = Suc (length t)"
        using rest_of_drop [OF r le1] by (simp_all add: rest_of_def)
      have "take (length w) (drop s1 m) = w"
        using takeWhile_prefix [of ?N "drop s1 t"] unfolding m(1) w_def by simp
      then have sl: "slice m s1 (s2 - s1) = Some w" using le2(1) m(2) by (simp add: slice_def s2_def)
      obtain v1 where v1: "v_push w v = Some v1" "v_rep v1 (xs @ [w])"
        using push_rep [OF less.prems(2), of w] less.prems(3) by auto
      have eq: "sv_split_loop m s (length t) delim v = sv_split_loop m (Suc s2) (length t) delim v1"
        using tok False True le2 sl v1(1) by (subst sv_split_loop.simps) (simp add: s2_def w_def)
      have "rest_of t m (Suc s2) \<or> Suc s2 = Suc (length t)"
        using rest_of_drop [OF r, of "Suc s2"] le1 le2 by auto
      moreover have "Suc (length t) - Suc s2 < Suc (length t) - s" using le1 le2 True by simp
      moreover have "length (xs @ [w]) + (length t - Suc s2) < 2 ^ 31"
        using less.prems(3) le1 le2 True by simp
      ultimately obtain v2 where "sv_split_loop m (Suc s2) (length t) delim v1 = Some v2"
        "v_rep v2 ((xs @ [w]) @ split_words ?P (drop (Suc s2) t))"
        using less.hyps [OF _ _ v1(2)] by blast
      moreover have "split_words ?P (drop s t) = w # split_words ?P (drop (Suc s2) t)"
        using split_words_step [OF d1 lt] by (simp add: s2_def w_def)
      ultimately show ?thesis using eq by simp
    qed
  qed
qed

lemma split_char_loop_pieces:
  assumes "e \<le> length m" and "v_rep v xs" and "length xs + (e - s) < 2 ^ 31"
  shows "\<exists>v'. sv_split_char_loop m s e d v = Some v' \<and>
    v_rep v' (xs @ split_words (\<lambda>c. c = d) (drop s (take e m)))"
  using assms(2,3)
proof (induction "Suc e - s" arbitrary: v xs s rule: less_induct)
  case less
  let ?t = "take e m" and ?N = "\<lambda>c. c \<noteq> d"
  have len: "length ?t = e" using assms(1) by simp
  show ?case
  proof (cases "s < e")
    case False
    with less.prems(1) show ?thesis by (subst sv_split_char_loop.simps) (simp add: split_words.simps)
  next
    case True
    then have c: "rd m s = Some (?t ! s)" "drop s ?t = ?t ! s # drop (Suc s) ?t"
      using assms(1) Cons_nth_drop_Suc [of s ?t] by (simp_all add: rd_def)
    show ?thesis
    proof (cases "?t ! s = d")
      case eq: True
      have "split_words (\<lambda>c. c = d) (drop s ?t) = split_words (\<lambda>c. c = d) (drop (Suc s) ?t)"
        using eq by (simp add: c(2) split_words_sep)
      moreover have "sv_split_char_loop m s e d v = sv_split_char_loop m (Suc s) e d v"
        using True c(1) eq by (subst sv_split_char_loop.simps) simp
      ultimately show ?thesis using less.hyps [of "Suc s" v xs] less.prems True by simp
    next
      case ne: False
      define w where "w = takeWhile ?N (drop s ?t)"
      define s2 where "s2 = s + length w"
      have le: "s2 \<le> e" "s < s2"
        using True len length_takeWhile_le [of ?N "drop s ?t"] ne by (auto simp: s2_def w_def c(2))
      have dr: "take (e - s) (drop s m) = drop s ?t" by (simp add: drop_take)
      have mc: "mem_chr m s (e - s) d = Some q \<Longrightarrow> (case q of None \<Rightarrow> e | Some t \<Rightarrow> t) = s2"
        and ex: "\<exists>q. mem_chr m s (e - s) d = Some q" for q
        using memchr_takeWhile [of "drop s ?t" d] True assms(1)
        by (auto simp: mem_chr_def dr s2_def w_def len split: option.splits if_splits)
      then obtain q where q: "mem_chr m s (e - s) d = Some q" "(case q of None \<Rightarrow> e | Some t \<Rightarrow> t) = s2" by blast
      have "drop s m = drop s ?t @ drop e m"
        using drop_append [of s ?t "drop e m"] len True by simp
      then have "take (length w) (drop s m) = w" unfolding w_def by (simp only: takeWhile_prefix)
      then have sl: "slice m s (s2 - s) = Some w" using le assms(1) by (simp add: slice_def s2_def)
      obtain v1 where v1: "v_push w v = Some v1" "v_rep v1 (xs @ [w])"
        using push_rep [OF less.prems(1), of w] less.prems(2) by auto
      have eq: "sv_split_char_loop m s e d v = sv_split_char_loop m (Suc s2) e d v1"
        using True c(1) ne q sl v1(1) by (subst sv_split_char_loop.simps) (simp add: Let_def)
      have "length (xs @ [w]) + (e - Suc s2) < 2 ^ 31" using less.prems(2) le True by simp
      moreover have "Suc e - Suc s2 < Suc e - s" using le True by simp
      ultimately obtain v2 where "sv_split_char_loop m (Suc s2) e d v1 = Some v2"
        "v_rep v2 ((xs @ [w]) @ split_words (\<lambda>c. c = d) (drop (Suc s2) ?t))"
        using less.hyps [OF _ v1(2)] by blast
      moreover have "split_words (\<lambda>c. c = d) (drop s ?t) = w # split_words (\<lambda>c. c = d) (drop (Suc s2) ?t)"
        using split_words_step [of "\<lambda>c. c = d" s ?t s] ne True len by (simp add: s2_def w_def c(2))
      ultimately show ?thesis using eq by simp
    qed
  qed
qed

section \<open>The joined text\<close>

fun intercalate :: "'c list \<Rightarrow> 'c list list \<Rightarrow> 'c list" where
  "intercalate t [] = []"
| "intercalate t [r] = r"
| "intercalate t (r # r' # rs) = r @ t @ intercalate t (r' # rs)"

lemma length_intercalate: "xs \<noteq> [] \<Longrightarrow> length (intercalate t xs) = length (concat xs) + (length xs - 1) * length t"
  by (induction t xs rule: intercalate.induct) auto

lemma join_length_rep:
  "v_rep v xs \<Longrightarrow> i + n = length xs \<Longrightarrow> join_length v i n = Some (length (concat (drop i xs)))"
proof (induction n arbitrary: i)
  case (Suc n)
  then have "drop i xs = xs ! i # drop (i + 1) xs" by (simp add: Cons_nth_drop_Suc)
  with Suc show ?case using read_cell_rep [OF Suc.prems(1), of i] by simp
qed simp

text \<open>The buffer is written from the left; what is left of it is as long as what is still to come.\<close>

lemma blit_next: "length d = ptr \<Longrightarrow> length r \<le> k \<Longrightarrow>
  blit (d @ replicate k None) ptr (map Some r) = Some ((d @ map Some r) @ replicate (k - length r) None)"
  by (simp add: blit_def drop_replicate)

lemma join_loop_rep:
  assumes "v_rep v xs"
  shows "i + Suc n = length xs \<Longrightarrow> length d = ptr \<Longrightarrow> k = length (intercalate t (drop i xs)) \<Longrightarrow>
    join_loop t v i (Suc n) ptr (d @ replicate k None) = Some (d @ map Some (intercalate t (drop i xs)))"
proof (induction n arbitrary: i ptr d k)
  case 0
  then have "drop i xs = [xs ! i]" "i < length xs" by (simp_all add: Cons_nth_drop_Suc [symmetric])
  with 0 show ?case using read_cell_rep [OF assms, of i] by (simp add: blit_next)
next
  case (Suc n)
  define r where "r = xs ! i"
  define rest where "rest = intercalate t (drop (Suc i) xs)"
  have "drop i xs = r # drop (Suc i) xs" "drop (Suc i) xs \<noteq> []"
    using Suc.prems(1) by (simp_all add: Cons_nth_drop_Suc r_def)
  then have j: "intercalate t (drop i xs) = r @ t @ rest" by (cases "drop (Suc i) xs") (simp_all add: rest_def)
  then have k: "k = length r + length t + length rest" using Suc.prems(3) by simp
  have rd: "read_cell v i = Some r" using read_cell_rep [OF assms] Suc.prems(1) by (simp add: r_def)
  have IH: "join_loop t v (i + 1) (Suc n) (ptr + length r + length t) ((d @ map Some r @ map Some t) @ replicate (length rest) None) =
      Some ((d @ map Some r @ map Some t) @ map Some rest)"
    using Suc.IH [of "i + 1" "d @ map Some r @ map Some t"] Suc.prems by (simp add: rest_def)
  have b1: "(if r \<noteq> [] then blit (d @ replicate k None) ptr (map Some r) else Some (d @ replicate k None)) =
      Some ((d @ map Some r) @ replicate (length t + length rest) None)"
    using blit_next [OF Suc.prems(2), of r k] by (simp add: k)
  have b2: "blit ((d @ map Some r) @ replicate (length t + length rest) None) (ptr + length r) (map Some t) =
      Some ((d @ map Some r @ map Some t) @ replicate (length rest) None)"
    using blit_next [of "d @ map Some r" "ptr + length r" t "length t + length rest"] Suc.prems(2) by simp
  show ?case
    using IH b1 b2 rd unfolding j join_loop.simps(2) [of t v i "Suc n"] by (cases "t = []") simp_all
qed

lemma sv_join_rep:
  assumes "v_rep v xs" and "length (intercalate t xs) < 2 ^ 32"
  shows "sv_join t v = Some (map Some (intercalate t xs))"
proof (cases "xs = []")
  case True
  with assms(1) show ?thesis by (simp add: sv_join_def v_rep_def)
next
  case False
  then obtain n where n: "length xs = Suc n" by (cases xs) auto
  then have len: "v_length v = Suc n" using assms(1) by (simp add: v_rep_def)
  have "sv_join t v = join_loop t v 0 (Suc n) 0 (replicate (length (intercalate t xs)) None)"
    using join_length_rep [OF assms(1), of 0 "Suc n"] length_intercalate [OF False, of t] assms(2) n len
    by (simp add: sv_join_def del: join_length.simps join_loop.simps)
  also have "\<dots> = Some (map Some (intercalate t xs))"
    using join_loop_rep [OF assms(1), of 0 n "[]" 0 _ t] n by simp
  finally show ?thesis .
qed

text \<open>Pieces without the delimiter are the words of the joined text.\<close>

lemma split_words_piece:
  assumes "w \<noteq> []" and "\<forall>c \<in> set w. \<not> sep c" and "rest = [] \<or> sep (hd rest)"
  shows "split_words sep (w @ rest) = w # split_words sep rest"
proof -
  have "dropWhile sep (w @ rest) = w @ rest" using assms(1,2) by (cases w) auto
  moreover have "takeWhile (\<lambda>c. \<not> sep c) (w @ rest) = w" "dropWhile (\<lambda>c. \<not> sep c) (w @ rest) = rest"
    using assms(2,3) by (cases rest; auto simp: takeWhile_append dropWhile_append)+
  ultimately show ?thesis using assms(1) by (subst split_words.simps) (simp add: Let_def)
qed

lemma split_words_intercalate:
  "\<forall>r \<in> set xs. r \<noteq> [] \<and> d \<notin> set r \<Longrightarrow> split_words (\<lambda>c. c = d) (intercalate [d] xs) = xs"
proof (induction "[d]" xs rule: intercalate.induct)
  case 1
  then show ?case by (simp add: split_words.simps)
next
  case (2 r)
  then show ?case using split_words_piece [of r "\<lambda>c. c = d" "[]"] by (auto simp: split_words.simps [of _ "[]"])
next
  case (3 r r' rs)
  have "split_words (\<lambda>c. c = d) (r @ d # intercalate [d] (r' # rs)) = r # split_words (\<lambda>c. c = d) (d # intercalate [d] (r' # rs))"
    using "3.prems" by (intro split_words_piece) auto
  then show ?case using 3 by (simp add: split_words_sep)
qed

section \<open>Order and search\<close>

definition short :: "byte list \<Rightarrow> bool" where
  "short s \<longleftrightarrow> length s < 2 ^ 31"

lemma length_diff_short: "short a \<Longrightarrow> short b \<Longrightarrow> length_diff (length a) (length b) = int (length a) - int (length b)"
  unfolding length_diff_def short_def by (rule signed_take_bit_int_eq_self) simp_all

lemma length_diff_Suc: "length_diff (Suc m) (Suc n) = length_diff m n"
  by (simp add: length_diff_def)

lemma rep_compare_Cons: "rep_compare (x # a) (y # b) = (if x < y then -1 else if y < x then 1 else rep_compare a b)"
  by (simp add: rep_compare_def length_diff_Suc Let_def)

lemma rep_comparenocase_Cons: "x \<noteq> NUL \<Longrightarrow> rep_comparenocase (x # a) (y # b) =
  (if u__tolower x < u__tolower y then -1 else if u__tolower y < u__tolower x then 1 else rep_comparenocase a b)"
  by (simp add: rep_comparenocase_def length_diff_Suc Let_def)

text \<open>
  A comparison whose sign is that of a linear order on keys. The order of lists is the lexicographic
  one of the unsigned bytes.
\<close>

locale key_order =
  fixes cmp :: "byte list \<Rightarrow> byte list \<Rightarrow> int" and key :: "byte list \<Rightarrow> byte list" and ok :: "byte list \<Rightarrow> bool"
  assumes cmp_sign: "ok a \<Longrightarrow> ok b \<Longrightarrow> sgn (cmp a b) = (if key a < key b then -1 else if key a = key b then 0 else 1)"
begin

lemma cmp_pos: "ok a \<Longrightarrow> ok b \<Longrightarrow> cmp a b > 0 \<longleftrightarrow> key b < key a"
  using cmp_sign [of a b] by (auto simp: sgn_if split: if_splits)

lemma cmp_zero: "ok a \<Longrightarrow> ok b \<Longrightarrow> cmp a b = 0 \<longleftrightarrow> key a = key b"
  using cmp_sign [of a b] by (auto simp: sgn_if split: if_splits)

text \<open>The positions up to \<open>low\<close> hold smaller keys, those from \<open>high\<close> on greater keys.\<close>

lemma sorted_loop_finds:
  assumes v: "v_rep v xs" and sorted: "sorted (map key xs)" and okx: "\<forall>x \<in> set xs. ok x" and okt: "ok target"
    and small: "length xs < 2 ^ 30"
  shows "-1 \<le> low \<Longrightarrow> low < high \<Longrightarrow> high \<le> int (length xs) \<Longrightarrow>
    (\<forall>i < length xs. int i \<le> low \<longrightarrow> key (xs ! i) < key target) \<Longrightarrow>
    (\<forall>i < length xs. high \<le> int i \<longrightarrow> key target < key (xs ! i)) \<Longrightarrow>
    \<exists>r. sorted_loop (\<lambda>k. cmp k target) v low high = Some r \<and>
      (case r of Inl i \<Rightarrow> i < length xs \<and> key (xs ! i) = key target
       | Inr l \<Rightarrow> -1 \<le> l \<and> l < int (length xs) \<and> (\<forall>i < length xs. key (xs ! i) \<noteq> key target))"
proof (induction "nat (high - low)" arbitrary: low high rule: less_induct)
  case less
  show ?case
  proof (cases "high - low > 1")
    case False
    then have h: "high = low + 1" using less.prems by simp
    have "key (xs ! i) \<noteq> key target" if "i < length xs" for i
      using less.prems(4,5) that h by (cases "int i \<le> low") force+
    then show ?thesis using False less.prems(1-3) h by (subst sorted_loop.simps) simp
  next
    case True
    define p where "p = (low + high) div 2"
    have p: "low < p" "p < high" "0 \<le> p" using True less.prems by (auto simp: p_def)
    have sum: "0 \<le> low + high" "low + high < 2 ^ 31" using True less.prems small by auto
    define q where "q = nat p"
    have q: "q < length xs" "int q = p" using p less.prems(3) by (auto simp: q_def)
    have rd: "read_cell v q = Some (xs ! q)" using read_cell_rep [OF v q(1)] .
    have okq: "ok (xs ! q)" using okx q(1) by simp
    have mono: "key (xs ! i) \<le> key (xs ! j)" if "i \<le> j" "j < length xs" for i j
      using sorted_nth_mono [OF sorted] that by simp
    have "((low + high) mod 2 ^ 32) div 2 = p" using sum by (simp add: p_def)
    then have step: "sorted_loop (\<lambda>k. cmp k target) v low high =
        (if key target < key (xs ! q) then sorted_loop (\<lambda>k. cmp k target) v low p
         else if key (xs ! q) = key target then Some (Inl q)
         else sorted_loop (\<lambda>k. cmp k target) v p high)"
      using True sum rd cmp_pos [OF okq okt] cmp_zero [OF okq okt]
      by (subst sorted_loop.simps) (simp add: Let_def q_def)
    consider "key target < key (xs ! q)" | "key (xs ! q) = key target" | "key (xs ! q) < key target" by force
    then show ?thesis
    proof cases
      case 1
      then have "\<forall>i < length xs. p \<le> int i \<longrightarrow> key target < key (xs ! i)"
        using mono [of q] q(2) by (metis less_le_trans of_nat_le_iff)
      then show ?thesis using step 1 less.hyps [of p low] less.prems p by simp
    next
      case 2
      then show ?thesis using step q by simp
    next
      case 3
      then have "\<forall>i < length xs. int i \<le> p \<longrightarrow> key (xs ! i) < key target"
        using mono [of _ q] q by (metis le_less_trans of_nat_le_iff)
      then show ?thesis using step 3 less.hyps [of high p] less.prems p by auto
    qed
  qed
qed

lemma find_sorted:
  assumes "v_rep v xs" and "sorted (map key xs)" and "\<forall>x \<in> set xs. ok x" and "ok target" and "length xs < 2 ^ 30"
    and cmp: "cmp = (if ic then rep_comparenocase else rep_compare)"
  shows "\<exists>r. sv_findSorted target ic v = Some r \<and> (r = None \<longleftrightarrow> key target \<notin> key ` set xs) \<and>
    (\<forall>i. r = Some i \<longrightarrow> i < length xs \<and> key (xs ! i) = key target)"
proof -
  have len: "v_length v = length xs" using assms(1) by (simp add: v_rep_def)
  have c: "(\<lambda>k. if ic then rep_comparenocase k target else rep_compare k target) = (\<lambda>k. cmp k target)"
    by (auto simp: cmp)
  obtain r where r: "sorted_loop (\<lambda>k. cmp k target) v (-1) (int (length xs)) = Some r"
    "case r of Inl i \<Rightarrow> i < length xs \<and> key (xs ! i) = key target
       | Inr l \<Rightarrow> -1 \<le> l \<and> l < int (length xs) \<and> (\<forall>i < length xs. key (xs ! i) \<noteq> key target)"
    using sorted_loop_finds [OF assms(1-5), of "-1" "int (length xs)"] by auto
  show ?thesis
  proof (cases r)
    case (Inl i)
    with r(2) have i: "i < length xs" "key (xs ! i) = key target" by simp_all
    then have "key target \<in> key ` set xs" by (metis image_eqI nth_mem)
    with i show ?thesis using r(1) Inl by (simp add: sv_findSorted_def c len Let_def)
  next
    case (Inr l)
    then have none: "key target \<notin> key ` set xs" using r(2) by (auto simp: in_set_conv_nth)
    have "read_cell v (nat l) = Some (xs ! nat l) \<and> cmp (xs ! nat l) target \<noteq> 0" if "l \<noteq> -1"
      using that r(2) Inr read_cell_rep [OF assms(1), of "nat l"] cmp_zero [of "xs ! nat l" target] assms(3,4)
      by auto
    then show ?thesis using r(1) Inr none by (auto simp: sv_findSorted_def c len Let_def)
  qed
qed

end

interpretation exact: key_order rep_compare "\<lambda>s. s" short
proof unfold_locales
  show "sgn (rep_compare a b) = (if a < b then -1 else if a = b then 0 else 1)" if "short a" "short b" for a b
    using that
  proof (induction a arbitrary: b)
    case Nil
    then show ?case using length_diff_short [of "[]" b] by (cases b) (simp_all add: rep_compare_def)
  next
    case (Cons x a)
    show ?case
    proof (cases b)
      case Nil
      then show ?thesis using length_diff_short [OF Cons.prems] by (simp add: rep_compare_def)
    next
      case (Cons y b')
      then show ?thesis using Cons.IH [of b'] Cons.prems by (auto simp: rep_compare_Cons short_def)
    qed
  qed
qed

abbreviation short_text :: "byte list \<Rightarrow> bool" where
  "short_text s \<equiv> short s \<and> NUL \<notin> set s"

interpretation folded: key_order rep_comparenocase "map u__tolower" short_text
proof unfold_locales
  show "sgn (rep_comparenocase a b) = (if map u__tolower a < map u__tolower b then -1 else if map u__tolower a = map u__tolower b then 0 else 1)"
    if "short_text a" "short_text b" for a b
    using that
  proof (induction a arbitrary: b)
    case Nil
    then show ?case using length_diff_short [of "[]" b] by (cases b) (simp_all add: rep_comparenocase_def)
  next
    case (Cons x a)
    show ?case
    proof (cases b)
      case Nil
      then show ?thesis using length_diff_short [of "x # a" b] Cons.prems by (simp add: rep_comparenocase_def)
    next
      case (Cons y b')
      then show ?thesis using Cons.IH [of b'] Cons.prems by (auto simp: rep_comparenocase_Cons short_def)
    qed
  qed
qed

text \<open>What the searches compare: the string, or the string without its case.\<close>

definition search_key :: "bool \<Rightarrow> byte list \<Rightarrow> byte list" where
  "search_key ignore_case = (if ignore_case then map u__tolower else (\<lambda>s. s))"

section \<open>Vectors as sets: lemmas\<close>

lemma find_range_rep:
  assumes "v_rep v xs"
  shows "i + n \<le> length xs \<Longrightarrow> v_find_loop p v i n = Some (find (\<lambda>k. p (xs ! k)) [i..<i + n])"
proof (induction n arbitrary: i)
  case (Suc n)
  then have "[i..<i + Suc n] = i # [i + 1..<i + 1 + n]" by (simp add: upt_conv_Cons)
  with Suc show ?case using read_cell_rep [OF assms, of i] by simp
qed simp

lemma find_index_None: "find (\<lambda>k. p (xs ! k)) [0..<length xs] = None \<longleftrightarrow> (\<forall>x \<in> set xs. \<not> p x)"
  unfolding find_None_iff by (simp add: all_set_conv_all_nth)

lemma sv_find_rep: "v_rep v xs \<Longrightarrow> sv_find s ic v = Some (find (\<lambda>k. rep_equal s (xs ! k) ic) [0..<length xs])"
  using find_range_rep [of v xs 0 "length xs" "\<lambda>r. rep_equal s r ic"] by (simp add: sv_find_def v_rep_def)

lemma isEqual_loop_rep:
  assumes "v_rep v xs" and "\<And>x. \<exists>q. fnd x = Some q \<and> (q = None \<longleftrightarrow> \<not> P x)"
  shows "i + n = length xs \<Longrightarrow> isEqual_loop fnd v i n = Some (\<forall>x \<in> set (drop i xs). P x)"
proof (induction n arbitrary: i)
  case (Suc n)
  then have d: "drop i xs = xs ! i # drop (i + 1) xs" by (simp add: Cons_nth_drop_Suc)
  obtain q where "fnd (xs ! i) = Some q" "q = None \<longleftrightarrow> \<not> P (xs ! i)" using assms(2) by blast
  with Suc d show ?case using read_cell_rep [OF assms(1), of i] by auto
qed simp

lemma intersection_loop_rep:
  assumes "v_rep set1 a" and "v_rep set2 b"
  shows "i + n = length a \<Longrightarrow> v_rep v xs \<Longrightarrow> length xs + n < 2 ^ 31 \<Longrightarrow>
    \<exists>v'. intersection_loop set1 i n set2 v = Some v' \<and> v_rep v' (xs @ filter (\<lambda>x. x \<in> set b) (drop i a))"
proof (induction n arbitrary: i v xs)
  case (Suc n)
  then have d: "drop i a = a ! i # drop (i + 1) a" by (simp add: Cons_nth_drop_Suc)
  have rd: "read_cell set1 i = Some (a ! i)" using read_cell_rep [OF assms(1)] Suc.prems(1) by simp
  define q where "q = find (\<lambda>k. rep_equal (a ! i) (b ! k) False) [0..<length b]"
  have q: "q = None \<longleftrightarrow> a ! i \<notin> set b"
    unfolding q_def find_index_None [of "\<lambda>r. rep_equal (a ! i) r False"] by (auto simp: rep_equal_def)
  note f = sv_find_rep [OF assms(2), of "a ! i" False, folded q_def]
  show ?case
  proof (cases "a ! i \<in> set b")
    case True
    obtain v1 where v1: "v_push (a ! i) v = Some v1" "v_rep v1 (xs @ [a ! i])"
      using push_rep [OF Suc.prems(2), of "a ! i"] Suc.prems(3) by auto
    then show ?thesis using Suc.IH [of "i + 1" v1 "xs @ [a ! i]"] Suc.prems True d rd f q by auto
  next
    case False
    then show ?thesis using Suc.IH [of "i + 1" v xs] Suc.prems d rd f q by auto
  qed
qed simp

lemma eq_loop_rep:
  assumes "v_rep v xs" and "v_rep w ys" and "length xs = length ys"
  shows "i + n = length xs \<Longrightarrow> eq_loop v w i n = Some (drop i xs = drop i ys)"
proof (induction n arbitrary: i)
  case (Suc n)
  then have "drop i xs = xs ! i # drop (i + 1) xs" "drop i ys = ys ! i # drop (i + 1) ys"
    using assms(3) by (simp_all add: Cons_nth_drop_Suc)
  with Suc show ?case
    using read_cell_rep [OF assms(1), of i] read_cell_rep [OF assms(2), of i] assms(3) by (auto simp: rep_equal_def)
qed (simp add: assms(3))

section \<open>Properties\<close>

text \<open>
  \<open>split\<close> with a string of delimiters, or null for white space, appends to the vector the words of the
  text and answers their number, for a terminated text without quotes (and, for white space, without
  the sign that starts a comment). No read leaves the text and its terminator.
\<close>

theorem split_appends_words:
  assumes "plain_text t" and "delim = None \<longrightarrow> HASH \<notin> set t" and "v_rep v xs" and "length xs + length t < 2 ^ 31"
  shows "\<exists>v'. sv_split (t @ [NUL]) (length t) delim v = Some (length (split_words (is_sep delim) t), v') \<and>
    v_rep v' (xs @ split_words (is_sep delim) t)"
proof -
  have "split_view (t @ [NUL]) (length t) = Some (0, length t)"
    using assms(1) by (cases t) (auto simp: split_view_def plain_text_def)
  moreover have "rest_of t (t @ [NUL]) 0" by (simp add: rest_of_def)
  then obtain v' where "sv_split_loop (t @ [NUL]) 0 (length t) delim v = Some v'" "v_rep v' (xs @ split_words (is_sep delim) t)"
    using split_loop_pieces [of t "t @ [NUL]" 0 delim v xs] assms by auto
  ultimately show ?thesis using assms(3) by (simp add: sv_split_def v_rep_def)
qed

theorem split_appends_words_witness:
  "\<exists>v'. sv_split (bytes ''a,b'' @ [NUL]) (length (bytes ''a,b'')) (Some (bytes '','')) (v_new 1) =
    Some (length [bytes ''a'', bytes ''b''], v') \<and> v_rep v' [bytes ''a'', bytes ''b'']"
proof -
  have "plain_text (bytes ''a,b'')" by code_simp
  moreover have "v_rep (v_new 1) ([] :: byte list list)" by (simp add: v_rep_def v_new_def)
  moreover have "split_words (is_sep (Some (bytes '',''))) (bytes ''a,b'') = [bytes ''a'', bytes ''b'']" by code_simp
  ultimately show ?thesis using split_appends_words [of "bytes ''a,b''" "Some (bytes '','')" "v_new 1" "[]"]
    by (simp del: bytes_simps)
qed



text \<open>
  \<open>split\<close> at a character answers the words of the text; when the text starts with a double quote, the
  words of what is between its first and its last character, whatever the last character is.
\<close>

theorem split_char_words:
  assumes "v_rep v xs" and "length xs + length t < 2 ^ 31"
  shows "\<exists>v'. sv_split_char (t @ [NUL]) (length t) d v =
      Some (length (split_words (\<lambda>c. c = d) (if t \<noteq> [] \<and> hd t = DQUOTE then butlast (tl t) else t)), v') \<and>
    v_rep v' (xs @ split_words (\<lambda>c. c = d) (if t \<noteq> [] \<and> hd t = DQUOTE then butlast (tl t) else t))"
proof -
  define s e where "s = (if t \<noteq> [] \<and> hd t = DQUOTE then 1 else 0 :: nat)" and "e = length t - s"
  have view: "split_view (t @ [NUL]) (length t) = Some (s, e)"
    by (cases t) (auto simp: split_view_def s_def e_def)
  have eq: "drop s (take e (t @ [NUL])) = (if t \<noteq> [] \<and> hd t = DQUOTE then butlast (tl t) else t)"
    by (cases t) (auto simp: s_def e_def butlast_conv_take drop_take)
  have "e \<le> length (t @ [NUL])" "length xs + (e - s) < 2 ^ 31" using assms(2) by (simp_all add: e_def)
  from split_char_loop_pieces [OF this(1) assms(1) this(2), of d] view assms(1) show ?thesis
    unfolding eq by (auto simp: sv_split_char_def v_rep_def)
qed

text \<open>
  C27: the binary search in a sorted vector returns within its bounds and answers a position of an element
  equal to the target, up to case when asked so, exactly when there is one. The order is the one of the
  unsigned bytes, a string before its extensions.
\<close>

theorem findSorted_correct:
  assumes "v_rep v xs" and "sorted (map (search_key ignore_case) xs)" and "length xs < 2 ^ 30"
    and "\<forall>x \<in> set (target # xs). short_text x"
  shows "\<exists>r. sv_findSorted target ignore_case v = Some r \<and>
    (r = None \<longleftrightarrow> search_key ignore_case target \<notin> search_key ignore_case ` set xs) \<and>
    (\<forall>i. r = Some i \<longrightarrow> i < length xs \<and> search_key ignore_case (xs ! i) = search_key ignore_case target)"
  using folded.find_sorted [OF assms(1), of target True] exact.find_sorted [OF assms(1), of target False] assms(2-4)
  unfolding search_key_def by (cases ignore_case) simp_all

theorem findSorted_correct_witness:
  "\<exists>r. sv_findSorted (bytes ''B'') True \<lparr>vec = [Some (bytes ''a''), Some (bytes ''b''), Some (bytes ''C'')], v_length = 3\<rparr> = Some r \<and>
    r \<noteq> None"
proof -
  let ?xs = "[bytes ''a'', bytes ''b'', bytes ''C'']"
  have k: "map (map u__tolower) ?xs = [bytes ''a'', bytes ''b'', bytes ''c'']" "map u__tolower (bytes ''B'') = bytes ''b''"
    by code_simp+
  let ?v = "\<lparr>vec = map Some ?xs, v_length = 3\<rparr>"
  have v: "v_rep ?v ?xs" by (simp add: v_rep_def)
  have srt: "sorted (map (search_key True) ?xs)" using k(1) by (simp add: search_key_def)
  have ok: "\<forall>x \<in> set (bytes ''B'' # ?xs). short_text x" by (simp add: short_def)
  have "map u__tolower (bytes ''B'') \<in> map u__tolower ` set ?xs" using k by (simp del: bytes_simps)
  with findSorted_correct [OF v srt _ ok] show ?thesis
    by (auto simp: search_key_def simp del: bytes_simps)
qed

text \<open>
  The operations on vectors as sets. \<open>intersection\<close> appends the elements of the first vector that occur
  in the second, \<open>operator==\<close> decides equality of the contents, and \<open>_isEqual\<close>, which promises equality,
  decides whether a vector that is not empty is included in the other.
\<close>

theorem set_operations:
  assumes "v_rep v xs" and "v_rep w ys" and "v_rep u zs" and "length zs + length xs < 2 ^ 31"
  shows "\<exists>u'. sv_intersection v w u = Some (length (filter (\<lambda>x. x \<in> set ys) xs), u') \<and>
      v_rep u' (zs @ filter (\<lambda>x. x \<in> set ys) xs)"
    and "sv_eq v w = Some (xs = ys)"
    and "sv_isEqual w ic v = Some (xs \<noteq> [] \<and> (\<forall>x \<in> set xs. \<exists>y \<in> set ys. rep_equal x y ic))"
proof -
  have len: "v_length v = length xs" "v_length w = length ys" "v_length u = length zs"
    using assms(1-3) by (simp_all add: v_rep_def)
  show "\<exists>u'. sv_intersection v w u = Some (length (filter (\<lambda>x. x \<in> set ys) xs), u') \<and>
      v_rep u' (zs @ filter (\<lambda>x. x \<in> set ys) xs)"
  proof (cases "xs = [] \<or> ys = []")
    case True
    then show ?thesis using assms(3) len by (auto simp: sv_intersection_def)
  next
    case False
    obtain u' where "intersection_loop v 0 (length xs) w u = Some u'" "v_rep u' (zs @ filter (\<lambda>x. x \<in> set ys) xs)"
      using intersection_loop_rep [OF assms(1,2), of 0 "length xs" u zs] assms(3,4) by auto
    then show ?thesis using False len by (simp add: sv_intersection_def v_rep_def)
  qed
  show "sv_eq v w = Some (xs = ys)"
    using eq_loop_rep [OF assms(1,2), of 0 "length xs"] len by (auto simp: sv_eq_def)
  have "\<exists>q. sv_find x ic w = Some q \<and> (q = None \<longleftrightarrow> \<not> (\<exists>y \<in> set ys. rep_equal x y ic))" for x
    using sv_find_rep [OF assms(2)] find_index_None [of "\<lambda>r. rep_equal x r ic" ys] by auto
  then show "sv_isEqual w ic v = Some (xs \<noteq> [] \<and> (\<forall>x \<in> set xs. \<exists>y \<in> set ys. rep_equal x y ic))"
    using isEqual_loop_rep [OF assms(1), of "\<lambda>x. sv_find x ic w" "\<lambda>x. \<exists>y \<in> set ys. rep_equal x y ic" 0 "length xs"] len
    by (simp add: sv_isEqual_def)
qed

theorem set_operations_witness:
  "sv_isEqual \<lparr>vec = [Some [1], Some [2]], v_length = 2\<rparr> False \<lparr>vec = [Some [1 :: byte]], v_length = 1\<rparr> = Some True \<and>
   sv_eq \<lparr>vec = [Some [1 :: byte]], v_length = 1\<rparr> \<lparr>vec = [Some [1], Some [2]], v_length = 2\<rparr> = Some False"
proof -
  have v: "v_rep \<lparr>vec = [Some [1 :: byte]], v_length = 1\<rparr> [[1]]" "v_rep \<lparr>vec = [Some [1 :: byte], Some [2]], v_length = 2\<rparr> [[1], [2]]"
    by (simp_all add: v_rep_def)
  show ?thesis
    using set_operations(2) [OF v v(1)] set_operations(3) [OF v v(1), of False] by (simp add: rep_equal_def)
qed

end
