(* ===== verification/MkSort.thy ===== *)
theory MkSort
  imports StringVector "HOL-Library.Multiset"
begin

text \<open>
  \<open>UVector<UString>::sort\<close> of \<open>src/ulib/container/vector.cpp\<close>: the three-way radix quicksort \<open>mksort\<close>, with
  \<open>inssort\<close>, \<open>med3func\<close> and \<open>vecswap2\<close>, and the comparison \<open>UStringRep::compare\<close> from a depth on.

  The sort reads the character behind a string, so an element is the string with the memory behind it.
  The entries from the pointer \<open>a\<close> on are a list, a pointer into them a position; an access outside the
  list, or outside the memory of a string, is \<open>None\<close>. The type \<open>char\<close> is signed, as on the platforms the
  library is built for.
\<close>

section \<open>Strings and arrays\<close>

type_synonym srep = "byte list \<times> byte list"

definition chfunc :: "srep list \<Rightarrow> nat \<Rightarrow> nat \<Rightarrow> int option" where
  "chfunc a i depth =
     (if i < length a then map_option sint (rd (fst (a ! i) @ snd (a ! i)) depth) else None)"

definition swap2 :: "'a list \<Rightarrow> nat \<Rightarrow> nat \<Rightarrow> 'a list option" where
  "swap2 a i j = (if i < length a \<and> j < length a then Some (a[i := a ! j, j := a ! i]) else None)"

fun vecswap2 :: "'a list \<Rightarrow> nat \<Rightarrow> nat \<Rightarrow> nat \<Rightarrow> 'a list option" where
  "vecswap2 a i j 0 = Some a"
| "vecswap2 a i j (Suc n) = Option.bind (swap2 a i j) (\<lambda>a. vecswap2 a (Suc i) (Suc j) n)"

definition med3func :: "srep list \<Rightarrow> nat \<Rightarrow> nat \<Rightarrow> nat \<Rightarrow> nat \<Rightarrow> nat option" where
  "med3func arr a b c depth = do {
     va \<leftarrow> chfunc arr a depth;
     vb \<leftarrow> chfunc arr b depth;
     if va = vb then Some a
     else do {
       vc \<leftarrow> chfunc arr c depth;
       if vc = va \<or> vc = vb then Some c
       else Some (if va < vb then (if vb < vc then b else if va < vc then c else a)
                  else (if vb > vc then b else if va < vc then a else c))
     }
   }"

section \<open>Insertion sort\<close>

definition compare_from :: "byte list \<Rightarrow> byte list \<Rightarrow> nat \<Rightarrow> int" where
  "compare_from str rep depth =
     (let m = min (length str) (length rep)
      in if depth > m then length_diff (length str) (length rep)
         else let r = memcmp (take (m - depth) (drop depth str)) (take (m - depth) (drop depth rep))
              in if r = 0 then length_diff (length str) (length rep) else r)"

fun ins_inner :: "srep list \<Rightarrow> nat \<Rightarrow> nat \<Rightarrow> srep list option" where
  "ins_inner a depth 0 = Some a"
| "ins_inner a depth (Suc j) =
     (if Suc j < length a then
        if compare_from (fst (a ! j)) (fst (a ! Suc j)) depth \<le> 0 then Some a
        else Option.bind (swap2 a (Suc j) j) (\<lambda>a. ins_inner a depth j)
      else None)"

text \<open>The outer loop, for \<open>n\<close> more passes that start at \<open>pi\<close>.\<close>

fun ins_outer :: "srep list \<Rightarrow> nat \<Rightarrow> nat \<Rightarrow> nat \<Rightarrow> srep list option" where
  "ins_outer a depth pi 0 = Some a"
| "ins_outer a depth pi (Suc n) = Option.bind (ins_inner a depth pi) (\<lambda>a. ins_outer a depth (Suc pi) n)"

definition inssort :: "srep list \<Rightarrow> nat \<Rightarrow> srep list option" where
  "inssort a depth = ins_outer a depth 1 (length a - 1)"

section \<open>Partition\<close>

record part =
  arr :: "srep list"
  pa :: nat
  pb :: nat
  pc :: nat
  pd :: nat

function part_left :: "nat \<Rightarrow> int \<Rightarrow> part \<Rightarrow> part option" where
  "part_left depth partval s =
     (if pb s \<le> pc s then
        (case chfunc (arr s) (pb s) depth of
           None \<Rightarrow> None
         | Some c \<Rightarrow>
             if c - partval \<le> 0 then
               if c - partval = 0 then
                 (case swap2 (arr s) (pa s) (pb s) of
                    None \<Rightarrow> None
                  | Some a \<Rightarrow> part_left depth partval (s\<lparr>arr := a, pa := Suc (pa s), pb := Suc (pb s)\<rparr>))
               else part_left depth partval (s\<lparr>pb := Suc (pb s)\<rparr>)
             else Some s)
      else Some s)"
  by pat_completeness auto

termination
  by (relation "measure (\<lambda>(d, v, s). Suc (pc s) - pb s)") auto

text \<open>The pointer \<open>pc\<close> never passes the start of the array, since \<open>pb\<close> is behind it.\<close>

function part_right :: "nat \<Rightarrow> int \<Rightarrow> part \<Rightarrow> part option" where
  "part_right depth partval s =
     (if pb s \<le> pc s then
        (case chfunc (arr s) (pc s) depth of
           None \<Rightarrow> None
         | Some c \<Rightarrow>
             if c - partval \<ge> 0 then
               if pc s = 0 then None
               else if c - partval = 0 then
                 (case swap2 (arr s) (pc s) (pd s) of
                    None \<Rightarrow> None
                  | Some a \<Rightarrow> part_right depth partval (s\<lparr>arr := a, pc := pc s - 1, pd := pd s - 1\<rparr>))
               else part_right depth partval (s\<lparr>pc := pc s - 1\<rparr>)
             else Some s)
      else Some s)"
  by pat_completeness auto

termination
  by (relation "measure (\<lambda>(d, v, s). pc s)") auto

declare part_left.simps [simp del] part_right.simps [simp del]

section \<open>The invariant of the partition\<close>

text \<open>
  The value at a position, and the four regions: equal to the pivot value, smaller, (not yet seen,)
  greater, equal.
\<close>

definition part_inv :: "nat \<Rightarrow> int \<Rightarrow> srep list \<Rightarrow> part \<Rightarrow> bool" where
  "part_inv depth v xs s \<longleftrightarrow>
     mset (arr s) = mset xs \<and> 1 \<le> pa s \<and> pa s \<le> pb s \<and> pb s \<le> Suc (pc s) \<and> pc s \<le> pd s \<and> pd s < length xs \<and>
     (\<forall>i < pa s. chfunc (arr s) i depth = Some v) \<and>
     (\<forall>i. pa s \<le> i \<and> i < pb s \<longrightarrow> (\<exists>c < v. chfunc (arr s) i depth = Some c)) \<and>
     (\<forall>i. pc s < i \<and> i \<le> pd s \<longrightarrow> (\<exists>c > v. chfunc (arr s) i depth = Some c)) \<and>
     (\<forall>i. pd s < i \<and> i < length xs \<longrightarrow> chfunc (arr s) i depth = Some v)"

lemma swap2_Some:
  "swap2 a i j = Some a' \<longleftrightarrow> i < length a \<and> j < length a \<and> a' = a[i := a ! j, j := a ! i]"
  by (auto simp: swap2_def)

lemma nth_swap:
  "i < length a \<Longrightarrow> j < length a \<Longrightarrow> a[i := a ! j, j := a ! i] ! k = (if k = j then a ! i else if k = i then a ! j else a ! k)"
  by (auto simp: nth_list_update)

lemma chfunc_swap:
  assumes "swap2 a i j = Some a'"
  shows "chfunc a' k d = (if k = i then chfunc a j d else if k = j then chfunc a i d else chfunc a k d)"
    and "mset a' = mset a" and "length a' = length a"
proof -
  have s: "i < length a" "j < length a" "a' = a[i := a ! j, j := a ! i]" using assms by (auto simp: swap2_Some)
  show "chfunc a' k d = (if k = i then chfunc a j d else if k = j then chfunc a i d else chfunc a k d)"
    unfolding chfunc_def s(3) nth_swap [OF s(1,2)] using s(1,2) by simp
  show "mset a' = mset a" unfolding s(3) by (rule mset_swap [OF s(2,1)])
  show "length a' = length a" unfolding s(3) by simp
qed

lemma part_inv_length: "part_inv d v xs s \<Longrightarrow> length (arr s) = length xs"
  unfolding part_inv_def by (auto dest: mset_eq_length)

text \<open>The steps of the two loops, as rules for induction over a run that returns.\<close>

lemma part_left_induct [consumes 1, case_names finished greater equal smaller]:
  assumes "part_left d v s = Some s'"
    and finished: "\<And>s. \<not> pb s \<le> pc s \<Longrightarrow> P s s"
    and greater: "\<And>s c. pb s \<le> pc s \<Longrightarrow> chfunc (arr s) (pb s) d = Some c \<Longrightarrow> v < c \<Longrightarrow> P s s"
    and equal: "\<And>s s' a. pb s \<le> pc s \<Longrightarrow> chfunc (arr s) (pb s) d = Some v \<Longrightarrow> swap2 (arr s) (pa s) (pb s) = Some a \<Longrightarrow>
      P (s\<lparr>arr := a, pa := Suc (pa s), pb := Suc (pb s)\<rparr>) s' \<Longrightarrow> P s s'"
    and smaller: "\<And>s s' c. pb s \<le> pc s \<Longrightarrow> chfunc (arr s) (pb s) d = Some c \<Longrightarrow> c < v \<Longrightarrow> P (s\<lparr>pb := Suc (pb s)\<rparr>) s' \<Longrightarrow> P s s'"
  shows "P s s'"
  using assms(1)
proof (induction "Suc (pc s) - pb s" arbitrary: s rule: less_induct)
  case less
  note run = less.prems [unfolded part_left.simps [of d v s]]
  show ?case
  proof (cases "pb s \<le> pc s")
    case False
    with run finished show ?thesis by simp
  next
    case le: True
    with run obtain c where c: "chfunc (arr s) (pb s) d = Some c" by (auto split: option.splits)
    consider "v < c" | "c = v" | "c < v" by linarith
    then show ?thesis
    proof cases
      case 1
      with le c run greater show ?thesis by simp
    next
      case 2
      with le c run obtain a where a: "swap2 (arr s) (pa s) (pb s) = Some a" by (auto split: option.splits)
      have "P (s\<lparr>arr := a, pa := Suc (pa s), pb := Suc (pb s)\<rparr>) s'"
        using le c 2 a run by (intro less.hyps) auto
      with equal le c 2 a show ?thesis by blast
    next
      case 3
      have "P (s\<lparr>pb := Suc (pb s)\<rparr>) s'" using le c 3 run by (intro less.hyps) auto
      with smaller le c 3 show ?thesis by blast
    qed
  qed
qed

lemma part_right_induct [consumes 1, case_names finished smaller equal greater]:
  assumes "part_right d v s = Some s'"
    and finished: "\<And>s. \<not> pb s \<le> pc s \<Longrightarrow> P s s"
    and smaller: "\<And>s c. pb s \<le> pc s \<Longrightarrow> chfunc (arr s) (pc s) d = Some c \<Longrightarrow> c < v \<Longrightarrow> P s s"
    and equal: "\<And>s s' a. pb s \<le> pc s \<Longrightarrow> 0 < pc s \<Longrightarrow> chfunc (arr s) (pc s) d = Some v \<Longrightarrow> swap2 (arr s) (pc s) (pd s) = Some a \<Longrightarrow>
      P (s\<lparr>arr := a, pc := pc s - 1, pd := pd s - 1\<rparr>) s' \<Longrightarrow> P s s'"
    and greater: "\<And>s s' c. pb s \<le> pc s \<Longrightarrow> 0 < pc s \<Longrightarrow> chfunc (arr s) (pc s) d = Some c \<Longrightarrow> v < c \<Longrightarrow> P (s\<lparr>pc := pc s - 1\<rparr>) s' \<Longrightarrow> P s s'"
  shows "P s s'"
  using assms(1)
proof (induction "pc s" arbitrary: s rule: less_induct)
  case less
  note run = less.prems [unfolded part_right.simps [of d v s]]
  show ?case
  proof (cases "pb s \<le> pc s")
    case False
    with run finished show ?thesis by simp
  next
    case le: True
    with run obtain c where c: "chfunc (arr s) (pc s) d = Some c" by (auto split: option.splits)
    consider "c < v" | "c = v" | "v < c" by linarith
    then show ?thesis
    proof cases
      case 1
      with le c run smaller show ?thesis by simp
    next
      case 2
      with le c run obtain a where a: "0 < pc s" "swap2 (arr s) (pc s) (pd s) = Some a"
        by (auto split: option.splits if_splits)
      have "P (s\<lparr>arr := a, pc := pc s - 1, pd := pd s - 1\<rparr>) s'"
        using le c 2 a run by (intro less.hyps) auto
      with equal le c 2 a show ?thesis by blast
    next
      case 3
      with le c run have pos: "0 < pc s" by (auto split: if_splits)
      have "P (s\<lparr>pc := pc s - 1\<rparr>) s'" using le c 3 pos run by (intro less.hyps) auto
      with greater le c 3 pos show ?thesis by blast
    qed
  qed
qed

lemma part_left_mono: "part_left d v s = Some s' \<Longrightarrow> pb s \<le> pb s' \<and> pc s' = pc s"
  by (induction rule: part_left_induct) auto

lemma part_right_mono: "part_right d v s = Some s' \<Longrightarrow> pc s' \<le> pc s \<and> pb s' = pb s"
  by (induction rule: part_right_induct) auto

text \<open>Each step keeps the invariant.\<close>

lemma inv_left_equal:
  assumes "part_inv d v xs s" and "pb s \<le> pc s" and "chfunc (arr s) (pb s) d = Some v" and "swap2 (arr s) (pa s) (pb s) = Some a"
  shows "part_inv d v xs (s\<lparr>arr := a, pa := Suc (pa s), pb := Suc (pb s)\<rparr>)"
  using assms(1-3) chfunc_swap [OF assms(4)] unfolding part_inv_def by (auto simp: less_Suc_eq le_Suc_eq)

lemma inv_left_smaller:
  assumes "part_inv d v xs s" and "pb s \<le> pc s" and "chfunc (arr s) (pb s) d = Some c" and "c < v"
  shows "part_inv d v xs (s\<lparr>pb := Suc (pb s)\<rparr>)"
  using assms unfolding part_inv_def by (auto simp: less_Suc_eq)

lemma inv_right_equal:
  assumes "part_inv d v xs s" and "pb s \<le> pc s" and "chfunc (arr s) (pc s) d = Some v" and "swap2 (arr s) (pc s) (pd s) = Some a"
  shows "part_inv d v xs (s\<lparr>arr := a, pc := pc s - 1, pd := pd s - 1\<rparr>)"
proof -
  have pos: "pc s \<noteq> 0" using assms(1,2) by (auto simp: part_inv_def)
  have gt: "\<exists>c > v. chfunc (arr s) i d = Some c" if "pc s - 1 < i" "i \<noteq> pc s" "i \<le> pd s - 1" for i
    using assms(1) that pos unfolding part_inv_def by (metis Suc_diff_1 Suc_lessI neq0_conv diff_le_self le_trans)
  have eq: "chfunc (arr s) i d = Some v" if "pd s - 1 < i" "i \<noteq> pd s" "i < length xs" for i
    using assms(1,2) that pos unfolding part_inv_def by (metis Suc_diff_1 Suc_lessI neq0_conv le_zero_eq)
  show ?thesis
    using assms(1-3) chfunc_swap [OF assms(4)] pos gt eq unfolding part_inv_def by auto
qed

lemma inv_right_greater:
  assumes "part_inv d v xs s" and "pb s \<le> pc s" and "chfunc (arr s) (pc s) d = Some c" and "v < c"
  shows "part_inv d v xs (s\<lparr>pc := pc s - 1\<rparr>)"
proof -
  have pos: "pc s \<noteq> 0" using assms(1,2) by (auto simp: part_inv_def)
  have "\<exists>c > v. chfunc (arr s) i d = Some c" if "pc s - 1 < i" "i \<le> pd s" for i
    using assms that pos unfolding part_inv_def by (metis Suc_diff_1 Suc_lessI neq0_conv)
  then show ?thesis using assms pos unfolding part_inv_def by auto
qed

lemma part_left_inv:
  "part_left d v s = Some s' \<Longrightarrow> part_inv d v xs s \<Longrightarrow>
   part_inv d v xs s' \<and> (pb s' \<le> pc s' \<longrightarrow> (\<exists>c > v. chfunc (arr s') (pb s') d = Some c))"
  by (induction rule: part_left_induct) (auto dest: inv_left_equal inv_left_smaller)

text \<open>The second loop leaves the entries up to \<open>pc\<close> in their places.\<close>

lemma part_right_inv:
  "part_right d v s = Some s' \<Longrightarrow> part_inv d v xs s \<Longrightarrow>
   part_inv d v xs s' \<and> (pb s' \<le> pc s' \<longrightarrow> (\<exists>c < v. chfunc (arr s') (pc s') d = Some c)) \<and> pc s' \<le> pc s \<and>
   (\<forall>i \<le> pc s'. chfunc (arr s') i d = chfunc (arr s) i d)"
proof (induction rule: part_right_induct)
  case (equal s s' a)
  have "pc s \<le> pd s" using equal.prems by (simp add: part_inv_def)
  then have "chfunc a i d = chfunc (arr s) i d" if "i \<le> pc s - 1" for i
    using chfunc_swap(1) [OF equal(4), of i d] that equal(2) by auto
  moreover note equal.IH [OF inv_right_equal [OF equal.prems equal(1,3,4)]]
  ultimately show ?case by auto
next
  case (greater s s' c)
  then show ?case using inv_right_greater [of d v xs s c] by auto
qed auto

function part_loop :: "nat \<Rightarrow> int \<Rightarrow> part \<Rightarrow> part option" where
  "part_loop depth partval s =
     (case part_left depth partval s of
        None \<Rightarrow> None
      | Some s \<Rightarrow>
          (case part_right depth partval s of
             None \<Rightarrow> None
           | Some s \<Rightarrow>
               if pb s > pc s then Some s
               else (case swap2 (arr s) (pb s) (pc s) of
                   None \<Rightarrow> None
                 | Some a \<Rightarrow> part_loop depth partval (s\<lparr>arr := a, pb := Suc (pb s), pc := pc s - 1\<rparr>))))"
  by pat_completeness auto

termination
  by (relation "measure (\<lambda>(d, v, s). Suc (pc s) - pb s)") (auto dest!: part_left_mono part_right_mono)

declare part_loop.simps [simp del]

definition readable :: "nat \<Rightarrow> srep list \<Rightarrow> bool" where
  "readable depth xs \<longleftrightarrow> (\<forall>x \<in> set xs. depth < length (fst x @ snd x))"

lemma chfunc_readable: "readable d a \<Longrightarrow> i < length a \<Longrightarrow> \<exists>c. chfunc a i d = Some c"
  by (simp add: readable_def chfunc_def rd_def)

lemma readable_mset: "mset a = mset b \<Longrightarrow> readable d a \<longleftrightarrow> readable d b"
  unfolding readable_def by (drule mset_eq_setD) simp

lemma readable_inv: "part_inv d v xs s \<Longrightarrow> readable d xs \<Longrightarrow> readable d (arr s)"
  using readable_mset [of "arr s" xs d] by (simp add: part_inv_def)

lemma part_left_returns:
  assumes "readable d xs"
  shows "part_inv d v xs s \<Longrightarrow> \<exists>s'. part_left d v s = Some s'"
proof (induction "Suc (pc s) - pb s" arbitrary: s rule: less_induct)
  case less
  show ?case
  proof (cases "pb s \<le> pc s")
    case le: True
    have b: "pb s < length (arr s)" "pa s < length (arr s)"
      using le less.prems part_inv_length [OF less.prems] by (auto simp: part_inv_def)
    obtain c where c: "chfunc (arr s) (pb s) d = Some c"
      using chfunc_readable [OF readable_inv [OF less.prems assms] b(1)] by blast
    obtain a where a: "swap2 (arr s) (pa s) (pb s) = Some a" using b by (simp add: swap2_def)
    consider "v < c" | "c = v" | "c < v" by linarith
    then show ?thesis
    proof cases
      case 1
      then show ?thesis using le c by (subst part_left.simps) simp
    next
      case 2
      then show ?thesis
        using less.hyps [OF _ inv_left_equal [OF less.prems le _ a]] le c a by (subst part_left.simps) auto
    next
      case 3
      then show ?thesis
        using less.hyps [OF _ inv_left_smaller [OF less.prems le c 3]] le c by (subst part_left.simps) auto
    qed
  qed (subst part_left.simps, simp)
qed

lemma part_right_returns:
  assumes "readable d xs"
  shows "part_inv d v xs s \<Longrightarrow> \<exists>s'. part_right d v s = Some s'"
proof (induction "pc s" arbitrary: s rule: less_induct)
  case less
  show ?case
  proof (cases "pb s \<le> pc s")
    case le: True
    have b: "pc s < length (arr s)" "pd s < length (arr s)" "pc s \<noteq> 0"
      using le less.prems part_inv_length [OF less.prems] by (auto simp: part_inv_def)
    obtain c where c: "chfunc (arr s) (pc s) d = Some c"
      using chfunc_readable [OF readable_inv [OF less.prems assms] b(1)] by blast
    obtain a where a: "swap2 (arr s) (pc s) (pd s) = Some a" using b by (simp add: swap2_def)
    consider "c < v" | "c = v" | "v < c" by linarith
    then show ?thesis
    proof cases
      case 1
      then show ?thesis using le c by (subst part_right.simps) simp
    next
      case 2
      then show ?thesis
        using less.hyps [OF _ inv_right_equal [OF less.prems le _ a]] le c a b(3) by (subst part_right.simps) auto
    next
      case 3
      then show ?thesis
        using less.hyps [OF _ inv_right_greater [OF less.prems le c 3]] le c b(3) by (subst part_right.simps) auto
    qed
  qed (subst part_right.simps, simp)
qed

text \<open>After both loops stopped short of each other, the two entries are exchanged.\<close>

lemma inv_exchange:
  assumes "part_inv d v xs s" and "pb s < pc s" and "chfunc (arr s) (pb s) d = Some b" and "v < b"
    and "chfunc (arr s) (pc s) d = Some c" and "c < v" and "swap2 (arr s) (pb s) (pc s) = Some a"
  shows "part_inv d v xs (s\<lparr>arr := a, pb := Suc (pb s), pc := pc s - 1\<rparr>)"
proof -
  have gt: "\<exists>c > v. chfunc (arr s) i d = Some c" if "pc s - 1 < i" "i \<noteq> pc s" "i \<le> pd s" for i
    using assms(1,2) that unfolding part_inv_def by (metis Suc_diff_1 Suc_lessI less_nat_zero_code neq0_conv)
  show ?thesis
    using assms(1-6) chfunc_swap [OF assms(7)] gt unfolding part_inv_def by (auto simp: less_Suc_eq)
qed

lemma part_loop_returns:
  assumes "readable d xs"
  shows "part_inv d v xs s \<Longrightarrow> \<exists>s'. part_loop d v s = Some s' \<and> part_inv d v xs s' \<and> pc s' < pb s'"
proof (induction "Suc (pc s) - pb s" arbitrary: s rule: less_induct)
  case less
  obtain s1 where s1: "part_left d v s = Some s1" using part_left_returns [OF assms less.prems] by blast
  note i1 = part_left_inv [OF s1 less.prems]
  obtain s2 where s2: "part_right d v s1 = Some s2" using part_right_returns [OF assms, of v s1] i1 by blast
  have i2: "part_inv d v xs s2" "pb s2 \<le> pc s2 \<Longrightarrow> \<exists>c < v. chfunc (arr s2) (pc s2) d = Some c"
    "\<forall>i \<le> pc s2. chfunc (arr s2) i d = chfunc (arr s1) i d"
    using part_right_inv [OF s2] i1 by auto
  note m = part_left_mono [OF s1] part_right_mono [OF s2]
  show ?case
  proof (cases "pc s2 < pb s2")
    case True
    then show ?thesis using s1 s2 i2(1) by (subst part_loop.simps) simp
  next
    case False
    then obtain b c where b: "chfunc (arr s2) (pb s2) d = Some b" "v < b" and c: "chfunc (arr s2) (pc s2) d = Some c" "c < v"
      using i1 i2 m by (metis le_trans not_less)
    then have ne: "pb s2 < pc s2" using False by (metis less_asym not_less_iff_gr_or_eq option.inject)
    have "pc s2 < length (arr s2)" using i2(1) part_inv_length [OF i2(1)] by (auto simp: part_inv_def)
    then obtain a where a: "swap2 (arr s2) (pb s2) (pc s2) = Some a" using ne by (simp add: swap2_def)
    note inv = inv_exchange [OF i2(1) ne b c a]
    have "part_loop d v s = part_loop d v (s2\<lparr>arr := a, pb := Suc (pb s2), pc := pc s2 - 1\<rparr>)"
      using s1 s2 a ne by (subst part_loop.simps) simp
    moreover have "Suc (pc s2 - 1) - Suc (pb s2) < Suc (pc s) - pb s" using m ne by auto
    ultimately show ?thesis using less.hyps [OF _ inv] by simp
  qed
qed

section \<open>The sort\<close>

definition choose_pivot :: "srep list \<Rightarrow> nat \<Rightarrow> nat option" where
  "choose_pivot a depth =
     (let n = length a; pl = 0; pm = n div 2; pn = n - 1
      in do {
        (pl, pm, pn) \<leftarrow>
          (if n > 50 then
             (let d = n div 8
              in do {
                pl \<leftarrow> med3func a pl (pl + d) (pl + 2 * d) depth;
                pm \<leftarrow> med3func a (pm - d) pm (pm + d) depth;
                pn \<leftarrow> med3func a (pn - 2 * d) (pn - d) pn depth;
                Some (pl, pm, pn)
              })
           else Some (pl, pm, pn));
        med3func a pl pm pn depth
      })"

text \<open>The body of \<open>mksort\<close> up to the recursive calls.\<close>

definition mk_part :: "srep list \<Rightarrow> nat \<Rightarrow> part option" where
  "mk_part a depth = do {
     pm \<leftarrow> choose_pivot a depth;
     a \<leftarrow> swap2 a 0 pm;
     partval \<leftarrow> chfunc a 0 depth;
     s \<leftarrow> part_loop depth partval \<lparr>arr = a, pa = 1, pb = 1, pc = length a - 1, pd = length a - 1\<rparr>;
     let r = min (pa s) (pb s - pa s);
     a \<leftarrow> vecswap2 (arr s) 0 (pb s - r) r;
     let r = min (pd s - pc s) (length a - pd s - 1);
     a \<leftarrow> vecswap2 a (pb s) (length a - r) r;
     Some (s\<lparr>arr := a\<rparr>)
   }"

lemma vecswap2_spec:
  assumes "i + n \<le> j" and "j + n \<le> length a"
  shows "\<exists>a'. vecswap2 a i j n = Some a' \<and> mset a' = mset a \<and>
    (\<forall>k. a' ! k = (if i \<le> k \<and> k < i + n then a ! (j + (k - i)) else if j \<le> k \<and> k < j + n then a ! (i + (k - j)) else a ! k))"
  using assms
proof (induction n arbitrary: a i j)
  case (Suc n)
  let ?a = "a[i := a ! j, j := a ! i]"
  have b: "i < length a" "j < length a" using Suc.prems by auto
  then have "swap2 a i j = Some ?a" by (simp add: swap2_def)
  moreover have "mset ?a = mset a" by (rule mset_swap [OF b(2,1)])
  moreover obtain a' where "vecswap2 ?a (Suc i) (Suc j) n = Some a'" "mset a' = mset ?a"
    "\<forall>k. a' ! k = (if Suc i \<le> k \<and> k < Suc i + n then ?a ! (Suc j + (k - Suc i))
       else if Suc j \<le> k \<and> k < Suc j + n then ?a ! (Suc i + (k - Suc j)) else ?a ! k)"
    using Suc.IH [of "Suc i" "Suc j" ?a] Suc.prems by auto
  moreover have "(if Suc i \<le> k \<and> k < Suc i + n then ?a ! (Suc j + (k - Suc i))
       else if Suc j \<le> k \<and> k < Suc j + n then ?a ! (Suc i + (k - Suc j)) else ?a ! k) =
     (if i \<le> k \<and> k < i + Suc n then a ! (j + (k - i)) else if j \<le> k \<and> k < j + Suc n then a ! (i + (k - j)) else a ! k)" for k
    unfolding nth_swap [OF b] using Suc.prems(1) by (auto simp: not_less_eq_eq le_Suc_eq Suc_diff_Suc)
  ultimately show ?case by simp
qed auto

text \<open>Exchanging the shorter of two neighbouring blocks with the far end of the other exchanges the blocks.\<close>

lemma block_swap:
  assumes "b + p + q \<le> length a" and r: "r = min p q"
  shows "\<exists>a'. vecswap2 a b (b + p + q - r) r = Some a' \<and> mset a' = mset a \<and>
    (\<forall>k. b \<le> k \<and> k < b + q \<longrightarrow> (\<exists>k'. b + p \<le> k' \<and> k' < b + p + q \<and> a' ! k = a ! k')) \<and>
    (\<forall>k. b + q \<le> k \<and> k < b + p + q \<longrightarrow> (\<exists>k'. b \<le> k' \<and> k' < b + p \<and> a' ! k = a ! k')) \<and>
    (\<forall>k. k < b \<or> b + p + q \<le> k \<longrightarrow> a' ! k = a ! k)"
proof -
  let ?j = "b + p + q - r"
  have "b + r \<le> ?j" "?j + r \<le> length a" using assms by (auto simp: min_def)
  then obtain a' where a': "vecswap2 a b ?j r = Some a'" "mset a' = mset a"
    "\<forall>k. a' ! k = (if b \<le> k \<and> k < b + r then a ! (?j + (k - b)) else if ?j \<le> k \<and> k < ?j + r then a ! (b + (k - ?j)) else a ! k)"
    using vecswap2_spec [of b r ?j a] by blast
  have "\<exists>k'. b + p \<le> k' \<and> k' < b + p + q \<and> a' ! k = a ! k'" if k: "b \<le> k" "k < b + q" for k
  proof (cases "k < b + r")
    case True
    then show ?thesis using a'(3) k r by (intro exI [of _ "?j + (k - b)"]) auto
  next
    case False
    then have "r = p" "k < ?j" using k r by auto
    then show ?thesis using a'(3) k False by (intro exI [of _ k]) auto
  qed
  moreover have "\<exists>k'. b \<le> k' \<and> k' < b + p \<and> a' ! k = a ! k'" if k: "b + q \<le> k" "k < b + p + q" for k
  proof (cases "?j \<le> k")
    case True
    have "\<not> k < b + r" using k r by auto
    then show ?thesis using a'(3) k r True by (intro exI [of _ "b + (k - ?j)"]) auto
  next
    case False
    then have "r = q" "\<not> k < b + r" using k r by auto
    then show ?thesis using a'(3) k False by (intro exI [of _ k]) auto
  qed
  moreover have "a' ! k = a ! k" if "k < b \<or> b + p + q \<le> k" for k
    using a'(3) that r by auto
  ultimately show ?thesis using a'(1,2) by blast
qed

lemma med3_in:
  assumes "readable d a" and "i < length a" and "j < length a" and "k < length a"
  shows "\<exists>m. med3func a i j k d = Some m \<and> m < length a"
proof -
  obtain x y z where "chfunc a i d = Some x" "chfunc a j d = Some y" "chfunc a k d = Some z"
    using chfunc_readable [OF assms(1)] assms(2-4) by metis
  then show ?thesis using assms(2-4) by (auto simp: med3func_def)
qed

lemma choose_pivot_in:
  assumes "readable d a" and "1 < length a"
  shows "\<exists>m. choose_pivot a d = Some m \<and> m < length a"
proof (cases "length a > 50")
  case True
  define n where "n = length a"
  define e where "e = n div 8"
  have e: "2 * e < n" "n div 2 + e < n" "n - 1 < n" "a \<noteq> []" "n div 2 - e < n" using True by (auto simp: n_def e_def)
  obtain x where x: "med3func a 0 (0 + e) (0 + 2 * e) d = Some x" "x < length a"
    using med3_in [OF assms(1), of 0 "0 + e" "0 + 2 * e"] e by (auto simp: n_def)
  obtain y where y: "med3func a (n div 2 - e) (n div 2) (n div 2 + e) d = Some y" "y < length a"
    using med3_in [OF assms(1), of "n div 2 - e" "n div 2" "n div 2 + e"] e by (auto simp: n_def)
  obtain z where z: "med3func a (n - 1 - 2 * e) (n - 1 - e) (n - 1) d = Some z" "z < length a"
    using med3_in [OF assms(1), of "n - 1 - 2 * e" "n - 1 - e" "n - 1"] e by (auto simp: n_def)
  show ?thesis
    using True x y z med3_in [OF assms(1) x(2) y(2) z(2)]
    unfolding choose_pivot_def Let_def n_def [symmetric] e_def [symmetric] by simp
next
  case False
  then show ?thesis using med3_in [OF assms(1), of 0 "length a div 2" "length a - 1"] assms(2) by (cases a) (simp_all add: choose_pivot_def Let_def)
qed

text \<open>What the partition delivers: the sizes and the values of the three parts.\<close>

definition part_ok :: "nat \<Rightarrow> int \<Rightarrow> srep list \<Rightarrow> part \<Rightarrow> bool" where
  "part_ok d v xs s \<longleftrightarrow>
     (let n = length xs; l = pb s - pa s; g = pd s - pc s
      in mset (arr s) = mset xs \<and> l + g < n \<and> pa s + (n - pd s - 1) = n - l - g \<and>
         (\<forall>i < l. \<exists>c < v. chfunc (arr s) i d = Some c) \<and>
         (\<forall>i. l \<le> i \<and> i < n - g \<longrightarrow> chfunc (arr s) i d = Some v) \<and>
         (\<forall>i. n - g \<le> i \<and> i < n \<longrightarrow> (\<exists>c > v. chfunc (arr s) i d = Some c)))"

lemma chfunc_nth: "i < length a \<Longrightarrow> j < length b \<Longrightarrow> a ! i = b ! j \<Longrightarrow> chfunc a i d = chfunc b j d"
  by (simp add: chfunc_def)

lemma blocks_ok:
  assumes inv: "part_inv d v xs s" and gap: "pc s < pb s"
  shows "\<exists>a1 a2. vecswap2 (arr s) 0 (pb s - min (pa s) (pb s - pa s)) (min (pa s) (pb s - pa s)) = Some a1 \<and>
    vecswap2 a1 (pb s) (length a1 - min (pd s - pc s) (length a1 - pd s - 1)) (min (pd s - pc s) (length a1 - pd s - 1)) = Some a2 \<and>
    part_ok d v xs (s\<lparr>arr := a2\<rparr>)"
proof -
  define n where "n = length xs"
  have len: "length (arr s) = n" using part_inv_length [OF inv] by (simp add: n_def)
  have o: "1 \<le> pa s" "pa s \<le> pb s" "pb s = Suc (pc s)" "pc s \<le> pd s" "pd s < n"
    using inv gap by (auto simp: part_inv_def n_def)
  obtain a1 where a1: "vecswap2 (arr s) 0 (0 + pa s + (pb s - pa s) - min (pa s) (pb s - pa s)) (min (pa s) (pb s - pa s)) = Some a1"
    "mset a1 = mset (arr s)"
    "\<forall>k. 0 \<le> k \<and> k < 0 + (pb s - pa s) \<longrightarrow> (\<exists>k'. 0 + pa s \<le> k' \<and> k' < 0 + pa s + (pb s - pa s) \<and> a1 ! k = arr s ! k')"
    "\<forall>k. 0 + (pb s - pa s) \<le> k \<and> k < 0 + pa s + (pb s - pa s) \<longrightarrow> (\<exists>k'. 0 \<le> k' \<and> k' < 0 + pa s \<and> a1 ! k = arr s ! k')"
    "\<forall>k. k < 0 \<or> 0 + pa s + (pb s - pa s) \<le> k \<longrightarrow> a1 ! k = arr s ! k"
    using block_swap [of 0 "pa s" "pb s - pa s" "arr s" "min (pa s) (pb s - pa s)"] o len by force
  have len1: "length a1 = n" using a1(2) len mset_eq_length by metis
  define p q where "p = pd s - pc s" and "q = n - pd s - 1"
  have pq: "pb s + p + q = n" using o by (simp add: p_def q_def)
  obtain a2 where a2: "vecswap2 a1 (pb s) (pb s + p + q - min p q) (min p q) = Some a2" "mset a2 = mset a1"
    "\<forall>k. pb s \<le> k \<and> k < pb s + q \<longrightarrow> (\<exists>k'. pb s + p \<le> k' \<and> k' < pb s + p + q \<and> a2 ! k = a1 ! k')"
    "\<forall>k. pb s + q \<le> k \<and> k < pb s + p + q \<longrightarrow> (\<exists>k'. pb s \<le> k' \<and> k' < pb s + p \<and> a2 ! k = a1 ! k')"
    "\<forall>k. k < pb s \<or> pb s + p + q \<le> k \<longrightarrow> a2 ! k = a1 ! k"
    using block_swap [of "pb s" p q a1 "min p q"] pq len1 by force
  have len2: "length a2 = n" using a2(2) len1 mset_eq_length by metis
  have low: "\<exists>c < v. chfunc a2 i d = Some c" if i: "i < pb s - pa s" for i
  proof -
    obtain k where k: "pa s \<le> k" "k < pb s" "a1 ! i = arr s ! k" using a1(3) i o by auto
    then have "chfunc a2 i d = chfunc (arr s) k d" using a2(5) i o len len2 by (intro chfunc_nth) auto
    with inv k show ?thesis by (simp add: part_inv_def)
  qed
  have high: "\<exists>c > v. chfunc a2 i d = Some c" if i: "n - p \<le> i" "i < n" for i
  proof -
    have "pb s + q \<le> i" "i < pb s + p + q" using i pq by auto
    then obtain k where k: "pb s \<le> k" "k < pb s + p" "a2 ! i = a1 ! k" using a2(4) by blast
    then have "chfunc a2 i d = chfunc (arr s) k d" using a1(5) i o pq len len2 by (intro chfunc_nth) auto
    moreover have "pc s < k" "k \<le> pd s" using k o by (auto simp: p_def)
    ultimately show ?thesis using inv by (simp add: part_inv_def)
  qed
  have mid: "chfunc a2 i d = Some v" if i: "pb s - pa s \<le> i" "i < n - p" for i
  proof (cases "i < pb s")
    case True
    then obtain k where k: "k < pa s" "a1 ! i = arr s ! k" using a1(4) i o by auto
    then have "chfunc a2 i d = chfunc (arr s) k d" using a2(5) True o len len2 by (intro chfunc_nth) auto
    with inv k show ?thesis by (simp add: part_inv_def)
  next
    case False
    then have "pb s \<le> i" "i < pb s + q" using i pq by auto
    then obtain k where k: "pb s + p \<le> k" "k < n" "a2 ! i = a1 ! k" using a2(3) unfolding pq by blast
    then have "chfunc a2 i d = chfunc (arr s) k d" using a1(5) i o pq len len2 by (intro chfunc_nth) auto
    moreover have "pd s < k" using k o by (auto simp: p_def)
    ultimately show ?thesis using inv k(2) by (simp add: part_inv_def n_def)
  qed
  have "part_ok d v xs (s\<lparr>arr := a2\<rparr>)"
    using low high mid a1(2) a2(2) inv o unfolding part_ok_def Let_def n_def [symmetric] p_def
    by (auto simp: part_inv_def)
  moreover have "n - min p q = pb s + p + q - min p q" using pq by simp
  ultimately show ?thesis using a1(1) a2(1) o(2) len1 unfolding p_def q_def by auto
qed

lemma mk_part_ok:
  assumes "readable d xs" and "1 < length xs"
  shows "\<exists>s v. mk_part xs d = Some s \<and> part_ok d v xs s"
proof -
  obtain pm where pm: "choose_pivot xs d = Some pm" "pm < length xs" using choose_pivot_in [OF assms] by blast
  obtain a where a: "swap2 xs 0 pm = Some a" using pm(2) assms(2) by (cases xs) (simp_all add: swap2_def)
  note sw = chfunc_swap(2,3) [OF a]
  have "readable d a" using assms(1) readable_mset [OF sw(1)] by simp
  moreover have "0 < length a" using assms(2) sw(2) by linarith
  ultimately obtain v where v: "chfunc a 0 d = Some v" using chfunc_readable by blast
  let ?s0 = "\<lparr>arr = a, pa = 1, pb = 1, pc = length a - 1, pd = length a - 1\<rparr>"
  have "part_inv d v xs ?s0" using sw v assms(2) by (auto simp: part_inv_def)
  then obtain s where s: "part_loop d v ?s0 = Some s" "part_inv d v xs s" "pc s < pb s"
    using part_loop_returns [OF assms(1)] by blast
  obtain a1 a2 where "vecswap2 (arr s) 0 (pb s - min (pa s) (pb s - pa s)) (min (pa s) (pb s - pa s)) = Some a1"
    "vecswap2 a1 (pb s) (length a1 - min (pd s - pc s) (length a1 - pd s - 1)) (min (pd s - pc s) (length a1 - pd s - 1)) = Some a2"
    "part_ok d v xs (s\<lparr>arr := a2\<rparr>)"
    using blocks_ok [OF s(2,3)] by blast
  then show ?thesis
    using pm(1) a v s(1) by (intro exI [of _ "s\<lparr>arr := a2\<rparr>"] exI [of _ v]) (simp add: mk_part_def Let_def)
qed

text \<open>
  The recursive calls work on three disjoint parts of the array. That the recursion returns is part of
  the properties below: the depth grows without the array getting shorter.
\<close>

partial_function (option) mksort :: "srep list \<Rightarrow> nat \<Rightarrow> srep list option" where
  "mksort a depth =
     (if length a \<le> 10 then inssort a depth
      else Option.bind (mk_part a depth) (\<lambda>s.
        let r = pb s - pa s; m = pa s + (length a - pd s - 1); g = pd s - pc s
        in Option.bind (if r > 1 then mksort (take r (arr s)) depth else Some (take r (arr s))) (\<lambda>x.
           Option.bind (chfunc (arr s) r depth) (\<lambda>c.
           Option.bind (if c \<noteq> 0 then mksort (take m (drop r (arr s))) (depth + 1) else Some (take m (drop r (arr s)))) (\<lambda>y.
           Option.bind (if g > 1 then mksort (drop (length a - g) (arr s)) depth else Some (drop (length a - g) (arr s))) (\<lambda>z.
           Some (x @ y @ z)))))))"

declare mksort.simps [code]

section \<open>Strings in order\<close>

text \<open>
  The strings the two comparisons agree on: terminated, of characters from 1 to 127, and short enough for
  the difference of their lengths to be a signed number.
\<close>

definition plain_rep :: "srep \<Rightarrow> bool" where
  "plain_rep x \<longleftrightarrow> (\<forall>c \<in> set (fst x). 0 < c \<and> c < 128) \<and> snd x \<noteq> [] \<and> hd (snd x) = NUL \<and> short (fst x)"

text \<open>The character at a depth, with the terminator behind the last one.\<close>

definition chr_at :: "srep \<Rightarrow> nat \<Rightarrow> int" where
  "chr_at x d = (if d < length (fst x) then uint (fst x ! d) else 0)"

definition same_prefix :: "nat \<Rightarrow> srep list \<Rightarrow> bool" where
  "same_prefix d xs \<longleftrightarrow> (\<forall>x \<in> set xs. plain_rep x \<and> d \<le> length (fst x)) \<and>
     (\<forall>x \<in> set xs. \<forall>y \<in> set xs. take d (fst x) = take d (fst y))"

lemma sint_ascii: "c < 128 \<Longrightarrow> sint (c :: byte) = uint c"
  using order_trans [of "-128" 0 "uint c"] by (simp add: sint_uint word_less_def signed_take_bit_int_eq_self_iff)

lemma chfunc_plain:
  assumes "same_prefix d xs" and "i < length xs"
  shows "chfunc xs i d = Some (chr_at (xs ! i) d)"
proof -
  have x: "plain_rep (xs ! i)" "d \<le> length (fst (xs ! i))" using assms by (auto simp: same_prefix_def)
  show ?thesis
  proof (cases "d < length (fst (xs ! i))")
    case True
    then have "fst (xs ! i) ! d < 128" using x(1) by (simp add: plain_rep_def)
    with True show ?thesis using assms(2) by (simp add: chfunc_def chr_at_def sint_ascii)
  next
    case False
    then show ?thesis using x assms(2) by (cases "snd (xs ! i)") (auto simp: chfunc_def chr_at_def plain_rep_def)
  qed
qed

lemma readable_plain: "same_prefix d xs \<Longrightarrow> readable d xs"
  by (fastforce simp: same_prefix_def readable_def plain_rep_def le_eq_less_or_eq)

lemma append_less: "(p @ a < p @ b) = (a < (b :: 'a :: linorder list))"
  by (induction p) simp_all

lemma chr_less:
  assumes "same_prefix d xs" and "x \<in> set xs" and "y \<in> set xs" and "chr_at x d < chr_at y d"
  shows "fst x < fst y"
proof -
  have t: "take d (fst x) = take d (fst y)" "d \<le> length (fst x)" "d \<le> length (fst y)"
    using assms(1-3) unfolding same_prefix_def by blast+
  have y: "d < length (fst y)" using assms(4) by (simp add: chr_at_def split: if_splits)
  have "drop d (fst x) < drop d (fst y)"
  proof (cases "d < length (fst x)")
    case True
    then have "fst x ! d < fst y ! d" using y assms(4) by (simp add: chr_at_def word_less_def)
    then show ?thesis using True y by (simp add: Cons_nth_drop_Suc [symmetric])
  next
    case False
    then show ?thesis using y by (cases "drop d (fst y)") auto
  qed
  then have "take d (fst x) @ drop d (fst x) < take d (fst x) @ drop d (fst y)" by (simp only: append_less)
  moreover have "take d (fst x) @ drop d (fst y) = fst y" unfolding t(1) by simp
  ultimately show ?thesis by simp
qed

lemma chr_end:
  assumes "same_prefix d xs" and "x \<in> set xs" and "y \<in> set xs" and "chr_at x d = 0" and "chr_at y d = 0"
  shows "fst x = fst y"
proof -
  have e: "length (fst z) = d" if "z \<in> set xs" "chr_at z d = 0" for z
  proof (rule ccontr)
    assume "length (fst z) \<noteq> d"
    then have "d < length (fst z)" using assms(1) that by (force simp: same_prefix_def)
    moreover from this have "0 < fst z ! d" using assms(1) that(1) by (auto simp: same_prefix_def plain_rep_def)
    ultimately show False using that(2) by (simp add: chr_at_def word_less_def)
  qed
  show ?thesis using e [OF assms(2,4)] e [OF assms(3,5)] assms(1-3) by (auto simp: same_prefix_def)
qed

lemma prefix_step:
  assumes "same_prefix d xs" and "set ys \<subseteq> set xs" and "\<forall>y \<in> set ys. chr_at y d = v" and "v \<noteq> 0"
  shows "same_prefix (Suc d) ys"
proof -
  have d: "d < length (fst y)" "take (Suc d) (fst y) = take d (fst y) @ [fst y ! d]" if "y \<in> set ys" for y
    using assms(3,4) that by (auto simp: chr_at_def take_Suc_conv_app_nth split: if_splits)
  have "take (Suc d) (fst x) = take (Suc d) (fst y)" if xy: "x \<in> set ys" "y \<in> set ys" for x y
  proof -
    have "uint (fst x ! d) = uint (fst y ! d)" 
      using bspec [OF assms(3) xy(1)] bspec [OF assms(3) xy(2)] d(1) [OF xy(1)] d(1) [OF xy(2)] by (simp add: chr_at_def)
    then have "fst x ! d = fst y ! d" by (rule word_uint_eqI)
    moreover have "take d (fst x) = take d (fst y)" using assms(1,2) xy by (auto simp: same_prefix_def)
    ultimately show ?thesis using d(2) xy by simp
  qed
  moreover have "\<forall>x \<in> set ys. plain_rep x" using assms(1,2) unfolding same_prefix_def by blast
  ultimately show ?thesis using d(1) unfolding same_prefix_def Suc_le_eq by blast
qed

lemma compare_from_le:
  assumes "same_prefix d xs" and "x \<in> set xs" and "y \<in> set xs"
  shows "compare_from (fst x) (fst y) d \<le> 0 \<longleftrightarrow> fst x \<le> fst y"
proof -
  let ?a = "drop d (fst x)" and ?b = "drop d (fst y)"
  have d: "d \<le> length (fst x)" "d \<le> length (fst y)" "take d (fst x) = take d (fst y)"
    using assms unfolding same_prefix_def by blast+
  have "short (fst x)" "short (fst y)" using assms unfolding same_prefix_def plain_rep_def by blast+
  then have sh: "short ?a" "short ?b" by (simp_all add: short_def)
  have "length_diff (length ?a) (length ?b) = length_diff (length (fst x)) (length (fst y))"
    using d(1,2) by (simp add: length_diff_def of_nat_diff)
  moreover have "min (length (fst x)) (length (fst y)) - d = min (length ?a) (length ?b)" by auto
  ultimately have "compare_from (fst x) (fst y) d = rep_compare ?a ?b"
    using d(1,2) by (simp add: compare_from_def rep_compare_def Let_def)
  then have "compare_from (fst x) (fst y) d \<le> 0 \<longleftrightarrow> \<not> ?b < ?a" using exact.cmp_pos [OF sh] by linarith
  also have "?b < ?a \<longleftrightarrow> take d (fst y) @ ?b < take d (fst y) @ ?a" by (simp only: append_less)
  also have "\<dots> \<longleftrightarrow> fst y < fst x" unfolding d(3) [symmetric] using d(3) by (metis append_take_drop_id)
  finally show ?thesis by (simp add: not_less)
qed

abbreviation in_order :: "srep list \<Rightarrow> bool" where
  "in_order xs \<equiv> sorted (map fst xs)"

lemma same_prefix_subset: "same_prefix d xs \<Longrightarrow> set ys \<subseteq> set xs \<Longrightarrow> same_prefix d ys"
  unfolding same_prefix_def by blast

lemma ins_inner_inserts:
  "same_prefix d (as @ x # rest) \<Longrightarrow>
   \<exists>p q. as = p @ q \<and> ins_inner (as @ x # rest) d (length as) = Some (p @ x # q @ rest) \<and>
     (\<forall>y \<in> set q. fst x < fst y) \<and> (p = [] \<or> fst (last p) \<le> fst x)"
proof (induction as arbitrary: rest rule: rev_induct)
  case (snoc y as)
  let ?a = "(as @ [y]) @ x # rest"
  have nth: "?a ! length as = y" "?a ! Suc (length as) = x" by (simp_all add: nth_append)
  have cmp: "compare_from (fst y) (fst x) d \<le> 0 \<longleftrightarrow> fst y \<le> fst x"
    using compare_from_le [OF snoc.prems, of y x] by simp
  show ?case
  proof (cases "fst y \<le> fst x")
    case True
    then show ?thesis using nth cmp by (intro exI [of _ "as @ [y]"] exI [of _ "[]"]) simp
  next
    case False
    have sw: "swap2 ?a (Suc (length as)) (length as) = Some (as @ x # y # rest)"
      by (simp add: swap2_def nth_append list_update_append)
    have "same_prefix d (as @ x # y # rest)" by (rule same_prefix_subset [OF snoc.prems]) auto
    then obtain p q where "as = p @ q" "ins_inner (as @ x # y # rest) d (length as) = Some (p @ x # q @ y # rest)"
      "\<forall>y \<in> set q. fst x < fst y" "p = [] \<or> fst (last p) \<le> fst x"
      using snoc.IH by blast
    then show ?thesis
      using nth cmp sw False by (intro exI [of _ p] exI [of _ "q @ [y]"]) auto
  qed
qed simp

lemma ins_outer_sorts:
  "same_prefix d (as @ bs) \<Longrightarrow> in_order as \<Longrightarrow>
   \<exists>r. ins_outer (as @ bs) d (length as) (length bs) = Some r \<and> mset r = mset (as @ bs) \<and> in_order r"
proof (induction bs arbitrary: as)
  case (Cons x bs)
  obtain p q where pq: "as = p @ q" "ins_inner (as @ x # bs) d (length as) = Some (p @ x # q @ bs)"
    "\<forall>y \<in> set q. fst x < fst y" "p = [] \<or> fst (last p) \<le> fst x"
    using ins_inner_inserts [OF Cons.prems(1)] by blast
  have "fst y \<le> fst x" if y: "y \<in> set p" for y
  proof -
    obtain p' l where p: "p = p' @ [l]" using y by (cases p rule: rev_cases) auto
    have "in_order p" using Cons.prems(2) pq(1) by (simp add: sorted_append)
    then have "fst y \<le> fst l" using y by (auto simp: p sorted_append)
    then show ?thesis using pq(4) by (auto simp: p)
  qed
  then have "in_order (p @ x # q)" using Cons.prems(2) pq(1,3) by (auto simp: sorted_append intro: less_imp_le)
  moreover have "same_prefix d ((p @ x # q) @ bs)" by (rule same_prefix_subset [OF Cons.prems(1)]) (auto simp: pq(1))
  ultimately obtain r where "ins_outer ((p @ x # q) @ bs) d (length (p @ x # q)) (length bs) = Some r"
    "mset r = mset ((p @ x # q) @ bs)" "in_order r"
    using Cons.IH by blast
  then show ?case using pq(1,2) by auto
qed simp

lemma inssort_sorts: "same_prefix d xs \<Longrightarrow> \<exists>r. inssort xs d = Some r \<and> mset r = mset xs \<and> in_order r"
  using ins_outer_sorts [of d "[hd xs]" "tl xs"] by (cases xs) (auto simp: inssort_def)

text \<open>The measure of the recursion: what is left to read of the strings.\<close>

definition unread :: "nat \<Rightarrow> srep list \<Rightarrow> nat" where
  "unread d xs = sum_list (map (\<lambda>x. Suc (length (fst x)) - d) xs)"

lemma unread_mset: "mset xs = mset ys \<Longrightarrow> unread d xs = unread d ys"
  by (simp add: unread_def flip: sum_mset_sum_list)

lemma unread_append [simp]: "unread d (xs @ ys) = unread d xs + unread d ys"
  by (simp add: unread_def)

lemma unread_pos: "same_prefix d xs \<Longrightarrow> xs \<noteq> [] \<Longrightarrow> 0 < unread d xs"
  by (cases xs) (auto simp: unread_def same_prefix_def)

lemma unread_Suc: "\<forall>x \<in> set xs. d \<le> length (fst x) \<Longrightarrow> xs \<noteq> [] \<Longrightarrow> unread (Suc d) xs < unread d xs"
proof (induction xs)
  case (Cons x xs)
  then show ?case by (cases "xs = []") (force simp: unread_def Suc_diff_le)+
qed simp

text \<open>The three parts of a partition of strings with a common prefix.\<close>

lemma part_parts:
  assumes "same_prefix d xs" and "part_ok d v xs s"
  obtains L M G where "arr s = L @ M @ G" and "length L = pb s - pa s" and "length M = pa s + (length xs - pd s - 1)"
    and "length G = pd s - pc s" and "M \<noteq> []" and "mset (L @ M @ G) = mset xs"
    and "\<forall>x \<in> set L. chr_at x d < v" and "\<forall>x \<in> set M. chr_at x d = v" and "\<forall>x \<in> set G. v < chr_at x d"
    and "chfunc (arr s) (length L) d = Some v"
proof -
  define n l g where "n = length xs" and "l = pb s - pa s" and "g = pd s - pc s"
  have ok: "mset (arr s) = mset xs" "l + g < n" "pa s + (n - pd s - 1) = n - l - g"
    "\<forall>i < l. \<exists>c < v. chfunc (arr s) i d = Some c" "\<forall>i. l \<le> i \<and> i < n - g \<longrightarrow> chfunc (arr s) i d = Some v"
    "\<forall>i. n - g \<le> i \<and> i < n \<longrightarrow> (\<exists>c > v. chfunc (arr s) i d = Some c)"
    using assms(2) unfolding part_ok_def Let_def n_def l_def g_def by blast+
  have len: "length (arr s) = n" using ok(1) mset_eq_length n_def by blast
  have "same_prefix d (arr s)" by (rule same_prefix_subset [OF assms(1)]) (simp add: mset_eq_setD [OF ok(1)])
  then have ch: "chfunc (arr s) i d = Some (chr_at (arr s ! i) d)" if "i < n" for i
    using chfunc_plain len that by simp
  define m where "m = n - l - g"
  let ?L = "take l (arr s)" and ?M = "take m (drop l (arr s))" and ?G = "drop (l + m) (arr s)"
  have lm: "l + m = n - g" "l + m + g = n" "0 < m" using ok(2) by (auto simp: m_def)
  have split: "arr s = ?L @ ?M @ ?G" by (metis append_take_drop_id drop_drop add.commute)
  have lens: "length ?L = l" "length ?M = m" "length ?G = g" using len lm by auto
  show thesis
  proof (rule that [of ?L ?M ?G])
    show "arr s = ?L @ ?M @ ?G" by (rule split)
    show "length ?L = pb s - pa s" "length ?G = pd s - pc s" using lens by (simp_all only: l_def g_def)
    show "length ?M = pa s + (length xs - pd s - 1)" using lens(2) ok(3) by (simp only: m_def n_def)
    show "?M \<noteq> []" using lens(2) lm(3) by auto
    show "mset (?L @ ?M @ ?G) = mset xs" using ok(1) by (simp only: split [symmetric])
    show "\<forall>x \<in> set ?L. chr_at x d < v"
    proof
      fix x
      assume "x \<in> set ?L"
      then obtain i where "i < l" "x = arr s ! i" by (auto simp: in_set_conv_nth)
      then show "chr_at x d < v" using ok(2,4) ch [of i] by auto
    qed
    show "\<forall>x \<in> set ?M. chr_at x d = v"
    proof
      fix x
      assume "x \<in> set ?M"
      then obtain i where "i < m" "x = arr s ! (l + i)" using len lm by (auto simp: in_set_conv_nth)
      then show "chr_at x d = v" using ok(5) ch [of "l + i"] lm by auto
    qed
    show "\<forall>x \<in> set ?G. v < chr_at x d"
    proof
      fix x
      assume "x \<in> set ?G"
      then obtain i where "i < g" "x = arr s ! (l + m + i)" using len lm by (auto simp: in_set_conv_nth)
      moreover have "n - g \<le> l + m + i" "l + m + i < n" using \<open>i < g\<close> lm by auto
      ultimately show "v < chr_at x d" using ok(6) ch [of "l + m + i"] by (metis option.inject)
    qed
    show "chfunc (arr s) (length ?L) d = Some v" using ok(5) lm lens(1) by simp
  qed
qed

lemma sorted_wrtI_mem: "(\<And>x y. x \<in> set xs \<Longrightarrow> y \<in> set xs \<Longrightarrow> P x y) \<Longrightarrow> sorted_wrt P xs"
  by (induction xs) auto

lemma same_chr_sorted:
  assumes "same_prefix d xs" and "set ys \<subseteq> set xs" and "\<forall>y \<in> set ys. chr_at y d = 0"
  shows "in_order ys"
proof -
  have "fst x \<le> fst y" if "x \<in> set ys" "y \<in> set ys" for x y
    using chr_end [OF assms(1), of x y] subsetD [OF assms(2)] assms(3) that by auto
  then show ?thesis unfolding sorted_map by (rule sorted_wrtI_mem)
qed

lemma mksort_sorts:
  "same_prefix d xs \<Longrightarrow> \<exists>ys. mksort xs d = Some ys \<and> mset ys = mset xs \<and> in_order ys"
proof (induction "unread d xs" arbitrary: d xs rule: less_induct)
  case less
  show ?case
  proof (cases "length xs \<le> 10")
    case True
    then show ?thesis using inssort_sorts [OF less.prems] by (simp add: mksort.simps)
  next
    case False
    obtain s v where s: "mk_part xs d = Some s" "part_ok d v xs s"
      using mk_part_ok [OF readable_plain [OF less.prems]] False by auto
    obtain L M G where p: "arr s = L @ M @ G" "length L = pb s - pa s" "length M = pa s + (length xs - pd s - 1)"
      "length G = pd s - pc s" "M \<noteq> []" "mset (L @ M @ G) = mset xs"
      "\<forall>x \<in> set L. chr_at x d < v" "\<forall>x \<in> set M. chr_at x d = v" "\<forall>x \<in> set G. v < chr_at x d"
      "chfunc (arr s) (length L) d = Some v"
      using part_parts [OF less.prems s(2)] by blast
    have set: "set L \<union> set M \<union> set G = set xs" using mset_eq_setD [OF p(6)] by auto
    have pre: "same_prefix d L" "same_prefix d M" "same_prefix d G"
      using same_prefix_subset [OF less.prems] set by blast+
    have un: "unread d xs = unread d L + unread d M + unread d G" using unread_mset [OF p(6), of d] by simp
    have pos: "0 < unread d M" using unread_pos [OF pre(2) p(5)] .
    have short: "\<exists>ys. (if length zs > 1 then mksort zs d else Some zs) = Some ys \<and> mset ys = mset zs \<and> in_order ys"
      if "same_prefix d zs" "unread d zs < unread d xs" for zs
      using less.hyps [OF that(2,1)] by (cases zs rule: remdups_adj.cases) auto
    obtain x where x: "(if length L > 1 then mksort L d else Some L) = Some x" "mset x = mset L" "in_order x"
      using short [OF pre(1)] un pos by auto
    obtain z where z: "(if length G > 1 then mksort G d else Some G) = Some z" "mset z = mset G" "in_order z"
      using short [OF pre(3)] un pos by auto
    have "\<exists>ys. (if v \<noteq> 0 then mksort M (Suc d) else Some M) = Some ys \<and> mset ys = mset M \<and> in_order ys"
    proof (cases "v = 0")
      case True
      then show ?thesis using same_chr_sorted [OF pre(2) order_refl] p(8) by simp
    next
      case ne: False
      have "unread (Suc d) M < unread d xs"
        using unread_Suc [of M d] pre(2) p(5) un by (force simp: same_prefix_def)
      then show ?thesis using less.hyps prefix_step [OF pre(2) order_refl p(8) ne] ne by simp
    qed
    then obtain y where y: "(if v \<noteq> 0 then mksort M (Suc d) else Some M) = Some y" "mset y = mset M" "in_order y" by blast
    have "mksort xs d = Some (x @ y @ z)"
    proof -
      have n: "length xs = length L + length M + length G" using mset_eq_length [OF p(6)] by simp
      have "take (length L) (arr s) = L" "take (length M) (drop (length L) (arr s)) = M"
        "drop (length xs - length G) (arr s) = G"
        unfolding p(1) by (simp_all add: n)
      then show ?thesis
        using False unfolding mksort.simps [of xs d]
        by (simp only: s(1) p(2-4) [symmetric] p(10) x(1) y(1) [unfolded Suc_eq_plus1] z(1) Let_def Option.bind.simps if_False)
    qed
    moreover have "mset (x @ y @ z) = mset xs" using x(2) y(2) z(2) p(6) by simp
    moreover have "in_order (x @ y @ z)"
    proof -
      have sets: "set x = set L" "set y = set M" "set z = set G" using mset_eq_setD [OF x(2)] mset_eq_setD [OF y(2)] mset_eq_setD [OF z(2)] by simp_all
      have le: "fst a \<le> fst b" if "a \<in> set xs" "b \<in> set xs" "chr_at a d < chr_at b d" for a b
        using chr_less [OF less.prems that] by simp
      have in_xs: "a \<in> set xs" if "a \<in> set L \<or> a \<in> set M \<or> a \<in> set G" for a using that set by blast
      have lm: "fst a \<le> fst b" if "a \<in> set L" "b \<in> set M" for a b
        using le [OF in_xs in_xs, of a b] bspec [OF p(7) that(1)] bspec [OF p(8) that(2)] that by simp
      have lg: "fst a \<le> fst b" if "a \<in> set L" "b \<in> set G" for a b
        using le [OF in_xs in_xs, of a b] bspec [OF p(7) that(1)] bspec [OF p(9) that(2)] that by simp
      have mg: "fst a \<le> fst b" if "a \<in> set M" "b \<in> set G" for a b
        using le [OF in_xs in_xs, of a b] bspec [OF p(8) that(1)] bspec [OF p(9) that(2)] that by simp
      have "sorted (map fst x @ map fst y @ map fst z)"
        unfolding sorted_append set_append set_map sets using x(3) y(3) z(3) lm lg mg by blast
      then show ?thesis by simp
    qed
    ultimately show ?thesis by blast
  qed
qed

section \<open>Properties\<close>

text \<open>
  C5: the radix quicksort returns on every vector of terminated strings of characters from 1 to 127, reads
  nothing behind their terminators, and leaves a permutation of the strings in ascending order of their
  bytes; a binary search for a string in the result finds it exactly when it was there.
\<close>

theorem mksort_correct:
  assumes "\<forall>x \<in> set xs. plain_rep x" and "short_text target" and "length xs < 2 ^ 30"
  shows "\<exists>ys. mksort xs 0 = Some ys \<and> mset ys = mset xs \<and> sorted (map fst ys) \<and>
    (\<forall>v. v_rep v (map fst ys) \<longrightarrow>
      (\<exists>r. sv_findSorted target False v = Some r \<and> (r \<noteq> None \<longleftrightarrow> target \<in> fst ` set xs)))"
proof -
  obtain ys where ys: "mksort xs 0 = Some ys" "mset ys = mset xs" "in_order ys"
    using mksort_sorts [of 0 xs] assms(1) by (auto simp: same_prefix_def)
  have set: "set ys = set xs" "length ys = length xs" using mset_eq_setD [OF ys(2)] mset_eq_length [OF ys(2)] by simp_all
  have "short (fst x)" if "x \<in> set xs" for x using assms(1) that by (simp add: plain_rep_def)
  then have "\<exists>r. sv_findSorted target False v = Some r \<and> (r \<noteq> None \<longleftrightarrow> target \<in> fst ` set xs)"
    if v: "v_rep v (map fst ys)" for v
    using exact.find_sorted [OF v, of target False] ys(3) assms(2,3) set by (auto simp: image_iff)
  with ys show ?thesis by blast
qed

theorem mksort_correct_witness:
  "\<exists>ys. mksort (map (\<lambda>c. ([c], [NUL])) [5, 4, 3, 2, 1, 9, 8, 7, 6, 11, 10, 12]) 0 = Some ys \<and>
    sorted (map fst ys) \<and> (\<exists>r. sv_findSorted [7] False \<lparr>vec = map Some (map fst ys), v_length = 12\<rparr> = Some r \<and> r \<noteq> None)"
proof -
  let ?xs = "map (\<lambda>c. ([c], [NUL])) [5, 4, 3, 2, 1, 9, 8, 7, 6, 11, 10, 12 :: byte]"
  have "\<forall>x \<in> set ?xs. plain_rep x" by (simp add: plain_rep_def short_def)
  moreover have "short_text [7]" by (simp add: short_def)
  ultimately obtain ys where ys: "mksort ?xs 0 = Some ys" "mset ys = mset ?xs" "sorted (map fst ys)"
    "\<forall>v. v_rep v (map fst ys) \<longrightarrow> (\<exists>r. sv_findSorted [7] False v = Some r \<and> (r \<noteq> None \<longleftrightarrow> [7] \<in> fst ` set ?xs))"
    using mksort_correct [of ?xs "[7]"] by auto
  have "length ys = 12" using mset_eq_length [OF ys(2)] by simp
  then have "v_rep \<lparr>vec = map Some (map fst ys), v_length = 12\<rparr> (map fst ys)" by (auto simp: v_rep_def)
  then have "\<exists>r. sv_findSorted [7] False \<lparr>vec = map Some (map fst ys), v_length = 12\<rparr> = Some r \<and> r \<noteq> None"
    using ys(4) by simp
  with ys(1,3) show ?thesis by blast
qed

text \<open>
  Outside these strings the order fails. The partition reads signed characters, while the comparison of
  \<open>UStringRep\<close> is unsigned: a string with a byte above 127 is put in front, where the binary search does not
  find it. And a string that \<open>split\<close> cut out of a text is followed by the delimiter, not by a terminator: the
  delimiter takes part in the order, and the string \<open>a\<close> comes behind \<open>a0\<close>.
\<close>

definition substrings :: "byte \<Rightarrow> byte list list \<Rightarrow> srep list" where
  "substrings d ws = map (\<lambda>i. (ws ! i, d # intercalate [d] (drop (Suc i) ws) @ [NUL])) [0..<length ws]"

theorem mksort_defects:
  "map_option (map fst) (mksort (map (\<lambda>c. ([c], [NUL])) [0xE9, 5, 4, 3, 2, 1, 9, 8, 7, 6, 10]) 0) =
     Some (map (\<lambda>c. [c]) [0xE9, 1, 2, 3, 4, 5, 6, 7, 8, 9, 10])"
  "sv_findSorted [0xE9] False \<lparr>vec = map Some (map (\<lambda>c. [c]) [0xE9, 1, 2, 3, 4, 5, 6, 7, 8, 9, 10]), v_length = 11\<rparr> = Some None"
  "map_option (map fst) (mksort (substrings SEMI (map bytes
       [''a'', ''a0'', ''a1'', ''a2'', ''a3'', ''a4'', ''a5'', ''a6'', ''a7'', ''a8'', ''a9''])) 0) =
     Some (map bytes [''a0'', ''a1'', ''a2'', ''a3'', ''a4'', ''a5'', ''a6'', ''a7'', ''a8'', ''a9'', ''a''])"
  by code_simp+

end
