(* ===== verification/Simulation.thy ===== *)
theory Simulation
  imports Main
begin

text \<open>
  Sequences of operations. A component that keeps a state is driven by a list of operations; an operation
  outside its contract is \<open>None\<close>. The locale \<open>simulation\<close> is the interface of a component to its abstract
  specification: whenever the specification allows an operation, the component performs it with the same
  answer and stays related. In \<open>loose_simulation\<close> the specification is a relation that leaves the component a
  choice. Their lemmas carry this over to sequences.
\<close>

fun run_ops :: "('op \<Rightarrow> 's \<Rightarrow> ('out \<times> 's) option) \<Rightarrow> 'op list \<Rightarrow> 's \<Rightarrow> ('out list \<times> 's) option" where
  "run_ops step [] s = Some ([], s)"
| "run_ops step (c # cs) s =
     (case step c s of
        None \<Rightarrow> None
      | Some (r, s) \<Rightarrow> (case run_ops step cs s of None \<Rightarrow> None | Some (rs, s) \<Rightarrow> Some (r # rs, s)))"

locale simulation =
  fixes cstep :: "'op \<Rightarrow> 'c \<Rightarrow> ('out \<times> 'c) option"
    and astep :: "'op \<Rightarrow> 'a \<Rightarrow> ('out \<times> 'a) option"
    and rep :: "'c \<Rightarrow> 'a \<Rightarrow> bool"
  assumes step_sim: "\<lbrakk>rep c a; astep x a = Some (r, a')\<rbrakk> \<Longrightarrow> \<exists>c'. cstep x c = Some (r, c') \<and> rep c' a'"
begin

lemma run_sim:
  assumes "rep c a" and "run_ops astep xs a = Some (rs, a')"
  shows "\<exists>c'. run_ops cstep xs c = Some (rs, c') \<and> rep c' a'"
  using assms
proof (induction xs arbitrary: c a rs)
  case (Cons x xs)
  then obtain r a1 qs where a: "astep x a = Some (r, a1)" "run_ops astep xs a1 = Some (qs, a')" "rs = r # qs"
    by (auto split: option.splits)
  obtain c1 where c: "cstep x c = Some (r, c1)" "rep c1 a1" using step_sim [OF Cons.prems(1) a(1)] by blast
  obtain c' where "run_ops cstep xs c1 = Some (qs, c')" "rep c' a'" using Cons.IH [OF c(2) a(2)] by blast
  with c(1) a(3) show ?case by simp
qed simp

end

text \<open>Sequences of a specification that is a relation.\<close>

inductive rel_run :: "('op \<Rightarrow> 'a \<Rightarrow> 'out \<Rightarrow> 'a \<Rightarrow> bool) \<Rightarrow> 'op list \<Rightarrow> 'a \<Rightarrow> 'out list \<Rightarrow> 'a \<Rightarrow> bool"
  for astep :: "'op \<Rightarrow> 'a \<Rightarrow> 'out \<Rightarrow> 'a \<Rightarrow> bool" where
  Stop: "rel_run astep [] a [] a"
| Step: "astep x a r a' \<Longrightarrow> rel_run astep xs a' rs a'' \<Longrightarrow> rel_run astep (x # xs) a (r # rs) a''"

inductive_cases rel_run_Nil: "rel_run astep [] a rs a'"
inductive_cases rel_run_Cons: "rel_run astep (x # xs) a rs a'"

locale loose_simulation =
  fixes cstep :: "'op \<Rightarrow> 'c \<Rightarrow> ('out \<times> 'c) option"
    and astep :: "'op \<Rightarrow> 'a \<Rightarrow> 'out \<Rightarrow> 'a \<Rightarrow> bool"
    and valid :: "'op \<Rightarrow> bool"
    and rep :: "'c \<Rightarrow> 'a \<Rightarrow> bool"
  assumes step_ok: "\<lbrakk>rep c a; valid x\<rbrakk> \<Longrightarrow> \<exists>r c' a'. cstep x c = Some (r, c') \<and> astep x a r a' \<and> rep c' a'"
begin

lemma run_ok:
  assumes "rep c a" and "\<forall>x \<in> set xs. valid x"
  shows "\<exists>rs c' a'. run_ops cstep xs c = Some (rs, c') \<and> rel_run astep xs a rs a' \<and> rep c' a'"
  using assms
proof (induction xs arbitrary: c a)
  case Nil
  then show ?case by (auto intro: rel_run.Stop)
next
  case (Cons x xs)
  obtain r c1 a1 where 1: "cstep x c = Some (r, c1)" "astep x a r a1" "rep c1 a1"
    using step_ok [OF Cons.prems(1), of x] Cons.prems(2) by auto
  obtain rs c' a' where 2: "run_ops cstep xs c1 = Some (rs, c')" "rel_run astep xs a1 rs a'" "rep c' a'"
    using Cons.IH [OF 1(3)] Cons.prems(2) by auto
  have "rel_run astep (x # xs) a (r # rs) a'" by (rule rel_run.Step [OF 1(2) 2(2)])
  with 1(1) 2(1,3) show ?case by auto
qed

end

end
