(* ===== verification/RingBuffer.thy ===== *)
theory RingBuffer
  imports Vector Simulation
begin

text \<open>
  The ring buffer with several readers of \<open>src/ulib/utility/ring_buffer.cpp\<close> and
  \<open>include/ulib/utility/ring_buffer.h\<close>, which a server shares between its processes.

  The memory behind the header is a list of \<open>size\<close> bytes, and an access outside it is \<open>None\<close>. The set of
  open descriptors and their read positions are one list: \<open>None\<close> is a descriptor that is not open. The
  semaphore orders the operations of the processes: each is one step here. The calls \<open>read\<close> and \<open>write\<close> of the
  operating system are parameters. Positions are integers here; a buffer of at most $2^{30}$ bytes keeps
  every sum of two of them inside the \<open>int\<close> of the code.
\<close>

section \<open>State\<close>

definition FD_SETSIZE :: nat where "FD_SETSIZE = 1024"

record ring =
  rb_data :: "byte list"
  pwrite :: nat
  readd_cnt :: nat
  pread :: "nat option list"

abbreviation rb_size :: "ring \<Rightarrow> nat" where
  "rb_size b \<equiv> length (rb_data b)"

definition rb_new :: "nat \<Rightarrow> ring" where
  "rb_new sz = \<lparr>rb_data = replicate sz 0, pwrite = 0, readd_cnt = 0, pread = replicate FD_SETSIZE None\<rparr>"

section \<open>Descriptors\<close>

fun free_slot :: "'a option list \<Rightarrow> nat \<Rightarrow> nat option" where
  "free_slot [] i = None"
| "free_slot (r # rs) i = (if r = None then Some i else free_slot rs (Suc i))"

text \<open>\<open>open\<close> answers -1 when all descriptors are in use.\<close>

definition rb_open :: "ring \<Rightarrow> int \<times> ring" where
  "rb_open b =
     (case free_slot (pread b) 0 of
        Some i \<Rightarrow> (int i, b\<lparr>pread := (pread b)[i := Some (pwrite b)], readd_cnt := readd_cnt b + 1\<rparr>)
      | None \<Rightarrow> (-1, b))"

definition rb_close :: "nat \<Rightarrow> ring \<Rightarrow> ring" where
  "rb_close readd b = b\<lparr>pread := (pread b)[readd := None], readd_cnt := readd_cnt b - 1\<rparr>"

definition reader_at :: "ring \<Rightarrow> nat \<Rightarrow> nat option" where
  "reader_at b readd = (if readd < length (pread b) then pread b ! readd else None)"

section \<open>Room\<close>

definition avail_from :: "ring \<Rightarrow> nat \<Rightarrow> int" where
  "avail_from b p = (let a = int (pwrite b) - int p in if a < 0 then a + int (rb_size b) else a)"

definition rb_avail :: "ring \<Rightarrow> nat \<Rightarrow> int option" where
  "rb_avail b readd = map_option (avail_from b) (reader_at b readd)"

definition rb_isEmpty :: "ring \<Rightarrow> nat \<Rightarrow> bool option" where
  "rb_isEmpty b readd = map_option (\<lambda>p. pwrite b = p) (reader_at b readd)"

text \<open>The loop of \<open>min_pread\<close> with its counter, the position found and its distance.\<close>

fun min_pread_loop :: "ring \<Rightarrow> nat option list \<Rightarrow> nat \<Rightarrow> nat \<Rightarrow> int \<Rightarrow> nat" where
  "min_pread_loop b [] cnt mp ma = mp"
| "min_pread_loop b (None # rs) cnt mp ma = min_pread_loop b rs cnt mp ma"
| "min_pread_loop b (Some p # rs) cnt mp ma =
     (let (mp, ma) = (if avail_from b p > ma then (p, avail_from b p) else (mp, ma))
      in if cnt + 1 \<ge> readd_cnt b then mp else min_pread_loop b rs (cnt + 1) mp ma)"

definition min_pread :: "ring \<Rightarrow> nat" where
  "min_pread b = min_pread_loop b (pread b) 0 0 (-1)"

definition rb_free :: "ring \<Rightarrow> int" where
  "rb_free b = (let f = int (min_pread b) - int (pwrite b) in (if f \<le> 0 then f + int (rb_size b) else f) - 1)"

section \<open>Writing and reading\<close>

definition PKTHDRSIZE :: int where "PKTHDRSIZE = 2"

text \<open>A block of bytes copied to the memory at the write position.\<close>

definition put_bytes :: "byte list \<Rightarrow> ring \<Rightarrow> ring option" where
  "put_bytes xs b = map_option (\<lambda>d. b\<lparr>rb_data := d\<rparr>) (blit (rb_data b) (pwrite b) xs)"

definition put_header :: "int \<Rightarrow> ring \<Rightarrow> ring option" where
  "put_header len b = do {
     d \<leftarrow> write_cell (rb_data b) (pwrite b) (word_of_int (len div 256));
     d \<leftarrow> write_cell d (pwrite b + 1) (word_of_int (len mod 256));
     Some (b\<lparr>rb_data := d, pwrite := (pwrite b + 2) mod rb_size b\<rparr>)
   }"

text \<open>
  \<open>write\<close> of the bytes \<open>buf\<close>. The number of bytes is limited to the free ones for the answer and for the
  place where the buffer wraps around; what is copied is \<open>todo\<close>, the whole of \<open>buf\<close>.
\<close>

definition rb_write :: "byte list \<Rightarrow> bool \<Rightarrow> ring \<Rightarrow> (int \<times> ring) option" where
  "rb_write buf pkt b =
     (let todo = int (length buf);
          len = (if pkt then todo + PKTHDRSIZE else todo);
          len = (if len > rb_free b then rb_free b else len)
      in if len = 0 then Some (0, b)
         else
           let split = (if int (pwrite b) + len > int (rb_size b) then int (rb_size b) - int (pwrite b) else 0)
           in if pkt \<and> len < PKTHDRSIZE then Some (-1, b)
              else do {
                (b, split) \<leftarrow> (if pkt then map_option (\<lambda>b. (b, split - PKTHDRSIZE)) (put_header len b) else Some (b, split));
                (b, buf) \<leftarrow> (if split > 0 then
                    if split > int (length buf) then None
                    else map_option (\<lambda>b. (b\<lparr>pwrite := 0\<rparr>, drop (nat split) buf)) (put_bytes (take (nat split) buf) b)
                  else Some (b, buf));
                b \<leftarrow> put_bytes buf b;
                Some (if pkt then len - PKTHDRSIZE else len, b\<lparr>pwrite := (pwrite b + length buf) mod rb_size b\<rparr>)
              })"

definition set_pread :: "nat \<Rightarrow> nat \<Rightarrow> ring \<Rightarrow> ring" where
  "set_pread readd p b = b\<lparr>pread := (pread b)[readd := Some p]\<rparr>"

text \<open>The header of a packet: two characters, which are signed.\<close>

definition get_header :: "nat \<Rightarrow> ring \<Rightarrow> int option" where
  "get_header p b = do {
     x \<leftarrow> rd (rb_data b) p;
     y \<leftarrow> rd (rb_data b) (p + 1);
     Some (sint x * 256 + sint y)
   }"

text \<open>
  \<open>read\<close> of \<open>len\<close> bytes, or of the first packet for -1: the answer, the bytes stored at \<open>buf\<close>, and the new
  state. What is copied is \<open>todo\<close>, the number that was asked for.
\<close>

definition rb_read :: "nat \<Rightarrow> int \<Rightarrow> ring \<Rightarrow> (int \<times> byte list \<times> ring) option" where
  "rb_read readd len b = do {
     p \<leftarrow> reader_at b readd;
     if len = -1 \<and> int p + PKTHDRSIZE > int (rb_size b) then Some (-1, [], b)
     else do {
       (todo, p, b) \<leftarrow> (if len = -1 then do {
           l \<leftarrow> get_header p b;
           let p = (p + 2) mod rb_size b;
           Some (l, p, set_pread readd p b)
         }
         else Some (len, p, b));
       let avail = avail_from b p;
       let len = (if todo > avail then avail else todo);
       if len = 0 then Some (0, [], b)
       else
         let split = (if int p + len > int (rb_size b) then int (rb_size b) - int p else 0)
         in do {
           (xs, p, todo) \<leftarrow> (if split > 0
             then map_option (\<lambda>xs. (xs, 0, todo - split)) (slice (rb_data b) p (nat split))
             else Some ([], p, todo));
           ys \<leftarrow> (if todo < 0 then None else slice (rb_data b) p (nat todo));
           Some (len, xs @ ys, set_pread readd ((p + nat todo) mod rb_size b) b)
         }
     }
   }"

section \<open>Descriptors of the operating system\<close>

text \<open>
  The two calls of \<open>read\<close> in \<open>readFromFdAndWrite\<close>: each answers, for a number of bytes, what it read, or
  \<open>None\<close> for an error.
\<close>

definition put_moved :: "byte list \<Rightarrow> ring \<Rightarrow> ring option" where
  "put_moved xs b = map_option (\<lambda>b. b\<lparr>pwrite := (pwrite b + length xs) mod rb_size b\<rparr>) (put_bytes xs b)"

definition read_rest :: "(nat \<Rightarrow> byte list option) \<Rightarrow> int \<Rightarrow> int \<Rightarrow> ring \<Rightarrow> (int \<times> ring) option" where
  "read_rest sys_read todo nread b =
     (case sys_read (nat todo) of
        None \<Rightarrow> Some (nread, b)
      | Some xs \<Rightarrow>
          if xs = [] then Some (nread, b)
          else map_option (\<lambda>b. (nread + int (length xs), b)) (put_moved xs b))"

definition rb_readFromFd :: "(nat \<Rightarrow> byte list option) \<Rightarrow> (nat \<Rightarrow> byte list option) \<Rightarrow> ring \<Rightarrow> (int \<times> ring) option" where
  "rb_readFromFd read1 read2 b =
     (let todo = rb_free b
      in if todo = 0 then Some (-1, b)
         else
           let split = (if int (pwrite b) + todo > int (rb_size b) then int (rb_size b) - int (pwrite b) else 0)
           in if split > 0 then
                (case read1 (nat split) of
                   None \<Rightarrow> Some (-1, b)
                 | Some xs \<Rightarrow>
                     if xs = [] then Some (0, b)
                     else do {
                       b \<leftarrow> put_moved xs b;
                       if split > int (length xs) then Some (int (length xs), b)
                       else read_rest read2 (todo - int (length xs)) (int (length xs)) b
                     })
              else read_rest read2 todo (-1) b)"

text \<open>
  The two calls of \<open>write\<close> in \<open>readAndWriteToFd\<close> answer how many of the bytes they took, or -1. The model
  answers \<open>nwrite\<close>, the bytes that went out, and the new state.
\<close>

definition write_rest :: "(byte list \<Rightarrow> int) \<Rightarrow> nat \<Rightarrow> nat \<Rightarrow> int \<Rightarrow> byte list \<Rightarrow> nat \<Rightarrow> ring \<Rightarrow> (int \<times> byte list \<times> ring) option" where
  "write_rest sys_write readd todo nwrite out p b = do {
     xs \<leftarrow> slice (rb_data b) p todo;
     let w = sys_write xs;
     Some (if w > 0 then (nwrite + w, out @ take (nat w) xs, set_pread readd ((p + nat w) mod rb_size b) b)
           else (nwrite, out, b))
   }"

definition rb_writeToFd :: "(byte list \<Rightarrow> int) \<Rightarrow> (byte list \<Rightarrow> int) \<Rightarrow> nat \<Rightarrow> ring \<Rightarrow> (int \<times> byte list \<times> ring) option" where
  "rb_writeToFd write1 write2 readd b = do {
     p \<leftarrow> reader_at b readd;
     let todo = avail_from b p;
     if todo = 0 then Some (0, [], b)
     else
       let split = (if int p + todo > int (rb_size b) then int (rb_size b) - int p else 0)
       in if split > 0 then do {
            xs \<leftarrow> slice (rb_data b) p (nat split);
            let w = write1 xs;
            if w \<le> 0 then Some (w, [], b)
            else
              let p = (p + nat w) mod rb_size b; b = set_pread readd p b
              in if split > w then Some (w, take (nat w) xs, b)
                 else write_rest write2 readd (nat (todo - w)) w (take (nat w) xs) p b
          }
          else write_rest write2 readd (nat todo) 0 [] p b
   }"

section \<open>Positions\<close>

lemma mod_inj:
  assumes "(p + j) mod n = (p + k) mod n" and "j < n" and "k < (n :: nat)"
  shows "j = k"
proof -
  have "j mod n = k mod n" using assms(1) by (simp add: nat_mod_eq_iff)
  with assms(2,3) show ?thesis by simp
qed

lemma mod_wrap: "n \<le> x \<Longrightarrow> x < n + n \<Longrightarrow> x mod n = x - (n :: nat)"
  by (simp add: le_mod_geq)

text \<open>The unread bytes of a reader at \<open>p\<close>.\<close>

definition pending :: "ring \<Rightarrow> nat \<Rightarrow> byte list \<Rightarrow> bool" where
  "pending b p xs \<longleftrightarrow> length xs < rb_size b \<and> p < rb_size b \<and> (p + length xs) mod rb_size b = pwrite b \<and>
     (\<forall>k < length xs. rb_data b ! ((p + k) mod rb_size b) = xs ! k)"

lemma pwrite_cases:
  assumes "pending b p xs"
  shows "pwrite b = (if p + length xs < rb_size b then p + length xs else p + length xs - rb_size b)"
proof -
  have "p + length xs < rb_size b + rb_size b" "pwrite b = (p + length xs) mod rb_size b"
    using assms by (auto simp: pending_def)
  then show ?thesis by (cases "p + length xs < rb_size b") (simp_all add: mod_wrap)
qed

lemma avail_pending: "pending b p xs \<Longrightarrow> avail_from b p = int (length xs)"
  using pwrite_cases [of b p xs] by (auto simp: avail_from_def pending_def Let_def split: if_splits)

text \<open>Writing a block that may wrap around.\<close>

definition circ_put :: "nat \<Rightarrow> byte list \<Rightarrow> byte list \<Rightarrow> byte list \<Rightarrow> bool" where
  "circ_put pw buf d d' \<longleftrightarrow> length d' = length d \<and> (\<forall>k < length buf. d' ! ((pw + k) mod length d) = buf ! k) \<and>
     (\<forall>j < length d. (\<forall>k < length buf. j \<noteq> (pw + k) mod length d) \<longrightarrow> d' ! j = d ! j)"

lemma circ_put_flat:
  assumes "pw + length buf \<le> length d"
  shows "blit d pw buf = Some (take pw d @ buf @ drop (pw + length buf) d)"
    and "circ_put pw buf d (take pw d @ buf @ drop (pw + length buf) d)"
proof -
  show "blit d pw buf = Some (take pw d @ buf @ drop (pw + length buf) d)" using assms by (simp add: blit_def)
  show "circ_put pw buf d (take pw d @ buf @ drop (pw + length buf) d)"
    using assms unfolding circ_put_def
  proof (intro conjI allI impI)
    fix j
    assume j: "j < length d" "\<forall>k < length buf. j \<noteq> (pw + k) mod length d"
    have "j < pw \<or> pw + length buf \<le> j"
    proof (rule ccontr)
      assume "\<not> ?thesis"
      then have "j - pw < length buf" "j = (pw + (j - pw)) mod length d" using j(1) by auto
      with j(2) show False by blast
    qed
    then show "(take pw d @ buf @ drop (pw + length buf) d) ! j = d ! j" using assms by (auto simp: nth_append)
  qed (auto simp: nth_append)
qed

lemma circ_put_pending:
  assumes "pending b p xs" and "circ_put (pwrite b) buf (rb_data b) d" and "length xs + length buf < rb_size b"
  shows "pending (b\<lparr>rb_data := d, pwrite := (pwrite b + length buf) mod rb_size b\<rparr>) p (xs @ buf)"
proof -
  let ?n = "rb_size b"
  have pw: "pwrite b = (p + length xs) mod ?n" using assms(1) by (simp add: pending_def)
  have pos: "(pwrite b + k) mod ?n = (p + (length xs + k)) mod ?n" for k
    unfolding pw by (simp add: mod_add_left_eq add.assoc)
  have d: "length d = ?n" "\<forall>k < length buf. d ! ((p + (length xs + k)) mod ?n) = buf ! k"
    using assms(2) pos by (auto simp: circ_put_def)
  have old: "d ! ((p + k) mod ?n) = xs ! k" if k: "k < length xs" for k
  proof -
    have "(p + k) mod ?n \<noteq> (pwrite b + j) mod ?n" if "j < length buf" for j
      unfolding pos using mod_inj [of p k ?n "length xs + j"] k that assms(3) by auto
    moreover have "(p + k) mod ?n < ?n" using assms(1) by (intro mod_less_divisor) (auto simp: pending_def)
    ultimately have "d ! ((p + k) mod ?n) = rb_data b ! ((p + k) mod ?n)" using assms(2) by (auto simp: circ_put_def)
    then show ?thesis using assms(1) k by (simp add: pending_def)
  qed
  have "d ! ((p + k) mod ?n) = (xs @ buf) ! k" if "k < length xs + length buf" for k
    using that old [of k] d(2) [rule_format, of "k - length xs"] by (cases "k < length xs") (auto simp: nth_append)
  then show ?thesis using assms(1,3) d(1) pos [of "length buf"] by (simp add: pending_def)
qed

lemma circ_put_append:
  assumes "circ_put pw xs d d1" and "circ_put ((pw + length xs) mod length d) ys d1 d2" and "length xs + length ys \<le> length d"
  shows "circ_put pw (xs @ ys) d d2"
proof -
  let ?n = "length d"
  have len: "length d1 = ?n" "length d2 = ?n" using assms(1,2) by (auto simp: circ_put_def)
  have pos: "((pw + length xs) mod ?n + k) mod ?n = (pw + (length xs + k)) mod ?n" for k
    by (simp add: mod_add_left_eq add.assoc)
  have ys: "d2 ! ((pw + (length xs + k)) mod ?n) = ys ! k" if "k < length ys" for k
    using assms(2) that len pos by (auto simp: circ_put_def)
  have keep: "d2 ! j = d1 ! j" if "j < ?n" "\<forall>k < length ys. j \<noteq> (pw + (length xs + k)) mod ?n" for j
    using assms(2) that len pos by (auto simp: circ_put_def)
  have xs: "d2 ! ((pw + k) mod ?n) = xs ! k" if k: "k < length xs" for k
  proof -
    have "(pw + k) mod ?n \<noteq> (pw + (length xs + j)) mod ?n" if "j < length ys" for j
      using mod_inj [of pw k ?n "length xs + j"] k that assms(3) by auto
    moreover have "(pw + k) mod ?n < ?n" using k assms(3) by (intro mod_less_divisor) linarith
    ultimately have "d2 ! ((pw + k) mod ?n) = d1 ! ((pw + k) mod ?n)" using keep by blast
    then show ?thesis using assms(1) k by (simp add: circ_put_def)
  qed
  have "d2 ! ((pw + k) mod ?n) = (xs @ ys) ! k" if "k < length xs + length ys" for k
    using that xs [of k] ys [of "k - length xs"] by (cases "k < length xs") (auto simp: nth_append)
  moreover have "d2 ! j = d ! j" if j: "j < ?n" "\<forall>k < length (xs @ ys). j \<noteq> (pw + k) mod ?n" for j
  proof -
    have "\<forall>k < length ys. j \<noteq> (pw + (length xs + k)) mod ?n" using j(2) by auto
    then have "d2 ! j = d1 ! j" using keep j(1) by blast
    moreover have "d1 ! j = d ! j" using assms(1) j by (auto simp: circ_put_def)
    ultimately show ?thesis by simp
  qed
  ultimately show ?thesis using len unfolding circ_put_def by auto
qed

text \<open>A block that is copied in two parts, the second at the start of the memory.\<close>

lemma circ_put_wrap:
  assumes "pw < length d" and "length d < pw + length buf" and "length buf \<le> length d"
  shows "\<exists>d1 d2. blit d pw (take (length d - pw) buf) = Some d1 \<and> blit d1 0 (drop (length d - pw) buf) = Some d2 \<and>
    length d1 = length d \<and> circ_put pw buf d d2"
proof -
  let ?k = "length d - pw"
  have 1: "pw + length (take ?k buf) \<le> length d" using assms by simp
  obtain d1 where d1: "blit d pw (take ?k buf) = Some d1" "circ_put pw (take ?k buf) d d1"
    using circ_put_flat [OF 1] by blast
  have len: "length d1 = length d" using d1(2) by (simp add: circ_put_def)
  have 2: "0 + length (drop ?k buf) \<le> length d1" using assms len by simp
  obtain d2 where d2: "blit d1 0 (drop ?k buf) = Some d2" "circ_put 0 (drop ?k buf) d1 d2"
    using circ_put_flat [OF 2] by blast
  have "(pw + length (take ?k buf)) mod length d = 0" using assms by simp
  with circ_put_append [OF d1(2), of "drop ?k buf" d2] d2(2) assms(3) have "circ_put pw buf d d2" by simp
  with d1(1) d2(1) len show ?thesis by blast
qed

section \<open>Operations on the unread bytes\<close>

lemma pending_nth: "pending b p xs \<Longrightarrow> k < length xs \<Longrightarrow> rb_data b ! ((p + k) mod rb_size b) = xs ! k"
  by (simp add: pending_def)

text \<open>A stretch of unread bytes that does not wrap around is a slice of the memory.\<close>

lemma pending_slice:
  assumes "pending b p xs" and "i + n \<le> length xs" and "q = (p + i) mod rb_size b" and "q + n \<le> rb_size b"
  shows "slice (rb_data b) q n = Some (take n (drop i xs))"
proof -
  have "take n (drop q (rb_data b)) = take n (drop i xs)"
  proof (rule nth_equalityI)
    show "length (take n (drop q (rb_data b))) = length (take n (drop i xs))" using assms by simp
    fix k
    assume "k < length (take n (drop q (rb_data b)))"
    then have k: "k < n" "q + k < rb_size b" by auto
    have "q + k = (p + (i + k)) mod rb_size b"
      using k(2) assms(3) by (metis add.assoc mod_add_left_eq mod_less)
    with pending_nth [OF assms(1), of "i + k"] k assms(2)
    show "take n (drop q (rb_data b)) ! k = take n (drop i xs) ! k" by simp
  qed
  with assms(4) show ?thesis by (simp add: slice_def)
qed

lemma pending_drop:
  assumes "pending b p xs" and "n \<le> length xs"
  shows "pending b ((p + n) mod rb_size b) (drop n xs)"
proof -
  let ?s = "rb_size b"
  have pos: "((p + n) mod ?s + k) mod ?s = (p + (n + k)) mod ?s" for k
    by (simp add: mod_add_left_eq add.assoc)
  have "(p + n) mod ?s < ?s" using assms(1) by (intro mod_less_divisor) (auto simp: pending_def)
  moreover have "length xs - n < ?s" using assms(1) by (simp add: pending_def less_imp_diff_less)
  ultimately show ?thesis using assms pos [of "length xs - n"] pos by (simp add: pending_def)
qed

lemma pending_cong: "rb_data b' = rb_data b \<Longrightarrow> pwrite b' = pwrite b \<Longrightarrow> pending b' p xs = pending b p xs"
  by (simp add: pending_def)

lemma set_pread_sel [simp]:
  "rb_data (set_pread i p b) = rb_data b" "pwrite (set_pread i p b) = pwrite b"
  "readd_cnt (set_pread i p b) = readd_cnt b" "pread (set_pread i p b) = (pread b)[i := Some p]"
  by (simp_all add: set_pread_def)

lemma read_pending:
  assumes "reader_at b i = Some p" and "pending b p xs" and "n \<le> length xs"
  shows "\<exists>b'. rb_read i (int n) b = Some (int n, take n xs, b') \<and>
    b' = (if n = 0 then b else set_pread i ((p + n) mod rb_size b) b)"
proof -
  have av: "avail_from b p = int (length xs)" using assms(2) by (rule avail_pending)
  have p: "p < rb_size b" "length xs < rb_size b" using assms(2) by (auto simp: pending_def)
  show ?thesis
  proof (cases "p + n \<le> rb_size b")
    case True
    have "slice (rb_data b) p n = Some (take n xs)"
      using pending_slice [OF assms(2), of 0 n p] assms(3) p True by simp
    with True assms(1,3) av show ?thesis by (simp add: rb_read_def Let_def)
  next
    case False
    let ?k = "rb_size b - p"
    have 1: "slice (rb_data b) p ?k = Some (take ?k xs)"
      using pending_slice [OF assms(2), of 0 ?k p] assms(3) p False by simp
    have 2: "slice (rb_data b) 0 (n - ?k) = Some (take (n - ?k) (drop ?k xs))"
      using pending_slice [OF assms(2), of ?k "n - ?k" 0] assms(3) p False by simp
    have "n = ?k + (n - ?k)" using False by simp
    then have 3: "take ?k xs @ take (n - ?k) (drop ?k xs) = take n xs" using take_add [of ?k "n - ?k" xs] by simp
    have 4: "(p + n) mod rb_size b = n - ?k" using False p assms(3) mod_wrap [of "rb_size b" "p + n"] by simp
    have 5: "nat (int (rb_size b) - int p) = ?k" "nat (int n - (int (rb_size b) - int p)) = n - ?k" using p False by auto
    have 6: "n - ?k < rb_size b" using p assms(3) by linarith
    show ?thesis using False assms(1,3) av p 1 2 3 4 5 6 by (simp add: rb_read_def Let_def)
  qed
qed

text \<open>\<open>write\<close> of at most the free bytes puts them behind the write position, around the end if need be.\<close>

lemma write_circ:
  assumes "pwrite b < rb_size b" and "int (length buf) \<le> rb_free b" and "length buf < rb_size b"
  shows "\<exists>d. rb_write buf False b = Some (int (length buf), b\<lparr>rb_data := d, pwrite := (pwrite b + length buf) mod rb_size b\<rparr>) \<and>
    circ_put (pwrite b) buf (rb_data b) d"
proof (cases "buf = []")
  case True
  then have "rb_write buf False b = Some (0, b)" using assms(2) by (simp add: rb_write_def Let_def)
  moreover have "b\<lparr>rb_data := rb_data b, pwrite := pwrite b\<rparr> = b" by simp
  ultimately show ?thesis using True assms(1) by (intro exI [of _ "rb_data b"]) (simp add: circ_put_def)
next
  case ne: False
  show ?thesis
  proof (cases "pwrite b + length buf \<le> rb_size b")
    case True
    note f = circ_put_flat [OF True]
    have "rb_write buf False b = Some (int (length buf), b\<lparr>rb_data := take (pwrite b) (rb_data b) @ buf @ drop (pwrite b + length buf) (rb_data b), pwrite := (pwrite b + length buf) mod rb_size b\<rparr>)"
      using True ne assms f(1) by (simp add: rb_write_def Let_def put_bytes_def)
    with f(2) show ?thesis by blast
  next
    case False
    then have lt: "rb_size b < pwrite b + length buf" by simp
    obtain d1 d2 where d: "blit (rb_data b) (pwrite b) (take (rb_size b - pwrite b) buf) = Some d1"
      "blit d1 0 (drop (rb_size b - pwrite b) buf) = Some d2" "length d1 = rb_size b" "circ_put (pwrite b) buf (rb_data b) d2"
      using circ_put_wrap [OF assms(1) lt] assms(3) by auto
    have len: "length d2 = rb_size b" using d(4) by (simp add: circ_put_def)
    have k: "nat (int (rb_size b) - int (pwrite b)) = rb_size b - pwrite b" using assms(1) by simp
    have m: "(pwrite b + length buf) mod rb_size b = (length buf - (rb_size b - pwrite b)) mod rb_size b"
      using lt assms(1) by (simp add: le_mod_geq add.commute)
    have "rb_write buf False b = Some (int (length buf), b\<lparr>rb_data := d2, pwrite := (pwrite b + length buf) mod rb_size b\<rparr>)"
      using lt ne assms d len unfolding m by (simp add: rb_write_def Let_def put_bytes_def k)
    with d(4) show ?thesis by blast
  qed
qed

section \<open>The free bytes\<close>

definition readers :: "nat option list \<Rightarrow> nat" where
  "readers rs = length (filter (\<lambda>r. r \<noteq> None) rs)"

lemma readers_simps [simp]:
  "readers [] = 0" "readers (None # rs) = readers rs" "readers (Some p # rs) = Suc (readers rs)"
  by (simp_all add: readers_def)

lemma readers_0: "readers rs = 0 \<Longrightarrow> Some p \<notin> set rs"
  by (auto simp: readers_def filter_empty_conv)

lemma min_pread_loop_max:
  assumes "cnt + readers rs = readd_cnt b" and "ma = avail_from b mp"
  shows "ma \<le> avail_from b (min_pread_loop b rs cnt mp ma) \<and>
    (\<forall>p. Some p \<in> set rs \<longrightarrow> avail_from b p \<le> avail_from b (min_pread_loop b rs cnt mp ma)) \<and>
    (min_pread_loop b rs cnt mp ma = mp \<or> Some (min_pread_loop b rs cnt mp ma) \<in> set rs)"
  using assms
proof (induction rs arbitrary: cnt mp ma)
  case (Cons r rs)
  show ?case
  proof (cases r)
    case None
    then show ?thesis using Cons by auto
  next
    case (Some p)
    define mp' where "mp' = (if avail_from b p > ma then p else mp)"
    have step: "min_pread_loop b (r # rs) cnt mp ma =
        (if cnt + 1 \<ge> readd_cnt b then mp' else min_pread_loop b rs (cnt + 1) mp' (avail_from b mp'))"
      using Some Cons.prems(2) by (simp add: mp'_def Let_def)
    have mp': "ma \<le> avail_from b mp'" "avail_from b p \<le> avail_from b mp'" "mp' = mp \<or> mp' = p"
      using Cons.prems(2) by (auto simp: mp'_def)
    show ?thesis
    proof (cases "cnt + 1 \<ge> readd_cnt b")
      case True
      then have "readers rs = 0" using Cons.prems(1) Some by simp
      then have "\<forall>q. Some q \<notin> set rs" using readers_0 by blast
      with True mp' Some step show ?thesis by auto
    next
      case False
      have "cnt + 1 + readers rs = readd_cnt b" using Cons.prems(1) Some by simp
      from Cons.IH [OF this refl, of mp'] mp' False Some step show ?thesis by auto
    qed
  qed
qed simp

lemma min_pread_loop_start:
  assumes "readers rs = readd_cnt b" and "\<exists>p. Some p \<in> set rs" and "\<forall>p. Some p \<in> set rs \<longrightarrow> 0 \<le> avail_from b p"
  shows "Some (min_pread_loop b rs 0 mp (-1)) \<in> set rs \<and>
    (\<forall>p. Some p \<in> set rs \<longrightarrow> avail_from b p \<le> avail_from b (min_pread_loop b rs 0 mp (-1)))"
  using assms
proof (induction rs)
  case (Cons r rs)
  show ?case
  proof (cases r)
    case None
    then show ?thesis using Cons by auto
  next
    case (Some p)
    then have gt: "avail_from b p > -1" using Cons.prems(3) by (simp add: order_less_le_trans [of "-1" 0])
    have step: "min_pread_loop b (r # rs) 0 mp (-1) = (if 1 \<ge> readd_cnt b then p else min_pread_loop b rs 1 p (avail_from b p))"
      using Some gt by (simp add: Let_def)
    show ?thesis
    proof (cases "1 \<ge> readd_cnt b")
      case True
      then have "readers rs = 0" using Cons.prems(1) Some by simp
      then have "\<forall>q. Some q \<notin> set rs" using readers_0 by blast
      with True Some step show ?thesis by auto
    next
      case False
      have "1 + readers rs = readd_cnt b" using Cons.prems(1) Some by simp
      from min_pread_loop_max [OF this refl, of p] False Some step show ?thesis by auto
    qed
  qed
qed simp

section \<open>The buffer as a queue for each reader\<close>

definition rb_rep :: "ring \<Rightarrow> byte list option list \<Rightarrow> bool" where
  "rb_rep b Q \<longleftrightarrow> pwrite b < rb_size b \<and> readd_cnt b = readers (pread b) \<and>
     list_all2 (rel_option (pending b)) (pread b) Q"

lemma rb_repD:
  assumes "rb_rep b Q"
  shows "pwrite b < rb_size b" "readd_cnt b = readers (pread b)" "length (pread b) = length Q"
  using assms by (auto simp: rb_rep_def dest: list_all2_lengthD)

lemma rep_at:
  assumes "rb_rep b Q" and "i < length Q"
  shows "rel_option (pending b) (pread b ! i) (Q ! i)"
  using assms by (auto simp: rb_rep_def list_all2_conv_all_nth)

lemma rep_reader:
  assumes "rb_rep b Q" and "Some p \<in> set (pread b)"
  shows "\<exists>q. Some q \<in> set Q \<and> pending b p q"
proof -
  from assms(2) obtain i where i: "i < length (pread b)" "pread b ! i = Some p" by (auto simp: in_set_conv_nth)
  with rep_at [OF assms(1), of i] rb_repD(3) [OF assms(1)] obtain q where "Q ! i = Some q" "pending b p q"
    by (auto simp: option_rel_Some1)
  with i rb_repD(3) [OF assms(1)] show ?thesis by (metis nth_mem)
qed

lemma rep_queue:
  assumes "rb_rep b Q" and "Some q \<in> set Q"
  shows "\<exists>p. Some p \<in> set (pread b) \<and> pending b p q"
proof -
  from assms(2) obtain i where i: "i < length Q" "Q ! i = Some q" by (auto simp: in_set_conv_nth)
  with rep_at [OF assms(1), of i] obtain p where "pread b ! i = Some p" "pending b p q"
    by (auto simp: option_rel_Some2)
  with i rb_repD(3) [OF assms(1)] show ?thesis by (metis nth_mem)
qed

text \<open>
  With a reader, \<open>free\<close> is what the reader with the most unread bytes leaves, less the byte that tells a full
  buffer from an empty one.
\<close>

lemma free_rep:
  assumes "rb_rep b Q" and "\<exists>q. Some q \<in> set Q"
  shows "\<exists>q. Some q \<in> set Q \<and> rb_free b = int (rb_size b) - int (length q) - 1 \<and>
    (\<forall>q'. Some q' \<in> set Q \<longrightarrow> length q' \<le> length q)"
proof -
  have nn: "\<forall>p. Some p \<in> set (pread b) \<longrightarrow> 0 \<le> avail_from b p"
    using rep_reader [OF assms(1)] avail_pending by (metis of_nat_0_le_iff)
  have ex: "\<exists>p. Some p \<in> set (pread b)" using assms(2) rep_queue [OF assms(1)] by blast
  note m = min_pread_loop_start [OF rb_repD(2) [OF assms(1), symmetric] ex nn, of 0, folded min_pread_def]
  obtain q where q: "Some q \<in> set Q" "pending b (min_pread b) q" using rep_reader [OF assms(1)] m by blast
  have "rb_free b = int (rb_size b) - int (length q) - 1"
    using pwrite_cases [OF q(2)] q(2) by (auto simp: rb_free_def Let_def pending_def split: if_splits)
  moreover have "length q' \<le> length q" if q': "Some q' \<in> set Q" for q'
  proof -
    obtain p where "Some p \<in> set (pread b)" "pending b p q'" using rep_queue [OF assms(1) q'] by blast
    with m avail_pending [OF q(2)] avail_pending [of b p q'] show ?thesis by fastforce
  qed
  ultimately show ?thesis using q(1) by blast
qed

text \<open>Without a reader it is what lies behind the write position.\<close>

lemma min_pread_loop_none: "readers rs = 0 \<Longrightarrow> min_pread_loop b rs cnt mp ma = mp"
proof (induction rs)
  case (Cons r rs)
  then show ?case by (cases r) auto
qed simp

lemma free_bound:
  assumes "rb_rep b Q"
  shows "0 \<le> rb_free b \<and> rb_free b < int (rb_size b)"
proof (cases "\<exists>q. Some q \<in> set Q")
  case True
  then obtain q where q: "Some q \<in> set Q" "rb_free b = int (rb_size b) - int (length q) - 1"
    using free_rep [OF assms] by blast
  obtain p where "pending b p q" using rep_queue [OF assms q(1)] by blast
  with q(2) show ?thesis by (auto simp: pending_def)
next
  case False
  then have "\<forall>p. Some p \<notin> set (pread b)" using rep_reader [OF assms] by blast
  then have "readers (pread b) = 0"
    unfolding readers_def length_0_conv filter_empty_conv not_not by (metis option.exhaust)
  then have "min_pread b = 0" by (simp add: min_pread_def min_pread_loop_none)
  with rb_repD(1) [OF assms] show ?thesis by (auto simp: rb_free_def Let_def)
qed

text \<open>Every operation, on the queues.\<close>

lemma circ_rep:
  assumes "rb_rep b Q" and "int (length buf) \<le> rb_free b" and "circ_put (pwrite b) buf (rb_data b) d"
  shows "rb_rep (b\<lparr>rb_data := d, pwrite := (pwrite b + length buf) mod rb_size b\<rparr>) (map (map_option (\<lambda>q. q @ buf)) Q)"
proof -
  let ?b = "b\<lparr>rb_data := d, pwrite := (pwrite b + length buf) mod rb_size b\<rparr>"
  have len: "length d = rb_size b" using assms(3) by (simp add: circ_put_def)
  have room: "length q + length buf < rb_size b" if q: "Some q \<in> set Q" for q
  proof -
    have "\<exists>q. Some q \<in> set Q" using q by blast
    from free_rep [OF assms(1) this] q
    obtain q' where "Some q' \<in> set Q" "rb_free b = int (rb_size b) - int (length q') - 1" "length q \<le> length q'" by blast
    with assms(2) show ?thesis by linarith
  qed
  have "rel_option (pending ?b) (pread b ! i) (map (map_option (\<lambda>q. q @ buf)) Q ! i)" if i: "i < length Q" for i
  proof (cases "Q ! i")
    case None
    with rep_at [OF assms(1) i] i show ?thesis by (cases "pread b ! i") auto
  next
    case (Some q)
    with rep_at [OF assms(1) i] obtain p where p: "pread b ! i = Some p" "pending b p q" by (auto simp: option_rel_Some2)
    have "Some q \<in> set Q" using Some i by (metis nth_mem)
    with circ_put_pending [OF p(2) assms(3)] room have "pending ?b p (q @ buf)" by blast
    with p(1) Some i show ?thesis by simp
  qed
  then show ?thesis
    using rb_repD [OF assms(1)] len by (auto simp: rb_rep_def list_all2_conv_all_nth intro!: mod_less_divisor)
qed

lemma write_rep:
  assumes "rb_rep b Q" and "int (length buf) \<le> rb_free b"
  shows "\<exists>b'. rb_write buf False b = Some (int (length buf), b') \<and> rb_rep b' (map (map_option (\<lambda>q. q @ buf)) Q) \<and>
    rb_size b' = rb_size b"
proof -
  have lt: "length buf < rb_size b" using assms(2) free_bound [OF assms(1)] by linarith
  obtain d where d: "rb_write buf False b = Some (int (length buf), b\<lparr>rb_data := d, pwrite := (pwrite b + length buf) mod rb_size b\<rparr>)"
    "circ_put (pwrite b) buf (rb_data b) d"
    using write_circ [OF rb_repD(1) [OF assms(1)] assms(2) lt] by blast
  have "length d = rb_size b" using d(2) by (simp add: circ_put_def)
  with d(1) circ_rep [OF assms d(2)] show ?thesis by auto
qed

text \<open>The other operations change one reader.\<close>

lemma readers_update:
  "i < length rs \<Longrightarrow> readers (rs[i := Some p]) = (if rs ! i = None then Suc (readers rs) else readers rs)"
  "i < length rs \<Longrightarrow> readers (rs[i := None]) = (if rs ! i = None then readers rs else readers rs - 1)"
proof (induction rs arbitrary: i)
  case (Cons r rs)
  { case 1 then show ?case using Cons.IH(1) by (cases i; cases r) auto }
  { case 2
    have "readers rs \<noteq> 0" if "k < length rs" "rs ! k = Some p" for k p using that readers_0 [of rs p] by (metis nth_mem)
    then show ?case using 2 Cons.IH(2) by (cases i; cases r) (auto simp: Suc_pred)
  }
qed simp_all

lemma rep_update:
  assumes "rb_rep b Q" and "rel_option (pending b) r e" and "rb_data b' = rb_data b" and "pwrite b' = pwrite b"
    and "pread b' = (pread b)[i := r]" and "readd_cnt b' = readers ((pread b)[i := r])"
  shows "rb_rep b' (Q[i := e])"
proof -
  have "pending b' = pending b" using assms(3,4) by (intro ext pending_cong)
  with assms show ?thesis by (simp add: rb_rep_def list_all2_update_cong)
qed

lemma moved_rep:
  assumes "rb_rep b Q" and "i < length Q" and "Q ! i = Some q" and "pread b ! i = Some p" and "pending b p q" and "n \<le> length q"
  shows "rb_rep (if n = 0 then b else set_pread i ((p + n) mod rb_size b) b) (Q[i := Some (drop n q)])"
proof -
  have i: "i < length (pread b)" using assms(2) rb_repD(3) [OF assms(1)] by simp
  let ?b = "if n = 0 then b else set_pread i ((p + n) mod rb_size b) b"
  have "(pread b)[i := Some p] = pread b" using assms(4) by (metis list_update_id)
  moreover have "p mod rb_size b = p" using assms(5) by (simp add: pending_def)
  ultimately have new: "pread ?b = (pread b)[i := Some ((p + n) mod rb_size b)]" by simp
  show ?thesis
    using pending_drop [OF assms(5,6)] rb_repD(2) [OF assms(1)] readers_update(1) [OF i] assms(4)
    by (intro rep_update [OF assms(1) _ _ _ new]) simp_all
qed

lemma read_rep:
  assumes "rb_rep b Q" and "i < length Q" and "Q ! i = Some q" and "n \<le> length q"
  shows "\<exists>b'. rb_read i (int n) b = Some (int n, take n q, b') \<and> rb_rep b' (Q[i := Some (drop n q)]) \<and>
    rb_size b' = rb_size b"
proof -
  obtain p where p: "pread b ! i = Some p" "pending b p q"
    using rep_at [OF assms(1,2)] assms(3) by (auto simp: option_rel_Some2)
  have at: "reader_at b i = Some p" using p(1) assms(2) rb_repD(3) [OF assms(1)] by (simp add: reader_at_def)
  from read_pending [OF at p(2) assms(4)] moved_rep [OF assms(1-3) p assms(4)] show ?thesis by auto
qed

lemma close_rep:
  assumes "rb_rep b Q" and "i < length Q" and "Q ! i = Some q"
  shows "rb_rep (rb_close i b) (Q[i := None])"
proof -
  have i: "i < length (pread b)" using assms(2) rb_repD(3) [OF assms(1)] by simp
  have "pread b ! i \<noteq> None" using rep_at [OF assms(1,2)] assms(3) by (auto simp: option_rel_Some2)
  then show ?thesis
    using rb_repD(2) [OF assms(1)] readers_update(2) [OF i]
    by (intro rep_update [OF assms(1)]) (auto simp: rb_close_def)
qed

lemma free_slot_rel: "list_all2 (rel_option R) rs Q \<Longrightarrow> free_slot rs i = free_slot Q i"
proof (induction rs Q arbitrary: i rule: list_all2_induct)
  case (Cons r rs e Q)
  then show ?case by (cases r; cases e) auto
qed simp

lemma free_slot_bound: "free_slot rs k = Some i \<Longrightarrow> k \<le> i \<and> i - k < length rs \<and> rs ! (i - k) = None"
proof (induction rs arbitrary: k)
  case (Cons r rs)
  show ?case
  proof (cases r)
    case (Some p)
    with Cons.prems have "free_slot rs (Suc k) = Some i" by simp
    from Cons.IH [OF this] Some show ?thesis by (auto simp: Suc_diff_le nth_Cons')
  qed (use Cons.prems in simp)
qed simp

lemma open_rep:
  assumes "rb_rep b Q"
  shows "case free_slot Q 0 of
      Some i \<Rightarrow> \<exists>b'. rb_open b = (int i, b') \<and> rb_rep b' (Q[i := Some []]) \<and> rb_size b' = rb_size b
    | None \<Rightarrow> rb_open b = (-1, b)"
proof -
  have eq: "free_slot (pread b) 0 = free_slot Q 0" using assms by (auto simp: rb_rep_def intro: free_slot_rel)
  show ?thesis
  proof (cases "free_slot Q 0")
    case None
    then show ?thesis by (simp add: rb_open_def eq)
  next
    case (Some i)
    then have i: "i < length (pread b)" "pread b ! i = None"
      using free_slot_bound [of "pread b" 0 i] by (simp_all add: eq)
    let ?b = "b\<lparr>pread := (pread b)[i := Some (pwrite b)], readd_cnt := readd_cnt b + 1\<rparr>"
    have "pending b (pwrite b) []" using rb_repD(1) [OF assms] by (auto simp: pending_def)
    then have "rb_rep ?b (Q[i := Some []])"
      using rep_update [OF assms, of "Some (pwrite b)" "Some []" ?b i] rb_repD(2) [OF assms]
        readers_update(1) [OF i(1), of "pwrite b"] i(2) by simp
    with Some show ?thesis by (simp add: rb_open_def eq)
  qed
qed

section \<open>Specification\<close>

text \<open>
  A broadcast channel: one queue of unread bytes for each reader. An operation outside the contract (a
  descriptor that is not open, a write without a reader or without room, a read of more than is there) is
  \<open>None\<close>.
\<close>

datatype rop = Open | Close nat | Write "byte list" | Read nat nat

datatype rout = Descriptor int | Done | Count int | Data int "byte list"

definition queue_at :: "'a option list \<Rightarrow> nat \<Rightarrow> 'a option" where
  "queue_at Q i = (if i < length Q then Q ! i else None)"

fun queue_step :: "nat \<Rightarrow> rop \<Rightarrow> byte list option list \<Rightarrow> (rout \<times> byte list option list) option" where
  "queue_step sz Open Q = Some (case free_slot Q 0 of
     Some i \<Rightarrow> (Descriptor (int i), Q[i := Some []]) | None \<Rightarrow> (Descriptor (-1), Q))"
| "queue_step sz (Close i) Q = (if queue_at Q i = None then None else Some (Done, Q[i := None]))"
| "queue_step sz (Write buf) Q =
     (if list_ex (\<lambda>e. e \<noteq> None) Q \<and> list_all (case_option True (\<lambda>q. length q + length buf < sz)) Q
      then Some (Count (int (length buf)), map (map_option (\<lambda>q. q @ buf)) Q) else None)"
| "queue_step sz (Read i n) Q = (case queue_at Q i of
     None \<Rightarrow> None
   | Some q \<Rightarrow> if n \<le> length q then Some (Data (int n) (take n q), Q[i := Some (drop n q)]) else None)"

fun rb_step :: "rop \<Rightarrow> ring \<Rightarrow> (rout \<times> ring) option" where
  "rb_step Open b = (case rb_open b of (i, b) \<Rightarrow> Some (Descriptor i, b))"
| "rb_step (Close i) b = Some (Done, rb_close i b)"
| "rb_step (Write buf) b = map_option (\<lambda>(n, b). (Count n, b)) (rb_write buf False b)"
| "rb_step (Read i n) b = map_option (\<lambda>(k, xs, b). (Data k xs, b)) (rb_read i (int n) b)"

lemma queue_at_Some: "queue_at Q i = Some q \<longleftrightarrow> i < length Q \<and> Q ! i = Some q"
  by (simp add: queue_at_def)

lemma write_room:
  assumes "rb_rep b Q" and "queue_step (rb_size b) (Write buf) Q = Some (r, Q')"
  shows "int (length buf) \<le> rb_free b"
proof -
  have ex: "\<exists>q. Some q \<in> set Q" and all: "\<forall>q. Some q \<in> set Q \<longrightarrow> length q + length buf < rb_size b"
    using assms(2) by (auto simp: list_ex_iff list_all_iff split: if_splits)
  from free_rep [OF assms(1) ex] all show ?thesis by fastforce
qed

lemma rb_step_sim:
  assumes "rb_rep b Q" and "rb_size b = sz" and "queue_step sz c Q = Some (r, Q')"
  shows "\<exists>b'. rb_step c b = Some (r, b') \<and> rb_rep b' Q' \<and> rb_size b' = sz"
proof (cases c)
  case Open
  with assms open_rep [OF assms(1)] show ?thesis by (cases "free_slot Q 0") auto
next
  case (Close i)
  with assms(3) obtain q where q: "queue_at Q i = Some q" "r = Done" "Q' = Q[i := None]" by (auto split: if_splits)
  with close_rep [OF assms(1), of i q] Close assms(2) show ?thesis by (simp add: queue_at_Some) (simp add: rb_close_def)
next
  case (Write buf)
  have "int (length buf) \<le> rb_free b" using write_room [OF assms(1)] assms(2,3) Write by blast
  from write_rep [OF assms(1) this] assms(2,3) Write show ?thesis by (auto split: if_splits)
next
  case (Read i n)
  with assms(3) obtain q where q: "i < length Q" "Q ! i = Some q" "n \<le> length q" "r = Data (int n) (take n q)" "Q' = Q[i := Some (drop n q)]"
    by (auto simp: queue_at_Some split: option.splits if_splits)
  from read_rep [OF assms(1) q(1,2,3)] q(4,5) Read assms(2) show ?thesis by auto
qed

interpretation rb: simulation rb_step "queue_step sz" "\<lambda>b Q. rb_rep b Q \<and> rb_size b = sz" for sz
  by unfold_locales (use rb_step_sim in blast)

lemma rb_new_rep: "0 < sz \<Longrightarrow> rb_rep (rb_new sz) (replicate FD_SETSIZE None)"
  by (auto simp: rb_rep_def rb_new_def list_all2_conv_all_nth readers_def)

section \<open>Properties\<close>

text \<open>
  C6: a new ring buffer, driven by any sequence of openings, closings, writes and reads within the room of the
  buffer and the unread bytes of the reader, answers what a broadcast channel answers: every reader gets
  the bytes written since it was opened, once each and in order, at its own pace, whatever the others do and
  wherever the memory wraps around, and no access leaves the memory.
\<close>

theorem ring_broadcasts:
  assumes "0 < sz" and "run_ops (queue_step sz) cs (replicate FD_SETSIZE None) = Some (rs, Q)"
  shows "\<exists>b. run_ops rb_step cs (rb_new sz) = Some (rs, b) \<and> rb_size b = sz \<and>
    (\<forall>i q. queue_at Q i = Some q \<longrightarrow> rb_avail b i = Some (int (length q)) \<and> rb_isEmpty b i = Some (q = []))"
proof -
  have "rb_rep (rb_new sz) (replicate FD_SETSIZE None) \<and> rb_size (rb_new sz) = sz"
    using rb_new_rep [OF assms(1)] by (simp add: rb_new_def)
  from rb.run_sim [OF this assms(2)]
  obtain b where b: "run_ops rb_step cs (rb_new sz) = Some (rs, b)" "rb_rep b Q" "rb_size b = sz" by blast
  have "rb_avail b i = Some (int (length q)) \<and> rb_isEmpty b i = Some (q = [])" if q: "queue_at Q i = Some q" for i q
  proof -
    obtain p where p: "reader_at b i = Some p" "pending b p q"
      using rep_at [OF b(2), of i] q rb_repD(3) [OF b(2)]
      by (auto simp: queue_at_Some reader_at_def option_rel_Some2)
    then have "pwrite b = p \<longleftrightarrow> q = []" using avail_pending [OF p(2)]
      by (auto simp: avail_from_def pending_def Let_def split: if_splits)
    with p avail_pending [OF p(2)] show ?thesis by (simp add: rb_avail_def rb_isEmpty_def)
  qed
  with b show ?thesis by blast
qed

theorem ring_broadcasts_witness:
  "\<exists>b. run_ops rb_step [Open, Write [1, 2, 3], Open, Read 0 2, Write [4], Read 1 1, Read 0 1, Write [5, 6], Read 0 3, Close 0] (rb_new 5) =
     Some ([Descriptor 0, Count 3, Descriptor 1, Data 2 [1, 2], Count 1, Data 1 [4], Data 1 [3], Count 2, Data 3 [4, 5, 6], Done], b) \<and>
     rb_avail b 1 = Some 2"
proof -
  have *: "run_ops (queue_step 5) [Open, Write [1, 2, 3], Open, Read 0 2, Write [4], Read 1 1, Read 0 1, Write [5, 6], Read 0 3, Close 0]
      (replicate FD_SETSIZE None) =
    Some ([Descriptor 0, Count 3, Descriptor 1, Data 2 [1, 2], Count 1, Data 1 [4], Data 1 [3], Count 2, Data 3 [4, 5, 6], Done],
      None # Some [5, 6] # replicate 1022 None)"
    by code_simp
  show ?thesis using ring_broadcasts [OF _ *] by (auto simp: queue_at_def dest!: spec [of _ 1])
qed

section \<open>Transfers from and to descriptors of the system\<close>

lemma put_moved_circ:
  assumes "pwrite b + length xs \<le> rb_size b"
  shows "\<exists>d. put_moved xs b = Some (b\<lparr>rb_data := d, pwrite := (pwrite b + length xs) mod rb_size b\<rparr>) \<and>
    circ_put (pwrite b) xs (rb_data b) d"
  using circ_put_flat [OF assms] assms by (auto simp: put_moved_def put_bytes_def)

lemma read_rest_circ:
  assumes "\<forall>n ys. sys_read n = Some ys \<longrightarrow> length ys \<le> n" and "pwrite b + todo \<le> rb_size b" and "pwrite b < rb_size b"
  shows "\<exists>ys d n. read_rest sys_read (int todo) k b = Some (n, b\<lparr>rb_data := d, pwrite := (pwrite b + length ys) mod rb_size b\<rparr>) \<and>
    circ_put (pwrite b) ys (rb_data b) d \<and> length ys \<le> todo \<and> (ys = [] \<or> sys_read todo = Some ys) \<and> n = k + int (length ys)"
proof -
  consider "sys_read todo = None \<or> sys_read todo = Some []" | ys where "sys_read todo = Some ys" "ys \<noteq> []"
    by (cases "sys_read todo") blast+
  then show ?thesis
  proof cases
    case 1
    then have "read_rest sys_read (int todo) k b = Some (k, b)" by (auto simp: read_rest_def)
    then show ?thesis using assms(3)
      by (intro exI [of _ "[]"] exI [of _ "rb_data b"] exI [of _ k]) (simp add: circ_put_def)
  next
    case 2
    then have len: "length ys \<le> todo" using assms(1) by blast
    obtain d where "put_moved ys b = Some (b\<lparr>rb_data := d, pwrite := (pwrite b + length ys) mod rb_size b\<rparr>)"
      "circ_put (pwrite b) ys (rb_data b) d"
      using put_moved_circ [of b ys] len assms(2) by auto
    with 2 len show ?thesis
      by (intro exI [of _ ys] exI [of _ d] exI [of _ "k + int (length ys)"]) (simp add: read_rest_def)
  qed
qed

lemma readFromFd_wrap:
  assumes "pwrite b < rb_size b" and "rb_free b = int f" and "f < rb_size b" and "rb_size b < pwrite b + f"
    and "\<forall>n xs. read1 n = Some xs \<longrightarrow> length xs \<le> n" and "\<forall>n xs. read2 n = Some xs \<longrightarrow> length xs \<le> n"
  shows "\<exists>n xs ys d. rb_readFromFd read1 read2 b = Some (n, b\<lparr>rb_data := d, pwrite := (pwrite b + length (xs @ ys)) mod rb_size b\<rparr>) \<and>
    circ_put (pwrite b) (xs @ ys) (rb_data b) d \<and> length (xs @ ys) \<le> f \<and>
    (xs = [] \<or> (\<exists>k. read1 k = Some xs)) \<and> (ys = [] \<or> (\<exists>k. read2 k = Some ys)) \<and>
    (xs \<noteq> [] \<longrightarrow> n = int (length (xs @ ys))) \<and> (xs = [] \<longrightarrow> ys = [])"
proof -
  let ?k = "rb_size b - pwrite b"
  have sp: "nat (int (rb_size b) - int (pwrite b)) = ?k" "int (rb_size b) - int (pwrite b) = int ?k" using assms(1) by auto
  have id: "b\<lparr>rb_data := rb_data b, pwrite := (pwrite b + length ([] @ [] :: byte list)) mod rb_size b\<rparr> = b"
    "circ_put (pwrite b) ([] @ []) (rb_data b) (rb_data b)" using assms(1) by (simp_all add: circ_put_def)
  consider "read1 ?k = None" | "read1 ?k = Some []" | xs where "read1 ?k = Some xs" "xs \<noteq> []"
    by (cases "read1 ?k") blast+
  then show ?thesis
  proof cases
    case 1
    then have "rb_readFromFd read1 read2 b = Some (-1, b)" using assms(1,2,4) by (simp add: rb_readFromFd_def Let_def sp(1))
    with id show ?thesis
      by (intro exI [of _ "-1"] exI [of _ "[]"] exI [of _ "[]"] exI [of _ "rb_data b"]) simp
  next
    case 2
    then have "rb_readFromFd read1 read2 b = Some (0, b)" using assms(1,2,4) by (simp add: rb_readFromFd_def Let_def sp(1))
    with id show ?thesis
      by (intro exI [of _ 0] exI [of _ "[]"] exI [of _ "[]"] exI [of _ "rb_data b"]) simp
  next
    case (3 xs)
    then have len: "length xs \<le> ?k" using assms(5) by blast
    then have le: "pwrite b + length xs \<le> rb_size b" using assms(1) by linarith
    obtain d where d: "put_moved xs b = Some (b\<lparr>rb_data := d, pwrite := (pwrite b + length xs) mod rb_size b\<rparr>)"
      "circ_put (pwrite b) xs (rb_data b) d"
      using put_moved_circ [of b xs] le by blast
    let ?b = "b\<lparr>rb_data := d, pwrite := (pwrite b + length xs) mod rb_size b\<rparr>"
    have sz: "length d = rb_size b" using d(2) by (simp add: circ_put_def)
    show ?thesis
    proof (cases "length xs < ?k")
      case True
      have "rb_readFromFd read1 read2 b = Some (int (length xs), ?b)"
      proof -
        have "int (length xs) < int (rb_size b) - int (pwrite b)" using True assms(1) by linarith
        then show ?thesis using assms(1,2,4) 3 d(1) by (simp add: rb_readFromFd_def Let_def sp(1))
      qed
      with 3 d(2) True assms(4) show ?thesis
        by (intro exI [of _ "int (length xs)"] exI [of _ xs] exI [of _ "[]"] exI [of _ d]) auto
    next
      case False
      then have k: "length xs = ?k" using len by simp
      have pw: "pwrite ?b = 0" using k assms(1) by simp
      have "pwrite ?b + (f - length xs) \<le> rb_size ?b" "pwrite ?b < rb_size ?b" using pw sz assms(1,3) by auto
      from read_rest_circ [OF assms(6) this, of "int (length xs)"] obtain ys d2 n where
        y: "read_rest read2 (int (f - length xs)) (int (length xs)) ?b =
            Some (n, ?b\<lparr>rb_data := d2, pwrite := (pwrite ?b + length ys) mod rb_size ?b\<rparr>)"
        "circ_put (pwrite ?b) ys (rb_data ?b) d2" "length ys \<le> f - length xs"
        "ys = [] \<or> read2 (f - length xs) = Some ys" "n = int (length xs) + int (length ys)" by blast
      have f: "length xs \<le> f" "int (f - length xs) = int f - int (length xs)" using k assms(4) by auto
      have pw2: "(pwrite ?b + length ys) mod rb_size ?b = (pwrite b + length (xs @ ys)) mod rb_size b"
        by (simp add: sz mod_add_left_eq add.assoc)
      have b2: "?b\<lparr>rb_data := d2, pwrite := (pwrite ?b + length ys) mod rb_size ?b\<rparr> =
          b\<lparr>rb_data := d2, pwrite := (pwrite b + length (xs @ ys)) mod rb_size b\<rparr>" unfolding pw2 by simp
      have "circ_put (pwrite b) (xs @ ys) (rb_data b) d2"
        using circ_put_append [OF d(2), of ys d2] y(2,3) f(1) assms(3) by simp
      moreover have "rb_readFromFd read1 read2 b = Some (n, b\<lparr>rb_data := d2, pwrite := (pwrite b + length (xs @ ys)) mod rb_size b\<rparr>)"
      proof -
        have "\<not> int (length xs) < int (rb_size b) - int (pwrite b)" using k assms(1) by linarith
        then show ?thesis unfolding b2 [symmetric] y(1) [symmetric] f(2) using assms(1,2,4) 3 d(1)
          by (simp add: rb_readFromFd_def Let_def sp(1))
      qed
      ultimately show ?thesis using 3 y(3,4,5) f(1)
        by (intro exI [of _ n] exI [of _ xs] exI [of _ ys] exI [of _ d2]) auto
    qed
  qed
qed

text \<open>
  \<open>readFromFdAndWrite\<close> gives every reader what the two calls of \<open>read\<close> deliver, in their order. The answer is
  the number of bytes when the free room wraps around, and one less when it does not.
\<close>

theorem fd_source:
  assumes "rb_rep b Q" and "\<forall>n xs. read1 n = Some xs \<longrightarrow> length xs \<le> n" and "\<forall>n xs. read2 n = Some xs \<longrightarrow> length xs \<le> n"
  shows "\<exists>n b' xs ys. rb_readFromFd read1 read2 b = Some (n, b') \<and> rb_rep b' (map (map_option (\<lambda>q. q @ xs @ ys)) Q) \<and>
    (xs = [] \<or> (\<exists>k. read1 k = Some xs)) \<and> (ys = [] \<or> (\<exists>k. read2 k = Some ys)) \<and>
    int (length xs + length ys) \<le> rb_free b \<and>
    (xs \<noteq> [] \<longrightarrow> n = int (length xs + length ys)) \<and> (xs = [] \<and> ys \<noteq> [] \<longrightarrow> n = int (length ys) - 1)"
proof -
  note pw = rb_repD(1) [OF assms(1)] and fr = free_bound [OF assms(1)]
  have id: "map (map_option (\<lambda>q. q @ [] @ [])) Q = Q" by (simp add: map_option.id [unfolded id_def])
  consider "rb_free b = 0" | "rb_free b \<noteq> 0" "int (pwrite b) + rb_free b \<le> int (rb_size b)"
    | "rb_free b \<noteq> 0" "int (pwrite b) + rb_free b > int (rb_size b)" by linarith
  then show ?thesis
  proof cases
    case 1
    then have "rb_readFromFd read1 read2 b = Some (-1, b)" by (simp add: rb_readFromFd_def)
    with assms(1) id fr show ?thesis by (intro exI [of _ "-1"] exI [of _ b] exI [of _ "[]"]) simp
  next
    case 2
    obtain f where f: "rb_free b = int f" using fr by (metis nonneg_int_cases)
    have "pwrite b + f \<le> rb_size b" using 2 f by linarith
    from read_rest_circ [OF assms(3) this pw, of "-1"] obtain ys d n where
      y: "read_rest read2 (int f) (-1) b = Some (n, b\<lparr>rb_data := d, pwrite := (pwrite b + length ys) mod rb_size b\<rparr>)"
      "circ_put (pwrite b) ys (rb_data b) d" "length ys \<le> f" "ys = [] \<or> read2 f = Some ys" "n = -1 + int (length ys)" by blast
    have "rb_readFromFd read1 read2 b = Some (n, b\<lparr>rb_data := d, pwrite := (pwrite b + length ys) mod rb_size b\<rparr>)"
      using 2 f y(1) by (simp add: rb_readFromFd_def Let_def)
    moreover note circ_rep [OF assms(1) _ y(2)]
    ultimately show ?thesis using f y(3-5)
      by (intro exI [of _ n] exI [of _ "b\<lparr>rb_data := d, pwrite := (pwrite b + length ys) mod rb_size b\<rparr>"] exI [of _ "[]"] exI [of _ ys]) auto
  next
    case 3
    obtain f where f: "rb_free b = int f" using fr by (metis nonneg_int_cases)
    have "f < rb_size b" "rb_size b < pwrite b + f" using 3 f fr by linarith+
    from readFromFd_wrap [OF pw f this assms(2,3)] obtain n xs ys d where
      x: "rb_readFromFd read1 read2 b = Some (n, b\<lparr>rb_data := d, pwrite := (pwrite b + length (xs @ ys)) mod rb_size b\<rparr>)"
      "circ_put (pwrite b) (xs @ ys) (rb_data b) d" "length (xs @ ys) \<le> f"
      "xs = [] \<or> (\<exists>k. read1 k = Some xs)" "ys = [] \<or> (\<exists>k. read2 k = Some ys)"
      "xs \<noteq> [] \<longrightarrow> n = int (length (xs @ ys))" "xs = [] \<longrightarrow> ys = []" by blast
    have "int (length (xs @ ys)) \<le> rb_free b" using x(3) f by simp
    from circ_rep [OF assms(1) this x(2)] x f show ?thesis
      by (intro exI [of _ n] exI [of _ "b\<lparr>rb_data := d, pwrite := (pwrite b + length (xs @ ys)) mod rb_size b\<rparr>"] exI [of _ xs] exI [of _ ys]) auto
  qed
qed

theorem fd_source_witness:
  "\<exists>n b' ys. rb_readFromFd (\<lambda>n. None) (\<lambda>n. Some (replicate n 8)) (snd (rb_open (rb_new 4))) = Some (n, b') \<and>
     rb_rep b' (map (map_option (\<lambda>q. q @ ys)) ((replicate FD_SETSIZE None)[0 := Some []]))"
proof -
  have "free_slot (replicate FD_SETSIZE (None :: byte list option)) 0 = Some 0"
    by (simp add: FD_SETSIZE_def replicate_Suc [of 1023, simplified])
  with open_rep [OF rb_new_rep [of 4]] have "rb_rep (snd (rb_open (rb_new 4))) ((replicate FD_SETSIZE None)[0 := Some []])" by auto
  note w = fd_source [OF this, of "\<lambda>n. None" "\<lambda>n. Some (replicate n 8)"]
  show ?thesis by (use w in \<open>simp (no_asm_use)\<close>) blast
qed

lemma write_rest_pending:
  assumes "pending b p q" and "p + length q \<le> rb_size b" and "\<forall>xs. sys_write xs \<le> int (length xs)"
  shows "\<exists>m. write_rest sys_write i (length q) k out p b =
      Some (k + int m, out @ take m q, if m = 0 then b else set_pread i ((p + m) mod rb_size b) b) \<and> m \<le> length q \<and>
      (sys_write q = int (length q) \<longrightarrow> m = length q)"
proof -
  have sl: "slice (rb_data b) p (length q) = Some q"
    using pending_slice [OF assms(1), of 0 "length q" p] assms(1,2) by (simp add: pending_def)
  have le: "nat (sys_write q) \<le> length q" using assms(3) by (simp add: nat_le_iff)
  show ?thesis
    using sl le by (intro exI [of _ "nat (sys_write q)"]) (auto simp: write_rest_def Let_def)
qed

lemma writeToFd_pending:
  assumes "reader_at b i = Some p" and "pending b p q"
    and "\<forall>xs. write1 xs \<le> int (length xs)" and "\<forall>xs. write2 xs \<le> int (length xs)"
  shows "\<exists>n m. rb_writeToFd write1 write2 i b =
      Some (n, take m q, if m = 0 then b else set_pread i ((p + m) mod rb_size b) b) \<and> m \<le> length q \<and>
      (m \<noteq> 0 \<longrightarrow> n = int m) \<and> (m = 0 \<longrightarrow> n \<le> 0) \<and>
      ((\<forall>xs. write1 xs = int (length xs)) \<and> (\<forall>xs. write2 xs = int (length xs)) \<longrightarrow> m = length q)"
proof -
  have av: "avail_from b p = int (length q)" using assms(2) by (rule avail_pending)
  have p: "p < rb_size b" "length q < rb_size b" using assms(2) by (auto simp: pending_def)
  let ?k = "rb_size b - p"
  consider "q = []" | "q \<noteq> []" "p + length q \<le> rb_size b" | "q \<noteq> []" "p + length q > rb_size b" by linarith
  then show ?thesis
  proof cases
    case 1
    then have "rb_writeToFd write1 write2 i b = Some (0, [], b)" using assms(1) av by (simp add: rb_writeToFd_def Let_def)
    with 1 show ?thesis by (intro exI [of _ 0]) simp
  next
    case 2
    obtain m where m: "write_rest write2 i (length q) 0 [] p b =
        Some (0 + int m, [] @ take m q, if m = 0 then b else set_pread i ((p + m) mod rb_size b) b)" "m \<le> length q"
        "write2 q = int (length q) \<longrightarrow> m = length q"
      using write_rest_pending [OF assms(2) 2(2) assms(4), of i 0 "[]"] by blast
    have "rb_writeToFd write1 write2 i b = write_rest write2 i (length q) 0 [] p b"
      using 2 assms(1) av by (simp add: rb_writeToFd_def Let_def)
    with m show ?thesis by (intro exI [of _ "int m"] exI [of _ m]) simp
  next
    case 3
    then have k: "0 < ?k" "?k < length q" "nat (int (rb_size b) - int p) = ?k" using p by auto
    have sl: "slice (rb_data b) p ?k = Some (take ?k q)" using pending_slice [OF assms(2), of 0 ?k p] k p by simp
    define w where "w = write1 (take ?k q)"
    have w: "w \<le> int ?k" using assms(3) [rule_format, of "take ?k q"] k unfolding w_def by simp
    have split: "rb_writeToFd write1 write2 i b =
        (if w \<le> 0 then Some (w, [], b)
         else if int ?k > w then Some (w, take (nat w) (take ?k q), set_pread i ((p + nat w) mod rb_size b) b)
         else write_rest write2 i (nat (int (length q) - w)) w (take (nat w) (take ?k q)) ((p + nat w) mod rb_size b)
           (set_pread i ((p + nat w) mod rb_size b) b))"
      using 3 assms(1) av sl k p by (simp add: rb_writeToFd_def Let_def w_def)
    show ?thesis
    proof (cases "w < int ?k")
      case True
      have "nat w \<le> ?k" "write1 (take ?k q) \<noteq> int (length (take ?k q))" using True k by (auto simp: w_def)
      with True split k show ?thesis
        by (intro exI [of _ w] exI [of _ "nat w"]) (auto simp: min_def)
    next
      case False
      then have wk: "w = int ?k" "nat w = ?k" "nat (int (length q) - w) = length (drop ?k q)" using w k by auto
      let ?b = "set_pread i 0 b"
      have z: "(p + ?k) mod rb_size b = 0" using p by simp
      have pd: "pending ?b 0 (drop ?k q)"
        using pending_drop [OF assms(2), of ?k] k z pending_cong [of ?b b] by simp
      have "0 + length (drop ?k q) \<le> rb_size ?b" using p by simp
      from write_rest_pending [OF pd this assms(4), of i w "take ?k q"] obtain m where
        m: "write_rest write2 i (length (drop ?k q)) w (take ?k q) 0 ?b =
          Some (w + int m, take ?k q @ take m (drop ?k q), if m = 0 then ?b else set_pread i ((0 + m) mod rb_size ?b) ?b)"
        "m \<le> length (drop ?k q)" "write2 (drop ?k q) = int (length (drop ?k q)) \<longrightarrow> m = length (drop ?k q)" by blast
      have pos: "(if m = 0 then ?b else set_pread i ((0 + m) mod rb_size ?b) ?b) = set_pread i ((p + (?k + m)) mod rb_size b) b"
        using z p by (simp add: set_pread_def add.assoc [symmetric] le_mod_geq)
      have "rb_writeToFd write1 write2 i b = Some (w + int m, take (?k + m) q, set_pread i ((p + (?k + m)) mod rb_size b) b)"
        unfolding split take_add using wk k z m(1) pos by simp
      with k m(2,3) wk show ?thesis by (intro exI [of _ "w + int m"] exI [of _ "?k + m"]) auto
    qed
  qed
qed

text \<open>
  \<open>readAndWriteToFd\<close> hands a prefix of the unread bytes of the reader to the two calls of \<open>write\<close> and leaves the
  rest; when the calls take what they are offered, all of them.
\<close>

theorem fd_drain:
  assumes "rb_rep b Q" and "queue_at Q i = Some q"
    and "\<forall>xs. write1 xs \<le> int (length xs)" and "\<forall>xs. write2 xs \<le> int (length xs)"
  shows "\<exists>n m b'. rb_writeToFd write1 write2 i b = Some (n, take m q, b') \<and> m \<le> length q \<and>
    rb_rep b' (Q[i := Some (drop m q)]) \<and> (m \<noteq> 0 \<longrightarrow> n = int m) \<and> (m = 0 \<longrightarrow> n \<le> 0) \<and>
    ((\<forall>xs. write1 xs = int (length xs)) \<and> (\<forall>xs. write2 xs = int (length xs)) \<longrightarrow> m = length q)"
proof -
  have i: "i < length Q" "Q ! i = Some q" using assms(2) by (auto simp: queue_at_Some)
  obtain p where p: "pread b ! i = Some p" "pending b p q" using rep_at [OF assms(1) i(1)] i(2) by (auto simp: option_rel_Some2)
  have at: "reader_at b i = Some p" using p(1) i(1) rb_repD(3) [OF assms(1)] by (simp add: reader_at_def)
  from writeToFd_pending [OF at p(2) assms(3,4)] moved_rep [OF assms(1) i p] show ?thesis by blast
qed

theorem fd_drain_witness:
  "\<exists>b'. rb_writeToFd (\<lambda>xs. int (length xs)) (\<lambda>xs. int (length xs)) 0
      \<lparr>rb_data = [3, 0, 1, 2], pwrite = 1, readd_cnt = 1, pread = [Some 2]\<rparr> = Some (3, [1, 2, 3], b') \<and> rb_rep b' [Some []]"
proof -
  have "\<forall>k < 3. [3, 0, 1, 2 :: byte] ! ((2 + k) mod 4) = [1, 2, 3] ! k" by code_simp
  then have "rb_rep \<lparr>rb_data = [3, 0, 1, 2], pwrite = 1, readd_cnt = 1, pread = [Some 2]\<rparr> [Some [1, 2, 3]]"
    by (simp add: rb_rep_def pending_def)
  from fd_drain [OF this, of 0 "[1, 2, 3]" "\<lambda>xs. int (length xs)" "\<lambda>xs. int (length xs)"]
  show ?thesis unfolding queue_at_def by simp
qed

text \<open>
  Outside this contract the buffer breaks. A write of more than the free bytes answers the number of the
  free ones and copies all: eight bytes into an empty buffer of eight leave it empty for its reader, and
  with two bytes more the copy leaves the memory. A packet is written with a length that counts the
  header, and read back with two bytes more than were written. A read of more than the unread bytes copies
  stale ones and moves the reader past the writer. Without a reader the position of the writer does not wrap
  around, and the buffer fills up for good.
\<close>

theorem ring_defects:
  "map_option (\<lambda>(n, b). (n, rb_isEmpty b 0)) (rb_write [1, 2, 3, 4, 5, 6, 7, 8] False \<lparr>rb_data = replicate 8 0, pwrite = 0, readd_cnt = 1, pread = [Some 0]\<rparr>) =
     Some (7, Some True) \<and>
   rb_write [1, 2, 3, 4, 5, 6, 7, 8, 9, 10] False \<lparr>rb_data = replicate 8 0, pwrite = 0, readd_cnt = 1, pread = [Some 0]\<rparr> = None \<and>
   map_option (\<lambda>(n, xs, b). (n, xs, rb_avail b 0))
     (Option.bind (rb_write [1, 2, 3] True \<lparr>rb_data = replicate 16 0, pwrite = 0, readd_cnt = 1, pread = [Some 0]\<rparr>) (\<lambda>(n, b). rb_read 0 (-1) b)) =
     Some (3, [1, 2, 3, 0, 0], Some 14) \<and>
   map_option (\<lambda>(n, xs, b). (n, xs, rb_avail b 0)) (rb_read 0 4 \<lparr>rb_data = [1, 2, 3, 4, 5, 6, 7, 8], pwrite = 2, readd_cnt = 1, pread = [Some 0]\<rparr>) =
     Some (2, [1, 2, 3, 4], Some 6) \<and>
   rb_write [1] False \<lparr>rb_data = replicate 8 0, pwrite = 7, readd_cnt = 0, pread = [None]\<rparr> =
     Some (0, \<lparr>rb_data = replicate 8 0, pwrite = 7, readd_cnt = 0, pread = [None]\<rparr>)"
  by code_simp

end
