(* ===== verification/Cache.thy ===== *)
theory Cache
  imports Hash Vector Simulation
begin

text \<open>
  The cache of \<open>src/ulib/cache.cpp\<close> and \<open>include/ulib/cache.h\<close>: a file mapped into memory with a hash table
  whose chains are linked by the exclusive or of the positions of their neighbours, and two runs of entries,
  written one after the other and evicted in the same order.

  The memory behind the header is a list of bytes; numbers of 32 bits lie in it with their low byte first, at
  any position, and an access outside is \<open>None\<close>. The fields of the header and of the entries are words of 32
  bits. The seconds since the start of the cache (\<open>getTime\<close>)
  are an argument. The exit of the process on an exhausted cache is the value \<open>Some None\<close>. Opening and mapping
  the file is left to the operating system: a new file is mapped as zeros.
\<close>

section \<open>Numbers in memory\<close>

definition get32 :: "mem \<Rightarrow> nat \<Rightarrow> u32 option" where
  "get32 m p = (case slice m p 4 of Some [a, b, c, d] \<Rightarrow> Some (uint_of_chars a b c d) | _ \<Rightarrow> None)"

definition put32 :: "mem \<Rightarrow> nat \<Rightarrow> u32 \<Rightarrow> mem option" where
  "put32 m p v = blit m p [char_of_uint v 0, char_of_uint v 1, char_of_uint v 2, char_of_uint v 3]"

section \<open>State\<close>

record cache =
  cx :: mem
  csize :: u32
  hsize :: u32
  writer :: u32
  oldest :: u32
  unused :: u32
  cttl :: u32

definition INFO_SIZE :: nat where "INFO_SIZE = 20"
definition ENTRY_SIZE :: nat where "ENTRY_SIZE = 16"
definition U_NO_TTL :: u32 where "U_NO_TTL = -1"

function hsize_loop :: "nat \<Rightarrow> nat \<Rightarrow> nat" where
  "hsize_loop n h = (if 0 < h \<and> h \<le> n then hsize_loop n (2 * h) else h)"
  by auto
termination by (relation "measure (\<lambda>(n, h). Suc n - h)") auto

declare hsize_loop.simps [simp del]

definition getHSize :: "nat \<Rightarrow> nat" where
  "getHSize sz = hsize_loop (sz div ENTRY_SIZE) 4"

text \<open>A new cache in a file of \<open>sz\<close> bytes, asserted to be from 100 to $10^9$.\<close>

definition cache_init :: "nat \<Rightarrow> cache" where
  "cache_init sz =
     (let n = sz - INFO_SIZE; h = word_of_nat (getHSize n)
      in \<lparr>cx = replicate n 0, csize = word_of_nat n, hsize = h, writer = h, oldest = word_of_nat n,
          unused = word_of_nat n, cttl = 0\<rparr>)"

text \<open>The product is taken in the width of \<open>sizeof\<close>; reducing it to 32 bits first does not change the rest modulo a power of two.\<close>

definition cache_hash :: "u32 \<Rightarrow> byte list \<Rightarrow> u32" where
  "cache_hash hs key = u_cdb_hash key False * 4 mod hs"

section \<open>Adding an entry\<close>

text \<open>\<open>replace\<close>: a position is taken out of a link, or put into it.\<close>

definition replace_link :: "u32 \<Rightarrow> u32 \<Rightarrow> mem \<Rightarrow> mem option" where
  "replace_link pos value x = do { v \<leftarrow> get32 x (unat pos); put32 x (unat pos) (value XOR v) }"

text \<open>One round of the loop of \<open>add\<close>: the oldest entry, the last of its chain, is given up.\<close>

definition evict :: "cache \<Rightarrow> cache option" where
  "evict c = do {
     pos \<leftarrow> get32 (cx c) (unat (oldest c));
     x \<leftarrow> replace_link pos (oldest c) (cx c);
     kl \<leftarrow> get32 x (unat (oldest c) + 4);
     dl \<leftarrow> get32 x (unat (oldest c) + 8);
     let old = oldest c + (word_of_nat ENTRY_SIZE + kl + dl);
     Some (if old = unused c then c\<lparr>cx := x, oldest := csize c, unused := csize c\<rparr> else c\<lparr>cx := x, oldest := old\<rparr>)
   }"

definition wrap_round :: "cache \<Rightarrow> cache" where
  "wrap_round c = c\<lparr>unused := writer c, oldest := hsize c, writer := hsize c\<rparr>"

partial_function (option) make_room :: "u32 \<Rightarrow> cache \<Rightarrow> cache option option" where
  "make_room entrylen c =
     (if writer c + entrylen > oldest c then
        if oldest c = unused c \<and> writer c \<le> hsize c then Some None
        else Option.bind (evict (if oldest c = unused c then wrap_round c else c)) (make_room entrylen)
      else Some (Some c))"

declare make_room.simps [code]

text \<open>The entry is linked in behind the head of its chain, and its fields are set.\<close>

definition link_entry :: "byte list \<Rightarrow> u32 \<Rightarrow> u32 \<Rightarrow> u32 \<Rightarrow> cache \<Rightarrow> cache option" where
  "link_entry key datalen ttl now c = do {
     let index = cache_hash (hsize c) key;
     let w = writer c;
     pos \<leftarrow> get32 (cx c) (unat index);
     x \<leftarrow> put32 (cx c) (unat index) w;
     x \<leftarrow> (if pos \<noteq> 0 then replace_link pos (index XOR w) x else Some x);
     let expire = (if ttl \<noteq> 0 then now + ttl else U_NO_TTL);
     x \<leftarrow> put32 x (unat w) (pos XOR index);
     x \<leftarrow> put32 x (unat w + 4) (word_of_nat (length key));
     x \<leftarrow> put32 x (unat w + 8) datalen;
     x \<leftarrow> put32 x (unat w + 12) expire;
     Some (c\<lparr>cx := x\<rparr>)
   }"

definition cache_add :: "byte list \<Rightarrow> byte list \<Rightarrow> u32 \<Rightarrow> u32 \<Rightarrow> cache \<Rightarrow> cache option option" where
  "cache_add key data ttl now c = do {
     let entrylen = word_of_nat (ENTRY_SIZE + length key + length data);
     r \<leftarrow> make_room entrylen c;
     (case r of
        None \<Rightarrow> Some None
      | Some c \<Rightarrow> do {
          c \<leftarrow> link_entry key (word_of_nat (length data)) ttl now c;
          let p = unat (writer c) + ENTRY_SIZE;
          x \<leftarrow> blit (cx c) p key;
          x \<leftarrow> blit x (p + length key) data;
          Some (Some (c\<lparr>cx := x, writer := writer c + entrylen\<rparr>))
        })
   }"

definition cache_addContent :: "byte list \<Rightarrow> byte list \<Rightarrow> u32 \<Rightarrow> u32 \<Rightarrow> cache \<Rightarrow> cache option option" where
  "cache_addContent key content ttl now c = cache_add key (content @ [NUL]) ttl now c"

section \<open>Looking up\<close>

definition key_at :: "byte list \<Rightarrow> u32 \<Rightarrow> nat \<Rightarrow> mem \<Rightarrow> bool option" where
  "key_at key time_expire pos x =
     (if time_expire = 0 then Some False
      else do {
        kl \<leftarrow> get32 x (pos + 4);
        if kl = word_of_nat (length key)
        then map_option (\<lambda>k. k = key) (slice x (pos + ENTRY_SIZE) (length key)) else Some False
      })"

text \<open>
  The loop of \<open>get\<close>; \<open>left\<close> counts down the hundred steps that protect it from a flooded table. It answers the data
  found, or \<open>None\<close>, and the cache, in which an entry that is found expired is marked.
\<close>

fun get_loop :: "byte list \<Rightarrow> u32 \<Rightarrow> nat \<Rightarrow> u32 \<Rightarrow> u32 \<Rightarrow> cache \<Rightarrow> (byte list option \<times> cache) option" where
  "get_loop key now left prevpos pos c =
     (if pos = 0 then Some (None, c)
      else do {
        time_expire \<leftarrow> get32 (cx c) (unat pos + 12);
        hit \<leftarrow> key_at key time_expire (unat pos) (cx c);
        if hit then
          if time_expire \<noteq> U_NO_TTL \<and> now \<ge> time_expire
          then map_option (\<lambda>x. (None, c\<lparr>cx := x\<rparr>)) (put32 (cx c) (unat pos + 12) 0)
          else do {
            dl \<leftarrow> get32 (cx c) (unat pos + 8);
            d \<leftarrow> slice (cx c) (unat pos + ENTRY_SIZE + length key) (unat dl);
            Some (Some d, c\<lparr>cttl := time_expire\<rparr>)
          }
        else (case left of
            0 \<Rightarrow> Some (None, c)
          | Suc left \<Rightarrow> do { l \<leftarrow> get32 (cx c) (unat pos); get_loop key now left pos (prevpos XOR l) c })
      })"

declare get_loop.simps [simp del]

definition cache_get :: "byte list \<Rightarrow> u32 \<Rightarrow> cache \<Rightarrow> (byte list option \<times> cache) option" where
  "cache_get key now c = do {
     let index = cache_hash (hsize c) key;
     pos \<leftarrow> get32 (cx c) (unat index);
     get_loop key now 100 index pos c
   }"

text \<open>\<open>getContent\<close> asserts that there is an entry, and drops the terminator \<open>addContent\<close> wrote.\<close>

definition cache_getContent :: "byte list \<Rightarrow> u32 \<Rightarrow> cache \<Rightarrow> (byte list \<times> cache) option" where
  "cache_getContent key now c = do {
     (r, c) \<leftarrow> cache_get key now c;
     content \<leftarrow> r;
     Some (butlast content, c)
   }"

section \<open>Loading directories\<close>

text \<open>The base names of the files of a directory with their contents; empty files are left out.\<close>

fun load_items :: "(byte list \<times> byte list) list \<Rightarrow> u32 \<Rightarrow> cache \<Rightarrow> cache option option" where
  "load_items [] now c = Some (Some c)"
| "load_items ((item, content) # items) now c =
     (if content = [] then load_items items now c
      else Option.bind (cache_addContent item content 0 now c)
        (\<lambda>r. case r of None \<Rightarrow> Some None | Some c \<Rightarrow> load_items items now c))"

definition loadContentOf :: "bool \<Rightarrow> (byte list \<times> byte list) list \<Rightarrow> u32 \<Rightarrow> cache \<Rightarrow> cache option option" where
  "loadContentOf truncated items now c =
     map_option (map_option (\<lambda>c.
       if writer c < csize c \<and> truncated
       then c\<lparr>cx := take (unat (writer c)) (cx c), csize := writer c, oldest := writer c, unused := writer c\<rparr>
       else c)) (load_items items now c)"

fun items_size :: "(byte list \<times> byte list) list \<Rightarrow> nat" where
  "items_size [] = 0"
| "items_size ((item, content) # items) =
     (if content = [] then 0 else ENTRY_SIZE + length item + length content + 1) + items_size items"

text \<open>
  \<open>open\<close> with a directory: the cache is made just large enough. The contents that are not empty are collected in a
  vector of their own, and then added under the names at the same indices of the vector of all the names.
\<close>

definition open_template :: "(byte list \<times> byte list) list \<Rightarrow> u32 \<Rightarrow> cache option option" where
  "open_template items now =
     (let sz = items_size items + INFO_SIZE;
          h = getHSize sz;
          h = getHSize (sz + h)
      in load_items (zip (map fst items) (filter (\<lambda>content. content \<noteq> []) (map snd items))) now (cache_init (sz + h)))"

section \<open>Reads after writes\<close>

lemma blit_length: "blit m p xs = Some m' \<Longrightarrow> length m' = length m"
  by (auto simp: blit_def split: if_splits)

lemma blit_Some: "p + length xs \<le> length m \<Longrightarrow> \<exists>m'. blit m p xs = Some m'"
  by (simp add: blit_def)

lemma slice_blit_same: "blit m p xs = Some m' \<Longrightarrow> n = length xs \<Longrightarrow> slice m' p n = Some xs"
  by (auto simp: blit_def slice_def split: if_splits)

lemma slice_blit_other:
  assumes "blit m p xs = Some m'" and "q + n \<le> p \<or> p + length xs \<le> q"
  shows "slice m' q n = slice m q n"
proof -
  have m': "m' = take p m @ xs @ drop (p + length xs) m" "p + length xs \<le> length m"
    using assms(1) by (auto simp: blit_def split: if_splits)
  have "take n (drop q m') = take n (drop q m)"
    using assms(2)
  proof
    assume "q + n \<le> p"
    then show ?thesis using m' by (simp add: take_drop)
  next
    assume "p + length xs \<le> q"
    then show ?thesis using m' by (simp add: drop_append)
  qed
  then show ?thesis using blit_length [OF assms(1)] by (simp add: slice_def)
qed

lemma put32_length: "put32 m p v = Some m' \<Longrightarrow> length m' = length m"
  by (auto simp: put32_def dest: blit_length)

lemma put32_Some: "p + 4 \<le> length m \<Longrightarrow> \<exists>m'. put32 m p v = Some m'"
  by (simp add: put32_def blit_Some)

lemma get32_bound: "get32 m p = Some v \<Longrightarrow> p + 4 \<le> length m"
  by (auto simp: get32_def slice_def split: if_splits)

lemma char_uint: "uint_of_chars (char_of_uint v 0) (char_of_uint v 1) (char_of_uint v 2) (char_of_uint v 3) = v"
  by (rule char_of_uint_ext) simp_all

lemma get32_same: "put32 m p v = Some m' \<Longrightarrow> get32 m' p = Some v"
  using slice_blit_same [of m p "[char_of_uint v 0, char_of_uint v 1, char_of_uint v 2, char_of_uint v 3]" m' 4]
  by (simp add: put32_def get32_def char_uint [simplified])

lemma get32_blit_other: "blit m p xs = Some m' \<Longrightarrow> q + 4 \<le> p \<or> p + length xs \<le> q \<Longrightarrow> get32 m' q = get32 m q"
  by (simp add: get32_def slice_blit_other)

lemma get32_other: "put32 m p v = Some m' \<Longrightarrow> q + 4 \<le> p \<or> p + 4 \<le> q \<Longrightarrow> get32 m' q = get32 m q"
  using get32_blit_other [of m p _ m' q] by (fastforce simp: put32_def)

lemma slice_put32_other: "put32 m p v = Some m' \<Longrightarrow> q + n \<le> p \<or> p + 4 \<le> q \<Longrightarrow> slice m' q n = slice m q n"
  using slice_blit_other [of m p _ m' q n] by (fastforce simp: put32_def)

lemma xor_cancel [simp]:
  "(a XOR b) XOR b = (a :: u32)" "a XOR (a XOR b) = b" "a XOR (b XOR a) = b" "(a XOR b) XOR a = b"
  by (simp_all add: xor.assoc xor.left_commute xor.commute)

section \<open>Chains\<close>

definition next_pos :: "nat list \<Rightarrow> nat" where
  "next_pos ps = (case ps of [] \<Rightarrow> 0 | p # _ \<Rightarrow> p)"

lemma next_pos_simps [simp]: "next_pos [] = 0" "next_pos (p # ps) = p"
  by (simp_all add: next_pos_def)

fun xlist :: "mem \<Rightarrow> nat \<Rightarrow> nat list \<Rightarrow> bool" where
  "xlist m prev [] = True"
| "xlist m prev (p # ps) =
     (get32 m p = Some (word_of_nat prev XOR word_of_nat (next_pos ps)) \<and> xlist m p ps)"

definition apart :: "nat \<Rightarrow> nat \<Rightarrow> bool" where
  "apart p q \<longleftrightarrow> p + 4 \<le> q \<or> q + 4 \<le> p"

lemma xlist_frame:
  assumes "xlist m prev ps" and "\<forall>p \<in> set ps. get32 m' p = get32 m p"
  shows "xlist m' prev ps"
  using assms by (induction m prev ps rule: xlist.induct) auto

lemma xlist_put:
  assumes "xlist m prev ps" and "put32 m q v = Some m'" and "\<forall>p \<in> set ps. apart p q"
  shows "xlist m' prev ps"
  using assms(1) by (rule xlist_frame) (use assms(2,3) in \<open>auto simp: apart_def intro: get32_other\<close>)

text \<open>A position is linked in behind the head.\<close>

lemma word_of_nat_pos: "0 < p \<Longrightarrow> p < 2 ^ 32 \<Longrightarrow> (word_of_nat p :: u32) \<noteq> 0 \<and> unat (word_of_nat p :: u32) = p"
  by (simp add: word_of_nat_eq_0_iff unat_of_nat nat_dvd_not_less)

lemma xlist_insert:
  assumes "xlist m 0 (h # ps)" and "\<forall>p \<in> set ps. 0 < p \<and> p < 2 ^ 32 \<and> apart p h \<and> apart p w" and "apart h w"
    and "distinct ps" and "\<forall>p \<in> set ps. \<forall>q \<in> set ps. p \<noteq> q \<longrightarrow> apart p q"
    and "w + 4 \<le> length m" and "pos = word_of_nat (next_pos ps)"
  shows "\<exists>m1 m2 m3. put32 m h (word_of_nat w) = Some m1 \<and>
    (if pos \<noteq> 0 then replace_link pos (word_of_nat h XOR word_of_nat w) m1 else Some m1) = Some m2 \<and>
    put32 m2 w (pos XOR word_of_nat h) = Some m3 \<and> xlist m3 0 (h # w # ps) \<and> length m3 = length m \<and>
    (\<forall>q n. (\<forall>r \<in> set (h # w # ps). q + n \<le> r \<or> r + 4 \<le> q) \<longrightarrow> slice m3 q n = slice m q n)"
proof -
  have h: "get32 m h = Some pos" using assms(1,7) by simp
  obtain m1 where m1: "put32 m h (word_of_nat w) = Some m1" using put32_Some get32_bound [OF h] by blast
  show ?thesis
  proof (cases ps)
    case Nil
    then have pos: "pos = 0" using assms(7) by simp
    obtain m3 where m3: "put32 m1 w (pos XOR word_of_nat h) = Some m3"
      using put32_Some [of w m1] put32_length [OF m1] assms(6) by auto
    have "get32 m3 h = Some (word_of_nat w)"
      using get32_other [OF m3, of h] get32_same [OF m1] assms(3) by (auto simp: apart_def)
    then have "xlist m3 0 (h # w # ps)" using get32_same [OF m3] Nil pos by simp
    moreover have "\<forall>q n. (\<forall>r \<in> set (h # w # ps). q + n \<le> r \<or> r + 4 \<le> q) \<longrightarrow> slice m3 q n = slice m q n"
      using slice_put32_other [OF m1] slice_put32_other [OF m3] by simp
    ultimately show ?thesis using m1 m3 pos put32_length [OF m1] put32_length [OF m3] by auto
  next
    case (Cons p rest)
    have p: "0 < p" "p < 2 ^ 32" "apart p h" "apart p w" using assms(2) Cons by auto
    have pos: "pos \<noteq> 0" "unat pos = p" using word_of_nat_pos [OF p(1,2)] assms(7) Cons by auto
    have old: "get32 m p = Some (word_of_nat h XOR word_of_nat (next_pos rest))" "xlist m p rest"
      using assms(1) Cons by auto
    have p1: "get32 m1 p = Some (word_of_nat h XOR word_of_nat (next_pos rest))"
      using get32_other [OF m1, of p] p(3) old(1) by (auto simp: apart_def)
    let ?v = "(word_of_nat h XOR word_of_nat w) XOR (word_of_nat h XOR word_of_nat (next_pos rest)) :: u32"
    obtain m2 where m2: "put32 m1 p ?v = Some m2" using put32_Some get32_bound [OF p1] by blast
    have r: "replace_link pos (word_of_nat h XOR word_of_nat w) m1 = Some m2"
      using p1 m2 pos(2) by (simp add: replace_link_def)
    obtain m3 where m3: "put32 m2 w (pos XOR word_of_nat h) = Some m3"
      using put32_Some [of w m2] put32_length [OF m1] put32_length [OF m2] assms(6) by auto
    have v: "?v = word_of_nat w XOR word_of_nat (next_pos rest)"
      by (simp add: xor.assoc xor.left_commute)
    have "get32 m3 h = Some (word_of_nat w)"
      using get32_other [OF m3, of h] get32_other [OF m2, of h] get32_same [OF m1] assms(3) p(3) by (auto simp: apart_def)
    moreover have "get32 m3 p = Some (word_of_nat w XOR word_of_nat (next_pos rest))"
      using get32_other [OF m3, of p] get32_same [OF m2] v p(4) by (auto simp: apart_def)
    moreover have "get32 m3 w = Some (word_of_nat h XOR word_of_nat p)"
      using get32_same [OF m3] assms(7) Cons by (simp add: xor.commute)
    moreover have "xlist m3 p rest"
    proof -
      have "apart q h" "apart q p" "apart q w" if "q \<in> set rest" for q
        using that assms(2,4,5) Cons by auto
      then have "\<forall>q \<in> set rest. apart q h" "\<forall>q \<in> set rest. apart q p" "\<forall>q \<in> set rest. apart q w" by auto
      then show ?thesis using xlist_put [OF xlist_put [OF xlist_put [OF old(2) m1] m2] m3] by blast
    qed
    ultimately have "xlist m3 0 (h # w # ps)" using Cons by simp
    moreover have "\<forall>q n. (\<forall>r \<in> set (h # w # ps). q + n \<le> r \<or> r + 4 \<le> q) \<longrightarrow> slice m3 q n = slice m q n"
      using slice_put32_other [OF m1] slice_put32_other [OF m2] slice_put32_other [OF m3] Cons by simp
    ultimately show ?thesis using m1 r m3 pos put32_length [OF m1] put32_length [OF m2] put32_length [OF m3] by auto
  qed
qed

text \<open>The last position is taken out: its link is the position before it.\<close>

lemma xlist_remove:
  assumes "xlist m prev (qs @ [q, t])" and "\<forall>p \<in> set (q # qs). p < 2 ^ 32" and "distinct (qs @ [q])"
    and "\<forall>x \<in> set qs. \<forall>y \<in> {q}. x \<noteq> y \<longrightarrow> apart x y"
  shows "get32 m t = Some (word_of_nat q) \<and>
    (\<exists>m'. replace_link (word_of_nat q) (word_of_nat t) m = Some m' \<and> put32 m q (word_of_nat (case qs of [] \<Rightarrow> prev | _ \<Rightarrow> last qs)) = Some m' \<and>
      xlist m' prev (qs @ [q]))"
  using assms
proof (induction qs arbitrary: prev)
  case Nil
  then have t: "get32 m t = Some (word_of_nat q)" and q: "get32 m q = Some (word_of_nat prev XOR word_of_nat t)" by auto
  obtain m' where m': "put32 m q (word_of_nat prev) = Some m'" using put32_Some get32_bound [OF q] by blast
  have "unat (word_of_nat q :: u32) = q" using Nil.prems(2) by (simp add: unat_of_nat)
  then have "replace_link (word_of_nat q) (word_of_nat t) m = Some m'" using q m' by (simp add: replace_link_def)
  with t m' get32_same [OF m'] show ?case by simp
next
  case (Cons p qs)
  from Cons.prems(1) have tl: "xlist m p (qs @ [q, t])" and
    p: "get32 m p = Some (word_of_nat prev XOR word_of_nat (next_pos (qs @ [q, t])))" by auto
  from Cons.IH [OF tl] Cons.prems(2-4) obtain m' where
    m': "replace_link (word_of_nat q) (word_of_nat t) m = Some m'"
    "put32 m q (word_of_nat (case qs of [] \<Rightarrow> p | _ \<Rightarrow> last qs)) = Some m'" "xlist m' p (qs @ [q])"
    and t: "get32 m t = Some (word_of_nat q)" by auto
  have "apart p q" using Cons.prems(3,4) by auto
  then have "get32 m' p = get32 m p" using get32_other [OF m'(2), of p] by (auto simp: apart_def)
  moreover have "next_pos (qs @ [q, t]) = next_pos (qs @ [q])" by (cases qs) simp_all
  ultimately have "xlist m' prev ((p # qs) @ [q])" using p m'(3) by simp
  moreover have "(case qs of [] \<Rightarrow> p | _ \<Rightarrow> last qs) = last (p # qs)" by (cases qs) simp_all
  ultimately show ?case using t m'(1,2) by simp
qed

section \<open>Layout\<close>

text \<open>An entry is its key, its data and its time of expiry.\<close>

type_synonym entry = "byte list \<times> byte list \<times> u32"

fun elen :: "entry \<Rightarrow> nat" where
  "elen (k, d, e) = ENTRY_SIZE + length k + length d"

lemma elen_ge: "16 \<le> elen x"
  by (cases x) (simp add: ENTRY_SIZE_def)

fun poss :: "nat \<Rightarrow> entry list \<Rightarrow> (nat \<times> entry) list" where
  "poss a [] = []"
| "poss a (x # xs) = (a, x) # poss (a + elen x) xs"

definition total :: "entry list \<Rightarrow> nat" where
  "total xs = sum_list (map elen xs)"

lemma total_simps [simp]: "total [] = 0" "total (x # xs) = elen x + total xs" "total (xs @ ys) = total xs + total ys"
  by (simp_all add: total_def)

lemma total_0: "total xs = 0 \<longleftrightarrow> xs = []"
proof (cases xs)
  case (Cons x ys)
  then show ?thesis using elen_ge [of x] by simp
qed simp

lemma poss_append: "poss a (xs @ ys) = poss a xs @ poss (a + total xs) ys"
  by (induction xs arbitrary: a) (simp_all add: add.assoc)

lemma map_snd_poss [simp]: "map snd (poss a xs) = xs"
  by (induction xs arbitrary: a) simp_all

lemma poss_range: "(p, x) \<in> set (poss a xs) \<Longrightarrow> a \<le> p \<and> p + elen x \<le> a + total xs"
proof (induction xs arbitrary: a)
  case (Cons y xs)
  then show ?case by fastforce
qed simp

lemma poss_sep: "(p, x) \<in> set (poss a xs) \<Longrightarrow> (q, y) \<in> set (poss a xs) \<Longrightarrow> (p, x) = (q, y) \<or> p + elen x \<le> q \<or> q + elen y \<le> p"
proof (induction xs arbitrary: a)
  case (Cons z xs)
  then show ?case using poss_range [of p x "a + elen z" xs] poss_range [of q y "a + elen z" xs] by auto
qed simp

lemma poss_distinct: "distinct (map fst (poss a xs))"
proof (induction xs arbitrary: a)
  case (Cons y xs)
  have "a \<notin> fst ` set (poss (a + elen y) xs)" using poss_range [of a _ "a + elen y" xs] elen_ge [of y] by fastforce
  then show ?case using Cons by simp
qed simp

definition entry_at :: "mem \<Rightarrow> nat \<Rightarrow> entry \<Rightarrow> bool" where
  "entry_at m p x = (case x of (k, d, e) \<Rightarrow>
     get32 m (p + 4) = Some (word_of_nat (length k)) \<and> get32 m (p + 8) = Some (word_of_nat (length d)) \<and>
     get32 m (p + 12) = Some e \<and> slice m (p + ENTRY_SIZE) (length k) = Some k \<and>
     slice m (p + ENTRY_SIZE + length k) (length d) = Some d)"

lemma entry_at_frame:
  assumes "entry_at m p x" and "blit m q bs = Some m'" and "q + length bs \<le> p + 4 \<or> p + elen x \<le> q"
  shows "entry_at m' p x"
  using assms get32_blit_other [OF assms(2)] slice_blit_other [OF assms(2)]
  by (auto simp: entry_at_def ENTRY_SIZE_def)

lemma entry_at_put:
  assumes "entry_at m p x" and "put32 m q v = Some m'" and "q \<le> p \<or> p + elen x \<le> q"
  shows "entry_at m' p x"
  using entry_at_frame [OF assms(1) assms(2) [unfolded put32_def]] assms(3) by auto

text \<open>The entries with their positions, the newest first, and the chain of a head.\<close>

definition items :: "cache \<Rightarrow> entry list \<Rightarrow> entry list \<Rightarrow> (nat \<times> entry) list" where
  "items c new old = rev (poss (unat (hsize c)) new) @ rev (poss (unat (oldest c)) old)"

definition chain :: "u32 \<Rightarrow> nat \<Rightarrow> (nat \<times> entry) list \<Rightarrow> nat list" where
  "chain hs h L = map fst (filter (\<lambda>(p, k, d, e). unat (cache_hash hs k) = h) L)"

definition cache_rep :: "cache \<Rightarrow> entry list \<Rightarrow> entry list \<Rightarrow> bool" where
  "cache_rep c new old \<longleftrightarrow>
     0 < hsize c \<and> 4 dvd unat (hsize c) \<and> unat (hsize c) + total new = unat (writer c) \<and> writer c \<le> oldest c \<and>
     unat (oldest c) + total old = unat (unused c) \<and> unused c \<le> csize c \<and> (old = [] \<longrightarrow> oldest c = csize c) \<and>
     length (cx c) = unat (csize c) \<and> unat (csize c) \<le> 10 ^ 9 \<and>
     (\<forall>(p, x) \<in> set (items c new old). entry_at (cx c) p x) \<and>
     (\<forall>h < unat (hsize c). 4 dvd h \<longrightarrow> xlist (cx c) 0 (h # chain (hsize c) h (items c new old)))"

lemma hash_head:
  assumes "0 < hs" and "4 dvd unat hs"
  shows "unat (cache_hash hs k) < unat hs \<and> 4 dvd unat (cache_hash hs k)"
proof -
  let ?x = "u_cdb_hash k False"
  have "unat (?x * 4) = (unat ?x * 4) mod 2 ^ 32" by (simp add: unat_word_ariths)
  moreover have "(4 :: nat) dvd (unat ?x * 4) mod 2 ^ 32" by (rule dvd_mod) simp_all
  ultimately have "4 dvd unat (?x * 4)" by simp
  moreover have "unat (cache_hash hs k) = unat (?x * 4) mod unat hs" by (simp add: cache_hash_def unat_mod)
  moreover have "0 < unat hs" using assms(1) by (simp add: unat_gt_0)
  ultimately show ?thesis using assms(2) by (simp add: dvd_mod)
qed

lemma items_range:
  assumes "cache_rep c new old" and "(p, x) \<in> set (items c new old)"
  shows "unat (hsize c) \<le> p \<and> p + elen x \<le> unat (writer c) \<or> unat (oldest c) \<le> p \<and> p + elen x \<le> unat (unused c)"
proof -
  have eq: "unat (hsize c) + total new = unat (writer c)" "unat (oldest c) + total old = unat (unused c)"
    using assms(1) by (auto simp: cache_rep_def)
  from assms(2) have "(p, x) \<in> set (poss (unat (hsize c)) new) \<or> (p, x) \<in> set (poss (unat (oldest c)) old)"
    by (auto simp: items_def)
  then show ?thesis using poss_range [of p x] unfolding eq [symmetric] by blast
qed

lemma items_sep:
  assumes "cache_rep c new old" and "(p, x) \<in> set (items c new old)" and "(q, y) \<in> set (items c new old)"
  shows "(p, x) = (q, y) \<or> p + elen x \<le> q \<or> q + elen y \<le> p"
proof -
  have le: "unat (hsize c) + total new \<le> unat (oldest c)" using assms(1) by (simp add: cache_rep_def word_le_nat_alt)
  from assms(2,3) consider
      "(p, x) \<in> set (poss (unat (hsize c)) new)" "(q, y) \<in> set (poss (unat (hsize c)) new)"
    | "(p, x) \<in> set (poss (unat (oldest c)) old)" "(q, y) \<in> set (poss (unat (oldest c)) old)"
    | "(p, x) \<in> set (poss (unat (hsize c)) new)" "(q, y) \<in> set (poss (unat (oldest c)) old)"
    | "(p, x) \<in> set (poss (unat (oldest c)) old)" "(q, y) \<in> set (poss (unat (hsize c)) new)"
    by (auto simp: items_def)
  then show ?thesis
  proof cases
    case 3 then show ?thesis using poss_range [of p x] poss_range [of q y] le by fastforce
  next
    case 4 then show ?thesis using poss_range [of p x] poss_range [of q y] le by fastforce
  qed (blast dest: poss_sep)+
qed

lemma items_distinct:
  assumes "cache_rep c new old"
  shows "distinct (map fst (items c new old))"
proof -
  have le: "unat (hsize c) + total new \<le> unat (oldest c)" using assms by (simp add: cache_rep_def word_le_nat_alt)
  have "p \<notin> fst ` set (poss (unat (oldest c)) old)" if "p \<in> fst ` set (poss (unat (hsize c)) new)" for p
  proof
    assume "p \<in> fst ` set (poss (unat (oldest c)) old)"
    then obtain y where y: "(p, y) \<in> set (poss (unat (oldest c)) old)" by force
    from that obtain x where x: "(p, x) \<in> set (poss (unat (hsize c)) new)" by force
    show False using poss_range [OF x] poss_range [OF y] le elen_ge [of x] by linarith
  qed
  then show ?thesis using poss_distinct by (auto simp: items_def rev_map [symmetric])
qed

text \<open>The positions that hold links: the heads and the entries.\<close>

definition node :: "cache \<Rightarrow> (nat \<times> entry) list \<Rightarrow> nat \<Rightarrow> bool" where
  "node c L p \<longleftrightarrow> p < unat (hsize c) \<and> 4 dvd p \<or> p \<in> fst ` set L"

lemma cache_repD:
  assumes "cache_rep c new old"
  shows "unat (writer c) \<le> unat (oldest c)" "unat (oldest c) \<le> unat (unused c)" "unat (unused c) \<le> unat (csize c)"
    "unat (hsize c) \<le> unat (writer c)" "unat (csize c) \<le> 10 ^ 9" "length (cx c) = unat (csize c)"
    "4 dvd unat (hsize c)" "0 < unat (hsize c)"
  using assms by (auto simp: cache_rep_def word_le_nat_alt unat_gt_0)

lemma heads_apart:
  assumes "4 dvd p" and "4 dvd q" and "p \<noteq> (q :: nat)"
  shows "apart p q"
  using assms by (auto simp: apart_def elim!: dvdE)

lemma head_below:
  assumes "4 dvd p" and "4 dvd h" and "p < (h :: nat)"
  shows "p + 4 \<le> h"
  using assms by (auto elim!: dvdE)

lemma node_apart:
  assumes "cache_rep c new old" and "node c (items c new old) p" and "node c (items c new old) q" and "p \<noteq> q"
  shows "apart p q"
proof -
  note D = cache_repD [OF assms(1)]
  have low: "apart a b" if "a < unat (hsize c)" "4 dvd a" "b \<in> fst ` set (items c new old)" for a b
  proof -
    from that(3) obtain y where "(b, y) \<in> set (items c new old)" by force
    with items_range [OF assms(1), of b y] D have "unat (hsize c) \<le> b" by linarith
    with head_below [OF that(2) D(7) that(1)] show ?thesis by (simp add: apart_def)
  qed
  have sym: "apart a b \<longleftrightarrow> apart b a" for a b by (auto simp: apart_def)
  have two: "apart a b" if ab: "a \<in> fst ` set (items c new old)" "b \<in> fst ` set (items c new old)" "a \<noteq> b" for a b
  proof -
    obtain x where x: "(a, x) \<in> set (items c new old)" using ab(1) by force
    obtain y where y: "(b, y) \<in> set (items c new old)" using ab(2) by force
    from items_sep [OF assms(1) x y] ab(3) elen_ge [of x] elen_ge [of y] show ?thesis by (auto simp: apart_def)
  qed
  show ?thesis using assms(2-4) low two sym heads_apart unfolding node_def by metis
qed

lemma node_entry:
  assumes "cache_rep c new old" and "node c (items c new old) q" and "(p, x) \<in> set (items c new old)"
  shows "q \<le> p \<or> p + elen x \<le> q"
proof (cases "q < unat (hsize c)")
  case True
  with items_range [OF assms(1,3)] cache_repD [OF assms(1)] show ?thesis by linarith
next
  case False
  with assms(2) obtain y where "(q, y) \<in> set (items c new old)" by (auto simp: node_def)
  from items_sep [OF assms(1,3) this] elen_ge [of y] show ?thesis by auto
qed

lemma node_chain:
  "p \<in> set (h # chain hs h L) \<Longrightarrow> h < unat (hsize c) \<Longrightarrow> 4 dvd h \<Longrightarrow> node c L p"
  by (auto simp: chain_def node_def)

lemma rep_head:
  assumes "cache_rep c new old"
  shows "unat (cache_hash (hsize c) k) < unat (hsize c)" "4 dvd unat (cache_hash (hsize c) k)"
  using hash_head [of "hsize c" k] assms by (auto simp: cache_rep_def)

lemma chain_hash:
  assumes "cache_rep c new old" and "p \<in> set (chain hs h (items c new old))" and "p \<in> set (chain hs h' (items c new old))"
  shows "h = h'"
proof -
  obtain k d e where 1: "(p, k, d, e) \<in> set (items c new old)" "unat (cache_hash hs k) = h" using assms(2) by (auto simp: chain_def)
  obtain k' d' e' where 2: "(p, k', d', e') \<in> set (items c new old)" "unat (cache_hash hs k') = h'" using assms(3) by (auto simp: chain_def)
  have "(k, d, e) = (k', d', e')" using eq_key_imp_eq_value [OF items_distinct [OF assms(1)] 1(1) 2(1)] .
  with 1(2) 2(2) show ?thesis by simp
qed

lemma node_bound:
  assumes "cache_rep c new old" and "node c (items c new old) p"
  shows "p < 2 ^ 32" and "p \<in> fst ` set (items c new old) \<Longrightarrow> 0 < p"
proof -
  note D = cache_repD [OF assms(1)]
  have "p < unat (csize c)" if "p \<in> fst ` set (items c new old)"
  proof -
    from that obtain x where "(p, x) \<in> set (items c new old)" by force
    with items_range [OF assms(1), of p x] D elen_ge [of x] show ?thesis by linarith
  qed
  then have "p < unat (csize c)" using assms(2) D unfolding node_def by linarith
  then show "p < 2 ^ 32" using D(5) by simp
  show "0 < p" if "p \<in> fst ` set (items c new old)"
  proof -
    from that obtain x where "(p, x) \<in> set (items c new old)" by force
    with items_range [OF assms(1), of p x] D show ?thesis by linarith
  qed
qed

section \<open>Eviction\<close>

lemma rep_xlist:
  assumes "cache_rep c new old" and "h < unat (hsize c)" and "4 dvd h"
  shows "xlist (cx c) 0 (h # chain (hsize c) h (items c new old))"
  using assms unfolding cache_rep_def by blast

lemma of_unat: "word_of_nat (unat w) = (w :: u32)"
  by simp

lemma unat_plus: "unat w + n < 2 ^ 32 \<Longrightarrow> unat (w + word_of_nat n :: u32) = unat w + n"
  by (simp add: unat_word_ariths unat_of_nat)

lemma chain_append [simp]: "chain hs h (xs @ ys) = chain hs h xs @ chain hs h ys"
  by (simp add: chain_def)

lemma chain_one: "chain hs h [(p, k, d, e)] = (if unat (cache_hash hs k) = h then [p] else [])"
  by (simp add: chain_def)

text \<open>What writing a link of the chain \<open>h\<close> keeps: the entries and the other chains.\<close>

lemma link_write:
  assumes "cache_rep c new old" and "put32 (cx c) q v = Some m" and "q \<in> set (h # chain (hsize c) h (items c new old))"
    and "h < unat (hsize c)" and "4 dvd h"
  shows "\<forall>(p, x) \<in> set (items c new old). entry_at m p x"
    and "\<forall>h' < unat (hsize c). 4 dvd h' \<longrightarrow> h' \<noteq> h \<longrightarrow> xlist m 0 (h' # chain (hsize c) h' (items c new old))"
proof -
  let ?L = "items c new old"
  have q: "node c ?L q" using node_chain [OF assms(3-5)] .
  show "\<forall>(p, x) \<in> set ?L. entry_at m p x"
    using assms(1) entry_at_put [OF _ assms(2)] node_entry [OF assms(1) q] by (fastforce simp: cache_rep_def)
  show "\<forall>h' < unat (hsize c). 4 dvd h' \<longrightarrow> h' \<noteq> h \<longrightarrow> xlist m 0 (h' # chain (hsize c) h' ?L)"
  proof (intro allI impI)
    fix h' assume h': "h' < unat (hsize c)" "4 dvd h'" "h' \<noteq> h"
    have n: "node c ?L p" if "p \<in> set (h' # chain (hsize c) h' ?L)" for p
      using node_chain [OF that h'(1,2)] .
    have "p \<noteq> q" if p: "p \<in> set (h' # chain (hsize c) h' ?L)" for p
    proof
      assume eq: "p = q"
      have low: "unat (hsize c) \<le> a" if "a \<in> set (chain (hsize c) g ?L)" for a g
        using that items_range [OF assms(1)] cache_repD [OF assms(1)] by (fastforce simp: chain_def)
      show False using eq p assms(3,4) h' low chain_hash [OF assms(1)] by (metis not_le set_ConsD)
    qed
    then have "\<forall>p \<in> set (h' # chain (hsize c) h' ?L). apart p q" using node_apart [OF assms(1) _ q] n by blast
    moreover have "xlist (cx c) 0 (h' # chain (hsize c) h' ?L)" using assms(1) h' by (simp add: cache_rep_def)
    ultimately show "xlist m 0 (h' # chain (hsize c) h' ?L)" using xlist_put [OF _ assms(2)] by blast
  qed
qed

lemma chain_distinct:
  assumes "cache_rep c new old" and "h < unat (hsize c)"
  shows "distinct (h # chain (hsize c) h (items c new old))"
proof -
  have "h \<notin> set (chain (hsize c) h (items c new old))"
    using assms(2) items_range [OF assms(1)] cache_repD [OF assms(1)] by (fastforce simp: chain_def)
  moreover have "distinct (chain (hsize c) h (items c new old))"
    using items_distinct [OF assms(1)] by (simp add: chain_def distinct_map inj_on_def)
  ultimately show ?thesis by simp
qed

lemma evict_rep:
  assumes "cache_rep c new (x # old)"
  shows "\<exists>c'. evict c = Some c' \<and> cache_rep c' new old \<and> csize c' = csize c \<and> hsize c' = hsize c \<and>
    (old \<noteq> [] \<longrightarrow> unused c' = unused c)"
proof -
  obtain k d e where x: "x = (k, d, e)" by (cases x)
  let ?t = "unat (oldest c)" and ?L = "items c new (x # old)" and ?h = "unat (cache_hash (hsize c) k)"
  let ?R = "rev (poss (unat (hsize c)) new) @ rev (poss (?t + elen x) old)"
  note D = cache_repD [OF assms]
  have L: "?L = ?R @ [(?t, x)]" by (simp add: items_def)
  have h: "?h < unat (hsize c)" "4 dvd ?h" using rep_head [OF assms] by auto
  have ch: "chain (hsize c) ?h ?L = chain (hsize c) ?h ?R @ [?t]" unfolding L by (simp add: chain_one x)
  obtain qs q where qs: "?h # chain (hsize c) ?h ?R = qs @ [q]" by (metis append_butlast_last_id list.distinct(1))
  have "?h # chain (hsize c) ?h ?L = (?h # chain (hsize c) ?h ?R) @ [?t]" unfolding ch by simp
  also have "\<dots> = qs @ [q, ?t]" unfolding qs by simp
  finally have xl: "xlist (cx c) 0 (qs @ [q, ?t])" using rep_xlist [OF assms h] by (simp only:)
  have qmem: "q \<in> set (?h # chain (hsize c) ?h ?L)" unfolding ch using qs by (metis Un_iff append_Cons in_set_conv_decomp set_append)
  have nodes: "node c ?L p" if "p \<in> set (qs @ [q])" for p
  proof -
    have "p \<in> set (?h # chain (hsize c) ?h ?L)" using that unfolding qs [symmetric] ch by auto
    then show ?thesis by (rule node_chain [OF _ h])
  qed
  have dist: "distinct (qs @ [q])" using chain_distinct [OF assms h(1)] unfolding ch qs [symmetric] by simp
  have "\<forall>a \<in> set qs. \<forall>b \<in> {q}. a \<noteq> b \<longrightarrow> apart a b" using nodes node_apart [OF assms] by auto
  with xlist_remove [OF xl _ dist] nodes node_bound(1) [OF assms]
  obtain m where t: "get32 (cx c) ?t = Some (word_of_nat q)" and
    m: "replace_link (word_of_nat q) (oldest c) (cx c) = Some m" "xlist m 0 (qs @ [q])"
    and put: "\<exists>v. put32 (cx c) q v = Some m" by fastforce
  obtain v where v: "put32 (cx c) q v = Some m" using put by blast
  note keep = link_write [OF assms v qmem h]
  have at: "entry_at m ?t x" using keep(1) unfolding L by auto
  have tot: "unat (oldest c) + elen x + total old = unat (unused c)" using assms by (simp add: cache_rep_def)
  have old': "unat (oldest c + word_of_nat (elen x)) = ?t + elen x" by (rule unat_plus) (use tot D in simp)
  have sum: "oldest c + (word_of_nat ENTRY_SIZE + word_of_nat (length k) + word_of_nat (length d)) = oldest c + word_of_nat (elen x)"
    by (simp add: x)
  define c' where "c' = (if old = [] then c\<lparr>cx := m, oldest := csize c, unused := csize c\<rparr> else c\<lparr>cx := m, oldest := oldest c + word_of_nat (elen x)\<rparr>)"
  have "oldest c + word_of_nat (elen x) = unused c \<longleftrightarrow> old = []"
    using tot total_0 [of old] unfolding word_unat_eq_iff old' by linarith
  then have ev: "evict c = Some c'"
    using t m(1) at unfolding c'_def entry_at_def x by (simp add: evict_def sum [unfolded x, symmetric] Let_def)
  have it: "items c' new old = ?R" unfolding c'_def items_def using old' by simp
  have sub: "set ?R \<subseteq> set ?L" unfolding L by auto
  have "\<forall>(p, y) \<in> set ?R. entry_at m p y" using keep(1) sub by blast
  moreover have "xlist m 0 (h' # chain (hsize c) h' ?R)" if h': "h' < unat (hsize c)" "4 dvd h'" for h'
  proof (cases "h' = ?h")
    case True
    then show ?thesis using m(2) qs by simp
  next
    case False
    then have "chain (hsize c) h' ?L = chain (hsize c) h' ?R" unfolding L by (simp add: chain_one x)
    moreover have "xlist m 0 (h' # chain (hsize c) h' ?L)" using keep(2) h' False by blast
    ultimately show ?thesis by (simp only:)
  qed
  moreover have "unat (csize c) = length m" using D(6) put32_length [OF v] by simp
  ultimately have "cache_rep c' new old"
    using assms tot old' unfolding cache_rep_def it unfolding c'_def by (auto simp: word_le_nat_alt)
  with ev show ?thesis unfolding c'_def by auto
qed

text \<open>When the run of old entries is used up, the run of new ones becomes the old one.\<close>

lemma wrap_rep:
  assumes "cache_rep c new []" and "new \<noteq> []"
  shows "cache_rep (wrap_round c) [] new"
proof -
  have it: "items (wrap_round c) [] new = items c new []" by (simp add: items_def wrap_round_def)
  show ?thesis
    using assms cache_repD [OF assms(1)] unfolding cache_rep_def it by (auto simp: wrap_round_def word_le_nat_alt)
qed

definition contents :: "entry list \<Rightarrow> entry list \<Rightarrow> entry list" where
  "contents new old = rev new @ rev old"

definition room :: "cache \<Rightarrow> nat" where
  "room c = unat (csize c) - unat (hsize c)"

text \<open>The end of the memory that is left unused behind the old entries is smaller than an entry of \<open>M\<close> bytes.\<close>

definition slack :: "nat \<Rightarrow> cache \<Rightarrow> entry list \<Rightarrow> bool" where
  "slack M c old \<longleftrightarrow> (old \<noteq> [] \<longrightarrow> unat (csize c) < unat (unused c) + M)"

lemma total_rev [simp]: "total (rev xs) = total xs"
  by (simp add: total_def rev_map [symmetric])

lemma no_room:
  assumes "cache_rep c new old" and "slack M c old" and "unat (oldest c) < unat (writer c) + n"
  shows "room c < total (contents new old) + n + M"
proof -
  have "unat (hsize c) + total new = unat (writer c)" "unat (oldest c) + total old = unat (unused c)"
    "old = [] \<longrightarrow> oldest c = csize c" using assms(1) by (auto simp: cache_rep_def)
  then have "unat (csize c) < unat (hsize c) + (total (contents new old) + n + M)" using assms(2,3)
    by (cases "old = []") (auto simp: slack_def contents_def)
  moreover have "unat (hsize c) \<le> unat (csize c)" using cache_repD [OF assms(1)] by linarith
  ultimately show ?thesis by (simp add: room_def less_diff_conv2 add.commute)
qed

text \<open>
  The loop returns and makes room for an entry that is not larger than the space for entries. What it gives up
  are the oldest entries, and none that would have fitted but for the unused end.
\<close>

lemma make_room_rep:
  assumes "cache_rep c new old" and "n \<le> room c" and "slack M c old" and "n \<le> M"
  shows "\<exists>c' new' old' i. make_room (word_of_nat n) c = Some (Some c') \<and> cache_rep c' new' old' \<and>
    unat (writer c') + n \<le> unat (oldest c') \<and> contents new' old' = take i (contents new old) \<and>
    csize c' = csize c \<and> hsize c' = hsize c \<and> slack M c' old' \<and>
    (i < length (contents new old) \<longrightarrow> room c < total (take (Suc i) (contents new old)) + n + M) \<and>
    (unat (writer c) + n \<le> unat (oldest c) \<longrightarrow> c' = c \<and> new' = new \<and> old' = old)"
  using assms
proof (induction "length new + length old" arbitrary: c new old rule: less_induct)
  case less
  note D = cache_repD [OF less.prems(1)]
  have w: "unat (writer c + word_of_nat n) = unat (writer c) + n"
    by (rule unat_plus) (use D less.prems(2) in \<open>simp add: room_def\<close>)
  show ?case
  proof (cases "unat (writer c) + n \<le> unat (oldest c)")
    case True
    then have "make_room (word_of_nat n) c = Some (Some c)"
      by (subst make_room.simps) (simp add: word_less_nat_alt w)
    with less.prems(1,3) True show ?thesis
      by (intro exI [of _ c] exI [of _ new] exI [of _ old] exI [of _ "length (contents new old)"]) simp
  next
    case False
    have oo: "oldest c = unused c \<longleftrightarrow> old = []"
      using less.prems(1) by (auto simp: cache_rep_def word_unat_eq_iff total_0)
    have ww: "writer c \<le> hsize c \<longleftrightarrow> new = []"
    proof -
      have "unat (hsize c) + total new = unat (writer c)" using less.prems(1) by (simp add: cache_rep_def)
      then show ?thesis using total_0 [of new] by (auto simp: word_le_nat_alt)
    qed
    have "\<not> (old = [] \<and> new = [])"
    proof
      assume "old = [] \<and> new = []"
      with less.prems D False show False by (auto simp: cache_rep_def room_def)
    qed
    then obtain c1 new1 x old1 where c1: "c1 = (if oldest c = unused c then wrap_round c else c)"
      "cache_rep c1 new1 (x # old1)" "contents new old = contents new1 old1 @ [x]" "csize c1 = csize c" "hsize c1 = hsize c" "slack M c1 (x # old1)"
      "length new1 + length old1 < length new + length old"
    proof (cases old)
      case Nil
      with \<open>\<not> (old = [] \<and> new = [])\<close> obtain x xs where "new = x # xs" by (cases new) auto
      moreover have "slack M (wrap_round c) new"
        using less.prems(1,4) Nil False by (auto simp: slack_def wrap_round_def cache_rep_def)
      ultimately show ?thesis using wrap_rep [of c new] less.prems(1) Nil oo that [of "wrap_round c" "[]" x xs]
        by (simp add: contents_def wrap_round_def)
    next
      case (Cons x xs)
      with less.prems(1,3) oo that [of c new x xs] show ?thesis by (simp add: contents_def)
    qed
    obtain c2 where c2: "evict c1 = Some c2" "cache_rep c2 new1 old1" "csize c2 = csize c" "hsize c2 = hsize c" "old1 \<noteq> [] \<longrightarrow> unused c2 = unused c1"
      using evict_rep [OF c1(2)] c1(4,5) by auto
    have sl: "slack M c2 old1" using c1(4,6) c2(3,5) by (auto simp: slack_def)
    have rm: "room c2 = room c" using c2(3,4) by (simp add: room_def)
    have step: "make_room (word_of_nat n) c = make_room (word_of_nat n) c2"
      using False \<open>\<not> (old = [] \<and> new = [])\<close> c2(1) unfolding c1(1)
      by (subst make_room.simps) (auto simp: word_less_nat_alt w oo ww)
    obtain c' new' old' i where r: "make_room (word_of_nat n) c2 = Some (Some c')" "cache_rep c' new' old'"
      "unat (writer c') + n \<le> unat (oldest c')" "contents new' old' = take i (contents new1 old1)" "csize c' = csize c" "hsize c' = hsize c"
      "slack M c' old'" "i < length (contents new1 old1) \<longrightarrow> room c < total (take (Suc i) (contents new1 old1)) + n + M"
      using less.hyps [OF c1(7) c2(2) _ sl less.prems(4)] less.prems(2) c2(3,4) rm by auto
    let ?i = "min i (length (contents new1 old1))"
    have "contents new' old' = take ?i (contents new old)" using r(4) c1(3) by (simp add: min_def)
    moreover have "room c < total (take (Suc ?i) (contents new old)) + n + M"
    proof (cases "i < length (contents new1 old1)")
      case True
      then show ?thesis using r(8) c1(3) by (simp add: min_def)
    next
      case big: False
      have "room c < total (contents new old) + n + M" using no_room [OF less.prems(1,3)] False by simp
      moreover have "take (Suc ?i) (contents new old) = contents new old" using big c1(3) by simp
      ultimately show ?thesis by simp
    qed
    ultimately show ?thesis using step r(1-3,5-7) False
      by (intro exI [of _ c'] exI [of _ new'] exI [of _ old'] exI [of _ ?i]) auto
  qed
qed

section \<open>Insertion\<close>

text \<open>A part of the memory is left alone.\<close>

definition frame :: "nat \<Rightarrow> nat \<Rightarrow> mem \<Rightarrow> mem \<Rightarrow> bool" where
  "frame a b m m' \<longleftrightarrow> length m' = length m \<and> (\<forall>q n. q + n \<le> a \<or> b \<le> q \<longrightarrow> slice m' q n = slice m q n)"

lemma frame_blit: "blit m p xs = Some m' \<Longrightarrow> a \<le> p \<Longrightarrow> p + length xs \<le> b \<Longrightarrow> frame a b m m'"
  using slice_blit_other [of m p xs m'] blit_length [of m p xs m'] by (fastforce simp: frame_def)

lemma frame_put32: "put32 m p v = Some m' \<Longrightarrow> a \<le> p \<Longrightarrow> p + 4 \<le> b \<Longrightarrow> frame a b m m'"
  unfolding put32_def by (erule frame_blit) simp_all

lemma frame_trans: "frame a b m m' \<Longrightarrow> frame a b m' m'' \<Longrightarrow> frame a b m m''"
  by (simp add: frame_def)

lemma get32_cong: "slice m' q 4 = slice m q 4 \<Longrightarrow> get32 m' q = get32 m q"
  by (simp add: get32_def)

lemma frame_get32: "frame a b m m' \<Longrightarrow> q + 4 \<le> a \<or> b \<le> q \<Longrightarrow> get32 m' q = get32 m q"
  unfolding frame_def by (rule get32_cong) blast

lemma entry_at_cong:
  assumes "entry_at m p x" and "\<forall>q n. p + 4 \<le> q \<and> q + n \<le> p + elen x \<longrightarrow> slice m' q n = slice m q n"
  shows "entry_at m' p x"
  using assms by (auto simp: entry_at_def get32_def ENTRY_SIZE_def)

lemma write_entry:
  assumes "w + elen (k, d, e) \<le> length m"
  shows "\<exists>m1 m2 m3 m4 m5. put32 m (w + 4) (word_of_nat (length k)) = Some m1 \<and>
    put32 m1 (w + 8) (word_of_nat (length d)) = Some m2 \<and> put32 m2 (w + 12) e = Some m3 \<and>
    blit m3 (w + ENTRY_SIZE) k = Some m4 \<and> blit m4 (w + ENTRY_SIZE + length k) d = Some m5 \<and>
    entry_at m5 w (k, d, e) \<and> frame (w + 4) (w + elen (k, d, e)) m m5"
proof -
  let ?b = "w + elen (k, d, e)"
  have w: "?b = w + 16 + length k + length d" by (simp add: ENTRY_SIZE_def)
  obtain m1 where m1: "put32 m (w + 4) (word_of_nat (length k)) = Some m1" using put32_Some [of "w + 4" m] assms w by auto
  obtain m2 where m2: "put32 m1 (w + 8) (word_of_nat (length d)) = Some m2"
    using put32_Some [of "w + 8" m1] assms w put32_length [OF m1] by auto
  obtain m3 where m3: "put32 m2 (w + 12) e = Some m3"
    using put32_Some [of "w + 12" m2] assms w put32_length [OF m1] put32_length [OF m2] by auto
  have l3: "length m3 = length m" using put32_length [OF m1] put32_length [OF m2] put32_length [OF m3] by simp
  obtain m4 where m4: "blit m3 (w + ENTRY_SIZE) k = Some m4"
    using blit_Some [of "w + ENTRY_SIZE" k m3] assms l3 by auto
  obtain m5 where m5: "blit m4 (w + ENTRY_SIZE + length k) d = Some m5"
    using blit_Some [of "w + ENTRY_SIZE + length k" d m4] assms l3 blit_length [OF m4] by auto
  have "frame (w + 4) ?b m m1" "frame (w + 4) ?b m1 m2" "frame (w + 4) ?b m2 m3"
    using frame_put32 [OF m1] frame_put32 [OF m2] frame_put32 [OF m3] w by auto
  moreover have "frame (w + 4) ?b m3 m4" "frame (w + 4) ?b m4 m5"
    using frame_blit [OF m4] frame_blit [OF m5] by (auto simp: ENTRY_SIZE_def)
  ultimately have fr: "frame (w + 4) ?b m m5" by (blast intro: frame_trans)
  have tail: "frame (w + 16) ?b m3 m5"
    using frame_trans [OF frame_blit [OF m4] frame_blit [OF m5]] by (auto simp: ENTRY_SIZE_def)
  have "get32 m5 (w + 4) = Some (word_of_nat (length k))"
    using frame_get32 [OF tail, of "w + 4"] get32_other [OF m3, of "w + 4"] get32_other [OF m2, of "w + 4"] get32_same [OF m1] by simp
  moreover have "get32 m5 (w + 8) = Some (word_of_nat (length d))"
    using frame_get32 [OF tail, of "w + 8"] get32_other [OF m3, of "w + 8"] get32_same [OF m2] by simp
  moreover have "get32 m5 (w + 12) = Some e"
    using frame_get32 [OF tail, of "w + 12"] get32_same [OF m3] by simp
  moreover have "slice m5 (w + ENTRY_SIZE) (length k) = Some k"
    using slice_blit_other [OF m5, of "w + ENTRY_SIZE" "length k"] slice_blit_same [OF m4] by simp
  moreover have "slice m5 (w + ENTRY_SIZE + length k) (length d) = Some d" using slice_blit_same [OF m5] by simp
  ultimately have "entry_at m5 w (k, d, e)" by (simp add: entry_at_def)
  with m1 m2 m3 m4 m5 fr show ?thesis by blast
qed

lemma chain_apart:
  assumes "cache_rep c new old" and "q \<in> set (h # chain (hsize c) h (items c new old))"
    and "p \<in> set (h' # chain (hsize c) h' (items c new old))" and "h \<noteq> h'"
    and "h < unat (hsize c)" "4 dvd h" "h' < unat (hsize c)" "4 dvd h'"
  shows "apart p q"
proof -
  have low: "unat (hsize c) \<le> a" if "a \<in> set (chain (hsize c) g (items c new old))" for a g
    using that items_range [OF assms(1)] cache_repD [OF assms(1)] by (fastforce simp: chain_def)
  have "p \<noteq> q" using assms(2-5,7) low chain_hash [OF assms(1)] by (metis not_le set_ConsD)
  then show ?thesis using node_apart [OF assms(1) node_chain [OF assms(3,7,8)] node_chain [OF assms(2,5,6)]] by blast
qed

lemma node_free:
  assumes "cache_rep c new old" and "node c (items c new old) p" and "unat (writer c) + n \<le> unat (oldest c)"
  shows "p + 4 \<le> unat (writer c) \<or> unat (writer c) + n \<le> p"
proof (cases "p < unat (hsize c)")
  case True
  then have "4 dvd p"
    using assms(1,2) items_range [OF assms(1)] cache_repD [OF assms(1)] by (fastforce simp: node_def)
  with head_below [of p "unat (hsize c)"] True cache_repD [OF assms(1)] show ?thesis by linarith
next
  case False
  with assms(2) obtain x where "(p, x) \<in> set (items c new old)" by (auto simp: node_def)
  with items_range [OF assms(1), of p x] elen_ge [of x] assms(3) show ?thesis by linarith
qed

text \<open>The writes of \<open>add\<close>: they touch the head, the entry that was first in the chain, and the free space.\<close>

lemma insert_memory:
  assumes "cache_rep c new old" and "unat (writer c) + elen (k, d, e) \<le> unat (oldest c)"
    and "e = (if ttl \<noteq> 0 then now + ttl else U_NO_TTL)"
    and "h = unat (cache_hash (hsize c) k)" and "ps = chain (hsize c) h (items c new old)" and "w = unat (writer c)"
  shows "\<exists>m6 m7 m8. link_entry k (word_of_nat (length d)) ttl now c = Some (c\<lparr>cx := m6\<rparr>) \<and>
    blit m6 (w + ENTRY_SIZE) k = Some m7 \<and> blit m7 (w + ENTRY_SIZE + length k) d = Some m8 \<and>
    entry_at m8 w (k, d, e) \<and> xlist m8 0 (h # w # ps) \<and> length m8 = length (cx c) \<and>
    (\<forall>q n. (\<forall>r \<in> set (h # ps). q + n \<le> r \<or> r + 4 \<le> q) \<and> (q + n \<le> w \<or> w + elen (k, d, e) \<le> q) \<longrightarrow>
       slice m8 q n = slice (cx c) q n)"
proof -
  let ?x = "(k, d, e)" and ?L = "items c new old"
  note D = cache_repD [OF assms(1)]
  have h: "h < unat (hsize c)" "4 dvd h" using rep_head [OF assms(1), of k] assms(4) by auto
  have xl: "xlist (cx c) 0 (h # ps)" using rep_xlist [OF assms(1) h] assms(5) by simp
  have nodes: "node c ?L p" if "p \<in> set (h # ps)" for p using node_chain [OF _ h, of p] that assms(5) by auto
  have free: "p + 4 \<le> w \<or> w + elen ?x \<le> p" if "p \<in> set (h # ps)" for p
    using node_free [OF assms(1) nodes [OF that] assms(2)] assms(6) by simp
  have dist: "h \<notin> set ps" "distinct ps" using chain_distinct [OF assms(1) h(1)] assms(5) by auto
  have apw: "apart p w" if "p \<in> set (h # ps)" for p using free [OF that] by (auto simp: apart_def ENTRY_SIZE_def)
  have pre: "\<forall>p \<in> set ps. 0 < p \<and> p < 2 ^ 32 \<and> apart p h \<and> apart p w"
  proof
    fix p assume p: "p \<in> set ps"
    then have np: "node c ?L p" "node c ?L h" "p \<noteq> h" "apart p w" using nodes apw dist(1) by auto
    have "p \<in> fst ` set ?L" using p assms(5) by (auto simp: chain_def)
    with np node_apart [OF assms(1) np(1-3)] node_bound [OF assms(1) np(1)]
    show "0 < p \<and> p < 2 ^ 32 \<and> apart p h \<and> apart p w" by simp
  qed
  have sep: "\<forall>p \<in> set ps. \<forall>q \<in> set ps. p \<noteq> q \<longrightarrow> apart p q" using nodes node_apart [OF assms(1)] by auto
  have wlen: "w + elen ?x \<le> length (cx c)" "w + 4 \<le> length (cx c)" using assms(2,6) D elen_ge [of ?x] by linarith+
  have hw: "word_of_nat h = cache_hash (hsize c) k" "word_of_nat w = writer c" using assms(4,6) of_unat by auto
  obtain m1 m2 m3 where m: "put32 (cx c) h (writer c) = Some m1"
    "(if word_of_nat (next_pos ps) \<noteq> (0 :: u32) then replace_link (word_of_nat (next_pos ps)) (cache_hash (hsize c) k XOR writer c) m1 else Some m1) = Some m2"
    "put32 m2 w (word_of_nat (next_pos ps) XOR cache_hash (hsize c) k) = Some m3" "xlist m3 0 (h # w # ps)" "length m3 = length (cx c)"
    "\<forall>q n. (\<forall>r \<in> set (h # w # ps). q + n \<le> r \<or> r + 4 \<le> q) \<longrightarrow> slice m3 q n = slice (cx c) q n"
    using xlist_insert [OF xl pre apw [of h] dist(2) sep wlen(2) refl, unfolded hw] by auto
  obtain m4 m5 m6 m7 m8 where n: "put32 m3 (w + 4) (word_of_nat (length k)) = Some m4"
    "put32 m4 (w + 8) (word_of_nat (length d)) = Some m5" "put32 m5 (w + 12) e = Some m6"
    "blit m6 (w + ENTRY_SIZE) k = Some m7" "blit m7 (w + ENTRY_SIZE + length k) d = Some m8"
    "entry_at m8 w ?x" "frame (w + 4) (w + elen ?x) m3 m8"
    using write_entry [of w k d e m3] wlen m(5) by auto
  have "get32 (cx c) h = Some (word_of_nat (next_pos ps))" using xl by simp
  then have "link_entry k (word_of_nat (length d)) ttl now c = Some (c\<lparr>cx := m6\<rparr>)"
    using m(1-3) n(1-3) assms(3,4,6) by (simp add: link_entry_def Let_def)
  moreover have "xlist m8 0 (h # w # ps)"
  proof (rule xlist_frame [OF m(4)], rule ballI, rule frame_get32 [OF n(7)])
    show "p + 4 \<le> w + 4 \<or> w + elen ?x \<le> p" if "p \<in> set (h # w # ps)" for p using that free [of p] by auto
  qed
  moreover have "slice m8 q i = slice (cx c) q i"
    if "(\<forall>r \<in> set (h # ps). q + i \<le> r \<or> r + 4 \<le> q) \<and> (q + i \<le> w \<or> w + elen ?x \<le> q)" for q i
  proof -
    have "slice m8 q i = slice m3 q i" using that n(7) unfolding frame_def by (meson trans_le_add1)
    moreover have "q + i \<le> w \<or> w + 4 \<le> q" using that elen_ge [of ?x] by linarith
    ultimately show ?thesis using that m(6) by simp
  qed
  ultimately show ?thesis using n(4-7) m(5) by (auto simp: frame_def)
qed

lemma insert_keeps:
  assumes "cache_rep c new old" and "unat (writer c) + elen x \<le> unat (oldest c)"
    and "h < unat (hsize c)" and "4 dvd h"
    and "\<forall>q n. (\<forall>r \<in> set (h # chain (hsize c) h (items c new old)). q + n \<le> r \<or> r + 4 \<le> q) \<and>
      (q + n \<le> unat (writer c) \<or> unat (writer c) + elen x \<le> q) \<longrightarrow> slice m q n = slice (cx c) q n"
  shows "\<forall>(p, y) \<in> set (items c new old). entry_at m p y"
    and "h' < unat (hsize c) \<Longrightarrow> 4 dvd h' \<Longrightarrow> h' \<noteq> h \<Longrightarrow> xlist m 0 (h' # chain (hsize c) h' (items c new old))"
proof -
  let ?L = "items c new old" and ?w = "unat (writer c)"
  let ?ps = "chain (hsize c) h ?L"
  show "\<forall>(p, y) \<in> set ?L. entry_at m p y"
  proof (rule ballI, clarify)
    fix p k' d' e' assume y: "(p, k', d', e') \<in> set ?L"
    let ?y = "(k', d', e')"
    have out: "p + elen ?y \<le> ?w \<or> ?w + elen x \<le> p" using items_range [OF assms(1) y] assms(2) by linarith
    have "slice m q n = slice (cx c) q n" if qn: "p + 4 \<le> q \<and> q + n \<le> p + elen ?y" for q n
    proof -
      have "q + n \<le> r \<or> r + 4 \<le> q" if "r \<in> set (h # ?ps)" for r
        using node_entry [OF assms(1) node_chain [OF that assms(3,4)] y] qn by linarith
      moreover have "q + n \<le> ?w \<or> ?w + elen x \<le> q" using out qn by linarith
      ultimately show ?thesis using assms(5) by blast
    qed
    moreover have "entry_at (cx c) p ?y" using assms(1) y by (auto simp: cache_rep_def)
    ultimately show "entry_at m p ?y" using entry_at_cong by blast
  qed
  assume h': "h' < unat (hsize c)" "4 dvd h'" "h' \<noteq> h"
  have "get32 m p = get32 (cx c) p" if p: "p \<in> set (h' # chain (hsize c) h' ?L)" for p
  proof (rule get32_cong)
    have "p + 4 \<le> r \<or> r + 4 \<le> p" if "r \<in> set (h # ?ps)" for r
      using chain_apart [OF assms(1) that p _ assms(3,4) h'(1,2)] h'(3) by (auto simp: apart_def)
    moreover have "p + 4 \<le> ?w \<or> ?w + elen x \<le> p" by (rule node_free [OF assms(1) node_chain [OF p h'(1,2)] assms(2)])
    ultimately show "slice m p 4 = slice (cx c) p 4" using assms(5) by blast
  qed
  then show "xlist m 0 (h' # chain (hsize c) h' ?L)" using xlist_frame [OF rep_xlist [OF assms(1) h'(1,2)]] by blast
qed

lemma insert_entry_rep:
  assumes "cache_rep c new old" and "unat (writer c) + elen (k, d, e) \<le> unat (oldest c)"
    and "e = (if ttl \<noteq> 0 then now + ttl else U_NO_TTL)"
  shows "\<exists>c1 m m'. link_entry k (word_of_nat (length d)) ttl now c = Some c1 \<and> writer c1 = writer c \<and>
    blit (cx c1) (unat (writer c) + ENTRY_SIZE) k = Some m \<and>
    blit m (unat (writer c) + ENTRY_SIZE + length k) d = Some m' \<and>
    cache_rep (c1\<lparr>cx := m', writer := writer c + word_of_nat (elen (k, d, e))\<rparr>) (new @ [(k, d, e)]) old \<and>
    csize c1 = csize c \<and> hsize c1 = hsize c \<and> unused c1 = unused c"
proof -
  let ?x = "(k, d, e)" and ?w = "unat (writer c)" and ?L = "items c new old" and ?h = "unat (cache_hash (hsize c) k)"
  note D = cache_repD [OF assms(1)] and h = rep_head [OF assms(1), of k]
  obtain m6 m7 m8 where m: "link_entry k (word_of_nat (length d)) ttl now c = Some (c\<lparr>cx := m6\<rparr>)"
    "blit m6 (?w + ENTRY_SIZE) k = Some m7" "blit m7 (?w + ENTRY_SIZE + length k) d = Some m8"
    "entry_at m8 ?w ?x" "xlist m8 0 (?h # ?w # chain (hsize c) ?h ?L)" "length m8 = length (cx c)"
    "\<forall>q n. (\<forall>r \<in> set (?h # chain (hsize c) ?h ?L). q + n \<le> r \<or> r + 4 \<le> q) \<and> (q + n \<le> ?w \<or> ?w + elen ?x \<le> q) \<longrightarrow>
       slice m8 q n = slice (cx c) q n"
    using insert_memory [OF assms refl refl refl] by blast
  note keeps = insert_keeps [OF assms(1,2) h m(7)]
  let ?c = "c\<lparr>cx := m8, writer := writer c + word_of_nat (elen ?x)\<rparr>"
  have w': "unat (writer c + word_of_nat (elen ?x)) = ?w + elen ?x" by (rule unat_plus) (use assms(2) D in simp)
  have it: "items ?c (new @ [?x]) old = (?w, ?x) # ?L"
    using assms(1) by (simp add: items_def poss_append cache_rep_def)
  have "xlist m8 0 (h' # chain (hsize c) h' ((?w, ?x) # ?L))" if h': "h' < unat (hsize c)" "4 dvd h'" for h'
    using m(5) keeps(2) [OF h'] by (cases "h' = ?h") (auto simp: chain_def)
  moreover have "\<forall>(p, y) \<in> set ((?w, ?x) # ?L). entry_at m8 p y" using keeps(1) m(4) by auto
  ultimately have "cache_rep ?c (new @ [?x]) old"
    using assms(1,2) m(6) w' unfolding cache_rep_def it by (auto simp: word_le_nat_alt)
  then show ?thesis using m(1-3)
    by (intro exI [of _ "c\<lparr>cx := m6\<rparr>"] exI [of _ m7] exI [of _ m8]) simp
qed

lemma add_rep:
  assumes "cache_rep c new old" and "elen (k, d, e) \<le> room c" and "slack M c old" and "elen (k, d, e) \<le> M"
    and "e = (if ttl \<noteq> 0 then now + ttl else U_NO_TTL)"
  shows "\<exists>c' new' old' i. cache_add k d ttl now c = Some (Some c') \<and> cache_rep c' new' old' \<and>
    contents new' old' = (k, d, e) # take i (contents new old) \<and> csize c' = csize c \<and> hsize c' = hsize c \<and> slack M c' old' \<and>
    (i < length (contents new old) \<longrightarrow> room c < total (take (Suc i) (contents new old)) + elen (k, d, e) + M) \<and>
    (unat (writer c) + elen (k, d, e) \<le> unat (oldest c) \<longrightarrow> new' = new @ [(k, d, e)] \<and> old' = old)"
proof -
  let ?n = "elen (k, d, e)"
  obtain c1 new1 old1 i where r: "make_room (word_of_nat ?n) c = Some (Some c1)" "cache_rep c1 new1 old1"
    "unat (writer c1) + ?n \<le> unat (oldest c1)" "contents new1 old1 = take i (contents new old)" "csize c1 = csize c" "hsize c1 = hsize c"
    "slack M c1 old1" "i < length (contents new old) \<longrightarrow> room c < total (take (Suc i) (contents new old)) + ?n + M"
    "unat (writer c) + ?n \<le> unat (oldest c) \<longrightarrow> c1 = c \<and> new1 = new \<and> old1 = old"
    using make_room_rep [OF assms(1-4)] by blast
  obtain c2 m m' where l: "link_entry k (word_of_nat (length d)) ttl now c1 = Some c2" "writer c2 = writer c1"
    "blit (cx c2) (unat (writer c1) + ENTRY_SIZE) k = Some m" "blit m (unat (writer c1) + ENTRY_SIZE + length k) d = Some m'"
    "cache_rep (c2\<lparr>cx := m', writer := writer c1 + word_of_nat ?n\<rparr>) (new1 @ [(k, d, e)]) old1" "csize c2 = csize c1" "hsize c2 = hsize c1"
    "unused c2 = unused c1" using insert_entry_rep [OF r(2,3) assms(5)] by blast
  have n: "word_of_nat (ENTRY_SIZE + length k + length d) = (word_of_nat ?n :: u32)" by simp
  have "cache_add k d ttl now c = Some (Some (c2\<lparr>cx := m', writer := writer c1 + word_of_nat ?n\<rparr>))"
    unfolding cache_add_def n Let_def using r(1) l(1-4) by simp
  moreover have "contents (new1 @ [(k, d, e)]) old1 = (k, d, e) # take i (contents new old)"
    using r(4) by (simp add: contents_def)
  ultimately show ?thesis using l(5-8) r(5-9)
    by (intro exI [of _ "c2\<lparr>cx := m', writer := writer c1 + word_of_nat ?n\<rparr>"] exI [of _ "new1 @ [(k, d, e)]"] exI [of _ old1] exI [of _ i]) (auto simp: slack_def)
qed

section \<open>Search\<close>

definition live :: "byte list \<Rightarrow> entry \<Rightarrow> bool" where
  "live key x = (case x of (k, d, e) \<Rightarrow> e \<noteq> 0 \<and> k = key)"

definition due :: "u32 \<Rightarrow> entry \<Rightarrow> bool" where
  "due now x = (case x of (k, d, e) \<Rightarrow> e \<noteq> U_NO_TTL \<and> e \<le> now)"

lemma key_at_entry:
  assumes "entry_at m p (k, d, e)" and "length k < 2 ^ 32" and "length key < 2 ^ 32"
  shows "key_at key e p m = Some (live key (k, d, e))"
proof (cases "length k = length key")
  case True
  then show ?thesis using assms(1) by (auto simp: key_at_def entry_at_def live_def)
next
  case False
  then have "(word_of_nat (length k) :: u32) \<noteq> word_of_nat (length key)"
    using assms(2,3) by (simp add: word_of_nat_eq_iff take_bit_nat_eq_self)
  then show ?thesis using assms(1) False by (auto simp: key_at_def entry_at_def live_def)
qed

lemma get_loop_chain:
  assumes "xlist (cx c) prev (map fst L)" and "\<forall>(p, x) \<in> set L. entry_at (cx c) p x \<and> 0 < p \<and> p + elen x < 2 ^ 32"
    and "length key < 2 ^ 32"
  shows "get_loop key now left (word_of_nat prev) (word_of_nat (next_pos (map fst L))) c =
    (case find (\<lambda>(p, x). live key x) (take (Suc left) L) of
       None \<Rightarrow> Some (None, c)
     | Some (p, k, d, e) \<Rightarrow>
         if due now (k, d, e) then map_option (\<lambda>x. (None, c\<lparr>cx := x\<rparr>)) (put32 (cx c) (p + 12) 0)
         else Some (Some d, c\<lparr>cttl := e\<rparr>))"
  using assms
proof (induction L arbitrary: prev left)
  case Nil
  then show ?case by (simp add: get_loop.simps)
next
  case (Cons y L)
  obtain p k d e where y: "y = (p, k, d, e)" by (cases y)
  have at: "entry_at (cx c) p (k, d, e)" and p: "0 < p" "p < 2 ^ 32" and len: "length k < 2 ^ 32" "length d < 2 ^ 32"
    using Cons.prems(2) y by auto
  note pos = word_of_nat_pos [OF p]
  have link: "get32 (cx c) p = Some (word_of_nat prev XOR word_of_nat (next_pos (map fst L)))" "xlist (cx c) p (map fst L)"
    using Cons.prems(1) y by auto
  have key: "key_at key e p (cx c) = Some (live key (k, d, e))" by (rule key_at_entry [OF at len(1) Cons.prems(3)])
  have fields: "get32 (cx c) (p + 12) = Some e" "get32 (cx c) (p + 8) = Some (word_of_nat (length d))"
    "slice (cx c) (p + ENTRY_SIZE + length k) (length d) = Some d" using at by (auto simp: entry_at_def)
  have ud: "unat (word_of_nat (length d) :: u32) = length d" using len(2) by (simp add: unat_of_nat)
  show ?case
  proof (cases "live key (k, d, e)")
    case True
    then have "k = key" by (simp add: live_def)
    with True fields key pos ud show ?thesis
      by (subst get_loop.simps) (auto simp: y due_def)
  next
    case False
    have IH: "get_loop key now l (word_of_nat p) (word_of_nat (next_pos (map fst L))) c =
      (case find (\<lambda>(p, x). live key x) (take (Suc l) L) of
         None \<Rightarrow> Some (None, c)
       | Some (p, k, d, e) \<Rightarrow>
           if due now (k, d, e) then map_option (\<lambda>x. (None, c\<lparr>cx := x\<rparr>)) (put32 (cx c) (p + 12) 0)
           else Some (Some d, c\<lparr>cttl := e\<rparr>))" for l
      using Cons.IH [OF link(2) _ Cons.prems(3)] Cons.prems(2) by simp
    show ?thesis
      using False fields key pos link(1) IH
      by (subst get_loop.simps) (simp add: y split: nat.split)
  qed
qed

text \<open>What \<open>get\<close> looks for, and what it does to an entry it finds expired.\<close>

definition lookup_entry :: "u32 \<Rightarrow> byte list \<Rightarrow> entry list \<Rightarrow> entry option" where
  "lookup_entry hs key es = find (live key) (take 101 (filter (\<lambda>(k, d, e). cache_hash hs k = cache_hash hs key) es))"

fun mark :: "byte list \<Rightarrow> entry list \<Rightarrow> entry list" where
  "mark key [] = []"
| "mark key ((k, d, e) # es) = (if live key (k, d, e) then (k, d, 0) # es else (k, d, e) # mark key es)"

definition clear_at :: "nat \<Rightarrow> nat \<times> entry \<Rightarrow> nat \<times> entry" where
  "clear_at p y = (case y of (q, k, d, e) \<Rightarrow> (q, k, d, if q = p then 0 else e))"

lemma clear_at_fst [simp]: "fst (clear_at p y) = fst y"
  by (cases y) (simp add: clear_at_def)

lemma poss_clear: "poss a (map snd (map (clear_at p) (poss a xs))) = map (clear_at p) (poss a xs)"
proof (induction xs arbitrary: a)
  case (Cons x xs)
  obtain k d e where x: "x = (k, d, e)" by (cases x)
  show ?case using Cons [of "a + elen x"] by (simp add: x clear_at_def)
qed simp

lemma total_clear: "total (map snd (map (clear_at p) (poss a xs))) = total xs"
proof (induction xs arbitrary: a)
  case (Cons x xs)
  obtain k d e where x: "x = (k, d, e)" by (cases x)
  show ?case using Cons [of "a + elen x"] by (simp add: x clear_at_def)
qed simp

lemma chain_clear: "chain hs h (map (clear_at p) L) = chain hs h L"
  by (induction L) (auto simp: chain_def clear_at_def)

lemma items_contents: "map snd (items c new old) = contents new old"
  by (simp add: items_def contents_def rev_map [symmetric])

lemma entry_at_clear:
  assumes "entry_at m p (k, d, e)" and "put32 m (p + 12) 0 = Some m'"
  shows "entry_at m' p (k, d, 0)"
  using assms(1) get32_same [OF assms(2)] get32_other [OF assms(2)] slice_put32_other [OF assms(2)]
  by (auto simp: entry_at_def ENTRY_SIZE_def)

lemma mark_rep:
  assumes "cache_rep c new old" and "(p, k, d, e) \<in> set (items c new old)"
  shows "\<exists>m new' old'. put32 (cx c) (p + 12) 0 = Some m \<and> cache_rep (c\<lparr>cx := m\<rparr>) new' old' \<and>
    contents new' old' = map snd (map (clear_at p) (items c new old)) \<and> (old' = [] \<longleftrightarrow> old = [])"
proof -
  let ?L = "items c new old" and ?new = "map snd (map (clear_at p) (poss (unat (hsize c)) new))"
    and ?old = "map snd (map (clear_at p) (poss (unat (oldest c)) old))"
  have at: "entry_at (cx c) p (k, d, e)" using assms by (auto simp: cache_rep_def)
  then obtain m where m: "put32 (cx c) (p + 12) 0 = Some m"
    using put32_Some get32_bound [of "cx c" "p + 12"] by (fastforce simp: entry_at_def)
  let ?c = "c\<lparr>cx := m\<rparr>"
  have it: "items ?c ?new ?old = map (clear_at p) ?L" by (simp add: items_def poss_clear [simplified] rev_map)
  have ent: "entry_at m q (k', d', if q = p then 0 else e')" if y: "(q, k', d', e') \<in> set ?L" for q k' d' e'
  proof (cases "q = p")
    case True
    then have "(k', d', e') = (k, d, e)" using eq_key_imp_eq_value [OF items_distinct [OF assms(1)]] y assms(2) by blast
    with True entry_at_clear [OF at m] show ?thesis by simp
  next
    case False
    have "entry_at (cx c) q (k', d', e')" using assms(1) y by (auto simp: cache_rep_def)
    moreover have "p + 12 + 4 \<le> q + 4 \<or> q + elen (k', d', e') \<le> p + 12"
      using items_sep [OF assms(1) y assms(2)] False by (auto simp: ENTRY_SIZE_def)
    ultimately show ?thesis using entry_at_frame [OF _ m [unfolded put32_def]] False by simp
  qed
  have "xlist m 0 (h # chain (hsize c) h ?L)" if h: "h < unat (hsize c)" "4 dvd h" for h
  proof (rule xlist_frame [OF rep_xlist [OF assms(1) h]], rule ballI)
    fix q assume "q \<in> set (h # chain (hsize c) h ?L)"
    then have "node c ?L q" by (rule node_chain [OF _ h])
    from node_entry [OF assms(1) this assms(2)] have "q + 4 \<le> p + 12 \<or> p + 12 + 4 \<le> q" by (auto simp: ENTRY_SIZE_def)
    then show "get32 m q = get32 (cx c) q" by (rule get32_other [OF m])
  qed
  moreover have "\<forall>(q, y) \<in> set (map (clear_at p) ?L). entry_at m q y" using ent by (fastforce simp: clear_at_def)
  moreover have em: "?old = [] \<longleftrightarrow> old = []" by (cases old) auto
  ultimately have "cache_rep ?c ?new ?old"
    using assms(1) put32_length [OF m] unfolding cache_rep_def it by (simp add: chain_clear total_clear [simplified])
  moreover have "contents ?new ?old = map snd (map (clear_at p) ?L)" using items_contents [of ?c ?new ?old] it by simp
  ultimately show ?thesis using m em by blast
qed

lemma find_take: "find P (take n xs) = Some x \<Longrightarrow> find P xs = Some x"
  by (metis append_take_drop_id find_append option.simps(5))

lemma find_filter: "(\<And>x. P x \<Longrightarrow> Q x) \<Longrightarrow> find P (filter Q xs) = find P xs"
  by (induction xs) auto

lemma find_map_snd: "find (\<lambda>(p, x). P x) L = None \<Longrightarrow> find P (map snd L) = None"
  "find (\<lambda>(p, x). P x) L = Some (p, x) \<Longrightarrow> find P (map snd L) = Some x"
  by (induction L) (auto split: if_splits)

lemma mark_items:
  assumes "find (\<lambda>(p, x). live key x) L = Some (p, y)" and "distinct (map fst L)"
  shows "map snd (map (clear_at p) L) = mark key (map snd L)"
  using assms
proof (induction L)
  case (Cons z L)
  obtain q k d e where z: "z = (q, k, d, e)" by (cases z)
  show ?case
  proof (cases "live key (k, d, e)")
    case True
    then have "q = p" using Cons.prems(1) z by simp
    moreover have "map snd (map (clear_at p) L) = map snd L"
    proof -
      have "p \<notin> fst ` set L" using Cons.prems(2) z \<open>q = p\<close> by simp
      then have "clear_at p y = y" if "y \<in> set L" for y using that by (cases y) (force simp: clear_at_def)
      then show ?thesis by simp
    qed
    ultimately show ?thesis using True z by (simp add: clear_at_def)
  next
    case False
    then have f: "find (\<lambda>(p, x). live key x) L = Some (p, y)" using Cons.prems(1) z by simp
    then have "p \<in> fst ` set L" by (force simp: find_Some_iff in_set_conv_nth)
    then have "q \<noteq> p" using Cons.prems(2) z by auto
    with False z Cons.IH [OF f] Cons.prems(2) show ?thesis by (simp add: clear_at_def)
  qed
qed simp

lemma get_rep:
  assumes "cache_rep c new old" and "length key < 2 ^ 32"
  shows "case lookup_entry (hsize c) key (contents new old) of
      None \<Rightarrow> cache_get key now c = Some (None, c)
    | Some (k, d, e) \<Rightarrow>
        if due now (k, d, e)
        then \<exists>m new' old'. cache_get key now c = Some (None, c\<lparr>cx := m\<rparr>) \<and> cache_rep (c\<lparr>cx := m\<rparr>) new' old' \<and>
          contents new' old' = mark key (contents new old) \<and> (old' = [] \<longleftrightarrow> old = [])
        else cache_get key now c = Some (Some d, c\<lparr>cttl := e\<rparr>)"
proof -
  let ?L = "items c new old" and ?h = "unat (cache_hash (hsize c) key)"
  let ?C = "filter (\<lambda>(p, k, d, e). unat (cache_hash (hsize c) k) = ?h) ?L"
  note h = rep_head [OF assms(1), of key]
  have ch: "chain (hsize c) ?h ?L = map fst ?C" by (simp add: chain_def)
  have xl: "get32 (cx c) ?h = Some (word_of_nat (next_pos (map fst ?C)))" "xlist (cx c) ?h (map fst ?C)"
    using rep_xlist [OF assms(1) h] unfolding ch by simp_all
  have ent: "\<forall>(p, x) \<in> set ?C. entry_at (cx c) p x \<and> 0 < p \<and> p + elen x < 2 ^ 32"
  proof clarify
    fix p k d e assume "(p, k, d, e) \<in> set ?C"
    then have y: "(p, k, d, e) \<in> set ?L" by simp
    have "unat (hsize c) \<le> p" "p + elen (k, d, e) \<le> 10 ^ 9"
      using items_range [OF assms(1) y] cache_repD [OF assms(1)] by linarith+
    then show "entry_at (cx c) p (k, d, e) \<and> 0 < p \<and> p + elen (k, d, e) < 2 ^ 32"
      using assms(1) y cache_repD(8) [OF assms(1)] by (auto simp: cache_rep_def)
  qed
  let ?F = "find (\<lambda>(p, x). live key x) (take 101 ?C)"
  have get: "cache_get key now c = (case ?F of
       None \<Rightarrow> Some (None, c)
     | Some (p, k, d, e) \<Rightarrow>
         if due now (k, d, e) then map_option (\<lambda>x. (None, c\<lparr>cx := x\<rparr>)) (put32 (cx c) (p + 12) 0)
         else Some (Some d, c\<lparr>cttl := e\<rparr>))"
    using get_loop_chain [OF xl(2) ent assms(2), of now 100] xl(1) by (simp add: cache_get_def of_unat)
  have sndC: "map snd ?C = filter (\<lambda>(k, d, e). cache_hash (hsize c) k = cache_hash (hsize c) key) (contents new old)"
    unfolding items_contents [of c, symmetric] filter_map
    by (intro arg_cong [of _ _ "map snd"] filter_cong) (auto simp: word_unat_eq_iff)
  show ?thesis
  proof (cases ?F)
    case None
    then have "lookup_entry (hsize c) key (contents new old) = None"
      using find_map_snd(1) [OF None] unfolding lookup_entry_def sndC [symmetric] by (simp add: take_map)
    then show ?thesis using get None by simp
  next
    case (Some y)
    obtain p k d e where y: "y = (p, k, d, e)" by (cases y)
    have lk: "lookup_entry (hsize c) key (contents new old) = Some (k, d, e)"
      using find_map_snd(2) [OF Some [unfolded y]] unfolding lookup_entry_def sndC [symmetric] by (simp add: take_map)
    have all: "find (\<lambda>(p, x). live key x) ?L = Some (p, k, d, e)"
      using find_take [OF Some] y find_filter [of "\<lambda>(p, x). live key x" "\<lambda>(p, k, d, e). unat (cache_hash (hsize c) k) = ?h" ?L]
      by (auto simp: live_def)
    then have mem: "(p, k, d, e) \<in> set ?L" by (metis find_Some_iff nth_mem)
    show ?thesis
    proof (cases "due now (k, d, e)")
      case True
      obtain m new' old' where m: "put32 (cx c) (p + 12) 0 = Some m" "cache_rep (c\<lparr>cx := m\<rparr>) new' old'"
        "contents new' old' = map snd (map (clear_at p) ?L)" "old' = [] \<longleftrightarrow> old = []" using mark_rep [OF assms(1) mem] by blast
      moreover have "map snd (map (clear_at p) ?L) = mark key (contents new old)"
        using mark_items [OF all items_distinct [OF assms(1)]] by (simp add: items_contents)
      ultimately show ?thesis using get Some y lk True by auto
    next
      case False
      then show ?thesis using get Some y lk by simp
    qed
  qed
qed

section \<open>A new cache\<close>

lemma hsize_loop_props:
  assumes "4 dvd h" and "0 < h"
  shows "4 dvd hsize_loop n h \<and> h \<le> hsize_loop n h \<and> hsize_loop n h \<le> max h (2 * n) \<and> n < hsize_loop n h"
  using assms
proof (induction n h rule: hsize_loop.induct)
  case (1 n h)
  show ?case
  proof (cases "h \<le> n")
    case True
    then have "hsize_loop n h = hsize_loop n (2 * h)" using 1(3) by (subst hsize_loop.simps) simp
    with 1(1) [of ] 1(2,3) True show ?thesis by (auto simp: dvd_mult)
  next
    case False
    then have "hsize_loop n h = h" by (subst hsize_loop.simps) simp
    with 1(2,3) False show ?thesis by simp
  qed
qed

lemma getHSize_props:
  assumes "4 \<le> n"
  shows "4 dvd getHSize n" "4 \<le> getHSize n" "getHSize n \<le> n"
  using hsize_loop_props [of 4 "n div ENTRY_SIZE"] assms by (auto simp: getHSize_def ENTRY_SIZE_def max_def split: if_splits)

lemma hsize_loop_power: "0 < h \<Longrightarrow> \<exists>j. hsize_loop n h = h * 2 ^ j"
proof (induction n h rule: hsize_loop.induct)
  case (1 n h)
  show ?case
  proof (cases "h \<le> n")
    case True
    then have "hsize_loop n h = hsize_loop n (2 * h)" using 1(2) by (subst hsize_loop.simps) simp
    moreover obtain j where "hsize_loop n (2 * h) = 2 * h * 2 ^ j" using 1(1,2) True by auto
    ultimately show ?thesis by (intro exI [of _ "Suc j"]) simp
  next
    case False
    then show ?thesis by (subst hsize_loop.simps) (auto intro: exI [of _ 0])
  qed
qed

lemma hsize_loop_least: "0 < h \<Longrightarrow> n < h * 2 ^ j \<Longrightarrow> hsize_loop n h \<le> h * 2 ^ j"
proof (induction j arbitrary: h)
  case 0
  then show ?case by (subst hsize_loop.simps) simp
next
  case (Suc j)
  show ?case
  proof (cases "h \<le> n")
    case True
    then have "hsize_loop n h = hsize_loop n (2 * h)" using Suc.prems(1) by (subst hsize_loop.simps) simp
    with Suc.IH [of "2 * h"] Suc.prems show ?thesis by (simp add: algebra_simps)
  next
    case False
    then show ?thesis by (subst hsize_loop.simps) simp
  qed
qed

lemma getHSize_power: "\<exists>j. getHSize n = 4 * 2 ^ j"
  unfolding getHSize_def by (rule hsize_loop_power) simp

lemma getHSize_above: "n < 16 * getHSize n"
proof -
  have "n div 16 < getHSize n" using hsize_loop_props [of 4 "n div ENTRY_SIZE"] by (simp add: getHSize_def ENTRY_SIZE_def)
  then show ?thesis by (simp add: div_less_iff_less_mult mult.commute)
qed

lemma getHSize_least: "n < 16 * (4 * 2 ^ j) \<Longrightarrow> getHSize n \<le> 4 * 2 ^ j"
  unfolding getHSize_def by (rule hsize_loop_least) (simp_all add: ENTRY_SIZE_def)

text \<open>The table of a cache made for a directory is not larger than the room that was computed for it.\<close>

lemma template_hsize:
  assumes "h = getHSize (s + getHSize s)" and "20 \<le> s"
  shows "getHSize (s + h - 20) \<le> h"
proof -
  obtain j where j: "h = 4 * 2 ^ j" using getHSize_power assms(1) by metis
  obtain i where i: "getHSize s = 4 * 2 ^ i" using getHSize_power by metis
  have "s + h - 20 < 16 * h"
  proof (cases "i < j")
    case True
    then have "(2 :: nat) ^ Suc i \<le> 2 ^ j" by (intro power_increasing) simp_all
    then have "2 * getHSize s \<le> h" using i j by simp
    with getHSize_above [of s] show ?thesis by linarith
  next
    case False
    then have "(2 :: nat) ^ j \<le> 2 ^ i" by (intro power_increasing) simp_all
    then have "h \<le> getHSize s" using i j by simp
    with getHSize_above [of "s + getHSize s"] assms(1) show ?thesis by linarith
  qed
  then show ?thesis using getHSize_least [of _ j] unfolding j by blast
qed

lemma get32_zeros:
  assumes "p + 4 \<le> n"
  shows "get32 (replicate n 0) p = Some 0"
proof -
  have "slice (replicate n (0 :: byte)) p 4 = Some [0, 0, 0, 0]"
    using assms by (simp add: slice_def numeral_eq_Suc)
  then show ?thesis by (simp add: get32_def uint_of_chars_def)
qed

lemma init_rep:
  assumes "24 \<le> sz" and "sz \<le> 10 ^ 9"
  shows "cache_rep (cache_init sz) [] []" and "slack M (cache_init sz) []"
    and "unat (hsize (cache_init sz)) = getHSize (sz - INFO_SIZE)" and "unat (csize (cache_init sz)) = sz - INFO_SIZE"
proof -
  let ?n = "sz - INFO_SIZE"
  have n: "4 \<le> ?n" "?n \<le> 10 ^ 9" using assms by (auto simp: INFO_SIZE_def)
  note g = getHSize_props [OF n(1)]
  have small: "unat (word_of_nat a :: u32) = a" if "a \<le> 10 ^ 9" for a using that by (simp add: unat_of_nat)
  have u: "unat (word_of_nat ?n :: u32) = ?n" "unat (word_of_nat (getHSize ?n) :: u32) = getHSize ?n"
    using n g by (intro small; linarith)+
  show "unat (hsize (cache_init sz)) = getHSize ?n" "unat (csize (cache_init sz)) = ?n"
    using u by (simp_all add: cache_init_def Let_def del: of_nat_diff)
  show "slack M (cache_init sz) []" by (simp add: slack_def)
  have "get32 (replicate ?n 0) h = Some 0" if "h < getHSize ?n" "4 dvd h" for h
    by (rule get32_zeros) (use head_below [OF that(2) g(1) that(1)] g(3) in linarith)
  then show "cache_rep (cache_init sz) [] []"
    using u g n by (simp add: cache_rep_def cache_init_def Let_def items_def chain_def word_le_nat_alt word_less_nat_alt
      del: of_nat_diff)
qed

section \<open>Specification\<close>

datatype cop = Add "byte list" "byte list" u32 u32 | Get "byte list" u32

datatype cout = Stored | Exhausted | Answer "byte list option"

fun cache_step :: "cop \<Rightarrow> cache \<Rightarrow> (cout \<times> cache) option" where
  "cache_step (Add k d ttl now) c =
     map_option (\<lambda>r. case r of None \<Rightarrow> (Exhausted, c) | Some c \<Rightarrow> (Stored, c)) (cache_add k d ttl now c)"
| "cache_step (Get k now) c = map_option (\<lambda>(r, c). (Answer r, c)) (cache_get k now c)"

definition expiry :: "u32 \<Rightarrow> u32 \<Rightarrow> u32" where
  "expiry ttl now = (if ttl \<noteq> 0 then now + ttl else U_NO_TTL)"

text \<open>
  A first-in first-out store of \<open>cap\<close> bytes, its newest entry first: an entry is put in front, and entries are
  given up at the back only when they would not fit together with one more of the largest size \<open>M\<close>.
\<close>

fun fifo_step :: "u32 \<Rightarrow> nat \<Rightarrow> nat \<Rightarrow> cop \<Rightarrow> entry list \<Rightarrow> cout \<Rightarrow> entry list \<Rightarrow> bool" where
  "fifo_step hs cap M (Add k d ttl now) es r es' =
     (r = Stored \<and> (\<exists>i. es' = (k, d, expiry ttl now) # take i es \<and>
        (i < length es \<longrightarrow> cap < total (take (Suc i) es) + elen (k, d, expiry ttl now) + M)))"
| "fifo_step hs cap M (Get k now) es r es' =
     (case lookup_entry hs k es of
        None \<Rightarrow> r = Answer None \<and> es' = es
      | Some x \<Rightarrow> if due now x then r = Answer None \<and> es' = mark k es
          else r = Answer (Some (fst (snd x))) \<and> es' = es)"

fun cop_ok :: "nat \<Rightarrow> cop \<Rightarrow> bool" where
  "cop_ok M (Add k d ttl now) = (elen (k, d, 0) \<le> M)"
| "cop_ok M (Get k now) = (length k < 2 ^ 32)"

definition cache_is :: "u32 \<Rightarrow> nat \<Rightarrow> nat \<Rightarrow> cache \<Rightarrow> entry list \<Rightarrow> bool" where
  "cache_is hs cap M c es \<longleftrightarrow> (\<exists>new old. cache_rep c new old \<and> slack M c old \<and> es = contents new old) \<and>
     hsize c = hs \<and> room c = cap"

lemma cache_isI:
  "cache_rep c new old \<Longrightarrow> slack M c old \<Longrightarrow> hsize c = hs \<Longrightarrow> room c = cap \<Longrightarrow> contents new old = es \<Longrightarrow> cache_is hs cap M c es"
  by (auto simp: cache_is_def)

lemma cache_step_ok:
  assumes "cache_is hs cap M c es" and "cop_ok M x" and "M \<le> cap"
  shows "\<exists>r c' es'. cache_step x c = Some (r, c') \<and> fifo_step hs cap M x es r es' \<and> cache_is hs cap M c' es'"
proof -
  obtain new old where rep: "cache_rep c new old" "slack M c old" "es = contents new old" and c: "hsize c = hs" "room c = cap"
    using assms(1) by (auto simp: cache_is_def)
  show ?thesis
  proof (cases x)
    case (Add k d ttl now)
    let ?e = "expiry ttl now"
    have n: "elen (k, d, ?e) \<le> M" using assms(2) Add by simp
    from add_rep [OF rep(1) _ rep(2) n, of ttl now] c(2) n assms(3)
    obtain c' new' old' i where a: "cache_add k d ttl now c = Some (Some c')" "cache_rep c' new' old'" "slack M c' old'"
      "contents new' old' = (k, d, ?e) # take i (contents new old)" "csize c' = csize c" "hsize c' = hsize c"
      "i < length (contents new old) \<longrightarrow> room c < total (take (Suc i) (contents new old)) + elen (k, d, ?e) + M"
      by (auto simp: expiry_def)
    have "cache_is hs cap M c' (contents new' old')" using a(2,3,5,6) c by (auto simp: cache_is_def room_def)
    with a(1,4,7) rep(3) c(2) Add show ?thesis by auto
  next
    case (Get k now)
    have k: "length k < 2 ^ 32" using assms(2) Get by simp
    show ?thesis
    proof (cases "lookup_entry hs k es")
      case None
      then show ?thesis using get_rep [OF rep(1) k, of now] assms(1) c(1) rep(3) Get by auto
    next
      case (Some y)
      obtain k' d' e' where y: "y = (k', d', e')" by (cases y)
      show ?thesis
      proof (cases "due now y")
        case True
        from get_rep [OF rep(1) k, of now] Some y True c(1) rep(3)
        obtain m new' old' where m: "cache_get k now c = Some (None, c\<lparr>cx := m\<rparr>)" "cache_rep (c\<lparr>cx := m\<rparr>) new' old'"
          "contents new' old' = mark k (contents new old)" "old' = [] \<longleftrightarrow> old = []" by auto
        have "cache_is hs cap M (c\<lparr>cx := m\<rparr>) (mark k es)"
          by (rule cache_isI [OF m(2)]) (use m(3,4) rep(2,3) c in \<open>auto simp: slack_def room_def\<close>)
        with m(1) Some True Get show ?thesis by auto
      next
        case False
        have g: "cache_get k now c = Some (Some d', c\<lparr>cttl := e'\<rparr>)" using get_rep [OF rep(1) k, of now] Some y False c(1) rep(3) by auto
        have "cache_rep (c\<lparr>cttl := e'\<rparr>) new old" using rep(1) by (simp add: cache_rep_def items_def)
        then have "cache_is hs cap M (c\<lparr>cttl := e'\<rparr>) es"
          by (rule cache_isI) (use rep(2,3) c in \<open>auto simp: slack_def room_def\<close>)
        with g Some y False Get show ?thesis by auto
      qed
    qed
  qed
qed

interpretation fifo: loose_simulation cache_step "fifo_step hs cap M" "\<lambda>x. cop_ok M x \<and> M \<le> cap" "cache_is hs cap M" for hs cap M
  by unfold_locales (use cache_step_ok in blast)

section \<open>Properties\<close>

text \<open>
  C2: a new cache of 100 to $10^9$ bytes, driven by any sequence of additions and lookups, always returns, never
  leaves its memory and is never exhausted, as long as no entry is longer than \<open>M\<close> bytes and \<open>M\<close> fits the
  cache. It answers as a first-in first-out store: \<open>get\<close> finds the newest entry of its key among the first
  hundred and one of its chain unless it has expired, and \<open>add\<close> gives up the oldest entries only when they and
  the new one leave less than \<open>M\<close> bytes of the cache.
\<close>

theorem cache_is_fifo:
  assumes "100 \<le> sz" and "sz \<le> 10 ^ 9" and "\<forall>x \<in> set xs. cop_ok M x" and "M \<le> sz - INFO_SIZE - getHSize (sz - INFO_SIZE)"
  shows "\<exists>rs c es. run_ops cache_step xs (cache_init sz) = Some (rs, c) \<and>
    rel_run (fifo_step (hsize c) (room c) M) xs [] rs es \<and> room c = sz - INFO_SIZE - getHSize (sz - INFO_SIZE)"
proof -
  let ?c = "cache_init sz"
  have "24 \<le> sz" using assms(1) by simp
  note i = init_rep [OF this assms(2)]
  have cap: "room ?c = sz - INFO_SIZE - getHSize (sz - INFO_SIZE)" using i(3,4) by (simp add: room_def)
  have start: "cache_is (hsize ?c) (room ?c) M ?c []" by (rule cache_isI [OF i(1,2)]) (simp_all add: contents_def)
  have ok: "\<forall>x \<in> set xs. cop_ok M x \<and> M \<le> room ?c" using assms(3,4) cap by simp
  obtain rs c es where "run_ops cache_step xs ?c = Some (rs, c)" "rel_run (fifo_step (hsize ?c) (room ?c) M) xs [] rs es"
    "cache_is (hsize ?c) (room ?c) M c es" using fifo.run_ok [OF start ok] by blast
  with cap show ?thesis by (auto simp: cache_is_def)
qed

theorem cache_is_fifo_witness:
  "\<exists>rs c es. run_ops cache_step [Add [1] [2, 3] 0 0, Get [1] 5] (cache_init 100) = Some (rs, c) \<and>
     rel_run (fifo_step (hsize c) (room c) 20) [Add [1] [2, 3] 0 0, Get [1] 5] [] rs es"
proof -
  have h: "100 - INFO_SIZE - getHSize (100 - INFO_SIZE) = 72" by code_simp
  have "\<forall>x \<in> set [Add [1] [2, 3] 0 0, Get [1] 5]. cop_ok 20 x" by (simp add: ENTRY_SIZE_def)
  from cache_is_fifo [of 100, OF _ _ this] h show ?thesis by auto
qed

section \<open>Directories\<close>

definition file_entry :: "byte list \<times> byte list \<Rightarrow> entry" where
  "file_entry f = (fst f, snd f @ [NUL], U_NO_TTL)"

lemma load_items_rep:
  assumes "cache_rep c new []" and "\<forall>f \<in> set fs. snd f \<noteq> []" and "unat (writer c) + items_size fs \<le> unat (csize c)"
  shows "\<exists>c'. load_items fs now c = Some (Some c') \<and> cache_rep c' (new @ map file_entry fs) [] \<and> hsize c' = hsize c"
  using assms
proof (induction fs arbitrary: c new)
  case (Cons f fs)
  obtain n t where f: "f = (n, t)" "t \<noteq> []" using Cons.prems(2) by (cases f) auto
  let ?x = "(n, t @ [NUL], U_NO_TTL)"
  have len: "elen ?x = ENTRY_SIZE + length n + length t + 1" by simp
  have o: "oldest c = csize c" using Cons.prems(1) by (simp add: cache_rep_def)
  have fit: "unat (writer c) + elen ?x \<le> unat (oldest c)" using Cons.prems(3) f o by simp
  have room: "elen ?x \<le> room c" using fit [unfolded o] cache_repD(4) [OF Cons.prems(1)] unfolding room_def by linarith
  have "slack (elen ?x) c []" by (simp add: slack_def)
  from add_rep [OF Cons.prems(1) room this order_refl, of 0 now] fit
  obtain c1 where c1: "cache_add n (t @ [NUL]) 0 now c = Some (Some c1)" "cache_rep c1 (new @ [?x]) []" "csize c1 = csize c" "hsize c1 = hsize c"
    by auto
  have "unat (writer c1) = unat (writer c) + elen ?x"
    using c1(2,4) Cons.prems(1) by (simp add: cache_rep_def)
  then have "unat (writer c1) + items_size fs \<le> unat (csize c1)" using Cons.prems(3) c1(3) f len by simp
  moreover have "\<forall>f \<in> set fs. snd f \<noteq> []" using Cons.prems(2) by simp
  ultimately obtain c' where "load_items fs now c1 = Some (Some c')" "cache_rep c' ((new @ [?x]) @ map file_entry fs) []" "hsize c' = hsize c1"
    using Cons.IH [OF c1(2)] by blast
  moreover have "file_entry (n, t) = ?x" by (simp add: file_entry_def)
  ultimately show ?case using c1 f by (simp add: cache_addContent_def)
qed simp

lemma find_unique:
  assumes "x \<in> set xs" and "P x" and "\<And>y. y \<in> set xs \<Longrightarrow> P y \<Longrightarrow> y = x"
  shows "find P xs = Some x"
proof (cases "find P xs")
  case None
  then show ?thesis using assms(1,2) by (auto simp: find_None_iff)
next
  case (Some y)
  then have "y \<in> set xs" "P y" by (auto simp: find_Some_iff)
  then show ?thesis using assms(3) Some by simp
qed

lemma open_template_rep:
  assumes "\<forall>f \<in> set fs. snd f \<noteq> []" and "items_size fs \<le> 5 * 10 ^ 8"
  shows "\<exists>c. open_template fs now = Some (Some c) \<and> cache_rep c (map file_entry fs) []"
proof -
  let ?s = "items_size fs + INFO_SIZE"
  define h where "h = getHSize (?s + getHSize ?s)"
  have s: "20 \<le> ?s" "4 \<le> ?s" by (simp_all add: INFO_SIZE_def)
  have h4: "4 \<le> h" using getHSize_power [of "?s + getHSize ?s"] by (auto simp: h_def)
  have hle: "h \<le> 10 ^ 8 * 4"
  proof -
    have "getHSize ?s \<le> 4 * 2 ^ 23" by (rule getHSize_least) (use assms(2) in \<open>simp add: INFO_SIZE_def\<close>)
    then have "h \<le> 4 * 2 ^ 24" unfolding h_def by (intro getHSize_least) (use assms(2) in \<open>simp add: INFO_SIZE_def\<close>)
    then show ?thesis by simp
  qed
  let ?c = "cache_init (?s + h)"
  have r: "24 \<le> ?s + h" "?s + h \<le> 10 ^ 9" using s h4 hle assms(2) by (simp_all add: INFO_SIZE_def)
  note i = init_rep [OF r]
  have eq: "?s + h - INFO_SIZE = items_size fs + h" by simp
  have "getHSize (items_size fs + h) \<le> h" using template_hsize [OF h_def s(1)] by (simp add: INFO_SIZE_def)
  then have "unat (writer ?c) + items_size fs \<le> unat (csize ?c)"
    using i(1,3,4) unfolding eq by (simp add: cache_rep_def)
  from load_items_rep [OF i(1) assms(1) this, of now]
  obtain c where "load_items fs now ?c = Some (Some c)" "cache_rep c (map file_entry fs) []" by auto
  moreover have "zip (map fst fs) (filter (\<lambda>content. content \<noteq> []) (map snd fs)) = fs"
  proof -
    have "filter (\<lambda>content. content \<noteq> []) (map snd fs) = map snd fs" using assms(1) by (simp add: filter_id_conv)
    then show ?thesis by (simp add: zip_map_fst_snd)
  qed
  ultimately show ?thesis by (auto simp: open_template_def Let_def h_def)
qed



text \<open>
  An entry that has expired uncovers an older one of the same key: the first \<open>get\<close> after its time marks it and finds
  nothing, the next one answers the data that it had replaced. An empty file in a directory shifts the contents
  behind it to the names before them. Loading files into a cache whose entries have wrapped around cuts its
  memory behind the newest entries while the chains still lead to the old ones: the next lookup reads behind the end.
\<close>

theorem cache_defects:
  "map_option fst (run_ops cache_step [Add [1] [10] 0 0, Add [1] [20] 5 0, Get [1] 4, Get [1] 5, Get [1] 6] (cache_init 100)) =
     Some [Stored, Stored, Answer (Some [20]), Answer None, Answer (Some [10])] \<and>
   map_option (map_option (\<lambda>c. (map_option fst (cache_get [97] 0 c), map_option fst (cache_get [98] 0 c)))) (open_template [([97], []), ([98], [7])] 0) =
     Some (Some (Some (Some [7, 0]), Some None)) \<and>
   map_option (\<lambda>(rs, c). (map_option fst (cache_get [3] 0 c), map_option (map_option (\<lambda>c. map_option fst (cache_get [3] 0 c))) (loadContentOf True [] 0 c)))
     (run_ops cache_step (map (\<lambda>k. Add [k] [1, 2, 3, 4, 5, 6, 7] 0 0) [1, 2, 3, 4]) (cache_init 100)) =
     Some (Some (Some [1, 2, 3, 4, 5, 6, 7]), Some (Some None))"
  by code_simp

end
