(* ===== verification/Timer.thy ===== *)
theory Timer
  imports Prelude "HOL-Library.Signed_Division"
begin

text \<open>
  The timers of \<open>src/ulib/timer.cpp\<close>, \<open>src/ulib/event/event_time.cpp\<close> and \<open>src/ulib/timeval.cpp\<close>.

  The objects \<open>UEventTime\<close> lie in a store, by their addresses; using one that is not there, after its deletion,
  is \<open>None\<close>. The nodes of the two lists of the class are the lists of their alarms. The readings of
  \<open>gettimeofday\<close> are a parameter, the n-th call answers the n-th of them; so are the answers of the handlers,
  which do not change the timers themselves. Handlers are logged in the order of their calls. Times are integers:
  the sums of the code stay far inside its \<open>long\<close>.
\<close>

section \<open>Times\<close>

type_synonym time_val = "int \<times> int"

definition U_SECOND :: int where "U_SECOND = 1000000"

definition adjust :: "int \<Rightarrow> int \<Rightarrow> time_val" where
  "adjust sec usec =
     (let riporto = usec sdiv U_SECOND;
          (sec, usec) = (if riporto \<noteq> 0 then (sec + riporto, usec smod U_SECOND) else (sec, usec))
      in if usec < 0 then (sec - 1, usec + U_SECOND) else (sec, usec))"

definition tv_add :: "time_val \<Rightarrow> int \<Rightarrow> int \<Rightarrow> time_val" where
  "tv_add t sec usec = adjust (fst t + sec) (snd t + usec)"

definition tv_sub :: "time_val \<Rightarrow> int \<Rightarrow> int \<Rightarrow> time_val" where
  "tv_sub t sec usec = adjust (fst t - sec) (snd t - usec)"

definition tv_less :: "time_val \<Rightarrow> time_val \<Rightarrow> bool" where
  "tv_less t u \<longleftrightarrow> fst t < fst u \<or> fst t = fst u \<and> snd t < snd u"

definition getMilliSecond :: "time_val \<Rightarrow> int" where
  "getMilliSecond t = fst t * 1000 + snd t sdiv 1000"

section \<open>Events\<close>

record event =
  tv :: time_val
  ctime :: time_val

definition event_less :: "event \<Rightarrow> event \<Rightarrow> bool" where
  "event_less e f =
     (let t1 = fst (ctime e) + fst (tv e); t2 = fst (ctime f) + fst (tv f)
      in t1 < t2 \<or> t1 = t2 \<and> snd (ctime e) + snd (tv e) < snd (ctime f) + snd (tv f))"

definition isOld :: "time_val \<Rightarrow> event \<Rightarrow> bool" where
  "isOld now e =
     (let t1 = fst (ctime e) + fst (tv e)
      in t1 < fst now \<or> t1 = fst now \<and> snd (ctime e) + snd (tv e) < snd now)"

definition isExpired :: "time_val \<Rightarrow> event \<Rightarrow> bool" where
  "isExpired now e =
     (let diff = (fst (ctime e) + fst (tv e) - fst now) * 1000 + (snd (ctime e) + snd (tv e) - snd now) sdiv 1000
      in diff \<le> 0 \<or> diff \<le> getMilliSecond (tv e) sdiv 128)"

definition setTimerVal :: "time_val \<Rightarrow> event \<Rightarrow> time_val" where
  "setTimerVal now e =
     adjust (fst (ctime e) + fst (tv e) - fst now) (snd (ctime e) + snd (tv e) - snd now)"

section \<open>Timers\<close>

record timers =
  events :: "nat \<Rightarrow> event option"
  tm_first :: "nat list"
  pool :: "nat option list"
  timerval :: time_val
  async :: bool
  u_now :: time_val
  ticks :: nat
  called :: "nat list"

type_synonym readings = "nat \<Rightarrow> time_val"
type_synonym handlers = "nat \<Rightarrow> nat \<Rightarrow> int"

text \<open>A reading of the clock, and the deletion of an object.\<close>

definition gettime :: "readings \<Rightarrow> timers \<Rightarrow> timers" where
  "gettime clk s = s\<lparr>u_now := clk (ticks s), ticks := ticks s + 1\<rparr>"

definition delete :: "nat \<Rightarrow> timers \<Rightarrow> timers option" where
  "delete a s = (if events s a = None then None else Some (s\<lparr>events := (events s)(a := None)\<rparr>))"

fun place :: "(nat \<Rightarrow> event option) \<Rightarrow> nat \<Rightarrow> event \<Rightarrow> nat list \<Rightarrow> nat list option" where
  "place ev a e [] = Some [a]"
| "place ev a e (b # bs) =
     Option.bind (ev b) (\<lambda>f. if event_less e f then Some (a # b # bs) else map_option ((#) b) (place ev a e bs))"

definition insertEntry :: "readings \<Rightarrow> nat \<Rightarrow> timers \<Rightarrow> timers option" where
  "insertEntry clk a s = do {
     e \<leftarrow> events s a;
     let s = gettime clk s;
     let e = e\<lparr>ctime := u_now s\<rparr>;
     let ev = (events s)(a := Some e);
     l \<leftarrow> place ev a e (tm_first s);
     Some (s\<lparr>events := ev, tm_first := l\<rparr>)
   }"

definition callHandlerTime :: "readings \<Rightarrow> handlers \<Rightarrow> nat \<Rightarrow> timers \<Rightarrow> timers option" where
  "callHandlerTime clk h a s =
     (let result = h a (length (called s)); s = s\<lparr>called := called s @ [a]\<rparr>
      in if result = 0 then insertEntry clk a s
         else if async s then map_option (\<lambda>s. s\<lparr>pool := None # pool s\<rparr>) (delete a s)
         else Some (s\<lparr>pool := Some a # pool s\<rparr>))"

partial_function (option) timer_loop :: "readings \<Rightarrow> handlers \<Rightarrow> bool \<Rightarrow> timers \<Rightarrow> timers option" where
  "timer_loop clk h bsignal s =
     (case tm_first s of
        [] \<Rightarrow> Some (s\<lparr>timerval := (0, 0)\<rparr>)
      | a # as \<Rightarrow> do {
          e \<leftarrow> events s a;
          if (if bsignal then isExpired (u_now s) e else isOld (u_now s) e)
          then Option.bind (callHandlerTime clk h a (s\<lparr>tm_first := as\<rparr>)) (timer_loop clk h bsignal)
          else Some (s\<lparr>timerval := setTimerVal (u_now s) e\<rparr>)
        })"

declare timer_loop.simps [code]

definition setTimer :: "readings \<Rightarrow> handlers \<Rightarrow> bool \<Rightarrow> timers \<Rightarrow> timers option" where
  "setTimer clk h bsignal s = timer_loop clk h bsignal (gettime clk s)"

definition handlerAlarm :: "readings \<Rightarrow> handlers \<Rightarrow> timers \<Rightarrow> timers option" where
  "handlerAlarm clk h s = setTimer clk h True s"

text \<open>\<open>insert\<close> takes a node from the pool when there is one, and deletes the alarm left in it.\<close>

definition take_node :: "timers \<Rightarrow> timers option" where
  "take_node s = (case pool s of
     [] \<Rightarrow> Some s
   | None # p \<Rightarrow> Some (s\<lparr>pool := p\<rparr>)
   | Some b # p \<Rightarrow> delete b (s\<lparr>pool := p\<rparr>))"

definition timer_insert :: "readings \<Rightarrow> handlers \<Rightarrow> nat \<Rightarrow> bool \<Rightarrow> timers \<Rightarrow> timers option" where
  "timer_insert clk h a set_timer s = do {
     s \<leftarrow> take_node s;
     s \<leftarrow> insertEntry clk a s;
     if set_timer then setTimer clk h False s else Some s
   }"

definition timer_erase :: "readings \<Rightarrow> handlers \<Rightarrow> nat \<Rightarrow> bool \<Rightarrow> bool \<Rightarrow> timers \<Rightarrow> timers option" where
  "timer_erase clk h a flag_reuse set_timer s = do {
     s \<leftarrow> (if a \<in> set (tm_first s)
       then let s = s\<lparr>tm_first := remove1 a (tm_first s)\<rparr>
            in if flag_reuse then delete a (s\<lparr>pool := None # pool s\<rparr>) else Some s
       else Some s);
     if set_timer then setTimer clk h False s else Some s
   }"

fun delete_all :: "nat list \<Rightarrow> timers \<Rightarrow> timers option" where
  "delete_all [] s = Some s"
| "delete_all (a # as) s = Option.bind (delete a s) (delete_all as)"

definition timer_clear :: "bool \<Rightarrow> timers \<Rightarrow> timers option" where
  "timer_clear clean_alarm s =
     map_option (\<lambda>s. s\<lparr>tm_first := [], pool := []\<rparr>)
       (if clean_alarm then Some s
        else delete_all (rev (tm_first s) @ rev (map the (filter (\<lambda>x. x \<noteq> None) (pool s)))) s)"

definition timer_stop :: "timers \<Rightarrow> timers" where
  "timer_stop s = s\<lparr>timerval := (0, 0)\<rparr>"

definition isHandler :: "nat \<Rightarrow> timers \<Rightarrow> bool" where
  "isHandler a s \<longleftrightarrow> a \<in> set (tm_first s)"

definition isRunning :: "timers \<Rightarrow> bool" where
  "isRunning s \<longleftrightarrow> timerval s \<noteq> (0, 0)"

definition timer_empty :: "timers \<Rightarrow> bool" where
  "timer_empty s \<longleftrightarrow> tm_first s = []"

section \<open>Normal times\<close>

lemma sdiv_smod_second:
  "usec = (usec sdiv U_SECOND) * U_SECOND + usec smod U_SECOND" "\<bar>usec smod U_SECOND\<bar> < U_SECOND"
  "usec sdiv U_SECOND = 0 \<Longrightarrow> \<bar>usec\<bar> < U_SECOND"
proof -
  show 1: "usec = (usec sdiv U_SECOND) * U_SECOND + usec smod U_SECOND" by (simp add: sdiv_mult_smod_eq)
  show "\<bar>usec smod U_SECOND\<bar> < U_SECOND"
    by (cases "0 \<le> usec") (use smod_int_compares [of usec U_SECOND] in \<open>auto simp: U_SECOND_def\<close>)
  then show "\<bar>usec\<bar> < U_SECOND" if "usec sdiv U_SECOND = 0" using 1 that by simp
qed

lemma adjust_normal:
  assumes "adjust sec usec = (s, u)"
  shows "0 \<le> u" "u < U_SECOND" "s * U_SECOND + u = sec * U_SECOND + usec"
proof -
  note d = sdiv_smod_second [of usec]
  have pos: "0 < U_SECOND" by (simp add: U_SECOND_def)
  obtain s1 u1 where 1: "(s1, u1) = (if usec sdiv U_SECOND \<noteq> 0 then (sec + usec sdiv U_SECOND, usec smod U_SECOND) else (sec, usec))"
    by (metis surj_pair)
  have b: "\<bar>u1\<bar> < U_SECOND" "s1 * U_SECOND + u1 = sec * U_SECOND + usec"
    using 1 d by (auto simp: algebra_simps split: if_splits)
  have su: "(s, u) = (if u1 < 0 then (s1 - 1, u1 + U_SECOND) else (s1, u1))"
    using assms 1 by (auto simp: adjust_def Let_def split: if_splits)
  show "0 \<le> u" "u < U_SECOND" "s * U_SECOND + u = sec * U_SECOND + usec"
    using su b pos by (auto simp: algebra_simps split: if_splits)
qed

section \<open>Order\<close>

definition key :: "event \<Rightarrow> time_val" where
  "key e = (fst (ctime e) + fst (tv e), snd (ctime e) + snd (tv e))"

lemma event_less_key: "event_less e f = tv_less (key e) (key f)" "isOld now e = tv_less (key e) now"
  by (simp_all add: event_less_def isOld_def key_def tv_less_def Let_def)

lemma tv_less_order: "tv_less t u \<Longrightarrow> tv_less u v \<Longrightarrow> tv_less t v" "\<not> tv_less t u \<Longrightarrow> \<not> tv_less u v \<Longrightarrow> \<not> tv_less t v"
  "\<not> tv_less t t" "tv_less t u \<Longrightarrow> \<not> tv_less u t"
  by (auto simp: tv_less_def)

definition not_after :: "(nat \<Rightarrow> event option) \<Rightarrow> nat \<Rightarrow> nat \<Rightarrow> bool" where
  "not_after ev a b \<longleftrightarrow> \<not> tv_less (key (the (ev b))) (key (the (ev a)))"

fun owned :: "nat option list \<Rightarrow> nat list" where
  "owned [] = []"
| "owned (None # p) = owned p"
| "owned (Some a # p) = a # owned p"

lemma owned_eq: "owned p = map the (filter (\<lambda>x. x \<noteq> None) p)"
  by (induction p rule: owned.induct) simp_all

text \<open>
  The invariant: the list is in the order of \<open>operator<\<close>, no alarm is in the lists twice, and all alarms of the
  lists exist.
\<close>

definition timer_ok :: "timers \<Rightarrow> bool" where
  "timer_ok s \<longleftrightarrow> sorted_wrt (not_after (events s)) (tm_first s) \<and> distinct (tm_first s @ owned (pool s)) \<and>
     (\<forall>a \<in> set (tm_first s) \<union> set (owned (pool s)). events s a \<noteq> None)"

lemma timer_okD:
  assumes "timer_ok s"
  shows "sorted_wrt (not_after (events s)) (tm_first s)" "distinct (tm_first s)" "distinct (owned (pool s))"
    "set (tm_first s) \<inter> set (owned (pool s)) = {}" "\<And>a. a \<in> set (tm_first s) \<Longrightarrow> events s a \<noteq> None"
    "\<And>a. a \<in> set (owned (pool s)) \<Longrightarrow> events s a \<noteq> None"
  using assms by (auto simp: timer_ok_def)

lemma not_after_cong: "a \<in> A \<Longrightarrow> b \<in> A \<Longrightarrow> \<forall>c \<in> A. ev' c = ev c \<Longrightarrow> not_after ev' a b = not_after ev a b"
  by (simp add: not_after_def)

lemma sorted_cong: "\<forall>c \<in> set l. ev' c = ev c \<Longrightarrow> sorted_wrt (not_after ev') l = sorted_wrt (not_after ev) l"
  by (induction l) (auto simp: not_after_def)

lemma place_ok:
  assumes "\<forall>b \<in> set bs. ev b \<noteq> None" and "sorted_wrt (not_after ev) bs" and "ev a = Some e"
  shows "\<exists>xs ys. place ev a e bs = Some (xs @ a # ys) \<and> bs = xs @ ys \<and> sorted_wrt (not_after ev) (xs @ a # ys)"
  using assms
proof (induction bs)
  case (Cons b bs)
  obtain f where f: "ev b = Some f" using Cons.prems(1) by auto
  show ?case
  proof (cases "event_less e f")
    case True
    have "not_after ev a c" if "c \<in> set (b # bs)" for c
    proof (cases "c = b")
      case True
      then show ?thesis using \<open>event_less e f\<close> f Cons.prems(3) by (auto simp: not_after_def event_less_key dest: tv_less_order(4))
    next
      case False
      then have "not_after ev b c" using that Cons.prems(2) by simp
      then show ?thesis using True f Cons.prems(3) by (auto simp: not_after_def event_less_key dest: tv_less_order(1))
    qed
    then show ?thesis using True f Cons.prems(2) by (intro exI [of _ "[]"] exI [of _ "b # bs"]) simp
  next
    case False
    obtain xs ys where x: "place ev a e bs = Some (xs @ a # ys)" "bs = xs @ ys" "sorted_wrt (not_after ev) (xs @ a # ys)"
      using Cons by auto
    have "not_after ev b a" using False f Cons.prems(3) by (simp add: not_after_def event_less_key)
    then have "sorted_wrt (not_after ev) ((b # xs) @ a # ys)" using x(2,3) Cons.prems(2) by auto
    then show ?thesis using x(1,2) False f by (intro exI [of _ "b # xs"] exI [of _ ys]) simp
  qed
qed simp

lemma insertEntry_ok:
  assumes "timer_ok s" and "events s a = Some e" and "a \<notin> set (tm_first s)" and "a \<notin> set (owned (pool s))"
  shows "\<exists>s' xs ys. insertEntry clk a s = Some s' \<and> timer_ok s' \<and> tm_first s = xs @ ys \<and> tm_first s' = xs @ a # ys \<and>
    events s' = (events s)(a \<mapsto> e\<lparr>ctime := clk (ticks s)\<rparr>) \<and> u_now s' = clk (ticks s) \<and> ticks s' = ticks s + 1 \<and>
    pool s' = pool s \<and> called s' = called s \<and> async s' = async s"
proof -
  let ?e = "e\<lparr>ctime := clk (ticks s)\<rparr>"
  let ?ev = "(events s)(a \<mapsto> ?e)"
  note D = timer_okD [OF assms(1)]
  have "sorted_wrt (not_after ?ev) (tm_first s)" using D(1) assms(3) sorted_cong [of "tm_first s" ?ev "events s"] by auto
  moreover have "\<forall>b \<in> set (tm_first s). ?ev b \<noteq> None" using D(5) by auto
  ultimately obtain xs ys where x: "place ?ev a ?e (tm_first s) = Some (xs @ a # ys)" "tm_first s = xs @ ys"
    "sorted_wrt (not_after ?ev) (xs @ a # ys)" using place_ok [of "tm_first s" ?ev a ?e] by auto
  let ?s = "gettime clk s\<lparr>events := ?ev, tm_first := xs @ a # ys\<rparr>"
  have "insertEntry clk a s = Some ?s" using x(1) assms(2) by (simp add: insertEntry_def gettime_def Let_def)
  moreover have "timer_ok ?s"
    using x(2,3) D assms(3,4) by (auto simp: timer_ok_def gettime_def)
  ultimately show ?thesis using x(2)
    by (intro exI [of _ ?s] exI [of _ xs] exI [of _ ys]) (simp add: gettime_def)
qed

section \<open>The loop\<close>

lemma timer_ok_tail:
  assumes "timer_ok s" and "tm_first s = a # as"
  shows "timer_ok (s\<lparr>tm_first := as\<rparr>)" "a \<notin> set as" "a \<notin> set (owned (pool s))"
  using assms by (auto simp: timer_ok_def)

lemma delete_ok:
  assumes "timer_ok s" and "events s a \<noteq> None" and "a \<notin> set (tm_first s)" and "a \<notin> set (owned (pool s))"
  shows "\<exists>s'. delete a s = Some s' \<and> timer_ok s' \<and> s' = s\<lparr>events := (events s)(a := None)\<rparr>"
proof -
  have "sorted_wrt (not_after ((events s)(a := None))) (tm_first s)"
    using timer_okD(1) [OF assms(1)] assms(3) sorted_cong [of "tm_first s" "(events s)(a := None)" "events s"] by auto
  then show ?thesis using assms by (auto simp: delete_def timer_ok_def)
qed

lemma callHandler_ok:
  assumes "timer_ok s" and "tm_first s = a # as"
  shows "\<exists>s'. callHandlerTime clk h a (s\<lparr>tm_first := as\<rparr>) = Some s' \<and> timer_ok s' \<and> called s' = called s @ [a] \<and>
    set (tm_first s') \<subseteq> set (tm_first s) \<and>
    length (tm_first s') = (if h a (length (called s)) = 0 then Suc (length as) else length as) \<and>
    (\<forall>b. b \<noteq> a \<longrightarrow> events s' b = events s b) \<and>
    (if h a (length (called s)) = 0
     then u_now s' = clk (ticks s) \<and> events s' a = map_option (\<lambda>e. e\<lparr>ctime := clk (ticks s)\<rparr>) (events s a) \<and>
       (\<exists>xs ys. as = xs @ ys \<and> tm_first s' = xs @ a # ys)
     else u_now s' = u_now s \<and> tm_first s' = as)"
proof -
  let ?s = "s\<lparr>tm_first := as, called := called s @ [a]\<rparr>"
  note t = timer_ok_tail [OF assms]
  have ok: "timer_ok ?s" using t(1) by (simp add: timer_ok_def)
  obtain e where e: "events s a = Some e" using timer_okD(5) [OF assms(1), of a] assms(2) by auto
  show ?thesis
  proof (cases "h a (length (called s)) = 0")
    case True
    obtain s' xs ys where "insertEntry clk a ?s = Some s'" "timer_ok s'" "as = xs @ ys" "tm_first s' = xs @ a # ys" "called s' = called s @ [a]"
      "events s' = (events s)(a \<mapsto> e\<lparr>ctime := clk (ticks s)\<rparr>)" "u_now s' = clk (ticks s)"
      using insertEntry_ok [OF ok, of a e clk] e t(2,3) by auto
    with True assms(2) e show ?thesis by (intro exI [of _ s']) (auto simp: callHandlerTime_def Let_def)
  next
    case False
    then show ?thesis
      using delete_ok [OF ok, of a] e t(2,3) ok assms(2) by (auto simp: callHandlerTime_def Let_def timer_ok_def)
  qed
qed

definition expired :: "bool \<Rightarrow> time_val \<Rightarrow> event \<Rightarrow> bool" where
  "expired bsignal now e = (if bsignal then isExpired now e else isOld now e)"

text \<open>What the loop leaves: the alarm is set for the first timer, which has not expired, or is off.\<close>

definition armed :: "bool \<Rightarrow> timers \<Rightarrow> bool" where
  "armed bsignal s = (case tm_first s of
     [] \<Rightarrow> timerval s = (0, 0)
   | a # _ \<Rightarrow> (case events s a of
       None \<Rightarrow> False
     | Some e \<Rightarrow> \<not> expired bsignal (u_now s) e \<and> timerval s = setTimerVal (u_now s) e))"

lemma timer_ok_timerval [simp]: "timer_ok (s\<lparr>timerval := v\<rparr>) = timer_ok s"
  by (simp add: timer_ok_def)

lemma timer_ok_gettime [simp]: "timer_ok (gettime clk s) = timer_ok s"
  by (simp add: timer_ok_def gettime_def)

lemma gettime_sel [simp]:
  "tm_first (gettime clk s) = tm_first s" "called (gettime clk s) = called s" "events (gettime clk s) = events s"
  "pool (gettime clk s) = pool s" "async (gettime clk s) = async s" "u_now (gettime clk s) = clk (ticks s)"
  by (simp_all add: gettime_def)

lemma timer_loop_Nil: "tm_first s = [] \<Longrightarrow> timer_loop clk h b s = Some (s\<lparr>timerval := (0, 0)\<rparr>)"
  by (subst timer_loop.simps) simp

lemma timer_loop_Cons:
  assumes "tm_first s = a # as" and "events s a = Some e"
  shows "timer_loop clk h b s =
    (if expired b (u_now s) e then Option.bind (callHandlerTime clk h a (s\<lparr>tm_first := as\<rparr>)) (timer_loop clk h b)
     else Some (s\<lparr>timerval := setTimerVal (u_now s) e\<rparr>))"
  using assms by (subst timer_loop.simps) (simp add: expired_def)

text \<open>When the handlers stop asking to be called again, the loop returns.\<close>

lemma timer_loop_returns:
  assumes "timer_ok s" and "\<forall>a. \<forall>n \<ge> N. h a n \<noteq> 0"
  shows "\<exists>s' cs. timer_loop clk h b s = Some s' \<and> timer_ok s' \<and> armed b s' \<and> called s' = called s @ cs \<and> set cs \<subseteq> set (tm_first s)"
  using assms(1)
proof (induction "(N - length (called s)) + length (tm_first s)" arbitrary: s rule: less_induct)
  case less
  show ?case
  proof (cases "tm_first s")
    case Nil
    then show ?thesis using less.prems by (auto simp: timer_loop_Nil armed_def)
  next
    case (Cons a as)
    then obtain e where e: "events s a = Some e" using timer_okD(5) [OF less.prems, of a] by auto
    show ?thesis
    proof (cases "expired b (u_now s) e")
      case False
      then show ?thesis using less.prems Cons e by (auto simp: timer_loop_Cons armed_def)
    next
      case True
      obtain s1 where s1: "callHandlerTime clk h a (s\<lparr>tm_first := as\<rparr>) = Some s1" "timer_ok s1" "called s1 = called s @ [a]"
        "set (tm_first s1) \<subseteq> set (tm_first s)"
        "length (tm_first s1) = (if h a (length (called s)) = 0 then Suc (length as) else length as)"
        using callHandler_ok [OF less.prems Cons] by blast
      have "length (called s) < N" if "h a (length (called s)) = 0" using assms(2) that by (meson not_le)
      then have "(N - length (called s1)) + length (tm_first s1) < (N - length (called s)) + length (tm_first s)"
        using s1(3,5) Cons by (cases "h a (length (called s)) = 0") auto
      from less.hyps [OF this s1(2)] obtain s' cs where
        "timer_loop clk h b s1 = Some s'" "timer_ok s'" "armed b s'" "called s' = called s1 @ cs" "set cs \<subseteq> set (tm_first s1)" by blast
      with s1 True Cons e show ?thesis by (intro exI [of _ s'] exI [of _ "a # cs"]) (auto simp: timer_loop_Cons)
    qed
  qed
qed

text \<open>And whenever it returns, the invariant holds.\<close>

lemma timer_loop_ok:
  assumes "timer_loop clk h b s = Some s'"
  shows "timer_ok s \<longrightarrow> timer_ok s'"
proof (rule timer_loop.raw_induct [OF _ assms], rule impI)
  fix loop :: "readings \<Rightarrow> handlers \<Rightarrow> bool \<Rightarrow> timers \<Rightarrow> timers option" and clk h b s s'
  assume IH: "\<And>clk h b s s'. loop clk h b s = Some s' \<Longrightarrow> timer_ok s \<longrightarrow> timer_ok s'"
    and body: "(case tm_first s of [] \<Rightarrow> Some (s\<lparr>timerval := (0, 0)\<rparr>)
      | a # as \<Rightarrow> do { e \<leftarrow> events s a;
          if (if b then isExpired (u_now s) e else isOld (u_now s) e)
          then Option.bind (callHandlerTime clk h a (s\<lparr>tm_first := as\<rparr>)) (loop clk h b)
          else Some (s\<lparr>timerval := setTimerVal (u_now s) e\<rparr>) }) = Some s'"
    and ok: "timer_ok s"
  show "timer_ok s'"
  proof (cases "tm_first s")
    case Nil
    then show ?thesis using body ok by auto
  next
    case (Cons a as)
    then obtain e where e: "events s a = Some e" using timer_okD(5) [OF ok, of a] by auto
    obtain s1 where s1: "callHandlerTime clk h a (s\<lparr>tm_first := as\<rparr>) = Some s1" "timer_ok s1"
      using callHandler_ok [OF ok Cons] by blast
    then show ?thesis using body IH [of clk h b s1 s'] Cons e ok by (auto split: if_splits)
  qed
qed

section \<open>Operations\<close>

lemma setTimer_ok: "setTimer clk h b s = Some s' \<Longrightarrow> timer_ok s \<Longrightarrow> timer_ok s'"
  using timer_loop_ok [of clk h b "gettime clk s" s'] by (simp add: setTimer_def)

lemma setTimer_returns:
  assumes "timer_ok s" and "\<forall>a. \<forall>n \<ge> N. h a n \<noteq> 0"
  shows "\<exists>s' cs. setTimer clk h b s = Some s' \<and> timer_ok s' \<and> armed b s' \<and> called s' = called s @ cs \<and> set cs \<subseteq> set (tm_first s)"
  using timer_loop_returns [of "gettime clk s" N h clk b] assms by (simp add: setTimer_def)

lemma take_node_ok:
  assumes "timer_ok s"
  shows "\<exists>s'. take_node s = Some s' \<and> timer_ok s' \<and> tm_first s' = tm_first s \<and> called s' = called s \<and>
    (\<forall>a. a \<notin> set (owned (pool s)) \<longrightarrow> events s' a = events s a \<and> a \<notin> set (owned (pool s')))"
proof -
  consider "pool s = []" | p where "pool s = None # p" | b p where "pool s = Some b # p"
    by (metis list.exhaust option.exhaust)
  then show ?thesis
  proof cases
    case 3
    let ?s = "s\<lparr>pool := p\<rparr>"
    have ok: "timer_ok ?s" "events ?s b \<noteq> None" "b \<notin> set (tm_first ?s)" "b \<notin> set (owned (pool ?s))"
      using assms 3 by (auto simp: timer_ok_def)
    from delete_ok [OF ok] 3 show ?thesis by (auto simp: take_node_def)
  qed (use assms in \<open>auto simp: take_node_def timer_ok_def\<close>)
qed

text \<open>An alarm may be inserted when it exists and is in none of the lists.\<close>

definition insertable :: "nat \<Rightarrow> timers \<Rightarrow> bool" where
  "insertable a s \<longleftrightarrow> events s a \<noteq> None \<and> a \<notin> set (tm_first s) \<and> Some a \<notin> set (pool s)"

lemma owned_set: "a \<in> set (owned p) \<longleftrightarrow> Some a \<in> set p"
  by (induction p rule: owned.induct) auto

lemma insert_node_ok:
  assumes "timer_ok s" and "insertable a s"
  shows "\<exists>s1 s2. take_node s = Some s1 \<and> insertEntry clk a s1 = Some s2 \<and> timer_ok s2 \<and> called s2 = called s \<and>
    set (tm_first s2) = insert a (set (tm_first s))"
proof -
  obtain s1 where s1: "take_node s = Some s1" "timer_ok s1" "tm_first s1 = tm_first s" "called s1 = called s"
    "\<forall>a. a \<notin> set (owned (pool s)) \<longrightarrow> events s1 a = events s a \<and> a \<notin> set (owned (pool s1))" using take_node_ok [OF assms(1)] by blast
  then obtain e where "events s1 a = Some e" "a \<notin> set (tm_first s1)" "a \<notin> set (owned (pool s1))"
    using assms(2) by (auto simp: insertable_def owned_set)
  from insertEntry_ok [OF s1(2) this, of clk] s1 show ?thesis by auto
qed

lemma erase_node_ok:
  assumes "timer_ok s"
  shows "\<exists>s'. (if a \<in> set (tm_first s)
       then let s = s\<lparr>tm_first := remove1 a (tm_first s)\<rparr>
            in if flag_reuse then delete a (s\<lparr>pool := None # pool s\<rparr>) else Some s
       else Some s) = Some s' \<and> timer_ok s' \<and> called s' = called s \<and> set (tm_first s') = set (tm_first s) - {a}"
proof (cases "a \<in> set (tm_first s)")
  case True
  let ?s = "s\<lparr>tm_first := remove1 a (tm_first s), pool := None # pool s\<rparr>"
  note D = timer_okD [OF assms]
  have set: "set (remove1 a (tm_first s)) = set (tm_first s) - {a}" using D(2) by simp
  have "sorted_wrt (not_after (events s)) (remove1 a (tm_first s))"
    using D(1,2) by (simp add: distinct_remove1_removeAll removeAll_filter_not_eq sorted_wrt_filter)
  then have ok: "timer_ok ?s" "timer_ok (s\<lparr>tm_first := remove1 a (tm_first s)\<rparr>)"
    using assms set by (auto simp: timer_ok_def distinct_remove1)
  have "events ?s a \<noteq> None" "a \<notin> set (tm_first ?s)" "a \<notin> set (owned (pool ?s))" using D True set by auto
  from delete_ok [OF ok(1) this] ok(2) True set show ?thesis by (cases flag_reuse) (auto simp: Let_def)
qed (use assms in simp)

lemma delete_all_ok:
  assumes "\<forall>a \<in> set as. events s a \<noteq> None" and "distinct as"
  shows "\<exists>ev. delete_all as s = Some (s\<lparr>events := ev\<rparr>)"
  using assms
proof (induction as arbitrary: s)
  case Nil
  then show ?case by (intro exI [of _ "events s"]) simp
next
  case (Cons a as)
  let ?s = "s\<lparr>events := (events s)(a := None)\<rparr>"
  have "\<forall>b \<in> set as. events ?s b \<noteq> None" using Cons.prems by auto
  from Cons.IH [OF this] Cons.prems obtain ev where "delete_all as ?s = Some (?s\<lparr>events := ev\<rparr>)" by auto
  then show ?case using Cons.prems by (auto simp: delete_def)
qed

lemma clear_ok:
  assumes "timer_ok s"
  shows "\<exists>s'. timer_clear clean s = Some s' \<and> timer_ok s' \<and> tm_first s' = [] \<and> pool s' = []"
proof -
  have "distinct (rev (tm_first s) @ rev (owned (pool s)))" "\<forall>a \<in> set (rev (tm_first s) @ rev (owned (pool s))). events s a \<noteq> None"
    using assms by (auto simp: timer_ok_def)
  from delete_all_ok [OF this(2,1)] show ?thesis
    unfolding timer_clear_def owned_eq [symmetric] by (cases clean) (auto simp: timer_ok_def)
qed

section \<open>Reachable states\<close>

definition timer_init :: "bool \<Rightarrow> timers" where
  "timer_init a = \<lparr>events = \<lambda>_. None, tm_first = [], pool = [], timerval = (0, 0), async = a, u_now = (0, 0), ticks = 0, called = []\<rparr>"

text \<open>
  The program creates alarms and deletes those that are in no list; it inserts alarms that are in no list, erases,
  clears and stops; the signal arrives.
\<close>

inductive timer_step :: "readings \<Rightarrow> handlers \<Rightarrow> timers \<Rightarrow> timers \<Rightarrow> bool" for clk :: readings and h :: handlers where
  Create: "events s a = None \<Longrightarrow> timer_step clk h s (s\<lparr>events := (events s)(a \<mapsto> e)\<rparr>)"
| Destroy: "insertable a s \<Longrightarrow> timer_step clk h s (s\<lparr>events := (events s)(a := None)\<rparr>)"
| Insert: "insertable a s \<Longrightarrow> timer_insert clk h a b s = Some s' \<Longrightarrow> timer_step clk h s s'"
| Erase: "timer_erase clk h a flag_reuse b s = Some s' \<Longrightarrow> timer_step clk h s s'"
| Alarm: "handlerAlarm clk h s = Some s' \<Longrightarrow> timer_step clk h s s'"
| Stop: "timer_step clk h s (timer_stop s)"
| Clear: "timer_clear clean s = Some s' \<Longrightarrow> timer_step clk h s s'"

inductive timer_reach :: "readings \<Rightarrow> handlers \<Rightarrow> timers \<Rightarrow> bool" for clk :: readings and h :: handlers where
  Init: "timer_reach clk h (timer_init a)"
| Step: "timer_reach clk h s \<Longrightarrow> timer_step clk h s s' \<Longrightarrow> timer_reach clk h s'"

lemma timer_step_ok:
  assumes "timer_step clk h s s'" and "timer_ok s"
  shows "timer_ok s'"
  using assms
proof cases
  case (Create a e)
  have "\<forall>b \<in> set (tm_first s). ((events s)(a \<mapsto> e)) b = events s b" using Create(2) timer_okD(5) [OF assms(2), of a] by auto
  then have "sorted_wrt (not_after ((events s)(a \<mapsto> e))) (tm_first s)"
    using sorted_cong [of "tm_first s" "(events s)(a \<mapsto> e)" "events s"] timer_okD(1) [OF assms(2)] by blast
  then show ?thesis using Create assms(2) by (auto simp: timer_ok_def)
next
  case (Destroy a)
  then show ?thesis using delete_ok [OF assms(2), of a] by (auto simp: insertable_def owned_set)
next
  case (Insert a b)
  obtain s1 s2 where s2: "take_node s = Some s1" "insertEntry clk a s1 = Some s2" "timer_ok s2"
    using insert_node_ok [OF assms(2) Insert(1)] by blast
  then show ?thesis using Insert(2) setTimer_ok by (cases b) (auto simp: timer_insert_def)
next
  case (Erase a flag_reuse b)
  from erase_node_ok [OF assms(2), of a flag_reuse] obtain s1 where s1: "timer_ok s1"
    "timer_erase clk h a flag_reuse b s = (if b then setTimer clk h False s1 else Some s1)"
    unfolding timer_erase_def by auto
  then show ?thesis using Erase setTimer_ok [of clk h False s1 s'] by (cases b) auto
next
  case Alarm
  then show ?thesis using setTimer_ok assms(2) by (auto simp: handlerAlarm_def)
next
  case Stop
  then show ?thesis using assms(2) by (simp add: timer_stop_def)
next
  case (Clear clean)
  then show ?thesis using clear_ok [OF assms(2), of clean] by auto
qed

lemma timer_reach_ok: "timer_reach clk h s \<Longrightarrow> timer_ok s"
proof (induction rule: timer_reach.induct)
  case (Init a)
  then show ?case by (simp add: timer_init_def timer_ok_def)
qed (use timer_step_ok in blast)

section \<open>Properties\<close>

text \<open>
  C14: in every state that creating, inserting and erasing alarms, clearing, stopping and signals reach, whatever
  the clock reads and the handlers answer, the list of the timers is in the order \<open>invariant()\<close> asserts, no alarm
  is in it or in the pool twice, and every alarm in the lists exists. In such a state every operation returns,
  without using a deleted alarm, provided that the handlers stop asking to be called again at some time.
  The signal, and an insertion that sets the timer, leave the timer set for the first alarm, which has
  not expired, or off.
\<close>

theorem timers_sound:
  assumes "timer_reach clk h s"
  shows "sorted_wrt (\<lambda>a b. \<not> event_less (the (events s b)) (the (events s a))) (tm_first s) \<and>
    distinct (tm_first s @ owned (pool s)) \<and> (\<forall>a \<in> set (tm_first s) \<union> set (owned (pool s)). events s a \<noteq> None) \<and>
    ((\<forall>a. \<forall>n \<ge> N. h a n \<noteq> 0) \<longrightarrow>
      (\<exists>s'. handlerAlarm clk h s = Some s' \<and> armed True s') \<and>
      (\<forall>a. insertable a s \<longrightarrow> (\<exists>s'. timer_insert clk h a True s = Some s' \<and> armed False s')) \<and>
      (\<forall>a f. \<exists>s'. timer_erase clk h a f True s = Some s' \<and> armed False s') \<and>
      (\<exists>s'. timer_clear c s = Some s' \<and> timer_empty s'))"
proof -
  have ok: "timer_ok s" by (rule timer_reach_ok [OF assms])
  have "not_after (events s) = (\<lambda>a b. \<not> event_less (the (events s b)) (the (events s a)))"
    by (simp add: not_after_def event_less_key fun_eq_iff)
  then have inv: "sorted_wrt (\<lambda>a b. \<not> event_less (the (events s b)) (the (events s a))) (tm_first s)"
    using timer_okD(1) [OF ok] by simp
  have alarm: "\<exists>s'. setTimer clk h b t = Some s' \<and> armed b s'" if "\<forall>a. \<forall>n \<ge> N. h a n \<noteq> 0" "timer_ok t" for b t
    using setTimer_returns [OF that(2,1)] by blast
  have "\<exists>s'. timer_insert clk h a True s = Some s' \<and> armed False s'" if "\<forall>a. \<forall>n \<ge> N. h a n \<noteq> 0" "insertable a s" for a
    using insert_node_ok [OF ok that(2), of clk] alarm [OF that(1), of _ False] by (fastforce simp: timer_insert_def)
  moreover have "\<exists>s'. timer_erase clk h a f True s = Some s' \<and> armed False s'" if "\<forall>a. \<forall>n \<ge> N. h a n \<noteq> 0" for a f
    using erase_node_ok [OF ok, of a f] alarm [OF that, of _ False] unfolding timer_erase_def by fastforce
  ultimately show ?thesis
    using inv ok alarm [OF _ ok, of True] clear_ok [OF ok, of c] by (auto simp: timer_ok_def handlerAlarm_def timer_empty_def)
qed

theorem timers_sound_witness:
  "\<exists>s s'. timer_reach (\<lambda>n. (100, 0)) (\<lambda>a n. -1) s \<and> tm_first s = [7] \<and>
     handlerAlarm (\<lambda>n. (100, 0)) (\<lambda>a n. -1) s = Some s' \<and> armed True s'"
proof -
  let ?clk = "\<lambda>n :: nat. (100, 0) :: time_val" and ?h = "\<lambda>(a :: nat) (n :: nat). -1 :: int"
  let ?s1 = "timer_init False\<lparr>events := (events (timer_init False))(7 \<mapsto> \<lparr>tv = (3, 0), ctime = (0, 0)\<rparr>)\<rparr>"
  have r1: "timer_reach ?clk ?h ?s1"
    by (rule timer_reach.Step [OF timer_reach.Init timer_step.Create]) (simp add: timer_init_def)
  have "insertable 7 ?s1" by (simp add: insertable_def timer_init_def)
  then obtain s where s: "timer_insert ?clk ?h 7 False ?s1 = Some s" "tm_first s = [7]"
    by (auto simp: timer_insert_def take_node_def timer_init_def insertEntry_def gettime_def Let_def)
  have "timer_reach ?clk ?h s" using timer_reach.Step [OF r1 timer_step.Insert [OF \<open>insertable 7 ?s1\<close> s(1)]] .
  with timers_sound [OF this, of 0] s(2) show ?thesis by auto
qed

text \<open>The alarms that are old at a time.\<close>

definition olds :: "time_val \<Rightarrow> timers \<Rightarrow> nat list" where
  "olds t s = filter (\<lambda>a. isOld t (the (events s a))) (tm_first s)"

lemma olds_Nil:
  assumes "timer_ok s" and "tm_first s = a # as" and "\<not> isOld t (the (events s a))"
  shows "olds t s = []"
proof -
  have "\<not> isOld t (the (events s b))" if "b \<in> set as" for b
    using that assms timer_okD(1) [OF assms(1)] by (auto simp: not_after_def event_less_key dest: tv_less_order(2))
  then show ?thesis using assms(2,3) by (auto simp: olds_def filter_empty_conv)
qed

lemma loop_calls_olds:
  assumes "timer_ok s" and "\<forall>n. clk n = t" and "u_now s = t"
    and "\<forall>a \<in> set (tm_first s). 0 \<le> fst (tv (the (events s a))) \<and> 0 \<le> snd (tv (the (events s a)))"
  shows "\<exists>s'. timer_loop clk h False s = Some s' \<and> timer_ok s' \<and> armed False s' \<and> called s' = called s @ olds t s"
  using assms(1,3,4)
proof (induction "length (olds t s)" arbitrary: s rule: less_induct)
  case less
  show ?case
  proof (cases "tm_first s")
    case Nil
    then show ?thesis using less.prems(1) by (auto simp: timer_loop_Nil armed_def olds_def)
  next
    case (Cons a as)
    then obtain e where e: "events s a = Some e" using timer_okD(5) [OF less.prems(1), of a] by auto
    show ?thesis
    proof (cases "isOld t e")
      case False
      then show ?thesis using less.prems Cons e olds_Nil [OF less.prems(1) Cons, of t]
        by (auto simp: timer_loop_Cons armed_def expired_def)
    next
      case True
      obtain s1 where s1: "callHandlerTime clk h a (s\<lparr>tm_first := as\<rparr>) = Some s1" "timer_ok s1" "called s1 = called s @ [a]"
        "set (tm_first s1) \<subseteq> set (tm_first s)" "\<forall>b. b \<noteq> a \<longrightarrow> events s1 b = events s b"
        "if h a (length (called s)) = 0
         then u_now s1 = clk (ticks s) \<and> events s1 a = map_option (\<lambda>e. e\<lparr>ctime := clk (ticks s)\<rparr>) (events s a) \<and>
           (\<exists>xs ys. as = xs @ ys \<and> tm_first s1 = xs @ a # ys)
         else u_now s1 = u_now s \<and> tm_first s1 = as"
        using callHandler_ok [OF less.prems(1) Cons] by blast
      have na: "a \<notin> set as" using timer_ok_tail(2) [OF less.prems(1) Cons] .
      have same: "filter (\<lambda>b. isOld t (the (events s1 b))) bs = filter (\<lambda>b. isOld t (the (events s b))) bs" if "set bs \<subseteq> set as" for bs
        using that na s1(5) by (intro filter_cong) auto
      have fresh: "\<not> isOld t (e\<lparr>ctime := t\<rparr>)" using less.prems(3) Cons e by (auto simp: isOld_def Let_def)
      have old1: "olds t s1 = filter (\<lambda>b. isOld t (the (events s b))) as"
      proof (cases "h a (length (called s)) = 0")
        case True
        then obtain xs ys where "as = xs @ ys" "tm_first s1 = xs @ a # ys" "events s1 a = Some (e\<lparr>ctime := t\<rparr>)"
          using s1(6) e assms(2) by auto
        then show ?thesis using fresh same [of xs] same [of ys] by (simp add: olds_def)
      qed (use s1(6) same [of as] in \<open>simp add: olds_def\<close>)
      have olds: "olds t s = a # olds t s1" using True Cons e unfolding old1 by (simp add: olds_def)
      have now: "u_now s1 = t" using s1(6) less.prems(2) assms(2) by (auto split: if_splits)
      have pos: "\<forall>b \<in> set (tm_first s1). 0 \<le> fst (tv (the (events s1 b))) \<and> 0 \<le> snd (tv (the (events s1 b)))"
      proof
        fix b assume b: "b \<in> set (tm_first s1)"
        show "0 \<le> fst (tv (the (events s1 b))) \<and> 0 \<le> snd (tv (the (events s1 b)))"
        proof (cases "b = a")
          case True
          then have "h a (length (called s)) = 0" using b s1(6) na by (auto split: if_splits)
          then have "events s1 a = Some (e\<lparr>ctime := t\<rparr>)" using s1(6) e assms(2) by auto
          then show ?thesis using True less.prems(3) Cons e by simp
        qed (use b s1(4,5) less.prems(3) in auto)
      qed
      have "length (olds t s1) < length (olds t s)" using olds by simp
      from less.hyps [OF this s1(2) now pos] obtain s' where
        "timer_loop clk h False s1 = Some s'" "timer_ok s'" "armed False s'" "called s' = called s1 @ olds t s1" by blast
      with s1(1,3) True Cons e less.prems(2) olds show ?thesis
        by (intro exI [of _ s']) (simp add: timer_loop_Cons expired_def)
    qed
  qed
qed



lemma normal_unique:
  assumes "s * U_SECOND + u = s' * U_SECOND + u'" and "0 \<le> u" and "u < U_SECOND" and "0 \<le> u'" and "u' < U_SECOND"
  shows "s = s' \<and> u = u'"
proof -
  have "s = (s * U_SECOND + u) div U_SECOND" "s' = (s' * U_SECOND + u') div U_SECOND"
    using assms(2-5) by (simp_all add: U_SECOND_def)
  with assms(1) show ?thesis by simp
qed

text \<open>
  Adding seconds and microseconds to a time, negative ones too, gives the normal form, with from 0 to
  999999 microseconds, of the sum, and subtracting them again gives the time back.
\<close>

theorem time_arithmetic:
  assumes "0 \<le> snd t" and "snd t < U_SECOND"
  shows "0 \<le> snd (tv_add t sec usec) \<and> snd (tv_add t sec usec) < U_SECOND \<and>
    fst (tv_add t sec usec) * U_SECOND + snd (tv_add t sec usec) = (fst t + sec) * U_SECOND + snd t + usec \<and>
    tv_sub (tv_add t sec usec) sec usec = t"
proof -
  obtain s u where su: "tv_add t sec usec = (s, u)" by fastforce
  note a = adjust_normal [OF su [unfolded tv_add_def]]
  obtain s' u' where su': "tv_sub (s, u) sec usec = (s', u')" by fastforce
  note b = adjust_normal [OF su' [unfolded tv_sub_def]]
  have "s' * U_SECOND + u' = fst t * U_SECOND + snd t" using a(3) b(3) by (simp add: algebra_simps)
  from normal_unique [OF this b(1,2) assms] have "tv_sub (s, u) sec usec = t" using su' by (cases t) simp
  with su a show ?thesis by (simp add: algebra_simps)
qed

theorem time_arithmetic_witness: "tv_sub (tv_add (5, 999999) (-7) 3) (-7) 3 = (5, 999999)"
  using time_arithmetic [of "(5, 999999)" "-7" 3] by (simp add: U_SECOND_def)

text \<open>
  The times of alarms are compared without a carry from the microseconds to the seconds. An alarm of 600
  milliseconds made at 0.9 seconds is taken for old at 1.0 seconds, half a second early. An alarm whose handler
  has answered -1 stays in the pool, and inserting it again deletes it before it is used.
\<close>

theorem timer_defects:
  "map_option called
     (Option.bind (timer_insert (\<lambda>n. (0, 900000)) (\<lambda>a n. -1) 1 False
        (timer_init False\<lparr>events := (\<lambda>_. None)(1 := Some \<lparr>tv = (0, 600000), ctime = (0, 0)\<rparr>)\<rparr>))
        (setTimer (\<lambda>n. (1, 0)) (\<lambda>a n. -1) False)) = Some [1] \<and>
   Option.bind (Option.bind (timer_insert (\<lambda>n. (0, 0)) (\<lambda>a n. -1) 1 False
        (timer_init False\<lparr>events := (\<lambda>_. None)(1 := Some \<lparr>tv = (1, 0), ctime = (0, 0)\<rparr>)\<rparr>))
        (handlerAlarm (\<lambda>n. (9, 0)) (\<lambda>a n. -1))) (timer_insert (\<lambda>n. (9, 0)) (\<lambda>a n. -1) 1 False) = None"
proof
  show "map_option called
     (Option.bind (timer_insert (\<lambda>n. (0, 900000)) (\<lambda>a n. -1) 1 False
        (timer_init False\<lparr>events := (\<lambda>_. None)(1 := Some \<lparr>tv = (0, 600000), ctime = (0, 0)\<rparr>)\<rparr>))
        (setTimer (\<lambda>n. (1, 0)) (\<lambda>a n. -1) False)) = Some [1]" by code_simp
  show "Option.bind (Option.bind (timer_insert (\<lambda>n. (0, 0)) (\<lambda>a n. -1) 1 False
        (timer_init False\<lparr>events := (\<lambda>_. None)(1 := Some \<lparr>tv = (1, 0), ctime = (0, 0)\<rparr>)\<rparr>))
        (handlerAlarm (\<lambda>n. (9, 0)) (\<lambda>a n. -1))) (timer_insert (\<lambda>n. (9, 0)) (\<lambda>a n. -1) 1 False) = None"
    by (simp add: timer_insert_def take_node_def timer_init_def insertEntry_def gettime_def handlerAlarm_def setTimer_def
        timer_loop_Cons timer_loop_Nil expired_def isExpired_def callHandlerTime_def delete_def Let_def)
qed

end
