(* ===== verification/Tokenizer.thy ===== *)
theory Tokenizer
  imports Token
begin

text \<open>
  Class \<open>UTokenizer\<close> of \<open>include/ulib/tokenizer.h\<close> and \<open>src/ulib/tokenizer.cpp\<close>. The string of a tokenizer is a part of a memory:
  \<open>tk_str\<close> is the memory from the start of the string on, the pointers \<open>s\<close> and \<open>end\<close> are offsets into it, and what
  follows \<open>end\<close> is there to be read by mistake. A token is a view of the string: where it starts, and its length.
\<close>

section \<open>State\<close>

record tokenizer =
  tk_str :: mem
  tk_s :: nat
  tk_end :: nat
  tk_delim :: "byte list option"

type_synonym view = "nat \<times> nat"

text \<open>The static members, \<open>group_len\<close> being the length of \<open>group\<close>.\<close>

record tk_group =
  group :: "byte list option"
  group_skip :: bool
  avoid_punctuation :: bool

definition tk_new :: "mem \<Rightarrow> nat \<Rightarrow> byte list option \<Rightarrow> tokenizer" where
  "tk_new m n d = \<lparr>tk_str = m, tk_s = 0, tk_end = n, tk_delim = d\<rparr>"

definition setData :: "mem \<Rightarrow> nat \<Rightarrow> tokenizer \<Rightarrow> tokenizer" where
  "setData m n t = t\<lparr>tk_str := m, tk_s := 0, tk_end := n\<rparr>"

definition setDelimiter :: "byte list option \<Rightarrow> tokenizer \<Rightarrow> tokenizer" where
  "setDelimiter sep t = t\<lparr>tk_delim := sep\<rparr>"

definition setGroup :: "byte list option \<Rightarrow> bool \<Rightarrow> tk_group \<Rightarrow> tk_group" where
  "setGroup grp bskip g = g\<lparr>group := grp, group_skip := bskip\<rparr>"

definition setSkipTagXML :: "bool \<Rightarrow> tk_group \<Rightarrow> tk_group" where
  "setSkipTagXML flag g = (if flag then setGroup (Some (bytes ''<>'')) True g else setGroup None False g)"

definition setAvoidPunctuation :: "bool \<Rightarrow> tk_group \<Rightarrow> tk_group" where
  "setAvoidPunctuation flag g = g\<lparr>avoid_punctuation := flag\<rparr>"

definition atEnd :: "tokenizer \<Rightarrow> bool" where
  "atEnd t \<longleftrightarrow> tk_s t \<ge> tk_end t"

definition setDistance :: "nat \<Rightarrow> tokenizer \<Rightarrow> tokenizer" where
  "setDistance pos t = t\<lparr>tk_s := pos\<rparr>"

definition getDistance :: "tokenizer \<Rightarrow> nat" where
  "getDistance t = (if tk_s t < tk_end t then tk_s t else tk_end t)"

text \<open>The view \<open>str.substr (p, n)\<close>, and the text of one.\<close>

definition view_text :: "tokenizer \<Rightarrow> view \<Rightarrow> byte list" where
  "view_text t v = take (snd v) (drop (fst v) (tk_str t))"

section \<open>Characters\<close>

definition skipSpaces :: "tokenizer \<Rightarrow> tokenizer option" where
  "skipSpaces t = map_option (\<lambda>s. t\<lparr>tk_s := s\<rparr>) (skip_while u__isspace (tk_str t) (tk_s t) (tk_end t))"

definition tk_current :: "tokenizer \<Rightarrow> byte option" where
  "tk_current t = (if tk_s t \<ge> tk_end t then Some NUL else rd (tk_str t) (tk_s t))"

definition tk_next :: "tokenizer \<Rightarrow> (byte \<times> tokenizer) option" where
  "tk_next t =
     (if tk_s t \<ge> tk_end t then Some (NUL, t)
      else map_option (\<lambda>c. (c, t\<lparr>tk_s := tk_s t + 1\<rparr>)) (rd (tk_str t) (tk_s t)))"

definition tk_back :: "tokenizer \<Rightarrow> tokenizer option" where
  "tk_back t = (if 0 < tk_s t then Some (t\<lparr>tk_s := tk_s t - 1\<rparr>) else None)"

text \<open>\<open>memcmp (s, x, sz) == 0\<close>, reading up to the first difference.\<close>

fun mem_equal :: "mem \<Rightarrow> nat \<Rightarrow> byte list \<Rightarrow> bool option" where
  "mem_equal m s [] = Some True"
| "mem_equal m s (x # xs) = do {
     c \<leftarrow> rd m s;
     if c = x then mem_equal m (Suc s) xs else Some False
   }"

definition tokenSeen :: "byte list \<Rightarrow> tokenizer \<Rightarrow> (bool \<times> tokenizer) option" where
  "tokenSeen x t0 = do {
     t \<leftarrow> skipSpaces t0;
     if tk_s t < tk_end t then do {
       r \<leftarrow> mem_equal (tk_str t) (tk_s t) x;
       Some (if r then (True, t\<lparr>tk_s := tk_s t + length x\<rparr>) else (False, t))
     }
     else Some (False, t)
   }"

text \<open>\<open>str.distance (s)\<close> is the offset from the start of the string.\<close>

definition skipToken :: "byte list \<Rightarrow> tokenizer \<Rightarrow> (bool \<times> tokenizer) option" where
  "skipToken token t =
     (if tk_s t \<ge> length token then do {
        r \<leftarrow> mem_equal (tk_str t) (tk_s t) token;
        Some (if r then (True, t\<lparr>tk_s := tk_s t + length token\<rparr>) else (False, t))
      }
      else Some (False, t))"

text \<open>\<open>skipNumber\<close> answers whether a character stopped it, and whether the number is a real one.\<close>

function skipNumber_loop :: "mem \<Rightarrow> nat \<Rightarrow> nat \<Rightarrow> bool \<Rightarrow> (bool \<times> bool \<times> nat) option" where
  "skipNumber_loop m s e isReal =
     (if s < e then do {
        c \<leftarrow> rd m s;
        if u__isdigit c \<or> c = MINUS then skipNumber_loop m (Suc s) e isReal
        else if c = DOT \<or> c = 101 \<or> c = 69 \<or> c = PLUS then skipNumber_loop m (Suc s) e True
        else Some (True, isReal, s)
      }
      else Some (False, isReal, s))"
  by pat_completeness auto

termination
  by (relation "measure (\<lambda>(m, s, e, r). e - s)") auto

declare skipNumber_loop.simps [simp del]

definition skipNumber :: "tokenizer \<Rightarrow> (bool \<times> bool \<times> tokenizer) option" where
  "skipNumber t = map_option (\<lambda>(r, isReal, s). (r, isReal, t\<lparr>tk_s := s\<rparr>)) (skipNumber_loop (tk_str t) (tk_s t) (tk_end t) False)"

text \<open>For the evaluation: an offset far outside is not turned into a natural number.\<close>

lemma rdi_code [code]: "rdi m i = (if 0 \<le> i \<and> i < int (length m) then Some (m ! nat i) else None)"
  by (auto simp: rdi_def rd_def)

section \<open>Tokens between delimiters\<close>

text \<open>The three overloads of \<open>next\<close>; the token is \<open>None\<close> when they answer false.\<close>

definition next_func :: "(byte \<Rightarrow> bool) \<Rightarrow> tokenizer \<Rightarrow> (view option \<times> tokenizer) option" where
  "next_func func t = do {
     p \<leftarrow> skip_while func (tk_str t) (tk_s t) (tk_end t);
     if p < tk_end t then do {
       s \<leftarrow> skip_while (\<lambda>c. \<not> func c) (tk_str t) p (tk_end t);
       Some (Some (p, s - p), t\<lparr>tk_s := s + 1\<rparr>)
     }
     else Some (None, t\<lparr>tk_s := p\<rparr>)
   }"

definition next_char :: "byte \<Rightarrow> tokenizer \<Rightarrow> (view option \<times> tokenizer) option" where
  "next_char c t = do {
     p \<leftarrow> skip_while (\<lambda>x. x = c) (tk_str t) (tk_s t) (tk_end t);
     if p < tk_end t then do {
       q \<leftarrow> mem_chr (tk_str t) p (tk_end t - p) c;
       let s = (case q of None \<Rightarrow> tk_end t | Some s \<Rightarrow> s);
       Some (Some (p, s - p), t\<lparr>tk_s := s + 1\<rparr>)
     }
     else Some (None, t\<lparr>tk_s := p\<rparr>)
   }"

text \<open>\<open>extend\<close> on an empty token would take the address of the null string: \<open>None\<close>.\<close>

definition extend :: "view \<Rightarrow> byte \<Rightarrow> tokenizer \<Rightarrow> (view option \<times> tokenizer) option" where
  "extend token c t = do {
     s \<leftarrow> skip_while (\<lambda>x. x = c) (tk_str t) (tk_s t) (tk_end t);
     if s < tk_end t then do {
       q \<leftarrow> mem_chr (tk_str t) s (tk_end t - s) c;
       let s = (case q of None \<Rightarrow> tk_end t | Some s \<Rightarrow> s);
       if snd token = 0 \<or> s < fst token then None
       else Some (Some (fst token, s - fst token), t\<lparr>tk_s := s + 1\<rparr>)
     }
     else Some (None, t\<lparr>tk_s := s\<rparr>)
   }"

text \<open>
  The label \<open>tok\<close> of the third overload: with \<open>avoid_punctuation\<close> the token loses the punctuation at its two ends, and
  \<open>None\<close> inside is the \<open>goto loop\<close> for a token of nothing else. The length is an unsigned 32-bit number.
\<close>

function strip_left :: "mem \<Rightarrow> nat \<Rightarrow> nat \<Rightarrow> u32 \<Rightarrow> (nat \<times> u32) option option" where
  "strip_left m s p n = do {
     c \<leftarrow> rd m p;
     if u__ispunct c then
       (if p + 1 = s then Some None else strip_left m s (p + 1) (n - 1))
     else Some (Some (p, n))
   }"
  by pat_completeness auto

termination
  by (relation "measure (\<lambda>(m, s, p, n). length m - p)") (auto simp: rd_Some_iff)

partial_function (option) strip_right :: "mem \<Rightarrow> nat \<Rightarrow> u32 \<Rightarrow> u32 option option" where
  "strip_right m p n =
     Option.bind (rdi m (int p + uint (n - 1))) (\<lambda>c.
       if u__ispunct c then (if n - 1 = 0 then Some None else strip_right m p (n - 1)) else Some (Some n))"

declare strip_left.simps [simp del] strip_right.simps [code]

definition tok :: "tk_group \<Rightarrow> mem \<Rightarrow> nat \<Rightarrow> nat \<Rightarrow> view option option" where
  "tok g m s p =
     (if avoid_punctuation g then do {
        l \<leftarrow> strip_left m s p (word_of_nat (s - p));
        case l of
          None \<Rightarrow> Some None
        | Some (p', n) \<Rightarrow> do {
            r \<leftarrow> strip_right m p' n;
            Some (map_option (\<lambda>n'. (p', unat n')) r)
          }
      }
      else Some (Some (p, s - p)))"

text \<open>
  One pass of the body, up to the label \<open>tok\<close>: the answer false, another test of the loop (a group was skipped), or a token with
  \<open>s\<close>, \<open>p\<close>, \<open>shift\<close> and \<open>*bgroup\<close>.
\<close>

datatype tk_pass = Stop nat | Again nat | Found nat nat nat bool

definition delimited :: "tokenizer \<Rightarrow> nat \<Rightarrow> nat \<Rightarrow> bool \<Rightarrow> tk_pass option" where
  "delimited t s shift bgroup = do {
     (s', p) \<leftarrow> u_delimit_token (tk_str t) s (tk_end t) None NUL;
     p \<leftarrow> p;
     Some (Found s' p shift bgroup)
   }"

definition next_pass :: "tk_group \<Rightarrow> tokenizer \<Rightarrow> nat \<Rightarrow> nat \<Rightarrow> bool \<Rightarrow> tk_pass option" where
  "next_pass g t s0 shift bgroup =
     (let m = tk_str t; e = tk_end t in
      case tk_delim t of
        Some d \<Rightarrow> do {
          (s, p) \<leftarrow> u_delimit_token m s0 e (Some d) NUL;
          Some (case p of None \<Rightarrow> Stop s | Some p \<Rightarrow> Found s p shift bgroup)
        }
      | None \<Rightarrow> do {
          s \<leftarrow> u_skip m s0 e None NUL;
          if s = e then Some (Stop s)
          else case group g of
            None \<Rightarrow> delimited t s shift bgroup
          | Some gr \<Rightarrow> (let half = length gr div 2 in do {
              r \<leftarrow> mem_equal m s (take half gr);
              if r then
                (let p = s + half - 1 in
                 if e < p then None
                 else do {
                   q \<leftarrow> u_strpend (drop p m) (e - p) gr NUL;
                   let s' = (case q of None \<Rightarrow> e | Some k \<Rightarrow> p + k);
                   Some (if group_skip g then Again (s' + half) else Found s' (p + 1) half True)
                 })
              else if group_skip g then do {
                (s', p) \<leftarrow> u_delimit_token m s e None NUL;
                p \<leftarrow> p;
                if s' < e then do {
                  x \<leftarrow> mem_chr m p (s' - p) (gr ! 0);
                  case x of
                    None \<Rightarrow> Some (Found s' p shift bgroup)
                  | Some x \<Rightarrow> do {
                      r \<leftarrow> mem_equal m x (take half gr);
                      Some (if r then Found x p 0 bgroup else Found s' p shift bgroup)
                    }
                }
                else Some (Found s' p shift bgroup)
              }
              else delimited t s shift bgroup
            })
        })"

text \<open>\<open>test\<close> tells whether control comes from the \<open>while\<close>, or from \<open>goto loop\<close>, which does not test \<open>s < end\<close>.\<close>

partial_function (option) next_loop :: "tk_group \<Rightarrow> tokenizer \<Rightarrow> bool \<Rightarrow> nat \<Rightarrow> nat \<Rightarrow> bool \<Rightarrow> (view option \<times> bool \<times> nat) option" where
  "next_loop g t test s shift bgroup =
     (if test \<and> \<not> s < tk_end t then Some (None, bgroup, s)
      else Option.bind (next_pass g t s shift bgroup) (\<lambda>r.
        case r of
          Stop s' \<Rightarrow> Some (None, bgroup, s')
        | Again s' \<Rightarrow> next_loop g t True s' shift bgroup
        | Found s' p shift' bgroup' \<Rightarrow>
            Option.bind (tok g (tk_str t) s' p) (\<lambda>v.
              case v of
                None \<Rightarrow> next_loop g t False s' shift' bgroup'
              | Some v \<Rightarrow> Some (Some v, bgroup', s' + shift'))))"

declare next_loop.simps [code]

text \<open>The token, \<open>*bgroup\<close>, and the tokenizer after the call.\<close>

definition next_group :: "tk_group \<Rightarrow> tokenizer \<Rightarrow> (view option \<times> bool \<times> tokenizer) option" where
  "next_group g t = map_option (\<lambda>(v, b, s). (v, b, t\<lparr>tk_s := s\<rparr>)) (next_loop g t True (tk_s t) 1 False)"

section \<open>Tokens of a query\<close>

definition getTokenQueryParser :: "tokenizer \<Rightarrow> (view \<times> tokenizer) option" where
  "getTokenQueryParser t0 = do {
     t \<leftarrow> skipSpaces t0;
     let p = tk_s t;
     c \<leftarrow> rd (tk_str t) p;
     if c = DQUOTE then do {
       q \<leftarrow> skip_while (\<lambda>x. x \<noteq> DQUOTE) (tk_str t) (p + 1) (tk_end t);
       let s = (if q < tk_end t then q + 1 else q);
       Some ((p, s - p), t\<lparr>tk_s := s\<rparr>)
     }
     else do {
       s \<leftarrow> skip_while (\<lambda>x. \<not> u__isspace x \<and> x \<noteq> 40 \<and> x \<noteq> 41) (tk_str t) (p + 1) (tk_end t);
       Some ((p, s - p), t\<lparr>tk_s := s\<rparr>)
     }
   }"

section \<open>Tokens of an expression\<close>

datatype token_id =
  TK_END | U_TK_ERROR | U_TK_AND | U_TK_OR | U_TK_EQ | U_TK_NE | U_TK_GT | U_TK_GE | U_TK_LT | U_TK_LE |
  U_TK_STARTS_WITH | U_TK_ENDS_WITH | U_TK_IS_PRESENT | U_TK_CONTAINS | U_TK_PLUS | U_TK_MINUS | U_TK_MULT |
  U_TK_DIV | U_TK_MOD | U_TK_NOT | U_TK_FN_CALL | U_TK_LPAREN | U_TK_RPAREN | U_TK_VALUE | U_TK_COMMA |
  U_TK_NAME | U_TK_PID

text \<open>The loop at the label \<open>value\<close>, with the last character read.\<close>

function value_loop :: "mem \<Rightarrow> nat \<Rightarrow> nat \<Rightarrow> byte \<Rightarrow> (nat \<times> byte) option" where
  "value_loop m s e c0 =
     (if s < e then do {
        c \<leftarrow> rd m s;
        if c = 40 \<or> c = 41 \<or> c = 44 \<or> \<not> u__isgraph c then Some (s, c) else value_loop m (Suc s) e c
      }
      else Some (s, c0))"
  by pat_completeness auto

termination
  by (relation "measure (\<lambda>(m, s, e, c). e - s)") auto

declare value_loop.simps [simp del]

text \<open>The outcome of the switch: the token id, \<open>p1\<close>, \<open>p2\<close> and \<open>s\<close>.\<close>

type_synonym switched = "token_id \<times> nat \<times> nat \<times> nat"

definition tk_value :: "mem \<Rightarrow> nat \<Rightarrow> nat \<Rightarrow> nat \<Rightarrow> byte \<Rightarrow> switched option" where
  "tk_value m p1 s e c = map_option (\<lambda>(s', c'). (if c' = 40 then U_TK_FN_CALL else U_TK_VALUE, p1, s', s')) (value_loop m s e c)"

text \<open>A character that \<open>c2\<close> may follow.\<close>

definition tk_pair :: "mem \<Rightarrow> nat \<Rightarrow> nat \<Rightarrow> byte \<Rightarrow> token_id \<Rightarrow> token_id \<Rightarrow> switched option" where
  "tk_pair m p1 s c2 yes no = map_option (\<lambda>c. if c = c2 then (yes, p1, s + 1, s + 1) else (no, p1, s, s)) (rd m s)"

definition tk_dollar :: "mem \<Rightarrow> nat \<Rightarrow> nat \<Rightarrow> nat \<Rightarrow> switched option" where
  "tk_dollar m p1 s e = do {
     c \<leftarrow> rd m s;
     if c = EQUALS then Some (U_TK_ENDS_WITH, p1, s + 1, s + 1)
     else if c = 36 then Some (U_TK_PID, p1, s + 1, s + 1)
     else if c = 123 then map_option (\<lambda>q. (U_TK_NAME, s + 1, q, q + 1)) (skip_while (\<lambda>c. c \<noteq> 125) m (s + 1) e)
     else map_option (\<lambda>q. (U_TK_NAME, s, q, q)) (skip_while u__isname m s e)
   }"

text \<open>\<open>true\<close> and \<open>false\<close>: the token of \<open>false\<close> is empty.\<close>

definition tk_bool :: "mem \<Rightarrow> nat \<Rightarrow> nat \<Rightarrow> nat \<Rightarrow> byte \<Rightarrow> switched option" where
  "tk_bool m p1 s e c = do {
     (r, t) \<leftarrow> skipToken (if c = 116 then bytes ''rue'' else bytes ''alse'') (\<lparr>tk_str = m, tk_s = s, tk_end = e, tk_delim = None\<rparr>);
     if r then Some (U_TK_VALUE, p1, if c = 116 then tk_s t else p1, tk_s t)
     else tk_value m p1 s e c
   }"

definition tk_slash :: "mem \<Rightarrow> nat \<Rightarrow> nat \<Rightarrow> nat \<Rightarrow> switched option" where
  "tk_slash m p1 s e = do {
     c \<leftarrow> rd m s;
     if u__isdigit c \<or> u__isspace c then Some (U_TK_DIV, p1, s, s) else tk_value m p1 s e c
   }"

definition tk_switch :: "mem \<Rightarrow> nat \<Rightarrow> nat \<Rightarrow> nat \<Rightarrow> byte \<Rightarrow> switched option" where
  "tk_switch m p1 s e c =
     (if u__isdigit c then map_option (\<lambda>q. (U_TK_VALUE, p1, q, q)) (skip_while u__isdigit m s e)
      else if c = APOS then map_option (\<lambda>q. (U_TK_VALUE, s, q, q + 1)) (skip_while (\<lambda>c. c \<noteq> APOS) m s e)
      else if c = PLUS then Some (U_TK_PLUS, p1, s, s)
      else if c = MINUS then Some (U_TK_MINUS, p1, s, s)
      else if c = PERCENT then Some (U_TK_MOD, p1, s, s)
      else if c = 40 then Some (U_TK_LPAREN, p1, s, s)
      else if c = 41 then Some (U_TK_RPAREN, p1, s, s)
      else if c = 44 then Some (U_TK_COMMA, p1, s, s)
      else if c = BAR then tk_pair m p1 s BAR U_TK_OR U_TK_ERROR
      else if c = AMP then tk_pair m p1 s AMP U_TK_AND U_TK_ERROR
      else if c = EQUALS then tk_pair m p1 s EQUALS U_TK_EQ U_TK_EQ
      else if c = GREATER then tk_pair m p1 s EQUALS U_TK_GE U_TK_GT
      else if c = LESS then tk_pair m p1 s EQUALS U_TK_LE U_TK_LT
      else if c = 33 then tk_pair m p1 s EQUALS U_TK_NE U_TK_NOT
      else if c = 126 then tk_pair m p1 s EQUALS U_TK_IS_PRESENT U_TK_ERROR
      else if c = CARET then tk_pair m p1 s EQUALS U_TK_STARTS_WITH U_TK_ERROR
      else if c = STAR then tk_pair m p1 s EQUALS U_TK_CONTAINS U_TK_MULT
      else if c = 36 then tk_dollar m p1 s e
      else if c = 116 \<or> c = 102 then tk_bool m p1 s e c
      else if c = SLASH then tk_slash m p1 s e
      else tk_value m p1 s e c)"

definition getTokenId :: "tokenizer \<Rightarrow> (token_id \<times> view \<times> tokenizer) option" where
  "getTokenId t = do {
     p1 \<leftarrow> skip_while u__isspace (tk_str t) (tk_s t) (tk_end t);
     if p1 \<ge> tk_end t then Some (TK_END, (p1, 0), t\<lparr>tk_s := p1\<rparr>)
     else do {
       c \<leftarrow> rd (tk_str t) p1;
       (tid, p1, p2, s) \<leftarrow> tk_switch (tk_str t) p1 (p1 + 1) (tk_end t) c;
       Some (tid, (p1, p2 - p1), t\<lparr>tk_s := s\<rparr>)
     }
   }"

section \<open>All the tokens\<close>

text \<open>The loop of the callers, \<open>while (t.next (token, ...))\<close>: the texts of the tokens.\<close>

partial_function (option) all_tokens :: "(tokenizer \<Rightarrow> (view option \<times> tokenizer) option) \<Rightarrow> tokenizer \<Rightarrow> byte list list option" where
  "all_tokens nxt t =
     Option.bind (nxt t) (\<lambda>(v, t').
       case v of
         None \<Rightarrow> Some []
       | Some v \<Rightarrow> Option.bind (all_tokens nxt t') (\<lambda>vs. Some (view_text t v # vs)))"

declare all_tokens.simps [code]

text \<open>
  What the overloads of \<open>next\<close> have in common: from the position of the tokenizer they skip the delimiters, take the
  characters up to the next one, and leave the position after it.
\<close>

locale word_scanner =
  fixes nxt :: "tokenizer \<Rightarrow> (view option \<times> tokenizer) option"
    and sep :: "byte \<Rightarrow> bool"
    and over :: "byte list \<Rightarrow> tokenizer \<Rightarrow> bool"
  assumes over_text: "over d t \<Longrightarrow> prefix d (tk_str t)"
    and over_move: "over d t \<Longrightarrow> over d (t\<lparr>tk_s := s\<rparr>)"
    and scan_token: "over d t \<Longrightarrow> p = tk_s t + length (takeWhile sep (drop (tk_s t) d)) \<Longrightarrow>
      n = length (takeWhile (\<lambda>c. \<not> sep c) (drop p d)) \<Longrightarrow> p < length d \<Longrightarrow> nxt t = Some (Some (p, n), t\<lparr>tk_s := p + n + 1\<rparr>)"
    and scan_end: "over d t \<Longrightarrow> \<not> tk_s t + length (takeWhile sep (drop (tk_s t) d)) < length d \<Longrightarrow>
      \<exists>s. nxt t = Some (None, t\<lparr>tk_s := s\<rparr>)"
begin

lemma all_words: "over d t \<Longrightarrow> all_tokens nxt t = Some (split_words sep (drop (tk_s t) d))"
proof (induction "Suc (length d) - tk_s t" arbitrary: t rule: less_induct)
  case less
  let ?s = "tk_s t"
  define p where "p = ?s + length (takeWhile sep (drop ?s d))"
  define n where "n = length (takeWhile (\<lambda>c. \<not> sep c) (drop p d))"
  have dw: "dropWhile sep (drop ?s d) = drop p d" by (simp add: p_def dropWhile_eq_drop add.commute)
  show ?case
  proof (cases "p < length d")
    case True
    have nx: "nxt t = Some (Some (p, n), t\<lparr>tk_s := p + n + 1\<rparr>)"
      using scan_token [OF less.prems p_def n_def True] .
    have "view_text t (p, n) = takeWhile (\<lambda>c. \<not> sep c) (drop p d)"
    proof -
      obtain r where "tk_str t = d @ r" using over_text [OF less.prems] by (auto simp: prefix_def)
      then show ?thesis
        using True length_takeWhile_le [of "\<lambda>c. \<not> sep c" "drop p d"]
        by (simp add: view_text_def n_def takeWhile_eq_take [symmetric])
    qed
    moreover have "all_tokens nxt (t\<lparr>tk_s := p + n + 1\<rparr>) = Some (split_words sep (drop (p + n + 1) d))"
      using less.hyps [of "t\<lparr>tk_s := p + n + 1\<rparr>"] over_move [OF less.prems] True by (simp add: p_def)
    ultimately show ?thesis
      using nx split_words_step [OF dw True] by (simp only: all_tokens.simps [of nxt t]) (simp add: n_def)
  next
    case False
    then obtain s where "nxt t = Some (None, t\<lparr>tk_s := s\<rparr>)" using scan_end [OF less.prems] by (auto simp: p_def)
    moreover have "split_words sep (drop ?s d) = []" using dw False by (subst split_words.simps) simp
    ultimately show ?thesis by (simp add: all_tokens.simps [of nxt t])
  qed
qed

end

text \<open>A tokenizer over a text.\<close>

definition over_data :: "byte list \<Rightarrow> tokenizer \<Rightarrow> bool" where
  "over_data d t \<longleftrightarrow> prefix d (tk_str t) \<and> tk_end t = length d"

lemma skip_over:
  assumes "over_data d t"
  shows "skip_while P (tk_str t) s (tk_end t) = Some (s + length (takeWhile P (drop s d)))"
proof (cases "s \<le> length d")
  case True
  obtain r where "tk_str t = d @ r" using assms by (auto simp: over_data_def prefix_def)
  then show ?thesis
    using True assms skip_while_eq [of "length d" "tk_str t" s P] by (simp add: over_data_def)
qed (use assms in \<open>simp add: over_data_def skip_while.simps [of _ _ s]\<close>)

lemma mem_chr_over:
  assumes "over_data d t" "p \<le> length d"
  shows "\<exists>q. mem_chr (tk_str t) p (tk_end t - p) c = Some q \<and>
    (case q of None \<Rightarrow> tk_end t | Some s \<Rightarrow> s) = p + length (takeWhile (\<lambda>x. x \<noteq> c) (drop p d))"
proof -
  obtain r where r: "tk_str t = d @ r" using assms by (auto simp: over_data_def prefix_def)
  then have "take (tk_end t - p) (drop p (tk_str t)) = drop p d" using assms by (simp add: over_data_def)
  then show ?thesis
    using memchr_takeWhile [of "drop p d" c] assms r by (auto simp: mem_chr_def over_data_def split: option.splits)
qed

interpretation by_func: word_scanner "next_func f" f over_data for f
proof
  fix d t p n
  assume o: "over_data d t" and p: "p = tk_s t + length (takeWhile f (drop (tk_s t) d))"
    and n: "n = length (takeWhile (\<lambda>c. \<not> f c) (drop p d))" and lt: "p < length d"
  then show "next_func f t = Some (Some (p, n), t\<lparr>tk_s := p + n + 1\<rparr>)"
    using skip_over [OF o, of f] skip_over [OF o, of "\<lambda>c. \<not> f c" p] by (simp add: next_func_def over_data_def)
next
  fix d t
  assume "over_data d t" "\<not> tk_s t + length (takeWhile f (drop (tk_s t) d)) < length d"
  then show "\<exists>s. next_func f t = Some (None, t\<lparr>tk_s := s\<rparr>)"
    using skip_over [of d t f] by (simp add: next_func_def over_data_def) blast
qed (auto simp: over_data_def)

interpretation by_char: word_scanner "next_char c" "\<lambda>x. x = c" over_data for c
proof
  fix d t p n
  assume o: "over_data d t" and p: "p = tk_s t + length (takeWhile (\<lambda>x. x = c) (drop (tk_s t) d))"
    and n: "n = length (takeWhile (\<lambda>x. x \<noteq> c) (drop p d))" and lt: "p < length d"
  obtain q where "mem_chr (tk_str t) p (tk_end t - p) c = Some q" "(case q of None \<Rightarrow> tk_end t | Some s \<Rightarrow> s) = p + n"
    using mem_chr_over [OF o, of p c] lt n by auto
  then show "next_char c t = Some (Some (p, n), t\<lparr>tk_s := p + n + 1\<rparr>)"
    using skip_over [OF o, of "\<lambda>x. x = c"] o p lt by (simp add: next_char_def over_data_def)
next
  fix d t
  assume "over_data d t" "\<not> tk_s t + length (takeWhile (\<lambda>x. x = c) (drop (tk_s t) d)) < length d"
  then show "\<exists>s. next_char c t = Some (None, t\<lparr>tk_s := s\<rparr>)"
    using skip_over [of d t "\<lambda>x. x = c"] by (simp add: next_char_def over_data_def) blast
qed (auto simp: over_data_def)

text \<open>The third overload, without groups, on a terminated text without quotes.\<close>

definition plain_group :: "tk_group \<Rightarrow> bool" where
  "plain_group g \<longleftrightarrow> group g = None \<and> \<not> avoid_punctuation g"

definition over_plain :: "byte list option \<Rightarrow> byte list \<Rightarrow> tokenizer \<Rightarrow> bool" where
  "over_plain delim d t \<longleftrightarrow> tk_str t = d @ [NUL] \<and> tk_end t = length d \<and> plain_text d \<and> tk_delim t = delim"

definition next_word :: "tk_group \<Rightarrow> tokenizer \<Rightarrow> (view option \<times> tokenizer) option" where
  "next_word g t = map_option (\<lambda>(v, b, t'). (v, t')) (next_group g t)"

lemma takeWhile_skip: "takeWhile P (drop (length (takeWhile P xs)) xs) = []"
  by (induction xs) auto

lemma next_pass_plain:
  assumes "over_plain delim d t" "group g = None" "s \<le> length d"
    and "p = s + length (takeWhile (is_sep delim) (drop s d))"
  shows "if p < length d
    then next_pass g t s 1 False = Some (Found (p + length (takeWhile (\<lambda>c. \<not> is_sep delim c) (drop p d))) p 1 False)
    else \<exists>s'. next_pass g t s 1 False = Some (Stop s')"
proof -
  have d: "tk_str t = d @ [NUL]" "tk_end t = length d" "plain_text d" "tk_delim t = delim"
    using assms(1) by (auto simp: over_plain_def)
  have r: "rest_of d (tk_str t) s" using assms(3) d(1) by (simp add: rest_of_def)
  have le: "p \<le> length d" using assms(3, 4) length_takeWhile_le [of "is_sep delim" "drop s d"] by auto
  note tk = delimit_token_words [OF r d(3) assms(4)]
  show ?thesis
  proof (cases delim)
    case (Some dl)
    then show ?thesis using tk d le by (auto simp: next_pass_def)
  next
    case None
    have rp: "rest_of d (tk_str t) p" using le d(1) by (simp add: rest_of_def)
    have "takeWhile (is_sep None) (drop p d) = []"
      using takeWhile_skip [of "is_sep None" "drop s d"] assms(4) None by (simp add: add.commute)
    then have "u_delimit_token (tk_str t) p (length d) None NUL =
      Some (if p = length d then (Suc (length d), None) else (p + length (takeWhile (\<lambda>c. \<not> is_sep None c) (drop p d)), Some p))"
      using delimit_token_words [OF rp d(3), of p None] by simp
    then show ?thesis
      using u_skip_words [OF r d(3), of None] None d le assms(2, 4) by (auto simp: next_pass_def delimited_def)
  qed
qed

lemma next_word_plain:
  assumes "over_plain delim d t" "plain_group g" "p = tk_s t + length (takeWhile (is_sep delim) (drop (tk_s t) d))"
    and "n = length (takeWhile (\<lambda>c. \<not> is_sep delim c) (drop p d))"
  shows "if p < length d then next_word g t = Some (Some (p, n), t\<lparr>tk_s := p + n + 1\<rparr>)
    else \<exists>s. next_word g t = Some (None, t\<lparr>tk_s := s\<rparr>)"
proof (cases "tk_s t < length d")
  case True
  have g: "group g = None" "\<not> avoid_punctuation g" using assms(2) by (auto simp: plain_group_def)
  show ?thesis
    using next_pass_plain [OF assms(1) g(1) _ assms(3)] True assms(1, 4) g(2)
    by (cases "p < length d") (auto simp: next_word_def next_group_def next_loop.simps [of g t True "tk_s t"] over_plain_def tok_def)
next
  case False
  then show ?thesis
    using assms(1, 3) by (auto intro: exI [of _ "tk_s t"] simp: next_word_def next_group_def next_loop.simps [of g t True "tk_s t"] over_plain_def)
qed

interpretation by_delim: word_scanner "next_word \<lparr>group = None, group_skip = b, avoid_punctuation = False\<rparr>" "is_sep delim" "over_plain delim" for b delim
proof -
  have g: "plain_group \<lparr>group = None, group_skip = b, avoid_punctuation = False\<rparr>" by (simp add: plain_group_def)
  show "word_scanner (next_word \<lparr>group = None, group_skip = b, avoid_punctuation = False\<rparr>) (is_sep delim) (over_plain delim)"
    using next_word_plain [OF _ g refl refl] by unfold_locales (auto simp: over_plain_def)
qed

section \<open>Tokens of an expression: soundness\<close>

text \<open>What the text of a token looks like.\<close>

fun token_form :: "token_id \<Rightarrow> byte list \<Rightarrow> bool" where
  "token_form TK_END w = (w = [])"
| "token_form U_TK_ERROR w = (w \<in> {bytes ''|'', bytes ''&'', bytes ''~'', bytes ''^''})"
| "token_form U_TK_AND w = (w = bytes ''&&'')"
| "token_form U_TK_OR w = (w = bytes ''||'')"
| "token_form U_TK_EQ w = (w \<in> {bytes ''='', bytes ''==''})"
| "token_form U_TK_NE w = (w = bytes ''!='')"
| "token_form U_TK_GT w = (w = bytes ''>'')"
| "token_form U_TK_GE w = (w = bytes ''>='')"
| "token_form U_TK_LT w = (w = bytes ''<'')"
| "token_form U_TK_LE w = (w = bytes ''<='')"
| "token_form U_TK_STARTS_WITH w = (w = bytes ''^='')"
| "token_form U_TK_ENDS_WITH w = (w = bytes ''$='')"
| "token_form U_TK_IS_PRESENT w = (w = bytes ''~='')"
| "token_form U_TK_CONTAINS w = (w = bytes ''*='')"
| "token_form U_TK_PLUS w = (w = bytes ''+'')"
| "token_form U_TK_MINUS w = (w = bytes ''-'')"
| "token_form U_TK_MULT w = (w = bytes ''*'')"
| "token_form U_TK_DIV w = (w = bytes ''/'')"
| "token_form U_TK_MOD w = (w = bytes ''%'')"
| "token_form U_TK_NOT w = (w = bytes ''!'')"
| "token_form U_TK_FN_CALL w = (w \<noteq> [] \<and> list_all (\<lambda>c. c \<noteq> 40 \<and> c \<noteq> 41 \<and> c \<noteq> 44 \<and> \<not> u__isspace c) w)"
| "token_form U_TK_LPAREN w = (w = bytes ''('')"
| "token_form U_TK_RPAREN w = (w = bytes '')'')"
| "token_form U_TK_VALUE w = (list_all u__isdigit w \<or> APOS \<notin> set w \<or> list_all (\<lambda>c. c \<noteq> 40 \<and> c \<noteq> 41 \<and> c \<noteq> 44 \<and> \<not> u__isspace c) w)"
| "token_form U_TK_COMMA w = (w = bytes '','')"
| "token_form U_TK_NAME w = (125 \<notin> set w)"
| "token_form U_TK_PID w = (w = bytes ''$$'')"

definition piece :: "byte list \<Rightarrow> nat \<Rightarrow> nat \<Rightarrow> byte list" where
  "piece d a b = take (b - a) (drop a d)"

definition switched_ok :: "byte list \<Rightarrow> nat \<Rightarrow> switched option \<Rightarrow> bool" where
  "switched_ok d p r \<longleftrightarrow> (\<exists>tid a b s. r = Some (tid, a, b, s) \<and> tid \<noteq> TK_END \<and> p < s \<and> s \<le> length d + 1 \<and>
     a \<le> b \<and> b \<le> length d \<and> token_form tid (piece d a b))"

lemma switched_okI:
  "tid \<noteq> TK_END \<Longrightarrow> p < s \<Longrightarrow> s \<le> length d + 1 \<Longrightarrow> a \<le> b \<Longrightarrow> b \<le> length d \<Longrightarrow> token_form tid (piece d a b) \<Longrightarrow>
   switched_ok d p (Some (tid, a, b, s))"
  by (simp add: switched_ok_def)

lemma piece_Cons: "p < length d \<Longrightarrow> p < b \<Longrightarrow> piece d p b = d ! p # piece d (Suc p) b"
  by (simp add: piece_def Cons_nth_drop_Suc [symmetric] take_Cons')

lemma piece_Nil [simp]: "piece d p p = []"
  by (simp add: piece_def)

lemma piece_takeWhile: "piece d s (s + length (takeWhile P (drop s d))) = takeWhile P (drop s d)"
  by (simp add: piece_def takeWhile_eq_take [symmetric])

lemma skip_terminated: "skip_while P (d @ [NUL]) s (length d) = Some (s + length (takeWhile P (drop s d)))"
  using skip_over [of d "\<lparr>tk_str = d @ [NUL], tk_s = 0, tk_end = length d, tk_delim = None\<rparr>" P s]
  by (simp add: over_data_def)

lemma takeWhile_end: "s \<le> length d \<Longrightarrow> s + length (takeWhile P (drop s d)) \<le> length d"
  using length_takeWhile_le [of P "drop s d"] by simp

lemma rd_text_end: "s \<le> length d \<Longrightarrow> rd (d @ [NUL]) s = Some (if s < length d then d ! s else NUL)"
  by (auto simp: rd_def nth_append)

lemma pair_ok:
  assumes "p < length d" "c2 \<noteq> NUL" "token_form yes [d ! p, c2]" "token_form no [d ! p]" "yes \<noteq> TK_END" "no \<noteq> TK_END"
  shows "switched_ok d p (tk_pair (d @ [NUL]) p (Suc p) c2 yes no)"
  using assms rd_text_end [of "Suc p" d]
  by (auto simp: tk_pair_def piece_Cons intro!: switched_okI split: if_splits)

lemma graph_not_space: "u__isgraph c \<Longrightarrow> \<not> u__isspace c"
  by (rule all_byteI [where P = "\<lambda>c. u__isgraph c \<longrightarrow> \<not> u__isspace c", rule_format]) code_simp

lemma space_not_graph: "\<not> u__isgraph SPACE"
  by code_simp

lemma digit_not_space: "u__isdigit c \<Longrightarrow> \<not> u__isspace c"
  by (rule all_byteI [where P = "\<lambda>c. u__isdigit c \<longrightarrow> \<not> u__isspace c", rule_format]) code_simp

text \<open>The characters of a bare word.\<close>

definition word_char :: "byte \<Rightarrow> bool" where
  "word_char c \<longleftrightarrow> c \<noteq> 40 \<and> c \<noteq> 41 \<and> c \<noteq> 44 \<and> u__isgraph c"

lemma value_loop_terminated:
  assumes "s \<le> length d"
  shows "\<exists>c'. value_loop (d @ [NUL]) s (length d) c = Some (s + length (takeWhile word_char (drop s d)), c')"
  using assms
proof (induction "length d - s" arbitrary: s c)
  case 0
  then show ?case by (simp add: value_loop.simps)
next
  case (Suc n)
  then have "s < length d" by simp
  moreover have "drop s d = d ! s # drop (Suc s) d" using \<open>s < length d\<close> by (simp add: Cons_nth_drop_Suc)
  ultimately show ?case
    using Suc.hyps(1) [of "Suc s" "d ! s"] Suc.hyps(2)
    by (auto simp: value_loop.simps [of _ s] word_char_def)
qed

lemma value_ok:
  assumes "p < length d" "d ! p \<noteq> 40" "d ! p \<noteq> 41" "d ! p \<noteq> 44" "\<not> u__isspace (d ! p)"
  shows "switched_ok d p (tk_value (d @ [NUL]) p (Suc p) (length d) c)"
proof -
  let ?q = "Suc p + length (takeWhile word_char (drop (Suc p) d))"
  obtain c' where v: "value_loop (d @ [NUL]) (Suc p) (length d) c = Some (?q, c')"
    using value_loop_terminated [of "Suc p" d c] assms(1) by auto
  have "piece d p ?q = d ! p # takeWhile word_char (drop (Suc p) d)"
    using assms(1) piece_takeWhile [of d "Suc p" word_char] by (simp add: piece_Cons)
  moreover have "list_all (\<lambda>c. c \<noteq> 40 \<and> c \<noteq> 41 \<and> c \<noteq> 44 \<and> \<not> u__isspace c) (takeWhile word_char (drop (Suc p) d))"
    by (auto simp: list_all_iff word_char_def graph_not_space dest: set_takeWhileD)
  ultimately show ?thesis
    using assms v takeWhile_end [of "Suc p" d word_char] by (auto simp: tk_value_def intro!: switched_okI)
qed

lemma mem_equal_terminated:
  assumes "NUL \<notin> set x" "s \<le> length d"
  shows "mem_equal (d @ [NUL]) s x = Some (prefix x (drop s d))"
  using assms
proof (induction x arbitrary: s)
  case (Cons a x)
  show ?case
  proof (cases "s < length d")
    case True
    then have "drop s d = d ! s # drop (Suc s) d" by (simp add: Cons_nth_drop_Suc)
    then show ?thesis using Cons True by (auto simp: rd_text_end)
  next
    case False
    then show ?thesis using Cons by (auto simp: rd_text_end)
  qed
qed simp

lemma bool_ok:
  assumes "p < length d" "c = d ! p" "c = 116 \<or> c = 102"
  shows "switched_ok d p (tk_bool (d @ [NUL]) p (Suc p) (length d) c)"
proof -
  let ?x = "if c = 116 then bytes ''rue'' else bytes ''alse''"
  have nul: "NUL \<notin> set ?x" by (simp add: bytes_def)
  have v: "switched_ok d p (tk_value (d @ [NUL]) p (Suc p) (length d) c)"
    using assms by (intro value_ok) (auto simp: char_class)
  show ?thesis
  proof (cases "Suc p \<ge> length ?x \<and> prefix ?x (drop (Suc p) d)")
    case True
    then have e: "Suc p + length ?x \<le> length d" using assms(1) prefix_length_le [of ?x "drop (Suc p) d"] by auto
    have "token_form U_TK_VALUE (piece d p (Suc p + length ?x))" if "c = 116"
    proof -
      have "piece d (Suc p) (Suc p + length ?x) = ?x"
        using True by (auto simp: piece_def prefix_def)
      then show ?thesis using that assms(1, 2) by (simp add: piece_Cons bytes_def)
    qed
    then show ?thesis
      using True e nul assms(1) mem_equal_terminated [OF nul, of "Suc p" d]
      by (auto simp: tk_bool_def skipToken_def intro!: switched_okI)
  next
    case False
    then show ?thesis
      using v nul assms(1) mem_equal_terminated [OF nul, of "Suc p" d] by (auto simp: tk_bool_def skipToken_def)
  qed
qed

lemma slash_ok:
  assumes "p < length d" "d ! p = SLASH"
  shows "switched_ok d p (tk_slash (d @ [NUL]) p (Suc p) (length d))"
  using assms rd_text_end [of "Suc p" d] value_ok [of p d]
  by (auto simp: tk_slash_def piece_Cons bytes_def char_class intro!: switched_okI)

lemma scanned_ok:
  assumes "p \<le> a" "a \<le> length d" "Suc p \<le> a + k" "k \<le> 1" "tid \<noteq> TK_END" "token_form tid (takeWhile P (drop a d))"
  shows "switched_ok d p (map_option (\<lambda>q. (tid, a, q, q + k)) (skip_while P (d @ [NUL]) a (length d)))"
  using assms takeWhile_end [of a d P] by (auto simp: skip_terminated piece_takeWhile intro!: switched_okI)

lemma notin_takeWhile: "x \<notin> set (takeWhile (\<lambda>c. c \<noteq> x) xs)"
  by (auto dest: set_takeWhileD)

lemma dollar_ok:
  assumes "p < length d" "d ! p = 36"
  shows "switched_ok d p (tk_dollar (d @ [NUL]) p (Suc p) (length d))"
proof -
  have r: "rd (d @ [NUL]) (Suc p) = Some (if Suc p < length d then d ! Suc p else NUL)"
    using assms(1) by (simp add: rd_text_end)
  have "125 \<notin> set (takeWhile u__isname xs)" for xs by (auto simp: char_class dest!: set_takeWhileD)
  then have "switched_ok d p (map_option (\<lambda>q. (U_TK_NAME, Suc p, q, q + 0)) (skip_while u__isname (d @ [NUL]) (Suc p) (length d)))"
    using assms(1) by (intro scanned_ok) auto
  moreover have "switched_ok d p (map_option (\<lambda>q. (U_TK_NAME, Suc (Suc p), q, q + 1)) (skip_while (\<lambda>c. c \<noteq> 125) (d @ [NUL]) (Suc (Suc p)) (length d)))"
    if "Suc p < length d" using that by (intro scanned_ok) (auto simp: notin_takeWhile)
  ultimately show ?thesis
    using assms r by (auto simp: tk_dollar_def piece_Cons bytes_def intro!: switched_okI)
qed

lemma switch_ok:
  assumes "p < length d" "\<not> u__isspace (d ! p)"
  shows "switched_ok d p (tk_switch (d @ [NUL]) p (Suc p) (length d) (d ! p))"
proof -
  have digits: "switched_ok d p (map_option (\<lambda>q. (U_TK_VALUE, p, q, q)) (skip_while u__isdigit (d @ [NUL]) (Suc p) (length d)))"
    if "u__isdigit (d ! p)"
  proof -
    have "list_all u__isdigit (takeWhile u__isdigit (drop (Suc p) d))" by (auto simp: list_all_iff dest: set_takeWhileD)
    then show ?thesis
      using that assms(1) takeWhile_end [of "Suc p" d u__isdigit] piece_takeWhile [of d "Suc p" u__isdigit]
      by (auto simp: skip_terminated piece_Cons intro!: switched_okI)
  qed
  have quoted: "switched_ok d p (map_option (\<lambda>q. (U_TK_VALUE, Suc p, q, q + 1)) (skip_while (\<lambda>c. c \<noteq> APOS) (d @ [NUL]) (Suc p) (length d)))"
    using assms(1) by (intro scanned_ok) (auto simp: notin_takeWhile)
  have one: "switched_ok d p (Some (tid, p, Suc p, Suc p))" if "token_form tid [d ! p]" "tid \<noteq> TK_END" for tid
    using that assms(1) by (auto simp: piece_Cons intro!: switched_okI)
  note rules = one pair_ok [OF assms(1)] digits [simplified] quoted [simplified] value_ok [OF assms(1)] slash_ok [OF assms(1)]
    bool_ok [OF assms(1) refl] dollar_ok [OF assms(1)]
  show ?thesis
    unfolding tk_switch_def using assms(2) by (simp add: rules bytes_def)
qed

text \<open>The loop \<open>while ((id = t.getTokenId (token)) > 0)\<close> of \<open>UStringExt::evalExpression\<close>: the tokens it reads, and the last id.\<close>

partial_function (option) token_list :: "tokenizer \<Rightarrow> ((token_id \<times> byte list) list \<times> token_id) option" where
  "token_list t =
     Option.bind (getTokenId t) (\<lambda>(tid, v, t').
       if tid = TK_END \<or> tid = U_TK_ERROR then Some ([], tid)
       else Option.bind (token_list t') (\<lambda>(ts, r). Some ((tid, view_text t v) # ts, r)))"

declare token_list.simps [code]

definition tz :: "byte list \<Rightarrow> nat \<Rightarrow> tokenizer" where
  "tz d s = \<lparr>tk_str = d @ [NUL], tk_s = s, tk_end = length d, tk_delim = None\<rparr>"

lemma tz_simps [simp]: "tk_str (tz d s) = d @ [NUL]" "tk_s (tz d s) = s" "tk_end (tz d s) = length d" "tk_delim (tz d s) = None"
  "(tz d s)\<lparr>tk_s := s'\<rparr> = tz d s'"
  by (simp_all add: tz_def)

lemma getTokenId_ok:
  "\<exists>tid p n s'. getTokenId (tz d s) = Some (tid, (p, n), tz d s') \<and> token_form tid (view_text (tz d s) (p, n)) \<and>
     (tid = TK_END \<longleftrightarrow> list_all u__isspace (drop s d)) \<and> (tid \<noteq> TK_END \<longrightarrow> s < s' \<and> s' \<le> length d + 1 \<and> p + n \<le> length d)"
proof -
  define p where "p = s + length (takeWhile u__isspace (drop s d))"
  have sp: "skip_while u__isspace (d @ [NUL]) s (length d) = Some p" by (simp add: skip_terminated p_def)
  have rest: "drop p d = dropWhile u__isspace (drop s d)" by (simp add: p_def dropWhile_eq_drop add.commute)
  show ?thesis
  proof (cases "p < length d")
    case True
    then have "drop p d \<noteq> []" by simp
    then have ns: "\<not> u__isspace (d ! p)" 
      using hd_dropWhile [of u__isspace "drop s d"] hd_drop_conv_nth [OF True] unfolding rest [symmetric] by simp
    then obtain tid a b s' where sw: "tk_switch (d @ [NUL]) p (Suc p) (length d) (d ! p) = Some (tid, a, b, s')"
      "tid \<noteq> TK_END" "p < s'" "s' \<le> length d + 1" "a \<le> b" "b \<le> length d" "token_form tid (piece d a b)"
      using switch_ok [OF True] by (auto simp: switched_ok_def)
    have "view_text (tz d s) (a, b - a) = piece d a b" using sw(5, 6) by (simp add: view_text_def piece_def)
    moreover have "\<not> list_all u__isspace (drop s d)"
      using \<open>drop p d \<noteq> []\<close> rest by (auto simp: list_all_iff dropWhile_eq_Nil_conv)
    ultimately show ?thesis
      using sp sw True rd_text_end [of p d]
      by (intro exI [of _ tid] exI [of _ a] exI [of _ "b - a"] exI [of _ s']) (auto simp: getTokenId_def p_def)
  next
    case False
    then have "dropWhile u__isspace (drop s d) = []" using rest by simp
    then have "list_all u__isspace (drop s d)" by (simp add: list_all_iff dropWhile_eq_Nil_conv)
    then show ?thesis
      using sp False by (intro exI [of _ TK_END] exI [of _ p] exI [of _ 0]) (auto simp: getTokenId_def view_text_def)
  qed
qed

lemma token_list_ok:
  "\<exists>ts r. token_list (tz d s) = Some (ts, r) \<and> list_all (\<lambda>(tid, w). token_form tid w \<and> tid \<noteq> TK_END \<and> tid \<noteq> U_TK_ERROR) ts \<and>
     (r = TK_END \<or> r = U_TK_ERROR)"
proof (induction "length d + 1 - s" arbitrary: s rule: less_induct)
  case less
  obtain tid p n s' where g: "getTokenId (tz d s) = Some (tid, (p, n), tz d s')" "token_form tid (view_text (tz d s) (p, n))"
    "tid \<noteq> TK_END \<longrightarrow> s < s' \<and> s' \<le> length d + 1"
    using getTokenId_ok [of d s] by blast
  show ?case
  proof (cases "tid = TK_END \<or> tid = U_TK_ERROR")
    case True
    then show ?thesis using g(1) by (auto simp: token_list.simps [of "tz d s"])
  next
    case False
    then have "length d + 1 - s' < length d + 1 - s" using g(3) by auto
    then obtain ts r where "token_list (tz d s') = Some (ts, r)"
      "list_all (\<lambda>(tid, w). token_form tid w \<and> tid \<noteq> TK_END \<and> tid \<noteq> U_TK_ERROR) ts" "r = TK_END \<or> r = U_TK_ERROR"
      using less.hyps by blast
    then show ?thesis using g False by (auto simp: token_list.simps [of "tz d s"])
  qed
qed

section \<open>Tokens of a printed expression\<close>

datatype lexeme = Op token_id | Number "byte list" | Quoted "byte list" | Variable "byte list" | Word "byte list" | Call "byte list"

fun op_text :: "token_id \<Rightarrow> byte list option" where
  "op_text U_TK_AND = Some (bytes ''&&'')"
| "op_text U_TK_OR = Some (bytes ''||'')"
| "op_text U_TK_EQ = Some (bytes ''=='')"
| "op_text U_TK_NE = Some (bytes ''!='')"
| "op_text U_TK_GT = Some (bytes ''>'')"
| "op_text U_TK_GE = Some (bytes ''>='')"
| "op_text U_TK_LT = Some (bytes ''<'')"
| "op_text U_TK_LE = Some (bytes ''<='')"
| "op_text U_TK_STARTS_WITH = Some (bytes ''^='')"
| "op_text U_TK_ENDS_WITH = Some (bytes ''$='')"
| "op_text U_TK_IS_PRESENT = Some (bytes ''~='')"
| "op_text U_TK_CONTAINS = Some (bytes ''*='')"
| "op_text U_TK_PLUS = Some (bytes ''+'')"
| "op_text U_TK_MINUS = Some (bytes ''-'')"
| "op_text U_TK_MULT = Some (bytes ''*'')"
| "op_text U_TK_DIV = Some (bytes ''/'')"
| "op_text U_TK_MOD = Some (bytes ''%'')"
| "op_text U_TK_NOT = Some (bytes ''!'')"
| "op_text U_TK_LPAREN = Some (bytes ''('')"
| "op_text U_TK_RPAREN = Some (bytes '')'')"
| "op_text U_TK_COMMA = Some (bytes '','')"
| "op_text U_TK_PID = Some (bytes ''$$'')"
| "op_text _ = None"

text \<open>The first characters for which \<open>getTokenId\<close> does something else than read a word.\<close>

definition special_chars :: "byte list" where
  "special_chars = bytes ''+-%(),|&=><!~^*$tf/'' @ [APOS]"

definition bare_word :: "byte list \<Rightarrow> bool" where
  "bare_word w \<longleftrightarrow> w \<noteq> [] \<and> list_all word_char w \<and> \<not> u__isdigit (hd w) \<and> hd w \<notin> set special_chars"

fun lexeme_ok :: "lexeme \<Rightarrow> bool" where
  "lexeme_ok (Op i) = (op_text i \<noteq> None)"
| "lexeme_ok (Number w) = (w \<noteq> [] \<and> list_all u__isdigit w)"
| "lexeme_ok (Quoted w) = (APOS \<notin> set w)"
| "lexeme_ok (Variable w) = (125 \<notin> set w)"
| "lexeme_ok (Word w) = bare_word w"
| "lexeme_ok (Call w) = bare_word w"

fun print_lexeme :: "lexeme \<Rightarrow> byte list" where
  "print_lexeme (Op i) = the (op_text i)"
| "print_lexeme (Number w) = w"
| "print_lexeme (Quoted w) = APOS # w @ [APOS]"
| "print_lexeme (Variable w) = bytes ''${'' @ w @ bytes ''}''"
| "print_lexeme (Word w) = w"
| "print_lexeme (Call w) = w @ bytes ''(''"

fun lexeme_tokens :: "lexeme \<Rightarrow> (token_id \<times> byte list) list" where
  "lexeme_tokens (Op i) = [(i, the (op_text i))]"
| "lexeme_tokens (Number w) = [(U_TK_VALUE, w)]"
| "lexeme_tokens (Quoted w) = [(U_TK_VALUE, w)]"
| "lexeme_tokens (Variable w) = [(U_TK_NAME, w)]"
| "lexeme_tokens (Word w) = [(U_TK_VALUE, w)]"
| "lexeme_tokens (Call w) = [(U_TK_FN_CALL, w), (U_TK_LPAREN, bytes ''('')]"

definition print_expression :: "lexeme list \<Rightarrow> byte list" where
  "print_expression xs = concat (map (\<lambda>x. print_lexeme x @ [SPACE]) xs)"

text \<open>A token that stands at the position, after \<open>pre\<close>.\<close>

definition reads :: "byte list \<Rightarrow> byte list \<Rightarrow> token_id \<Rightarrow> byte list \<Rightarrow> nat \<Rightarrow> bool" where
  "reads d pre i w s' \<longleftrightarrow> (\<exists>v. getTokenId (tz d (length pre)) = Some (i, v, tz d s') \<and> view_text (tz d (length pre)) v = w)"

lemma reads_switch:
  assumes "d = pre @ c # rest" "\<not> u__isspace c"
    and "tk_switch (d @ [NUL]) (length pre) (Suc (length pre)) (length d) c = Some (i, a, b, s')" "piece (d @ [NUL]) a b = w"
  shows "reads d pre i w s'"
  using assms skip_terminated [of u__isspace d "length pre"]
  by (auto simp: reads_def getTokenId_def view_text_def piece_def)

lemma op_reads:
  assumes "op_text i = Some w" "d = pre @ w @ SPACE # rest"
  shows "reads d pre i w (length pre + length w)"
proof -
  obtain c w' where w: "w = c # w'" using assms(1) by (cases i) (auto simp: bytes_def)
  show ?thesis
  proof (rule reads_switch)
    show "d = pre @ c # w' @ SPACE # rest" using assms(2) w by simp
    show "\<not> u__isspace c" using assms(1) w by (cases i) (auto simp: bytes_def char_class)
    show "tk_switch (d @ [NUL]) (length pre) (Suc (length pre)) (length d) c = Some (i, length pre, length pre + length w, length pre + length w)"
      using assms w by (cases i) (auto simp: bytes_def char_class tk_switch_def tk_pair_def tk_dollar_def tk_slash_def)
    show "piece (d @ [NUL]) (length pre) (length pre + length w) = w" using assms(2) by (simp add: piece_def)
  qed
qed

lemma value_loop_word:
  assumes "d = pre @ w @ c # rest" "list_all word_char w" "\<not> word_char c"
  shows "value_loop (d @ [NUL]) (length pre) (length d) c0 = Some (length pre + length w, c)"
  using assms(1, 2)
proof (induction w arbitrary: pre c0)
  case Nil
  then show ?case using assms(3) by (simp add: value_loop.simps word_char_def)
next
  case (Cons x w)
  then show ?case
    using Cons.IH [of "pre @ [x]" x] by (simp add: value_loop.simps [of _ "length pre"] word_char_def)
qed

lemma word_reads:
  assumes "bare_word w" "d = pre @ w @ c # rest" "\<not> word_char c"
  shows "reads d pre (if c = 40 then U_TK_FN_CALL else U_TK_VALUE) w (length pre + length w)"
proof -
  obtain x w' where w: "w = x # w'" using assms(1) by (cases w) (auto simp: bare_word_def)
  have x: "word_char x" "\<not> u__isdigit x" "x \<notin> set special_chars" "list_all word_char w'"
    using assms(1) w by (auto simp: bare_word_def)
  have "value_loop (d @ [NUL]) (Suc (length pre)) (length d) x = Some (length pre + length w, c)"
    using value_loop_word [of d "pre @ [x]" w' c rest x] assms(2, 3) w x(4) by simp
  then show ?thesis
    using assms(2) w x graph_not_space [of x]
    by (intro reads_switch [of d pre x "w' @ c # rest"])
       (auto simp: tk_switch_def tk_value_def piece_def special_chars_def bytes_def word_char_def)
qed

lemma takeWhile_until: "list_all P w \<Longrightarrow> \<not> P c \<Longrightarrow> takeWhile P (w @ c # rest) = w"
  by (induction w) auto

lemma number_reads:
  assumes "w \<noteq> []" "list_all u__isdigit w" "d = pre @ w @ SPACE # rest"
  shows "reads d pre U_TK_VALUE w (length pre + length w)"
proof -
  obtain x w' where w: "w = x # w'" using assms(1) by (cases w) auto
  have "takeWhile u__isdigit (w' @ SPACE # rest) = w'" using assms(2) w by (intro takeWhile_until) (auto simp: char_class)
  then have "skip_while u__isdigit (d @ [NUL]) (Suc (length pre)) (length d) = Some (length pre + length w)"
    using skip_terminated [of u__isdigit d "Suc (length pre)"] assms(3) w by simp
  then show ?thesis
    using assms w by (intro reads_switch [of d pre x "w' @ SPACE # rest"])
       (auto simp: tk_switch_def piece_def digit_not_space)
qed

lemma quoted_reads:
  assumes "APOS \<notin> set w" "d = pre @ APOS # w @ APOS # rest"
  shows "reads d pre U_TK_VALUE w (length pre + length w + 2)"
proof -
  have "takeWhile (\<lambda>c. c \<noteq> APOS) (w @ APOS # rest) = w" using assms(1) by (intro takeWhile_until) (auto simp: list_all_iff)
  then have "skip_while (\<lambda>c. c \<noteq> APOS) (d @ [NUL]) (Suc (length pre)) (length d) = Some (Suc (length pre) + length w)"
    using skip_terminated [of "\<lambda>c. c \<noteq> APOS" d "Suc (length pre)"] assms(2) by simp
  then show ?thesis
    using assms by (intro reads_switch [of d pre APOS "w @ APOS # rest" _ "Suc (length pre)" "Suc (length pre) + length w"])
       (auto simp: tk_switch_def piece_def char_class)
qed

lemma variable_reads:
  assumes "125 \<notin> set w" "d = pre @ 36 # 123 # w @ 125 # rest"
  shows "reads d pre U_TK_NAME w (length pre + length w + 3)"
proof -
  have "takeWhile (\<lambda>c. c \<noteq> 125) (w @ 125 # rest) = w" using assms(1) by (intro takeWhile_until) (auto simp: list_all_iff)
  then have "skip_while (\<lambda>c. c \<noteq> 125) (d @ [NUL]) (Suc (Suc (length pre))) (length d) = Some (Suc (Suc (length pre)) + length w)"
    using skip_terminated [of "\<lambda>c. c \<noteq> 125" d "Suc (Suc (length pre))"] assms(2) by simp
  then show ?thesis
    using assms by (intro reads_switch [of d pre 36 "123 # w @ 125 # rest" _ "Suc (Suc (length pre))" "Suc (Suc (length pre)) + length w"])
       (auto simp: tk_switch_def tk_dollar_def piece_def char_class)
qed

lemma reads_token_list:
  assumes "reads d pre i w s'" "i \<noteq> TK_END" "i \<noteq> U_TK_ERROR" "token_list (tz d s') = Some (ts, r)"
  shows "token_list (tz d (length pre)) = Some ((i, w) # ts, r)"
  using assms by (auto simp: reads_def token_list.simps [of "tz d (length pre)"])

lemma skip_space_token_list:
  assumes "d = pre @ SPACE # rest"
  shows "token_list (tz d (length pre)) = token_list (tz d (length (pre @ [SPACE])))"
proof -
  have "skip_while u__isspace (d @ [NUL]) (length pre) (length d) = skip_while u__isspace (d @ [NUL]) (Suc (length pre)) (length d)"
    using assms by (subst skip_while.simps) (simp add: char_class)
  then have g: "getTokenId (tz d (length pre)) = getTokenId (tz d (length (pre @ [SPACE])))"
    unfolding getTokenId_def tz_simps by simp
  have v: "view_text (tz d (length pre)) = view_text (tz d (length (pre @ [SPACE])))"
    by (rule ext) (simp add: view_text_def)
  show ?thesis
    unfolding token_list.simps [of "tz d (length pre)"] token_list.simps [of "tz d (length (pre @ [SPACE]))"] g v by (rule refl)
qed

lemma print_reads:
  assumes "lexeme_ok x" "d = pre @ print_lexeme x @ SPACE # rest" "token_list (tz d (length (pre @ print_lexeme x))) = Some (ts, r)"
  shows "token_list (tz d (length pre)) = Some (lexeme_tokens x @ ts, r)"
proof (cases x)
  case (Op i)
  then obtain w where "op_text i = Some w" using assms(1) by auto
  moreover have "i \<noteq> TK_END" "i \<noteq> U_TK_ERROR" using calculation by auto
  ultimately show ?thesis
    using Op assms(2, 3) by (auto intro!: reads_token_list op_reads)
next
  case (Number w)
  then show ?thesis using assms by (auto intro!: reads_token_list number_reads)
next
  case (Quoted w)
  then show ?thesis
    using assms quoted_reads [of w d pre "SPACE # rest"] by (auto intro!: reads_token_list [where s' = "length pre + length w + 2"])
next
  case (Variable w)
  then show ?thesis
    using assms variable_reads [of w d pre "SPACE # rest"]
    by (auto simp: bytes_def numeral_3_eq_3 intro!: reads_token_list [where s' = "length pre + length w + 3"])
next
  case (Word w)
  then show ?thesis
    using assms word_reads [of w d pre SPACE rest] by (auto simp: word_char_def space_not_graph intro!: reads_token_list)
next
  case (Call w)
  have "reads d (pre @ w) U_TK_LPAREN (bytes ''('') (length (pre @ w) + length (bytes ''(''))"
    using op_reads [of U_TK_LPAREN "bytes ''(''" d "pre @ w" rest] assms(2) Call by simp
  then have "token_list (tz d (length (pre @ w))) = Some ((U_TK_LPAREN, bytes ''('') # ts, r)"
    using assms(3) Call by (intro reads_token_list) auto
  then show ?thesis
    using reads_token_list [OF word_reads [of w d pre 40 "SPACE # rest"]] assms(1, 2) Call
    by (simp add: bytes_def word_char_def)
qed

lemma print_token_list:
  assumes "list_all lexeme_ok xs" "d = pre @ print_expression xs"
  shows "token_list (tz d (length pre)) = Some (concat (map lexeme_tokens xs), TK_END)"
  using assms
proof (induction xs arbitrary: pre)
  case Nil
  then show ?case
    by (simp add: print_expression_def token_list.simps getTokenId_def skip_while.simps)
next
  case (Cons x xs)
  let ?p = "pre @ print_lexeme x"
  have d: "d = ?p @ SPACE # print_expression xs" using Cons.prems(2) by (simp add: print_expression_def)
  then have "d = (?p @ [SPACE]) @ print_expression xs" by simp
  from Cons.IH [OF _ this] have "token_list (tz d (length (?p @ [SPACE]))) = Some (concat (map lexeme_tokens xs), TK_END)"
    using Cons.prems(1) by simp
  then have "token_list (tz d (length ?p)) = Some (concat (map lexeme_tokens xs), TK_END)"
    using skip_space_token_list [OF d] by simp
  then show ?case
    using print_reads [of x d pre "print_expression xs"] Cons.prems(1) d by simp
qed

section \<open>Properties\<close>

text \<open>
  The three overloads of \<open>next\<close>, called until they answer false, give the words of the text: the maximal runs
  of characters that are not delimiters. The first two work on any part of a string; the third, without groups, on a
  terminated text without quotes, with white space or a string of delimiters.
\<close>

theorem next_gives_words:
  "all_tokens (next_func f) (tk_new (d @ r) (length d) delim) = Some (split_words f d) \<and>
   all_tokens (next_char c) (tk_new (d @ r) (length d) delim) = Some (split_words (\<lambda>x. x = c) d) \<and>
   (plain_text d \<longrightarrow> all_tokens (next_word \<lparr>group = None, group_skip = b, avoid_punctuation = False\<rparr>) (tk_new (d @ [NUL]) (length d) delim) =
     Some (split_words (is_sep delim) d))"
  using by_func.all_words [of d "tk_new (d @ r) (length d) delim" f] by_char.all_words [of d "tk_new (d @ r) (length d) delim" c]
    by_delim.all_words [of delim d "tk_new (d @ [NUL]) (length d) delim" b]
  by (simp add: over_data_def over_plain_def tk_new_def)

theorem next_gives_words_witness:
  "plain_text (bytes '' mnt  mirror '') \<and>
   all_tokens (next_word \<lparr>group = None, group_skip = False, avoid_punctuation = False\<rparr>) (tk_new (bytes '' mnt  mirror '' @ [NUL]) 13 None) =
     Some [bytes ''mnt'', bytes ''mirror'']"
proof -
  have h: "plain_text (bytes '' mnt  mirror '')" by code_simp
  have "length (bytes '' mnt  mirror '') = 13" by code_simp
  moreover have "split_words (is_sep None) (bytes '' mnt  mirror '') = [bytes ''mnt'', bytes ''mirror'']" by code_simp
  ultimately show ?thesis using next_gives_words [of _ "bytes '' mnt  mirror ''"] h by metis
qed




text \<open>
  What the code does not intend. \<open>skipToken\<close> compares the number of characters wanted with the distance from the start of the
  string: \<open>false\<close> is the empty value in the middle of an expression but the word \<open>false\<close> at its start. Words that
  begin with \<open>true\<close> are cut. With \<open>avoid_punctuation\<close>, an empty quoted token leaves the string. Skipped tags
  do not end a token at the end of the text.
\<close>

theorem tokenizer_defects:
  "token_list (tk_new (bytes ''false'' @ [NUL]) 5 None) = Some ([(U_TK_VALUE, bytes ''false'')], TK_END) \<and>
   token_list (tk_new (bytes ''    false'' @ [NUL]) 9 None) = Some ([(U_TK_VALUE, [])], TK_END) \<and>
   token_list (tk_new (bytes ''(  trueish'' @ [NUL]) 10 None) =
     Some ([(U_TK_LPAREN, bytes ''(''), (U_TK_VALUE, bytes ''true''), (U_TK_VALUE, bytes ''ish'')], TK_END) \<and>
   next_group \<lparr>group = None, group_skip = False, avoid_punctuation = True\<rparr> (tk_new [DQUOTE, DQUOTE, SPACE, 97, NUL] 4 None) = None"
  by code_simp

theorem skip_tags_at_end:
  "let skip = next_word (setSkipTagXML True \<lparr>group = None, group_skip = False, avoid_punctuation = False\<rparr>)
   in all_tokens skip (tk_new (bytes ''<d>03 10</d>'' @ [LF, NUL]) 13 None) = Some [bytes ''03'', bytes ''10''] \<and>
      all_tokens skip (tk_new (bytes ''<d>03 10</d>'' @ [NUL]) 12 None) = Some [bytes ''03'', bytes ''10</d>'']"
  by code_simp

end
