(* ===== verification/Query.thy ===== *)
theory Query
  imports Search
begin

text \<open>
  The boolean queries of \<open>src/ulib/query/query_parser.cpp\<close>: the nodes of a query (class \<open>UQueryNode\<close>), their disjunctive
  normal form, and the evaluation of a query from its normal form (\<open>startEvaluate\<close> and \<open>evaluate\<close> of class
  \<open>UQueryParser\<close>). A tree owns its nodes, so the code's changes in place are new trees here; a vector
  of nodes or words is a list. A dereferenced null pointer is \<open>None\<close>.
\<close>

section \<open>Nodes\<close>

text \<open>
  The value of a node is a reference to a string representation: the address of the representation and the text.
  \<open>UQueryNode (NOT, 0, r)\<close> has no left child, a \<open>VALUE\<close> none at all.
\<close>

type_synonym rep = "u64 \<times> byte list"

datatype query_node =
    is_VALUE: Q_VALUE rep
  | is_AND: Q_AND query_node query_node
  | is_OR: Q_OR query_node query_node
  | is_NOT: Q_NOT query_node

text \<open>The member \<open>value\<close>: the null representation for a node built with children.\<close>

definition node_value :: "query_node \<Rightarrow> rep" where
  "node_value t = (case t of Q_VALUE v \<Rightarrow> v | _ \<Rightarrow> (0, []))"

fun isDisjunctiveNormalForm :: "query_node \<Rightarrow> bool" where
  "isDisjunctiveNormalForm (Q_VALUE v) = True"
| "isDisjunctiveNormalForm (Q_NOT r) =
     (if \<not> isDisjunctiveNormalForm r then False else is_VALUE r \<or> is_NOT r)"
| "isDisjunctiveNormalForm (Q_AND l r) =
     (if \<not> isDisjunctiveNormalForm l \<or> \<not> isDisjunctiveNormalForm r then False else \<not> is_OR l \<and> \<not> is_OR r)"
| "isDisjunctiveNormalForm (Q_OR l r) = (isDisjunctiveNormalForm l \<and> isDisjunctiveNormalForm r)"

primrec cloneTree :: "query_node \<Rightarrow> query_node" where
  "cloneTree (Q_VALUE v) = Q_VALUE v"
| "cloneTree (Q_AND l r) = Q_AND (cloneTree l) (cloneTree r)"
| "cloneTree (Q_OR l r) = Q_OR (cloneTree l) (cloneTree r)"
| "cloneTree (Q_NOT r) = Q_NOT (cloneTree r)"

lemma cloneTree_id [simp]: "cloneTree t = t"
  by (induction t) auto

section \<open>The normal form without simplifications\<close>

text \<open>The two steps that put the children of a binary node into the conventional order.\<close>

definition value_first :: "query_node \<times> query_node \<Rightarrow> query_node \<times> query_node" where
  "value_first = (\<lambda>(l, r). if \<not> is_VALUE l \<and> is_VALUE r then (r, l) else (l, r))"

definition conventional :: "query_node \<times> query_node \<Rightarrow> query_node \<times> query_node" where
  "conventional = (\<lambda>(l, r).
     if is_NOT l \<and> is_OR r then (r, l)
     else if is_NOT l \<and> is_AND r then (r, l)
     else if is_OR l \<and> is_AND r then (r, l)
     else (l, r))"

text \<open>
  What an \<open>AND\<close> node with children in that order becomes: itself (\<open>Inl\<close>), or a tree to be normalised again (\<open>Inr\<close>).
  The last equation is for children that the conventional order excludes.
\<close>

fun and_rule :: "query_node \<Rightarrow> query_node \<Rightarrow> (query_node + query_node) option" where
  "and_rule (Q_VALUE x) (Q_NOT y) = Some (Inl (Q_AND (Q_VALUE x) (Q_NOT y)))"
| "and_rule (Q_VALUE x) (Q_AND a b) = Some (Inl (Q_AND (Q_VALUE x) (Q_AND a b)))"
| "and_rule (Q_VALUE x) (Q_OR a b) = Some (Inr (Q_OR (Q_AND (Q_VALUE x) a) (Q_AND (Q_VALUE x) b)))"
| "and_rule (Q_AND a b) (Q_AND c d) = Some (Inl (Q_AND (Q_AND a b) (Q_AND c d)))"
| "and_rule (Q_VALUE x) (Q_VALUE y) = Some (Inl (Q_AND (Q_VALUE x) (Q_VALUE y)))"
| "and_rule (Q_NOT x) r = Some (Inl (Q_AND (Q_NOT x) r))"
| "and_rule (Q_AND a b) (Q_NOT c) = Some (Inl (Q_AND (Q_AND a b) (Q_NOT c)))"
| "and_rule (Q_OR a b) (Q_NOT c) = Some (Inr (Q_OR (Q_AND a (Q_NOT c)) (Q_AND b (Q_NOT (Q_VALUE (node_value c))))))"
| "and_rule (Q_OR a b) (Q_OR c d) = Some (Inr
     (Q_OR (Q_OR (Q_AND a c) (Q_AND (cloneTree a) d)) (Q_OR (Q_AND b (cloneTree c)) (Q_AND (cloneTree b) (cloneTree d)))))"
| "and_rule (Q_AND a b) (Q_OR c d) = Some (Inr
     (Q_OR (Q_AND (Q_AND a b) c) (Q_AND (Q_AND (cloneTree a) (cloneTree b)) d)))"
| "and_rule l r = None"

text \<open>
  \<open>getRawDNF\<close>. A \<open>NOT\<close> node whose child has become a \<open>VALUE\<close> fits none of the code's three cases, and the code goes on to
  \<open>root->left->type\<close> with a null \<open>left\<close>. Every path through the code for \<open>OR\<close> returns the node.
\<close>

partial_function (option) getRawDNF :: "query_node \<Rightarrow> query_node option" where
  "getRawDNF root =
     (case root of
        Q_VALUE v \<Rightarrow> Some root
      | Q_NOT r \<Rightarrow>
          if is_VALUE r then Some root
          else Option.bind (getRawDNF r) (\<lambda>right.
            case right of
              Q_NOT x \<Rightarrow> getRawDNF x
            | Q_OR a b \<Rightarrow> getRawDNF (Q_AND (Q_NOT a) (Q_NOT b))
            | Q_AND a b \<Rightarrow> getRawDNF (Q_OR (Q_NOT a) (Q_NOT b))
            | Q_VALUE v \<Rightarrow> None)
      | Q_OR l r \<Rightarrow>
          if is_VALUE l \<and> is_VALUE r then Some root
          else Option.bind (getRawDNF l) (\<lambda>left. Option.bind (getRawDNF r) (\<lambda>right.
            Some (case conventional (value_first (left, right)) of (l', r') \<Rightarrow> Q_OR l' r')))
      | Q_AND l r \<Rightarrow>
          if is_VALUE l \<and> is_VALUE r then Some root
          else Option.bind (getRawDNF l) (\<lambda>left. Option.bind (getRawDNF r) (\<lambda>right.
            case (case conventional (value_first (left, right)) of (l', r') \<Rightarrow> and_rule l' r') of
              None \<Rightarrow> None
            | Some (Inl t) \<Rightarrow> Some t
            | Some (Inr t) \<Rightarrow> getRawDNF t)))"

declare getRawDNF.simps [code]

section \<open>Terms\<close>

fun insertAsSet :: "rep list \<Rightarrow> rep \<Rightarrow> rep list" where
  "insertAsSet v w = (if v = [] \<or> snd w \<notin> snd ` set v then v @ [w] else v)"

text \<open>\<open>getTreeVariables\<close>: the two vectors. Under a \<open>NOT\<close> only the value of the child is read.\<close>

primrec getTreeVariables :: "query_node \<Rightarrow> rep list \<times> rep list \<Rightarrow> rep list \<times> rep list" where
  "getTreeVariables (Q_VALUE v) pn = (insertAsSet (fst pn) v, snd pn)"
| "getTreeVariables (Q_NOT r) pn = (fst pn, insertAsSet (snd pn) (node_value r))"
| "getTreeVariables (Q_AND l r) pn = getTreeVariables r (getTreeVariables l pn)"
| "getTreeVariables (Q_OR l r) pn = getTreeVariables r (getTreeVariables l pn)"

definition isDNFTermUseful :: "query_node \<Rightarrow> bool" where
  "isDNFTermUseful t =
     (let (positives, negatives) = getTreeVariables t ([], [])
      in filter (\<lambda>w. snd w \<in> snd ` set negatives) positives = [])"

primrec getDNFTermRoots :: "query_node \<Rightarrow> query_node list \<Rightarrow> query_node list" where
  "getDNFTermRoots (Q_VALUE v) dest = dest @ [Q_VALUE v]"
| "getDNFTermRoots (Q_NOT r) dest = dest @ [Q_NOT r]"
| "getDNFTermRoots (Q_AND l r) dest = dest @ [Q_AND l r]"
| "getDNFTermRoots (Q_OR l r) dest = getDNFTermRoots r (getDNFTermRoots l dest)"

fun joinTreesWithOrNodes :: "query_node list \<Rightarrow> query_node option" where
  "joinTreesWithOrNodes [] = None"
| "joinTreesWithOrNodes [t] = Some t"
| "joinTreesWithOrNodes (t # u # ts) = Some (foldl Q_OR (Q_OR t u) ts)"

text \<open>The inner \<open>None\<close> is the null pointer the code returns.\<close>

definition getDisjunctiveNormalForm :: "query_node \<Rightarrow> query_node option option" where
  "getDisjunctiveNormalForm root = do {
     dnfRoot \<leftarrow> getRawDNF root;
     let termRoots = getDNFTermRoots dnfRoot [];
     let usefulTerms = filter isDNFTermUseful termRoots;
     Some (if length usefulTerms = length termRoots then Some dnfRoot else joinTreesWithOrNodes usefulTerms)
   }"

section \<open>Evaluation\<close>

text \<open>
  The state of an evaluation: the used part of \<open>u_buffer\<close>, a sequence of the eight bytes of a representation's address
  and the answer \<open>'1'\<close> or \<open>'0'\<close>, and \<open>partial\<close>. The buffer has \<open>U_MAX_SIZE_PREALLOCATE\<close> bytes.
\<close>

definition U_MAX_SIZE_PREALLOCATE :: nat where
  "U_MAX_SIZE_PREALLOCATE = 4096"

definition addr_bytes :: "u64 \<Rightarrow> byte list" where
  "addr_bytes a = map (\<lambda>i. ucast (drop_bit (8 * i) a)) [0..<8]"

definition eval_word :: "(byte list \<Rightarrow> bool) \<Rightarrow> rep \<Rightarrow> bool \<Rightarrow> byte list \<Rightarrow> (byte list \<times> bool) option" where
  "eval_word function word positive buf = do {
     (result, buf') \<leftarrow>
       (case (if buf \<noteq> [] then u_find buf (addr_bytes (fst word)) else None) of
          Some p \<Rightarrow> do {
            c \<leftarrow> rd buf (p + 8);
            Some (c = 49, buf)
          }
        | None \<Rightarrow>
            let result = function (snd word)
            in if length buf + 9 \<le> U_MAX_SIZE_PREALLOCATE
               then Some (result, buf @ addr_bytes (fst word) @ [if result then 49 else 48])
               else None);
     Some (buf', \<not> (positive \<and> \<not> result \<or> \<not> positive \<and> result))
   }"

text \<open>
  \<open>callForAllEntry\<close> with \<open>pos_evaluate\<close> and with \<open>neg_evaluate\<close>: it stops when the function answers false. The state
  is the buffer and \<open>partial\<close>.
\<close>

fun eval_all :: "(byte list \<Rightarrow> bool) \<Rightarrow> bool \<Rightarrow> rep list \<Rightarrow> byte list \<times> bool \<Rightarrow> (byte list \<times> bool) option" where
  "eval_all function positive [] st = Some st"
| "eval_all function positive (w # ws) st = do {
     st' \<leftarrow> (if positive \<or> snd st then eval_word function w positive (fst st) else Some st);
     if snd st' then eval_all function positive ws st' else Some st'
   }"

fun eval_terms :: "(byte list \<Rightarrow> bool) \<Rightarrow> (rep list \<times> rep list) list \<Rightarrow> byte list \<Rightarrow> bool option" where
  "eval_terms function [] buf = Some False"
| "eval_terms function ((positives, negatives) # ts) buf = do {
     st \<leftarrow> eval_all function True positives (buf, True);
     st \<leftarrow> eval_all function False negatives st;
     if snd st then Some True else eval_terms function ts (fst st)
   }"

text \<open>\<open>startEvaluate\<close> collects the variables of each term; it dereferences the tree.\<close>

definition startEvaluate :: "query_node option \<Rightarrow> (rep list \<times> rep list) list option" where
  "startEvaluate tree = map_option (\<lambda>t. map (\<lambda>u. getTreeVariables u ([], [])) (getDNFTermRoots t [])) tree"

definition evaluate :: "(byte list \<Rightarrow> bool) \<Rightarrow> query_node option \<Rightarrow> bool option" where
  "evaluate function tree = do {
     terms \<leftarrow> startEvaluate tree;
     eval_terms function terms []
   }"

section \<open>Specification\<close>

text \<open>The truth of a query, for a predicate on words.\<close>

primrec holds :: "(byte list \<Rightarrow> bool) \<Rightarrow> query_node \<Rightarrow> bool" where
  "holds f (Q_VALUE v) = f (snd v)"
| "holds f (Q_AND l r) = (holds f l \<and> holds f r)"
| "holds f (Q_OR l r) = (holds f l \<or> holds f r)"
| "holds f (Q_NOT r) = (\<not> holds f r)"

text \<open>A word negated three times, in three nested nodes.\<close>

fun double_not :: "query_node \<Rightarrow> bool" where
  "double_not (Q_NOT (Q_NOT (Q_VALUE v))) = True"
| "double_not t = False"

primrec triple_not :: "query_node \<Rightarrow> bool" where
  "triple_not (Q_VALUE v) = False"
| "triple_not (Q_NOT r) = (double_not r \<or> triple_not r)"
| "triple_not (Q_AND l r) = (triple_not l \<or> triple_not r)"
| "triple_not (Q_OR l r) = (triple_not l \<or> triple_not r)"

primrec words_of :: "query_node \<Rightarrow> rep set" where
  "words_of (Q_VALUE v) = {v}"
| "words_of (Q_AND l r) = words_of l \<union> words_of r"
| "words_of (Q_OR l r) = words_of l \<union> words_of r"
| "words_of (Q_NOT r) = words_of r"

section \<open>The raw normal form\<close>

text \<open>The normal form the code reaches: negations stand at words only, and no disjunction stands under a conjunction.\<close>

fun is_term :: "query_node \<Rightarrow> bool" where
  "is_term (Q_VALUE v) = True"
| "is_term (Q_NOT r) = is_VALUE r"
| "is_term (Q_AND l r) = (is_term l \<and> is_term r)"
| "is_term (Q_OR l r) = False"

fun is_sum :: "query_node \<Rightarrow> bool" where
  "is_sum (Q_OR l r) = (is_sum l \<and> is_sum r)"
| "is_sum t = is_term t"

primrec weight :: "query_node \<Rightarrow> nat" where
  "weight (Q_VALUE v) = 2"
| "weight (Q_AND l r) = weight l * weight r"
| "weight (Q_OR l r) = weight l + weight r + 1"
| "weight (Q_NOT r) = 2 ^ weight r"

lemma weight_ge2: "2 \<le> weight t"
proof (induction t)
  case (Q_AND l r)
  then show ?case using mult_le_mono [of 2 "weight l" 1 "weight r"] by simp
next
  case (Q_NOT r)
  then show ?case using power_increasing [of 1 "weight r" "2::nat"] by simp
qed auto

lemma weight_pos [simp]: "0 < weight t" "weight t \<noteq> 0" "\<not> weight t \<le> 1" "weight t \<noteq> Suc 0"
  using weight_ge2 [of t] by auto

lemma sum_no_double: "is_sum t \<Longrightarrow> \<not> double_not t"
  by (cases t rule: double_not.cases) auto

lemma term_sum: "is_term t \<Longrightarrow> is_sum t"
  by (cases t) auto

lemma term_no_triple: "is_term t \<Longrightarrow> \<not> triple_not t"
  by (induction t) (auto simp: is_VALUE_def)

lemma sum_no_triple: "is_sum t \<Longrightarrow> \<not> triple_not t"
  by (induction t) (auto simp: is_VALUE_def term_no_triple)

lemma conventional_ok:
  assumes "conventional (value_first (l, r)) = (l', r')"
  shows "{l', r'} = {l, r}" "weight l' * weight r' = weight l * weight r" "weight l' + weight r' = weight l + weight r"
    "(holds f l' \<and> holds f r') = (holds f l \<and> holds f r)" "(holds f l' \<or> holds f r') = (holds f l \<or> holds f r)"
    "is_sum l' \<and> is_sum r' \<longleftrightarrow> is_sum l \<and> is_sum r" "words_of l' \<union> words_of r' = words_of l \<union> words_of r"
  using assms by (auto simp: conventional_def value_first_def ac_simps split: if_splits)

text \<open>The pairs of children the conventional order leaves.\<close>

lemma conventional_order:
  assumes "conventional (value_first (l, r)) = (l', r')"
  shows "is_VALUE l' \<or> \<not> is_VALUE r' \<and> (is_NOT l' \<longrightarrow> is_NOT r') \<and> (is_OR l' \<longrightarrow> \<not> is_AND r')"
  using assms by (cases l; cases r) (auto simp: conventional_def value_first_def)

lemma weight_or_and: "2 \<le> (x::nat) \<Longrightarrow> x * a + x * b + 1 < x * (a + b + 1)"
  by (simp add: algebra_simps)

lemma weight_or_or:
  assumes "2 \<le> (a::nat)" "2 \<le> b" "2 \<le> c" "2 \<le> d"
  shows "a * c + a * d + 1 + (b * c + b * d + 1) + 1 < (a + b + 1) * (c + d + 1)"
  using assms by (simp add: algebra_simps)

lemma less_mult_le: "0 < (x::nat) \<Longrightarrow> 2 * x \<le> y \<Longrightarrow> x < y"
  by simp

lemma sum_less_product: "4 \<le> (x::nat) \<Longrightarrow> 4 \<le> y \<Longrightarrow> x + y + 1 < x * y"
  by (auto dest!: le_Suc_ex simp: algebra_simps)

lemma weight_and:
  assumes "2 \<le> (a::nat)" "2 \<le> b"
  shows "(2::nat) ^ a + 2 ^ b + 1 < 2 ^ (a * b)"
proof -
  have "(4::nat) \<le> 2 ^ a" "(4::nat) \<le> 2 ^ b"
    using assms power_increasing [of 2 a "2::nat"] power_increasing [of 2 b "2::nat"] by auto
  then have "(2::nat) ^ a + 2 ^ b + 1 < 2 ^ (a + b)"
    by (simp only: power_add sum_less_product)
  moreover have "a + b \<le> a * b"
    using assms by (auto dest!: le_Suc_ex simp: algebra_simps)
  then have "(2::nat) ^ (a + b) \<le> 2 ^ (a * b)" by (rule power_increasing) simp
  ultimately show ?thesis by (rule less_le_trans)
qed

lemma and_rule_ok:
  assumes "is_sum l" "is_sum r"
    and "is_VALUE l \<or> \<not> is_VALUE r \<and> (is_NOT l \<longrightarrow> is_NOT r) \<and> (is_OR l \<longrightarrow> \<not> is_AND r)"
  shows "and_rule l r = Some (Inl (Q_AND l r)) \<and> is_term l \<and> is_term r \<or>
    (\<exists>t. and_rule l r = Some (Inr t) \<and> is_OR t \<and> \<not> triple_not t \<and> weight t < weight l * weight r \<and>
       (\<forall>f. holds f t \<longleftrightarrow> holds f l \<and> holds f r) \<and> words_of t \<subseteq> words_of l \<union> words_of r)"
proof -
  consider (ok) "and_rule l r = Some (Inl (Q_AND l r))" "is_term l" "is_term r"
    | (value_or) x a b where "l = Q_VALUE x" "r = Q_OR a b"
    | (or_not) a b c where "l = Q_OR a b" "r = Q_NOT (Q_VALUE c)"
    | (or_or) a b c d where "l = Q_OR a b" "r = Q_OR c d"
    | (and_or) a b c d where "l = Q_AND a b" "r = Q_OR c d"
    using assms by (cases l; cases r) (auto simp: is_VALUE_def)
  then show ?thesis
  proof cases
    case value_or
    then show ?thesis
      using assms weight_or_and [of 2 "weight a" "weight b"] by (simp add: sum_no_triple) blast
  next
    case or_not
    then show ?thesis
      using assms weight_or_and [of 4 "weight a" "weight b"]
      by (simp add: sum_no_triple node_value_def mult.commute [of _ 4]) blast
  next
    case or_or
    then show ?thesis
      using assms weight_or_or [of "weight a" "weight b" "weight c" "weight d"] weight_ge2
      by (simp add: sum_no_triple) blast
  next
    case and_or
    then show ?thesis
      using assms weight_or_and [of "weight a * weight b" "weight c" "weight d"] weight_ge2 [of "Q_AND a b"]
      by (simp add: sum_no_triple term_no_triple) blast
  qed blast
qed

text \<open>What a call answers for the tree it is given.\<close>

definition raw_answer :: "query_node \<Rightarrow> query_node \<Rightarrow> bool" where
  "raw_answer t t' \<longleftrightarrow>
     is_sum t' \<and> weight t' \<le> weight t \<and> (\<forall>f. holds f t' = holds f t) \<and> words_of t' \<subseteq> words_of t \<and>
     (is_AND t \<or> is_OR t \<longrightarrow> is_AND t' \<or> is_OR t') \<and>
     (is_NOT t' \<longrightarrow> is_NOT t \<and> t' = t) \<and>
     (is_VALUE t' \<longrightarrow> is_VALUE t \<or> double_not t)"

lemma raw_answerD:
  assumes "raw_answer t t'"
  shows "is_sum t'" "weight t' \<le> weight t" "holds f t' = holds f t" "words_of t' \<subseteq> words_of t"
  using assms by (auto simp: raw_answer_def)

lemma raw_answer_binary:
  assumes "is_AND t \<or> is_OR t" "is_AND t' \<or> is_OR t'" "is_sum t'" "weight t' \<le> weight t" "\<And>f. holds f t' = holds f t"
    "words_of t' \<subseteq> words_of t"
  shows "raw_answer t t'"
  using assms by (cases t'; cases t) (simp_all add: raw_answer_def)

lemma raw_answer_not:
  assumes IH: "\<And>u. weight u < weight (Q_NOT r) \<Longrightarrow> \<not> triple_not u \<Longrightarrow> \<exists>u'. getRawDNF u = Some u' \<and> raw_answer u u'"
    and "\<not> triple_not (Q_NOT r)" "\<not> is_VALUE r"
  shows "\<exists>t'. getRawDNF (Q_NOT r) = Some t' \<and> raw_answer (Q_NOT r) t'"
proof -
  obtain r' where r': "getRawDNF r = Some r'" "raw_answer r r'"
    using IH [of r] assms(2) less_exp [of "weight r"] by auto
  then have w: "(2::nat) ^ weight r' \<le> 2 ^ weight r" and s: "is_sum r'" by (auto simp: raw_answer_def)
  show ?thesis
  proof (cases r')
    case (Q_VALUE v)
    with r' assms(2, 3) show ?thesis by (auto simp: raw_answer_def)
  next
    case (Q_NOT x)
    with r' s obtain v where "r = Q_NOT (Q_VALUE v)" "r' = r" by (auto simp: raw_answer_def is_VALUE_def)
    then show ?thesis
      using r'(1) by (intro exI [of _ "Q_VALUE v"])
        (simp add: getRawDNF.simps [of "Q_NOT (Q_NOT (Q_VALUE v))"] getRawDNF.simps [of "Q_VALUE v"] raw_answer_def)
  next
    case (Q_OR a b)
    let ?u = "Q_AND (Q_NOT a) (Q_NOT b)"
    have "weight ?u < weight (Q_NOT r)"
      using w Q_OR less_mult_le [of "2 ^ weight a * 2 ^ weight b" "2 ^ weight r"] by (simp add: power_add)
    moreover have "\<not> triple_not ?u" using s Q_OR by (simp add: sum_no_triple sum_no_double)
    ultimately obtain u' where u': "getRawDNF ?u = Some u'" "raw_answer ?u u'" using IH by blast
    have "getRawDNF (Q_NOT r) = Some u'"
      using r'(1) u'(1) Q_OR assms(3) by (subst getRawDNF.simps) simp
    moreover have "raw_answer (Q_NOT r) u'"
      using u'(2) r'(2) Q_OR \<open>weight ?u < _\<close> by (auto simp: raw_answer_def)
    ultimately show ?thesis by blast
  next
    case (Q_AND a b)
    let ?u = "Q_OR (Q_NOT a) (Q_NOT b)"
    have "weight ?u < weight (Q_NOT r)"
      using less_le_trans [OF weight_and [OF weight_ge2 weight_ge2, of a b] w [unfolded Q_AND weight.simps]] by simp
    moreover have "\<not> triple_not ?u" using s Q_AND by (simp add: term_no_triple sum_no_double term_sum)
    ultimately obtain u' where u': "getRawDNF ?u = Some u'" "raw_answer ?u u'" using IH by blast
    have "getRawDNF (Q_NOT r) = Some u'"
      using r'(1) u'(1) Q_AND assms(3) by (subst getRawDNF.simps) simp
    moreover have "raw_answer (Q_NOT r) u'"
      using u'(2) r'(2) Q_AND \<open>weight ?u < _\<close> by (auto simp: raw_answer_def)
    ultimately show ?thesis by blast
  qed
qed

lemma raw_answer_or:
  assumes IH: "\<And>u. weight u < weight (Q_OR l r) \<Longrightarrow> \<not> triple_not u \<Longrightarrow> \<exists>u'. getRawDNF u = Some u' \<and> raw_answer u u'"
    and "\<not> triple_not (Q_OR l r)" "\<not> (is_VALUE l \<and> is_VALUE r)"
  shows "\<exists>t'. getRawDNF (Q_OR l r) = Some t' \<and> raw_answer (Q_OR l r) t'"
proof -
  obtain l' r' where l': "getRawDNF l = Some l'" "raw_answer l l'" and r': "getRawDNF r = Some r'" "raw_answer r r'"
    using IH [of l] IH [of r] assms(2) by auto
  obtain x y where xy: "conventional (value_first (l', r')) = (x, y)" by fastforce
  then have "getRawDNF (Q_OR l r) = Some (Q_OR x y)"
    using l'(1) r'(1) assms(3) by (subst getRawDNF.simps) auto
  moreover have "raw_answer (Q_OR l r) (Q_OR x y)"
  proof (rule raw_answer_binary)
    show "is_sum (Q_OR x y)" using conventional_ok(6) [OF xy] raw_answerD(1) [OF l'(2)] raw_answerD(1) [OF r'(2)] by simp
    show "weight (Q_OR x y) \<le> weight (Q_OR l r)"
      using conventional_ok(3) [OF xy] raw_answerD(2) [OF l'(2)] raw_answerD(2) [OF r'(2)] by simp
    show "holds f (Q_OR x y) = holds f (Q_OR l r)" for f
      using conventional_ok(5) [OF xy, of f] raw_answerD(3) [OF l'(2)] raw_answerD(3) [OF r'(2)] by simp
    show "words_of (Q_OR x y) \<subseteq> words_of (Q_OR l r)"
      using conventional_ok(7) [OF xy] raw_answerD(4) [OF l'(2)] raw_answerD(4) [OF r'(2)] by auto
  qed simp_all
  ultimately show ?thesis by blast
qed

lemma raw_answer_and:
  assumes IH: "\<And>u. weight u < weight (Q_AND l r) \<Longrightarrow> \<not> triple_not u \<Longrightarrow> \<exists>u'. getRawDNF u = Some u' \<and> raw_answer u u'"
    and "\<not> triple_not (Q_AND l r)" "\<not> (is_VALUE l \<and> is_VALUE r)"
  shows "\<exists>t'. getRawDNF (Q_AND l r) = Some t' \<and> raw_answer (Q_AND l r) t'"
proof -
  have "weight l < weight (Q_AND l r)" "weight r < weight (Q_AND l r)"
    using weight_ge2 [of l] weight_ge2 [of r] mult_less_mono2 [of 1 "weight r" "weight l"]
      mult_less_mono1 [of 1 "weight l" "weight r"] by auto
  then obtain l' r' where l': "getRawDNF l = Some l'" "raw_answer l l'" and r': "getRawDNF r = Some r'" "raw_answer r r'"
    using IH [of l] IH [of r] assms(2) by auto
  obtain x y where xy: "conventional (value_first (l', r')) = (x, y)" by fastforce
  have sum: "is_sum x" "is_sum y"
    using conventional_ok(6) [OF xy] raw_answerD(1) [OF l'(2)] raw_answerD(1) [OF r'(2)] by simp_all
  have w: "weight x * weight y \<le> weight (Q_AND l r)"
    using conventional_ok(2) [OF xy] mult_le_mono [OF raw_answerD(2) [OF l'(2)] raw_answerD(2) [OF r'(2)]] by simp
  have h: "(holds f x \<and> holds f y) = holds f (Q_AND l r)" for f
    using conventional_ok(4) [OF xy, of f] raw_answerD(3) [OF l'(2)] raw_answerD(3) [OF r'(2)] by simp
  have wo: "words_of x \<union> words_of y \<subseteq> words_of (Q_AND l r)"
    using conventional_ok(7) [OF xy] raw_answerD(4) [OF l'(2)] raw_answerD(4) [OF r'(2)] by auto
  from and_rule_ok [OF sum conventional_order [OF xy]] show ?thesis
  proof (elim disjE conjE exE)
    assume "and_rule x y = Some (Inl (Q_AND x y))" "is_term x" "is_term y"
    then have "getRawDNF (Q_AND l r) = Some (Q_AND x y)" "is_sum (Q_AND x y)"
      using l'(1) r'(1) assms(3) xy by (auto simp: getRawDNF.simps [of "Q_AND l r"])
    then show ?thesis using w h wo by (auto intro!: raw_answer_binary)
  next
    fix t
    assume t: "and_rule x y = Some (Inr t)" "is_OR t" "\<not> triple_not t" "weight t < weight x * weight y"
      "\<forall>f. holds f t \<longleftrightarrow> holds f x \<and> holds f y" "words_of t \<subseteq> words_of x \<union> words_of y"
    then obtain t' where t': "getRawDNF t = Some t'" "raw_answer t t'" using IH [of t] w by auto
    have "getRawDNF (Q_AND l r) = Some t'"
      using l'(1) r'(1) assms(3) xy t(1) t'(1) by (auto simp: getRawDNF.simps [of "Q_AND l r"])
    moreover have "raw_answer (Q_AND l r) t'"
    proof (rule raw_answer_binary)
      show "is_AND t' \<or> is_OR t'" using t(2) t'(2) by (simp add: raw_answer_def)
      show "weight t' \<le> weight (Q_AND l r)" using t(4) w raw_answerD(2) [OF t'(2)] by simp
      show "holds f t' = holds f (Q_AND l r)" for f using t(5) h [of f] raw_answerD(3) [OF t'(2)] by simp
      show "words_of t' \<subseteq> words_of (Q_AND l r)" using t(6) wo raw_answerD(4) [OF t'(2)] by blast
    qed (simp_all add: raw_answerD(1) [OF t'(2)])
    ultimately show ?thesis by blast
  qed
qed

lemma getRawDNF_answers: "\<not> triple_not t \<Longrightarrow> \<exists>t'. getRawDNF t = Some t' \<and> raw_answer t t'"
proof (induction t rule: measure_induct_rule [of weight])
  case (less t)
  have base: "\<exists>t'. getRawDNF t = Some t' \<and> raw_answer t t'"
    if "is_sum t" "is_VALUE t \<or> (\<exists>r. t = Q_NOT r \<and> is_VALUE r) \<or>
      (\<exists>l r. (t = Q_OR l r \<or> t = Q_AND l r) \<and> is_VALUE l \<and> is_VALUE r)"
  proof -
    have "getRawDNF t = Some t" using that by (subst getRawDNF.simps) (auto simp: is_VALUE_def)
    moreover have "raw_answer t t" using that(1) by (cases t) (auto simp: raw_answer_def)
    ultimately show ?thesis by blast
  qed
  show ?case
  proof (cases t)
    case (Q_VALUE v)
    then show ?thesis using base by simp
  next
    case (Q_NOT r)
    then show ?thesis using base raw_answer_not [of r] less by (cases "is_VALUE r") auto
  next
    case (Q_OR l r)
    then show ?thesis
      using base raw_answer_or [of l r] less by (cases "is_VALUE l \<and> is_VALUE r") (auto simp: is_VALUE_def)
  next
    case (Q_AND l r)
    then show ?thesis
      using base raw_answer_and [of l r] less by (cases "is_VALUE l \<and> is_VALUE r") (auto simp: is_VALUE_def)
  qed
qed

lemma getRawDNF_crash: "triple_not t \<Longrightarrow> getRawDNF t = None"
proof (induction t)
  case (Q_NOT r)
  show ?case
  proof (cases "triple_not r")
    case True
    then have "\<not> is_VALUE r" by (auto simp: is_VALUE_def)
    then show ?thesis using Q_NOT True by (subst getRawDNF.simps) simp
  next
    case False
    with Q_NOT.prems obtain v where "r = Q_NOT (Q_NOT (Q_VALUE v))"
      by (cases r rule: double_not.cases) auto
    then show ?thesis
      by (simp add: getRawDNF.simps [of "Q_NOT (Q_NOT (Q_NOT (Q_VALUE v)))"] getRawDNF.simps [of "Q_NOT (Q_NOT (Q_VALUE v))"]
        getRawDNF.simps [of "Q_NOT (Q_VALUE v)"] getRawDNF.simps [of "Q_VALUE v"])
  qed
next
  case (Q_AND l r)
  then show ?case by (subst getRawDNF.simps) (auto simp: is_VALUE_def bind_eq_None_conv)
next
  case (Q_OR l r)
  then show ?case by (subst getRawDNF.simps) (auto simp: is_VALUE_def bind_eq_None_conv)
qed simp

section \<open>The terms\<close>

lemma term_roots_append: "getDNFTermRoots t dest = dest @ getDNFTermRoots t []"
proof (induction t arbitrary: dest)
  case (Q_OR l r)
  show ?case
    by (simp add: Q_OR(1) [of dest] Q_OR(2) [of "dest @ getDNFTermRoots l []"] Q_OR(2) [of "getDNFTermRoots l []"])
qed auto

lemma term_roots_or [simp]: "getDNFTermRoots (Q_OR l r) [] = getDNFTermRoots l [] @ getDNFTermRoots r []"
  using term_roots_append [of r "getDNFTermRoots l []"] by simp

declare getDNFTermRoots.simps(4) [simp del]

lemma term_roots_term: "is_term t \<Longrightarrow> getDNFTermRoots t dest = dest @ [t]"
  by (cases t) auto

lemma term_roots_sum:
  assumes "is_sum t"
  shows "list_all is_term (getDNFTermRoots t [])" "holds f t \<longleftrightarrow> (\<exists>u \<in> set (getDNFTermRoots t []). holds f u)"
    "words_of t = (\<Union>u \<in> set (getDNFTermRoots t []). words_of u)"
  using assms by (induction t) auto

lemma term_dnf: "is_term t \<Longrightarrow> isDisjunctiveNormalForm t \<and> \<not> is_OR t"
  by (induction t) (auto simp: is_VALUE_def)

lemma sum_dnf: "is_sum t \<Longrightarrow> isDisjunctiveNormalForm t"
  by (induction t) (auto simp: is_VALUE_def term_dnf)

lemma foldl_or:
  assumes "is_sum t" "list_all is_term ts"
  shows "is_sum (foldl Q_OR t ts)" "getDNFTermRoots (foldl Q_OR t ts) [] = getDNFTermRoots t [] @ ts"
proof -
  have "is_sum (foldl Q_OR t ts) \<and> getDNFTermRoots (foldl Q_OR t ts) [] = getDNFTermRoots t [] @ ts"
    using assms
  proof (induction ts arbitrary: t)
    case (Cons u ts)
    then show ?case by (simp add: term_sum term_roots_term)
  qed simp
  then show "is_sum (foldl Q_OR t ts)" "getDNFTermRoots (foldl Q_OR t ts) [] = getDNFTermRoots t [] @ ts" by auto
qed

lemma join_terms:
  assumes "list_all is_term ts" "ts \<noteq> []"
  obtains t where "joinTreesWithOrNodes ts = Some t" "is_sum t" "getDNFTermRoots t [] = ts"
  using assms
proof (cases ts rule: joinTreesWithOrNodes.cases)
  case (3 t u us)
  then show ?thesis
    using assms foldl_or [of "Q_OR t u" us] that by (simp add: term_sum term_roots_term)
qed (auto simp: term_sum term_roots_term)

text \<open>What the two vectors of a term say.\<close>

definition agrees :: "(byte list \<Rightarrow> bool) \<Rightarrow> rep list \<times> rep list \<Rightarrow> bool" where
  "agrees f pn \<longleftrightarrow> (\<forall>w \<in> set (fst pn). f (snd w)) \<and> (\<forall>w \<in> set (snd pn). \<not> f (snd w))"

lemma insertAsSet_texts [simp]: "snd ` set (insertAsSet v w) = insert (snd w) (snd ` set v)"
  by auto

lemma insertAsSet_all: "(\<forall>u \<in> set (insertAsSet v w). P (snd u)) \<longleftrightarrow> P (snd w) \<and> (\<forall>u \<in> set v. P (snd u))"
  by (cases "snd w \<in> snd ` set v") auto

declare insertAsSet.simps [simp del]

lemma term_variables:
  assumes "is_term t"
  shows "agrees f (getTreeVariables t pn) \<longleftrightarrow> holds f t \<and> agrees f pn"
  using assms
proof (induction t arbitrary: pn)
  case (Q_NOT r)
  then show ?case by (auto simp: agrees_def insertAsSet_all [of _ _ "\<lambda>x. \<not> f x"] node_value_def is_VALUE_def)
qed (auto simp: agrees_def insertAsSet_all [of _ _ f])

lemma term_variables_words:
  assumes "is_term t"
  shows "set (fst (getTreeVariables t pn)) \<union> set (snd (getTreeVariables t pn)) \<subseteq> words_of t \<union> set (fst pn) \<union> set (snd pn)"
  using assms
proof (induction t arbitrary: pn)
  case (Q_AND l r)
  then have "is_term l" "is_term r" by simp_all
  from Q_AND(1) [OF this(1), of pn] Q_AND(2) [OF this(2), of "getTreeVariables l pn"] show ?case
    by (simp only: getTreeVariables.simps words_of.simps) blast
qed (auto simp: node_value_def is_VALUE_def insertAsSet.simps split: if_splits)

lemma term_useful: "is_term t \<Longrightarrow> isDNFTermUseful t \<longleftrightarrow> (\<exists>f. holds f t)"
proof -
  assume t: "is_term t"
  obtain p n where pn: "getTreeVariables t ([], []) = (p, n)" by fastforce
  have h: "holds f t \<longleftrightarrow> agrees f (p, n)" for f
    using term_variables [OF t, of f "([], [])"] pn by (simp add: agrees_def)
  have "isDNFTermUseful t \<longleftrightarrow> snd ` set p \<inter> snd ` set n = {}"
    unfolding isDNFTermUseful_def pn by (auto simp: filter_empty_conv)
  also have "\<dots> \<longleftrightarrow> (\<exists>f. agrees f (p, n))"
  proof
    assume "snd ` set p \<inter> snd ` set n = {}"
    then have "agrees (\<lambda>x. x \<in> snd ` set p) (p, n)" by (auto simp: agrees_def)
    then show "\<exists>f. agrees f (p, n)" by blast
  qed (fastforce simp: agrees_def)
  finally show ?thesis using h by simp
qed

text \<open>The normal form: a null pointer for a query that no words satisfy, a sum of terms that each can be satisfied otherwise.\<close>

lemma dnf_answers:
  assumes "\<not> triple_not t"
  shows "\<exists>r. getDisjunctiveNormalForm t = Some r \<and>
    (case r of
       None \<Rightarrow> \<forall>f. \<not> holds f t
     | Some d \<Rightarrow> is_sum d \<and> (\<forall>f. holds f d = holds f t) \<and> (\<exists>f. holds f t) \<and> words_of d \<subseteq> words_of t)"
proof -
  obtain d where d: "getRawDNF t = Some d" "raw_answer t d" using getRawDNF_answers [OF assms] by blast
  note sum = term_roots_sum [OF raw_answerD(1) [OF d(2)]]
  let ?ts = "getDNFTermRoots d []" and ?us = "filter isDNFTermUseful (getDNFTermRoots d [])"
  have use: "isDNFTermUseful u \<longleftrightarrow> (\<exists>f. holds f u)" if "u \<in> set ?ts" for u
    using sum(1) that term_useful by (auto simp: list_all_iff)
  have h: "holds f t \<longleftrightarrow> (\<exists>u \<in> set ?us. holds f u)" for f
    using raw_answerD(3) [OF d(2), of f] sum(2) [of f] use by auto
  have us: "list_all is_term ?us" using sum(1) by (auto simp: list_all_iff)
  have sat: "\<exists>f. holds f t" if ne: "?us \<noteq> []"
  proof -
    obtain u where "u \<in> set ?us" using hd_in_set [OF ne] by blast
    then obtain f where "holds f u" using use by auto
    with \<open>u \<in> set ?us\<close> h have "holds f t" by blast
    then show ?thesis by blast
  qed
  show ?thesis
  proof (cases "length ?us = length ?ts")
    case True
    then have eq: "?us = ?ts" by (metis filter_id_conv length_filter_less less_irrefl)
    have "?ts \<noteq> []" by (induction d) auto
    then have "getDisjunctiveNormalForm t = Some (Some d)" "\<exists>f. holds f t"
      using d(1) True sat eq by (auto simp: getDisjunctiveNormalForm_def)
    then show ?thesis using d(2) by (auto simp: raw_answer_def)
  next
    case False
    show ?thesis
    proof (cases "?us = []")
      case True
      then show ?thesis using d(1) False h by (simp add: getDisjunctiveNormalForm_def)
    next
      case ne: False
      obtain e where e: "joinTreesWithOrNodes ?us = Some e" "is_sum e" "getDNFTermRoots e [] = ?us"
        using join_terms [OF us ne] by blast
      have "words_of e \<subseteq> words_of t"
        using term_roots_sum(3) [OF e(2)] e(3) sum(3) raw_answerD(4) [OF d(2)] by auto
      moreover have "holds f e = holds f t" for f
        using term_roots_sum(2) [OF e(2), of f] e(3) h by simp
      ultimately show ?thesis
        using d(1) False e sat [OF ne] by (auto simp: getDisjunctiveNormalForm_def)
    qed
  qed
qed

section \<open>The memory of answers\<close>

definition answer_record :: "(byte list \<Rightarrow> bool) \<Rightarrow> rep \<Rightarrow> byte list" where
  "answer_record f w = addr_bytes (fst w) @ [if f (snd w) then 49 else 48]"

definition memo :: "(byte list \<Rightarrow> bool) \<Rightarrow> rep list \<Rightarrow> byte list" where
  "memo f ws = concat (map (answer_record f) ws)"

text \<open>
  No address stands across the records of two others, and a representation has one text. The search of \<open>evaluate\<close>
  does not keep to the borders of the records, so its answers rest on this.
\<close>

definition separate :: "rep set \<Rightarrow> bool" where
  "separate W \<longleftrightarrow> (\<forall>x \<in> W. \<forall>a \<in> W.
     (fst a = fst x \<longrightarrow> snd a = snd x) \<and>
     (\<forall>b \<in> W. \<forall>r \<in> {48, 49}. \<forall>k \<in> {1..8}.
        \<not> prefix (addr_bytes (fst x)) (drop k (addr_bytes (fst a) @ [r] @ addr_bytes (fst b)))))"

lemma length_addr_bytes [simp]: "length (addr_bytes a) = 8"
  by (simp add: addr_bytes_def)

lemma addr_bytes_inj [simp]: "addr_bytes a = addr_bytes b \<longleftrightarrow> a = b"
proof
  assume eq: "addr_bytes a = addr_bytes b"
  have "bit a n = bit b n" if "n < 64" for n
  proof -
    have "n div 8 < 8" using that by simp
    then have e: "(ucast (drop_bit (8 * (n div 8)) a) :: byte) = ucast (drop_bit (8 * (n div 8)) b)"
      using arg_cong [OF eq, of "\<lambda>xs. xs ! (n div 8)"] by (simp add: addr_bytes_def)
    have "bit (drop_bit (8 * (n div 8)) a) (n mod 8) = bit (drop_bit (8 * (n div 8)) b) (n mod 8)"
      using arg_cong [OF e, of "\<lambda>w. bit w (n mod 8)"] by (simp add: bit_ucast_iff)
    then show ?thesis by (simp add: bit_drop_bit_eq)
  qed
  then show "a = b" by (intro bit_word_eqI) simp
qed simp

lemma prefix_same_length: "length p = length a \<Longrightarrow> prefix p (a @ b) \<longleftrightarrow> p = a"
  by (auto simp: prefix_def)

lemma separateD:
  assumes "separate W" "x \<in> W" "a \<in> W" "b \<in> W" "r \<in> {48, 49}" "k \<in> {1..8}"
  shows "\<not> prefix (addr_bytes (fst x)) (drop k (addr_bytes (fst a) @ [r] @ addr_bytes (fst b)))"
  using assms unfolding separate_def by blast

lemma memo_occurrence:
  assumes "separate W" "x \<in> W" "set ws \<subseteq> W" "prefix (addr_bytes (fst x)) (drop k (memo f ws))"
  shows "\<exists>i < length ws. k = 9 * i \<and> fst (ws ! i) = fst x"
  using assms(3, 4)
proof (induction ws arbitrary: k)
  case Nil
  have "length (addr_bytes (fst x)) \<le> length (drop k (memo f []))" by (rule prefix_length_le [OF Nil(2)])
  then show ?case by (simp add: memo_def)
next
  case (Cons a ws)
  note prems = Cons.prems
  define r :: byte where "r = (if f (snd a) then 49 else 48)"
  have m: "memo f (a # ws) = addr_bytes (fst a) @ [r] @ memo f ws" by (simp add: memo_def answer_record_def r_def)
  consider (start) "k = 0" | (inside) "k \<in> {1..8}" | (later) k' where "k = 9 + k'"
    by (metis atLeastAtMost_iff less_one not_le le_Suc_ex One_nat_def Suc_leI Suc_numeral less_Suc_eq_le semiring_norm(5,8))
  then show ?case
  proof cases
    case start
    then show ?thesis using Cons.prems(2) m prefix_same_length [of "addr_bytes (fst x)" "addr_bytes (fst a)"] by auto
  next
    case inside
    have "\<exists>b \<in> W. prefix (addr_bytes (fst x)) (drop k (addr_bytes (fst a) @ [r] @ addr_bytes (fst b)))"
    proof (cases ws)
      case Nil
      then have "prefix (addr_bytes (fst x)) (drop k (addr_bytes (fst a) @ [r]))"
        using Cons.prems(2) m by (simp add: memo_def)
      then show ?thesis using Cons.prems(1) inside by (intro bexI [of _ a]) auto
    next
      case (Cons b us)
      then obtain rest where e: "memo f (a # ws) = (addr_bytes (fst a) @ [r] @ addr_bytes (fst b)) @ rest"
        using m by (simp add: memo_def answer_record_def)
      have "prefix (addr_bytes (fst x)) (drop k (addr_bytes (fst a) @ [r] @ addr_bytes (fst b)) @ drop (k - 17) rest)"
        using prems(2) unfolding e drop_append by simp
      then have "prefix (addr_bytes (fst x)) (drop k (addr_bytes (fst a) @ [r] @ addr_bytes (fst b)))"
      proof (rule prefix_length_prefix)
        show "length (addr_bytes (fst x)) \<le> length (drop k (addr_bytes (fst a) @ [r] @ addr_bytes (fst b)))"
          using inside by auto
      qed simp
      then show ?thesis using Cons prems(1) by auto
    qed
    then obtain b where b: "b \<in> W" "prefix (addr_bytes (fst x)) (drop k (addr_bytes (fst a) @ [r] @ addr_bytes (fst b)))"
      by blast
    have "a \<in> W" "r \<in> {48, 49}" using prems(1) by (auto simp: r_def)
    then show ?thesis using separateD [OF assms(1, 2) _ b(1) _ inside] b(2) by blast
  next
    case later
    then have "prefix (addr_bytes (fst x)) (drop k' (memo f ws))" using Cons.prems(2) m by simp
    then obtain i where "i < length ws" "k' = 9 * i" "fst (ws ! i) = fst x" using Cons by auto
    then show ?thesis using later by (intro exI [of _ "Suc i"]) simp
  qed
qed

lemma memo_known:
  assumes "w \<in> set ws"
  shows "\<exists>k. k + 8 \<le> length (memo f ws) \<and> prefix (addr_bytes (fst w)) (drop k (memo f ws))"
proof -
  obtain us vs where "ws = us @ w # vs" using assms by (auto simp: in_set_conv_decomp)
  then have "memo f ws = memo f us @ addr_bytes (fst w) @ [if f (snd w) then 49 else 48] @ memo f vs"
    by (simp add: memo_def answer_record_def)
  then show ?thesis by (intro exI [of _ "length (memo f us)"]) simp
qed

lemma memo_nth:
  assumes "i < length ws"
  shows "rd (memo f ws) (9 * i + 8) = Some (if f (snd (ws ! i)) then 49 else 48)"
proof -
  have "length (memo f us) = 9 * length us" for us by (induction us) (auto simp: memo_def answer_record_def)
  moreover have "memo f ws = memo f (take i ws) @ addr_bytes (fst (ws ! i)) @ [if f (snd (ws ! i)) then 49 else 48] @ memo f (drop (Suc i) ws)"
    using id_take_nth_drop [OF assms] by (metis (no_types, lifting) memo_def answer_record_def append.assoc concat.simps(2) concat_append list.simps(9) map_append)
  ultimately show ?thesis using assms by simp
qed

lemma find_loop_None: "find_loop s a = None \<Longrightarrow> k + length a \<le> length s \<Longrightarrow> \<not> prefix a (drop k s)"
proof
  assume n: "find_loop s a = None" and k: "k + length a \<le> length s" "prefix a (drop k s)"
  let ?k = "LEAST k. prefix a (drop k s)"
  have "?k \<le> k" using k(2) by (rule Least_le)
  then have "find_loop s a = Some ?k"
    using k LeastI [of "\<lambda>k. prefix a (drop k s)", OF k(2)] not_less_Least [of _ "\<lambda>k. prefix a (drop k s)"]
    by (auto simp: find_loop_Some)
  with n show False by simp
qed

lemma memo_find:
  assumes "separate W" "w \<in> W" "set ws \<subseteq> W"
  shows "(case (if memo f ws \<noteq> [] then u_find (memo f ws) (addr_bytes (fst w)) else None) of
     None \<Rightarrow> fst w \<notin> fst ` set ws
   | Some p \<Rightarrow> rd (memo f ws) (p + 8) = Some (if f (snd w) then 49 else 48))"
proof -
  have u: "(if memo f ws \<noteq> [] then u_find (memo f ws) (addr_bytes (fst w)) else None) = find_loop (memo f ws) (addr_bytes (fst w))"
    by (auto simp: u_find_def find_loop.simps)
  show ?thesis
  proof (cases "find_loop (memo f ws) (addr_bytes (fst w))")
    case None
    have "fst w \<noteq> fst v" if v: "v \<in> set ws" for v
    proof
      assume "fst w = fst v"
      then obtain k where "k + 8 \<le> length (memo f ws)" "prefix (addr_bytes (fst w)) (drop k (memo f ws))"
        using memo_known [OF v, of f] by auto
      then show False using find_loop_None [OF None] by simp
    qed
    then show ?thesis unfolding u None by auto
  next
    case (Some p)
    then have "prefix (addr_bytes (fst w)) (drop p (memo f ws))" by (simp add: find_loop_Some)
    then obtain i where i: "i < length ws" "p = 9 * i" "fst (ws ! i) = fst w"
      using memo_occurrence [OF assms] by blast
    then have "snd (ws ! i) = snd w" using assms nth_mem [OF i(1)] unfolding separate_def by blast
    then show ?thesis unfolding u Some using memo_nth [OF i(1), of f] i(2) by simp
  qed
qed

text \<open>The state of the buffer: records of the answers for words of the query, one for an address.\<close>

definition memo_ok :: "(byte list \<Rightarrow> bool) \<Rightarrow> rep set \<Rightarrow> byte list \<Rightarrow> bool" where
  "memo_ok f W buf \<longleftrightarrow> (\<exists>ws. buf = memo f ws \<and> set ws \<subseteq> W \<and> distinct (map fst ws))"

lemma memo_ok_room:
  assumes "finite W" "9 * card (fst ` W) \<le> U_MAX_SIZE_PREALLOCATE" "set ws \<subseteq> W" "distinct (map fst ws)" "w \<in> W" "fst w \<notin> fst ` set ws"
  shows "length (memo f ws) + 9 \<le> U_MAX_SIZE_PREALLOCATE"
proof -
  have "length (memo f us) = 9 * length us" for us by (induction us) (auto simp: memo_def answer_record_def)
  moreover have "length ws + 1 = card (insert (fst w) (fst ` set ws))"
    using assms(4, 6) distinct_card [OF assms(4)] by simp
  moreover have "\<dots> \<le> card (fst ` W)"
    using assms(1, 3, 5) by (intro card_mono) auto
  ultimately show ?thesis using assms(2) by simp
qed

lemma eval_word_ok:
  assumes "separate W" "finite W" "9 * card (fst ` W) \<le> U_MAX_SIZE_PREALLOCATE" "memo_ok f W buf" "w \<in> W"
  shows "\<exists>buf'. eval_word f w positive buf = Some (buf', positive = f (snd w)) \<and> memo_ok f W buf'"
proof -
  obtain ws where ws: "buf = memo f ws" "set ws \<subseteq> W" "distinct (map fst ws)"
    using assms(4) by (auto simp: memo_ok_def)
  note fd = memo_find [OF assms(1, 5) ws(2), of f, folded ws(1)]
  show ?thesis
  proof (cases "if buf \<noteq> [] then u_find buf (addr_bytes (fst w)) else None")
    case None
    then have new: "fst w \<notin> fst ` set ws" using fd by simp
    have "length buf + 9 \<le> U_MAX_SIZE_PREALLOCATE"
      using memo_ok_room [OF assms(2, 3) ws(2, 3) assms(5) new] ws(1) by simp
    moreover have "memo_ok f W (buf @ answer_record f w)"
      unfolding memo_ok_def using ws new assms(5) by (intro exI [of _ "ws @ [w]"]) (auto simp: memo_def)
    ultimately show ?thesis
      unfolding eval_word_def None by (auto simp: answer_record_def Let_def)
  next
    case (Some p)
    then show ?thesis
      using fd assms(4) unfolding eval_word_def Some by auto
  qed
qed

lemma eval_all_ok:
  assumes "separate W" "finite W" "9 * card (fst ` W) \<le> U_MAX_SIZE_PREALLOCATE" "memo_ok f W buf" "set ws \<subseteq> W"
  shows "\<exists>buf'. eval_all f positive ws (buf, True) = Some (buf', \<forall>w \<in> set ws. f (snd w) = positive) \<and> memo_ok f W buf'"
  using assms(4, 5)
proof (induction ws arbitrary: buf)
  case (Cons w ws)
  obtain b where b: "eval_word f w positive buf = Some (b, positive = f (snd w))" "memo_ok f W b"
    using eval_word_ok [OF assms(1-3) Cons.prems(1), of w positive] Cons.prems(2) by auto
  show ?case
  proof (cases "positive = f (snd w)")
    case True
    then show ?thesis using b Cons.IH [OF b(2)] Cons.prems(2) by auto
  next
    case False
    then show ?thesis using b by auto
  qed
qed simp

lemma eval_all_skip: "eval_all f False ws (buf, False) = Some (buf, False)"
  by (cases ws) auto

lemma eval_terms_ok:
  assumes "separate W" "finite W" "9 * card (fst ` W) \<le> U_MAX_SIZE_PREALLOCATE" "memo_ok f W buf"
    and "\<forall>(p, n) \<in> set ts. set p \<subseteq> W \<and> set n \<subseteq> W"
  shows "eval_terms f ts buf = Some (\<exists>pn \<in> set ts. agrees f pn)"
  using assms(4, 5)
proof (induction ts arbitrary: buf)
  case (Cons pn ts)
  obtain p n where pn: "pn = (p, n)" by fastforce
  obtain b where b: "eval_all f True p (buf, True) = Some (b, \<forall>w \<in> set p. f (snd w))" "memo_ok f W b"
    using eval_all_ok [OF assms(1-3) Cons.prems(1), of p True] Cons.prems(2) pn by auto
  show ?case
  proof (cases "\<forall>w \<in> set p. f (snd w)")
    case True
    obtain c where c: "eval_all f False n (b, True) = Some (c, \<forall>w \<in> set n. \<not> f (snd w))" "memo_ok f W c"
      using eval_all_ok [OF assms(1-3) b(2), of n False] Cons.prems(2) pn by auto
    then show ?thesis
      using Cons.IH [OF c(2)] Cons.prems(2) b True pn by (auto simp: agrees_def)
  next
    case False
    then have "eval_all f True p (buf, True) = Some (b, False)" "\<not> agrees f pn" using b pn by (auto simp: agrees_def)
    then show ?thesis
      using Cons.IH [OF b(2)] Cons.prems(2) pn by (simp add: eval_all_skip)
  qed
qed simp

section \<open>Properties\<close>

text \<open>
  C16: \<open>getRawDNF\<close> fails, with a null pointer dereferenced, exactly on the queries in which a word stands under three
  nested negations. On every other query it ends, in a tree in disjunctive normal form that holds for the
  same words as the query.
\<close>

theorem getRawDNF_correct:
  "case getRawDNF t of
     None \<Rightarrow> triple_not t
   | Some t' \<Rightarrow> \<not> triple_not t \<and> isDisjunctiveNormalForm t' \<and> (\<forall>f. holds f t' = holds f t)"
proof (cases "triple_not t")
  case False
  then obtain t' where "getRawDNF t = Some t'" "raw_answer t t'" using getRawDNF_answers by blast
  then show ?thesis using False by (simp add: raw_answer_def sum_dnf)
qed (simp add: getRawDNF_crash)

text \<open>
  C7: the whole evaluation. For a query without three nested negations of a word, \<open>getDisjunctiveNormalForm\<close> answers the
  null pointer exactly when no words satisfy the query; otherwise \<open>startEvaluate\<close> and \<open>evaluate\<close> on its result stay
  within \<open>u_buffer\<close> and answer whether the query holds, for every function that tells whether a word is there. The addresses
  of the words must not be confused in the buffer, and there must be room for all of them.
\<close>

theorem query_evaluates:
  assumes "\<not> triple_not t" "separate (words_of t)" "9 * card (fst ` words_of t) \<le> U_MAX_SIZE_PREALLOCATE"
  shows "\<exists>tree. getDisjunctiveNormalForm t = Some tree \<and> (tree = None \<longleftrightarrow> (\<forall>f. \<not> holds f t)) \<and>
    (tree \<noteq> None \<longrightarrow> (\<forall>f. evaluate f tree = Some (holds f t)))"
proof -
  obtain r where r: "getDisjunctiveNormalForm t = Some r"
    "case r of None \<Rightarrow> \<forall>f. \<not> holds f t
     | Some d \<Rightarrow> is_sum d \<and> (\<forall>f. holds f d = holds f t) \<and> (\<exists>f. holds f t) \<and> words_of d \<subseteq> words_of t"
    using dnf_answers [OF assms(1)] by blast
  have fin: "finite (words_of u)" for u by (induction u) auto
  have "evaluate f (Some d) = Some (holds f t)"
    if d: "is_sum d" "\<forall>f. holds f d = holds f t" "words_of d \<subseteq> words_of t" for d f
  proof -
    let ?ts = "getDNFTermRoots d []" and ?v = "\<lambda>u. getTreeVariables u ([], [])"
    have trm: "is_term u" "words_of u \<subseteq> words_of t" if "u \<in> set ?ts" for u
      using that term_roots_sum(1, 3) [OF d(1)] d(3) by (auto simp: list_all_iff)
    have "set (fst (?v u)) \<subseteq> words_of t" "set (snd (?v u)) \<subseteq> words_of t" if "u \<in> set ?ts" for u
      using term_variables_words [OF trm(1) [OF that], of "([], [])"] trm(2) [OF that] by auto
    then have "\<forall>(p, n) \<in> set (map ?v ?ts). set p \<subseteq> words_of t \<and> set n \<subseteq> words_of t"
      by (auto simp: case_prod_beta)
    then have "eval_terms f (map ?v ?ts) [] = Some (\<exists>pn \<in> set (map ?v ?ts). agrees f pn)"
      by (intro eval_terms_ok [OF assms(2) fin assms(3)]) (auto simp: memo_ok_def memo_def intro: exI [of _ "[]"])
    also have "(\<exists>pn \<in> set (map ?v ?ts). agrees f pn) = holds f d"
      using term_roots_sum(2) [OF d(1), of f] trm term_variables [of _ f "([], [])"] by (auto simp: agrees_def)
    finally show ?thesis using d(2) by (simp add: evaluate_def startEvaluate_def)
  qed
  then show ?thesis using r by (cases r) auto
qed

text \<open>The example of the source, \<open>(a OR b) AND NOT (c AND d)\<close>, on two words.\<close>

definition example_query :: query_node where
  "example_query =
     (let a = Q_VALUE (0x55550000a0c0, bytes ''a''); b = Q_VALUE (0x55550000a0f8, bytes ''b'')
      in Q_AND (Q_OR a b) (Q_NOT (Q_AND a b)))"

theorem query_evaluates_witness:
  "\<exists>tree. getDisjunctiveNormalForm example_query = Some tree \<and> tree \<noteq> None \<and>
     evaluate (\<lambda>w. w = bytes ''a'') tree = Some True \<and> evaluate (\<lambda>w. True) tree = Some False"
proof -
  have "\<not> triple_not example_query" by code_simp
  moreover have "separate (words_of example_query)" by code_simp
  moreover have "9 * card (fst ` words_of example_query) \<le> U_MAX_SIZE_PREALLOCATE" by code_simp
  ultimately obtain tree where tree: "getDisjunctiveNormalForm example_query = Some tree"
    "tree = None \<longleftrightarrow> (\<forall>f. \<not> holds f example_query)" "tree \<noteq> None \<longrightarrow> (\<forall>f. evaluate f tree = Some (holds f example_query))"
    using query_evaluates by blast
  moreover have "holds (\<lambda>w. w = bytes ''a'') example_query" "\<not> holds (\<lambda>w. True) example_query"
    by code_simp+
  ultimately show ?thesis by (intro exI [of _ tree]) auto
qed

text \<open>
  Where the hypotheses fail: a word negated three times makes the code dereference a null pointer; so does the evaluation of a
  query that no words satisfy, which \<open>parse\<close> accepts; and three words whose addresses overlap in \<open>u_buffer\<close> give a query
  that holds the answer false.
\<close>

theorem query_defects:
  "let a = Q_VALUE (0x7f1234567890, bytes ''a''); b = Q_VALUE (0x7f1234560000, bytes ''b'');
       c = Q_VALUE (0x3100007f1234, bytes ''c''); q = Q_AND a (Q_AND b c)
   in getRawDNF (Q_NOT (Q_NOT (Q_NOT a))) = None \<and>
      getDisjunctiveNormalForm (Q_AND a (Q_NOT a)) = Some None \<and> evaluate (\<lambda>w. True) None = None \<and>
      getDisjunctiveNormalForm q = Some (Some q) \<and> holds (\<lambda>w. True) q \<and> evaluate (\<lambda>w. True) (Some q) = Some False"
  by code_simp

end
