(* ===== verification/QueryParser.thy ===== *)
theory QueryParser
  imports Tokenizer Query
begin

text \<open>
  The parser of queries (class \<open>UQueryParser\<close> of \<open>src/ulib/query/query_parser.cpp\<close>) and the output of a query
  (\<open>operator<<\<close>). The text is read through a tokenizer. A new word gets a representation whose address the allocator chooses:
  \<open>addr\<close> gives it, for the offset of the word in the text. \<open>U_ERROR\<close>, which ends the process, is a value of type
  \<open>query_error\<close>; a read outside the text and its terminator is \<open>None\<close>.
\<close>

section \<open>Parser\<close>

datatype query_error = RUNAWAY_PARENTHESIS | GARBAGE_AT_END | OUT_OF_FUEL

type_synonym parsed = "(query_error + query_node \<times> tokenizer) option"

abbreviation s_p1 :: "byte list" where "s_p1 \<equiv> bytes ''(''"
abbreviation s_p2 :: "byte list" where "s_p2 \<equiv> bytes '')''"
abbreviation s_or :: "byte list" where "s_or \<equiv> bytes ''OR''"
abbreviation s_and :: "byte list" where "s_and \<equiv> bytes ''AND''"
abbreviation s_not :: "byte list" where "s_not \<equiv> bytes ''NOT''"

definition isBraceStart :: "tokenizer \<Rightarrow> (bool \<times> tokenizer) option" where "isBraceStart = tokenSeen s_p1"
definition isBraceEnd :: "tokenizer \<Rightarrow> (bool \<times> tokenizer) option" where "isBraceEnd = tokenSeen s_p2"
definition isOR :: "tokenizer \<Rightarrow> (bool \<times> tokenizer) option" where "isOR = tokenSeen s_or"
definition isAND :: "tokenizer \<Rightarrow> (bool \<times> tokenizer) option" where "isAND = tokenSeen s_and"
definition isNOT :: "tokenizer \<Rightarrow> (bool \<times> tokenizer) option" where "isNOT = tokenSeen s_not"

lemma tokenSeen_progress:
  assumes "tokenSeen x t = Some (r, t')"
  shows "tk_end t' = tk_end t" "tk_str t' = tk_str t" "r \<Longrightarrow> x \<noteq> [] \<Longrightarrow> tk_s t < tk_s t' \<and> tk_s t < tk_end t"
  using assms by (auto simp: tokenSeen_def skipSpaces_def neq_Nil_conv split: option.splits if_splits bind_splits dest!: skip_while_bounds)

text \<open>\<open>while (isNOT ()) v = !v;\<close>\<close>

function skip_nots :: "tokenizer \<Rightarrow> bool \<Rightarrow> (bool \<times> tokenizer) option" where
  "skip_nots t v = do {
     (r, t') \<leftarrow> isNOT t;
     if r then skip_nots t' (\<not> v) else Some (v, t')
   }"
  by pat_completeness auto

termination
proof (relation "measure (\<lambda>(t, v). tk_end t - tk_s t)")
  fix t v x r t'
  assume "isNOT t = Some x" "(r, t') = x" "r"
  then have "tokenSeen s_not t = Some (True, t')" by (simp add: isNOT_def)
  from tokenSeen_progress [OF this] show "((t', \<not> v), t, v) \<in> measure (\<lambda>(t, v). tk_end t - tk_s t)"
    by (auto simp: bytes_def)
qed simp

declare skip_nots.simps [simp del]

text \<open>
  The four functions of the recursive descent; the first argument after \<open>addr\<close> is fuel. A call passes on the position, or reads
  at least one character before the next call at the same level, so four times the length of the rest is enough.
\<close>

fun parseExpr :: "(nat \<Rightarrow> u64) \<Rightarrow> nat \<Rightarrow> tokenizer \<Rightarrow> parsed"
  and parseTerm :: "(nat \<Rightarrow> u64) \<Rightarrow> nat \<Rightarrow> tokenizer \<Rightarrow> parsed"
  and parseFactor :: "(nat \<Rightarrow> u64) \<Rightarrow> nat \<Rightarrow> tokenizer \<Rightarrow> parsed"
  and parseAtom :: "(nat \<Rightarrow> u64) \<Rightarrow> nat \<Rightarrow> tokenizer \<Rightarrow> parsed" where
  "parseExpr addr 0 t = Some (Inl OUT_OF_FUEL)"
| "parseExpr addr (Suc n) t = do {
     r \<leftarrow> parseTerm addr n t;
     case r of
       Inl err \<Rightarrow> Some (Inl err)
     | Inr (left, t) \<Rightarrow> do {
         (seen, t) \<leftarrow> isOR t;
         if \<not> seen then Some (Inr (left, t))
         else do {
           r \<leftarrow> parseExpr addr n t;
           Some (case r of Inl err \<Rightarrow> Inl err | Inr (right, t) \<Rightarrow> Inr (Q_OR left right, t))
         }
       }
   }"
| "parseTerm addr 0 t = Some (Inl OUT_OF_FUEL)"
| "parseTerm addr (Suc n) t = do {
     r \<leftarrow> parseFactor addr n t;
     case r of
       Inl err \<Rightarrow> Some (Inl err)
     | Inr (left, t) \<Rightarrow> do {
         (seen, t) \<leftarrow> isAND t;
         if \<not> seen then Some (Inr (left, t))
         else do {
           r \<leftarrow> parseTerm addr n t;
           Some (case r of Inl err \<Rightarrow> Inl err | Inr (right, t) \<Rightarrow> Inr (Q_AND left right, t))
         }
       }
   }"
| "parseFactor addr 0 t = Some (Inl OUT_OF_FUEL)"
| "parseFactor addr (Suc n) t = do {
     (v, t) \<leftarrow> skip_nots t True;
     r \<leftarrow> parseAtom addr n t;
     Some (case r of Inl err \<Rightarrow> Inl err | Inr (atom, t) \<Rightarrow> Inr (if v then atom else Q_NOT atom, t))
   }"
| "parseAtom addr 0 t = Some (Inl OUT_OF_FUEL)"
| "parseAtom addr (Suc n) t = do {
     (seen, t) \<leftarrow> isBraceStart t;
     if seen then do {
       r \<leftarrow> parseExpr addr n t;
       case r of
         Inl err \<Rightarrow> Some (Inl err)
       | Inr (expr, t) \<Rightarrow> do {
           (seen, t) \<leftarrow> isBraceEnd t;
           Some (if \<not> seen then Inl RUNAWAY_PARENTHESIS else Inr (expr, t))
         }
     }
     else do {
       (v, t) \<leftarrow> getTokenQueryParser t;
       Some (Inr (Q_VALUE (addr (fst v), view_text t v), t))
     }
   }"

text \<open>\<open>parse\<close>: the outcome is the normal form of the tree, a null pointer for a query that is never true.\<close>

definition parse_tree :: "(nat \<Rightarrow> u64) \<Rightarrow> mem \<Rightarrow> nat \<Rightarrow> parsed" where
  "parse_tree addr m n = parseExpr addr (4 * n + 8) (tk_new m n None)"

definition parse :: "(nat \<Rightarrow> u64) \<Rightarrow> mem \<Rightarrow> nat \<Rightarrow> (query_error + query_node option) option" where
  "parse addr m n = do {
     r \<leftarrow> parse_tree addr m n;
     case r of
       Inl err \<Rightarrow> Some (Inl err)
     | Inr (tree, t) \<Rightarrow>
         if \<not> atEnd t then Some (Inl GARBAGE_AT_END)
         else map_option Inr (getDisjunctiveNormalForm tree)
   }"

section \<open>Output\<close>

definition parens :: "bool \<Rightarrow> byte list \<Rightarrow> byte list" where
  "parens parent s = (if parent then s_p1 @ s @ s_p2 else s)"

fun print_query :: "query_node \<Rightarrow> byte list" where
  "print_query (Q_VALUE v) = snd v"
| "print_query (Q_NOT r) = [SPACE] @ s_not @ [SPACE] @ parens (is_AND r \<or> is_OR r) (print_query r)"
| "print_query (Q_OR l r) = print_query l @ [SPACE] @ s_or @ [SPACE] @ print_query r"
| "print_query (Q_AND l r) =
     parens (is_OR l) (print_query l) @ [SPACE] @ s_and @ [SPACE] @ parens (is_OR r) (print_query r)"

section \<open>The parser ends\<close>

text \<open>A tokenizer of the parser: over a terminated text, not past its end when a function of the parser is called.\<close>

lemma tokenSeen_tz:
  assumes "NUL \<notin> set x" "s \<le> length d + 1"
  shows "tokenSeen x (tz d s) =
    (let s1 = s + length (takeWhile u__isspace (drop s d)); seen = (s1 < length d \<and> prefix x (drop s1 d))
     in Some (seen, tz d (if seen then s1 + length x else s1)))"
  using assms mem_equal_terminated [of x "s + length (takeWhile u__isspace (drop s d))" d]
  by (auto simp: tokenSeen_def skipSpaces_def skip_terminated Let_def)

text \<open>What a function of the parser answers from a position inside the text: an error, or a node and a position further on.\<close>

definition parsed_ok :: "byte list \<Rightarrow> nat \<Rightarrow> parsed \<Rightarrow> bool" where
  "parsed_ok d s r \<longleftrightarrow> (\<exists>err. r = Some (Inl err) \<and> err \<noteq> OUT_OF_FUEL) \<or>
     (\<exists>u s'. r = Some (Inr (u, tz d s')) \<and> s < s' \<and> s' \<le> length d + 1)"

lemma parsed_ok_cases:
  assumes "parsed_ok d s r"
  obtains (err) err where "r = Some (Inl err)" "err \<noteq> OUT_OF_FUEL"
    | (node) u s' where "r = Some (Inr (u, tz d s'))" "s < s'" "s' \<le> length d + 1"
  using assms by (auto simp: parsed_ok_def)

lemma seen_cases:
  assumes "NUL \<notin> set x" "x \<noteq> []" "s \<le> length d + 1"
  obtains (yes) s' where "tokenSeen x (tz d s) = Some (True, tz d s')" "s < s'" "s' \<le> length d"
    | (no) s' where "tokenSeen x (tz d s) = Some (False, tz d s')" "s \<le> s'" "s' \<le> length d + 1" "s \<le> length d \<Longrightarrow> s' \<le> length d"
proof -
  define s1 where "s1 = s + length (takeWhile u__isspace (drop s d))"
  have b: "s \<le> s1" "s1 \<le> length d + 1" "s \<le> length d \<Longrightarrow> s1 \<le> length d"
    using assms(3) takeWhile_end [of s d u__isspace] by (cases "s \<le> length d"; simp add: s1_def)+
  have t: "tokenSeen x (tz d s) = Some (s1 < length d \<and> prefix x (drop s1 d), tz d (if s1 < length d \<and> prefix x (drop s1 d) then s1 + length x else s1))"
    using tokenSeen_tz [OF assms(1, 3)] unfolding s1_def Let_def .
  show ?thesis
  proof (cases "s1 < length d \<and> prefix x (drop s1 d)")
    case True
    then have "tokenSeen x (tz d s) = Some (True, tz d (s1 + length x))" using t by simp
    moreover have "s1 + length x \<le> length d" using True prefix_length_le [of x "drop s1 d"] by auto
    moreover have "0 < length x" using assms(2) by simp
    ultimately show ?thesis using yes [of "s1 + length x"] b(1) by linarith
  next
    case False
    then have "tokenSeen x (tz d s) = Some (False, tz d s1)" using t by auto
    then show ?thesis using no [of s1] b by blast
  qed
qed

lemma keyword [simp]: "NUL \<notin> set s_p1" "NUL \<notin> set s_p2" "NUL \<notin> set s_or" "NUL \<notin> set s_and" "NUL \<notin> set s_not"
  "s_p1 \<noteq> []" "s_p2 \<noteq> []" "s_or \<noteq> []" "s_and \<noteq> []" "s_not \<noteq> []"
  by (simp_all add: bytes_def)

lemma skip_nots_ok: "s \<le> length d \<Longrightarrow> \<exists>v' s'. skip_nots (tz d s) v = Some (v', tz d s') \<and> s \<le> s' \<and> s' \<le> length d"
proof (induction "length d - s" arbitrary: s v rule: less_induct)
  case less
  from less.prems have "s \<le> length d + 1" by simp
  show ?case
  proof (rule seen_cases [OF keyword(5) keyword(10) \<open>s \<le> length d + 1\<close>], goal_cases yes no)
    case (yes s')
    then obtain v' s'' where "skip_nots (tz d s') (\<not> v) = Some (v', tz d s'')" "s' \<le> s''" "s'' \<le> length d"
      using less.hyps [OF diff_less_mono2 [OF yes(2)], of "\<not> v"] by auto
    then show ?thesis
      using yes by (auto simp: skip_nots.simps [of "tz d s"] isNOT_def)
  next
    case (no s')
    then show ?thesis using less.prems by (auto simp: skip_nots.simps [of "tz d s"] isNOT_def)
  qed
qed

lemma getTokenQueryParser_ok:
  assumes "s \<le> length d"
  shows "\<exists>v s'. getTokenQueryParser (tz d s) = Some (v, tz d s') \<and> s < s' \<and> s' \<le> length d + 1"
proof -
  define p where "p = s + length (takeWhile u__isspace (drop s d))"
  have p: "s \<le> p" "p \<le> length d" using takeWhile_end [OF assms, of u__isspace] by (auto simp: p_def)
  have end_le: "Suc p + length (takeWhile P (drop (Suc p) d)) \<le> length d + 1" for P
    using p(2) takeWhile_end [of "Suc p" d P] by (cases "p < length d") auto
  have "(if a < e then a + 1 else a) = (if a < e then Suc a else a)" for a e :: nat by simp
  then show ?thesis
    using p end_le rd_append1 [of p d "[NUL]"]
    by (auto simp: getTokenQueryParser_def skipSpaces_def skip_terminated p_def [symmetric] rd_def nth_append Let_def
        intro: le_SucI)
qed

lemma parse_total:
  "s \<le> length d \<Longrightarrow> 4 * (length d + 1 - s) + 4 \<le> n \<Longrightarrow> parsed_ok d s (parseExpr addr n (tz d s))"
  "s \<le> length d \<Longrightarrow> 4 * (length d + 1 - s) + 3 \<le> n \<Longrightarrow> parsed_ok d s (parseTerm addr n (tz d s))"
  "s \<le> length d \<Longrightarrow> 4 * (length d + 1 - s) + 2 \<le> n \<Longrightarrow> parsed_ok d s (parseFactor addr n (tz d s))"
  "s \<le> length d \<Longrightarrow> 4 * (length d + 1 - s) + 1 \<le> n \<Longrightarrow> parsed_ok d s (parseAtom addr n (tz d s))"
proof (induction n arbitrary: s)
  case (Suc n)
  {
    case 1
    then have "parsed_ok d s (parseTerm addr n (tz d s))" using Suc(2) by simp
    then show ?case
    proof (cases rule: parsed_ok_cases)
      case (node u s')
      from node(3) show ?thesis
      proof (rule seen_cases [OF keyword(3) keyword(8)], goal_cases yes no)
        case (yes s'')
        then have "parsed_ok d s'' (parseExpr addr n (tz d s''))" using Suc(1) [of s''] 1 node by simp
        then show ?thesis
          using node yes by (cases rule: parsed_ok_cases) (auto simp: parsed_ok_def isOR_def)
      next
        case (no s'')
        then show ?thesis using node by (auto simp: parsed_ok_def isOR_def)
      qed
    qed (simp add: parsed_ok_def)
  next
    case 2
    then have "parsed_ok d s (parseFactor addr n (tz d s))" using Suc(3) by simp
    then show ?case
    proof (cases rule: parsed_ok_cases)
      case (node u s')
      from node(3) show ?thesis
      proof (rule seen_cases [OF keyword(4) keyword(9)], goal_cases yes no)
        case (yes s'')
        then have "parsed_ok d s'' (parseTerm addr n (tz d s''))" using Suc(2) [of s''] 2 node by simp
        then show ?thesis
          using node yes by (cases rule: parsed_ok_cases) (auto simp: parsed_ok_def isAND_def)
      next
        case (no s'')
        then show ?thesis using node by (auto simp: parsed_ok_def isAND_def)
      qed
    qed (simp add: parsed_ok_def)
  next
    case 3
    obtain v s' where sk: "skip_nots (tz d s) True = Some (v, tz d s')" "s \<le> s'" "s' \<le> length d"
      using skip_nots_ok [OF 3(1)] by blast
    then have "parsed_ok d s' (parseAtom addr n (tz d s'))" using Suc(4) [of s'] 3 by simp
    then show ?case
      using sk by (cases rule: parsed_ok_cases) (auto simp: parsed_ok_def)
  next
    case 4
    then have "s \<le> length d + 1" by simp
    then show ?case
    proof (rule seen_cases [OF keyword(1) keyword(6)], goal_cases yes no)
      case (yes s')
      then have "parsed_ok d s' (parseExpr addr n (tz d s'))" using Suc(1) [of s'] 4 by simp
      then show ?thesis
      proof (cases rule: parsed_ok_cases)
        case (node u s'')
        from node(3) show ?thesis
          by (rule seen_cases [OF keyword(2) keyword(7)]) (use node yes in \<open>auto simp: parsed_ok_def isBraceStart_def isBraceEnd_def\<close>)
      qed (use yes in \<open>simp add: parsed_ok_def isBraceStart_def\<close>)
    next
      case (no s')
      then obtain v s'' where "getTokenQueryParser (tz d s') = Some (v, tz d s'')" "s' < s''" "s'' \<le> length d + 1"
        using getTokenQueryParser_ok [of s' d] 4 by auto
      then show ?thesis using no by (auto simp: parsed_ok_def isBraceStart_def)
    qed
  }
qed simp_all

section \<open>Printed queries\<close>

text \<open>The tokenizer in front of a rest of the text.\<close>

definition tq :: "byte list \<Rightarrow> byte list \<Rightarrow> tokenizer" where
  "tq d xs = tz d (length d - length xs)"

abbreviation strip :: "byte list \<Rightarrow> byte list" where
  "strip \<equiv> dropWhile u__isspace"

lemma drop_suffix: "suffix xs d \<Longrightarrow> drop (length d - length xs) d = xs"
  by (auto simp: suffix_def)

lemma suffix_strip: "suffix xs d \<Longrightarrow> suffix (strip xs) d"
  using suffix_dropWhile suffix_order.trans by blast

lemma strip_position: "suffix xs d \<Longrightarrow> length d - length xs + length (takeWhile u__isspace xs) = length d - length (strip xs)"
proof -
  assume "suffix xs d"
  then have "length xs \<le> length d" by (rule suffix_length_le)
  moreover have "length xs = length (takeWhile u__isspace xs) + length (strip xs)"
    by (metis length_append takeWhile_dropWhile_id)
  ultimately show ?thesis by linarith
qed

lemma tokenSeen_tq:
  assumes "suffix xs d" "NUL \<notin> set x" "x \<noteq> []"
  shows "tokenSeen x (tq d xs) =
    Some (if prefix x (strip xs) then (True, tq d (drop (length x) (strip xs))) else (False, tq d (strip xs)))"
proof -
  let ?s1 = "length d - length (strip xs)"
  note sf = suffix_strip [OF assms(1)]
  have d: "drop ?s1 d = strip xs" by (rule drop_suffix [OF sf])
  have "tokenSeen x (tq d xs) = Some (?s1 < length d \<and> prefix x (strip xs), tz d (if ?s1 < length d \<and> prefix x (strip xs) then ?s1 + length x else ?s1))"
    using tokenSeen_tz [OF assms(2), of "length d - length xs" d] drop_suffix [OF assms(1)] strip_position [OF assms(1)] d
    by (simp add: tq_def Let_def)
  moreover have "?s1 < length d" if "prefix x (strip xs)"
    using that assms(3) suffix_length_le [OF sf] by (cases "strip xs") auto
  moreover have "?s1 + length x = length d - length (drop (length x) (strip xs))" if "prefix x (strip xs)"
    using prefix_length_le [OF that] suffix_length_le [OF sf] by simp
  ultimately show ?thesis by (auto simp: tq_def)
qed

text \<open>A word that the parser reads as one value.\<close>

definition name_char :: "byte \<Rightarrow> bool" where
  "name_char c \<longleftrightarrow> \<not> u__isspace c \<and> c \<noteq> 40 \<and> c \<noteq> 41"

definition query_word :: "byte list \<Rightarrow> bool" where
  "query_word w \<longleftrightarrow> w \<noteq> [] \<and> list_all name_char w \<and> hd w \<noteq> DQUOTE \<and> \<not> prefix s_not w"

text \<open>What may follow a word.\<close>

definition follow :: "byte list \<Rightarrow> bool" where
  "follow xs \<longleftrightarrow> xs = [] \<or> \<not> name_char (hd xs)"

lemma takeWhile_follow: "list_all P w \<Longrightarrow> xs = [] \<or> \<not> P (hd xs) \<Longrightarrow> takeWhile P (w @ xs) = w"
  by (induction w) (cases xs; auto)+

lemma getToken_word:
  assumes "query_word w" "follow rest" "suffix (w @ rest) d"
  shows "\<exists>p. getTokenQueryParser (tq d (w @ rest)) = Some ((p, length w), tq d rest) \<and> view_text (tq d rest) (p, length w) = w"
proof -
  obtain c w' where w: "w = c # w'" and c: "name_char c" "c \<noteq> DQUOTE" "list_all name_char w'"
    using assms(1) by (cases w) (auto simp: query_word_def)
  let ?p = "length d - length (w @ rest)"
  have d: "drop ?p d = c # w' @ rest" using drop_suffix [OF assms(3)] w by simp
  have le: "length (w @ rest) \<le> length d" by (rule suffix_length_le [OF assms(3)])
  have lt: "?p < length d" using le w by simp
  have ds: "drop (Suc ?p) d = w' @ rest" using arg_cong [OF d, of tl] by (simp add: tl_drop drop_Suc)
  have c0: "rd (d @ [NUL]) ?p = Some c"
    using d lt nth_via_drop [OF d] by (simp add: rd_def nth_append)
  have sk: "skip_while u__isspace (d @ [NUL]) ?p (length d) = Some ?p"
    using skip_terminated [of u__isspace d ?p] d c(1) by (simp add: name_char_def)
  have tw: "takeWhile name_char (w' @ rest) = w'"
    using c(3) assms(2) by (intro takeWhile_follow) (auto simp: follow_def)
  have "skip_while name_char (d @ [NUL]) (Suc ?p) (length d) = Some (length d - length rest)"
    using skip_terminated [of name_char d "Suc ?p"] ds tw le w by simp
  then have "getTokenQueryParser (tq d (w @ rest)) = Some ((?p, length w), tq d rest)"
    using sk c0 c(2) le w
    by (simp add: getTokenQueryParser_def skipSpaces_def tq_def name_char_def [abs_def] Let_def)
  moreover have "view_text (tq d rest) (?p, length w) = w"
    using d le w by (simp add: view_text_def tq_def)
  ultimately show ?thesis by blast
qed

lemma word_not_keyword:
  assumes "query_word w"
  shows "strip (w @ rest) = w @ rest" "\<not> prefix s_p1 (w @ rest)"
  using assms by (cases w; auto simp: query_word_def name_char_def bytes_def)+

lemma word_not_NOT:
  assumes "query_word w" "follow rest"
  shows "\<not> prefix s_not (w @ rest)"
proof
  assume "prefix s_not (w @ rest)"
  then obtain us where us: "s_not = w @ us" "prefix us rest" "us \<noteq> []"
    using assms(1) by (auto simp: prefix_append query_word_def)
  have "list_all name_char (w @ us)" unfolding us(1) [symmetric] by code_simp
  then have "name_char (hd us)" using us(3) by (cases us) auto
  moreover have "hd rest = hd us" "rest \<noteq> []" using us(2, 3) by (cases us; cases rest; auto)+
  ultimately show False using assms(2) by (simp add: follow_def)
qed

text \<open>The functions of the parser skip white space first.\<close>

lemma strip_strip [simp]: "strip (strip xs) = strip xs"
  by (induction xs) auto

lemma parse_strip:
  assumes "suffix xs d" "suffix ys d" "strip xs = strip ys"
  shows "skip_nots (tq d xs) v = skip_nots (tq d ys) v" "parseFactor addr n (tq d xs) = parseFactor addr n (tq d ys)"
    "parseTerm addr n (tq d xs) = parseTerm addr n (tq d ys)" "parseExpr addr n (tq d xs) = parseExpr addr n (tq d ys)"
proof -
  have "isNOT (tq d xs) = isNOT (tq d ys)" 
    unfolding isNOT_def tokenSeen_tq [OF assms(1) keyword(5) keyword(10)] tokenSeen_tq [OF assms(2) keyword(5) keyword(10)] assms(3) ..
  then have n: "skip_nots (tq d xs) v = skip_nots (tq d ys) v" for v by (simp only: skip_nots.simps [of "tq d _"])
  then have f: "parseFactor addr n (tq d xs) = parseFactor addr n (tq d ys)" for n by (cases n) (simp_all only: parseFactor.simps)
  then have t: "parseTerm addr n (tq d xs) = parseTerm addr n (tq d ys)" for n by (cases n) (simp_all only: parseTerm.simps)
  then have "parseExpr addr n (tq d xs) = parseExpr addr n (tq d ys)" for n by (cases n) (simp_all only: parseExpr.simps)
  with n f t show "skip_nots (tq d xs) v = skip_nots (tq d ys) v" "parseFactor addr n (tq d xs) = parseFactor addr n (tq d ys)"
    "parseTerm addr n (tq d xs) = parseTerm addr n (tq d ys)" "parseExpr addr n (tq d xs) = parseExpr addr n (tq d ys)" by blast+
qed

subsection \<open>The shape of the output\<close>

fun disjuncts :: "query_node \<Rightarrow> query_node list" where
  "disjuncts (Q_OR l r) = disjuncts l @ disjuncts r"
| "disjuncts t = [t]"

fun conjuncts :: "query_node \<Rightarrow> query_node list" where
  "conjuncts (Q_AND l r) = conjuncts l @ conjuncts r"
| "conjuncts t = [t]"

fun core :: "query_node \<Rightarrow> query_node" where
  "core (Q_NOT r) = core r"
| "core t = t"

fun nots :: "query_node \<Rightarrow> nat" where
  "nots (Q_NOT r) = Suc (nots r)"
| "nots t = 0"

fun sep_by :: "byte list \<Rightarrow> byte list list \<Rightarrow> byte list" where
  "sep_by p [] = []"
| "sep_by p [x] = x"
| "sep_by p (x # y # xs) = x @ p @ sep_by p (y # xs)"

lemma sep_by_append: "xs \<noteq> [] \<Longrightarrow> ys \<noteq> [] \<Longrightarrow> sep_by p (xs @ ys) = sep_by p xs @ p @ sep_by p ys"
proof (induction p xs rule: sep_by.induct)
  case (2 p x)
  then show ?case by (cases ys) auto
qed auto

definition print_term :: "query_node \<Rightarrow> byte list" where
  "print_term t = parens (is_OR t) (print_query t)"

definition print_atom :: "query_node \<Rightarrow> byte list" where
  "print_atom t = parens (is_AND t \<or> is_OR t) (print_query t)"

definition AND_text :: "byte list" where "AND_text = [SPACE] @ s_and @ [SPACE]"
definition OR_text :: "byte list" where "OR_text = [SPACE] @ s_or @ [SPACE]"
definition NOT_text :: "byte list" where "NOT_text = [SPACE] @ s_not @ [SPACE]"

lemma conjuncts_ne [simp]: "conjuncts t \<noteq> []"
  by (induction t) auto

lemma disjuncts_ne [simp]: "disjuncts t \<noteq> []"
  by (induction t) auto

lemma print_conjuncts: "print_term t = sep_by AND_text (map print_term (conjuncts t))"
  by (induction t) (auto simp: print_term_def parens_def sep_by_append AND_text_def)

lemma print_disjuncts: "print_query t = sep_by OR_text (map print_term (disjuncts t))"
  by (induction t) (auto simp: print_term_def parens_def sep_by_append OR_text_def)

lemma print_nots: "print_atom t = concat (replicate (nots t) NOT_text) @ print_atom (core t)"
  by (induction t) (auto simp: print_atom_def parens_def NOT_text_def)

lemma holds_conjuncts: "holds f t \<longleftrightarrow> (\<forall>u \<in> set (conjuncts t). holds f u)"
  by (induction t) auto

lemma holds_disjuncts: "holds f t \<longleftrightarrow> (\<exists>u \<in> set (disjuncts t). holds f u)"
  by (induction t) auto

lemma holds_core: "holds f t \<longleftrightarrow> (if even (nots t) then holds f (core t) else \<not> holds f (core t))"
  by (induction t) auto

text \<open>The trees the parser builds: no negation stands directly under another.\<close>

fun flat :: "query_node \<Rightarrow> bool" where
  "flat (Q_VALUE v) = True"
| "flat (Q_NOT r) = (\<not> is_NOT r \<and> flat r)"
| "flat (Q_AND l r) = (flat l \<and> flat r)"
| "flat (Q_OR l r) = (flat l \<and> flat r)"

lemma flat_no_triple: "flat t \<Longrightarrow> \<not> triple_not t"
proof (induction t)
  case (Q_NOT r)
  then show ?case by (cases r rule: double_not.cases) auto
qed auto

subsection \<open>Reading it back\<close>

text \<open>The answer of a function of the parser in front of a rest: a node that means \<open>P\<close>, and the position at \<open>ys\<close>.\<close>

definition reads_back :: "parsed \<Rightarrow> byte list \<Rightarrow> byte list \<Rightarrow> ((byte list \<Rightarrow> bool) \<Rightarrow> bool) \<Rightarrow> bool \<Rightarrow> bool" where
  "reads_back r d ys P binary \<longleftrightarrow> (\<exists>u. r = Some (Inr (u, tq d ys)) \<and> (\<forall>f. holds f u = P f) \<and> flat u \<and> (binary \<longrightarrow> \<not> is_NOT u))"

definition words_ok :: "query_node \<Rightarrow> bool" where
  "words_ok t \<longleftrightarrow> (\<forall>w \<in> words_of t. query_word (snd w))"

definition atom_ok :: "(nat \<Rightarrow> u64) \<Rightarrow> query_node \<Rightarrow> bool" where
  "atom_ok addr c \<longleftrightarrow> (\<forall>n d rest. suffix (print_atom c @ rest) d \<longrightarrow> 4 * length (print_atom c @ rest) + 1 \<le> n \<longrightarrow> follow rest \<longrightarrow>
     reads_back (parseAtom addr n (tq d (print_atom c @ rest))) d rest (\<lambda>f. holds f c) True)"

definition expr_ok :: "(nat \<Rightarrow> u64) \<Rightarrow> query_node \<Rightarrow> bool" where
  "expr_ok addr t \<longleftrightarrow> (\<forall>n d rest. suffix (print_query t @ rest) d \<longrightarrow> 4 * length (print_query t @ rest) + 4 \<le> n \<longrightarrow> follow rest \<longrightarrow>
     \<not> prefix s_and (strip rest) \<longrightarrow> \<not> prefix s_or (strip rest) \<longrightarrow>
     reads_back (parseExpr addr n (tq d (print_query t @ rest))) d (strip rest) (\<lambda>f. holds f t) (is_AND t \<or> is_OR t))"

lemma suffix_tail: "suffix (xs @ ys) d \<Longrightarrow> suffix ys d"
  by (auto simp: suffix_def)

lemma atom_value:
  assumes "query_word (snd v)"
  shows "atom_ok addr (Q_VALUE v)"
  unfolding atom_ok_def
proof (intro allI impI)
  fix n d rest
  let ?xs = "print_atom (Q_VALUE v) @ rest"
  assume sf: "suffix ?xs d" and n: "4 * length ?xs + 1 \<le> n" and fo: "follow rest"
  have xs: "?xs = snd v @ rest" by (simp add: print_atom_def parens_def)
  obtain n' where "n = Suc n'" using n by (cases n) auto
  moreover have "isBraceStart (tq d ?xs) = Some (False, tq d ?xs)"
    using word_not_keyword [OF assms, of rest] tokenSeen_tq [OF sf keyword(1) keyword(6)] xs by (simp add: isBraceStart_def)
  moreover obtain p where "getTokenQueryParser (tq d ?xs) = Some ((p, length (snd v)), tq d rest)"
    "view_text (tq d rest) (p, length (snd v)) = snd v"
    using getToken_word [OF assms fo] sf xs by metis
  ultimately show "reads_back (parseAtom addr n (tq d ?xs)) d rest (\<lambda>f. holds f (Q_VALUE v)) True"
    by (simp add: reads_back_def)
qed

lemma not_spaces [simp]: "\<not> u__isspace 40" "\<not> u__isspace 41" "\<not> u__isspace 65" "\<not> u__isspace 78" "\<not> u__isspace 79"
    "u__isspace SPACE"
  by (simp_all add: char_class)

lemma atom_braces:
  assumes "expr_ok addr c" "is_AND c \<or> is_OR c"
  shows "atom_ok addr c"
  unfolding atom_ok_def
proof (intro allI impI)
  fix n d rest
  let ?xs = "print_atom c @ rest" and ?ys = "print_query c @ 41 # rest"
  assume sf: "suffix ?xs d" and n: "4 * length ?xs + 1 \<le> n" and fo: "follow rest"
  have xs: "?xs = 40 # ?ys" using assms(2) by (simp add: print_atom_def parens_def bytes_def)
  have sy: "suffix ?ys d" "suffix (41 # rest) d"
    using sf xs suffix_tail [of "[40]" ?ys d] suffix_tail [of "40 # print_query c" "41 # rest" d] by auto
  obtain n' where n': "n = Suc n'" using n by (cases n) auto
  have "isBraceStart (tq d ?xs) = Some (True, tq d ?ys)"
    using tokenSeen_tq [OF sf keyword(1) keyword(6)] unfolding xs by (simp add: isBraceStart_def)
  moreover have "reads_back (parseExpr addr n' (tq d ?ys)) d (41 # rest) (\<lambda>f. holds f c) True"
  proof -
    have "4 * length ?ys + 4 \<le> n'" using n n' xs by simp
    moreover have "follow (41 # rest)" by (simp add: follow_def name_char_def)
    ultimately show ?thesis
      using assms sy(1) by (fastforce simp: expr_ok_def)
  qed
  moreover have "isBraceEnd (tq d (41 # rest)) = Some (True, tq d rest)"
    using tokenSeen_tq [OF sy(2) keyword(2) keyword(7)] by (simp add: isBraceEnd_def)
  ultimately show "reads_back (parseAtom addr n (tq d ?xs)) d rest (\<lambda>f. holds f c) True"
    unfolding n' by (auto simp: reads_back_def)
qed

lemma skip_nots_text:
  assumes "suffix xs d" "strip xs = strip (concat (replicate k NOT_text) @ ys)" "strip ys = ys" "\<not> prefix s_not ys" "suffix ys d"
  shows "skip_nots (tq d xs) v = Some (if even k then v else \<not> v, tq d ys)"
  using assms(1, 2)
proof (induction k arbitrary: xs v)
  case 0
  then show ?case
    using tokenSeen_tq [OF 0(1) keyword(5) keyword(10)] assms(3, 4) by (simp add: skip_nots.simps [of "tq d xs"] isNOT_def)
next
  case (Suc k)
  let ?zs = "SPACE # concat (replicate k NOT_text) @ ys"
  have st: "strip xs = s_not @ ?zs" using Suc.prems(2) by (simp add: NOT_text_def)
  then have "isNOT (tq d xs) = Some (True, tq d ?zs)"
    using tokenSeen_tq [OF Suc.prems(1) keyword(5) keyword(10)] by (simp add: isNOT_def)
  moreover have "suffix ?zs d" using suffix_strip [OF Suc.prems(1)] unfolding st by (rule suffix_tail)
  moreover have "strip ?zs = strip (concat (replicate k NOT_text) @ ys)" by simp
  ultimately show ?case
    using Suc.IH [of ?zs "\<not> v"] by (simp add: skip_nots.simps [of "tq d xs"])
qed

lemma atom_start:
  assumes "words_ok c" "\<not> is_NOT c" "follow rest"
  shows "strip (print_atom c @ rest) = print_atom c @ rest" "\<not> prefix s_not (print_atom c @ rest)"
  using assms word_not_keyword(1) word_not_NOT
  by (cases c; simp add: print_atom_def parens_def words_ok_def)+

lemma core_not: "\<not> is_NOT (core t)"
  by (induction t) auto

lemma words_core: "words_of (core t) = words_of t"
  by (induction t) auto

lemma factor_back:
  assumes "atom_ok addr (core t)" "words_ok t" "suffix (print_atom t @ rest) d" "4 * length (print_atom t @ rest) + 2 \<le> n" "follow rest"
  shows "reads_back (parseFactor addr n (tq d (print_atom t @ rest))) d rest (\<lambda>f. holds f t) (\<not> is_NOT t)"
proof -
  let ?ys = "print_atom (core t) @ rest"
  obtain n' where n': "n = Suc n'" using assms(4) by (cases n) auto
  have xs: "print_atom t @ rest = concat (replicate (nots t) NOT_text) @ ?ys" using print_nots [of t] by simp
  have ok: "words_ok (core t)" using assms(2) by (simp add: words_ok_def words_core)
  have sf: "suffix ?ys d" using assms(3) unfolding xs by (rule suffix_tail)
  note st = atom_start [OF ok core_not assms(5)]
  have "skip_nots (tq d (print_atom t @ rest)) True = Some (even (nots t), tq d ?ys)"
    using skip_nots_text [OF assms(3) _ st sf, of "nots t" True] xs by simp
  moreover have "4 * length ?ys + 1 \<le> n'" using assms(4) n' xs by simp
  then have "reads_back (parseAtom addr n' (tq d ?ys)) d rest (\<lambda>f. holds f (core t)) True"
    using assms(1, 5) sf by (simp add: atom_ok_def)
  moreover have "even (nots t)" if "\<not> is_NOT t" using that by (cases t) auto
  ultimately show ?thesis
    unfolding n' by (auto simp: reads_back_def holds_core [of _ t])
qed

text \<open>A sequence of factors, and a sequence of terms.\<close>

lemma follow_space [simp]: "follow (SPACE # xs)"
  by (simp add: follow_def name_char_def)

lemma term_back:
  assumes "fs \<noteq> []" "\<forall>t \<in> set fs. \<not> is_AND t \<and> words_ok t \<and> atom_ok addr (core t)"
    and "suffix (sep_by AND_text (map print_term fs) @ rest) d" "4 * length (sep_by AND_text (map print_term fs) @ rest) + 3 \<le> n"
    and "follow rest" "\<not> prefix s_and (strip rest)"
  shows "reads_back (parseTerm addr n (tq d (sep_by AND_text (map print_term fs) @ rest))) d (strip rest)
    (\<lambda>f. \<forall>t \<in> set fs. holds f t) (1 < length fs \<or> \<not> is_NOT (hd fs))"
  using assms(1-4)
proof (induction fs arbitrary: n rule: induct_list012)
  case (2 t)
  obtain n' where n': "n = Suc n'" using 2(4) by (cases n) auto
  have p: "print_term t = print_atom t" using 2(2) by (simp add: print_term_def print_atom_def)
  have "reads_back (parseFactor addr n' (tq d (print_atom t @ rest))) d rest (\<lambda>f. holds f t) (\<not> is_NOT t)"
    using 2 n' p assms(5) by (intro factor_back) auto
  moreover have "suffix rest d" using 2(3) by (simp add: suffix_tail)
  ultimately show ?case
    unfolding n' using tokenSeen_tq [OF _ keyword(4) keyword(9), of rest d] assms(6) p
    by (auto simp: reads_back_def isAND_def simp del: bytes_simps)
next
  case (3 t u fs)
  let ?zs = "sep_by AND_text (map print_term (u # fs)) @ rest" and ?ys = "AND_text @ sep_by AND_text (map print_term (u # fs)) @ rest"
  obtain n' where n': "n = Suc n'" using 3(6) by (cases n) auto
  have p: "print_term t = print_atom t" using 3(4) by (simp add: print_term_def print_atom_def)
  have xs: "sep_by AND_text (map print_term (t # u # fs)) @ rest = print_atom t @ ?ys" using p by simp
  have sf: "suffix (print_atom t @ ?ys) d" using 3(5) unfolding xs .
  then have sy: "suffix ?ys d" by (rule suffix_tail)
  then have sz: "suffix ?zs d" "suffix (SPACE # ?zs) d"
    using suffix_tail [of AND_text ?zs d] suffix_tail [of "[SPACE] @ s_and" "SPACE # ?zs" d] by (auto simp: AND_text_def)
  have "reads_back (parseFactor addr n' (tq d (print_atom t @ ?ys))) d ?ys (\<lambda>f. holds f t) (\<not> is_NOT t)"
    using 3(4, 6) sf n' xs by (intro factor_back) (auto simp: AND_text_def)
  moreover have "isAND (tq d ?ys) = Some (True, tq d (SPACE # ?zs))"
    using tokenSeen_tq [OF sy keyword(4) keyword(9)] by (simp add: isAND_def AND_text_def)
  moreover have "reads_back (parseTerm addr n' (tq d (SPACE # ?zs))) d (strip rest) (\<lambda>f. \<forall>t \<in> set (u # fs). holds f t) (1 < length (u # fs) \<or> \<not> is_NOT u)"
    using 3(2) [of n'] 3(4, 6) sz n' xs parse_strip(3) [OF sz(2, 1), of addr n'] by (simp add: AND_text_def)
  ultimately show ?case
    unfolding n' xs by (auto simp: reads_back_def)
qed simp

text \<open>The terms of a disjunction, each with its factors ready to be read.\<close>

definition term_ready :: "(nat \<Rightarrow> u64) \<Rightarrow> query_node \<Rightarrow> bool" where
  "term_ready addr u \<longleftrightarrow> (\<forall>t \<in> set (conjuncts u). \<not> is_AND t \<and> words_ok t \<and> atom_ok addr (core t))"

lemma term_ready_back:
  assumes "term_ready addr u" "suffix (print_term u @ rest) d" "4 * length (print_term u @ rest) + 3 \<le> n" "follow rest"
    "\<not> prefix s_and (strip rest)"
  shows "reads_back (parseTerm addr n (tq d (print_term u @ rest))) d (strip rest) (\<lambda>f. holds f u) (\<not> is_NOT u)"
proof -
  have "1 < length (conjuncts u) \<or> \<not> is_NOT (hd (conjuncts u))" if "\<not> is_NOT u"
  proof (cases u)
    case (Q_AND l r)
    then show ?thesis by (cases "conjuncts l"; cases "conjuncts r") auto
  qed (use that in auto)
  then show ?thesis
    using term_back [of "conjuncts u" addr rest d n] assms
    unfolding print_conjuncts [of u] holds_conjuncts [of _ u] term_ready_def by (auto simp: reads_back_def)
qed

lemma expr_back:
  assumes "us \<noteq> []" "\<forall>u \<in> set us. term_ready addr u"
    and "suffix (sep_by OR_text (map print_term us) @ rest) d" "4 * length (sep_by OR_text (map print_term us) @ rest) + 4 \<le> n"
    and "follow rest" "\<not> prefix s_and (strip rest)" "\<not> prefix s_or (strip rest)"
  shows "reads_back (parseExpr addr n (tq d (sep_by OR_text (map print_term us) @ rest))) d (strip rest)
    (\<lambda>f. \<exists>u \<in> set us. holds f u) (1 < length us \<or> \<not> is_NOT (hd us))"
  using assms(1-4)
proof (induction us arbitrary: n rule: induct_list012)
  case (2 u)
  obtain n' where n': "n = Suc n'" using 2(4) by (cases n) auto
  have "reads_back (parseTerm addr n' (tq d (print_term u @ rest))) d (strip rest) (\<lambda>f. holds f u) (\<not> is_NOT u)"
    using 2 n' assms(5, 6) by (intro term_ready_back) auto
  moreover have "suffix (strip rest) d" using 2(3) by (simp add: suffix_tail suffix_strip)
  ultimately show ?case
    unfolding n' using tokenSeen_tq [OF _ keyword(3) keyword(8), of "strip rest" d] assms(7)
    by (auto simp: reads_back_def isOR_def simp del: bytes_simps)
next
  case (3 t u us)
  let ?zs = "sep_by OR_text (map print_term (u # us)) @ rest" and ?ys = "OR_text @ sep_by OR_text (map print_term (u # us)) @ rest"
  obtain n' where n': "n = Suc n'" using 3(6) by (cases n) auto
  have xs: "sep_by OR_text (map print_term (t # u # us)) @ rest = print_term t @ ?ys" by simp
  have sf: "suffix (print_term t @ ?ys) d" using 3(5) unfolding xs .
  then have sy: "suffix ?ys d" by (rule suffix_tail)
  then have sz: "suffix ?zs d" "suffix (SPACE # ?zs) d"
    using suffix_tail [of OR_text ?zs d] suffix_tail [of "[SPACE] @ s_or" "SPACE # ?zs" d] by (auto simp: OR_text_def)
  have st: "strip ?ys = s_or @ SPACE # ?zs" by (simp add: OR_text_def)
  have "reads_back (parseTerm addr n' (tq d (print_term t @ ?ys))) d (s_or @ SPACE # ?zs) (\<lambda>f. holds f t) (\<not> is_NOT t)"
    using 3(4, 6) sf n' xs term_ready_back [of addr t ?ys d n'] unfolding st by (simp add: OR_text_def)
  moreover have "isOR (tq d (s_or @ SPACE # ?zs)) = Some (True, tq d (SPACE # ?zs))"
    using tokenSeen_tq [OF suffix_strip [OF sy, unfolded st] keyword(3) keyword(8)] by (simp add: isOR_def)
  moreover have "reads_back (parseExpr addr n' (tq d (SPACE # ?zs))) d (strip rest) (\<lambda>f. \<exists>t \<in> set (u # us). holds f t) (1 < length (u # us) \<or> \<not> is_NOT u)"
    using 3(2) [of n'] 3(4, 6) sz n' xs parse_strip(4) [OF sz(2, 1), of addr n'] by (simp add: OR_text_def)
  ultimately show ?case
    unfolding n' xs by (auto simp: reads_back_def)
qed simp

lemma expr_ok_terms:
  assumes "\<forall>u \<in> set (disjuncts t). term_ready addr u"
  shows "expr_ok addr t"
proof -
  have "1 < length (disjuncts t) \<or> \<not> is_NOT (hd (disjuncts t))" if "is_AND t \<or> is_OR t"
  proof (cases t)
    case (Q_OR l r)
    then show ?thesis by (cases "disjuncts l"; cases "disjuncts r") auto
  qed (use that in auto)
  then show ?thesis
    using expr_back [OF disjuncts_ne assms]
    unfolding expr_ok_def print_disjuncts [of t] holds_disjuncts [of _ t] by (fastforce simp: reads_back_def)
qed

text \<open>A factor of a query is a word or smaller than the query, under its negations.\<close>

lemma conjunct_parts: "u \<in> set (conjuncts t) \<Longrightarrow> \<not> is_AND u \<and> words_of u \<subseteq> words_of t \<and> (u = t \<or> size u < size t)"
  by (induction t) auto

lemma disjunct_parts: "u \<in> set (disjuncts t) \<Longrightarrow> \<not> is_OR u \<and> words_of u \<subseteq> words_of t \<and> (u = t \<or> size u < size t)"
  by (induction t) auto

lemma core_parts: "core t = t \<or> size (core t) < size t"
  by (induction t) auto

lemma expr_ok_all: "words_ok t \<Longrightarrow> expr_ok addr t"
proof (induction t rule: measure_induct_rule [of size])
  case (less t)
  have "atom_ok addr (core v)" if "u \<in> set (disjuncts t)" "v \<in> set (conjuncts u)" for u v
  proof (cases "core v")
    case (Q_VALUE w)
    have "w \<in> words_of t"
      using disjunct_parts [OF that(1)] conjunct_parts [OF that(2)] words_core [of v] Q_VALUE by auto
    then show ?thesis using less.prems Q_VALUE by (simp add: words_ok_def atom_value)
  next
    case (Q_NOT r)
    then show ?thesis using core_not [of v] by simp
  next
    case (Q_AND l r)
    have "size (core v) < size t"
      using disjunct_parts [OF that(1)] conjunct_parts [OF that(2)] core_parts [of v] Q_AND by auto
    moreover have "words_ok (core v)"
      using less.prems disjunct_parts [OF that(1)] conjunct_parts [OF that(2)] words_core [of v] by (auto simp: words_ok_def)
    ultimately show ?thesis using less.IH Q_AND atom_braces by auto
  next
    case (Q_OR l r)
    have "size (core v) < size t"
      using disjunct_parts [OF that(1)] conjunct_parts [OF that(2)] core_parts [of v] Q_OR by auto
    moreover have "words_ok (core v)"
      using less.prems disjunct_parts [OF that(1)] conjunct_parts [OF that(2)] words_core [of v] by (auto simp: words_ok_def)
    ultimately show ?thesis using less.IH Q_OR atom_braces by auto
  qed
  moreover have "words_ok v" if "u \<in> set (disjuncts t)" "v \<in> set (conjuncts u)" for u v
    using less.prems disjunct_parts [OF that(1)] conjunct_parts [OF that(2)] by (auto simp: words_ok_def)
  ultimately show ?case
    using conjunct_parts by (intro expr_ok_terms) (auto simp: term_ready_def)
qed

section \<open>Properties\<close>


text \<open>
  C9: a query printed by \<open>operator<<\<close> is parsed back. For a query whose words are words to the parser, \<open>parse\<close> accepts the
  output, whatever the nesting of operators and negations, and its normal form is null exactly when no words satisfy
  the query, and otherwise holds for the same words as the query.
\<close>

theorem parse_print:
  assumes "words_ok t"
  shows "\<exists>tree. parse addr (print_query t @ [NUL]) (length (print_query t)) = Some (Inr tree) \<and>
    (case tree of
       None \<Rightarrow> \<forall>f. \<not> holds f t
     | Some d \<Rightarrow> isDisjunctiveNormalForm d \<and> (\<forall>f. holds f d = holds f t))"
proof -
  let ?q = "print_query t"
  have "reads_back (parseExpr addr (4 * length ?q + 8) (tq ?q (?q @ []))) ?q (strip []) (\<lambda>f. holds f t) (is_AND t \<or> is_OR t)"
    using expr_ok_all [OF assms, of addr] unfolding expr_ok_def by (elim allE [of _ "4 * length ?q + 8"] allE [of _ ?q] allE [of _ "[]"]) (simp add: follow_def)
  then obtain u where u: "parse_tree addr (?q @ [NUL]) (length ?q) = Some (Inr (u, tz ?q (length ?q)))" "\<forall>f. holds f u = holds f t" "flat u"
    by (auto simp: reads_back_def parse_tree_def tk_new_def tz_def tq_def)
  obtain r where "getDisjunctiveNormalForm u = Some r"
    "case r of None \<Rightarrow> \<forall>f. \<not> holds f u
     | Some d \<Rightarrow> is_sum d \<and> (\<forall>f. holds f d = holds f u) \<and> (\<exists>f. holds f u) \<and> words_of d \<subseteq> words_of u"
    using dnf_answers [OF flat_no_triple [OF u(3)]] by blast
  then show ?thesis
    using u by (intro exI [of _ r]) (auto simp: parse_def atEnd_def sum_dnf split: option.splits)
qed

definition nested_query :: query_node where
  "nested_query =
     (let a = Q_VALUE (1, bytes ''a''); b = Q_VALUE (2, bytes ''b'')
      in Q_AND (Q_NOT (Q_NOT (Q_NOT a))) (Q_OR a (Q_NOT (Q_AND a b))))"

theorem parse_print_witness:
  "words_ok nested_query \<and>
   (\<exists>tree. parse word_of_nat (print_query nested_query @ [NUL]) (length (print_query nested_query)) = Some (Inr tree) \<and> tree \<noteq> None)"
proof -
  have h: "words_ok nested_query" by code_simp
  obtain tree where tree: "parse word_of_nat (print_query nested_query @ [NUL]) (length (print_query nested_query)) = Some (Inr tree)"
    "case tree of None \<Rightarrow> \<forall>f. \<not> holds f nested_query
     | Some d \<Rightarrow> isDisjunctiveNormalForm d \<and> (\<forall>f. holds f d = holds f nested_query)"
    using parse_print [OF h, of word_of_nat] by blast
  have "holds (\<lambda>w. w = bytes ''b'') nested_query" by code_simp
  then have "tree \<noteq> None" using tree(2) by (cases tree) auto
  with h tree(1) show ?thesis by blast
qed

text \<open>
  What the parser does not intend: a query that ends after an operator gets the terminator of the text for a word; a word that
  begins with an operator is cut; three nested negations in parentheses reach the null pointer of
  \<open>getRawDNF\<close>; and a query that is never true is accepted without a tree.
\<close>

theorem parser_defects:
  "(\<exists>t. parse_tree word_of_nat (bytes ''a AND'' @ [NUL]) 5 = Some (Inr (Q_AND (Q_VALUE (0, bytes ''a'')) (Q_VALUE (5, [NUL])), t))) \<and>
   (\<exists>t. parse_tree word_of_nat (bytes ''NOTE'' @ [NUL]) 4 = Some (Inr (Q_NOT (Q_VALUE (3, bytes ''E'')), t))) \<and>
   (\<exists>t. parse_tree word_of_nat (bytes ''a ORANGE'' @ [NUL]) 8 = Some (Inr (Q_OR (Q_VALUE (0, bytes ''a'')) (Q_VALUE (4, bytes ''ANGE'')), t))) \<and>
   parse word_of_nat (bytes ''NOT (NOT (NOT a))'' @ [NUL]) 17 = None \<and>
   parse word_of_nat (bytes ''a AND NOT a'' @ [NUL]) 11 = Some (Inr None)"
proof (intro conjI)
  show "\<exists>t. parse_tree word_of_nat (bytes ''a AND'' @ [NUL]) 5 = Some (Inr (Q_AND (Q_VALUE (0, bytes ''a'')) (Q_VALUE (5, [NUL])), t))"
    by (intro exI [of _ "\<lparr>tk_str = bytes ''a AND'' @ [NUL], tk_s = 6, tk_end = 5, tk_delim = None\<rparr>"]) code_simp
  show "\<exists>t. parse_tree word_of_nat (bytes ''NOTE'' @ [NUL]) 4 = Some (Inr (Q_NOT (Q_VALUE (3, bytes ''E'')), t))"
    by (intro exI [of _ "\<lparr>tk_str = bytes ''NOTE'' @ [NUL], tk_s = 4, tk_end = 4, tk_delim = None\<rparr>"]) code_simp
  show "\<exists>t. parse_tree word_of_nat (bytes ''a ORANGE'' @ [NUL]) 8 = Some (Inr (Q_OR (Q_VALUE (0, bytes ''a'')) (Q_VALUE (4, bytes ''ANGE'')), t))"
    by (intro exI [of _ "\<lparr>tk_str = bytes ''a ORANGE'' @ [NUL], tk_s = 8, tk_end = 8, tk_delim = None\<rparr>"]) code_simp
qed code_simp+

end
