(* ===== verification/Spec2Isabelle.thy ===== *)
theory Spec2Isabelle
  imports Prelude Ctype Hash Hexdump Base64 Url Xml QuotedPrintable Escape Search Token Wildcard Validate
    Natcmp Utf Path Canonical Atexit Security Fnmatch Mime Strftime
    Date HttpDate HashMap Vector BinaryHeap StringVector MkSort
    Simulation RingBuffer Cache Timer Tokenizer Query QueryParser
begin

text \<open>
  \<^bold>\<open>ULib: the library under the application framework\<close>

  ULib is a C++ framework for server applications. Under its classes lies a library in C,
  \<open>src/src/ulib/base\<close>, that every other part calls: character tables, coders, searches and scanners
  over byte buffers, syntax checks, path names, patterns, hashes, dates, the registry of exit functions
  and the privileges of the process. Above it are the containers and services of \<open>src/src/ulib\<close> that work on
  plain data: vectors, the sort of strings, hash maps, dates, the ring buffer that server processes
  share, the file cache, the timers, the tokenizer and the boolean queries. This development models both layers and proves what their callers rely on.

  \<^bold>\<open>How the code is modelled.\<close> A C integer is a word of its width, or an integer where the theorems bound its
  values; a buffer is the list of its bytes, a pointer into it an offset. Where the code may read or write
  outside a buffer the access is checked (\<open>rd\<close>, \<open>slice\<close>, \<open>blit\<close>) and the model answers \<open>None\<close>, so that a theorem with
  \<open>Some\<close> says that the code stays inside. Where the code works on a terminated string that it never leaves,
  the string is the list of the bytes before the terminator. An array of a container is a list of cells, \<open>None\<close> where
  nothing was written; linked nodes whose addresses matter are in a store, and using a deleted one is \<open>None\<close>.
  Global and static variables are passed and returned. A call that ends the process is a value of a sum or option
  type. The operating system (\<open>access\<close>, \<open>getenv\<close>, \<open>gmtime_r\<close>, the user and group calls, the clock, \<open>read\<close> and \<open>write\<close>)
  is a parameter; what the code relies on is stated as a hypothesis or a locale, and a concrete instance
  shows that it can hold. Assertions and traces, compiled only for debugging, are left out, or become
  preconditions; so is the code for Windows.

  \<^bold>\<open>The C library.\<close>

  \<^item> \<open>Prelude\<close>: machine types, character constants, checked reads, the C library's searches, lemmas on
    lists and words, and the locales \<open>byte_table\<close> (facts about all 256 entries of a table) and \<open>codec\<close>
    (an encoder and its decoder; every coder below interprets it).
  \<^item> \<open>Ctype\<close> (\<open>utility.c\<close>, \<open>utility.h\<close>): the classification tables and predicates, hexadecimal numbers.
  \<^item> \<open>Hash\<close> (\<open>hash.c\<close>): the permutation \<open>u_random\<close>, the hash of cdb, MurmurHash3. They are injective
    where they promise it, and fold the case where they promise it, except in the tail of \<open>u_hash\<close>.
  \<^item> \<open>Hexdump\<close>, \<open>Base64\<close>, \<open>Url\<close>, \<open>Xml\<close>, \<open>QuotedPrintable\<close>, \<open>Escape\<close> (\<open>coder/*.c\<close>): both directions of every coder. Each
    has a round trip, with the inputs it fails on stated next to it, and where the output is bounded
    or safe to embed, the bound and the safety.
  \<^item> \<open>Search\<close>, \<open>Token\<close>, \<open>Wildcard\<close>, \<open>Validate\<close>, \<open>Natcmp\<close>, \<open>Utf\<close> (\<open>utility.c\<close>): end of the headers, balanced delimiters,
    splitting into words, wildcard masks, hosts, URLs and e-mail addresses, natural order, UTF-8 and
    UTF-16 detection. Each is proved equal to a declarative specification, or characterised by it.
    The loop of \<open>Wildcard\<close> is a partial function, and its theorem says that it returns.
  \<^item> \<open>Path\<close> and \<open>Canonical\<close> (\<open>utility.c\<close>, \<open>base.c\<close>): path names. The six passes of \<open>u_canonicalize_pathname\<close>
    over the bytes are proved equal to a stack machine on components; the search along a path and the
    command line for \<open>exec\<close> are built on it and on \<open>Token\<close>.
  \<^item> \<open>Atexit\<close> (\<open>base.c\<close>): the table of exit functions, proved to refine a stack without duplicates through
    the locale \<open>exit_registry\<close>.
  \<^item> \<open>Security\<close> (\<open>utility.c\<close>): the identities of a setuid program as a record, the calls as steps of an
    inductive relation. The locale \<open>posix_os\<close> states what the system promises; the invariant is proved
    by rule induction over every sequence of calls.
  \<^item> \<open>Fnmatch\<close> (\<open>utility.c\<close>): file name patterns with their flags, brackets and nesting limit. It returns on
    all terminated operands, decides the language of patterns without brackets, and never lets a
    wildcard match a slash under \<open>FNM_PATHNAME\<close>.
  \<^item> \<open>Mime\<close> (\<open>utility.c\<close>): the tables of MIME types and their search.
  \<^item> \<open>Strftime\<close> (\<open>base.c\<close>): dates written by a format and months read back.

  \<^bold>\<open>Containers and services.\<close>

  \<^item> \<open>Vector\<close> (\<open>container/vector.h\<close>, \<open>vector.cpp\<close>): the growing array, proved to refine lists for every
    sequence of its operations.
  \<^item> \<open>BinaryHeap\<close> (\<open>vector.h\<close>): \<open>bh_put\<close> and \<open>bh_get\<close> on a vector refine a multiset through the locale
    \<open>priority_queue\<close>, whose lemma that drawing all elements sorts them is proved once.
  \<^item> \<open>StringVector\<close> (\<open>vector.cpp\<close>, \<open>string.h\<close>): splitting and joining of strings, on \<open>Token\<close>; the binary search, in the
    locale \<open>key_order\<close> for both comparisons of strings; set operations.
  \<^item> \<open>MkSort\<close> (\<open>vector.cpp\<close>): the three-way radix quicksort with its insertion sort. It is a partial function whose
    theorem says that it returns a sorted permutation, in which the binary search finds exactly its elements.
  \<^item> \<open>HashMap\<close> (\<open>container/hash_map.h\<close>, \<open>hash_map.cpp\<close>): chains of nodes in a store, with rehashing, cursors and
    traversals. The locale \<open>hash_key\<close> states what hash and equality owe each other; with it the map refines
    partial functions, exactly and, for the keys where \<open>Hash\<close> folds the case, up to case.
  \<^item> \<open>Date\<close> and \<open>HttpDate\<close> (\<open>date.cpp\<close>, \<open>date.h\<close>): Julian days number the days of the calendar one after the other,
    the cached day stays right except after \<open>addMonths\<close>, and the HTTP dates of \<open>Strftime\<close> read back.
  \<^item> \<open>Simulation\<close>: sequences of operations, and the locales \<open>simulation\<close> and \<open>loose_simulation\<close> of a component and its
    specification.
  \<^item> \<open>RingBuffer\<close> (\<open>utility/ring_buffer.cpp\<close>): one writer and up to 1024 readers over a circular memory refine a queue of
    unread bytes for each reader, inside the room they leave; outside of it the code overruns.
  \<^item> \<open>Cache\<close> (\<open>cache.cpp\<close>, \<open>cache.h\<close>): the memory-mapped cache, byte by byte, with its chains linked by exclusive or and its
    two runs of entries. The loop that makes room is a partial function; it is proved to return, and the cache to be
    a first-in first-out store. A cache made for a directory holds all its files.
  \<^item> \<open>Timer\<close> (\<open>timer.cpp\<close>, \<open>event_time.cpp\<close>, \<open>timeval.cpp\<close>): the sorted list of timers with its pool of nodes and the deletion of
    alarms, as an inductive relation. Order and memory safety are invariants for every clock and every handler; the
    loop that calls the handlers is a partial function, and returns when the handlers stop asking for more.
  \<^item> \<open>Tokenizer\<close> (\<open>tokenizer.cpp\<close>, \<open>tokenizer.h\<close>): the tokenizer, on \<open>Token\<close> and \<open>Search\<close>. The locale \<open>word_scanner\<close> states what the three
    overloads of \<open>next\<close> share, and that they give the words of a text is proved once in it. The tokens of an
    expression have the form of their id and lie inside the text, and a printed expression reads back.
  \<^item> \<open>Query\<close> (\<open>query/query_parser.cpp\<close>): the trees of boolean queries. The transformation into disjunctive normal form is a
    partial function; the queries on which it dereferences a null pointer are characterised, and on all others it is
    proved to return an equivalent normal form. The evaluation, with its memory of answers, decides the query.
  \<^item> \<open>QueryParser\<close> (\<open>query/query_parser.cpp\<close>, \<open>query/parser.h\<close>): the recursive descent over the tokenizer, and the output of a query. The
    parser ends on every text, and what is printed is parsed back to an equivalent query.

  \<^bold>\<open>Bounds and fuel.\<close> The recursions follow the data or a measure; a loop that may run
  forever is a partial function, and the theorems about it say that it returns. Only the four functions of the query parser,
  which call each other, have fuel: four steps for a character of the rest and eight more, which is proved to be
  enough on every text. The nesting
  limit 20 of \<open>kfnmatch\<close>, the 32 slots of the exit table, the 1024 bytes of \<open>U_PATH_MAX\<close>, the 1024 descriptors of the
  ring buffer, the hundred steps of a cache lookup and the widths of the words are those of the code, and
  the theorems that depend on them say so. Capacities of vectors wrap at $2^{32}$, and their theorems keep lists below
  $2^{31}$ elements, the heap and the binary search below $2^{30}$; caches have from 100 to $10^9$ bytes, as the code asserts.

  \<^bold>\<open>Not modelled.\<close> Formatted output (\<open>u__vsnprintf\<close>), the memory dump and the start of the library in \<open>base.c\<close>
  and \<open>utility.c\<close>; queries of the operating system and floating point; error texts and traces; wrappers
  around zlib and OpenSSL; the vendored zip tool, LZO and parser generator; the reference counts of strings, the
  stream operators, locks between processes, the remaining classes, and the servers and programs built from them.
\<close>

end
